(* ===== verification/Nachos_Prelude.thy ===== *)
theory Nachos_Prelude
  imports Main "HOL-Library.Word" "HOL-Library.Monad_Syntax" "HOL-Library.Signed_Division"
begin

text \<open>
  What every component of the model shares: the reading of a C++ run that stops
  (\<open>ASSERT\<close>, an index out of range) as \<open>None\<close>, checked array accesses, counted
  loops, the two division macros of \<open>lib/utility.h\<close>, and the little-endian layout of a
  32-bit \<open>int\<close> in memory. \<open>run_simps\<close> collects the rules that turn a
  completed block of statements into the facts it established.
\<close>

unbundle bit_operations_syntax

named_theorems run_simps \<open>rules that execute a block of checked statements\<close>

type_synonym byte = "8 word"
type_synonym u32 = "32 word"

subsection \<open>Statements that may stop the machine\<close>

text \<open>
  \<open>ASSERT\<close> of \<open>lib/debug.h\<close> calls \<open>Abort\<close> when its condition is false. A run that
  ends so, or that reads or writes outside an array or through a pointer that points nowhere,
  is the value \<open>None\<close>; every other run is \<open>Some\<close> of what it computes.
\<close>

definition ASSERT :: "bool \<Rightarrow> unit option" where
  "ASSERT b = (if b then Some () else None)"

definition arr_get :: "'a list \<Rightarrow> int \<Rightarrow> 'a option" where
  "arr_get xs i = (if 0 \<le> i \<and> i < int (length xs) then Some (xs ! nat i) else None)"

definition arr_set :: "'a list \<Rightarrow> int \<Rightarrow> 'a \<Rightarrow> 'a list option" where
  "arr_set xs i v = (if 0 \<le> i \<and> i < int (length xs) then Some (xs[nat i := v]) else None)"

fun foldM :: "('a \<Rightarrow> 's \<Rightarrow> 's option) \<Rightarrow> 'a list \<Rightarrow> 's \<Rightarrow> 's option" where
  "foldM f [] s = Some s"
| "foldM f (x # xs) s = do { s' \<leftarrow> f x s; foldM f xs s' }"

lemma ASSERT_True [run_simps, simp]: "ASSERT True = Some ()"
  by (simp add: ASSERT_def)

lemma ASSERT_False [run_simps, simp]: "ASSERT False = None"
  by (simp add: ASSERT_def)

lemma ASSERT_eq_Some [run_simps, simp]: "ASSERT b = Some u \<longleftrightarrow> b"
  by (simp add: ASSERT_def)

lemma ASSERT_eq_None [run_simps, simp]: "ASSERT b = None \<longleftrightarrow> \<not> b"
  by (simp add: ASSERT_def)

lemma bind_ASSERT: "(ASSERT b \<bind> f) = (if b then f () else None)"
  by (simp add: ASSERT_def)

lemma bind_Some_conv [run_simps]: "(m \<bind> f) = Some y \<longleftrightarrow> (\<exists>x. m = Some x \<and> f x = Some y)"
  by (cases m) auto

lemma arr_get_Some_iff [run_simps]:
  "arr_get xs i = Some v \<longleftrightarrow> 0 \<le> i \<and> i < int (length xs) \<and> v = xs ! nat i"
  by (auto simp: arr_get_def)

lemma arr_set_Some_iff [run_simps]:
  "arr_set xs i v = Some ys \<longleftrightarrow> 0 \<le> i \<and> i < int (length xs) \<and> ys = xs[nat i := v]"
  by (auto simp: arr_set_def)

lemma arr_get_in: "0 \<le> i \<Longrightarrow> i < int (length xs) \<Longrightarrow> arr_get xs i = Some (xs ! nat i)"
  by (simp add: arr_get_def)

lemma arr_set_in: "0 \<le> i \<Longrightarrow> i < int (length xs) \<Longrightarrow> arr_set xs i v = Some (xs[nat i := v])"
  by (simp add: arr_set_def)

lemma arr_set_length: "arr_set xs i v = Some ys \<Longrightarrow> length ys = length xs"
  by (auto simp: arr_set_Some_iff)

lemma foldM_append: "foldM f (xs @ ys) s = (foldM f xs s \<bind> foldM f ys)"
  by (induction xs arbitrary: s) (auto split: bind_splits)

lemma foldM_invariant:
  assumes "P s" and "\<And>x s s'. x \<in> set xs \<Longrightarrow> P s \<Longrightarrow> f x s = Some s' \<Longrightarrow> P s'"
    and "foldM f xs s = Some t"
  shows "P t"
  using assms by (induction xs arbitrary: s) (auto simp: bind_Some_conv)

lemma foldM_total:
  assumes "P s" and "\<And>x s. x \<in> set xs \<Longrightarrow> P s \<Longrightarrow> \<exists>s'. f x s = Some s' \<and> P s'"
  shows "\<exists>t. foldM f xs s = Some t \<and> P t"
  using assms
proof (induction xs arbitrary: s)
  case Nil
  then show ?case by simp
next
  case (Cons x xs)
  then obtain s' where "f x s = Some s'" and "P s'" by fastforce
  with Cons show ?case by fastforce
qed

lemma foldM_ASSERT: "foldM (\<lambda>x _. ASSERT (P x)) xs u = ASSERT (\<forall>x \<in> set xs. P x)"
  by (induction xs arbitrary: u) (auto simp: ASSERT_def)

subsection \<open>Copies between buffers\<close>

text \<open>
  \<open>bcopy\<close> into and out of a buffer at an offset. A copy that would leave the buffer is
  \<open>None\<close>: the C++ run then touches memory outside the array.
\<close>

definition bytes_put :: "'a list \<Rightarrow> int \<Rightarrow> 'a list \<Rightarrow> 'a list option" where
  "bytes_put buf off bs =
     (if 0 \<le> off \<and> off + int (length bs) \<le> int (length buf)
      then Some (take (nat off) buf @ bs @ drop (nat off + length bs) buf) else None)"

definition bytes_get :: "'a list \<Rightarrow> int \<Rightarrow> int \<Rightarrow> 'a list option" where
  "bytes_get buf off len =
     (if 0 \<le> off \<and> 0 \<le> len \<and> off + len \<le> int (length buf)
      then Some (take (nat len) (drop (nat off) buf)) else None)"

lemma bytes_put_Some_iff [run_simps]:
  "bytes_put buf off bs = Some b \<longleftrightarrow> 0 \<le> off \<and> off + int (length bs) \<le> int (length buf) \<and>
     b = take (nat off) buf @ bs @ drop (nat off + length bs) buf"
  by (auto simp: bytes_put_def)

lemma bytes_get_Some_iff [run_simps]:
  "bytes_get buf off len = Some b \<longleftrightarrow> 0 \<le> off \<and> 0 \<le> len \<and> off + len \<le> int (length buf) \<and>
     b = take (nat len) (drop (nat off) buf)"
  by (auto simp: bytes_get_def)

lemma bytes_put_length: "bytes_put buf off bs = Some b \<Longrightarrow> length b = length buf"
  by (auto simp: bytes_put_def min_def split: if_splits)

lemma bytes_put_append:
  "bytes_put (pre @ mid @ post) (int (length pre)) bs = Some (pre @ bs @ post)"
  if "length bs = length mid"
  using that by (simp add: bytes_put_def)

lemma bytes_get_put:
  assumes "bytes_put buf off bs = Some b"
  shows "bytes_get b off (int (length bs)) = Some bs"
  using assms by (auto simp: bytes_put_def bytes_get_def min_def split: if_splits)

subsection \<open>Division\<close>

text \<open>
  The \<open>/\<close> and \<open>%\<close> of the source truncate towards zero: \<open>sdiv\<close> and \<open>smod\<close> of the
  library. On the non-negative numbers the kernel divides they are \<open>div\<close> and \<open>mod\<close>.
\<close>

definition divRoundDown :: "int \<Rightarrow> int \<Rightarrow> int" where
  "divRoundDown n s = n sdiv s"

definition divRoundUp :: "int \<Rightarrow> int \<Rightarrow> int" where
  "divRoundUp n s = (n sdiv s) + (if n smod s > 0 then 1 else 0)"

lemma sdiv_nonneg [simp]: "0 \<le> a \<Longrightarrow> 0 < b \<Longrightarrow> a sdiv b = a div b" for a b :: int
  by (cases "a = 0") (simp_all add: signed_divide_int_def)

lemma smod_nonneg [simp]: "0 \<le> a \<Longrightarrow> 0 < b \<Longrightarrow> a smod b = a mod b"
  for a b :: int
  by (cases "a = 0") (simp_all add: signed_modulo_int_def)

lemma divRoundUp_bounds:
  assumes "0 \<le> n" and "0 < s"
  shows "n \<le> divRoundUp n s * s" and "divRoundUp n s * s < n + s" and "0 \<le> divRoundUp n s"
proof -
  have eq: "n = n div s * s + n mod s" and r: "0 \<le> n mod s" "n mod s < s"
    using assms by simp_all
  have up: "divRoundUp n s * s = n div s * s + (if n mod s > 0 then s else 0)"
    using assms by (simp add: divRoundUp_def distrib_right)
  show "n \<le> divRoundUp n s * s"
    unfolding up by (cases "n mod s > 0") (simp_all only: if_True if_False, (use eq r in linarith)+)
  show "divRoundUp n s * s < n + s"
    unfolding up by (cases "n mod s > 0") (simp_all only: if_True if_False, (use eq r in linarith)+)
  show "0 \<le> divRoundUp n s"
    using assms by (simp add: divRoundUp_def pos_imp_zdiv_nonneg_iff)
qed

lemma divRoundUp_le_iff:
  assumes "0 \<le> n" and "0 < s"
  shows "divRoundUp n s \<le> k \<longleftrightarrow> n \<le> k * s"
proof
  assume "divRoundUp n s \<le> k"
  then have "divRoundUp n s * s \<le> k * s" using assms by simp
  with divRoundUp_bounds(1) [OF assms] show "n \<le> k * s" by linarith
next
  assume "n \<le> k * s"
  with divRoundUp_bounds(2) [OF assms] have "divRoundUp n s * s < (k + 1) * s"
    by (simp add: distrib_right)
  with assms show "divRoundUp n s \<le> k" by simp
qed

subsection \<open>An \<open>int\<close> as four bytes\<close>

text \<open>
  The build is \<open>-m32\<close> on a little-endian host: an \<open>int\<close> in memory is four bytes, the least
  significant first, in two's complement.
\<close>

definition int_to_bytes :: "int \<Rightarrow> byte list" where
  "int_to_bytes i = map (\<lambda>k. ucast (drop_bit (8 * k) (word_of_int i :: u32))) [0..<4]"

definition bytes_to_word :: "byte list \<Rightarrow> u32" where
  "bytes_to_word bs = foldr (\<lambda>b w. push_bit 8 w OR ucast b) (take 4 bs) 0"

definition bytes_to_int :: "byte list \<Rightarrow> int" where
  "bytes_to_int bs = sint (bytes_to_word bs)"

definition int_range :: "int \<Rightarrow> bool" where
  "int_range i \<longleftrightarrow> - (2 ^ 31) \<le> i \<and> i < 2 ^ 31"

lemma length_int_to_bytes [simp]: "length (int_to_bytes i) = 4"
  by (simp add: int_to_bytes_def)

lemma bytes_to_word_int_to_bytes: "bytes_to_word (int_to_bytes i) = word_of_int i"
proof (rule bit_word_eqI)
  fix n assume "n < LENGTH(32)"
  then have n: "n < 32" by simp
  have four: "[0..<4] = [0, 1, 2, 3 :: nat]" by (simp add: upt_rec)
  consider "n < 8" | "8 \<le> n \<and> n < 16" | "16 \<le> n \<and> n < 24" | "24 \<le> n" by linarith
  then show "bit (bytes_to_word (int_to_bytes i)) n = bit (word_of_int i :: u32) n"
    using n by cases (auto simp: bytes_to_word_def int_to_bytes_def four bit_simps)
qed

lemma bytes_to_int_int_to_bytes [simp]: "int_range i \<Longrightarrow> bytes_to_int (int_to_bytes i) = i"
  by (simp add: bytes_to_int_def bytes_to_word_int_to_bytes int_range_def
      signed_take_bit_int_eq_self_iff sint_sbintrunc')

text \<open>A run of \<open>int\<close>s (a struct of \<open>int\<close>s, an array) as bytes and back.\<close>

definition ints_to_bytes :: "int list \<Rightarrow> byte list" where
  "ints_to_bytes is = concat (map int_to_bytes is)"

fun bytes_to_ints :: "nat \<Rightarrow> byte list \<Rightarrow> int list" where
  "bytes_to_ints 0 bs = []"
| "bytes_to_ints (Suc n) bs = bytes_to_int (take 4 bs) # bytes_to_ints n (drop 4 bs)"

lemma length_ints_to_bytes [simp]: "length (ints_to_bytes is) = 4 * length is"
  by (induction "is") (auto simp: ints_to_bytes_def)

lemma length_bytes_to_ints [simp]: "length (bytes_to_ints n bs) = n"
  by (induction n arbitrary: bs) auto

lemma bytes_to_ints_roundtrip:
  "\<forall>i \<in> set is. int_range i \<Longrightarrow> bytes_to_ints (length is) (ints_to_bytes is @ rest) = is"
  by (induction "is") (auto simp: ints_to_bytes_def)

end
