(* ===== verification/Bitmap.thy ===== *)
theory Bitmap
  imports Nachos_Prelude
begin

text \<open>
  \<open>lib/bitmap.h\<close> and \<open>lib/bitmap.cc\<close>: an array of bits packed in 32-bit words, with the
  range checks and the final self-check of every operation. \<open>bm_bit\<close> reads the bits, and the
  operations are proved to be the obvious ones on it.
\<close>

unbundle bit_operations_syntax

definition BitsInByte :: int where "BitsInByte = 8"
definition BitsInWord :: int where "BitsInWord = 4 * BitsInByte"

record bitmap =
  numBits :: int
  numWords :: int
  bm_map :: "u32 list"

definition Test :: "bitmap \<Rightarrow> int \<Rightarrow> bool option" where
  "Test b which = do {
     ASSERT (0 \<le> which \<and> which < numBits b);
     w \<leftarrow> arr_get (bm_map b) (which sdiv BitsInWord);
     Some (w AND push_bit (nat (which smod BitsInWord)) 1 \<noteq> 0) }"

definition Mark :: "bitmap \<Rightarrow> int \<Rightarrow> bitmap option" where
  "Mark b which = do {
     ASSERT (0 \<le> which \<and> which < numBits b);
     w \<leftarrow> arr_get (bm_map b) (which sdiv BitsInWord);
     ws \<leftarrow> arr_set (bm_map b) (which sdiv BitsInWord)
             (w OR push_bit (nat (which smod BitsInWord)) 1);
     let b' = b\<lparr>bm_map := ws\<rparr>;
     t \<leftarrow> Test b' which;
     ASSERT t;
     Some b' }"

definition Clear :: "bitmap \<Rightarrow> int \<Rightarrow> bitmap option" where
  "Clear b which = do {
     ASSERT (0 \<le> which \<and> which < numBits b);
     w \<leftarrow> arr_get (bm_map b) (which sdiv BitsInWord);
     ws \<leftarrow> arr_set (bm_map b) (which sdiv BitsInWord)
             (w AND NOT (push_bit (nat (which smod BitsInWord)) 1));
     let b' = b\<lparr>bm_map := ws\<rparr>;
     t \<leftarrow> Test b' which;
     ASSERT (\<not> t);
     Some b' }"

definition Bitmap_new :: "int \<Rightarrow> bitmap option" where
  "Bitmap_new numItems = do {
     ASSERT (numItems > 0);
     let nw = divRoundUp numItems BitsInWord;
     let b = \<lparr>numBits = numItems, numWords = nw, bm_map = replicate (nat nw) 0\<rparr>;
     foldM (\<lambda>i b. Clear b i) [0..numItems - 1] b }"

fun FindAndSet_loop :: "int list \<Rightarrow> bitmap \<Rightarrow> (int \<times> bitmap) option" where
  "FindAndSet_loop [] b = Some (-1, b)"
| "FindAndSet_loop (i # is) b = do {
     t \<leftarrow> Test b i;
     if \<not> t then do { b' \<leftarrow> Mark b i; Some (i, b') } else FindAndSet_loop is b }"

definition FindAndSet :: "bitmap \<Rightarrow> (int \<times> bitmap) option" where
  "FindAndSet b = FindAndSet_loop [0..numBits b - 1] b"

definition NumClear :: "bitmap \<Rightarrow> int option" where
  "NumClear b = foldM (\<lambda>i count. do { t \<leftarrow> Test b i; Some (if \<not> t then count + 1 else count) })
     [0..numBits b - 1] 0"

definition SelfTest :: "bitmap \<Rightarrow> bitmap option" where
  "SelfTest b = do {
     ASSERT (numBits b \<ge> BitsInWord);
     n \<leftarrow> NumClear b; ASSERT (n = numBits b);
     (i, b) \<leftarrow> FindAndSet b; ASSERT (i = 0);
     b \<leftarrow> Mark b 31;
     t0 \<leftarrow> Test b 0; t31 \<leftarrow> (if t0 then Test b 31 else Some False); ASSERT (t0 \<and> t31);
     (i, b) \<leftarrow> FindAndSet b; ASSERT (i = 1);
     b \<leftarrow> Clear b 0; b \<leftarrow> Clear b 1; b \<leftarrow> Clear b 31;
     b \<leftarrow> foldM (\<lambda>i b. Mark b i) [0..numBits b - 1] b;
     (i, b) \<leftarrow> FindAndSet b; ASSERT (i = -1);
     foldM (\<lambda>i b. Clear b i) [0..numBits b - 1] b }"

subsection \<open>The bits and the well-formedness of a bitmap\<close>

definition bm_bit :: "bitmap \<Rightarrow> int \<Rightarrow> bool" where
  "bm_bit b i = bit (bm_map b ! nat (i div 32)) (nat (i mod 32))"

definition bm_inv :: "bitmap \<Rightarrow> bool" where
  "bm_inv b \<longleftrightarrow> 0 < numBits b \<and> numWords b = divRoundUp (numBits b) 32 \<and>
     int (length (bm_map b)) = numWords b"

lemma BitsInWord_eq [simp]: "BitsInWord = 32"
  by (simp add: BitsInWord_def BitsInByte_def)

lemma bm_index: "bm_inv b \<Longrightarrow> 0 \<le> i \<Longrightarrow> i < numBits b \<Longrightarrow> i div 32 < int (length (bm_map b))"
  using divRoundUp_bounds(1) [of "numBits b" 32] by (auto simp: bm_inv_def)

lemma mask_test: "(w AND push_bit n 1 \<noteq> 0) = bit w n" if "n < 32" for w :: u32
  using that by (simp add: bit_iff_and_push_bit_not_eq_0)

lemma Test_eq: "bm_inv b \<Longrightarrow> 0 \<le> i \<Longrightarrow> i < numBits b \<Longrightarrow> Test b i = Some (bm_bit b i)"
  using mask_test [of "nat (i mod 32)"]
  by (simp add: Test_def bm_bit_def arr_get_in bm_index nat_less_iff)

lemma same_bit: "i div 32 = j div 32 \<Longrightarrow> i mod 32 = j mod 32 \<Longrightarrow> i = j" for i j :: int
  by (metis div_mult_mod_eq)

lemma bm_bit_upd:
  assumes "bm_inv b" "0 \<le> i" "i < numBits b" "0 \<le> j" "j < numBits b"
    and "\<And>m. m < 32 \<Longrightarrow> bit w m = (if m = nat (i mod 32) then v else
                 bit (bm_map b ! nat (i div 32)) m)"
  shows "bm_bit (b\<lparr>bm_map := (bm_map b)[nat (i div 32) := w]\<rparr>) j = (if j = i then v else bm_bit b j)"
proof (cases "i div 32 = j div 32")
  case True
  have lt: "nat (i div 32) < length (bm_map b)" and m: "nat (j mod 32) < 32"
    using assms(1-3) bm_index [of b i] by (simp_all add: nat_less_iff)
  have "(nat (j mod 32) = nat (i mod 32)) = (j = i)"
    using True same_bit [of i j] by (auto simp: eq_nat_nat_iff)
  with True lt assms(6) [OF m] show ?thesis by (simp add: bm_bit_def)
next
  case False
  then have "nat (i div 32) \<noteq> nat (j div 32)" and "j \<noteq> i"
    using assms by (auto simp: eq_nat_nat_iff pos_imp_zdiv_nonneg_iff)
  then show ?thesis by (simp add: bm_bit_def)
qed

lemma bm_inv_upd [simp]:
  "bm_inv (b\<lparr>bm_map := (bm_map b)[k := w]\<rparr>) = bm_inv b"
  by (simp add: bm_inv_def)

subsection \<open>Every operation on the bits\<close>

lemma Mark_spec:
  assumes "bm_inv b" "0 \<le> i" "i < numBits b"
  shows "\<exists>b'. Mark b i = Some b' \<and> bm_inv b' \<and> numBits b' = numBits b \<and>
    (\<forall>j. 0 \<le> j \<and> j < numBits b \<longrightarrow> bm_bit b' j = (j = i \<or> bm_bit b j))"
proof -
  let ?w = "bm_map b ! nat (i div 32) OR push_bit (nat (i mod 32)) 1"
  let ?b = "b\<lparr>bm_map := (bm_map b)[nat (i div 32) := ?w]\<rparr>"
  have n: "nat (i mod 32) < 32" by (simp add: nat_less_iff)
  have bits: "bm_bit ?b j = (j = i \<or> bm_bit b j)" if "0 \<le> j" "j < numBits b" for j
    using bm_bit_upd [OF assms that, where v = True and w = ?w] by (auto simp: bit_simps)
  have "Mark b i = Some ?b"
    using assms bm_index [OF assms] Test_eq [of ?b i] bits [of i]
    by (simp add: Mark_def arr_get_in arr_set_in)
  with bits assms(1) show ?thesis by auto
qed

lemma Clear_spec:
  assumes "bm_inv b" "0 \<le> i" "i < numBits b"
  shows "\<exists>b'. Clear b i = Some b' \<and> bm_inv b' \<and> numBits b' = numBits b \<and>
    (\<forall>j. 0 \<le> j \<and> j < numBits b \<longrightarrow> bm_bit b' j = (j \<noteq> i \<and> bm_bit b j))"
proof -
  let ?w = "bm_map b ! nat (i div 32) AND NOT (push_bit (nat (i mod 32)) 1)"
  let ?b = "b\<lparr>bm_map := (bm_map b)[nat (i div 32) := ?w]\<rparr>"
  have n: "nat (i mod 32) < 32" by (simp add: nat_less_iff)
  have bits: "bm_bit ?b j = (j \<noteq> i \<and> bm_bit b j)" if "0 \<le> j" "j < numBits b" for j
    using bm_bit_upd [OF assms that, where v = False and w = ?w] by (auto simp: bit_simps)
  have "Clear b i = Some ?b"
    using assms bm_index [OF assms] Test_eq [of ?b i] bits [of i]
    by (simp add: Clear_def arr_get_in arr_set_in)
  with bits assms(1) show ?thesis by auto
qed

lemma range_crash: "i < 0 \<or> numBits b \<le> i \<Longrightarrow> Test b i = None \<and> Mark b i = None \<and> Clear b i = None"
  by (auto simp: Test_def Mark_def Clear_def bind_ASSERT)

lemma bm_bit_zero: "bm_inv b \<Longrightarrow> bm_map b = replicate n 0 \<Longrightarrow> 0 \<le> j \<Longrightarrow> j < numBits b \<Longrightarrow> \<not> bm_bit b j"
  using bm_index [of b j] by (simp add: bm_bit_def nat_less_iff)

subsection \<open>The interface the allocators use\<close>

text \<open>
  What the file system and the memory manager rely on: a fixed number of cells, each free or in
  use, a range-checked way to take and to give back a named cell, and the two laws of the range
  check. Taking and giving back a list of cells is derived here once.
\<close>

locale free_map =
  fixes inv :: "'m \<Rightarrow> bool" and size :: "'m \<Rightarrow> int" and used :: "'m \<Rightarrow> int \<Rightarrow> bool"
    and take_cell :: "'m \<Rightarrow> int \<Rightarrow> 'm option" and give_cell :: "'m \<Rightarrow> int \<Rightarrow> 'm option"
  assumes take_cell: "inv m \<Longrightarrow> 0 \<le> i \<Longrightarrow> i < size m \<Longrightarrow>
      \<exists>m'. take_cell m i = Some m' \<and> inv m' \<and> size m' = size m \<and>
        (\<forall>j. 0 \<le> j \<and> j < size m \<longrightarrow> used m' j = (j = i \<or> used m j))"
    and give_cell: "inv m \<Longrightarrow> 0 \<le> i \<Longrightarrow> i < size m \<Longrightarrow>
      \<exists>m'. give_cell m i = Some m' \<and> inv m' \<and> size m' = size m \<and>
        (\<forall>j. 0 \<le> j \<and> j < size m \<longrightarrow> used m' j = (j \<noteq> i \<and> used m j))"
    and take_out: "i < 0 \<or> size m \<le> i \<Longrightarrow> take_cell m i = None"
    and give_out: "i < 0 \<or> size m \<le> i \<Longrightarrow> give_cell m i = None"
begin

lemma take_cells:
  assumes "inv m" and "\<forall>i \<in> set is. 0 \<le> i \<and> i < size m"
  shows "\<exists>m'. foldM (\<lambda>i m. take_cell m i) is m = Some m' \<and> inv m' \<and> size m' = size m \<and>
    (\<forall>j. 0 \<le> j \<and> j < size m \<longrightarrow> used m' j = (j \<in> set is \<or> used m j))"
  using assms
proof (induction "is" arbitrary: m)
  case Nil
  then show ?case by simp
next
  case (Cons i "is")
  then obtain m1 where m1: "take_cell m i = Some m1" "inv m1" "size m1 = size m"
      "\<forall>j. 0 \<le> j \<and> j < size m \<longrightarrow> used m1 j = (j = i \<or> used m j)"
    using take_cell [of m i] by auto
  have "\<forall>i \<in> set is. 0 \<le> i \<and> i < size m1" using Cons.prems m1(3) by simp
  from Cons.IH [OF m1(2) this] obtain m2 where m2:
      "foldM (\<lambda>i m. take_cell m i) is m1 = Some m2" "inv m2" "size m2 = size m1"
      "\<forall>j. 0 \<le> j \<and> j < size m1 \<longrightarrow> used m2 j = (j \<in> set is \<or> used m1 j)" by blast
  show ?case by (rule exI [of _ m2]) (use m1 m2 in auto)
qed

lemma give_cells:
  assumes "inv m" and "\<forall>i \<in> set is. 0 \<le> i \<and> i < size m"
  shows "\<exists>m'. foldM (\<lambda>i m. give_cell m i) is m = Some m' \<and> inv m' \<and> size m' = size m \<and>
    (\<forall>j. 0 \<le> j \<and> j < size m \<longrightarrow> used m' j = (j \<notin> set is \<and> used m j))"
  using assms
proof (induction "is" arbitrary: m)
  case Nil
  then show ?case by simp
next
  case (Cons i "is")
  then obtain m1 where m1: "give_cell m i = Some m1" "inv m1" "size m1 = size m"
      "\<forall>j. 0 \<le> j \<and> j < size m \<longrightarrow> used m1 j = (j \<noteq> i \<and> used m j)"
    using give_cell [of m i] by auto
  have "\<forall>i \<in> set is. 0 \<le> i \<and> i < size m1" using Cons.prems m1(3) by simp
  from Cons.IH [OF m1(2) this] obtain m2 where m2:
      "foldM (\<lambda>i m. give_cell m i) is m1 = Some m2" "inv m2" "size m2 = size m1"
      "\<forall>j. 0 \<le> j \<and> j < size m1 \<longrightarrow> used m2 j = (j \<notin> set is \<and> used m1 j)" by blast
  show ?case by (rule exI [of _ m2]) (use m1 m2 in auto)
qed

end

interpretation bm: free_map bm_inv numBits bm_bit Mark Clear
  by unfold_locales (auto simp: Mark_spec Clear_spec range_crash)

subsection \<open>The scans\<close>

lemma Bitmap_new_spec:
  assumes "0 < n"
  shows "\<exists>b. Bitmap_new n = Some b \<and> bm_inv b \<and> numBits b = n \<and>
    (\<forall>j. 0 \<le> j \<and> j < n \<longrightarrow> \<not> bm_bit b j)"
proof -
  let ?b = "\<lparr>numBits = n, numWords = divRoundUp n 32, bm_map = replicate (nat (divRoundUp n 32)) 0\<rparr>"
  have inv: "bm_inv ?b"
    using assms divRoundUp_bounds(3) [of n 32] by (simp add: bm_inv_def)
  have "\<forall>i \<in> set [0..n - 1]. 0 \<le> i \<and> i < numBits ?b" by auto
  from bm.give_cells [OF inv this] bm_bit_zero [OF inv] assms show ?thesis
    by (fastforce simp: Bitmap_new_def)
qed

lemma FindAndSet_loop_spec:
  assumes "bm_inv b" and "\<forall>i \<in> set is. 0 \<le> i \<and> i < numBits b"
  shows "\<exists>r b'. FindAndSet_loop is b = Some (r, b') \<and> bm_inv b' \<and> numBits b' = numBits b \<and>
    (if r = -1 then b' = b \<and> (\<forall>i \<in> set is. bm_bit b i)
     else r \<in> set is \<and> \<not> bm_bit b r \<and>
       (\<forall>j. 0 \<le> j \<and> j < numBits b \<longrightarrow> bm_bit b' j = (j = r \<or> bm_bit b j)) \<and>
       (\<forall>j \<in> set (takeWhile (\<lambda>i. i \<noteq> r) is). bm_bit b j))"
  using assms
proof (induction "is")
  case Nil
  then show ?case by simp
next
  case (Cons i "is")
  then have t: "Test b i = Some (bm_bit b i)" by (simp add: Test_eq)
  show ?case
  proof (cases "bm_bit b i")
    case True
    have "\<forall>i \<in> set is. 0 \<le> i \<and> i < numBits b" using Cons.prems by simp
    from Cons.IH [OF Cons.prems(1) this] obtain r b' where
      IH: "FindAndSet_loop is b = Some (r, b')" "bm_inv b'" "numBits b' = numBits b"
        "if r = -1 then b' = b \<and> (\<forall>i \<in> set is. bm_bit b i)
         else r \<in> set is \<and> \<not> bm_bit b r \<and>
           (\<forall>j. 0 \<le> j \<and> j < numBits b \<longrightarrow> bm_bit b' j = (j = r \<or> bm_bit b j)) \<and>
           (\<forall>j \<in> set (takeWhile (\<lambda>i. i \<noteq> r) is). bm_bit b j)"
      by blast
    have "FindAndSet_loop (i # is) b = Some (r, b')" using True t IH(1) by simp
    then show ?thesis
      using True IH(2-4) by (intro exI [of _ r] exI [of _ b']) (auto split: if_splits)
  next
    case False
    from Cons.prems obtain b' where b': "Mark b i = Some b'" "bm_inv b'" "numBits b' = numBits b"
        "\<forall>j. 0 \<le> j \<and> j < numBits b \<longrightarrow> bm_bit b' j = (j = i \<or> bm_bit b j)"
      using Mark_spec [of b i] by auto
    have "FindAndSet_loop (i # is) b = Some (i, b')" using False t b'(1) by simp
    then show ?thesis
      using False b'(2-4) Cons.prems by (intro exI [of _ i] exI [of _ b']) auto
  qed
qed

lemma FindAndSet_spec:
  assumes "bm_inv b"
  shows "\<exists>r b'. FindAndSet b = Some (r, b') \<and> bm_inv b' \<and> numBits b' = numBits b \<and>
    (if r = -1 then b' = b \<and> (\<forall>i. 0 \<le> i \<and> i < numBits b \<longrightarrow> bm_bit b i)
     else 0 \<le> r \<and> r < numBits b \<and> \<not> bm_bit b r \<and> (\<forall>j. 0 \<le> j \<and> j < r \<longrightarrow> bm_bit b j) \<and>
       (\<forall>j. 0 \<le> j \<and> j < numBits b \<longrightarrow> bm_bit b' j = (j = r \<or> bm_bit b j)))"
proof -
  have split: "takeWhile (\<lambda>i. i \<noteq> r) [0..numBits b - 1] = [0..r - 1]" if "0 \<le> r" "r < numBits b" for r
  proof -
    have "[0..numBits b - 1] = [0..r - 1] @ r # [r + 1..numBits b - 1]"
      using that by (metis add_increasing2 diff_add_cancel int_one_le_iff_zero_less
          not_le upto_split1 upto_split3 zero_le_one zle_diff1_eq)
    then show ?thesis by (subst \<open>[0..numBits b - 1] = _\<close>, subst takeWhile_append2) auto
  qed
  have "\<forall>i \<in> set [0..numBits b - 1]. 0 \<le> i \<and> i < numBits b" by auto
  from FindAndSet_loop_spec [OF assms this] show ?thesis
    using split unfolding FindAndSet_def by (fastforce split: if_splits)
qed

subsection \<open>Counting\<close>

lemma NumClear_loop:
  assumes "bm_inv b" and "\<forall>i \<in> set is. 0 \<le> i \<and> i < numBits b"
  shows "foldM (\<lambda>i count. do { t \<leftarrow> Test b i; Some (if \<not> t then count + 1 else count) }) is c =
    Some (c + int (length (filter (\<lambda>i. \<not> bm_bit b i) is)))"
  using assms by (induction "is" arbitrary: c) (auto simp: Test_eq)

lemma NumClear_eq:
  assumes "bm_inv b"
  shows "NumClear b = Some (int (card {i. 0 \<le> i \<and> i < numBits b \<and> \<not> bm_bit b i}))"
proof -
  let ?is = "filter (\<lambda>i. \<not> bm_bit b i) [0..numBits b - 1]"
  have "length ?is = card (set ?is)" by (metis distinct_card distinct_filter distinct_upto)
  moreover have "set ?is = {i. 0 \<le> i \<and> i < numBits b \<and> \<not> bm_bit b i}" by auto
  ultimately have len: "length ?is = card {i. 0 \<le> i \<and> i < numBits b \<and> \<not> bm_bit b i}" by (simp only:)
  have "\<forall>i \<in> set [0..numBits b - 1]. 0 \<le> i \<and> i < numBits b" by auto
  from NumClear_loop [OF assms this, of 0] show ?thesis
    unfolding NumClear_def by (simp only: len add_0)
qed

lemma bm_clear_card:
  assumes "\<forall>i. 0 \<le> i \<and> i < n \<longrightarrow> \<not> bm_bit b i" and "0 \<le> n"
  shows "int (card {i. 0 \<le> i \<and> i < n \<and> \<not> bm_bit b i}) = n"
proof -
  have "{i. 0 \<le> i \<and> i < n \<and> \<not> bm_bit b i} = {0..<n}" using assms(1) by auto
  with assms(2) show ?thesis by simp
qed

lemma FindAndSet_first:
  assumes "bm_inv b" "0 \<le> r" "r < numBits b" "\<not> bm_bit b r" "\<forall>j. 0 \<le> j \<and> j < r \<longrightarrow> bm_bit b j"
  shows "\<exists>b'. FindAndSet b = Some (r, b') \<and> bm_inv b' \<and> numBits b' = numBits b \<and>
    (\<forall>j. 0 \<le> j \<and> j < numBits b \<longrightarrow> bm_bit b' j = (j = r \<or> bm_bit b j))"
proof -
  obtain q b' where q: "FindAndSet b = Some (q, b')" "bm_inv b'" "numBits b' = numBits b"
    "if q = -1 then b' = b \<and> (\<forall>i. 0 \<le> i \<and> i < numBits b \<longrightarrow> bm_bit b i)
     else 0 \<le> q \<and> q < numBits b \<and> \<not> bm_bit b q \<and> (\<forall>j. 0 \<le> j \<and> j < q \<longrightarrow> bm_bit b j) \<and>
       (\<forall>j. 0 \<le> j \<and> j < numBits b \<longrightarrow> bm_bit b' j = (j = q \<or> bm_bit b j))"
    using FindAndSet_spec [OF assms(1)] by blast
  have "q = r" using q(4) assms(2-5) by (metis linorder_cases)
  with q assms show ?thesis by (auto split: if_splits)
qed

lemma FindAndSet_full:
  assumes "bm_inv b" "\<forall>j. 0 \<le> j \<and> j < numBits b \<longrightarrow> bm_bit b j"
  shows "FindAndSet b = Some (-1, b)"
  using FindAndSet_spec [OF assms(1)] assms(2) by (auto split: if_splits)

subsection \<open>Properties\<close>

text \<open>
  C14. \<open>FindAndSet\<close> never stops the machine: on a bitmap with a clear bit it returns the
  lowest one, sets that bit and no other, and the number of clear bits drops by one; on a full
  bitmap it returns -1 and changes nothing.
\<close>

theorem FindAndSet_allocates_lowest:
  assumes "bm_inv b"
  shows "\<exists>r b' n. FindAndSet b = Some (r, b') \<and> bm_inv b' \<and> NumClear b = Some n \<and>
    (if r = -1 then b' = b \<and> n = 0
     else Test b r = Some False \<and> (\<forall>j. 0 \<le> j \<and> j < r \<longrightarrow> Test b j = Some True) \<and>
       (\<forall>j. 0 \<le> j \<and> j < numBits b \<longrightarrow> Test b' j = (if j = r then Some True else Test b j)) \<and>
       NumClear b' = Some (n - 1))"
proof -
  obtain r b' where r: "FindAndSet b = Some (r, b')" "bm_inv b'" "numBits b' = numBits b"
    "if r = -1 then b' = b \<and> (\<forall>i. 0 \<le> i \<and> i < numBits b \<longrightarrow> bm_bit b i)
     else 0 \<le> r \<and> r < numBits b \<and> \<not> bm_bit b r \<and> (\<forall>j. 0 \<le> j \<and> j < r \<longrightarrow> bm_bit b j) \<and>
       (\<forall>j. 0 \<le> j \<and> j < numBits b \<longrightarrow> bm_bit b' j = (j = r \<or> bm_bit b j))"
    using FindAndSet_spec [OF assms] by blast
  let ?C = "\<lambda>b. {i. 0 \<le> i \<and> i < numBits b \<and> \<not> bm_bit b i}"
  have fin: "finite (?C b)" by (rule finite_subset [of _ "{0..<numBits b}"]) auto
  show ?thesis
  proof (cases "r = -1")
    case True
    then have "?C b = {}" using r(4) by auto
    then have "NumClear b = Some (int (card ({} :: int set)))" using NumClear_eq [OF assms] by (simp only:)
    with True r show ?thesis by auto
  next
    case False
    then have "?C b = insert r (?C b')" and "r \<notin> ?C b'" using r(3,4) by auto
    with fin have "card (?C b) = Suc (card (?C b'))" by (metis card_insert_disjoint finite_insert)
    with False r assms show ?thesis using NumClear_eq [OF assms] NumClear_eq [OF r(2)]
      by (intro exI [of _ r] exI [of _ b'] exI [of _ "int (card (?C b))"]) (auto simp: Test_eq)
  qed
qed

theorem FindAndSet_allocates_lowest_witness:
  "let b = \<lparr>numBits = 40, numWords = 2, bm_map = [0xFFFFFFFF, 5]\<rparr> in
    \<exists>r b'. FindAndSet b = Some (r, b') \<and> bm_inv b'"
proof -
  have "bm_inv \<lparr>numBits = 40, numWords = 2, bm_map = [0xFFFFFFFF, 5]\<rparr>"
    by (simp add: bm_inv_def divRoundUp_def)
  from FindAndSet_allocates_lowest [OF this] show ?thesis by auto
qed

text \<open>
  \<open>Bitmap::SelfTest\<close> passes on a fresh bitmap of at least one word: none of its asserts
  stops the machine and it ends with every bit clear again.
\<close>

lemma SelfTest_passes:
  assumes "32 \<le> n"
  shows "\<exists>b b'. Bitmap_new n = Some b \<and> SelfTest b = Some b' \<and> NumClear b' = Some n"
proof -
  obtain b where b: "Bitmap_new n = Some b" "bm_inv b" "numBits b = n"
      "\<forall>j. 0 \<le> j \<and> j < n \<longrightarrow> \<not> bm_bit b j"
    using Bitmap_new_spec [of n] assms by auto
  have n0: "NumClear b = Some n"
    using b assms NumClear_eq [OF b(2)] bm_clear_card [of n b] by simp
  obtain b1 where b1: "FindAndSet b = Some (0, b1)" "bm_inv b1" "numBits b1 = n"
      "\<forall>j. 0 \<le> j \<and> j < n \<longrightarrow> bm_bit b1 j = (j = 0)"
    using FindAndSet_first [OF b(2), of 0] b assms by auto
  obtain b2 where b2: "Mark b1 31 = Some b2" "bm_inv b2" "numBits b2 = n"
      "\<forall>j. 0 \<le> j \<and> j < n \<longrightarrow> bm_bit b2 j = (j = 0 \<or> j = 31)"
    using Mark_spec [OF b1(2), of 31] b1 assms by auto
  obtain b3 where b3: "FindAndSet b2 = Some (1, b3)" "bm_inv b3" "numBits b3 = n"
    using FindAndSet_first [OF b2(2), of 1] b2 assms by (auto simp: int_one_le_iff_zero_less)
  obtain b4 where b4: "Clear b3 0 = Some b4" "bm_inv b4" "numBits b4 = n"
    using Clear_spec [OF b3(2), of 0] b3 assms by auto
  obtain b5 where b5: "Clear b4 1 = Some b5" "bm_inv b5" "numBits b5 = n"
    using Clear_spec [OF b4(2), of 1] b4 assms by auto
  obtain b6 where b6: "Clear b5 31 = Some b6" "bm_inv b6" "numBits b6 = n"
    using Clear_spec [OF b5(2), of 31] b5 assms by auto
  have "\<forall>i \<in> set [0..n - 1]. 0 \<le> i \<and> i < numBits b6" using b6(3) by auto
  from bm.take_cells [OF b6(2) this] obtain b7 where
    b7: "foldM (\<lambda>i b. Mark b i) [0..n - 1] b6 = Some b7" "bm_inv b7" "numBits b7 = numBits b6"
      "\<forall>j. 0 \<le> j \<and> j < numBits b6 \<longrightarrow> bm_bit b7 j = (j \<in> set [0..n - 1] \<or> bm_bit b6 j)" by blast
  have f7: "FindAndSet b7 = Some (-1, b7)"
    using FindAndSet_full [OF b7(2)] b7(3,4) b6(3) by simp
  have "\<forall>i \<in> set [0..n - 1]. 0 \<le> i \<and> i < numBits b7" using b6(3) b7(3) by auto
  from bm.give_cells [OF b7(2) this] obtain b8 where
    b8: "foldM (\<lambda>i b. Clear b i) [0..n - 1] b7 = Some b8" "bm_inv b8" "numBits b8 = numBits b7"
      "\<forall>j. 0 \<le> j \<and> j < numBits b7 \<longrightarrow> bm_bit b8 j = (j \<notin> set [0..n - 1] \<and> bm_bit b7 j)" by blast
  have "Test b2 0 = Some True" and "Test b2 31 = Some True" using b2 assms by (simp_all add: Test_eq)
  then have "SelfTest b = Some b8"
    using n0 b1(1) b2(1) b3(1) b4(1) b5(1) b6(1,3) b7(1,3) f7 b8(1) assms b(3)
    by (simp add: SelfTest_def)
  moreover have "NumClear b8 = Some n"
    using b8(3,4) b7(3) b6(3) assms NumClear_eq [OF b8(2)] bm_clear_card [of n b8] by simp
  ultimately show ?thesis using b(1) by blast
qed

theorem SelfTest_passes_witness:
  "\<exists>b b'. Bitmap_new 40 = Some b \<and> SelfTest b = Some b' \<and> NumClear b' = Some 40"
  using SelfTest_passes [of 40] by simp

end
