(* ===== verification/NList.thy ===== *)
theory NList
  imports Nachos_Prelude
begin

text \<open>
  \<open>lib/list.h\<close> and \<open>lib/list.cc\<close>: the singly linked lists every kernel queue is made of,
  first as the code has them (cells in a heap, a pointer to the first and the last one and a
  counter), then as plain sequences. \<open>is_list\<close> relates the two, every pointer operation is
  proved to do what its sequence operation does, assertions included, and the components that
  keep queues use the sequence operations.
\<close>

subsection \<open>Cells, the list object and its operations\<close>

text \<open>
  \<open>new ListElement\<close> takes the address \<open>fresh\<close>, which no cell has; \<open>delete\<close> removes a
  cell. \<open>NULL\<close> is \<open>None\<close>.
\<close>

record 'a ListElement =
  element_next :: "nat option"
  element_item :: 'a

record 'a List =
  cells :: "nat \<Rightarrow> 'a ListElement option"
  fresh :: nat
  first :: "nat option"
  last_cell :: "nat option"
  numInList :: int

definition ListElement_new :: "'a \<Rightarrow> 'a ListElement" where
  "ListElement_new itm = \<lparr>element_next = None, element_item = itm\<rparr>"

definition List_new :: "'a List" where
  "List_new = \<lparr>cells = Map.empty, fresh = 0, first = None, last_cell = None, numInList = 0\<rparr>"

definition alloc_cell :: "'a List \<Rightarrow> 'a \<Rightarrow> nat \<times> 'a List" where
  "alloc_cell l itm =
     (fresh l, l\<lparr>cells := (cells l)(fresh l \<mapsto> ListElement_new itm), fresh := Suc (fresh l)\<rparr>)"

definition deref :: "'a List \<Rightarrow> nat option \<Rightarrow> 'a ListElement option" where
  "deref l p = p \<bind> cells l"

definition set_next :: "'a List \<Rightarrow> nat option \<Rightarrow> nat option \<Rightarrow> 'a List option" where
  "set_next l p q = do {
     a \<leftarrow> p; c \<leftarrow> cells l a;
     Some (l\<lparr>cells := (cells l)(a \<mapsto> c\<lparr>element_next := q\<rparr>)\<rparr>) }"

definition Front :: "'a List \<Rightarrow> 'a option" where
  "Front l = map_option element_item (deref l (first l))"

definition IsEmpty :: "'a List \<Rightarrow> bool" where
  "IsEmpty l = (numInList l = 0)"

partial_function (option) IsInList_from :: "'a List \<Rightarrow> 'a \<Rightarrow> nat option \<Rightarrow> bool option" where
  "IsInList_from l x ptr =
     (case ptr of None \<Rightarrow> Some False
      | Some a \<Rightarrow> (case cells l a of None \<Rightarrow> None
          | Some c \<Rightarrow> if x = element_item c then Some True
                      else IsInList_from l x (element_next c)))"

definition IsInList :: "'a List \<Rightarrow> 'a \<Rightarrow> bool option" where
  "IsInList l x = IsInList_from l x (first l)"

definition Append_link :: "'a List \<Rightarrow> nat \<Rightarrow> 'a List option" where
  "Append_link l element =
     (if IsEmpty l then Some (l\<lparr>first := Some element, last_cell := Some element\<rparr>)
      else do { l \<leftarrow> set_next l (last_cell l) (Some element);
                Some (l\<lparr>last_cell := Some element\<rparr>) })"

definition Append :: "'a List \<Rightarrow> 'a \<Rightarrow> 'a List option" where
  "Append l x = do {
     let (element, l) = alloc_cell l x;
     isin \<leftarrow> IsInList l x;
     ASSERT (\<not> isin);
     l \<leftarrow> Append_link l element;
     let l = l\<lparr>numInList := numInList l + 1\<rparr>;
     isin \<leftarrow> IsInList l x;
     ASSERT isin;
     Some l }"

definition Prepend_link :: "'a List \<Rightarrow> nat \<Rightarrow> 'a List option" where
  "Prepend_link l element =
     (if IsEmpty l then Some (l\<lparr>first := Some element, last_cell := Some element\<rparr>)
      else do { l \<leftarrow> set_next l (Some element) (first l);
                Some (l\<lparr>first := Some element\<rparr>) })"

definition Prepend :: "'a List \<Rightarrow> 'a \<Rightarrow> 'a List option" where
  "Prepend l x = do {
     let (element, l) = alloc_cell l x;
     isin \<leftarrow> IsInList l x;
     ASSERT (\<not> isin);
     l \<leftarrow> Prepend_link l element;
     let l = l\<lparr>numInList := numInList l + 1\<rparr>;
     isin \<leftarrow> IsInList l x;
     ASSERT isin;
     Some l }"

definition RemoveFront :: "'a List \<Rightarrow> ('a \<times> 'a List) option" where
  "RemoveFront l = do {
     let element = first l;
     ASSERT (\<not> IsEmpty l);
     c \<leftarrow> deref l (first l);
     let thing = element_item c;
     l \<leftarrow> (if first l = last_cell l then Some (l\<lparr>first := None, last_cell := None\<rparr>)
          else do { e \<leftarrow> deref l element; Some (l\<lparr>first := element_next e\<rparr>) });
     let l = l\<lparr>numInList := numInList l - 1\<rparr>;
     Some (thing, l\<lparr>cells := (cells l)(the element := None)\<rparr>) }"

partial_function (option) Remove_loop ::
    "'a List \<Rightarrow> 'a \<Rightarrow> nat option \<Rightarrow> nat option \<Rightarrow> 'a List option" where
  "Remove_loop l x prev ptr =
     (case ptr of None \<Rightarrow> None
      | Some a \<Rightarrow> (case cells l a of None \<Rightarrow> None
          | Some c \<Rightarrow>
              if x = element_item c then do {
                l \<leftarrow> set_next l prev (element_next c);
                let l = (if element_next c = None then l\<lparr>last_cell := prev\<rparr> else l);
                Some (l\<lparr>cells := (cells l)(a := None), numInList := numInList l - 1\<rparr>) }
              else Remove_loop l x ptr (element_next c)))"

definition Remove :: "'a List \<Rightarrow> 'a \<Rightarrow> 'a List option" where
  "Remove l x = do {
     isin \<leftarrow> IsInList l x;
     ASSERT isin;
     c \<leftarrow> deref l (first l);
     l \<leftarrow> (if x = element_item c then do {
            (removed, l) \<leftarrow> RemoveFront l;
            ASSERT (x = removed);
            Some l }
          else Remove_loop l x (first l) (element_next c));
     isin \<leftarrow> IsInList l x;
     ASSERT (\<not> isin);
     Some l }"

partial_function (option) Insert_loop ::
    "('a \<Rightarrow> 'a \<Rightarrow> int) \<Rightarrow> 'a List \<Rightarrow> 'a \<Rightarrow> nat \<Rightarrow> nat option \<Rightarrow> ('a List \<times> bool) option" where
  "Insert_loop compare l x element ptr =
     (case ptr of None \<Rightarrow> None
      | Some a \<Rightarrow> (case cells l a of None \<Rightarrow> None
          | Some c \<Rightarrow>
              (case element_next c of
                 None \<Rightarrow> Some (l, False)
               | Some n \<Rightarrow> (case cells l n of None \<Rightarrow> None
                   | Some d \<Rightarrow>
                       if compare x (element_item d) < 0 then do {
                         l \<leftarrow> set_next l (Some element) (Some n);
                         l \<leftarrow> set_next l ptr (Some element);
                         Some (l\<lparr>numInList := numInList l + 1\<rparr>, True) }
                       else Insert_loop compare l x element (Some n)))))"

definition SortedList_Insert :: "('a \<Rightarrow> 'a \<Rightarrow> int) \<Rightarrow> 'a List \<Rightarrow> 'a \<Rightarrow> 'a List option" where
  "SortedList_Insert compare l x = do {
     let (element, l) = alloc_cell l x;
     isin \<leftarrow> IsInList l x;
     ASSERT (\<not> isin);
     if IsEmpty l then do {
       let l = l\<lparr>first := Some element, last_cell := Some element, numInList := numInList l + 1\<rparr>;
       isin \<leftarrow> IsInList l x; ASSERT isin; Some l }
     else do {
       f \<leftarrow> deref l (first l);
       if compare x (element_item f) < 0 then do {
         l \<leftarrow> set_next l (Some element) (first l);
         let l = l\<lparr>first := Some element, numInList := numInList l + 1\<rparr>;
         isin \<leftarrow> IsInList l x; ASSERT isin; Some l }
       else do {
         (l, returned) \<leftarrow> Insert_loop compare l x element (first l);
         if returned then Some l
         else do {
           l \<leftarrow> set_next l (last_cell l) (Some element);
           let l = l\<lparr>last_cell := Some element, numInList := numInList l + 1\<rparr>;
           isin \<leftarrow> IsInList l x; ASSERT isin; Some l } } } }"

partial_function (option) SanityCheck_loop ::
    "'a List \<Rightarrow> int \<Rightarrow> nat option \<Rightarrow> int option" where
  "SanityCheck_loop l numFound ptr =
     (if ptr = last_cell l then Some numFound
      else (case ptr of None \<Rightarrow> None
        | Some a \<Rightarrow> (case cells l a of None \<Rightarrow> None
            | Some c \<Rightarrow>
                (if numFound + 1 \<le> numInList l
                 then SanityCheck_loop l (numFound + 1) (element_next c) else None))))"

definition SanityCheck :: "'a List \<Rightarrow> unit option" where
  "SanityCheck l =
     (if first l = None then ASSERT (numInList l = 0 \<and> last_cell l = None)
      else if first l = last_cell l then do {
        c \<leftarrow> deref l (last_cell l); ASSERT (numInList l = 1 \<and> element_next c = None) }
      else do {
        n \<leftarrow> SanityCheck_loop l 1 (first l);
        ASSERT (n = numInList l);
        c \<leftarrow> deref l (last_cell l);
        ASSERT (element_next c = None) })"

partial_function (option) sorted_from ::
    "('a \<Rightarrow> 'a \<Rightarrow> int) \<Rightarrow> 'a List \<Rightarrow> nat option \<Rightarrow> nat option \<Rightarrow> unit option" where
  "sorted_from compare l prev ptr =
     (case ptr of None \<Rightarrow> Some ()
      | Some a \<Rightarrow> (case deref l prev of None \<Rightarrow> None
          | Some d \<Rightarrow> (case cells l a of None \<Rightarrow> None
              | Some c \<Rightarrow> if compare (element_item d) (element_item c) \<le> 0
                          then sorted_from compare l ptr (element_next c) else None)))"

definition SortedList_SanityCheck :: "('a \<Rightarrow> 'a \<Rightarrow> int) \<Rightarrow> 'a List \<Rightarrow> unit option" where
  "SortedList_SanityCheck compare l = do {
     SanityCheck l;
     if first l \<noteq> last_cell l then do {
       c \<leftarrow> deref l (first l);
       sorted_from compare l (first l) (element_next c) }
     else Some () }"

text \<open>
  \<open>Apply\<close> calls a function on every item, the calls in order: \<open>func\<close> steps a state of the
  caller. \<open>ListIterator\<close> keeps the cell it is at.
\<close>

partial_function (option) Apply_from ::
    "'a List \<Rightarrow> ('a \<Rightarrow> 's \<Rightarrow> 's option) \<Rightarrow> nat option \<Rightarrow> 's \<Rightarrow> 's option" where
  "Apply_from l func ptr s =
     (case ptr of None \<Rightarrow> Some s
      | Some a \<Rightarrow> (case cells l a of None \<Rightarrow> None
          | Some c \<Rightarrow> (case func (element_item c) s of None \<Rightarrow> None
              | Some s' \<Rightarrow> Apply_from l func (element_next c) s')))"

definition Apply :: "'a List \<Rightarrow> ('a \<Rightarrow> 's \<Rightarrow> 's option) \<Rightarrow> 's \<Rightarrow> 's option" where
  "Apply l func s = Apply_from l func (first l) s"

record ListIterator = current :: "nat option"

definition ListIterator_new :: "'a List \<Rightarrow> ListIterator" where
  "ListIterator_new l = \<lparr>current = first l\<rparr>"

definition IsDone :: "ListIterator \<Rightarrow> bool" where
  "IsDone it = (current it = None)"

definition Item :: "'a List \<Rightarrow> ListIterator \<Rightarrow> 'a option" where
  "Item l it = do { ASSERT (\<not> IsDone it); c \<leftarrow> deref l (current it); Some (element_item c) }"

definition Next :: "'a List \<Rightarrow> ListIterator \<Rightarrow> ListIterator option" where
  "Next l it = do { c \<leftarrow> deref l (current it); Some (it\<lparr>current := element_next c\<rparr>) }"

text \<open>
  The self-tests. \<open>List::SelfTest\<close> calls \<open>Append\<close> and \<open>SanityCheck\<close>, which are virtual:
  on a \<open>SortedList\<close> they are \<open>Insert\<close> and the sorted check, so they are arguments.
\<close>

definition List_SelfTest ::
    "('a List \<Rightarrow> 'a \<Rightarrow> 'a List option) \<Rightarrow> ('a List \<Rightarrow> unit option) \<Rightarrow> 'a list \<Rightarrow> 'a List \<Rightarrow> 'a List option" where
  "List_SelfTest put sanity p l = do {
     sanity l;
     ASSERT (IsEmpty l \<and> first l = None);
     ASSERT (IsDone (ListIterator_new l));
     l \<leftarrow> foldM (\<lambda>x l. do {
            l \<leftarrow> put l x; isin \<leftarrow> IsInList l x; ASSERT isin; ASSERT (\<not> IsEmpty l); Some l }) p l;
     sanity l;
     l \<leftarrow> foldM (\<lambda>x l. do {
            l \<leftarrow> Remove l x; isin \<leftarrow> IsInList l x; ASSERT (\<not> isin); Some l }) p l;
     ASSERT (IsEmpty l);
     sanity l;
     Some l }"

definition SortedList_SelfTest :: "('a \<Rightarrow> 'a \<Rightarrow> int) \<Rightarrow> 'a list \<Rightarrow> 'a List \<Rightarrow> 'a List option" where
  "SortedList_SelfTest compare p l = do {
     l \<leftarrow> List_SelfTest (SortedList_Insert compare) (SortedList_SanityCheck compare) p l;
     l \<leftarrow> foldM (\<lambda>x l. do {
            l \<leftarrow> SortedList_Insert compare l x; isin \<leftarrow> IsInList l x; ASSERT isin; Some l }) p l;
     SortedList_SanityCheck compare l;
     (l, q) \<leftarrow> foldM (\<lambda>_ (l, q). do {
            (x, l) \<leftarrow> RemoveFront l; isin \<leftarrow> IsInList l x; ASSERT (\<not> isin); Some (l, q @ [x]) })
            p (l, []);
     ASSERT (IsEmpty l);
     foldM (\<lambda>i _. ASSERT (compare (q ! i) (q ! (i + 1)) \<le> 0)) [0..<length p - 1] ();
     SortedList_SanityCheck compare l;
     Some l }"

subsection \<open>What a well-formed list is\<close>

fun chain :: "(nat \<Rightarrow> 'a ListElement option) \<Rightarrow> nat option \<Rightarrow> (nat \<times> 'a) list \<Rightarrow> nat option \<Rightarrow> bool" where
  "chain h p [] q = (p = q)"
| "chain h p ((a, x) # zs) q =
     (p = Some a \<and> (\<exists>n. h a = Some \<lparr>element_next = n, element_item = x\<rparr> \<and> chain h n zs q))"

definition rep :: "'a List \<Rightarrow> (nat \<times> 'a) list \<Rightarrow> bool" where
  "rep l zs \<longleftrightarrow> chain (cells l) (first l) zs None \<and> distinct (map fst zs) \<and>
     (\<forall>a \<in> fst ` set zs. a < fresh l) \<and> numInList l = int (length zs) \<and>
     last_cell l = (if zs = [] then None else Some (fst (last zs)))"

definition is_list :: "'a List \<Rightarrow> 'a list \<Rightarrow> bool" where
  "is_list l xs \<longleftrightarrow> distinct xs \<and> (\<exists>zs. rep l zs \<and> map snd zs = xs)"

lemma chain_append: "chain h p (zs @ ws) q \<longleftrightarrow> (\<exists>r. chain h p zs r \<and> chain h r ws q)"
  by (induction h p zs q rule: chain.induct) auto

lemma chain_upd [simp]: "a \<notin> fst ` set zs \<Longrightarrow> chain (h(a := c)) p zs q = chain h p zs q"
  by (induction h p zs q rule: chain.induct) auto

lemma chain_det: "chain h p zs q \<Longrightarrow> chain h p zs r \<Longrightarrow> q = r"
  by (induction h p zs q rule: chain.induct) auto

lemma IsInList_from_chain:
  "chain (cells l) p zs None \<Longrightarrow> IsInList_from l x p = Some (x \<in> snd ` set zs)"
proof (induction zs arbitrary: p)
  case Nil
  then show ?case by (simp add: IsInList_from.simps)
next
  case (Cons z zs)
  then show ?case by (cases z) (auto simp: IsInList_from.simps [of _ _ "Some _"])
qed

lemma IsInList_rep: "rep l zs \<Longrightarrow> IsInList l x = Some (x \<in> snd ` set zs)"
  by (simp add: IsInList_def rep_def IsInList_from_chain)

lemma fst_alloc: "fst (alloc_cell l x) = fresh l"
  by (simp add: alloc_cell_def)

lemma rep_alloc: "rep l zs \<Longrightarrow> rep (snd (alloc_cell l x)) zs"
proof -
  assume r: "rep l zs"
  then have "fresh l \<notin> fst ` set zs" by (auto simp: rep_def)
  with r show ?thesis by (auto simp: rep_def alloc_cell_def)
qed

lemma IsEmpty_rep: "rep l zs \<Longrightarrow> IsEmpty l = (zs = [])"
  by (simp add: IsEmpty_def rep_def)

lemma rep_cons_addr: "rep l (z # zs) \<Longrightarrow> first l = Some (fst z) \<and> (\<exists>n. cells l (fst z) =
    Some \<lparr>element_next = n, element_item = snd z\<rparr> \<and> chain (cells l) n zs None)"
  by (cases z) (auto simp: rep_def)

subsection \<open>Each pointer operation on a well-formed list\<close>

lemma Append_link_rep:
  assumes r: "rep l zs" and l: "l' = snd (alloc_cell l x)"
  shows "\<exists>l1. Append_link l' (fresh l) = Some l1 \<and>
    rep (l1\<lparr>numInList := numInList l1 + 1\<rparr>) (zs @ [(fresh l, x)])"
proof (cases zs rule: rev_cases)
  case Nil
  with r l show ?thesis
    by (simp add: Append_link_def IsEmpty_def rep_def alloc_cell_def ListElement_new_def)
next
  case (snoc ws z)
  obtain a y where z: "z = (a, y)" by (cases z)
  have "fresh l \<notin> fst ` set zs" using r by (auto simp: rep_def)
  moreover have "cells l a = Some \<lparr>element_next = None, element_item = y\<rparr>"
      and "chain (cells l) (first l) ws (Some a)" and "a \<notin> fst ` set ws" and "a < fresh l"
    using r snoc z by (auto simp: rep_def chain_append image_iff)
  ultimately show ?thesis
    using r l snoc z
    by (auto simp: Append_link_def IsEmpty_def set_next_def rep_def alloc_cell_def
        ListElement_new_def chain_append)
qed

lemma Append_rep:
  assumes r: "rep l zs" and new: "x \<notin> snd ` set zs"
  shows "\<exists>l'. Append l x = Some l' \<and> rep l' (zs @ [(fresh l, x)])"
proof -
  obtain l1 where l1: "Append_link (snd (alloc_cell l x)) (fresh l) = Some l1"
      "rep (l1\<lparr>numInList := numInList l1 + 1\<rparr>) (zs @ [(fresh l, x)])"
    using Append_link_rep [OF r refl] by blast
  have "IsInList (snd (alloc_cell l x)) x = Some False"
    using IsInList_rep [OF rep_alloc [OF r]] new by simp
  moreover have "IsInList (l1\<lparr>numInList := numInList l1 + 1\<rparr>) x = Some True"
    using IsInList_rep [OF l1(2)] by simp
  ultimately show ?thesis
    using l1 by (simp add: Append_def split_beta fst_alloc)
qed

lemma Append_dup: "rep l zs \<Longrightarrow> x \<in> snd ` set zs \<Longrightarrow> Append l x = None"
  using IsInList_rep [OF rep_alloc, of l zs x x] by (simp add: Append_def split_beta bind_ASSERT)

lemma Prepend_link_rep:
  assumes r: "rep l zs" and l: "l' = snd (alloc_cell l x)"
  shows "\<exists>l1. Prepend_link l' (fresh l) = Some l1 \<and>
    rep (l1\<lparr>numInList := numInList l1 + 1\<rparr>) ((fresh l, x) # zs)"
proof -
  have "fresh l \<notin> fst ` set zs" using r by (auto simp: rep_def)
  with r l show ?thesis
    by (auto simp: Prepend_link_def IsEmpty_def set_next_def rep_def alloc_cell_def
        ListElement_new_def)
qed

lemma Prepend_rep:
  assumes r: "rep l zs" and new: "x \<notin> snd ` set zs"
  shows "\<exists>l'. Prepend l x = Some l' \<and> rep l' ((fresh l, x) # zs)"
proof -
  obtain l1 where l1: "Prepend_link (snd (alloc_cell l x)) (fresh l) = Some l1"
      "rep (l1\<lparr>numInList := numInList l1 + 1\<rparr>) ((fresh l, x) # zs)"
    using Prepend_link_rep [OF r refl] by blast
  have "IsInList (snd (alloc_cell l x)) x = Some False"
    using IsInList_rep [OF rep_alloc [OF r]] new by simp
  moreover have "IsInList (l1\<lparr>numInList := numInList l1 + 1\<rparr>) x = Some True"
    using IsInList_rep [OF l1(2)] by simp
  ultimately show ?thesis
    using l1 by (simp add: Prepend_def split_beta fst_alloc)
qed

lemma Prepend_dup: "rep l zs \<Longrightarrow> x \<in> snd ` set zs \<Longrightarrow> Prepend l x = None"
  using IsInList_rep [OF rep_alloc, of l zs x x] by (simp add: Prepend_def split_beta bind_ASSERT)

lemma RemoveFront_rep:
  assumes r: "rep l ((a, x) # zs)"
  shows "\<exists>l'. RemoveFront l = Some (x, l') \<and> rep l' zs \<and> fresh l' = fresh l"
proof -
  obtain n where n: "cells l a = Some \<lparr>element_next = n, element_item = x\<rparr>"
      "chain (cells l) n zs None" and f: "first l = Some a"
    using rep_cons_addr [OF r] by auto
  have a: "a \<notin> fst ` set zs" and ne: "\<not> IsEmpty l" using r by (auto simp: rep_def IsEmpty_def)
  have last: "first l = last_cell l \<longleftrightarrow> zs = []"
    using r f a by (cases zs rule: rev_cases) (auto simp: rep_def)
  show ?thesis
    using r n f a ne last
    by (auto simp: RemoveFront_def deref_def rep_def Let_def split: if_splits)
qed

lemma RemoveFront_empty: "rep l [] \<Longrightarrow> RemoveFront l = None"
  by (simp add: RemoveFront_def IsEmpty_rep)

lemma rep_mid:
  assumes "rep l (ws @ (b, y) # vs)"
  shows "\<exists>n. cells l b = Some \<lparr>element_next = n, element_item = y\<rparr> \<and> chain (cells l) n vs None \<and>
    chain (cells l) (first l) ws (Some b)"
  using assms by (auto simp: rep_def chain_append)

lemma Remove_loop_rep:
  assumes "rep l (ws @ (b, y) # us @ (a, x) # vs)" and "x \<notin> snd ` set us"
    and "chain (cells l) ptr (us @ (a, x) # vs) None"
  shows "\<exists>l'. Remove_loop l x (Some b) ptr = Some l' \<and> rep l' (ws @ (b, y) # us @ vs)"
  using assms
proof (induction us arbitrary: ws b y ptr)
  case Nil
  then obtain n where "cells l a = Some \<lparr>element_next = n, element_item = x\<rparr>"
      and "ptr = Some a" and "chain (cells l) n vs None" by auto
  moreover have "n = None \<longleftrightarrow> vs = []" using calculation(3) by (cases vs) auto
  ultimately show ?case using Nil.prems(1) rep_mid [OF Nil.prems(1)]
    by (auto simp: Remove_loop.simps [of _ _ _ "Some a"] set_next_def rep_def chain_append image_iff)
next
  case (Cons u us)
  obtain c z where u: "u = (c, z)" by (cases u)
  with Cons.prems obtain n where "cells l c = Some \<lparr>element_next = n, element_item = z\<rparr>"
      and "ptr = Some c" and "chain (cells l) n (us @ (a, x) # vs) None" and "x \<noteq> z" by auto
  then show ?case
    using Cons.IH [of "ws @ [(b, y)]" c z n] Cons.prems u
    by (simp add: Remove_loop.simps [of _ _ _ "Some c"])
qed

lemma split_item: "x \<in> snd ` set zs \<Longrightarrow> \<exists>us a vs. zs = us @ (a, x) # vs \<and> x \<notin> snd ` set us"
proof (induction zs)
  case Nil
  then show ?case by simp
next
  case (Cons z zs)
  show ?case
  proof (cases "snd z = x")
    case True
    then show ?thesis by (cases z) (metis append_Nil image_empty empty_iff list.set(1) snd_conv)
  next
    case False
    with Cons obtain us a vs where "zs = us @ (a, x) # vs" and "x \<notin> snd ` set us" by auto
    with False show ?thesis by (intro exI [of _ "z # us"]) auto
  qed
qed

lemma Remove_rep:
  assumes r: "rep l (us @ (a, x) # vs)" and us: "x \<notin> snd ` set us" and vs: "x \<notin> snd ` set vs"
  shows "\<exists>l'. Remove l x = Some l' \<and> rep l' (us @ vs)"
proof -
  have isin: "IsInList l x = Some True" using IsInList_rep [OF r] by simp
  show ?thesis
  proof (cases us)
    case Nil
    with r obtain l' where l': "RemoveFront l = Some (x, l')" "rep l' vs"
      using RemoveFront_rep by fastforce
    moreover have "deref l (first l) \<bind> (\<lambda>c. Some (element_item c)) = Some x"
      using rep_cons_addr [of l "(a, x)" vs] r Nil by (auto simp: deref_def)
    ultimately show ?thesis
      using Nil isin IsInList_rep [OF l'(2), of x] vs
      by (auto simp: Remove_def bind_Some_conv)
  next
    case (Cons u ws)
    obtain b y where u: "u = (b, y)" by (cases u)
    from r Cons u have r': "rep l ([] @ (b, y) # ws @ (a, x) # vs)" by simp
    from rep_mid [OF r'] obtain n where n: "first l = Some b"
        "cells l b = Some \<lparr>element_next = n, element_item = y\<rparr>"
        "chain (cells l) n (ws @ (a, x) # vs) None" by auto
    obtain l' where l': "Remove_loop l x (Some b) n = Some l'" "rep l' ((b, y) # ws @ vs)"
      using Remove_loop_rep [OF r' _ n(3)] us Cons by auto
    then show ?thesis
      using isin n us vs Cons u IsInList_rep [OF l'(2), of x]
      by (auto simp: Remove_def deref_def image_Un)
  qed
qed

lemma Remove_absent: "rep l zs \<Longrightarrow> x \<notin> snd ` set zs \<Longrightarrow> Remove l x = None"
  by (simp add: Remove_def IsInList_rep bind_ASSERT)

subsection \<open>Insertion in order\<close>

lemma Insert_loop_rep:
  assumes "rep l (ws @ (b, y) # vs)" and e: "cells l e = Some \<lparr>element_next = None, element_item = x\<rparr>"
    and "e \<notin> fst ` set (ws @ (b, y) # vs)" and "e < fresh l"
    and P: "P = (\<lambda>z. \<not> compare x (snd z) < 0)"
  shows "if dropWhile P vs = [] then Insert_loop compare l x e (Some b) = Some (l, False)
    else \<exists>l'. Insert_loop compare l x e (Some b) = Some (l', True) \<and>
      rep l' (ws @ (b, y) # takeWhile P vs @ (e, x) # dropWhile P vs)"
  using assms(1,3)
proof (induction vs arbitrary: ws b y)
  case Nil
  then show ?case
    using rep_mid [OF Nil.prems(1)] by (auto simp: Insert_loop.simps [of _ _ _ _ "Some b"])
next
  case (Cons v vs)
  obtain a z where v: "v = (a, z)" by (cases v)
  with rep_mid [OF Cons.prems(1)] obtain n where
    b: "cells l b = Some \<lparr>element_next = Some a, element_item = y\<rparr>"
    and a: "cells l a = Some \<lparr>element_next = n, element_item = z\<rparr>" by auto
  show ?case
  proof (cases "P v")
    case True
    then have step: "Insert_loop compare l x e (Some b) = Insert_loop compare l x e (Some a)"
      using v a b P by (simp add: Insert_loop.simps [of _ _ _ _ "Some b"])
    have tw: "takeWhile P (v # vs) = v # takeWhile P vs" and dw: "dropWhile P (v # vs) = dropWhile P vs"
      using True by simp_all
    show ?thesis unfolding step tw dw
      using Cons.IH [of "ws @ [(b, y)]" a z] Cons.prems v by (simp split: if_split_asm)
  next
    case False
    then show ?thesis
      using Cons.prems v a b e P assms(4)
      by (auto simp: Insert_loop.simps [of _ _ _ _ "Some b"] set_next_def rep_def chain_append image_Un)
  qed
qed

text \<open>The place \<open>Insert\<close> puts an item: before the first one it is smaller than.\<close>

fun seq_insert :: "('a \<Rightarrow> 'a \<Rightarrow> int) \<Rightarrow> 'a \<Rightarrow> 'a list \<Rightarrow> 'a list" where
  "seq_insert compare x [] = [x]"
| "seq_insert compare x (y # ys) =
     (if compare x y < 0 then x # y # ys else y # seq_insert compare x ys)"

lemma seq_insert_split:
  "seq_insert compare x xs =
     takeWhile (\<lambda>y. \<not> compare x y < 0) xs @ x # dropWhile (\<lambda>y. \<not> compare x y < 0) xs"
  by (induction xs) auto

lemma set_seq_insert [simp]: "set (seq_insert compare x xs) = insert x (set xs)"
  by (induction xs) auto

lemma length_seq_insert [simp]: "length (seq_insert compare x xs) = Suc (length xs)"
  by (induction xs) auto

lemma distinct_seq_insert: "distinct (seq_insert compare x xs) \<longleftrightarrow> x \<notin> set xs \<and> distinct xs"
  by (induction xs) auto

lemma Insert_rep:
  assumes r: "rep l zs" and new: "x \<notin> snd ` set zs"
  shows "\<exists>l' ws. SortedList_Insert compare l x = Some l' \<and> rep l' ws \<and>
    map snd ws = seq_insert compare x (map snd zs)"
proof -
  define e where "e = fresh l"
  define l1 where "l1 = snd (alloc_cell l x)"
  define P where "P = (\<lambda>z :: nat \<times> 'a. \<not> compare x (snd z) < 0)"
  have alloc: "alloc_cell l x = (e, l1)" by (simp add: e_def l1_def alloc_cell_def)
  have r1: "rep l1 zs" using rep_alloc [OF r] by (simp add: l1_def)
  have isin: "IsInList l1 x = Some False" using IsInList_rep [OF r1] new by simp
  have e1: "cells l1 e = Some \<lparr>element_next = None, element_item = x\<rparr>" "e < fresh l1"
      and e2: "e \<notin> fst ` set zs"
    using r by (auto simp: e_def l1_def alloc_cell_def ListElement_new_def rep_def)
  have seq: "seq_insert compare x (map snd zs) = map snd (takeWhile P zs @ (e, x) # dropWhile P zs)"
    by (simp add: seq_insert_split takeWhile_map dropWhile_map comp_def P_def)
  show ?thesis
  proof (cases zs)
    case Nil
    let ?l = "l1\<lparr>first := Some e, last_cell := Some e, numInList := numInList l1 + 1\<rparr>"
    have "rep ?l [(e, x)]" using r1 e1 Nil by (simp add: rep_def)
    with IsInList_rep [OF this, of x] show ?thesis
      using Nil isin alloc IsEmpty_rep [OF r1] by (auto simp: SortedList_Insert_def)
  next
    case (Cons z vs)
    obtain b y where z: "z = (b, y)" by (cases z)
    from rep_mid [of l1 "[]" b y vs] r1 Cons z obtain n where b: "first l1 = Some b"
      "cells l1 b = Some \<lparr>element_next = n, element_item = y\<rparr>" by auto
    have ne: "\<not> IsEmpty l1" using IsEmpty_rep [OF r1] Cons by simp
    show ?thesis
    proof (cases "compare x y < 0")
      case True
      let ?l = "l1\<lparr>cells := (cells l1)(e \<mapsto> \<lparr>element_next = first l1, element_item = x\<rparr>),
        first := Some e, numInList := numInList l1 + 1\<rparr>"
      have "rep ?l ((e, x) # zs)" using r1 e1 e2 Cons by (auto simp: rep_def)
      with IsInList_rep [OF this, of x] show ?thesis
        using Cons isin alloc ne b z True e1
        by (auto simp: SortedList_Insert_def deref_def set_next_def)
    next
      case False
      then have Pz: "P z" using z by (simp add: P_def)
      have loop: "if dropWhile P vs = [] then Insert_loop compare l1 x e (Some b) = Some (l1, False)
        else \<exists>l'. Insert_loop compare l1 x e (Some b) = Some (l', True) \<and>
          rep l' ([] @ (b, y) # takeWhile P vs @ (e, x) # dropWhile P vs)"
        by (rule Insert_loop_rep) (use r1 e1 e2 Cons z P_def in auto)
      show ?thesis
      proof (cases "dropWhile P vs = []")
        case True
        obtain l2 where l2: "Append_link l1 e = Some l2"
            "rep (l2\<lparr>numInList := numInList l2 + 1\<rparr>) (zs @ [(e, x)])"
          using Append_link_rep [OF r l1_def] by (auto simp: e_def)
        then obtain l3 where l3: "set_next l1 (last_cell l1) (Some e) = Some l3"
            "l2 = l3\<lparr>last_cell := Some e\<rparr>"
          using ne by (auto simp: Append_link_def bind_Some_conv)
        have tw: "takeWhile P vs = vs" using True by (metis append_Nil2 takeWhile_dropWhile_id)
        have "seq_insert compare x (map snd zs) = map snd (zs @ [(e, x)])"
          by (subst seq) (simp add: Cons True Pz tw)
        then show ?thesis
          using True loop alloc isin ne b z False l2 l3 IsInList_rep [OF l2(2), of x]
          by (auto simp: SortedList_Insert_def deref_def)
      next
        case cont: False
        then obtain l' where "Insert_loop compare l1 x e (Some b) = Some (l', True)"
            "rep l' ((b, y) # takeWhile P vs @ (e, x) # dropWhile P vs)"
          using loop unfolding if_not_P [OF cont] append_Nil by blast
        then show ?thesis
          using alloc isin ne b z False seq Cons Pz
          by (intro exI [of _ l'] exI [of _ "(b, y) # takeWhile P vs @ (e, x) # dropWhile P vs"])
            (simp add: SortedList_Insert_def deref_def)
      qed
    qed
  qed
qed

lemma Insert_dup: "rep l zs \<Longrightarrow> x \<in> snd ` set zs \<Longrightarrow> SortedList_Insert compare l x = None"
  using IsInList_rep [OF rep_alloc, of l zs x x]
  by (simp add: SortedList_Insert_def split_beta bind_ASSERT)

subsection \<open>The structural self-check\<close>

lemma SanityCheck_loop_rep:
  assumes "rep l (ws @ (b, y) # vs)" and "numFound = int (length ws) + 1"
  shows "SanityCheck_loop l numFound (Some b) = Some (numInList l)"
  using assms
proof (induction vs arbitrary: ws b y numFound)
  case Nil
  then show ?case by (simp add: SanityCheck_loop.simps rep_def)
next
  case (Cons v vs)
  obtain a z where v: "v = (a, z)" by (cases v)
  with rep_mid [OF Cons.prems(1)] obtain
    b: "cells l b = Some \<lparr>element_next = Some a, element_item = y\<rparr>" by auto
  have "last_cell l \<noteq> Some b" and "numFound + 1 \<le> numInList l"
    using Cons.prems v by (auto simp: rep_def last_append split: if_splits)
  then show ?case
    using Cons.IH [of "ws @ [(b, y)]" a z "numFound + 1"] Cons.prems v b
    by (simp add: SanityCheck_loop.simps [of _ _ "Some b"])
qed

lemma SanityCheck_rep: "rep l zs \<Longrightarrow> SanityCheck l = Some ()"
proof (cases zs)
  case Nil
  then show "rep l zs \<Longrightarrow> SanityCheck l = Some ()" by (simp add: SanityCheck_def rep_def)
next
  case (Cons z vs)
  obtain b y where z: "z = (b, y)" by (cases z)
  assume r: "rep l zs"
  with Cons z have r': "rep l ([] @ (b, y) # vs)" by simp
  have f: "first l = Some b" using r' by (simp add: rep_def)
  obtain us w where us: "zs = us @ [w]" using Cons by (metis list.discI rev_exhaust)
  obtain c x where w: "w = (c, x)" by (cases w)
  have last: "last_cell l = Some c" "cells l c = Some \<lparr>element_next = None, element_item = x\<rparr>"
    using r us w by (auto simp: rep_def chain_append)
  have one: "b = c \<Longrightarrow> numInList l = 1"
    using r us w Cons z by (cases us) (auto simp: rep_def)
  show "SanityCheck l = Some ()"
    using f last one SanityCheck_loop_rep [OF r', of 1]
    by (auto simp: SanityCheck_def deref_def)
qed


subsection \<open>The sequence operations\<close>

text \<open>
  What each list operation promises, over the sequence of the items: the specification the
  pointer operations implement, and the form in which the components that keep queues use them.
\<close>

definition seq_Append :: "'a list \<Rightarrow> 'a \<Rightarrow> 'a list option" where
  "seq_Append xs x = (if x \<in> set xs then None else Some (xs @ [x]))"

definition seq_Prepend :: "'a list \<Rightarrow> 'a \<Rightarrow> 'a list option" where
  "seq_Prepend xs x = (if x \<in> set xs then None else Some (x # xs))"

fun seq_RemoveFront :: "'a list \<Rightarrow> ('a \<times> 'a list) option" where
  "seq_RemoveFront [] = None"
| "seq_RemoveFront (x # xs) = Some (x, xs)"

lemma seq_RemoveFront_Some [simp]: "seq_RemoveFront xs = Some (x, ys) \<longleftrightarrow> xs = x # ys"
  by (cases xs) auto

lemma seq_RemoveFront_None [simp]: "seq_RemoveFront xs = None \<longleftrightarrow> xs = []"
  by (cases xs) auto

definition seq_Remove :: "'a list \<Rightarrow> 'a \<Rightarrow> 'a list option" where
  "seq_Remove xs x = (if x \<in> set xs then Some (remove1 x xs) else None)"

definition seq_Insert :: "('a \<Rightarrow> 'a \<Rightarrow> int) \<Rightarrow> 'a list \<Rightarrow> 'a \<Rightarrow> 'a list option" where
  "seq_Insert compare xs x = (if x \<in> set xs then None else Some (seq_insert compare x xs))"

lemma is_listE:
  assumes "is_list l xs"
  obtains zs where "rep l zs" and "map snd zs = xs" and "distinct xs" and "set xs = snd ` set zs"
  using assms by (auto simp: is_list_def)

lemma List_new_is_list [simp]: "is_list List_new []"
  by (simp add: is_list_def rep_def List_new_def)

lemma Append_refines: "is_list l xs \<Longrightarrow> rel_option is_list (Append l x) (seq_Append xs x)"
proof (erule is_listE)
  fix zs assume r: "rep l zs" and xs: "map snd zs = xs" "distinct xs" "set xs = snd ` set zs"
  show "rel_option is_list (Append l x) (seq_Append xs x)"
    using Append_dup [OF r, of x] Append_rep [OF r, of x] xs
    by (cases "x \<in> set xs") (force simp: seq_Append_def is_list_def)+
qed

lemma Prepend_refines: "is_list l xs \<Longrightarrow> rel_option is_list (Prepend l x) (seq_Prepend xs x)"
proof (erule is_listE)
  fix zs assume r: "rep l zs" and xs: "map snd zs = xs" "distinct xs" "set xs = snd ` set zs"
  show "rel_option is_list (Prepend l x) (seq_Prepend xs x)"
    using Prepend_dup [OF r, of x] Prepend_rep [OF r, of x] xs
    by (cases "x \<in> set xs") (force simp: seq_Prepend_def is_list_def)+
qed

lemma RemoveFront_refines:
  "is_list l xs \<Longrightarrow> rel_option (rel_prod (=) is_list) (RemoveFront l) (seq_RemoveFront xs)"
proof (erule is_listE)
  fix zs assume r: "rep l zs" and xs: "map snd zs = xs" "distinct xs"
  show "rel_option (rel_prod (=) is_list) (RemoveFront l) (seq_RemoveFront xs)"
  proof (cases zs)
    case Nil
    then show ?thesis using RemoveFront_empty r xs by auto
  next
    case (Cons z ws)
    obtain a y where z: "z = (a, y)" by (cases z)
    with r Cons obtain l' where "RemoveFront l = Some (y, l')" "rep l' ws"
      using RemoveFront_rep [of l a y ws] by auto
    then show ?thesis using Cons z xs by (auto simp: is_list_def)
  qed
qed

lemma Remove_refines: "is_list l xs \<Longrightarrow> rel_option is_list (Remove l x) (seq_Remove xs x)"
proof (erule is_listE)
  fix zs assume r: "rep l zs" and xs: "map snd zs = xs" "distinct xs" "set xs = snd ` set zs"
  show "rel_option is_list (Remove l x) (seq_Remove xs x)"
  proof (cases "x \<in> set xs")
    case False
    then show ?thesis using Remove_absent [OF r] xs by (simp add: seq_Remove_def)
  next
    case True
    then obtain us a vs where zs: "zs = us @ (a, x) # vs" "x \<notin> snd ` set us"
      using split_item xs by metis
    moreover have "x \<notin> snd ` set vs" using xs(1,2) zs(1) by force
    ultimately obtain l' where l': "Remove l x = Some l'" "rep l' (us @ vs)"
      using Remove_rep [of l us a x vs] r by auto
    have "x \<notin> set (map snd us)" using zs(2) by simp
    then have "remove1 x xs = map snd (us @ vs)"
      using xs(1) zs(1) by (auto simp: remove1_append)
    moreover have "distinct (remove1 x xs)" using xs(2) by simp
    moreover have "\<exists>zs. rep l' zs \<and> map snd zs = map snd (us @ vs)" using l'(2) by blast
    ultimately show ?thesis using l' True by (simp add: seq_Remove_def is_list_def)
  qed
qed

lemma Insert_refines:
  "is_list l xs \<Longrightarrow> rel_option is_list (SortedList_Insert compare l x) (seq_Insert compare xs x)"
proof (erule is_listE)
  fix zs assume r: "rep l zs" and xs: "map snd zs = xs" "distinct xs" "set xs = snd ` set zs"
  show "rel_option is_list (SortedList_Insert compare l x) (seq_Insert compare xs x)"
  proof (cases "x \<in> set xs")
    case True
    then show ?thesis using Insert_dup [OF r] xs by (simp add: seq_Insert_def)
  next
    case False
    then obtain l' ws where "SortedList_Insert compare l x = Some l'" "rep l' ws"
        "map snd ws = seq_insert compare x (map snd zs)"
      using Insert_rep [OF r] xs(3) by metis
    then show ?thesis using False xs by (auto simp: seq_Insert_def is_list_def distinct_seq_insert)
  qed
qed

lemma IsInList_refines: "is_list l xs \<Longrightarrow> IsInList l x = Some (x \<in> set xs)"
  by (erule is_listE) (simp add: IsInList_rep)

lemma IsEmpty_refines: "is_list l xs \<Longrightarrow> IsEmpty l = (xs = [])"
  by (erule is_listE) (auto simp: IsEmpty_rep)

lemma first_refines: "is_list l xs \<Longrightarrow> (first l = None) = (xs = [])"
proof (erule is_listE)
  fix zs assume "rep l zs" and "map snd zs = xs"
  then show "(first l = None) = (xs = [])" by (cases zs) (auto simp: rep_def)
qed

lemma NumInList_refines: "is_list l xs \<Longrightarrow> numInList l = int (length xs)"
  by (erule is_listE) (auto simp: rep_def)

lemma Front_refines: "is_list l (x # xs) \<Longrightarrow> Front l = Some x"
  by (erule is_listE) (auto simp: Front_def deref_def rep_def)

lemma SanityCheck_refines: "is_list l xs \<Longrightarrow> SanityCheck l = Some ()"
  by (erule is_listE) (rule SanityCheck_rep)

lemma Apply_from_chain: "chain (cells l) p zs None \<Longrightarrow> Apply_from l func p s = foldM func (map snd zs) s"
proof (induction zs arbitrary: p s)
  case Nil
  then show ?case by (simp add: Apply_from.simps)
next
  case (Cons z zs)
  then show ?case
    by (cases z) (auto simp: Apply_from.simps [of _ _ "Some _"] split: option.split)
qed

lemma Apply_refines: "is_list l xs \<Longrightarrow> Apply l func s = foldM func xs s"
  by (erule is_listE) (auto simp: Apply_def rep_def Apply_from_chain)


subsection \<open>Comparison functions and ordered lists\<close>

text \<open>
  What \<open>SortedList\<close> asks of its \<open>compare\<close>: negative, zero or positive, the sign turning
  round with the arguments, and an order that is transitive. The kernel's pending interrupts,
  sleeping threads and ready threads are kept by such a function.
\<close>

definition sorted_by :: "('a \<Rightarrow> 'a \<Rightarrow> int) \<Rightarrow> 'a list \<Rightarrow> bool" where
  "sorted_by compare = sorted_wrt (\<lambda>x y. compare x y \<le> 0)"

locale comparison =
  fixes compare :: "'a \<Rightarrow> 'a \<Rightarrow> int"
  assumes flip: "compare x y < 0 \<longleftrightarrow> 0 < compare y x"
    and trans: "compare x y \<le> 0 \<Longrightarrow> compare y z \<le> 0 \<Longrightarrow> compare x z \<le> 0"
begin

lemma not_less: "\<not> compare x y < 0 \<longleftrightarrow> compare y x \<le> 0"
  using flip [of x y] by auto

lemma insert_sorted: "sorted_by compare xs \<Longrightarrow> sorted_by compare (seq_insert compare x xs)"
proof (induction xs)
  case Nil
  then show ?case by (simp add: sorted_by_def)
next
  case (Cons y ys)
  then show ?case
    using not_less [of x y] trans [of x y] by (auto simp: sorted_by_def)
qed

text \<open>An item goes behind those already there that it ties with: the order among equals is FIFO.\<close>

lemma insert_stable:
  "sorted_by compare xs \<Longrightarrow>
   \<exists>us vs. xs = us @ vs \<and> seq_insert compare x xs = us @ x # vs \<and>
     (\<forall>u \<in> set us. compare u x \<le> 0) \<and> (\<forall>v \<in> set vs. compare x v < 0)"
proof (induction xs)
  case Nil
  then show ?case by simp
next
  case (Cons y ys)
  show ?case
  proof (cases "compare x y < 0")
    case True
    have "compare x v < 0" if "v \<in> set ys" for v
    proof (rule ccontr)
      assume "\<not> compare x v < 0"
      then have "compare v x \<le> 0" by (simp add: not_less)
      moreover have "compare y v \<le> 0" using Cons.prems that by (simp add: sorted_by_def)
      ultimately have "compare y x \<le> 0" using trans by blast
      with True flip [of x y] show False by simp
    qed
    with True show ?thesis by (metis append_Nil empty_iff empty_set seq_insert.simps(2) set_ConsD)
  next
    case False
    from Cons obtain us vs where "ys = us @ vs" "seq_insert compare x ys = us @ x # vs"
        "\<forall>u \<in> set us. compare u x \<le> 0" "\<forall>v \<in> set vs. compare x v < 0"
      by (auto simp: sorted_by_def)
    moreover have "compare y x \<le> 0" using False by (simp add: not_less)
    ultimately have "y # ys = (y # us) @ vs \<and> seq_insert compare x (y # ys) = (y # us) @ x # vs \<and>
        (\<forall>u \<in> set (y # us). compare u x \<le> 0) \<and> (\<forall>v \<in> set vs. compare x v < 0)"
      using False by simp
    then show ?thesis by blast
  qed
qed

lemma front_least:
  "sorted_by compare (x # xs) \<Longrightarrow> y \<in> set xs \<Longrightarrow> compare x y \<le> 0"
  by (simp add: sorted_by_def)

lemma sorted_from_chain:
  assumes "chain (cells l) ptr zs None" and "deref l prev = Some d"
    and "sorted_by compare (element_item d # map snd zs)"
  shows "sorted_from compare l prev ptr = Some ()"
  using assms
proof (induction zs arbitrary: prev ptr d)
  case Nil
  then show ?case by (simp add: sorted_from.simps)
next
  case (Cons z zs)
  obtain a x where z: "z = (a, x)" by (cases z)
  with Cons.prems(1) obtain n where "ptr = Some a" "chain (cells l) n zs None"
      "cells l a = Some \<lparr>element_next = n, element_item = x\<rparr>" by auto
  with Cons z show ?case
    by (simp add: sorted_from.simps [of _ _ _ "Some _"] sorted_by_def deref_def)
qed

lemma SanityCheck_sorted:
  "is_list l xs \<Longrightarrow> sorted_by compare xs \<Longrightarrow> SortedList_SanityCheck compare l = Some ()"
proof (frule SanityCheck_refines, erule is_listE)
  fix zs assume "sorted_by compare xs" and s: "SanityCheck l = Some ()"
    and r: "rep l zs" and "map snd zs = xs"
  then have sb: "sorted_by compare (map snd zs)" by simp
  show "SortedList_SanityCheck compare l = Some ()"
  proof (cases zs)
    case Nil
    with r s show ?thesis by (simp add: SortedList_SanityCheck_def rep_def)
  next
    case (Cons z ws)
    obtain a x where z: "z = (a, x)" by (cases z)
    with r Cons obtain n where "first l = Some a" "chain (cells l) n ws None"
        "cells l a = Some \<lparr>element_next = n, element_item = x\<rparr>"
      using rep_cons_addr [of l z ws] by auto
    with s sb Cons z show ?thesis
      using sorted_from_chain [of l n ws "first l" "\<lparr>element_next = n, element_item = x\<rparr>"]
      by (simp add: SortedList_SanityCheck_def deref_def)
  qed
qed

end

subsection \<open>The self-tests\<close>

text \<open>A run of additions, each putting an item not yet there, ends with all of them.\<close>

lemma rel_option_Some:
  "rel_option R m (Some y) \<Longrightarrow> \<exists>x. m = Some x \<and> R x y"
  by (cases m) auto

lemma put_all:
  assumes put: "\<And>l ys x. is_list l ys \<Longrightarrow> ok ys \<Longrightarrow> x \<notin> set ys \<Longrightarrow>
      \<exists>l' zs. put l x = Some l' \<and> is_list l' zs \<and> ok zs \<and> set zs = insert x (set ys)"
    and "is_list l ys" and "ok ys" and "distinct p" and "set p \<inter> set ys = {}"
    and chk: "\<And>l ys x. is_list l ys \<Longrightarrow> x \<in> set ys \<Longrightarrow> chk l x = Some l"
  shows "\<exists>l' zs. foldM (\<lambda>x l. do { l \<leftarrow> put l x; chk l x }) p l = Some l' \<and> is_list l' zs \<and> ok zs \<and>
    set zs = set ys \<union> set p"
  using assms(2-5)
proof (induction p arbitrary: l ys)
  case Nil
  then show ?case by auto
next
  case (Cons x p)
  from Cons.prems have "x \<notin> set ys" by auto
  from put [OF Cons.prems(1,2) this] obtain l1 zs where
    l1: "put l x = Some l1" "is_list l1 zs" "ok zs" "set zs = insert x (set ys)" by blast
  have "distinct p" and "set p \<inter> set zs = {}" using Cons.prems l1(4) by auto
  from Cons.IH [OF l1(2,3) this] obtain l2 us where
    "foldM (\<lambda>x l. do { l \<leftarrow> put l x; chk l x }) p l1 = Some l2" "is_list l2 us" "ok us"
    "set us = set zs \<union> set p" by blast
  with l1 chk [OF l1(2), of x] show ?case by auto
qed

lemma remove_all:
  assumes "is_list l ys" and "distinct p" and "set p \<subseteq> set ys"
  shows "\<exists>l' zs. foldM (\<lambda>x l. do {
      l \<leftarrow> Remove l x; isin \<leftarrow> IsInList l x; ASSERT (\<not> isin); Some l }) p l = Some l' \<and>
    is_list l' zs \<and> set zs = set ys - set p"
  using assms
proof (induction p arbitrary: l ys)
  case Nil
  then show ?case by auto
next
  case (Cons x p)
  have dys: "distinct ys" using Cons.prems(1) by (simp add: is_list_def)
  have "x \<in> set ys" using Cons.prems by simp
  then obtain l1 where l1: "Remove l x = Some l1" "is_list l1 (remove1 x ys)"
    using rel_option_Some [of is_list "Remove l x" "remove1 x ys"] Remove_refines [OF Cons.prems(1), of x]
    by (auto simp: seq_Remove_def)
  have st: "set (remove1 x ys) = set ys - {x}" using dys by (simp add: set_remove1_eq)
  have "distinct p" and "set p \<subseteq> set (remove1 x ys)" using Cons.prems st by auto
  then obtain l2 us where "foldM (\<lambda>x l. do {
      l \<leftarrow> Remove l x; isin \<leftarrow> IsInList l x; ASSERT (\<not> isin); Some l }) p l1 = Some l2"
    "is_list l2 us" "set us = set (remove1 x ys) - set p"
    using Cons.IH [OF l1(2)] by blast
  with l1 st IsInList_refines [OF l1(2), of x] show ?case by auto
qed


lemma take_all:
  "is_list l xs \<Longrightarrow> length p = length xs \<Longrightarrow>
   \<exists>l'. foldM (\<lambda>_ (l, q). do {
       (x, l) \<leftarrow> RemoveFront l; isin \<leftarrow> IsInList l x; ASSERT (\<not> isin); Some (l, q @ [x]) })
     p (l, q) = Some (l', q @ xs) \<and> is_list l' []"
proof (induction xs arbitrary: l p q)
  case Nil
  then show ?case by simp
next
  case (Cons x xs)
  then obtain y p' where p: "p = y # p'" "length p' = length xs" by (cases p) auto
  from RemoveFront_refines [OF Cons.prems(1)] obtain l1 where
    l1: "RemoveFront l = Some (x, l1)" "is_list l1 xs"
    by (auto simp: option_rel_Some2 rel_prod_conv dest!: rel_option_Some)
  have "x \<notin> set xs" using Cons.prems(1) by (simp add: is_list_def)
  with Cons.IH [OF l1(2) p(2), of "q @ [x]"] l1 IsInList_refines [OF l1(2), of x] p(1)
  show ?case by simp
qed

lemma List_SelfTest_run:
  assumes put: "\<And>l ys x. is_list l ys \<Longrightarrow> ok ys \<Longrightarrow> x \<notin> set ys \<Longrightarrow>
      \<exists>l' zs. put l x = Some l' \<and> is_list l' zs \<and> ok zs \<and> set zs = insert x (set ys)"
    and sanity: "\<And>l ys. is_list l ys \<Longrightarrow> ok ys \<Longrightarrow> check l = Some ()"
    and "is_list l []" and "ok []" and "distinct p"
  shows "\<exists>l'. List_SelfTest put check p l = Some l' \<and> is_list l' []"
proof -
  let ?chk = "\<lambda>l x. do { isin \<leftarrow> IsInList l x; ASSERT isin; ASSERT (\<not> IsEmpty l); Some l }"
  have chk: "?chk l x = Some l" if "is_list l ys" "x \<in> set ys" for l ys x
    using that by (auto simp: IsInList_refines IsEmpty_refines bind_ASSERT)
  have "\<exists>l' zs. foldM (\<lambda>x l. do { l \<leftarrow> put l x; ?chk l x }) p l = Some l' \<and> is_list l' zs \<and> ok zs \<and>
      set zs = set [] \<union> set p"
    by (rule put_all) (fact put assms chk | simp)+
  then obtain l1 zs where l1: "foldM (\<lambda>x l. do { l \<leftarrow> put l x; ?chk l x }) p l = Some l1"
      "is_list l1 zs" "ok zs" "set zs = set p" by auto
  from remove_all [OF l1(2) assms(5)] l1(4) obtain l2 us where
    l2: "foldM (\<lambda>x l. do { l \<leftarrow> Remove l x; isin \<leftarrow> IsInList l x; ASSERT (\<not> isin); Some l }) p l1
      = Some l2" "is_list l2 us" "set us = {}" by auto
  then have l3: "is_list l2 []" by simp
  have empty: "IsEmpty l \<and> first l = None" "IsDone (ListIterator_new l)" "IsEmpty l2"
    using assms(3) l3 by (simp_all add: IsEmpty_refines first_refines IsDone_def ListIterator_new_def)
  show ?thesis
    using sanity [OF assms(3,4)] sanity [OF l1(2,3)] sanity [OF l3 assms(4)] l1(1) l2(1) l3 empty
    by (simp add: List_SelfTest_def)
qed

context comparison begin

lemma put_Insert:
  assumes "is_list l ys" and "sorted_by compare ys" and "x \<notin> set ys"
  shows "\<exists>l' zs. SortedList_Insert compare l x = Some l' \<and> is_list l' zs \<and> sorted_by compare zs \<and>
    set zs = insert x (set ys)"
proof -
  from Insert_refines [OF assms(1), of compare x] obtain l' where
    "SortedList_Insert compare l x = Some l'" "is_list l' (seq_insert compare x ys)"
    using assms(3) by (auto simp: seq_Insert_def dest!: rel_option_Some)
  then show ?thesis using insert_sorted [OF assms(2)] by auto
qed

lemma SelfTest_runs:
  assumes "distinct p"
  shows "\<exists>l. SortedList_SelfTest compare p List_new = Some l \<and> is_list l []"
proof -
  let ?chk = "\<lambda>l x. do { isin \<leftarrow> IsInList l x; ASSERT isin; Some l }"
  have s0: "sorted_by compare []" by (simp add: sorted_by_def)
  obtain l0 where l0: "List_SelfTest (SortedList_Insert compare) (SortedList_SanityCheck compare) p List_new
      = Some l0" "is_list l0 []"
    using List_SelfTest_run [of "sorted_by compare" "SortedList_Insert compare"
        "SortedList_SanityCheck compare" List_new p] put_Insert SanityCheck_sorted s0 assms by auto
  have chk: "?chk l x = Some l" if "is_list l ys" "x \<in> set ys" for l ys x
    using that by (auto simp: IsInList_refines)
  have "\<exists>l' zs. foldM (\<lambda>x l. do { l \<leftarrow> SortedList_Insert compare l x; ?chk l x }) p l0 = Some l' \<and>
      is_list l' zs \<and> sorted_by compare zs \<and> set zs = set [] \<union> set p"
    by (rule put_all) (fact put_Insert l0 s0 assms chk | simp)+
  then obtain l1 zs where l1: "foldM (\<lambda>x l. do { l \<leftarrow> SortedList_Insert compare l x; ?chk l x }) p l0 = Some l1"
      "is_list l1 zs" "sorted_by compare zs" "set zs = set p" by auto
  have len: "length p = length zs"
    using assms l1(2,4) by (metis distinct_card is_list_def)
  from take_all [OF l1(2) len, of "[]"] obtain l2 where
    l2: "foldM (\<lambda>_ (l, q). do {
       (x, l) \<leftarrow> RemoveFront l; isin \<leftarrow> IsInList l x; ASSERT (\<not> isin); Some (l, q @ [x]) })
     p (l1, []) = Some (l2, zs)" "is_list l2 []" by auto
  have ord: "\<forall>i \<in> set [0..<length p - 1]. compare (zs ! i) (zs ! (i + 1)) \<le> 0"
    using l1(3) len by (auto simp: sorted_by_def sorted_wrt_iff_nth_less)
  show ?thesis
    using l0(1) l1(1) l2 SanityCheck_sorted [OF l1(2,3)] SanityCheck_sorted [OF l2(2) s0] ord
    by (simp add: SortedList_SelfTest_def foldM_ASSERT IsEmpty_refines [OF l2(2)] bind_ASSERT)
qed

end

subsection \<open>The queue interface\<close>

text \<open>
  What the clients of a list ask of it as a queue: something put comes out after everything
  put before it.
\<close>

locale fifo_queue =
  fixes holds :: "'q \<Rightarrow> 'a list \<Rightarrow> bool"
    and put :: "'q \<Rightarrow> 'a \<Rightarrow> 'q option"
    and take_front :: "'q \<Rightarrow> ('a \<times> 'q) option"
  assumes put_new: "holds q xs \<Longrightarrow> x \<notin> set xs \<Longrightarrow> \<exists>q'. put q x = Some q' \<and> holds q' (xs @ [x])"
    and take_first: "holds q (x # xs) \<Longrightarrow> \<exists>q'. take_front q = Some (x, q') \<and> holds q' xs"
    and take_empty: "holds q [] \<Longrightarrow> take_front q = None"
    and holds_distinct: "holds q xs \<Longrightarrow> distinct xs"
begin

lemma put_run:
  "holds q xs \<Longrightarrow> distinct (xs @ ys) \<Longrightarrow> \<exists>q'. foldM (\<lambda>x q. put q x) ys q = Some q' \<and> holds q' (xs @ ys)"
proof (induction ys arbitrary: q xs)
  case Nil
  then show ?case by simp
next
  case (Cons y ys)
  then have "y \<notin> set xs" by auto
  with put_new [OF Cons.prems(1)] obtain q1 where "put q y = Some q1" "holds q1 (xs @ [y])" by blast
  with Cons.IH [of q1 "xs @ [y]"] Cons.prems(2) show ?case by auto
qed

lemma take_run:
  "holds q xs \<Longrightarrow> \<exists>q'. foldM (\<lambda>_ (q, out). do { (x, q) \<leftarrow> take_front q; Some (q, out @ [x]) }) xs (q, out)
     = Some (q', out @ xs) \<and> holds q' []"
proof (induction xs arbitrary: q out)
  case Nil
  then show ?case by simp
next
  case (Cons x xs)
  from take_first [OF Cons.prems] obtain q1 where "take_front q = Some (x, q1)" "holds q1 xs" by blast
  with Cons.IH [of q1 "out @ [x]"] show ?case by auto
qed

lemma fifo:
  "holds q [] \<Longrightarrow> distinct xs \<Longrightarrow>
   \<exists>q1 q2. foldM (\<lambda>x q. put q x) xs q = Some q1 \<and> take_front q2 = None \<and>
     foldM (\<lambda>_ (q, out). do { (x, q) \<leftarrow> take_front q; Some (q, out @ [x]) }) xs (q1, []) = Some (q2, xs)"
  using put_run [of q "[]" xs] take_run [of _ xs "[]"] take_empty by fastforce

end

interpretation lq: fifo_queue is_list Append RemoveFront
proof
  fix q :: "'a List" and xs :: "'a list" and x
  show "is_list q xs \<Longrightarrow> x \<notin> set xs \<Longrightarrow> \<exists>q'. Append q x = Some q' \<and> is_list q' (xs @ [x])"
    using Append_refines [of q xs x] by (auto simp: seq_Append_def dest!: rel_option_Some)
  show "is_list q (x # xs) \<Longrightarrow> \<exists>q'. RemoveFront q = Some (x, q') \<and> is_list q' xs"
    by (drule RemoveFront_refines) (auto simp: rel_prod_conv dest!: rel_option_Some)
  show "is_list q [] \<Longrightarrow> RemoveFront q = None"
    by (drule RemoveFront_refines) auto
  show "is_list q xs \<Longrightarrow> distinct xs"
    by (simp add: is_list_def)
qed

subsection \<open>Properties\<close>

text \<open>
  C12. Every operation of \<open>List\<close> and \<open>SortedList::Insert\<close>, run on the linked cells of a
  well-formed list, does what its sequence operation does to the sequence of the items, the
  failing assertions included: it stops exactly when the sequence operation is undefined, and
  otherwise leaves a well-formed list (first, last, counter and links) of the new sequence.
\<close>

theorem List_operations_refine:
  assumes "is_list l xs"
  shows "rel_option is_list (Append l x) (seq_Append xs x) \<and>
    rel_option is_list (Prepend l x) (seq_Prepend xs x) \<and>
    rel_option (rel_prod (=) is_list) (RemoveFront l) (seq_RemoveFront xs) \<and>
    rel_option is_list (Remove l x) (seq_Remove xs x) \<and>
    rel_option is_list (SortedList_Insert compare l x) (seq_Insert compare xs x) \<and>
    IsInList l x = Some (x \<in> set xs) \<and> IsEmpty l = (xs = []) \<and> numInList l = int (length xs) \<and>
    SanityCheck l = Some () \<and> Apply l func s = foldM func xs s"
  using assms
  by (intro conjI Append_refines Prepend_refines RemoveFront_refines Remove_refines Insert_refines
      IsInList_refines IsEmpty_refines NumInList_refines SanityCheck_refines Apply_refines)

lemma List_operations_refine_witness:
  "Remove (List_new :: int List) 3 = None \<and>
   rel_option is_list (SortedList_Insert (-) (List_new :: int List) 3) (Some [3])"
  using List_operations_refine [OF List_new_is_list, where x = "3 :: int" and compare = "(-)" and func = "\<lambda>_. Some" and s = "()"]
  by (simp add: seq_Remove_def seq_Insert_def)

text \<open>
  C13. \<open>SortedList::Insert\<close> on a sorted list: the item is linked in behind every item it ties
  with and before the first greater one, so the list stays sorted and ties keep their order of
  arrival. The compare function is any that satisfies what \<open>list.h\<close> asks.
\<close>

theorem SortedList_Insert_sorted_stable:
  assumes "comparison compare" and "is_list l xs" and "sorted_by compare xs" and "x \<notin> set xs"
  shows "\<exists>l' us vs. SortedList_Insert compare l x = Some l' \<and> xs = us @ vs \<and> is_list l' (us @ x # vs) \<and>
    sorted_by compare (us @ x # vs) \<and>
    (\<forall>u \<in> set us. compare u x \<le> 0) \<and> (\<forall>v \<in> set vs. compare x v < 0)"
proof -
  from Insert_refines [OF assms(2), of compare x] assms(4) obtain l' where
    "SortedList_Insert compare l x = Some l'" "is_list l' (seq_insert compare x xs)"
    by (auto simp: seq_Insert_def dest!: rel_option_Some)
  with comparison.insert_sorted [OF assms(1,3)] comparison.insert_stable [OF assms(1,3), of x]
  show ?thesis by metis
qed

lemma SortedList_Insert_sorted_stable_witness:
  "\<exists>l'. SortedList_Insert (\<lambda>x y :: nat \<times> nat. int (fst x) - int (fst y)) List_new (5, 1) = Some l'"
proof -
  have "comparison (\<lambda>x y :: nat \<times> nat. int (fst x) - int (fst y))"
    by unfold_locales auto
  from SortedList_Insert_sorted_stable [OF this List_new_is_list, of "(5, 1)"]
  show ?thesis by (auto simp: sorted_by_def)
qed

text \<open>
  The module's own test passes: \<open>SortedList::SelfTest\<close> on an empty list, run with any
  distinct entries and any proper compare function, through every assertion in it, and leaves
  the list empty.
\<close>

lemma SortedList_SelfTest_passes:
  assumes "comparison compare" and "distinct p"
  shows "\<exists>l. SortedList_SelfTest compare p List_new = Some l \<and> is_list l []"
  by (rule comparison.SelfTest_runs [OF assms])

lemma SortedList_SelfTest_passes_witness:
  "\<exists>l. SortedList_SelfTest (\<lambda>x y. x - y) [9, 5, 7 :: int] List_new = Some l"
proof -
  have "comparison (\<lambda>x y :: int. x - y)" by unfold_locales auto
  from SortedList_SelfTest_passes [OF this, of "[9, 5, 7]"] show ?thesis by auto
qed

text \<open>
  A \<open>List\<close> used as the kernel's queues use it, \<open>Append\<close> at one end and
  \<open>RemoveFront\<close> at the other, gives everything back in the order it was put in, and then
  refuses to give more.
\<close>

theorem List_is_fifo:
  assumes "distinct xs"
  shows "\<exists>q1 q2. foldM (\<lambda>x q. Append q x) xs List_new = Some q1 \<and> RemoveFront q2 = None \<and>
     foldM (\<lambda>_ (q, out). do { (x, q) \<leftarrow> RemoveFront q; Some (q, out @ [x]) }) xs (q1, []) = Some (q2, xs)"
  by (rule lq.fifo [OF List_new_is_list assms])

lemma List_is_fifo_witness:
  "\<exists>q1. foldM (\<lambda>x q. Append q x) [4, 2, 8 :: int] List_new = Some q1"
  using List_is_fifo [of "[4, 2, 8 :: int]"] by auto

end
