(* ===== verification/HashTable.thy ===== *)
theory HashTable
  imports NList "HOL-Library.Multiset"
begin

text \<open>
  \<open>lib/hash.h\<close> and \<open>lib/hash.cc\<close>: a table that chains its items in an array of lists and grows
  by rehashing. The functions that give an item's key and a key's hash are arguments of every
  operation, the buckets are the sequences of \<open>NList\<close>. The table is proved to be a finite map
  from keys to items, whatever the hash function, and its iterator to visit every item once.
\<close>

definition InitialBuckets :: int where "InitialBuckets = 4"
definition ResizeRatio :: int where "ResizeRatio = 3"
definition IncreaseSizeBy :: int where "IncreaseSizeBy = 4"

record 'a hashtable =
  buckets :: "'a list list"
  numBuckets :: int
  numItems :: int

definition InitBuckets :: "int \<Rightarrow> 'a hashtable \<Rightarrow> 'a hashtable" where
  "InitBuckets sz t = t\<lparr>numBuckets := sz, buckets := replicate (nat sz) []\<rparr>"

definition HashTable_new :: "'a hashtable" where
  "HashTable_new = InitBuckets InitialBuckets \<lparr>buckets = [], numBuckets = 0, numItems = 0\<rparr>"

definition HashValue :: "('k \<Rightarrow> u32) \<Rightarrow> 'a hashtable \<Rightarrow> 'k \<Rightarrow> int option" where
  "HashValue hash t key = do {
     ASSERT (numBuckets t \<noteq> 0);
     let result = uint (hash key) mod numBuckets t;
     ASSERT (0 \<le> result \<and> result < numBuckets t);
     Some result }"

definition FindInBucket :: "('a \<Rightarrow> 'k) \<Rightarrow> 'a hashtable \<Rightarrow> int \<Rightarrow> 'k \<Rightarrow> 'a option option" where
  "FindInBucket getKey t bucket key = do {
     b \<leftarrow> arr_get (buckets t) bucket;
     Some (find (\<lambda>x. key = getKey x) b) }"

definition Find :: "('a \<Rightarrow> 'k) \<Rightarrow> ('k \<Rightarrow> u32) \<Rightarrow> 'a hashtable \<Rightarrow> 'k \<Rightarrow> 'a option option" where
  "Find getKey hash t key = do { bucket \<leftarrow> HashValue hash t key; FindInBucket getKey t bucket key }"

definition IsInTable :: "('a \<Rightarrow> 'k) \<Rightarrow> ('k \<Rightarrow> u32) \<Rightarrow> 'a hashtable \<Rightarrow> 'k \<Rightarrow> bool option" where
  "IsInTable getKey hash t key = map_option (\<lambda>r. r \<noteq> None) (Find getKey hash t key)"

definition HT_IsEmpty :: "'a hashtable \<Rightarrow> bool" where
  "HT_IsEmpty t = (numItems t = 0)"

definition HT_SanityCheck :: "('a \<Rightarrow> 'k) \<Rightarrow> ('k \<Rightarrow> u32) \<Rightarrow> 'a hashtable \<Rightarrow> unit option" where
  "HT_SanityCheck getKey hash t = do {
     numFound \<leftarrow> foldM (\<lambda>i numFound. do {
         b \<leftarrow> arr_get (buckets t) i;
         foldM (\<lambda>x _. do { h \<leftarrow> HashValue hash t (getKey x); ASSERT (i = h) }) b ();
         Some (numFound + int (length b)) }) [0..numBuckets t - 1] 0;
     ASSERT (numItems t = numFound) }"

text \<open>The bucket an item belongs to gets it at its end.\<close>

definition put_item :: "('a \<Rightarrow> 'k) \<Rightarrow> ('k \<Rightarrow> u32) \<Rightarrow> 'a \<Rightarrow> 'a hashtable \<Rightarrow> 'a hashtable option" where
  "put_item getKey hash x t = do {
     i \<leftarrow> HashValue hash t (getKey x);
     b \<leftarrow> arr_get (buckets t) i;
     b' \<leftarrow> seq_Append b x;
     bs \<leftarrow> arr_set (buckets t) i b';
     Some (t\<lparr>buckets := bs\<rparr>) }"

fun empty_bucket :: "('a \<Rightarrow> 'k) \<Rightarrow> ('k \<Rightarrow> u32) \<Rightarrow> 'a list \<Rightarrow> 'a hashtable \<Rightarrow> 'a hashtable option" where
  "empty_bucket getKey hash old t =
     (case seq_RemoveFront old of None \<Rightarrow> Some t
      | Some (x, old') \<Rightarrow> do { t \<leftarrow> put_item getKey hash x t; empty_bucket getKey hash old' t })"

definition ReHash :: "('a \<Rightarrow> 'k) \<Rightarrow> ('k \<Rightarrow> u32) \<Rightarrow> 'a hashtable \<Rightarrow> 'a hashtable option" where
  "ReHash getKey hash t = do {
     let oldTable = buckets t;
     HT_SanityCheck getKey hash t;
     let t = InitBuckets (numBuckets t * IncreaseSizeBy) t;
     t \<leftarrow> foldM (\<lambda>old t. empty_bucket getKey hash old t) oldTable t;
     HT_SanityCheck getKey hash t;
     Some t }"

definition Insert :: "('a \<Rightarrow> 'k) \<Rightarrow> ('k \<Rightarrow> u32) \<Rightarrow> 'a hashtable \<Rightarrow> 'a \<Rightarrow> 'a hashtable option" where
  "Insert getKey hash t x = do {
     isin \<leftarrow> IsInTable getKey hash t (getKey x);
     ASSERT (\<not> isin);
     t \<leftarrow> (if numItems t sdiv numBuckets t \<ge> ResizeRatio then ReHash getKey hash t else Some t);
     t \<leftarrow> put_item getKey hash x t;
     let t = t\<lparr>numItems := numItems t + 1\<rparr>;
     isin \<leftarrow> IsInTable getKey hash t (getKey x);
     ASSERT isin;
     Some t }"

definition HT_Remove :: "('a \<Rightarrow> 'k) \<Rightarrow> ('k \<Rightarrow> u32) \<Rightarrow> 'a hashtable \<Rightarrow> 'k \<Rightarrow> ('a \<times> 'a hashtable) option" where
  "HT_Remove getKey hash t key = do {
     bucket \<leftarrow> HashValue hash t key;
     found \<leftarrow> FindInBucket getKey t bucket key;
     x \<leftarrow> found;
     b \<leftarrow> arr_get (buckets t) bucket;
     b' \<leftarrow> seq_Remove b x;
     bs \<leftarrow> arr_set (buckets t) bucket b';
     let t = t\<lparr>buckets := bs, numItems := numItems t - 1\<rparr>;
     isin \<leftarrow> IsInTable getKey hash t key;
     ASSERT (\<not> isin);
     Some (x, t) }"

definition HT_Apply :: "('a \<Rightarrow> 's \<Rightarrow> 's option) \<Rightarrow> 'a hashtable \<Rightarrow> 's \<Rightarrow> 's option" where
  "HT_Apply func t s =
     foldM (\<lambda>bucket s. do { b \<leftarrow> arr_get (buckets t) bucket; foldM func b s }) [0..numBuckets t - 1] s"

function FindNextFullBucket :: "'a hashtable \<Rightarrow> int \<Rightarrow> int option" where
  "FindNextFullBucket t bucket =
     (if bucket < numBuckets t then
        (case arr_get (buckets t) bucket of None \<Rightarrow> None
         | Some b \<Rightarrow> if b \<noteq> [] then Some bucket else FindNextFullBucket t (bucket + 1))
      else Some bucket)"
  by auto
termination by (relation "measure (\<lambda>(t, bucket). nat (numBuckets t - bucket))") auto

text \<open>\<open>numBuckets\<close> and \<open>numItems\<close> stay below \<open>2 ^ 31\<close>; they are unbounded here.\<close>

declare FindNextFullBucket.simps [simp del] empty_bucket.simps [simp del]

text \<open>The iterator: the bucket it is in and what the bucket's own iterator has still before it.\<close>

record 'a hash_iterator =
  bucket :: int
  bucketIter :: "'a list option"

definition enter_bucket :: "'a hashtable \<Rightarrow> int \<Rightarrow> 'a hash_iterator option" where
  "enter_bucket t i =
     (if i < numBuckets t then do {
        b \<leftarrow> arr_get (buckets t) i; Some \<lparr>bucket = i, bucketIter = Some b\<rparr> }
      else Some \<lparr>bucket = i, bucketIter = None\<rparr>)"

definition HashIterator_new :: "'a hashtable \<Rightarrow> 'a hash_iterator option" where
  "HashIterator_new t = do { i \<leftarrow> FindNextFullBucket t 0; enter_bucket t i }"

definition HashIterator_IsDone :: "'a hashtable \<Rightarrow> 'a hash_iterator \<Rightarrow> bool" where
  "HashIterator_IsDone t it = (bucket it = numBuckets t)"

definition HashIterator_Item :: "'a hashtable \<Rightarrow> 'a hash_iterator \<Rightarrow> 'a option" where
  "HashIterator_Item t it = do {
     ASSERT (\<not> HashIterator_IsDone t it);
     b \<leftarrow> bucketIter it;
     (x, _) \<leftarrow> seq_RemoveFront b;
     Some x }"

definition HashIterator_Next :: "'a hashtable \<Rightarrow> 'a hash_iterator \<Rightarrow> 'a hash_iterator option" where
  "HashIterator_Next t it = do {
     b \<leftarrow> bucketIter it;
     (_, rest) \<leftarrow> seq_RemoveFront b;
     if rest = [] then do { i \<leftarrow> FindNextFullBucket t (bucket it + 1); enter_bucket t i }
     else Some (it\<lparr>bucketIter := Some rest\<rparr>) }"

text \<open>The loop of the header's example: every item from the iterator on, in the order visited.\<close>

fun visit :: "nat \<Rightarrow> 'a hashtable \<Rightarrow> 'a hash_iterator \<Rightarrow> 'a list option" where
  "visit 0 t it = None"
| "visit (Suc fuel) t it =
     (if HashIterator_IsDone t it then Some []
      else do {
        x \<leftarrow> HashIterator_Item t it;
        it \<leftarrow> HashIterator_Next t it;
        xs \<leftarrow> visit fuel t it;
        Some (x # xs) })"

definition HT_SelfTest ::
    "('a \<Rightarrow> 'k) \<Rightarrow> ('k \<Rightarrow> u32) \<Rightarrow> 'a list \<Rightarrow> 'a hashtable \<Rightarrow> 'a hashtable option" where
  "HT_SelfTest getKey hash p t = do {
     iterator \<leftarrow> HashIterator_new t;
     HT_SanityCheck getKey hash t;
     ASSERT (HT_IsEmpty t);
     ASSERT (HashIterator_IsDone t iterator);
     t \<leftarrow> foldM (\<lambda>x t. do {
         t \<leftarrow> Insert getKey hash t x;
         isin \<leftarrow> IsInTable getKey hash t (getKey x); ASSERT isin;
         ASSERT (\<not> HT_IsEmpty t);
         Some t }) p t;
     t \<leftarrow> foldM (\<lambda>x t. do {
         (y, t) \<leftarrow> HT_Remove getKey hash t (getKey x); ASSERT (y = x); Some t }) p t;
     ASSERT (HT_IsEmpty t);
     HT_SanityCheck getKey hash t;
     Some t }"


subsection \<open>Well-formed tables and the map they stand for\<close>

definition hv :: "('k \<Rightarrow> u32) \<Rightarrow> 'a hashtable \<Rightarrow> 'k \<Rightarrow> nat" where
  "hv hash t k = nat (uint (hash k) mod numBuckets t)"

definition items :: "'a hashtable \<Rightarrow> 'a list" where
  "items t = concat (buckets t)"

definition homed :: "('a \<Rightarrow> 'k) \<Rightarrow> ('k \<Rightarrow> u32) \<Rightarrow> 'a hashtable \<Rightarrow> bool" where
  "homed getKey hash t \<longleftrightarrow> 0 < numBuckets t \<and> int (length (buckets t)) = numBuckets t \<and>
     (\<forall>i < length (buckets t). \<forall>x \<in> set (buckets t ! i). hv hash t (getKey x) = i) \<and>
     distinct (map getKey (items t))"

definition ht_inv :: "('a \<Rightarrow> 'k) \<Rightarrow> ('k \<Rightarrow> u32) \<Rightarrow> 'a hashtable \<Rightarrow> bool" where
  "ht_inv getKey hash t \<longleftrightarrow> homed getKey hash t \<and> numItems t = int (length (items t))"

definition ht_map :: "('a \<Rightarrow> 'k) \<Rightarrow> 'a hashtable \<Rightarrow> 'k \<Rightarrow> 'a option" where
  "ht_map getKey t = map_of (map (\<lambda>x. (getKey x, x)) (items t))"

lemma ht_map_eq_None: "ht_map getKey t k = None \<longleftrightarrow> k \<notin> getKey ` set (items t)"
  by (simp add: ht_map_def map_of_eq_None_iff image_image)

lemma ht_map_eq_Some:
  "distinct (map getKey (items t)) \<Longrightarrow> ht_map getKey t k = Some x \<longleftrightarrow> x \<in> set (items t) \<and> getKey x = k"
  by (auto simp: ht_map_def comp_def map_of_eq_Some_iff)

lemma ht_map_ext:
  assumes "distinct (map getKey (items t))" and "distinct (map getKey (items u))"
    and "set (items u) = set (items t)"
  shows "ht_map getKey u = ht_map getKey t"
proof
  fix k
  have "ht_map getKey u k = Some x \<longleftrightarrow> ht_map getKey t k = Some x" for x
    using ht_map_eq_Some [OF assms(1), of k x] ht_map_eq_Some [OF assms(2), of k x] assms(3) by simp
  then show "ht_map getKey u k = ht_map getKey t k" by (metis not_None_eq)
qed

lemma hv_less: "homed getKey hash t \<Longrightarrow> hv hash t k < length (buckets t)"
proof -
  assume "homed getKey hash t"
  then have "0 < numBuckets t" and l: "int (length (buckets t)) = numBuckets t"
    by (simp_all add: homed_def)
  then have "0 \<le> uint (hash k) mod numBuckets t" and "uint (hash k) mod numBuckets t < numBuckets t"
    by simp_all
  with l show ?thesis unfolding hv_def by linarith
qed

lemma HashValue_eq: "0 < numBuckets t \<Longrightarrow> HashValue hash t k = Some (int (hv hash t k))"
  by (simp add: HashValue_def hv_def)

lemma bucket_get:
  "homed getKey hash t \<Longrightarrow> arr_get (buckets t) (int (hv hash t k)) = Some (buckets t ! hv hash t k)"
  by (simp add: arr_get_def hv_less)

lemma bucket_set:
  "homed getKey hash t \<Longrightarrow> arr_set (buckets t) (int (hv hash t k)) b = Some ((buckets t)[hv hash t k := b])"
  by (simp add: arr_set_def hv_less)

lemma homed_HashValue: "homed getKey hash t \<Longrightarrow> HashValue hash t k = Some (int (hv hash t k))"
  by (simp add: HashValue_eq homed_def)

lemma mset_concat_upd:
  "i < length bs \<Longrightarrow> mset (concat (bs[i := b])) + mset (bs ! i) = mset (concat bs) + mset b"
proof (induction bs arbitrary: i)
  case Nil
  then show ?case by simp
next
  case (Cons c bs)
  then show ?case by (cases i) (simp_all add: add.commute add.left_commute)
qed

text \<open>An item is only in the bucket of its key.\<close>

lemma in_items: "homed getKey hash t \<Longrightarrow> x \<in> set (items t) \<longleftrightarrow> x \<in> set (buckets t ! hv hash t (getKey x))"
proof
  assume h: "homed getKey hash t" and "x \<in> set (items t)"
  then obtain b where "b \<in> set (buckets t)" "x \<in> set b" by (auto simp: items_def)
  then obtain i where "i < length (buckets t)" "x \<in> set (buckets t ! i)"
    by (auto simp: in_set_conv_nth [of b])
  with h show "x \<in> set (buckets t ! hv hash t (getKey x))" by (auto simp: homed_def)
next
  assume "homed getKey hash t" and "x \<in> set (buckets t ! hv hash t (getKey x))"
  with hv_less show "x \<in> set (items t)" by (force simp: items_def)
qed

lemma Find_eq:
  assumes h: "homed getKey hash t"
  shows "Find getKey hash t k = Some (ht_map getKey t k)"
proof -
  let ?b = "buckets t ! hv hash t k"
  have d: "distinct (map getKey (items t))" using h by (simp add: homed_def)
  have "find (\<lambda>x. k = getKey x) ?b = ht_map getKey t k"
  proof (cases "find (\<lambda>x. k = getKey x) ?b")
    case None
    then have "k \<notin> getKey ` set (items t)"
      using in_items [OF h] by (auto simp: find_None_iff)
    with None show ?thesis by (simp add: ht_map_eq_None [THEN iffD2])
  next
    case (Some x)
    then have "x \<in> set ?b" and "k = getKey x" by (auto simp: find_Some_iff)
    with Some ht_map_eq_Some [OF d, of k x] in_items [OF h, of x] show ?thesis by auto
  qed
  with h show ?thesis
    by (simp add: Find_def FindInBucket_def homed_HashValue bucket_get)
qed

lemma IsInTable_eq: "homed getKey hash t \<Longrightarrow> IsInTable getKey hash t k = Some (ht_map getKey t k \<noteq> None)"
  by (simp add: IsInTable_def Find_eq)


subsection \<open>Each operation on a well-formed table\<close>

lemma put_item_eq:
  assumes h: "homed getKey hash t" and new: "getKey x \<notin> getKey ` set (items t)"
  obtains t' where "put_item getKey hash x t = Some t'" and "homed getKey hash t'"
    and "numItems t' = numItems t" and "numBuckets t' = numBuckets t"
    and "mset (items t') = add_mset x (mset (items t))"
proof -
  let ?i = "hv hash t (getKey x)"
  let ?bs = "(buckets t)[?i := buckets t ! ?i @ [x]]"
  let ?t = "t\<lparr>buckets := ?bs\<rparr>"
  have i: "?i < length (buckets t)" using hv_less [OF h] .
  have "x \<notin> set (items t)" using new by auto
  then have nin: "x \<notin> set (buckets t ! ?i)" using in_items [OF h] by simp
  have run: "put_item getKey hash x t = Some ?t"
    using h nin by (simp add: put_item_def homed_HashValue bucket_get bucket_set seq_Append_def)
  have ms: "mset (items ?t) = add_mset x (mset (items t))"
    using mset_concat_upd [OF i, of "buckets t ! ?i @ [x]"] by (simp add: items_def)
  then have st: "set (items ?t) = insert x (set (items t))" by (metis set_mset_add_mset_insert set_mset_mset)
  have "mset (map getKey (items ?t)) = mset (getKey x # map getKey (items t))"
    using ms by simp
  then have "distinct (map getKey (items ?t)) = distinct (getKey x # map getKey (items t))"
    by (rule mset_eq_imp_distinct_iff)
  with h new have d: "distinct (map getKey (items ?t))" by (simp add: homed_def)
  have hv': "hv hash ?t k = hv hash t k" for k by (simp add: hv_def)
  have "\<forall>j < length ?bs. \<forall>y \<in> set (?bs ! j). hv hash ?t (getKey y) = j"
    using h i by (auto simp: hv' homed_def nth_list_update)
  with h d have "homed getKey hash ?t" by (simp add: homed_def)
  with run ms that show thesis by simp
qed

lemma put_items:
  assumes "homed getKey hash t" and "distinct (map getKey xs)"
    and "getKey ` set xs \<inter> getKey ` set (items t) = {}"
  shows "\<exists>t'. empty_bucket getKey hash xs t = Some t' \<and> homed getKey hash t' \<and>
    numItems t' = numItems t \<and> numBuckets t' = numBuckets t \<and> mset (items t') = mset xs + mset (items t)"
  using assms
proof (induction xs arbitrary: t)
  case Nil
  then show ?case by (simp add: empty_bucket.simps)
next
  case (Cons x xs)
  then have "getKey x \<notin> getKey ` set (items t)" by auto
  from put_item_eq [OF Cons.prems(1) this] obtain t1 where
    t1: "put_item getKey hash x t = Some t1" "homed getKey hash t1" "numItems t1 = numItems t"
      "numBuckets t1 = numBuckets t" "mset (items t1) = add_mset x (mset (items t))" .
  then have "set (items t1) = insert x (set (items t))" by (metis set_mset_add_mset_insert set_mset_mset)
  with Cons.prems have "distinct (map getKey xs)" "getKey ` set xs \<inter> getKey ` set (items t1) = {}" by auto
  from Cons.IH [OF t1(2) this] t1 show ?case by (auto simp: empty_bucket.simps)
qed

lemma move_all:
  assumes "homed getKey hash t" and "distinct (map getKey (concat old))"
    and "getKey ` set (concat old) \<inter> getKey ` set (items t) = {}"
  shows "\<exists>t'. foldM (\<lambda>old t. empty_bucket getKey hash old t) old t = Some t' \<and> homed getKey hash t' \<and>
    numItems t' = numItems t \<and> numBuckets t' = numBuckets t \<and>
    mset (items t') = mset (concat old) + mset (items t)"
  using assms
proof (induction old arbitrary: t)
  case Nil
  then show ?case by simp
next
  case (Cons b old)
  then have "distinct (map getKey b)" "getKey ` set b \<inter> getKey ` set (items t) = {}" by auto
  from put_items [OF Cons.prems(1) this] obtain t1 where
    t1: "empty_bucket getKey hash b t = Some t1" "homed getKey hash t1" "numItems t1 = numItems t"
      "numBuckets t1 = numBuckets t" "mset (items t1) = mset b + mset (items t)" by blast
  then have "set (items t1) = set b \<union> set (items t)" by (metis set_mset_mset set_mset_union)
  moreover have "getKey ` set b \<inter> getKey ` set (concat old) = {}" and
      d: "distinct (map getKey (concat old))" using Cons.prems(2) by simp_all
  moreover have "getKey ` set (concat old) \<inter> getKey ` set (items t) = {}"
    using Cons.prems(3) by auto
  ultimately have "getKey ` set (concat old) \<inter> getKey ` set (items t1) = {}"
    unfolding image_Un by blast
  from Cons.IH [OF t1(2) d this] t1 show ?case by auto
qed

lemma SanityCheck_buckets:
  assumes "homed getKey hash t" and "n \<le> length (buckets t)"
  shows "foldM (\<lambda>i numFound. do {
         b \<leftarrow> arr_get (buckets t) i;
         foldM (\<lambda>x _. do { h \<leftarrow> HashValue hash t (getKey x); ASSERT (i = h) }) b ();
         Some (numFound + int (length b)) }) [0..int n - 1] 0 =
    Some (int (length (concat (take n (buckets t)))))"
  using assms(2)
proof (induction n)
  case 0
  then show ?case by simp
next
  case (Suc n)
  then have "[0..int (Suc n) - 1] = [0..int n - 1] @ [int n]"
    by (simp add: upto_rec2)
  moreover have "\<forall>x \<in> set (buckets t ! n). hv hash t (getKey x) = n"
    using assms(1) Suc.prems by (simp add: homed_def)
  ultimately show ?case
    using Suc assms(1)
    by (simp add: foldM_append arr_get_def homed_HashValue foldM_ASSERT bind_ASSERT take_Suc_conv_app_nth)
qed

lemma SanityCheck_ok: "ht_inv getKey hash t \<Longrightarrow> HT_SanityCheck getKey hash t = Some ()"
  using SanityCheck_buckets [of getKey hash t "length (buckets t)"]
  by (simp add: ht_inv_def HT_SanityCheck_def homed_def items_def)

lemma InitBuckets_homed:
  "0 < n \<Longrightarrow> homed getKey hash (InitBuckets n t) \<and> items (InitBuckets n t) = []"
  by (simp add: homed_def InitBuckets_def items_def)

lemma same_items:
  assumes "mset (items u) = mset (items t)"
  shows "set (items u) = set (items t)" and "length (items u) = length (items t)"
  using assms mset_eq_setD mset_eq_length by blast+

lemma ReHash_eq:
  assumes "ht_inv getKey hash t"
  obtains t' where "ReHash getKey hash t = Some t'" and "ht_inv getKey hash t'"
    and "numBuckets t' = 4 * numBuckets t" and "mset (items t') = mset (items t)"
    and "numItems t' = numItems t"
proof -
  let ?t = "InitBuckets (numBuckets t * IncreaseSizeBy) t"
  have pos: "0 < numBuckets t * IncreaseSizeBy" and d: "distinct (map getKey (concat (buckets t)))"
    using assms by (simp_all add: ht_inv_def homed_def items_def IncreaseSizeBy_def)
  from InitBuckets_homed [OF pos] have i: "homed getKey hash ?t" "items ?t = []" by blast+
  have "getKey ` set (concat (buckets t)) \<inter> getKey ` set (items ?t) = {}" using i(2) by simp
  from move_all [OF i(1) d this] obtain t' where
    t': "foldM (\<lambda>old t. empty_bucket getKey hash old t) (buckets t) ?t = Some t'" "homed getKey hash t'"
      "numItems t' = numItems ?t" "numBuckets t' = numBuckets ?t" "mset (items t') = mset (items t)"
    unfolding i(2) by (auto simp: items_def [of t])
  have inv: "ht_inv getKey hash t'"
    using t' assms same_items [OF t'(5)] by (simp add: ht_inv_def InitBuckets_def)
  show thesis
    using that [OF _ inv] t' SanityCheck_ok [OF assms] SanityCheck_ok [OF inv]
    by (simp add: ReHash_def InitBuckets_def IncreaseSizeBy_def)
qed


lemma ht_map_insert:
  assumes "distinct (map getKey (items t))" and "distinct (map getKey (items u))"
    and "set (items u) = insert x (set (items t))" and "getKey x \<notin> getKey ` set (items t)"
  shows "ht_map getKey u = (ht_map getKey t)(getKey x \<mapsto> x)"
proof
  fix k
  have "ht_map getKey u k = Some y \<longleftrightarrow> ((ht_map getKey t)(getKey x \<mapsto> x)) k = Some y" for y
    using ht_map_eq_Some [OF assms(1), of k y] ht_map_eq_Some [OF assms(2), of k y] assms(3,4)
    by (auto simp: image_iff)
  then show "ht_map getKey u k = ((ht_map getKey t)(getKey x \<mapsto> x)) k" by (metis not_None_eq)
qed

lemma ht_map_delete:
  assumes "distinct (map getKey (items t))" and "distinct (map getKey (items u))"
    and "set (items t) = insert x (set (items u))" and "getKey x \<notin> getKey ` set (items u)"
  shows "ht_map getKey u = (ht_map getKey t)(getKey x := None)"
proof
  fix k
  have "ht_map getKey u k = Some y \<longleftrightarrow> ((ht_map getKey t)(getKey x := None)) k = Some y" for y
    using ht_map_eq_Some [OF assms(1), of k y] ht_map_eq_Some [OF assms(2), of k y] assms(3,4)
    by (auto simp: image_iff)
  then show "ht_map getKey u k = ((ht_map getKey t)(getKey x := None)) k" by (metis not_None_eq)
qed

lemma inv_homed: "ht_inv getKey hash t \<Longrightarrow> homed getKey hash t"
  by (simp add: ht_inv_def)

lemma homed_numItems: "homed getKey hash (t\<lparr>numItems := n\<rparr>) = homed getKey hash t"
  by (simp add: homed_def items_def hv_def)

lemma items_numItems: "items (t\<lparr>numItems := n\<rparr>) = items t"
  by (simp add: items_def)

lemma HT_Insert_dup: "ht_inv getKey hash t \<Longrightarrow> ht_map getKey t (getKey x) \<noteq> None \<Longrightarrow> Insert getKey hash t x = None"
  by (simp add: Insert_def IsInTable_eq inv_homed)

lemma Insert_new:
  assumes inv: "ht_inv getKey hash t" and new: "ht_map getKey t (getKey x) = None"
  shows "\<exists>t'. Insert getKey hash t x = Some t' \<and> ht_inv getKey hash t' \<and>
    ht_map getKey t' = (ht_map getKey t)(getKey x \<mapsto> x)"
proof -
  let ?grow = "if numItems t sdiv numBuckets t \<ge> ResizeRatio then ReHash getKey hash t else Some t"
  obtain t1 where t1: "?grow = Some t1" "ht_inv getKey hash t1" "mset (items t1) = mset (items t)"
  proof (cases "numItems t sdiv numBuckets t \<ge> ResizeRatio")
    case True
    from ReHash_eq [OF inv] obtain u where
      "ReHash getKey hash t = Some u" "ht_inv getKey hash u" "mset (items u) = mset (items t)" by metis
    with True that show thesis by simp
  next
    case False
    with inv that show thesis by simp
  qed
  have st: "set (items t1) = set (items t)" using same_items [OF t1(3)] by simp
  have new1: "getKey x \<notin> getKey ` set (items t1)" using new st by (simp add: ht_map_eq_None)
  from put_item_eq [OF inv_homed [OF t1(2)] new1] obtain t2 where
    t2: "put_item getKey hash x t1 = Some t2" "homed getKey hash t2" "numItems t2 = numItems t1"
      "mset (items t2) = add_mset x (mset (items t1))" by metis
  let ?t = "t2\<lparr>numItems := numItems t2 + 1\<rparr>"
  have "length (items t2) = Suc (length (items t1))" using t2(4) by (metis size_add_mset size_mset)
  then have inv': "ht_inv getKey hash ?t"
    using t2 t1(2) by (simp add: ht_inv_def homed_numItems items_numItems)
  have st2: "set (items ?t) = insert x (set (items t))"
    using t2(4) st by (metis items_numItems set_mset_add_mset_insert set_mset_mset)
  have d: "distinct (map getKey (items t))" "distinct (map getKey (items ?t))"
    using inv inv' by (simp_all add: ht_inv_def homed_def)
  have map': "ht_map getKey ?t = (ht_map getKey t)(getKey x \<mapsto> x)"
    using ht_map_insert [OF d st2] new by (simp add: ht_map_eq_None)
  have "Insert getKey hash t x = Some ?t"
    using t1(1) t2(1) new map'
    by (simp add: Insert_def IsInTable_eq [OF inv_homed [OF inv]] IsInTable_eq [OF inv_homed [OF inv']])
  with inv' map' show ?thesis by blast
qed

lemma HT_Remove_absent: "ht_inv getKey hash t \<Longrightarrow> ht_map getKey t k = None \<Longrightarrow> HT_Remove getKey hash t k = None"
  using Find_eq [OF inv_homed, of getKey hash t k] homed_HashValue [OF inv_homed, of getKey hash t k]
  by (simp add: HT_Remove_def Find_def)

lemma Remove_found:
  assumes inv: "ht_inv getKey hash t" and f: "ht_map getKey t k = Some x"
  shows "\<exists>t'. HT_Remove getKey hash t k = Some (x, t') \<and> ht_inv getKey hash t' \<and>
    ht_map getKey t' = (ht_map getKey t)(k := None)"
proof -
  have h: "homed getKey hash t" using inv by (rule inv_homed)
  have d: "distinct (map getKey (items t))" using h by (simp add: homed_def)
  have x: "x \<in> set (items t)" "getKey x = k" using f ht_map_eq_Some [OF d] by auto
  let ?i = "hv hash t k"
  let ?b = "buckets t ! ?i"
  let ?bs = "(buckets t)[?i := remove1 x ?b]"
  let ?t = "t\<lparr>buckets := ?bs, numItems := numItems t - 1\<rparr>"
  have xb: "x \<in> set ?b" using in_items [OF h] x by metis
  have i: "?i < length (buckets t)" using hv_less [OF h] .
  have "mset (concat ?bs) + mset ?b = mset (items t) + mset (remove1 x ?b)"
    using mset_concat_upd [OF i, of "remove1 x ?b"] by (simp add: items_def)
  moreover have "mset ?b = add_mset x (mset (remove1 x ?b))" using xb by simp
  ultimately have ms: "mset (items t) = add_mset x (mset (items ?t))"
    by (simp add: items_def del: mset_remove1)
  then have st: "set (items t) = insert x (set (items ?t))"
    by (metis set_mset_add_mset_insert set_mset_mset)
  have len: "length (items t) = Suc (length (items ?t))" using ms by (metis size_add_mset size_mset)
  have "mset (map getKey (items t)) = mset (getKey x # map getKey (items ?t))" using ms by simp
  then have "distinct (map getKey (items t)) = distinct (getKey x # map getKey (items ?t))"
    by (rule mset_eq_imp_distinct_iff)
  with d have d': "distinct (map getKey (items ?t))" "getKey x \<notin> getKey ` set (items ?t)" by simp_all
  have hv': "hv hash ?t y = hv hash t y" for y by (simp add: hv_def)
  have "\<forall>j < length ?bs. \<forall>y \<in> set (?bs ! j). hv hash ?t (getKey y) = j"
    using h i by (auto simp: hv' homed_def nth_list_update dest: subsetD [OF set_remove1_subset])
  with h d' have h': "homed getKey hash ?t" by (simp add: homed_def)
  then have inv': "ht_inv getKey hash ?t" using inv len by (simp add: ht_inv_def)
  have map': "ht_map getKey ?t = (ht_map getKey t)(k := None)"
    using ht_map_delete [OF d d'(1) st d'(2)] x(2) by simp
  have "FindInBucket getKey t (int ?i) k = Some (Some x)"
    using Find_eq [OF h, of k] f by (simp add: Find_def homed_HashValue [OF h])
  then have "HT_Remove getKey hash t k = Some (x, ?t)"
    using xb map' by (simp add: HT_Remove_def homed_HashValue [OF h] bucket_get [OF h] bucket_set [OF h]
        seq_Remove_def IsInTable_eq [OF h'])
  with inv' map' show ?thesis by blast
qed

lemma HashTable_new_inv: "ht_inv getKey hash HashTable_new \<and> ht_map getKey HashTable_new = Map.empty"
  by (simp add: ht_inv_def homed_def HashTable_new_def InitBuckets_def InitialBuckets_def items_def ht_map_def)


subsection \<open>The iterator\<close>

definition it_rest :: "'a hashtable \<Rightarrow> 'a hash_iterator \<Rightarrow> 'a list" where
  "it_rest t it = (case bucketIter it of None \<Rightarrow> []
     | Some b \<Rightarrow> b @ concat (drop (Suc (nat (bucket it))) (buckets t)))"

definition it_ok :: "'a hashtable \<Rightarrow> 'a hash_iterator \<Rightarrow> bool" where
  "it_ok t it \<longleftrightarrow> (case bucketIter it of None \<Rightarrow> bucket it = numBuckets t
     | Some b \<Rightarrow> b \<noteq> [] \<and> 0 \<le> bucket it \<and> bucket it < numBuckets t)"

lemma enter_full_bucket:
  assumes "int (length (buckets t)) = numBuckets t" and "0 \<le> i" and "i \<le> numBuckets t"
  shows "\<exists>it. (FindNextFullBucket t i \<bind> enter_bucket t) = Some it \<and> it_ok t it \<and>
    it_rest t it = concat (drop (nat i) (buckets t))"
  using assms
proof (induction t i rule: FindNextFullBucket.induct)
  case (1 t i)
  show ?case
  proof (cases "i < numBuckets t")
    case False
    then have "FindNextFullBucket t i = Some i" by (simp add: FindNextFullBucket.simps [of t i])
    with False 1 show ?thesis by (simp add: enter_bucket_def it_ok_def it_rest_def)
  next
    case True
    with 1 have n: "nat i < length (buckets t)" by linarith
    then have g: "arr_get (buckets t) i = Some (buckets t ! nat i)" using 1 True by (simp add: arr_get_def)
    have d: "drop (nat i) (buckets t) = buckets t ! nat i # drop (Suc (nat i)) (buckets t)"
      using n by (rule Cons_nth_drop_Suc [symmetric])
    show ?thesis
    proof (cases "buckets t ! nat i = []")
      case False
      with True g d 1 show ?thesis
        by (simp add: FindNextFullBucket.simps [of t i] enter_bucket_def it_ok_def it_rest_def)
    next
      case empty: True
      have "nat (i + 1) = Suc (nat i)" using 1 by simp
      then show ?thesis
        using 1(1) [OF True g] 1(2-) True g d empty by (simp add: FindNextFullBucket.simps [of t i])
    qed
  qed
qed

lemma iterator_step:
  assumes "int (length (buckets t)) = numBuckets t" and "it_ok t it" and "it_rest t it = x # xs"
  shows "\<not> HashIterator_IsDone t it \<and> HashIterator_Item t it = Some x \<and>
    (\<exists>it'. HashIterator_Next t it = Some it' \<and> it_ok t it' \<and> it_rest t it' = xs)"
proof -
  obtain b where b: "bucketIter it = Some b" "b \<noteq> []" "0 \<le> bucket it" "bucket it < numBuckets t"
    using assms(2,3) by (auto simp: it_ok_def it_rest_def split: option.splits)
  then obtain ys where ys: "b = x # ys" using assms(3) by (cases b) (auto simp: it_rest_def)
  then have xs: "xs = ys @ concat (drop (Suc (nat (bucket it))) (buckets t))"
    using assms(3) b(1) by (simp add: it_rest_def)
  have nt: "nat (bucket it + 1) = Suc (nat (bucket it))" using b(3) by simp
  have "\<exists>it'. HashIterator_Next t it = Some it' \<and> it_ok t it' \<and> it_rest t it' = xs"
  proof (cases "ys = []")
    case True
    then show ?thesis
      using enter_full_bucket [OF assms(1), of "bucket it + 1"] b ys xs nt
      by (simp add: HashIterator_Next_def)
  next
    case False
    then show ?thesis
      using b ys xs by (simp add: HashIterator_Next_def it_ok_def it_rest_def)
  qed
  with b ys show ?thesis by (simp add: HashIterator_IsDone_def HashIterator_Item_def)
qed

lemma iterator_done:
  "it_ok t it \<Longrightarrow> it_rest t it = [] \<Longrightarrow> HashIterator_IsDone t it"
  by (auto simp: it_ok_def it_rest_def HashIterator_IsDone_def split: option.splits)

lemma visit_rest:
  assumes "int (length (buckets t)) = numBuckets t"
  shows "it_ok t it \<Longrightarrow> it_rest t it = xs \<Longrightarrow> length xs < fuel \<Longrightarrow> visit fuel t it = Some xs"
proof (induction xs arbitrary: it fuel)
  case Nil
  then show ?case using iterator_done by (cases fuel) auto
next
  case (Cons x xs)
  then obtain m where m: "fuel = Suc m" by (cases fuel) auto
  from iterator_step [OF assms Cons.prems(1,2)] obtain it' where
    "\<not> HashIterator_IsDone t it" "HashIterator_Item t it = Some x"
    "HashIterator_Next t it = Some it'" "it_ok t it'" "it_rest t it' = xs" by blast
  with Cons.IH [of it' m] Cons.prems(3) m show ?case by simp
qed

subsection \<open>The dictionary interface\<close>

text \<open>
  What a client asks of a table: a lookup that never stops and does not change the table, an
  insertion that stops on a key already there, a removal that stops on a key that is not.
\<close>

locale dictionary =
  fixes ok :: "'t \<Rightarrow> bool" and lookup :: "'t \<Rightarrow> 'k \<Rightarrow> 'a option" and key :: "'a \<Rightarrow> 'k"
    and get :: "'t \<Rightarrow> 'k \<Rightarrow> 'a option option"
    and ins :: "'t \<Rightarrow> 'a \<Rightarrow> 't option"
    and del :: "'t \<Rightarrow> 'k \<Rightarrow> ('a \<times> 't) option"
  assumes get_lookup: "ok t \<Longrightarrow> get t k = Some (lookup t k)"
    and ins_new: "ok t \<Longrightarrow> lookup t (key x) = None \<Longrightarrow>
      \<exists>t'. ins t x = Some t' \<and> ok t' \<and> lookup t' = (lookup t)(key x \<mapsto> x)"
    and ins_dup: "ok t \<Longrightarrow> lookup t (key x) \<noteq> None \<Longrightarrow> ins t x = None"
    and del_found: "ok t \<Longrightarrow> lookup t k = Some x \<Longrightarrow>
      \<exists>t'. del t k = Some (x, t') \<and> ok t' \<and> lookup t' = (lookup t)(k := None)"
    and del_absent: "ok t \<Longrightarrow> lookup t k = None \<Longrightarrow> del t k = None"
begin

lemma ins_all:
  assumes "ok t" and "distinct (map key xs)" and "\<forall>x \<in> set xs. lookup t (key x) = None"
    and chk: "\<And>t x. ok t \<Longrightarrow> lookup t (key x) \<noteq> None \<Longrightarrow> chk x t = Some t"
  shows "\<exists>t'. foldM (\<lambda>x t. do { t \<leftarrow> ins t x; chk x t }) xs t = Some t' \<and> ok t' \<and>
    lookup t' = lookup t ++ map_of (map (\<lambda>x. (key x, x)) xs)"
  using assms(1-3)
proof (induction xs arbitrary: t)
  case Nil
  then show ?case by simp
next
  case (Cons x xs)
  then have "lookup t (key x) = None" by simp
  from ins_new [OF Cons.prems(1) this] obtain t1 where
    t1: "ins t x = Some t1" "ok t1" "lookup t1 = (lookup t)(key x \<mapsto> x)" by blast
  have "\<forall>y \<in> set xs. lookup t1 (key y) = None" using Cons.prems t1(3) by (auto simp: image_iff)
  with Cons.IH [OF t1(2)] Cons.prems(2) obtain t2 where
    "foldM (\<lambda>x t. do { t \<leftarrow> ins t x; chk x t }) xs t1 = Some t2" "ok t2"
    "lookup t2 = lookup t1 ++ map_of (map (\<lambda>x. (key x, x)) xs)" by auto
  moreover have "lookup t1 ++ map_of (map (\<lambda>x. (key x, x)) xs) =
      lookup t ++ map_of (map (\<lambda>x. (key x, x)) (x # xs))"
    using t1(3) Cons.prems(2) by (auto simp: map_add_upd_left image_image dom_map_of_conv_image_fst)
  moreover have "chk x t1 = Some t1" using chk [OF t1(2), of x] t1(3) by simp
  ultimately show ?case using t1(1) by (simp del: map_of.simps list.map)
qed

lemma del_all:
  assumes "ok t" and "distinct (map key xs)" and "\<forall>x \<in> set xs. lookup t (key x) = Some x"
  shows "\<exists>t'. foldM (\<lambda>x t. do { (y, t) \<leftarrow> del t (key x); ASSERT (y = x); Some t }) xs t = Some t' \<and> ok t' \<and>
    (\<forall>k. lookup t' k = (if k \<in> key ` set xs then None else lookup t k))"
  using assms
proof (induction xs arbitrary: t)
  case Nil
  then show ?case by simp
next
  case (Cons x xs)
  then have "lookup t (key x) = Some x" by simp
  from del_found [OF Cons.prems(1) this] obtain t1 where
    t1: "del t (key x) = Some (x, t1)" "ok t1" "lookup t1 = (lookup t)(key x := None)" by blast
  have "\<forall>y \<in> set xs. lookup t1 (key y) = Some y" using Cons.prems t1(3) by (auto simp: image_iff)
  with Cons.IH [OF t1(2)] Cons.prems(2) obtain t2 where
    "foldM (\<lambda>x t. do { (y, t) \<leftarrow> del t (key x); ASSERT (y = x); Some t }) xs t1 = Some t2" "ok t2"
    "\<forall>k. lookup t2 k = (if k \<in> key ` set xs then None else lookup t1 k)" by auto
  with t1 show ?case by auto
qed

end

interpretation ht: dictionary "ht_inv getKey hash" "ht_map getKey" getKey "Find getKey hash"
    "Insert getKey hash" "HT_Remove getKey hash"
  for getKey :: "'a \<Rightarrow> 'k" and hash :: "'k \<Rightarrow> u32"
proof
  fix t :: "'a hashtable" and x k
  show "ht_inv getKey hash t \<Longrightarrow> Find getKey hash t k = Some (ht_map getKey t k)"
    by (rule Find_eq [OF inv_homed])
qed (blast intro: Insert_new HT_Insert_dup Remove_found HT_Remove_absent)+

lemma HT_SelfTest_runs:
  fixes getKey :: "'a \<Rightarrow> 'k"
  assumes "distinct (map getKey p)"
  shows "\<exists>t. HT_SelfTest getKey hash p HashTable_new = Some t \<and> ht_inv getKey hash t \<and> items t = []"
proof -
  let ?new = "HashTable_new :: 'a hashtable"
  let ?chk = "\<lambda>x t. do { isin \<leftarrow> IsInTable getKey hash t (getKey x); ASSERT isin;
     ASSERT (\<not> HT_IsEmpty t); Some t }"
  have n: "ht_inv getKey hash ?new" "ht_map getKey ?new = Map.empty" using HashTable_new_inv by blast+
  have n0: "items ?new = []" "int (length (buckets ?new)) = numBuckets ?new" "HT_IsEmpty ?new"
    by (simp_all add: HashTable_new_def InitBuckets_def InitialBuckets_def items_def HT_IsEmpty_def)
  obtain it where it: "HashIterator_new ?new = Some it" "it_ok ?new it" "it_rest ?new it = []"
    using enter_full_bucket [OF n0(2), of 0] n0(1,2) by (auto simp: HashIterator_new_def items_def)
  have chk: "?chk x t = Some t" if "ht_inv getKey hash t" "ht_map getKey t (getKey x) \<noteq> None" for x t
  proof -
    have "items t \<noteq> []" using that(2) by (auto simp: ht_map_def)
    then have "\<not> HT_IsEmpty t" using that(1) by (simp add: ht_inv_def HT_IsEmpty_def)
    with that show ?thesis by (simp add: IsInTable_eq [OF inv_homed])
  qed
  have "\<exists>t'. foldM (\<lambda>x t. do { t \<leftarrow> Insert getKey hash t x; ?chk x t }) p ?new = Some t' \<and>
      ht_inv getKey hash t' \<and> ht_map getKey t' = ht_map getKey ?new ++ map_of (map (\<lambda>x. (getKey x, x)) p)"
    by (rule ht.ins_all [OF n(1) assms]) (fact chk | simp add: n(2))+
  with n(2) obtain t1 where
    t1: "foldM (\<lambda>x t. do { t \<leftarrow> Insert getKey hash t x; ?chk x t }) p ?new = Some t1"
      "ht_inv getKey hash t1" "ht_map getKey t1 = map_of (map (\<lambda>x. (getKey x, x)) p)" by auto
  have "\<forall>x \<in> set p. ht_map getKey t1 (getKey x) = Some x"
    using assms by (auto simp: t1(3) comp_def map_of_eq_Some_iff)
  from ht.del_all [OF t1(2) assms this] obtain t2 where
    t2: "foldM (\<lambda>x t. do { (y, t) \<leftarrow> HT_Remove getKey hash t (getKey x); ASSERT (y = x); Some t }) p t1 = Some t2"
      "ht_inv getKey hash t2" "\<forall>k. ht_map getKey t2 k = (if k \<in> getKey ` set p then None else ht_map getKey t1 k)"
    by auto
  have nn: "ht_map getKey t2 k = None" for k
    using t2(3) t1(3) by (auto simp: map_of_eq_None_iff image_image)
  have e: "items t2 = []"
  proof (rule ccontr)
    assume "items t2 \<noteq> []"
    then obtain x xs where "items t2 = x # xs" by (cases "items t2") auto
    then show False using ht_map_eq_None [THEN iffD1, OF nn, of "getKey x"] by simp
  qed
  then have "HT_IsEmpty t2" using t2(2) by (simp add: ht_inv_def HT_IsEmpty_def)
  then show ?thesis
    using it iterator_done [OF it(2,3)] SanityCheck_ok [OF n(1)] SanityCheck_ok [OF t2(2)] n0(3)
      t1(1) t2(1,2) e
    by (simp add: HT_SelfTest_def)
qed


subsection \<open>Properties\<close>

text \<open>
  C11. The hash table is a finite map, for every hash function: \<open>Find\<close> reads the map,
  \<open>Insert\<close> of a new key extends it at that key only (growing and rehashing the table on the
  way when it is full) and stops on a key already present, \<open>Remove\<close> gives back the stored
  item, deletes exactly its key and stops on an absent one; every step keeps each item in the
  bucket it hashes to and the item count right.
\<close>

theorem HashTable_refines_map:
  assumes "ht_inv getKey hash t"
  shows "Find getKey hash t k = Some (ht_map getKey t k) \<and>
    (if ht_map getKey t (getKey x) \<noteq> None then Insert getKey hash t x = None
     else (\<exists>t'. Insert getKey hash t x = Some t' \<and> ht_inv getKey hash t' \<and>
             ht_map getKey t' = (ht_map getKey t)(getKey x \<mapsto> x))) \<and>
    (case ht_map getKey t k of None \<Rightarrow> HT_Remove getKey hash t k = None
     | Some y \<Rightarrow> \<exists>t'. HT_Remove getKey hash t k = Some (y, t') \<and> ht_inv getKey hash t' \<and>
             ht_map getKey t' = (ht_map getKey t)(k := None))"
  using ht.get_lookup [OF assms] ht.ins_dup [OF assms] ht.ins_new [OF assms] ht.del_absent [OF assms]
    ht.del_found [OF assms]
  by (auto split: option.split)

lemma HashTable_refines_map_witness:
  "\<exists>t. Insert fst (\<lambda>k. k) HashTable_new (7 :: u32, ''seven'') = Some t"
proof -
  have "ht_inv fst (\<lambda>k. k) (HashTable_new :: (u32 \<times> string) hashtable)"
    and "ht_map fst (HashTable_new :: (u32 \<times> string) hashtable) = Map.empty"
    using HashTable_new_inv [of fst "\<lambda>k. k"] by blast+
  with HashTable_refines_map [OF this(1), of 7 "(7, ''seven'')"] show ?thesis by auto
qed

text \<open>
  C15. \<open>ReHash\<close> multiplies the number of buckets by four, keeps exactly the items there were,
  passes both of its sanity checks and changes no lookup.
\<close>

theorem ReHash_preserves:
  assumes "ht_inv getKey hash t"
  shows "\<exists>t'. ReHash getKey hash t = Some t' \<and> ht_inv getKey hash t' \<and>
    numBuckets t' = 4 * numBuckets t \<and> mset (concat (buckets t')) = mset (concat (buckets t)) \<and>
    (\<forall>k. Find getKey hash t' k = Find getKey hash t k)"
proof -
  from ReHash_eq [OF assms] obtain t' where t': "ReHash getKey hash t = Some t'"
    "ht_inv getKey hash t'" "numBuckets t' = 4 * numBuckets t" "mset (items t') = mset (items t)" by metis
  then have "ht_map getKey t' = ht_map getKey t"
    using assms same_items [OF t'(4)] by (intro ht_map_ext) (simp_all add: ht_inv_def homed_def)
  with t' assms show ?thesis by (simp add: items_def Find_eq inv_homed)
qed

lemma ReHash_preserves_witness:
  "\<exists>t'. ReHash (\<lambda>x. x) (\<lambda>k. k) (HashTable_new :: u32 hashtable) = Some t' \<and> numBuckets t' = 16"
proof -
  have "ht_inv (\<lambda>x. x) (\<lambda>k. k) (HashTable_new :: u32 hashtable)"
    using HashTable_new_inv [of "\<lambda>x. x" "\<lambda>k. k"] by simp
  from ReHash_preserves [OF this] show ?thesis
    by (auto simp: HashTable_new_def InitBuckets_def InitialBuckets_def)
qed

text \<open>
  C16. Stepping a \<open>HashIterator\<close> until it is done visits every item of the table, bucket by
  bucket and each exactly once, and ends after as many steps as there are items.
\<close>

theorem HashIterator_visits_all:
  assumes "ht_inv getKey hash t"
  shows "\<exists>it. HashIterator_new t = Some it \<and>
    visit (Suc (nat (numItems t))) t it = Some (concat (buckets t))"
proof -
  have l: "int (length (buckets t)) = numBuckets t" and "numItems t = int (length (items t))"
    using assms by (simp_all add: ht_inv_def homed_def)
  moreover from l have pos: "0 \<le> numBuckets t" by linarith
  moreover from enter_full_bucket [OF l, of 0] pos obtain it where
    "HashIterator_new t = Some it" "it_ok t it" "it_rest t it = concat (buckets t)"
    by (auto simp: HashIterator_new_def)
  ultimately show ?thesis
    using visit_rest [OF l] by (simp add: items_def del: visit.simps)
qed

lemma HashIterator_visits_all_witness:
  "\<exists>it. HashIterator_new (HashTable_new :: u32 hashtable) = Some it \<and> visit 1 HashTable_new it = Some []"
proof -
  have "ht_inv (\<lambda>x. x) (\<lambda>k. k) (HashTable_new :: u32 hashtable)"
    using HashTable_new_inv [of "\<lambda>x. x" "\<lambda>k. k"] by simp
  from HashIterator_visits_all [OF this] show ?thesis
    by (simp add: HashTable_new_def InitBuckets_def InitialBuckets_def)
qed

text \<open>
  The module's own test passes on a new table for every hash function and every run of
  items with distinct keys, however often the table is rehashed under way.
\<close>

lemma HashTable_SelfTest_passes:
  assumes "distinct (map getKey p)"
  shows "\<exists>t. HT_SelfTest getKey hash p HashTable_new = Some t \<and> numItems t = 0"
  using HT_SelfTest_runs [OF assms, of hash] by (auto simp: ht_inv_def)

lemma HashTable_SelfTest_passes_witness:
  "\<exists>t. HT_SelfTest (\<lambda>x. x) (\<lambda>k :: u32. k) [0, 1, 2, 3, 4, 5, 6, 7, 8, 9, 10, 11, 12, 13, 14] HashTable_new = Some t"
  using HashTable_SelfTest_passes [of "\<lambda>x. x" "[0 :: u32, 1, 2, 3, 4, 5, 6, 7, 8, 9, 10, 11, 12, 13, 14]" "\<lambda>k. k"]
  by auto

end
