(* ===== verification/Machine.thy ===== *)
theory Machine
  imports Nachos_Prelude
begin

text \<open>
  \<open>machine/machine.h\<close>, \<open>machine/machine.cc\<close>, \<open>machine/translate.h\<close> and
  \<open>machine/translate.cc\<close>: the registers and the main memory of the simulated workstation, the
  translation of virtual addresses and the two routines every memory access of a user program
  goes through. The host is little endian, so the byte-swapping routines are the identity.
  Registers are 32-bit words: the build is gcc for i386, where \<open>int\<close> arithmetic wraps.
\<close>

unbundle bit_operations_syntax

definition PageSize :: int where "PageSize = 128"
definition NumPhysPages :: int where "NumPhysPages = 128"
definition MemorySize :: int where "MemorySize = NumPhysPages * PageSize"
definition TLBSize :: int where "TLBSize = 4"

datatype ExceptionType = NoException | SyscallException | PageFaultException | ReadOnlyException
  | BusErrorException | AddressErrorException | OverflowException | IllegalInstrException

definition StackReg :: int where "StackReg = 29"
definition RetAddrReg :: int where "RetAddrReg = 31"
definition HiReg :: int where "HiReg = 32"
definition LoReg :: int where "LoReg = 33"
definition PCReg :: int where "PCReg = 34"
definition NextPCReg :: int where "NextPCReg = 35"
definition PrevPCReg :: int where "PrevPCReg = 36"
definition LoadReg :: int where "LoadReg = 37"
definition LoadValueReg :: int where "LoadValueReg = 38"
definition BadVAddrReg :: int where "BadVAddrReg = 39"
definition NumTotalRegs :: int where "NumTotalRegs = 40"

lemmas reg_defs [simp] = StackReg_def RetAddrReg_def HiReg_def LoReg_def PCReg_def NextPCReg_def
  PrevPCReg_def LoadReg_def LoadValueReg_def BadVAddrReg_def NumTotalRegs_def

record TranslationEntry =
  virtualPage :: u32
  physicalPage :: u32
  valid :: bool
  readOnly :: bool
  te_use :: bool
  dirty :: bool

text \<open>
  \<open>trap\<close> is the exception \<open>RaiseException\<close> last handed to the kernel: its call of
  \<open>ExceptionHandler\<close> is the last thing an instruction that traps does, so the handler runs on
  the state such an instruction leaves.
\<close>

record machine =
  registers :: "u32 list"
  mainMemory :: "byte list"
  tlb :: "TranslationEntry list option"
  pageTable :: "TranslationEntry list option"
  pageTableSize :: u32
  trap :: "ExceptionType option"

definition Machine_new :: "bool \<Rightarrow> TranslationEntry list \<Rightarrow> machine" where
  "Machine_new USE_TLB garbage =
     \<lparr>registers = replicate (nat NumTotalRegs) 0, mainMemory = replicate (nat MemorySize) 0,
      tlb = (if USE_TLB then Some (map (\<lambda>e. e\<lparr>valid := False\<rparr>) garbage) else None),
      pageTable = None, pageTableSize = 0, trap = None\<rparr>"

definition WordToHost :: "u32 \<Rightarrow> u32" where "WordToHost w = w"
definition ShortToHost :: "16 word \<Rightarrow> 16 word" where "ShortToHost w = w"
definition WordToMachine :: "u32 \<Rightarrow> u32" where "WordToMachine w = WordToHost w"
definition ShortToMachine :: "16 word \<Rightarrow> 16 word" where "ShortToMachine w = ShortToHost w"

lemmas endian_defs [simp] = WordToHost_def ShortToHost_def WordToMachine_def ShortToMachine_def

subsection \<open>Registers\<close>

definition get_reg :: "machine \<Rightarrow> int \<Rightarrow> u32 option" where
  "get_reg m i = arr_get (registers m) i"

definition set_reg :: "machine \<Rightarrow> int \<Rightarrow> u32 \<Rightarrow> machine option" where
  "set_reg m i v = do { rs \<leftarrow> arr_set (registers m) i v; Some (m\<lparr>registers := rs\<rparr>) }"

definition ReadRegister :: "machine \<Rightarrow> int \<Rightarrow> u32 option" where
  "ReadRegister m num = do { ASSERT (0 \<le> num \<and> num < NumTotalRegs); get_reg m num }"

definition WriteRegister :: "machine \<Rightarrow> int \<Rightarrow> u32 \<Rightarrow> machine option" where
  "WriteRegister m num v = do { ASSERT (0 \<le> num \<and> num < NumTotalRegs); set_reg m num v }"

definition DelayedLoad :: "u32 \<Rightarrow> u32 \<Rightarrow> machine \<Rightarrow> machine option" where
  "DelayedLoad nextReg nextValue m = do {
     r \<leftarrow> get_reg m LoadReg;
     v \<leftarrow> get_reg m LoadValueReg;
     m \<leftarrow> set_reg m (sint r) v;
     m \<leftarrow> set_reg m LoadReg nextReg;
     m \<leftarrow> set_reg m LoadValueReg nextValue;
     set_reg m 0 0 }"

definition RaiseException :: "ExceptionType \<Rightarrow> u32 \<Rightarrow> machine \<Rightarrow> machine option" where
  "RaiseException which badVAddr m = do {
     m \<leftarrow> set_reg m BadVAddrReg badVAddr;
     m \<leftarrow> DelayedLoad 0 0 m;
     Some (m\<lparr>trap := Some which\<rparr>) }"

subsection \<open>Translation\<close>

text \<open>Where the entry for a page is: an index into the page table or the TLB.\<close>

fun tlb_search :: "TranslationEntry list \<Rightarrow> u32 \<Rightarrow> int \<Rightarrow> nat \<Rightarrow> int option option" where
  "tlb_search t vpn i 0 = Some None"
| "tlb_search t vpn i (Suc n) = do {
     e \<leftarrow> arr_get t i;
     if valid e \<and> virtualPage e = vpn then Some (Some i) else tlb_search t vpn (i + 1) n }"

definition find_entry :: "machine \<Rightarrow> u32 \<Rightarrow> (ExceptionType + int) option" where
  "find_entry m vpn =
     (case tlb m of
        None \<Rightarrow>
          if vpn \<ge> pageTableSize m then Some (Inl AddressErrorException)
          else do {
            pt \<leftarrow> pageTable m;
            e \<leftarrow> arr_get pt (uint vpn);
            if \<not> valid e then Some (Inl PageFaultException) else Some (Inr (uint vpn)) }
      | Some t \<Rightarrow> do {
          r \<leftarrow> tlb_search t vpn 0 (nat TLBSize);
          Some (case r of None \<Rightarrow> Inl PageFaultException | Some i \<Rightarrow> Inr i) })"

definition the_table :: "machine \<Rightarrow> TranslationEntry list option" where
  "the_table m = (if tlb m = None then pageTable m else tlb m)"

definition set_entry :: "machine \<Rightarrow> int \<Rightarrow> TranslationEntry \<Rightarrow> machine option" where
  "set_entry m i e = do {
     t \<leftarrow> the_table m;
     t' \<leftarrow> arr_set t i e;
     Some (if tlb m = None then m\<lparr>pageTable := Some t'\<rparr> else m\<lparr>tlb := Some t'\<rparr>) }"

definition Translate :: "machine \<Rightarrow> u32 \<Rightarrow> int \<Rightarrow> bool \<Rightarrow> ((ExceptionType + u32) \<times> machine) option" where
  "Translate m virtAddr sz writing =
     (if sz = 4 \<and> virtAddr AND 3 \<noteq> 0 \<or> sz = 2 \<and> virtAddr AND 1 \<noteq> 0
      then Some (Inl AddressErrorException, m)
      else do {
        ASSERT (tlb m = None \<or> pageTable m = None);
        ASSERT (tlb m \<noteq> None \<or> pageTable m \<noteq> None);
        let vpn = virtAddr div word_of_int PageSize;
        let offset = virtAddr mod word_of_int PageSize;
        found \<leftarrow> find_entry m vpn;
        (case found of
           Inl exc \<Rightarrow> Some (Inl exc, m)
         | Inr i \<Rightarrow> do {
             t \<leftarrow> the_table m;
             entry \<leftarrow> arr_get t i;
             if readOnly entry \<and> writing then Some (Inl ReadOnlyException, m)
             else do {
               let pageFrame = physicalPage entry;
               if pageFrame \<ge> word_of_int NumPhysPages then Some (Inl BusErrorException, m)
               else do {
                 let entry = entry\<lparr>te_use := True\<rparr>;
                 let entry = (if writing then entry\<lparr>dirty := True\<rparr> else entry);
                 m \<leftarrow> set_entry m i entry;
                 let physAddr = pageFrame * word_of_int PageSize + offset;
                 ASSERT (0 \<le> sint physAddr \<and> sint physAddr + sz \<le> MemorySize);
                 Some (Inr physAddr, m) } } }) })"

subsection \<open>Reading and writing virtual memory\<close>

text \<open>Bytes of main memory, least significant first; \<open>char\<close> is signed.\<close>

definition mem_bytes :: "machine \<Rightarrow> int \<Rightarrow> int \<Rightarrow> byte list option" where
  "mem_bytes m a n = do {
     ASSERT (0 \<le> a \<and> a + n \<le> int (length (mainMemory m)));
     Some (take (nat n) (drop (nat a) (mainMemory m))) }"

definition store_bytes :: "machine \<Rightarrow> int \<Rightarrow> byte list \<Rightarrow> machine option" where
  "store_bytes m a bs = do {
     ASSERT (0 \<le> a \<and> a + int (length bs) \<le> int (length (mainMemory m)));
     Some (m\<lparr>mainMemory := take (nat a) (mainMemory m) @ bs @ drop (nat a + length bs) (mainMemory m)\<rparr>) }"

definition short_of_bytes :: "byte list \<Rightarrow> 16 word" where
  "short_of_bytes bs = ucast (bs ! 0) OR push_bit 8 (ucast (bs ! 1))"

definition bytes_of_short :: "16 word \<Rightarrow> byte list" where
  "bytes_of_short w = [ucast w, ucast (drop_bit 8 w)]"

definition bytes_of_word :: "u32 \<Rightarrow> byte list" where
  "bytes_of_word w = int_to_bytes (uint w)"

text \<open>\<open>None\<close> in the first component is the result \<open>FALSE\<close>.\<close>

definition ReadMem :: "machine \<Rightarrow> u32 \<Rightarrow> int \<Rightarrow> (u32 option \<times> machine) option" where
  "ReadMem m addr sz = do {
     (r, m) \<leftarrow> Translate m addr sz False;
     (case r of
        Inl exc \<Rightarrow> do { m \<leftarrow> RaiseException exc addr m; Some (None, m) }
      | Inr physicalAddress \<Rightarrow>
          if sz = 1 then do {
            bs \<leftarrow> mem_bytes m (sint physicalAddress) 1;
            Some (Some (scast (bs ! 0)), m) }
          else if sz = 2 then do {
            bs \<leftarrow> mem_bytes m (sint physicalAddress) 2;
            Some (Some (ucast (ShortToHost (short_of_bytes bs))), m) }
          else if sz = 4 then do {
            bs \<leftarrow> mem_bytes m (sint physicalAddress) 4;
            Some (Some (WordToHost (bytes_to_word bs)), m) }
          else None) }"

definition WriteMem :: "machine \<Rightarrow> u32 \<Rightarrow> int \<Rightarrow> u32 \<Rightarrow> (bool \<times> machine) option" where
  "WriteMem m addr sz v = do {
     (r, m) \<leftarrow> Translate m addr sz True;
     (case r of
        Inl exc \<Rightarrow> do { m \<leftarrow> RaiseException exc addr m; Some (False, m) }
      | Inr physicalAddress \<Rightarrow>
          if sz = 1 then do {
            m \<leftarrow> store_bytes m (sint physicalAddress) [ucast (v AND 0xff)];
            Some (True, m) }
          else if sz = 2 then do {
            m \<leftarrow> store_bytes m (sint physicalAddress) (bytes_of_short (ShortToMachine (ucast (v AND 0xffff))));
            Some (True, m) }
          else if sz = 4 then do {
            m \<leftarrow> store_bytes m (sint physicalAddress) (bytes_of_word (WordToMachine v));
            Some (True, m) }
          else None) }"


subsection \<open>Well-formed machines\<close>

definition regs_ok :: "machine \<Rightarrow> bool" where
  "regs_ok m \<longleftrightarrow> length (registers m) = 40 \<and> uint (registers m ! 37) < 32"

definition mem_ok :: "machine \<Rightarrow> bool" where
  "mem_ok m \<longleftrightarrow> length (mainMemory m) = 16384 \<and>
     (case tlb m of None \<Rightarrow> (\<exists>pt. pageTable m = Some pt \<and> uint (pageTableSize m) \<le> int (length pt))
      | Some t \<Rightarrow> pageTable m = None \<and> length t = 4)"

definition machine_ok :: "machine \<Rightarrow> bool" where
  "machine_ok m \<longleftrightarrow> regs_ok m \<and> mem_ok m"

lemma get_reg_in [simp]: "length (registers m) = 40 \<Longrightarrow> 0 \<le> i \<Longrightarrow> i < 40 \<Longrightarrow> get_reg m i = Some (registers m ! nat i)"
  by (simp add: get_reg_def arr_get_def)

lemma set_reg_in [simp]: "length (registers m) = 40 \<Longrightarrow> 0 \<le> i \<Longrightarrow> i < 40 \<Longrightarrow>
    set_reg m i v = Some (m\<lparr>registers := (registers m)[nat i := v]\<rparr>)"
  by (simp add: set_reg_def arr_set_def)

lemma sint_small: "uint w < 32 \<Longrightarrow> sint w = uint w" for w :: u32
  using order_trans [of "- 2147483648" 0 "uint w"]
  by (simp add: sint_uint signed_take_bit_int_eq_self_iff)

lemma uint_nonneg [simp]: "0 \<le> uint w"
  by simp

definition delayed :: "u32 list \<Rightarrow> u32 \<Rightarrow> u32 \<Rightarrow> u32 list" where
  "delayed rs r v = rs[unat (rs ! 37) := rs ! 38, 37 := r, 38 := v, 0 := 0]"

lemma length_delayed [simp]: "length (delayed rs r v) = length rs"
  by (simp add: delayed_def)

lemma DelayedLoad_eq:
  assumes "regs_ok m"
  shows "DelayedLoad r v m = Some (m\<lparr>registers := delayed (registers m) r v\<rparr>)"
proof -
  have l: "length (registers m) = 40" and w: "uint (registers m ! 37) < 32"
    using assms by (simp_all add: regs_ok_def)
  then have "sint (registers m ! 37) = uint (registers m ! 37)" by (rule_tac sint_small)
  with l w show ?thesis by (simp add: DelayedLoad_def delayed_def)
qed

lemma delayed_regs_ok: "regs_ok m \<Longrightarrow> uint r < 32 \<Longrightarrow> regs_ok (m\<lparr>registers := delayed (registers m) r v\<rparr>)"
  by (simp add: regs_ok_def delayed_def)

lemma RaiseException_eq:
  assumes "regs_ok m"
  obtains rs where "RaiseException e a m = Some (m\<lparr>registers := rs, trap := Some e\<rparr>)"
    and "length rs = 40" and "rs ! 37 = 0" and "rs ! 0 = 0" and "rs ! 39 = a" and
    "rs ! 34 = registers m ! 34" and "rs ! 35 = registers m ! 35"
proof -
  let ?m = "m\<lparr>registers := (registers m)[39 := a]\<rparr>"
  have l: "length (registers m) = 40" and w: "uint (registers m ! 37) < 32"
    using assms by (simp_all add: regs_ok_def)
  have ok: "regs_ok ?m" using l w by (simp add: regs_ok_def)
  have "unat (registers m ! 37) < 32" using w by (metis nat_less_eq_zless nat_numeral uint_nonneg unat_eq_nat_uint)
  with that [of "delayed ((registers m)[39 := a]) 0 0"] l DelayedLoad_eq [OF ok, of 0 0]
  show thesis by (simp add: RaiseException_def delayed_def nth_list_update)
qed

lemma RaiseException_ok: "machine_ok m \<Longrightarrow>
   \<exists>m'. RaiseException e a m = Some m' \<and> machine_ok m' \<and> mainMemory m' = mainMemory m \<and> trap m' = Some e \<and>
     tlb m' = tlb m \<and> pageTable m' = pageTable m \<and> pageTableSize m' = pageTableSize m"
proof -
  assume m: "machine_ok m"
  then have "regs_ok m" by (simp add: machine_ok_def)
  then obtain rs where "RaiseException e a m = Some (m\<lparr>registers := rs, trap := Some e\<rparr>)"
    "length rs = 40" "rs ! 37 = 0" by (rule RaiseException_eq)
  with m show ?thesis by (auto simp: machine_ok_def regs_ok_def mem_ok_def split: option.splits)
qed

subsection \<open>What a translation does\<close>

lemma tlb_search_spec:
  assumes "0 \<le> i" and "i + int n \<le> int (length t)"
  shows "\<exists>r. tlb_search t vpn i n = Some r \<and>
    (case r of None \<Rightarrow> (\<forall>j. i \<le> j \<and> j < i + int n \<longrightarrow> \<not> (valid (t ! nat j) \<and> virtualPage (t ! nat j) = vpn))
     | Some j \<Rightarrow> i \<le> j \<and> j < i + int n \<and> valid (t ! nat j) \<and> virtualPage (t ! nat j) = vpn)"
  using assms
proof (induction n arbitrary: i)
  case 0
  then show ?case by auto
next
  case (Suc n)
  have g: "arr_get t i = Some (t ! nat i)" using Suc.prems by (simp add: arr_get_def)
  show ?case
  proof (cases "valid (t ! nat i) \<and> virtualPage (t ! nat i) = vpn")
    case True
    with g show ?thesis by simp
  next
    case False
    from Suc.IH [of "i + 1"] Suc.prems obtain r where r: "tlb_search t vpn (i + 1) n = Some r"
      "case r of None \<Rightarrow> (\<forall>j. i + 1 \<le> j \<and> j < i + 1 + int n \<longrightarrow> \<not> (valid (t ! nat j) \<and> virtualPage (t ! nat j) = vpn))
       | Some j \<Rightarrow> i + 1 \<le> j \<and> j < i + 1 + int n \<and> valid (t ! nat j) \<and> virtualPage (t ! nat j) = vpn"
      by auto
    have "\<not> (valid (t ! nat j) \<and> virtualPage (t ! nat j) = vpn)"
      if "r = None" "i \<le> j" "j < i + int (Suc n)" for j
      using that r(2) False by (cases "j = i") auto
    with False g r show ?thesis by (auto split: option.splits)
  qed
qed

text \<open>The entry the machine uses for a page: the one the page table or the TLB has for it.\<close>

definition entry_for :: "machine \<Rightarrow> u32 \<Rightarrow> int \<Rightarrow> TranslationEntry \<Rightarrow> bool" where
  "entry_for m vpn i e \<longleftrightarrow> (\<exists>t. the_table m = Some t \<and> 0 \<le> i \<and> i < int (length t) \<and> e = t ! nat i \<and> valid e \<and>
     (if tlb m = None then i = uint vpn else virtualPage e = vpn))"

lemma find_entry_spec:
  assumes "mem_ok m"
  shows "(\<exists>x. find_entry m vpn = Some (Inl x) \<and> (x = AddressErrorException \<or> x = PageFaultException)) \<or>
    (\<exists>i e. find_entry m vpn = Some (Inr i) \<and> entry_for m vpn i e)"
proof (cases "tlb m")
  case None
  then obtain pt where pt: "pageTable m = Some pt" "uint (pageTableSize m) \<le> int (length pt)"
    using assms by (auto simp: mem_ok_def)
  show ?thesis
  proof (cases "vpn \<ge> pageTableSize m")
    case True
    with None show ?thesis by (simp add: find_entry_def)
  next
    case False
    then have lt: "uint vpn < int (length pt)" using pt(2) by (simp add: word_le_def)
    then have g: "arr_get pt (uint vpn) = Some (pt ! nat (uint vpn))" by (simp add: arr_get_def)
    show ?thesis
      using None False pt g lt
      by (cases "valid (pt ! nat (uint vpn))") (simp_all add: find_entry_def entry_for_def the_table_def)
  qed
next
  case (Some t)
  then have l: "length t = 4" using assms by (simp add: mem_ok_def)
  then obtain r where "tlb_search t vpn 0 4 = Some r" "case r of None \<Rightarrow> True | Some j \<Rightarrow> 0 \<le> j \<and> j < 4 \<and>
      valid (t ! nat j) \<and> virtualPage (t ! nat j) = vpn"
    using tlb_search_spec [of 0 4 t vpn] by (auto split: option.splits)
  with Some l show ?thesis
    by (cases r) (auto simp: find_entry_def entry_for_def the_table_def TLBSize_def)
qed


lemma and_3: "(a AND 3 = 0) = (uint a mod 4 = 0)" for a :: u32
proof -
  have "a AND 3 = take_bit 2 a" by (simp add: take_bit_eq_mask mask_eq_exp_minus_1)
  moreover have "uint (take_bit 2 a) = uint a mod 4" by (simp add: take_bit_eq_mod uint_mod)
  ultimately show ?thesis by (metis uint_0_iff)
qed

lemma and_1: "(a AND 1 = 0) = (uint a mod 2 = 0)" for a :: u32
proof -
  have "a AND 1 = take_bit 1 a" by (simp add: take_bit_eq_mask mask_eq_exp_minus_1)
  moreover have "uint (take_bit 1 a) = uint a mod 2" by (simp add: take_bit_eq_mod uint_mod)
  ultimately show ?thesis by (metis uint_0_iff)
qed

definition aligned :: "u32 \<Rightarrow> int \<Rightarrow> bool" where
  "aligned a sz \<longleftrightarrow> uint a mod sz = 0"

lemma aligned_test: "sz \<in> {1, 2, 4} \<Longrightarrow>
   (sz = 4 \<and> a AND 3 \<noteq> 0 \<or> sz = 2 \<and> a AND 1 \<noteq> 0) = (\<not> aligned a sz)"
  using and_3 [of a] and_1 [of a] by (auto simp: aligned_def)

lemma aligned_offset:
  assumes "aligned a sz" and "sz \<in> {1, 2, 4}"
  shows "uint a mod 128 + sz \<le> 128"
proof -
  have r: "0 \<le> uint a mod 128" "uint a mod 128 < 128" by simp_all
  have "(uint a mod 128) mod sz = 0"
    using assms by (auto simp: aligned_def mod_mod_cancel)
  then obtain q where "uint a mod 128 = sz * q" by (auto simp: mod_eq_0_iff_dvd elim: dvdE)
  with r assms(2) show ?thesis by (elim insertE emptyE; simp; presburger)
qed

text \<open>What an access leaves of the entry it went through.\<close>

definition touched :: "bool \<Rightarrow> TranslationEntry \<Rightarrow> TranslationEntry" where
  "touched writing e = e\<lparr>te_use := True, dirty := dirty e \<or> writing\<rparr>"

lemma touched_write: "touched True e = e\<lparr>te_use := True, dirty := True\<rparr>"
  by (simp add: touched_def)

lemma touched_read: "touched False e = e\<lparr>te_use := True\<rparr>"
  by (cases e) (simp add: touched_def)

lemma phys_uint:
  assumes "uint f < 128"
  shows "uint (f * 128 + a mod 128 :: u32) = uint f * 128 + uint a mod 128"
proof -
  have m: "uint (a mod 128) = uint a mod 128" by (simp add: uint_mod)
  have "0 \<le> uint a mod 128" "uint a mod 128 < 128" "0 \<le> uint f" by simp_all
  then have "0 \<le> uint f * 128 + uint a mod 128" "uint f * 128 + uint a mod 128 < 2 ^ 32"
    using assms by simp_all
  then show ?thesis by (simp add: uint_word_ariths m)
qed

lemma sint_16k: "uint w < 2 ^ 31 \<Longrightarrow> sint w = uint w" for w :: u32
  using order_trans [of "- 2147483648" 0 "uint w"]
  by (simp add: sint_uint signed_take_bit_int_eq_self_iff)

definition translated :: "machine \<Rightarrow> u32 \<Rightarrow> int \<Rightarrow> bool \<Rightarrow> u32 \<Rightarrow> machine \<Rightarrow> bool" where
  "translated m a sz w p m' \<longleftrightarrow> (\<exists>i e. entry_for m (a div 128) i e \<and> aligned a sz \<and> (w \<longrightarrow> \<not> readOnly e) \<and>
     uint (physicalPage e) < 128 \<and> uint p = uint (physicalPage e) * 128 + uint a mod 128 \<and>
     uint p + sz \<le> 16384 \<and> set_entry m i (touched w e) = Some m')"

lemma Translate_cases:
  assumes m: "mem_ok m" and sz: "sz \<in> {1, 2, 4}"
  shows "(\<exists>x. Translate m a sz w = Some (Inl x, m) \<and> x \<noteq> NoException) \<or>
    (\<exists>p m'. Translate m a sz w = Some (Inr p, m') \<and> translated m a sz w p m')"
proof (cases "aligned a sz")
  case False
  then have "Translate m a sz w = Some (Inl AddressErrorException, m)"
    unfolding Translate_def aligned_test [OF sz] by simp
  then show ?thesis by simp
next
  case True
  have al: "(sz = 4 \<and> a AND 3 \<noteq> 0 \<or> sz = 2 \<and> a AND 1 \<noteq> 0) = False"
    using aligned_test [OF sz, of a] True by simp
  have one: "tlb m = None \<or> pageTable m = None" "tlb m \<noteq> None \<or> pageTable m \<noteq> None"
    using m by (auto simp: mem_ok_def split: option.splits)
  show ?thesis
  proof (cases "\<exists>x. find_entry m (a div 128) = Some (Inl x) \<and> (x = AddressErrorException \<or> x = PageFaultException)")
    case True
    then show ?thesis using one by (auto simp: Translate_def al PageSize_def)
  next
    case False
    then obtain i e where f: "find_entry m (a div 128) = Some (Inr i)" and e: "entry_for m (a div 128) i e"
      using find_entry_spec [OF m] by blast
    then obtain t where t: "the_table m = Some t" "arr_get t i = Some e"
      by (auto simp: entry_for_def arr_get_def)
    have set: "\<exists>m'. set_entry m i x = Some m'" for x
      using e t(1) by (auto simp: entry_for_def set_entry_def arr_set_def)
    note run = Translate_def al f t one PageSize_def NumPhysPages_def
    consider "readOnly e \<and> w" | "\<not> (readOnly e \<and> w)" "128 \<le> physicalPage e"
      | "\<not> (readOnly e \<and> w)" "\<not> 128 \<le> physicalPage e" by blast
    then show ?thesis
    proof cases
      case 1
      then show ?thesis using one by (simp add: run)
    next
      case 2
      then show ?thesis using one by (simp add: run)
    next
      case 3
      then have lt: "uint (physicalPage e) < 128" by (simp add: word_le_def)
      obtain m' where m': "set_entry m i (touched w e) = Some m'" using set by blast
      let ?p = "physicalPage e * 128 + a mod 128"
      have up: "uint ?p = uint (physicalPage e) * 128 + uint a mod 128" using phys_uint [OF lt] .
      have fit: "uint ?p + sz \<le> 16384" using aligned_offset [OF \<open>aligned a sz\<close> sz] lt up by linarith
      then have "uint ?p < 2 ^ 31" using sz by auto
      then have "sint ?p = uint ?p" by (rule sint_16k)
      then have "Translate m a sz w = Some (Inr ?p, m')"
        using 3 one m' fit
        by (cases w) (simp_all add: run touched_write touched_read Let_def MemorySize_def)
      then show ?thesis
        using e 3 lt up fit m' \<open>aligned a sz\<close> unfolding translated_def by blast
    qed
  qed
qed


subsection \<open>Memory through a translation\<close>

lemma set_entry_frame:
  assumes "set_entry m i e = Some m'"
  shows "mainMemory m' = mainMemory m" and "registers m' = registers m" and
    "pageTableSize m' = pageTableSize m" and "mem_ok m' = mem_ok m"
  using assms
  by (auto simp: set_entry_def the_table_def bind_Some_conv arr_set_def mem_ok_def split: if_splits option.splits)

lemma translated_frame:
  assumes "translated m a sz w p m'" and "mem_ok m" and "sz \<in> {1, 2, 4}"
  shows "mainMemory m' = mainMemory m" and "registers m' = registers m" and "mem_ok m'"
    and "0 \<le> sint p \<and> sint p + sz \<le> int (length (mainMemory m'))" and "sint p = uint p"
proof -
  obtain i e where se: "set_entry m i (touched w e) = Some m'" and p: "uint p + sz \<le> 16384"
    using assms(1) by (auto simp: translated_def)
  show m: "mainMemory m' = mainMemory m" and "registers m' = registers m" and "mem_ok m'"
    using set_entry_frame [OF se] assms(2) by simp_all
  have "uint p < 2 ^ 31" using p assms(3) by auto
  then show s: "sint p = uint p" by (rule sint_16k)
  show "0 \<le> sint p \<and> sint p + sz \<le> int (length (mainMemory m'))"
    using p assms(2) m s by (simp add: mem_ok_def)
qed

definition load_value :: "machine \<Rightarrow> u32 \<Rightarrow> int \<Rightarrow> u32" where
  "load_value m p sz =
     (let bs = take (nat sz) (drop (unat p) (mainMemory m)) in
      if sz = 1 then scast (bs ! 0) else if sz = 2 then ucast (short_of_bytes bs) else bytes_to_word bs)"

definition store_bytes_of :: "u32 \<Rightarrow> int \<Rightarrow> byte list" where
  "store_bytes_of v sz =
     (if sz = 1 then [ucast (v AND 0xff)] else if sz = 2 then bytes_of_short (ucast (v AND 0xffff))
      else bytes_of_word v)"

definition put_mem :: "byte list \<Rightarrow> nat \<Rightarrow> byte list \<Rightarrow> byte list" where
  "put_mem mem a bs = take a mem @ bs @ drop (a + length bs) mem"

lemma length_store_bytes [simp]: "sz \<in> {1, 2, 4} \<Longrightarrow> int (length (store_bytes_of v sz)) = sz"
  by (auto simp: store_bytes_of_def bytes_of_short_def bytes_of_word_def)

lemma length_put_mem [simp]: "a + length bs \<le> length mem \<Longrightarrow> length (put_mem mem a bs) = length mem"
  by (simp add: put_mem_def)

lemma put_mem_same: "a + length bs \<le> length mem \<Longrightarrow> take (length bs) (drop a (put_mem mem a bs)) = bs"
  by (simp add: put_mem_def)

lemma put_mem_other:
  "a + length bs \<le> length mem \<Longrightarrow> j < a \<or> a + length bs \<le> j \<Longrightarrow> put_mem mem a bs ! j = mem ! j"
  by (auto simp: put_mem_def nth_append)

lemma ReadMem_hit:
  assumes "translated m a sz False p m'" and "mem_ok m" and "sz \<in> {1, 2, 4}"
    and "Translate m a sz False = Some (Inr p, m')"
  shows "ReadMem m a sz = Some (Some (load_value m p sz), m')"
  using translated_frame [OF assms(1-3)] assms(3,4)
  by (auto simp: ReadMem_def mem_bytes_def load_value_def)

lemma WriteMem_hit:
  assumes "translated m a sz True p m'" and "mem_ok m" and "sz \<in> {1, 2, 4}"
    and "Translate m a sz True = Some (Inr p, m')"
  shows "WriteMem m a sz v = Some (True, m'\<lparr>mainMemory := put_mem (mainMemory m) (unat p) (store_bytes_of v sz)\<rparr>)"
  using translated_frame [OF assms(1-3)] assms(3,4) length_store_bytes [OF assms(3), of v]
  by (auto simp: WriteMem_def store_bytes_def store_bytes_of_def put_mem_def bytes_of_short_def bytes_of_word_def)

text \<open>What the bytes of a value read back as: the value cut to the size and extended again.\<close>

definition cut :: "u32 \<Rightarrow> int \<Rightarrow> u32" where
  "cut v sz = (if sz = 1 then signed_take_bit 7 v else if sz = 2 then take_bit 16 v else v)"

lemma and_ff: "v AND 0xff = take_bit 8 v" and and_ffff: "v AND 0xffff = take_bit 16 v" for v :: u32
  by (simp_all add: take_bit_eq_mask mask_eq_exp_minus_1)

lemma load_store:
  assumes "sz \<in> {1, 2, 4}" and "unat p + nat sz \<le> length mem"
  shows "load_value (m\<lparr>mainMemory := put_mem mem (unat p) (store_bytes_of v sz)\<rparr>) p sz = cut v sz"
proof -
  have "take (nat sz) (drop (unat p) (put_mem mem (unat p) (store_bytes_of v sz))) = store_bytes_of v sz"
    using put_mem_same [of "unat p" "store_bytes_of v sz" mem] length_store_bytes [OF assms(1), of v] assms(2)
    by (metis nat_int)
  moreover have "scast (ucast (v AND 0xff) :: byte) = signed_take_bit 7 v"
    unfolding and_ff by (rule bit_word_eqI) (auto simp: bit_simps)
  moreover have "ucast (short_of_bytes (bytes_of_short (ucast (v AND 0xffff)))) = take_bit 16 v"
    unfolding and_ffff by (rule bit_word_eqI) (auto simp: short_of_bytes_def bytes_of_short_def bit_simps)
  moreover have "bytes_to_word (bytes_of_word v) = v"
    by (simp add: bytes_of_word_def bytes_to_word_int_to_bytes)
  ultimately show ?thesis
    using assms(1) by (auto simp: load_value_def Let_def cut_def store_bytes_of_def)
qed


subsection \<open>A second access through the same entry\<close>

lemma tlb_search_cong:
  "map (\<lambda>e. (valid e, virtualPage e)) t = map (\<lambda>e. (valid e, virtualPage e)) t' \<Longrightarrow>
   tlb_search t vpn i n = tlb_search t' vpn i n"
proof (induction n arbitrary: i)
  case 0
  then show ?case by simp
next
  case (Suc n)
  have l: "length t = length t'" using arg_cong [OF Suc.prems, of length] by simp
  show ?case
  proof (cases "0 \<le> i \<and> i < int (length t)")
    case False
    then have "arr_get t i = None" "arr_get t' i = None" using l by (simp_all add: arr_get_def)
    then show ?thesis by simp
  next
    case True
    then have n: "nat i < length t" by linarith
    have "map (\<lambda>e. (valid e, virtualPage e)) t ! nat i = map (\<lambda>e. (valid e, virtualPage e)) t' ! nat i"
      by (simp only: Suc.prems)
    then have "valid (t ! nat i) = valid (t' ! nat i) \<and> virtualPage (t ! nat i) = virtualPage (t' ! nat i)"
      using n l by simp
    with True l Suc.IH [OF Suc.prems] show ?thesis by (simp add: arr_get_def)
  qed
qed

lemma map_upd_same: "i < length t \<Longrightarrow> f e = f (t ! i) \<Longrightarrow> map f (t[i := e]) = map f t"
  by (metis list_update_id map_update)

lemma find_entry_touched:
  assumes "entry_for m vpn i e" and "set_entry m i (touched w e) = Some m'"
  shows "find_entry m' v = find_entry m v" and "tlb m' = None \<longleftrightarrow> tlb m = None" and
    "pageTable m' = None \<longleftrightarrow> pageTable m = None" and
    "\<exists>t. the_table m' = Some t \<and> 0 \<le> i \<and> i < int (length t) \<and> t ! nat i = touched w e"
proof -
  obtain t where t: "the_table m = Some t" "0 \<le> i" "i < int (length t)" "e = t ! nat i"
    using assms(1) by (auto simp: entry_for_def)
  let ?t = "t[nat i := touched w e]"
  have m': "m' = (if tlb m = None then m\<lparr>pageTable := Some ?t\<rparr> else m\<lparr>tlb := Some ?t\<rparr>)"
    using assms(2) t by (auto simp: set_entry_def arr_set_def split: if_splits)
  have i: "nat i < length t" using t by linarith
  have eq: "map (\<lambda>e. (valid e, virtualPage e)) ?t = map (\<lambda>e. (valid e, virtualPage e)) t"
    using i t(4) by (intro map_upd_same) (simp_all add: touched_def)
  have val: "valid (?t ! j) = valid (t ! j)" for j
    using t(4) i by (cases "j = nat i") (simp_all add: touched_def)
  show "find_entry m' v = find_entry m v"
    using t(1) tlb_search_cong [OF eq] val
    by (auto simp: m' find_entry_def the_table_def arr_get_def split: option.splits)
  show "tlb m' = None \<longleftrightarrow> tlb m = None" and "pageTable m' = None \<longleftrightarrow> pageTable m = None"
    using t(1) by (auto simp: m' the_table_def)
  show "\<exists>t. the_table m' = Some t \<and> 0 \<le> i \<and> i < int (length t) \<and> t ! nat i = touched w e"
    using t i by (auto simp: m' the_table_def)
qed

lemma Translate_Inr_find:
  assumes m: "mem_ok m" and sz: "sz \<in> {1, 2, 4}" and r: "Translate m a sz w = Some (Inr p, m')"
  obtains i e where "find_entry m (a div 128) = Some (Inr i)" and "entry_for m (a div 128) i e"
    and "uint (physicalPage e) < 128" and "p = physicalPage e * 128 + a mod 128"
    and "w \<longrightarrow> \<not> readOnly e" and "aligned a sz" and "set_entry m i (touched w e) = Some m'"
proof -
  have al: "aligned a sz"
    using r aligned_test [OF sz, of a] by (auto simp: Translate_def split: if_splits)
  have al': "(sz = 4 \<and> a AND 3 \<noteq> 0 \<or> sz = 2 \<and> a AND 1 \<noteq> 0) = False"
    using aligned_test [OF sz, of a] al by simp
  have one: "tlb m = None \<or> pageTable m = None" "tlb m \<noteq> None \<or> pageTable m \<noteq> None"
    using m by (auto simp: mem_ok_def split: option.splits)
  have "find_entry m (a div 128) \<noteq> Some (Inl x)" for x
    using r one by (auto simp: Translate_def al' PageSize_def)
  with find_entry_spec [OF m, of "a div 128"] obtain i e where
    f: "find_entry m (a div 128) = Some (Inr i)" and e: "entry_for m (a div 128) i e" by blast
  then obtain t where t: "the_table m = Some t" "arr_get t i = Some e"
    by (auto simp: entry_for_def arr_get_def)
  note run = Translate_def al' f t PageSize_def NumPhysPages_def bind_Some_conv
  have nr: "w \<longrightarrow> \<not> readOnly e" and lt: "\<not> 128 \<le> physicalPage e"
    using r by (auto simp: run split: if_splits)
  have p: "p = physicalPage e * 128 + a mod 128" and se: "set_entry m i (touched w e) = Some m'"
    using r nr lt by (auto simp: run touched_read touched_write Let_def split: if_splits)
  show thesis using that [OF f e _ p nr al se] lt by (simp add: word_le_def)
qed

lemma memory_irrelevant [simp]:
  "find_entry (m\<lparr>mainMemory := mm\<rparr>) v = find_entry m v"
  "the_table (m\<lparr>mainMemory := mm\<rparr>) = the_table m"
  by (cases "tlb m"; simp add: find_entry_def the_table_def)+

text \<open>
  A read at an address that an access has just gone through, the main memory changed in between
  at most in its contents.
\<close>

lemma Translate_again:
  assumes m: "mem_ok m" and sz: "sz \<in> {1, 2, 4}" and r: "Translate m a sz w = Some (Inr p, m0)"
    and m1: "m1 = m0\<lparr>mainMemory := mm\<rparr>" and mm: "length mm = length (mainMemory m)"
  shows "\<exists>m2. Translate m1 a sz False = Some (Inr p, m2) \<and> translated m1 a sz False p m2"
proof -
  from Translate_Inr_find [OF m sz r] obtain i e where
    f: "find_entry m (a div 128) = Some (Inr i)" and e: "entry_for m (a div 128) i e" and
    lt: "uint (physicalPage e) < 128" and p: "p = physicalPage e * 128 + a mod 128" and
    al: "aligned a sz" and se: "set_entry m i (touched w e) = Some m0" by metis
  note tt = find_entry_touched [OF e se]
  have "mem_ok m0" "mainMemory m0 = mainMemory m" using set_entry_frame(1,4) [OF se] m by simp_all
  with m1 mm have m1: "mem_ok m1" by (simp add: mem_ok_def split: option.splits)
  obtain t where t: "the_table m1 = Some t" "0 \<le> i" "i < int (length t)" "t ! nat i = touched w e"
    using tt(4) assms(4) by auto
  have f1: "find_entry m1 (a div 128) = Some (Inr i)" using f tt(1) assms(4) by simp
  have al': "(sz = 4 \<and> a AND 3 \<noteq> 0 \<or> sz = 2 \<and> a AND 1 \<noteq> 0) = False"
    using aligned_test [OF sz, of a] al by simp
  have g: "arr_get t i = Some (touched w e)" using t by (simp add: arr_get_def)
  have one: "tlb m1 = None \<or> pageTable m1 = None" "tlb m1 \<noteq> None \<or> pageTable m1 \<noteq> None"
    using m1 by (auto simp: mem_ok_def split: option.splits)
  have pp: "physicalPage (touched w e) = physicalPage e" by (simp add: touched_def)
  have nlt: "\<not> 128 \<le> physicalPage e" using lt by (simp add: word_le_def)
  obtain m2 where m2: "set_entry m1 i (touched False (touched w e)) = Some m2"
    using t by (auto simp: set_entry_def arr_set_def)
  have "uint p = uint (physicalPage e) * 128 + uint a mod 128" using phys_uint [OF lt, of a] p by simp
  then have "uint p + sz \<le> 16384" using aligned_offset [OF al sz] lt by linarith
  moreover from this have "sint p = uint p" using sz by (intro sint_16k) auto
  ultimately have "Translate m1 a sz False = Some (Inr p, m2)"
    using one m2 p nlt
    by (simp add: Translate_def al' f1 t(1) g pp PageSize_def NumPhysPages_def MemorySize_def touched_read)
  with Translate_cases [OF m1 sz, of a False] show ?thesis by auto
qed


lemma page_of: "q * 128 \<le> j \<Longrightarrow> j < q * 128 + 128 \<Longrightarrow> j div 128 = q" for q j :: int
  by (rule int_div_pos_eq [where r = "j - q * 128"]) simp_all

subsection \<open>Accesses never stop a well-formed machine\<close>

lemma RaiseException_R0:
  assumes "machine_ok m"
  obtains m' where "RaiseException e a m = Some m'" and "machine_ok m'" and "registers m' ! 0 = 0"
    and "trap m' = Some e" and "registers m' ! 34 = registers m ! 34" and "registers m' ! 35 = registers m ! 35"
    and "mainMemory m' = mainMemory m"
proof -
  have "regs_ok m" using assms by (simp add: machine_ok_def)
  then obtain rs where "RaiseException e a m = Some (m\<lparr>registers := rs, trap := Some e\<rparr>)" and
    "rs ! 0 = 0" "rs ! 34 = registers m ! 34" "rs ! 35 = registers m ! 35" by (rule RaiseException_eq)
  with RaiseException_ok [OF assms, of e a] that show thesis by auto
qed

lemma translated_ok:
  assumes "translated m a sz w p m'" and "machine_ok m" and "sz \<in> {1, 2, 4}"
  shows "machine_ok m'"
  using translated_frame(2,3) [OF assms(1) _ assms(3)] assms(2) by (simp add: machine_ok_def regs_ok_def)

lemma ReadMem_ok:
  assumes "machine_ok m" and sz: "sz \<in> {1, 2, 4}"
  obtains (fault) m' x where "ReadMem m a sz = Some (None, m')" and "machine_ok m'" and
      "registers m' ! 0 = 0" and "trap m' = Some x" and "registers m' ! 34 = registers m ! 34"
    | (hit) v m' where "ReadMem m a sz = Some (Some v, m')" and "machine_ok m'" and "registers m' = registers m"
proof -
  have m: "mem_ok m" using assms(1) by (simp add: machine_ok_def)
  show thesis
    using Translate_cases [OF m sz, of a False]
  proof (elim disjE exE conjE)
    fix x assume "Translate m a sz False = Some (Inl x, m)"
    moreover obtain m' where "RaiseException x a m = Some m'" "machine_ok m'" "registers m' ! 0 = 0"
        "trap m' = Some x" "registers m' ! 34 = registers m ! 34" using RaiseException_R0 [OF assms(1)] by metis
    ultimately show thesis using fault by (simp add: ReadMem_def)
  next
    fix p m' assume r: "Translate m a sz False = Some (Inr p, m')" and t: "translated m a sz False p m'"
    show thesis
      using hit [OF ReadMem_hit [OF t m sz r] translated_ok [OF t assms] translated_frame(2) [OF t m sz]] .
  qed
qed

lemma WriteMem_ok:
  assumes "machine_ok m" and sz: "sz \<in> {1, 2, 4}"
  obtains (fault) m' x where "WriteMem m a sz v = Some (False, m')" and "machine_ok m'" and
      "registers m' ! 0 = 0" and "trap m' = Some x" and "registers m' ! 34 = registers m ! 34"
    | (hit) m' where "WriteMem m a sz v = Some (True, m')" and "machine_ok m'" and "registers m' = registers m"
proof -
  have m: "mem_ok m" using assms(1) by (simp add: machine_ok_def)
  show thesis
    using Translate_cases [OF m sz, of a True]
  proof (elim disjE exE conjE)
    fix x assume "Translate m a sz True = Some (Inl x, m)"
    moreover obtain m' where "RaiseException x a m = Some m'" "machine_ok m'" "registers m' ! 0 = 0"
        "trap m' = Some x" "registers m' ! 34 = registers m ! 34" using RaiseException_R0 [OF assms(1)] by metis
    ultimately show thesis using fault by (simp add: WriteMem_def)
  next
    fix p m' assume r: "Translate m a sz True = Some (Inr p, m')" and t: "translated m a sz True p m'"
    let ?mem = "put_mem (mainMemory m) (unat p) (store_bytes_of v sz)"
    note fr = translated_frame [OF t m sz]
    have up: "int (unat p) = uint p" by simp
    have fit: "unat p + length (store_bytes_of v sz) \<le> length (mainMemory m)"
      using fr(4) [unfolded fr(1) fr(5)] length_store_bytes [OF sz, of v] up by linarith
    have "machine_ok (m'\<lparr>mainMemory := ?mem\<rparr>)"
      using translated_ok [OF t assms] fr(1) length_put_mem [OF fit]
      by (auto simp: machine_ok_def regs_ok_def mem_ok_def split: option.splits)
    then show thesis using hit [OF WriteMem_hit [OF t m sz r]] fr(2) by simp
  qed
qed

subsection \<open>Properties\<close>

text \<open>
  C19. \<open>Machine::Translate\<close> never stops the machine. It either reports an exception and leaves
  the machine as it was, or yields the address that the page's valid entry maps the virtual
  address to: aligned, wholly inside main memory, never a read-only page for a write, with the
  entry's use bit (and for a write its dirty bit) set and nothing else changed.
\<close>

theorem Translate_sound:
  assumes "mem_ok m" and "sz \<in> {1, 2, 4}"
  shows "\<exists>r m'. Translate m a sz w = Some (r, m') \<and> mem_ok m' \<and>
    (case r of Inl x \<Rightarrow> x \<noteq> NoException \<and> m' = m
     | Inr p \<Rightarrow> \<exists>i e. entry_for m (a div 128) i e \<and> uint a mod sz = 0 \<and> (w \<longrightarrow> \<not> readOnly e) \<and>
         uint p = uint (physicalPage e) * 128 + uint a mod 128 \<and> uint p + sz \<le> MemorySize \<and>
         set_entry m i (e\<lparr>te_use := True, dirty := dirty e \<or> w\<rparr>) = Some m')"
  using Translate_cases [OF assms, of a w]
proof (elim disjE exE conjE)
  fix x assume "Translate m a sz w = Some (Inl x, m)" and "x \<noteq> NoException"
  with assms(1) show ?thesis by simp
next
  fix p m' assume r: "Translate m a sz w = Some (Inr p, m')" and t: "translated m a sz w p m'"
  then obtain i e where ie: "entry_for m (a div 128) i e" "uint a mod sz = 0" "w \<longrightarrow> \<not> readOnly e"
      "uint p = uint (physicalPage e) * 128 + uint a mod 128" "uint p + sz \<le> 16384"
      "set_entry m i (e\<lparr>te_use := True, dirty := dirty e \<or> w\<rparr>) = Some m'"
    by (auto simp: translated_def aligned_def touched_def)
  have s: "MemorySize = 16384" by (simp add: MemorySize_def NumPhysPages_def PageSize_def)
  show ?thesis
    unfolding r s using ie translated_frame(3) [OF t assms] by (intro exI conjI, simp, simp) auto
qed

lemma Translate_sound_witness:
  "\<exists>r m'. Translate (Machine_new True (replicate 4 \<lparr>virtualPage = 0, physicalPage = 0, valid = True,
     readOnly = False, te_use = False, dirty = False\<rparr>)) 8 4 True = Some (r, m')"
proof -
  have "mem_ok (Machine_new True (replicate 4 \<lparr>virtualPage = 0, physicalPage = 0, valid = True,
     readOnly = False, te_use = False, dirty = False\<rparr>))"
    by (simp add: mem_ok_def Machine_new_def MemorySize_def NumPhysPages_def PageSize_def)
  from Translate_sound [OF this, of 4 8 True] show ?thesis by auto
qed

text \<open>
  C18. What a user program stores it loads back: after a \<open>WriteMem\<close> that succeeded, a
  \<open>ReadMem\<close> of the same address and size succeeds and gives the value, cut to its size and
  extended as \<open>ReadMem\<close> extends (a byte with its sign, a half word with zeros); and the write
  changed bytes only inside the one physical page that a valid, writable entry gives for the
  virtual page, so a program cannot touch memory its translation does not give it.
\<close>

theorem WriteMem_ReadMem:
  assumes "machine_ok m" and "sz \<in> {1, 2, 4}" and "WriteMem m a sz v = Some (True, m1)"
  shows "\<exists>m2. ReadMem m1 a sz = Some (Some (cut v sz), m2) \<and> mainMemory m2 = mainMemory m1 \<and>
    (\<exists>i e. entry_for m (a div 128) i e \<and> \<not> readOnly e \<and>
       (\<forall>j < length (mainMemory m). mainMemory m1 ! j \<noteq> mainMemory m ! j \<longrightarrow>
          int j div 128 = uint (physicalPage e)))"
proof -
  have m: "mem_ok m" using assms(1) by (simp add: machine_ok_def)
  obtain p m' where r: "Translate m a sz True = Some (Inr p, m')" and t: "translated m a sz True p m'"
    using Translate_cases [OF m assms(2), of a True]
  proof (elim disjE exE conjE)
    fix x assume "Translate m a sz True = Some (Inl x, m)"
    with RaiseException_ok [OF assms(1), of x a] assms(3) show thesis by (auto simp: WriteMem_def)
  qed
  let ?mem = "put_mem (mainMemory m) (unat p) (store_bytes_of v sz)"
  have m1: "m1 = m'\<lparr>mainMemory := ?mem\<rparr>"
    using trans [OF sym [OF assms(3)] WriteMem_hit [OF t m assms(2) r, of v]]
    by (simp only: option.inject prod.inject simp_thms)
  note fr = translated_frame [OF t m assms(2)]
  have up: "int (unat p) = uint p" by simp
  have fit: "unat p + length (store_bytes_of v sz) \<le> length (mainMemory m)"
    using fr(4) [unfolded fr(1) fr(5)] length_store_bytes [OF assms(2), of v] up by linarith
  have fit': "unat p + nat sz \<le> length (mainMemory m)"
    using fit length_store_bytes [OF assms(2), of v] by linarith
  from Translate_again [OF m assms(2) r m1] fit obtain m2 where
    m2: "Translate m1 a sz False = Some (Inr p, m2)" "translated m1 a sz False p m2" by auto
  have ok1: "mem_ok m1" using fr(1,3) fit m1 by (auto simp: mem_ok_def split: option.splits)
  have "ReadMem m1 a sz = Some (Some (cut v sz), m2)"
    using ReadMem_hit [OF m2(2) ok1 assms(2) m2(1)] load_store [OF assms(2) fit', where m = m' and v = v] m1 by simp
  moreover have "mainMemory m2 = mainMemory m1" using translated_frame(1) [OF m2(2) ok1 assms(2)] .
  moreover have "\<exists>i e. entry_for m (a div 128) i e \<and> \<not> readOnly e \<and>
       (\<forall>j < length (mainMemory m). mainMemory m1 ! j \<noteq> mainMemory m ! j \<longrightarrow> int j div 128 = uint (physicalPage e))"
  proof -
    obtain i e where e: "entry_for m (a div 128) i e" "\<not> readOnly e" "aligned a sz"
        "uint p = uint (physicalPage e) * 128 + uint a mod 128" using t by (auto simp: translated_def)
    have off: "0 \<le> uint a mod 128" "uint a mod 128 + sz \<le> 128" using aligned_offset [OF e(3) assms(2)] by simp_all
    have "int j div 128 = uint (physicalPage e)" if "mainMemory m1 ! j \<noteq> mainMemory m ! j" for j
    proof -
      have "mainMemory m1 ! j = ?mem ! j" by (simp add: m1)
      then have "\<not> (j < unat p \<or> unat p + length (store_bytes_of v sz) \<le> j)"
        using put_mem_other [OF fit, of j] that by metis
      then have "uint p \<le> int j" "int j < uint p + sz"
        using length_store_bytes [OF assms(2), of v] up by linarith+
      then have "uint (physicalPage e) * 128 \<le> int j" "int j < uint (physicalPage e) * 128 + 128"
        using e(4) off by linarith+
      then show ?thesis by (rule page_of)
    qed
    with e show ?thesis by blast
  qed
  ultimately show ?thesis by blast
qed


text \<open>A machine with one page of memory mapped, as the witnesses use it.\<close>

definition one_page :: machine where
  "one_page = (Machine_new False [])\<lparr>pageTable := Some [\<lparr>virtualPage = 0, physicalPage = 3, valid = True,
     readOnly = False, te_use = False, dirty = False\<rparr>], pageTableSize := 1\<rparr>"

lemma one_page_ok: "machine_ok one_page"
  by (simp add: machine_ok_def regs_ok_def mem_ok_def one_page_def Machine_new_def MemorySize_def
      NumPhysPages_def PageSize_def)

lemma one_page_store: "\<exists>m1. WriteMem one_page 8 4 v = Some (True, m1)"
proof -
  have al: "(8 :: u32) AND 3 = 0" "(8 :: u32) div 128 = 0" "(8 :: u32) mod 128 = 8" by simp_all
  have "Translate one_page 8 4 True \<noteq> Some (Inl x, one_page)" for x
    by (simp add: one_page_def Machine_new_def Translate_def PageSize_def find_entry_def arr_get_def the_table_def
        NumPhysPages_def set_entry_def arr_set_def MemorySize_def al)
  with Translate_cases [of one_page 4 8 True] one_page_ok obtain p m' where
    r: "Translate one_page 8 4 True = Some (Inr p, m')" and t: "translated one_page 8 4 True p m'"
    by (auto simp: machine_ok_def)
  have "mem_ok one_page" using one_page_ok by (simp add: machine_ok_def)
  from WriteMem_hit [OF t this _ r, of v] show ?thesis by simp
qed

lemma WriteMem_ReadMem_witness:
  "\<exists>m1 m2. WriteMem one_page 8 4 5 = Some (True, m1) \<and> ReadMem m1 8 4 = Some (Some 5, m2)"
proof -
  obtain m1 where m1: "WriteMem one_page 8 4 5 = Some (True, m1)" using one_page_store by blast
  from WriteMem_ReadMem [OF one_page_ok _ this] show ?thesis using m1 by (auto simp: cut_def)
qed

end
