(* ===== verification/Mips.thy ===== *)
theory Mips
  imports Machine
begin

text \<open>
  \<open>machine/mipssim.h\<close> and \<open>machine/mipssim.cc\<close>: the decoder, the double-word multiplication
  and one definition for each instruction of the simulator's \<open>switch\<close>, put together in
  \<open>OneInstruction\<close>. A step that traps leaves the exception in \<open>trap\<close> and the program counters
  where they were. The build has \<open>SIM_FIX\<close>.
\<close>

unbundle bit_operations_syntax

subsection \<open>Decoding\<close>

datatype (plugins only: code size) OpCode =
    OP_ADD | OP_ADDI | OP_ADDIU | OP_ADDU | OP_AND | OP_ANDI | OP_BEQ | OP_BGEZ | OP_BGEZAL
  | OP_BGTZ | OP_BLEZ | OP_BLTZ | OP_BLTZAL | OP_BNE | OP_DIV | OP_DIVU | OP_J | OP_JAL | OP_JALR
  | OP_JR | OP_LB | OP_LBU | OP_LH | OP_LHU | OP_LUI | OP_LW | OP_LWL | OP_LWR | OP_MFHI | OP_MFLO
  | OP_MTHI | OP_MTLO | OP_MULT | OP_MULTU | OP_NOR | OP_OR | OP_ORI | OP_RFE | OP_SB | OP_SH
  | OP_SLL | OP_SLLV | OP_SLT | OP_SLTI | OP_SLTIU | OP_SLTU | OP_SRA | OP_SRAV | OP_SRL | OP_SRLV
  | OP_SUB | OP_SUBU | OP_SW | OP_SWL | OP_SWR | OP_XOR | OP_XORI | OP_SYSCALL | OP_UNIMP | OP_RES
  | SPECIAL | BCOND

datatype Format = IFMT | JFMT | RFMT

definition opTable :: "(OpCode \<times> Format) list" where
  "opTable = [
    (SPECIAL, RFMT), (BCOND, IFMT), (OP_J, JFMT), (OP_JAL, JFMT),
    (OP_BEQ, IFMT), (OP_BNE, IFMT), (OP_BLEZ, IFMT), (OP_BGTZ, IFMT),
    (OP_ADDI, IFMT), (OP_ADDIU, IFMT), (OP_SLTI, IFMT), (OP_SLTIU, IFMT),
    (OP_ANDI, IFMT), (OP_ORI, IFMT), (OP_XORI, IFMT), (OP_LUI, IFMT),
    (OP_UNIMP, IFMT), (OP_UNIMP, IFMT), (OP_UNIMP, IFMT), (OP_UNIMP, IFMT),
    (OP_RES, IFMT), (OP_RES, IFMT), (OP_RES, IFMT), (OP_RES, IFMT),
    (OP_RES, IFMT), (OP_RES, IFMT), (OP_RES, IFMT), (OP_RES, IFMT),
    (OP_RES, IFMT), (OP_RES, IFMT), (OP_RES, IFMT), (OP_RES, IFMT),
    (OP_LB, IFMT), (OP_LH, IFMT), (OP_LWL, IFMT), (OP_LW, IFMT),
    (OP_LBU, IFMT), (OP_LHU, IFMT), (OP_LWR, IFMT), (OP_RES, IFMT),
    (OP_SB, IFMT), (OP_SH, IFMT), (OP_SWL, IFMT), (OP_SW, IFMT),
    (OP_RES, IFMT), (OP_RES, IFMT), (OP_SWR, IFMT), (OP_RES, IFMT),
    (OP_UNIMP, IFMT), (OP_UNIMP, IFMT), (OP_UNIMP, IFMT), (OP_UNIMP, IFMT),
    (OP_RES, IFMT), (OP_RES, IFMT), (OP_RES, IFMT), (OP_RES, IFMT),
    (OP_UNIMP, IFMT), (OP_UNIMP, IFMT), (OP_UNIMP, IFMT), (OP_UNIMP, IFMT),
    (OP_RES, IFMT), (OP_RES, IFMT), (OP_RES, IFMT), (OP_RES, IFMT)]"

definition specialTable :: "OpCode list" where
  "specialTable = [
    OP_SLL, OP_RES, OP_SRL, OP_SRA, OP_SLLV, OP_RES, OP_SRLV, OP_SRAV,
    OP_JR, OP_JALR, OP_RES, OP_RES, OP_SYSCALL, OP_UNIMP, OP_RES, OP_RES,
    OP_MFHI, OP_MTHI, OP_MFLO, OP_MTLO, OP_RES, OP_RES, OP_RES, OP_RES,
    OP_MULT, OP_MULTU, OP_DIV, OP_DIVU, OP_RES, OP_RES, OP_RES, OP_RES,
    OP_ADD, OP_ADDU, OP_SUB, OP_SUBU, OP_AND, OP_OR, OP_XOR, OP_NOR,
    OP_RES, OP_RES, OP_SLT, OP_SLTU, OP_RES, OP_RES, OP_RES, OP_RES,
    OP_RES, OP_RES, OP_RES, OP_RES, OP_RES, OP_RES, OP_RES, OP_RES,
    OP_RES, OP_RES, OP_RES, OP_RES, OP_RES, OP_RES, OP_RES, OP_RES]"

definition SIGN_BIT :: u32 where "SIGN_BIT = 0x80000000"
definition R31 :: int where "R31 = 31"

definition IndexToAddr :: "u32 \<Rightarrow> u32" where
  "IndexToAddr x = push_bit 2 x"

record Instruction =
  i_value :: u32
  opCode :: OpCode
  rs :: int
  rt :: int
  rd :: int
  extra :: u32

definition decode_extra :: "Format \<Rightarrow> u32 \<Rightarrow> u32" where
  "decode_extra format v =
     (case format of
        IFMT \<Rightarrow> let e = v AND 0xffff in if e AND 0x8000 \<noteq> 0 then e OR 0xffff0000 else e
      | RFMT \<Rightarrow> drop_bit 6 v AND 0x1f
      | JFMT \<Rightarrow> v AND 0x3ffffff)"

definition decode_op :: "OpCode \<Rightarrow> u32 \<Rightarrow> OpCode option" where
  "decode_op op v =
     (if op = SPECIAL then arr_get specialTable (uint (v AND 0x3f))
      else if op = BCOND then
        (let i = v AND 0x1f0000 in
         Some (if i = 0 then OP_BLTZ else if i = 0x10000 then OP_BGEZ
               else if i = 0x100000 then OP_BLTZAL else if i = 0x110000 then OP_BGEZAL
               else OP_UNIMP))
      else Some op)"

definition Decode :: "u32 \<Rightarrow> Instruction option" where
  "Decode v = do {
     (op, format) \<leftarrow> arr_get opTable (uint (drop_bit 26 v AND 0x3f));
     opc \<leftarrow> decode_op op v;
     Some \<lparr>i_value = v, opCode = opc,
           rs = uint (drop_bit 21 v AND 0x1f), rt = uint (drop_bit 16 v AND 0x1f),
           rd = uint (drop_bit 11 v AND 0x1f), extra = decode_extra format v\<rparr> }"

subsection \<open>Multiplication\<close>

text \<open>The loop over the bits of \<open>a\<close>: \<open>a\<close>, the shifted \<open>b\<close> and the sum, both double words.\<close>

fun Mult_loop :: "nat \<Rightarrow> u32 \<Rightarrow> u32 \<Rightarrow> u32 \<Rightarrow> u32 \<Rightarrow> u32 \<Rightarrow> u32 \<times> u32" where
  "Mult_loop 0 a bHi bLo hi lo = (hi, lo)"
| "Mult_loop (Suc n) a bHi bLo hi lo =
     (let lo' = (if a AND 1 \<noteq> 0 then lo + bLo else lo);
          hi' = (if a AND 1 \<noteq> 0 then (if lo' < bLo then hi + 1 else hi) + bHi else hi) in
      if a AND 1 \<noteq> 0 \<and> a AND 0xfffffffe = 0 then (hi', lo')
      else Mult_loop n (signed_drop_bit 1 a)
             (if bLo AND 0x80000000 \<noteq> 0 then push_bit 1 bHi OR 1 else push_bit 1 bHi)
             (push_bit 1 bLo) hi' lo')"

definition Mult :: "u32 \<Rightarrow> u32 \<Rightarrow> bool \<Rightarrow> u32 \<times> u32" where
  "Mult a b signedArith =
     (if a = 0 \<or> b = 0 then (0, 0)
      else
        let negative = (signedArith \<and> (sint a < 0) \<noteq> (sint b < 0));
            a = (if signedArith \<and> sint a < 0 then - a else a);
            b = (if signedArith \<and> sint b < 0 then - b else b);
            (hi, lo) = Mult_loop 32 a 0 b 0 0 in
        if negative then
          (let hi = NOT hi; lo = NOT lo + 1 in if lo = 0 then (hi + 1, lo) else (hi, lo))
        else (hi, lo))"

subsection \<open>How an instruction ends\<close>

text \<open>
  Either the instruction completed, with the value of \<open>pcAfter\<close> and the delayed load it left
  for the end of the step (\<open>nextLoadReg\<close>, \<open>nextLoadValue\<close>), or it returned early (\<open>None\<close>).
\<close>

type_synonym ending = "(u32 \<times> int \<times> u32) option"
type_synonym exec = "u32 \<Rightarrow> Instruction \<Rightarrow> machine \<Rightarrow> (ending \<times> machine) option"

definition go :: "u32 \<Rightarrow> machine \<Rightarrow> (ending \<times> machine) option" where
  "go pcAfter m = Some (Some (pcAfter, 0, 0), m)"

definition load :: "u32 \<Rightarrow> int \<Rightarrow> u32 \<Rightarrow> machine \<Rightarrow> (ending \<times> machine) option" where
  "load pcAfter r v m = Some (Some (pcAfter, r, v), m)"

definition raise :: "ExceptionType \<Rightarrow> u32 \<Rightarrow> machine \<Rightarrow> (ending \<times> machine) option" where
  "raise e a m = do { m \<leftarrow> RaiseException e a m; Some (None, m) }"

text \<open>Operations on two registers into \<open>rd\<close>, on a register and the immediate into \<open>rt\<close>, shifts.\<close>

definition reg3 :: "(u32 \<Rightarrow> u32 \<Rightarrow> u32) \<Rightarrow> exec" where
  "reg3 f pc i m = do { a \<leftarrow> get_reg m (rs i); b \<leftarrow> get_reg m (rt i); m \<leftarrow> set_reg m (rd i) (f a b); go pc m }"

definition imm2 :: "(u32 \<Rightarrow> u32 \<Rightarrow> u32) \<Rightarrow> exec" where
  "imm2 f pc i m = do { a \<leftarrow> get_reg m (rs i); m \<leftarrow> set_reg m (rt i) (f a (extra i)); go pc m }"

definition shift_imm :: "(u32 \<Rightarrow> nat \<Rightarrow> u32) \<Rightarrow> exec" where
  "shift_imm f pc i m = do { b \<leftarrow> get_reg m (rt i); m \<leftarrow> set_reg m (rd i) (f b (unat (extra i))); go pc m }"

definition shift_reg :: "(u32 \<Rightarrow> nat \<Rightarrow> u32) \<Rightarrow> exec" where
  "shift_reg f pc i m = do {
     a \<leftarrow> get_reg m (rs i); b \<leftarrow> get_reg m (rt i);
     m \<leftarrow> set_reg m (rd i) (f b (unat (a AND 0x1f))); go pc m }"

definition branch_if :: "bool \<Rightarrow> exec" where
  "branch_if c pc i m =
     (if c then do { n \<leftarrow> get_reg m NextPCReg; go (n + IndexToAddr (extra i)) m } else go pc m)"

definition link_to :: "int \<Rightarrow> machine \<Rightarrow> machine option" where
  "link_to r m = do { n \<leftarrow> get_reg m NextPCReg; set_reg m r (n + 4) }"

definition addr_of :: "Instruction \<Rightarrow> machine \<Rightarrow> u32 option" where
  "addr_of i m = do { a \<leftarrow> get_reg m (rs i); Some (a + extra i) }"

subsection \<open>The instructions\<close>

definition exec_ADD :: exec where
  "exec_ADD pc i m = do {
     a \<leftarrow> get_reg m (rs i); b \<leftarrow> get_reg m (rt i);
     let sum = a + b;
     if (a XOR b) AND SIGN_BIT = 0 \<and> (a XOR sum) AND SIGN_BIT \<noteq> 0 then raise OverflowException 0 m
     else do { m \<leftarrow> set_reg m (rd i) sum; go pc m } }"

definition exec_ADDI :: exec where
  "exec_ADDI pc i m = do {
     a \<leftarrow> get_reg m (rs i);
     let sum = a + extra i;
     if (a XOR extra i) AND SIGN_BIT = 0 \<and> (extra i XOR sum) AND SIGN_BIT \<noteq> 0
     then raise OverflowException 0 m
     else do { m \<leftarrow> set_reg m (rt i) sum; go pc m } }"

definition exec_ADDIU :: exec where "exec_ADDIU = imm2 (+)"
definition exec_ADDU :: exec where "exec_ADDU = reg3 (+)"
definition exec_AND :: exec where "exec_AND = reg3 (AND)"
definition exec_ANDI :: exec where "exec_ANDI = imm2 (\<lambda>a e. a AND (e AND 0xffff))"

definition exec_BEQ :: exec where
  "exec_BEQ pc i m = do { a \<leftarrow> get_reg m (rs i); b \<leftarrow> get_reg m (rt i); branch_if (a = b) pc i m }"

definition exec_BGEZ :: exec where
  "exec_BGEZ pc i m = do { a \<leftarrow> get_reg m (rs i); branch_if (a AND SIGN_BIT = 0) pc i m }"

definition exec_BGEZAL :: exec where
  "exec_BGEZAL pc i m = do { m \<leftarrow> link_to R31 m; exec_BGEZ pc i m }"

definition exec_BGTZ :: exec where
  "exec_BGTZ pc i m = do { a \<leftarrow> get_reg m (rs i); branch_if (sint a > 0) pc i m }"

definition exec_BLEZ :: exec where
  "exec_BLEZ pc i m = do { a \<leftarrow> get_reg m (rs i); branch_if (sint a \<le> 0) pc i m }"

definition exec_BLTZ :: exec where
  "exec_BLTZ pc i m = do { a \<leftarrow> get_reg m (rs i); branch_if (a AND SIGN_BIT \<noteq> 0) pc i m }"

definition exec_BLTZAL :: exec where
  "exec_BLTZAL pc i m = do { m \<leftarrow> link_to R31 m; exec_BLTZ pc i m }"

definition exec_BNE :: exec where
  "exec_BNE pc i m = do { a \<leftarrow> get_reg m (rs i); b \<leftarrow> get_reg m (rt i); branch_if (a \<noteq> b) pc i m }"

text \<open>The quotient of the least \<open>int\<close> by \<open>-1\<close> does not fit: the host stops on it.\<close>

definition exec_DIV :: exec where
  "exec_DIV pc i m = do {
     a \<leftarrow> get_reg m (rs i); b \<leftarrow> get_reg m (rt i);
     if b = 0 then do { m \<leftarrow> set_reg m LoReg 0; m \<leftarrow> set_reg m HiReg 0; go pc m }
     else do {
       ASSERT (\<not> (a = SIGN_BIT \<and> b = -1));
       m \<leftarrow> set_reg m LoReg (word_of_int (sint a sdiv sint b));
       m \<leftarrow> set_reg m HiReg (word_of_int (sint a smod sint b));
       go pc m } }"

definition exec_DIVU :: exec where
  "exec_DIVU pc i m = do {
     a \<leftarrow> get_reg m (rs i); b \<leftarrow> get_reg m (rt i);
     if b = 0 then do { m \<leftarrow> set_reg m LoReg 0; m \<leftarrow> set_reg m HiReg 0; go pc m }
     else do { m \<leftarrow> set_reg m LoReg (a div b); m \<leftarrow> set_reg m HiReg (a mod b); go pc m } }"

definition exec_J :: exec where
  "exec_J pc i m = go (pc AND 0xf0000000 OR IndexToAddr (extra i)) m"

definition exec_JAL :: exec where
  "exec_JAL pc i m = do { m \<leftarrow> link_to R31 m; exec_J pc i m }"

definition exec_JR :: exec where
  "exec_JR pc i m = do { a \<leftarrow> get_reg m (rs i); go a m }"

definition exec_JALR :: exec where
  "exec_JALR pc i m = do { m \<leftarrow> link_to (rd i) m; exec_JR pc i m }"

definition exec_LB_LBU :: exec where
  "exec_LB_LBU pc i m = do {
     tmp \<leftarrow> addr_of i m;
     (r, m) \<leftarrow> ReadMem m tmp 1;
     (case r of None \<Rightarrow> Some (None, m)
      | Some v \<Rightarrow> load pc (rt i)
          (if v AND 0x80 \<noteq> 0 \<and> opCode i = OP_LB then v OR 0xffffff00 else v AND 0xff) m) }"

definition exec_LH_LHU :: exec where
  "exec_LH_LHU pc i m = do {
     tmp \<leftarrow> addr_of i m;
     if tmp AND 1 \<noteq> 0 then raise AddressErrorException tmp m
     else do {
       (r, m) \<leftarrow> ReadMem m tmp 2;
       (case r of None \<Rightarrow> Some (None, m)
        | Some v \<Rightarrow> load pc (rt i)
            (if v AND 0x8000 \<noteq> 0 \<and> opCode i = OP_LH then v OR 0xffff0000 else v AND 0xffff) m) } }"

definition exec_LUI :: exec where
  "exec_LUI pc i m = do { m \<leftarrow> set_reg m (rt i) (push_bit 16 (extra i)); go pc m }"

definition exec_LW :: exec where
  "exec_LW pc i m = do {
     tmp \<leftarrow> addr_of i m;
     if tmp AND 3 \<noteq> 0 then raise AddressErrorException tmp m
     else do {
       (r, m) \<leftarrow> ReadMem m tmp 4;
       (case r of None \<Rightarrow> Some (None, m) | Some v \<Rightarrow> load pc (rt i) v m) } }"

text \<open>What a load into \<open>rt\<close> that is still under way, or else the register, holds.\<close>

definition pending :: "Instruction \<Rightarrow> machine \<Rightarrow> u32 option" where
  "pending i m = do {
     l \<leftarrow> get_reg m LoadReg;
     if sint l = rt i then get_reg m LoadValueReg else get_reg m (rt i) }"

definition merge_LWL :: "u32 \<Rightarrow> u32 \<Rightarrow> u32 \<Rightarrow> u32" where
  "merge_LWL k old v =
     (if k = 0 then v
      else if k = 1 then old AND 0xff OR push_bit 8 v
      else if k = 2 then old AND 0xffff OR push_bit 16 v
      else old AND 0xffffff OR push_bit 24 v)"

definition exec_LWL :: exec where
  "exec_LWL pc i m = do {
     tmp \<leftarrow> addr_of i m;
     let byt = tmp AND 3;
     (r, m) \<leftarrow> ReadMem m (tmp - byt) 4;
     (case r of None \<Rightarrow> Some (None, m)
      | Some v \<Rightarrow> do { old \<leftarrow> pending i m; load pc (rt i) (merge_LWL (3 - byt) old v) m }) }"

definition merge_LWR :: "u32 \<Rightarrow> u32 \<Rightarrow> u32 \<Rightarrow> u32" where
  "merge_LWR k old v =
     (if k = 0 then old AND 0xffffff00 OR (signed_drop_bit 24 v AND 0xff)
      else if k = 1 then old AND 0xffff0000 OR (signed_drop_bit 16 v AND 0xffff)
      else if k = 2 then old AND 0xff000000 OR (signed_drop_bit 8 v AND 0xffffff)
      else v)"

definition exec_LWR :: exec where
  "exec_LWR pc i m = do {
     tmp \<leftarrow> addr_of i m;
     let byt = tmp AND 3;
     (r, m) \<leftarrow> ReadMem m (tmp - byt) 4;
     (case r of None \<Rightarrow> Some (None, m)
      | Some v \<Rightarrow> do { old \<leftarrow> pending i m; load pc (rt i) (merge_LWR (3 - byt) old v) m }) }"

definition exec_MFHI :: exec where
  "exec_MFHI pc i m = do { v \<leftarrow> get_reg m HiReg; m \<leftarrow> set_reg m (rd i) v; go pc m }"
definition exec_MFLO :: exec where
  "exec_MFLO pc i m = do { v \<leftarrow> get_reg m LoReg; m \<leftarrow> set_reg m (rd i) v; go pc m }"
definition exec_MTHI :: exec where
  "exec_MTHI pc i m = do { v \<leftarrow> get_reg m (rs i); m \<leftarrow> set_reg m HiReg v; go pc m }"
definition exec_MTLO :: exec where
  "exec_MTLO pc i m = do { v \<leftarrow> get_reg m (rs i); m \<leftarrow> set_reg m LoReg v; go pc m }"

definition exec_mult :: "bool \<Rightarrow> exec" where
  "exec_mult signedArith pc i m = do {
     a \<leftarrow> get_reg m (rs i); b \<leftarrow> get_reg m (rt i);
     let (hi, lo) = Mult a b signedArith;
     m \<leftarrow> set_reg m HiReg hi; m \<leftarrow> set_reg m LoReg lo; go pc m }"

definition exec_MULT :: exec where "exec_MULT = exec_mult True"
definition exec_MULTU :: exec where "exec_MULTU = exec_mult False"
definition exec_NOR :: exec where "exec_NOR = reg3 (\<lambda>a b. NOT (a OR b))"
definition exec_OR :: exec where "exec_OR = reg3 (OR)"
definition exec_ORI :: exec where "exec_ORI = imm2 (\<lambda>a e. a OR (e AND 0xffff))"

definition exec_store :: "int \<Rightarrow> exec" where
  "exec_store sz pc i m = do {
     a \<leftarrow> addr_of i m; v \<leftarrow> get_reg m (rt i);
     (ok, m) \<leftarrow> WriteMem m a sz v;
     if \<not> ok then Some (None, m) else go pc m }"

definition exec_SB :: exec where "exec_SB = exec_store 1"
definition exec_SH :: exec where "exec_SH = exec_store 2"
definition exec_SW :: exec where "exec_SW = exec_store 4"

definition exec_SLL :: exec where "exec_SLL = shift_imm (\<lambda>w n. push_bit n w)"
definition exec_SLLV :: exec where "exec_SLLV = shift_reg (\<lambda>w n. push_bit n w)"
definition exec_SLT :: exec where "exec_SLT = reg3 (\<lambda>a b. if sint a < sint b then 1 else 0)"
definition exec_SLTI :: exec where "exec_SLTI = imm2 (\<lambda>a e. if sint a < sint e then 1 else 0)"
definition exec_SLTIU :: exec where "exec_SLTIU = imm2 (\<lambda>a e. if a < e then 1 else 0)"
definition exec_SLTU :: exec where "exec_SLTU = reg3 (\<lambda>a b. if a < b then 1 else 0)"
definition exec_SRA :: exec where "exec_SRA = shift_imm (\<lambda>w n. signed_drop_bit n w)"
definition exec_SRAV :: exec where "exec_SRAV = shift_reg (\<lambda>w n. signed_drop_bit n w)"
definition exec_SRL :: exec where "exec_SRL = shift_imm (\<lambda>w n. signed_drop_bit n w)"
definition exec_SRLV :: exec where "exec_SRLV = shift_reg (\<lambda>w n. signed_drop_bit n w)"

definition exec_SUB :: exec where
  "exec_SUB pc i m = do {
     a \<leftarrow> get_reg m (rs i); b \<leftarrow> get_reg m (rt i);
     let diff = a - b;
     if (a XOR b) AND SIGN_BIT \<noteq> 0 \<and> (a XOR diff) AND SIGN_BIT \<noteq> 0 then raise OverflowException 0 m
     else do { m \<leftarrow> set_reg m (rd i) diff; go pc m } }"

definition exec_SUBU :: exec where "exec_SUBU = reg3 (-)"

definition merge_SWL :: "u32 \<Rightarrow> u32 \<Rightarrow> u32 \<Rightarrow> u32" where
  "merge_SWL k v r =
     (if k = 0 then r
      else if k = 1 then v AND 0xff000000 OR (signed_drop_bit 8 r AND 0xffffff)
      else if k = 2 then v AND 0xffff0000 OR (signed_drop_bit 16 r AND 0xffff)
      else v AND 0xffffff00 OR (signed_drop_bit 24 r AND 0xff))"

definition exec_SWL :: exec where
  "exec_SWL pc i m = do {
     tmp \<leftarrow> addr_of i m;
     let byt = tmp AND 3;
     (r, m) \<leftarrow> ReadMem m (tmp - byt) 4;
     (case r of None \<Rightarrow> Some (None, m)
      | Some v \<Rightarrow> do {
          b \<leftarrow> get_reg m (rt i);
          (ok, m) \<leftarrow> WriteMem m (tmp - byt) 4 (merge_SWL (3 - byt) v b);
          if \<not> ok then Some (None, m) else go pc m }) }"

definition merge_SWR :: "u32 \<Rightarrow> u32 \<Rightarrow> u32 \<Rightarrow> u32" where
  "merge_SWR k v r =
     (if k = 0 then v AND 0xffffff OR push_bit 24 r
      else if k = 1 then v AND 0xffff OR push_bit 16 r
      else if k = 2 then v AND 0xff OR push_bit 8 r
      else r)"

definition exec_SWR :: exec where
  "exec_SWR pc i m = do {
     tmp \<leftarrow> addr_of i m;
     let byt = tmp AND 3;
     (r, m) \<leftarrow> ReadMem m (tmp - byt) 4;
     (case r of None \<Rightarrow> Some (None, m)
      | Some v \<Rightarrow> do {
          b \<leftarrow> get_reg m (rt i);
          (ok, m) \<leftarrow> WriteMem m (tmp - byt) 4 (merge_SWR (3 - byt) v b);
          if \<not> ok then Some (None, m) else go pc m }) }"

definition exec_SYSCALL :: exec where "exec_SYSCALL pc i m = raise SyscallException 0 m"
definition exec_XOR :: exec where "exec_XOR = reg3 (XOR)"
definition exec_XORI :: exec where "exec_XORI = imm2 (\<lambda>a e. a XOR (e AND 0xffff))"
definition exec_ILLEGAL :: exec where "exec_ILLEGAL pc i m = raise IllegalInstrException 0 m"

text \<open>The \<open>switch\<close>; its \<open>default\<close> is an assertion that fails.\<close>

fun exec_op :: "OpCode \<Rightarrow> exec" where
  "exec_op OP_ADD = exec_ADD"
| "exec_op OP_ADDI = exec_ADDI"
| "exec_op OP_ADDIU = exec_ADDIU"
| "exec_op OP_ADDU = exec_ADDU"
| "exec_op OP_AND = exec_AND"
| "exec_op OP_ANDI = exec_ANDI"
| "exec_op OP_BEQ = exec_BEQ"
| "exec_op OP_BGEZ = exec_BGEZ"
| "exec_op OP_BGEZAL = exec_BGEZAL"
| "exec_op OP_BGTZ = exec_BGTZ"
| "exec_op OP_BLEZ = exec_BLEZ"
| "exec_op OP_BLTZ = exec_BLTZ"
| "exec_op OP_BLTZAL = exec_BLTZAL"
| "exec_op OP_BNE = exec_BNE"
| "exec_op OP_DIV = exec_DIV"
| "exec_op OP_DIVU = exec_DIVU"
| "exec_op OP_J = exec_J"
| "exec_op OP_JAL = exec_JAL"
| "exec_op OP_JALR = exec_JALR"
| "exec_op OP_JR = exec_JR"
| "exec_op OP_LB = exec_LB_LBU"
| "exec_op OP_LBU = exec_LB_LBU"
| "exec_op OP_LH = exec_LH_LHU"
| "exec_op OP_LHU = exec_LH_LHU"
| "exec_op OP_LUI = exec_LUI"
| "exec_op OP_LW = exec_LW"
| "exec_op OP_LWL = exec_LWL"
| "exec_op OP_LWR = exec_LWR"
| "exec_op OP_MFHI = exec_MFHI"
| "exec_op OP_MFLO = exec_MFLO"
| "exec_op OP_MTHI = exec_MTHI"
| "exec_op OP_MTLO = exec_MTLO"
| "exec_op OP_MULT = exec_MULT"
| "exec_op OP_MULTU = exec_MULTU"
| "exec_op OP_NOR = exec_NOR"
| "exec_op OP_OR = exec_OR"
| "exec_op OP_ORI = exec_ORI"
| "exec_op OP_RFE = (\<lambda>pc i m. None)"
| "exec_op OP_SB = exec_SB"
| "exec_op OP_SH = exec_SH"
| "exec_op OP_SLL = exec_SLL"
| "exec_op OP_SLLV = exec_SLLV"
| "exec_op OP_SLT = exec_SLT"
| "exec_op OP_SLTI = exec_SLTI"
| "exec_op OP_SLTIU = exec_SLTIU"
| "exec_op OP_SLTU = exec_SLTU"
| "exec_op OP_SRA = exec_SRA"
| "exec_op OP_SRAV = exec_SRAV"
| "exec_op OP_SRL = exec_SRL"
| "exec_op OP_SRLV = exec_SRLV"
| "exec_op OP_SUB = exec_SUB"
| "exec_op OP_SUBU = exec_SUBU"
| "exec_op OP_SW = exec_SW"
| "exec_op OP_SWL = exec_SWL"
| "exec_op OP_SWR = exec_SWR"
| "exec_op OP_XOR = exec_XOR"
| "exec_op OP_XORI = exec_XORI"
| "exec_op OP_SYSCALL = exec_SYSCALL"
| "exec_op OP_UNIMP = exec_ILLEGAL"
| "exec_op OP_RES = exec_ILLEGAL"
| "exec_op SPECIAL = (\<lambda>pc i m. None)"
| "exec_op BCOND = (\<lambda>pc i m. None)"

definition finish_step :: "ending \<Rightarrow> machine \<Rightarrow> machine option" where
  "finish_step e m =
     (case e of None \<Rightarrow> Some m
      | Some (pcAfter, nextLoadReg, nextLoadValue) \<Rightarrow> do {
          m \<leftarrow> DelayedLoad (word_of_int nextLoadReg) nextLoadValue m;
          pc \<leftarrow> get_reg m PCReg;
          m \<leftarrow> set_reg m PrevPCReg pc;
          n \<leftarrow> get_reg m NextPCReg;
          m \<leftarrow> set_reg m PCReg n;
          set_reg m NextPCReg pcAfter })"

definition OneInstruction :: "machine \<Rightarrow> machine option" where
  "OneInstruction m = do {
     let m = m\<lparr>trap := None\<rparr>;
     pc \<leftarrow> get_reg m PCReg;
     (r, m) \<leftarrow> ReadMem m pc 4;
     (case r of None \<Rightarrow> Some m
      | Some raw \<Rightarrow> do {
          instr \<leftarrow> Decode raw;
          n \<leftarrow> get_reg m NextPCReg;
          (e, m) \<leftarrow> exec_op (opCode instr) (n + 4) instr m;
          finish_step e m }) }"

end
