(* ===== verification/Mips_Correct.thy ===== *)
theory Mips_Correct
  imports Mips
begin

text \<open>
  What the simulated processor does right: every word decodes to an instruction the \<open>switch\<close>
  has a case for, no instruction but one stops the simulator, register 0 reads as zero after
  every step, the multiplication is the double-word product, the overflow tests are exact, and
  the unaligned load and store pairs move the word they should. \<open>SRL\<close> is shown to shift in the
  sign bit.
\<close>

unbundle bit_operations_syntax

lemma nat_less_numeral: "0 \<le> i \<Longrightarrow> i < numeral k \<Longrightarrow> nat i < numeral k"
  by (simp add: nat_less_iff)

subsection \<open>Decoding\<close>

lemma and_mask_less: "uint (w AND mask n) < 2 ^ n" for w :: u32
proof -
  have "w AND mask n = take_bit n w" by (simp add: take_bit_eq_mask)
  then show ?thesis by (simp add: unsigned_take_bit_eq)
qed

lemma masks: "(0x3f :: u32) = mask 6" "(0x1f :: u32) = mask 5"
  by (simp_all add: mask_eq_exp_minus_1)

lemma and_3f: "uint (w AND 0x3f) < 64" and and_1f: "uint (w AND 0x1f) < 32" for w :: u32
  using and_mask_less [of w 6] and_mask_less [of w 5] by (simp_all add: masks)

lemma length_tables: "length opTable = 64" "length specialTable = 64"
  by (simp_all add: opTable_def specialTable_def)

lemma specialTable_ops: "set specialTable \<inter> {SPECIAL, BCOND, OP_RFE} = {}"
  by (simp add: specialTable_def)

lemma opTable_ops: "OP_RFE \<notin> fst ` set opTable"
  by (simp add: opTable_def)

definition instr_ok :: "Instruction \<Rightarrow> bool" where
  "instr_ok i \<longleftrightarrow> opCode i \<notin> {SPECIAL, BCOND, OP_RFE} \<and> 0 \<le> rs i \<and> rs i < 32 \<and> 0 \<le> rt i \<and> rt i < 32 \<and>
     0 \<le> rd i \<and> rd i < 32"

lemma decode_op_ok:
  assumes "op \<noteq> OP_RFE"
  shows "\<exists>opc. decode_op op v = Some opc \<and> opc \<notin> {SPECIAL, BCOND, OP_RFE}"
proof (cases "op = SPECIAL")
  case True
  have n: "nat (uint (v AND 0x3f)) < length specialTable"
    using and_3f [of v] length_tables(2) by (metis nat_less_numeral uint_nonneg)
  then have "specialTable ! nat (uint (v AND 0x3f)) \<in> set specialTable" by (rule nth_mem)
  moreover have "decode_op op v = Some (specialTable ! nat (uint (v AND 0x3f)))"
    using True and_3f [of v] by (simp add: decode_op_def arr_get_def length_tables)
  ultimately show ?thesis using specialTable_ops by blast
next
  case False
  with assms show ?thesis by (auto simp: decode_op_def Let_def)
qed

lemma Decode_ok: "\<exists>i. Decode v = Some i \<and> instr_ok i"
proof -
  let ?k = "uint (drop_bit 26 v AND 0x3f)"
  have n: "nat ?k < length opTable"
    using and_3f length_tables(1) by (metis nat_less_numeral uint_nonneg)
  obtain op format where of: "opTable ! nat ?k = (op, format)" by (cases "opTable ! nat ?k")
  have g: "arr_get opTable ?k = Some (op, format)"
    using of and_3f [of "drop_bit 26 v"] by (simp add: arr_get_def length_tables)
  have "op \<in> fst ` set opTable" using nth_mem [OF n] of by (metis fst_conv image_eqI)
  then have "op \<noteq> OP_RFE" using opTable_ops by blast
  then obtain opc where "decode_op op v = Some opc" "opc \<notin> {SPECIAL, BCOND, OP_RFE}"
    using decode_op_ok by blast
  with g and_1f show ?thesis by (simp add: Decode_def instr_ok_def)
qed

subsection \<open>Every instruction keeps a well-formed machine\<close>

definition ending_ok :: "ending \<Rightarrow> machine \<Rightarrow> bool" where
  "ending_ok e m \<longleftrightarrow> (case e of None \<Rightarrow> registers m ! 0 = 0 \<and> trap m \<noteq> None
     | Some (pc, r, v) \<Rightarrow> 0 \<le> r \<and> r < 32)"

definition runs :: "(ending \<times> machine) option \<Rightarrow> bool" where
  "runs x \<longleftrightarrow> (\<exists>e m. x = Some (e, m) \<and> machine_ok m \<and> ending_ok e m)"

lemma ok_length [simp]: "machine_ok m \<Longrightarrow> length (registers m) = 40"
  by (simp add: machine_ok_def regs_ok_def)

lemma machine_ok_regs [simp]:
  "machine_ok (m\<lparr>registers := regs\<rparr>) \<longleftrightarrow> length regs = 40 \<and> uint (regs ! 37) < 32 \<and> mem_ok m"
  by (auto simp: machine_ok_def regs_ok_def mem_ok_def split: option.splits)

lemma trap_irrelevant [simp]: "machine_ok (m\<lparr>trap := t\<rparr>) = machine_ok m"
  by (cases "tlb m") (simp_all add: machine_ok_def regs_ok_def mem_ok_def)

lemma ok_37 [simp]: "machine_ok m \<Longrightarrow> uint (registers m ! 37) < 32" and ok_mem [simp]: "machine_ok m \<Longrightarrow> mem_ok m"
  by (simp_all add: machine_ok_def regs_ok_def)

lemma nat_neq_37 [simp]: "r < 32 \<Longrightarrow> nat r \<noteq> 37"
  by linarith

lemma runs_go [simp]: "machine_ok m \<Longrightarrow> runs (go pc m)"
  by (simp add: runs_def go_def ending_ok_def)

lemma runs_load [simp]: "machine_ok m \<Longrightarrow> 0 \<le> r \<Longrightarrow> r < 32 \<Longrightarrow> runs (load pc r v m)"
  by (simp add: runs_def load_def ending_ok_def)

lemma runs_raise [simp]: "machine_ok m \<Longrightarrow> runs (raise e a m)"
proof -
  assume "machine_ok m"
  then obtain m' where "RaiseException e a m = Some m'" "machine_ok m'" "registers m' ! 0 = 0" "trap m' = Some e"
    by (rule RaiseException_R0)
  then show ?thesis by (simp add: runs_def raise_def ending_ok_def)
qed

definition good :: "exec \<Rightarrow> bool" where
  "good f \<longleftrightarrow> (\<forall>pc i m. instr_ok i \<longrightarrow> machine_ok m \<longrightarrow> runs (f pc i m))"

lemma good_reg3: "good (reg3 f)"
  by (auto simp: good_def reg3_def instr_ok_def)

lemma good_imm2: "good (imm2 f)"
  by (auto simp: good_def imm2_def instr_ok_def)

lemma good_shift: "good (shift_imm g)" "good (shift_reg g)"
  by (auto simp: good_def shift_imm_def shift_reg_def instr_ok_def)

lemma runs_branch [simp]: "machine_ok m \<Longrightarrow> runs (branch_if c pc i m)"
  by (simp add: branch_if_def)

lemma link_to_eq [simp]: "machine_ok m \<Longrightarrow> 0 \<le> r \<Longrightarrow> r < 32 \<Longrightarrow>
    link_to r m = Some (m\<lparr>registers := (registers m)[nat r := registers m ! 35 + 4]\<rparr>)"
  by (simp add: link_to_def)


lemma runs_read:
  assumes "machine_ok m" and "sz \<in> {1, 2, 4}" and "\<And>v m'. machine_ok m' \<Longrightarrow> registers m' = registers m \<Longrightarrow> runs (f v m')"
  shows "runs (do { (r, m) \<leftarrow> ReadMem m a sz; (case r of None \<Rightarrow> Some (None, m) | Some v \<Rightarrow> f v m) })"
  using assms(1,2)
proof (rule ReadMem_ok [where a = a])
  fix m' x assume "ReadMem m a sz = Some (None, m')" "machine_ok m'" "registers m' ! 0 = 0" "trap m' = Some x"
  then show ?thesis by (simp add: runs_def ending_ok_def)
next
  fix v m' assume "ReadMem m a sz = Some (Some v, m')" "machine_ok m'" "registers m' = registers m"
  with assms(3) show ?thesis by simp
qed

lemma runs_write:
  assumes "machine_ok m" and "sz \<in> {1, 2, 4}"
  shows "runs (do { (ok, m) \<leftarrow> WriteMem m a sz v; if \<not> ok then Some (None, m) else go pc m })"
  using assms
proof (rule WriteMem_ok [where a = a and v = v])
  fix m' x assume "WriteMem m a sz v = Some (False, m')" "machine_ok m'" "registers m' ! 0 = 0" "trap m' = Some x"
  then show ?thesis by (simp add: runs_def ending_ok_def)
next
  fix m' assume "WriteMem m a sz v = Some (True, m')" "machine_ok m'"
  then show ?thesis by simp
qed

lemmas reg_accesses = instr_ok_def addr_of_def pending_def R31_def

lemma good_arith: "good exec_ADD" "good exec_ADDI" "good exec_SUB"
  by (auto simp: good_def exec_ADD_def exec_ADDI_def exec_SUB_def reg_accesses Let_def)

lemma good_branches:
  "good exec_BEQ" "good exec_BNE" "good exec_BGEZ" "good exec_BGTZ" "good exec_BLEZ" "good exec_BLTZ"
  "good exec_BGEZAL" "good exec_BLTZAL"
  by (auto simp: good_def exec_BEQ_def exec_BNE_def exec_BGEZ_def exec_BGTZ_def exec_BLEZ_def exec_BLTZ_def
      exec_BGEZAL_def exec_BLTZAL_def reg_accesses)

lemma good_jumps: "good exec_J" "good exec_JAL" "good exec_JR" "good exec_JALR" "good exec_LUI"
  by (auto simp: good_def exec_J_def exec_JAL_def exec_JR_def exec_JALR_def exec_LUI_def reg_accesses)

lemma good_hilo: "good exec_MFHI" "good exec_MFLO" "good exec_MTHI" "good exec_MTLO" "good (exec_mult s)" "good exec_DIVU"
  by (auto simp: good_def exec_MFHI_def exec_MFLO_def exec_MTHI_def exec_MTLO_def exec_mult_def exec_DIVU_def
      reg_accesses split_beta Let_def)

lemma good_traps: "good exec_SYSCALL" "good exec_ILLEGAL"
  by (simp_all add: good_def exec_SYSCALL_def exec_ILLEGAL_def)

lemma good_store: "sz \<in> {1, 2, 4} \<Longrightarrow> good (exec_store sz)"
  by (auto simp: good_def exec_store_def reg_accesses intro!: runs_write)

lemma good_loads: "good exec_LB_LBU" "good exec_LH_LHU" "good exec_LW" "good exec_LWL" "good exec_LWR"
  by (auto simp: good_def exec_LB_LBU_def exec_LH_LHU_def exec_LW_def exec_LWL_def exec_LWR_def reg_accesses
      Let_def intro!: runs_read)

lemma good_unaligned_stores: "good exec_SWL" "good exec_SWR"
  by (auto simp: good_def exec_SWL_def exec_SWR_def reg_accesses Let_def intro!: runs_read runs_write)

text \<open>The one division the host cannot do.\<close>

definition div_overflow :: "Instruction \<Rightarrow> machine \<Rightarrow> bool" where
  "div_overflow i m \<longleftrightarrow> opCode i = OP_DIV \<and> registers m ! nat (rs i) = 0x80000000 \<and> registers m ! nat (rt i) = - 1"

lemma DIV_runs:
  assumes "instr_ok i" and "machine_ok m" and "opCode i = OP_DIV"
  shows "if div_overflow i m then exec_DIV pc i m = None else runs (exec_DIV pc i m)"
  using assms by (auto simp: exec_DIV_def instr_ok_def div_overflow_def SIGN_BIT_def)

lemmas exec_abbrevs = exec_ADDIU_def exec_ADDU_def exec_AND_def exec_ANDI_def exec_MULT_def exec_MULTU_def
  exec_NOR_def exec_OR_def exec_ORI_def exec_SB_def exec_SH_def exec_SW_def exec_SLL_def exec_SLLV_def
  exec_SLT_def exec_SLTI_def exec_SLTIU_def exec_SLTU_def exec_SRA_def exec_SRAV_def exec_SRL_def
  exec_SRLV_def exec_SUBU_def exec_XOR_def exec_XORI_def

lemma good_exec_op: "op \<notin> {OP_DIV, SPECIAL, BCOND, OP_RFE} \<Longrightarrow> good (exec_op op)"
  by (cases op) (simp_all add: exec_abbrevs good_reg3 good_imm2 good_shift good_arith good_branches good_jumps
      good_hilo good_traps good_store good_loads good_unaligned_stores)

lemma exec_runs:
  assumes "instr_ok i" and "machine_ok m"
  shows "if div_overflow i m then exec_op (opCode i) pc i m = None else runs (exec_op (opCode i) pc i m)"
proof (cases "opCode i = OP_DIV")
  case True
  with DIV_runs [OF assms True] show ?thesis by simp
next
  case False
  then have "good (exec_op (opCode i))" using assms(1) by (intro good_exec_op) (auto simp: instr_ok_def)
  with False assms show ?thesis by (simp add: good_def div_overflow_def)
qed


subsection \<open>A whole step\<close>

lemma word_reg: "0 \<le> r \<Longrightarrow> r < 32 \<Longrightarrow> uint (word_of_int r :: u32) < 32"
proof -
  assume r: "0 \<le> r" "r < 32"
  then have "r mod 2 ^ 32 = r" by (intro mod_pos_pos_trivial) simp_all
  then have "uint (word_of_int r :: u32) = r" unfolding uint_word_of_int by simp
  with r show ?thesis by simp
qed

lemma finish_ok:
  assumes "machine_ok m" and "ending_ok e m"
  shows "\<exists>m'. finish_step e m = Some m' \<and> machine_ok m' \<and> registers m' ! 0 = 0 \<and>
    (case e of None \<Rightarrow> m' = m | Some (pc, r, v) \<Rightarrow> registers m' ! 34 = registers m ! 35 \<and> registers m' ! 35 = pc)"
proof (cases e)
  case None
  with assms show ?thesis by (simp add: finish_step_def ending_ok_def)
next
  case (Some x)
  obtain pc r v where x: "x = (pc, r, v)" by (cases x) auto
  have r: "0 \<le> r" "r < 32" using assms(2) Some x by (simp_all add: ending_ok_def)
  have ro: "regs_ok m" using assms(1) by (simp add: machine_ok_def)
  let ?m = "m\<lparr>registers := delayed (registers m) (word_of_int r) v\<rparr>"
  have d: "DelayedLoad (word_of_int r) v m = Some ?m" by (rule DelayedLoad_eq [OF ro])
  have ok: "machine_ok ?m"
    using delayed_regs_ok [OF ro word_reg [OF r], of v] assms(1) by (simp add: regs_ok_def)
  have i: "unat (registers m ! 37) < 32" using assms(1) ok_37 [OF assms(1)]
    by (metis nat_less_numeral uint_nonneg unat_eq_nat_uint)
  have k: "registers ?m ! 0 = 0" "registers ?m ! 35 = registers m ! 35"
    using assms(1) i by (simp_all add: delayed_def nth_list_update)
  show ?thesis using d ok k assms(1) by (simp add: Some x finish_step_def nth_list_update)
qed

text \<open>The instruction a machine is about to execute, when the fetch does not fault.\<close>

definition fetched :: "machine \<Rightarrow> (Instruction \<times> machine) option" where
  "fetched m = do {
     pc \<leftarrow> get_reg m PCReg;
     (r, m) \<leftarrow> ReadMem (m\<lparr>trap := None\<rparr>) pc 4;
     raw \<leftarrow> r; i \<leftarrow> Decode raw; Some (i, m) }"

lemma OneInstruction_cases:
  assumes "machine_ok m"
  shows "(\<exists>m'. OneInstruction m = Some m' \<and> machine_ok m' \<and> registers m' ! 0 = 0) \<or>
    (\<exists>i m1. fetched m = Some (i, m1) \<and> div_overflow i m1 \<and> OneInstruction m = None)"
proof -
  let ?m = "m\<lparr>trap := None\<rparr>" and ?pc = "registers m ! 34"
  have ok: "machine_ok ?m" using assms by simp
  have pc: "get_reg m 34 = Some ?pc" "get_reg ?m 34 = Some ?pc" using assms ok by simp_all
  from ok show ?thesis
  proof (rule ReadMem_ok [where a = ?pc and sz = 4])
    fix m' x assume "ReadMem ?m ?pc 4 = Some (None, m')" "machine_ok m'" "registers m' ! 0 = 0"
    with pc show ?thesis by (simp add: OneInstruction_def)
  next
    fix v m' assume r: "ReadMem ?m ?pc 4 = Some (Some v, m')" and ok': "machine_ok m'"
    obtain i where i: "Decode v = Some i" "instr_ok i" using Decode_ok by blast
    let ?x = "exec_op (opCode i) (registers m' ! 35 + 4) i m'"
    have n: "get_reg m' 35 = Some (registers m' ! 35)" using ok' by simp
    have run: "OneInstruction m = (?x \<bind> (\<lambda>(e, m). finish_step e m))"
      using r pc i(1) n by (simp add: OneInstruction_def)
    show ?thesis
    proof (cases "div_overflow i m'")
      case True
      with exec_runs [OF i(2) ok', of "registers m' ! 35 + 4"] run r pc i(1) show ?thesis by (simp add: fetched_def)
    next
      case False
      with exec_runs [OF i(2) ok', of "registers m' ! 35 + 4"] obtain e m2 where
        "?x = Some (e, m2)" "machine_ok m2" "ending_ok e m2" by (auto simp: runs_def)
      with run finish_ok show ?thesis by fastforce
    qed
  qed simp
qed

subsection \<open>The double-word product\<close>

definition dword :: "u32 \<Rightarrow> u32 \<Rightarrow> int" where
  "dword hi lo = uint hi * 2 ^ 32 + uint lo"

lemma dword_range: "0 \<le> dword hi lo" "dword hi lo < 2 ^ 64"
proof -
  have "uint hi \<le> 2 ^ 32 - 1" "uint lo < 2 ^ 32" "0 \<le> uint hi" "0 \<le> uint lo"
    using uint_lt2p [of hi] uint_lt2p [of lo] by simp_all
  then show "0 \<le> dword hi lo" "dword hi lo < 2 ^ 64" by (simp_all add: dword_def)
qed

lemma uint_add_if:
  "uint (x + y) = (if uint x + uint y < 2 ^ 32 then uint x + uint y else uint x + uint y - 2 ^ 32)" for x y :: u32
  by (simp add: uint_plus_if_size word_size)

lemma add_carry: "uint (x + y) = uint x + uint y - (if x + y < y then 2 ^ 32 else 0)" for x y :: u32
proof -
  have r: "0 \<le> uint x" "uint x < 2 ^ 32" "0 \<le> uint y" "uint y < 2 ^ 32"
    using uint_lt2p [of x] uint_lt2p [of y] by simp_all
  show ?thesis using r uint_add_if [of x y] by (auto simp: word_less_def)
qed

lemma uint_mod_add: "\<exists>k. uint (x + y) = uint x + uint y - k * 2 ^ 32" for x y :: u32
proof (cases "x + y < y")
  case True
  then have "uint (x + y) = uint x + uint y - 1 * 2 ^ 32" using add_carry [of x y] by simp
  then show ?thesis by blast
next
  case False
  then have "uint (x + y) = uint x + uint y - 0 * 2 ^ 32" using add_carry [of x y] by simp
  then show ?thesis by blast
qed

lemma dword_add:
  "\<exists>k. dword ((if lo + bLo < bLo then hi + 1 else hi) + bHi) (lo + bLo) =
    dword hi lo + dword bHi bLo - k * 2 ^ 64"
proof -
  let ?h = "if lo + bLo < bLo then hi + 1 else hi"
  obtain k1 where k1: "uint (?h + bHi) = uint ?h + uint bHi - k1 * 2 ^ 32" using uint_mod_add by blast
  obtain k2 where k2: "uint (hi + 1) = uint hi + 1 - k2 * 2 ^ 32" using uint_mod_add [of hi 1] by auto
  have lo: "uint (lo + bLo) = uint lo + uint bLo - (if lo + bLo < bLo then 2 ^ 32 else 0)" by (rule add_carry)
  show ?thesis
  proof (cases "lo + bLo < bLo")
    case True
    then have "dword (?h + bHi) (lo + bLo) = dword hi lo + dword bHi bLo - (k1 + k2) * 2 ^ 64"
      using k1 k2 lo by (simp add: dword_def algebra_simps)
    then show ?thesis by blast
  next
    case False
    then have "dword (?h + bHi) (lo + bLo) = dword hi lo + dword bHi bLo - k1 * 2 ^ 64"
      using k1 lo by (simp add: dword_def algebra_simps)
    then show ?thesis by blast
  qed
qed


lemma dword_double:
  "\<exists>k. dword (if bLo AND 0x80000000 \<noteq> 0 then push_bit 1 bHi OR 1 else push_bit 1 bHi) (push_bit 1 bLo) =
    2 * dword bHi bLo - k * 2 ^ 64"
proof -
  let ?c = "if bLo AND 0x80000000 \<noteq> 0 then push_bit 1 bHi OR 1 else push_bit 1 bHi"
  have sh: "push_bit 1 w = w + w" for w :: u32 by (simp add: push_bit_eq_mult)
  have top: "(bLo AND 0x80000000 \<noteq> 0) = bit bLo 31"
  proof -
    have "(0x80000000 :: u32) = push_bit 31 1" by (simp add: push_bit_eq_mult)
    then show ?thesis by (simp only: bit_iff_and_push_bit_not_eq_0)
  qed
  have u: "0 \<le> uint bLo" "uint bLo < 2 ^ 32" using uint_lt2p [of bLo] by simp_all
  have "bit bLo 31 = bit (uint bLo) 31" by (simp add: bit_uint_iff)
  also have "\<dots> = odd (uint bLo div 2 ^ 31)" by (simp add: bit_iff_odd)
  also have "\<dots> = (2 ^ 31 \<le> uint bLo)"
  proof (cases "2 ^ 31 \<le> uint bLo")
    case True
    have "uint bLo div 2 ^ 31 = 1" using True u by (intro int_div_pos_eq [where r = "uint bLo - 2 ^ 31"]) simp_all
    with True show ?thesis by simp
  next
    case False
    with u show ?thesis by simp
  qed
  finally have b31: "bit bLo 31 = (2 ^ 31 \<le> uint bLo)" .
  have carry: "(bLo + bLo < bLo) = bit bLo 31"
    unfolding word_less_def b31 uint_add_if using u by auto
  have ev: "even (bHi + bHi)" by simp
  then have or1: "(bHi + bHi) OR 1 = bHi + bHi + 1" by (simp only: or_one_eq) simp
  have hi: "(if bLo AND 0x80000000 \<noteq> 0 then push_bit 1 bHi OR 1 else push_bit 1 bHi) =
      (if bLo + bLo < bLo then bHi + 1 else bHi) + bHi"
    unfolding top carry sh or1 by simp
  obtain k where "dword ((if bLo + bLo < bLo then bHi + 1 else bHi) + bHi) (bLo + bLo) =
      dword bHi bLo + dword bHi bLo - k * 2 ^ 64" using dword_add by blast
  then show ?thesis unfolding hi unfolding sh by (intro exI [of _ k]) simp
qed

text \<open>
  The loop adds \<open>b\<close> for each bit of \<open>a\<close> that is set: modulo \<open>2 ^ 64\<close> the sum grows by the
  low \<open>n\<close> bits of \<open>a\<close> times the shifted \<open>b\<close>.
\<close>

definition low :: "nat \<Rightarrow> int \<Rightarrow> int" where
  "low n a = a mod 2 ^ n"

lemma low_Suc: "low (Suc n) a = a mod 2 + 2 * low n (a div 2)"
  by (simp add: low_def mod_mult2_eq zmod_zmult2_eq)

lemma and_1_odd: "(a AND 1 \<noteq> 0) = odd (sint a)" for a :: u32
proof -
  have "(a AND 1 \<noteq> 0) = bit a 0" by (simp add: and_one_eq bit_0 odd_iff_mod_2_eq_one)
  also have "\<dots> = bit (sint a) 0" by (simp add: bit_sint_iff)
  finally show ?thesis by (simp add: bit_0)
qed

lemma rest_zero: "a AND 0xfffffffe = 0 \<Longrightarrow> signed_drop_bit 1 a = 0" for a :: u32
proof (rule bit_word_eqI)
  fix n assume z: "a AND 0xfffffffe = 0" and n: "n < LENGTH(32)"
  have m: "(0xfffffffe :: u32) = NOT (mask 1)" by (simp add: mask_eq_exp_minus_1)
  have "bit a k = False" if "1 \<le> k" "k < 32" for k
  proof -
    have "bit (a AND 0xfffffffe) k = False" using z by simp
    with that show ?thesis unfolding m by (simp add: bit_simps)
  qed
  with n show "bit (signed_drop_bit 1 a) n = bit 0 n" by (auto simp: bit_signed_drop_bit_iff)
qed

lemma sint_shift: "sint (signed_drop_bit 1 a) = sint a div 2" for a :: u32
  by (simp add: sint_signed_drop_bit_eq drop_bit_eq_div)

lemma Mult_loop_correct:
  "\<exists>k. dword (fst (Mult_loop n a bHi bLo hi lo)) (snd (Mult_loop n a bHi bLo hi lo)) =
     dword hi lo + low n (sint a) * dword bHi bLo - k * 2 ^ 64"
proof (induction n arbitrary: a bHi bLo hi lo)
  case 0
  show ?case by (intro exI [of _ 0]) (simp add: low_def)
next
  case (Suc n)
  define lo' where "lo' = (if a AND 1 \<noteq> 0 then lo + bLo else lo)"
  define hi' where "hi' = (if a AND 1 \<noteq> 0 then (if lo' < bLo then hi + 1 else hi) + bHi else hi)"
  define bH' where "bH' = (if bLo AND 0x80000000 \<noteq> 0 then push_bit 1 bHi OR 1 else push_bit 1 bHi)"
  have run: "Mult_loop (Suc n) a bHi bLo hi lo =
      (if a AND 1 \<noteq> 0 \<and> a AND 0xfffffffe = 0 then (hi', lo')
       else Mult_loop n (signed_drop_bit 1 a) bH' (push_bit 1 bLo) hi' lo')"
    by (simp add: lo'_def hi'_def bH'_def Let_def)
  have sm: "sint a mod 2 = (if a AND 1 \<noteq> 0 then 1 else 0)"
    using and_1_odd [of a] by (simp add: mod2_eq_if)
  have "\<exists>k. dword hi' lo' = dword hi lo + (sint a mod 2) * dword bHi bLo - k * 2 ^ 64"
  proof (cases "a AND 1 \<noteq> 0")
    case True
    obtain k where "dword ((if lo + bLo < bLo then hi + 1 else hi) + bHi) (lo + bLo) =
        dword hi lo + dword bHi bLo - k * 2 ^ 64" using dword_add by blast
    with True sm show ?thesis by (intro exI [of _ k]) (simp add: hi'_def lo'_def)
  next
    case False
    with sm show ?thesis by (intro exI [of _ 0]) (simp add: hi'_def lo'_def)
  qed
  then obtain k1 where k1: "dword hi' lo' = dword hi lo + (sint a mod 2) * dword bHi bLo - k1 * 2 ^ 64" by blast
  show ?case
  proof (cases "a AND 1 \<noteq> 0 \<and> a AND 0xfffffffe = 0")
    case True
    then have "sint a div 2 = 0" using rest_zero [of a] sint_shift [of a] by simp
    then have "low (Suc n) (sint a) = sint a mod 2" by (simp add: low_Suc) (simp add: low_def)
    with k1 True run show ?thesis by (intro exI [of _ k1]) simp
  next
    case False
    obtain k2 where k2: "dword bH' (push_bit 1 bLo) = 2 * dword bHi bLo - k2 * 2 ^ 64"
      using dword_double [of bLo bHi] by (auto simp: bH'_def)
    let ?r = "Mult_loop n (signed_drop_bit 1 a) bH' (push_bit 1 bLo) hi' lo'"
    obtain k3 where "dword (fst ?r) (snd ?r) = dword hi' lo' + low n (sint a div 2) * dword bH' (push_bit 1 bLo) - k3 * 2 ^ 64"
      using Suc.IH [of "signed_drop_bit 1 a" bH' "push_bit 1 bLo" hi' lo'] unfolding sint_shift by blast
    then have "dword (fst ?r) (snd ?r) = dword hi lo + low (Suc n) (sint a) * dword bHi bLo -
        (k1 + low n (sint a div 2) * k2 + k3) * 2 ^ 64"
      unfolding k1 k2 low_Suc by (simp add: algebra_simps)
    with False run show ?thesis by (metis)
  qed
qed


lemma dword_mod: "dword hi lo = x - k * 2 ^ 64 \<Longrightarrow> dword hi lo = x mod 2 ^ 64"
proof -
  assume e: "dword hi lo = x - k * 2 ^ 64"
  then have "dword hi lo mod 2 ^ 64 = x mod 2 ^ 64" by (metis mod_diff_right_eq mod_mult_self2_is_0 diff_zero)
  then show ?thesis using dword_range [of hi lo] by (simp add: mod_pos_pos_trivial)
qed

lemma low_32: "low 32 (sint a) = uint a" for a :: u32
proof -
  have "uint a = sint a mod 2 ^ 32" by (simp add: uint_sint take_bit_eq_mod)
  then show ?thesis by (simp add: low_def)
qed

lemma Mult_unsigned:
  assumes "Mult_loop 32 a 0 b 0 0 = (hi, lo)"
  shows "dword hi lo = uint a * uint b"
proof -
  obtain k where "dword hi lo = dword 0 0 + low 32 (sint a) * dword 0 b - k * 2 ^ 64"
    using Mult_loop_correct [of 32 a 0 b 0 0] assms by auto
  then have "dword hi lo = uint a * uint b - k * 2 ^ 64" by (simp add: low_32) (simp add: dword_def)
  then have "dword hi lo = (uint a * uint b) mod 2 ^ 64" by (rule dword_mod)
  moreover have "uint a * uint b < 2 ^ 64"
  proof -
    have "uint a * uint b \<le> (2 ^ 32 - 1) * (2 ^ 32 - 1)"
      using uint_lt2p [of a] uint_lt2p [of b] by (intro mult_mono) simp_all
    then show ?thesis by simp
  qed
  ultimately show ?thesis by (simp add: mod_pos_pos_trivial)
qed

lemma uint_neg: "uint (- w) = (if w = 0 then 0 else 2 ^ 32 - uint w)" for w :: u32
proof -
  have "uint (- w) = uint (0 - w)" by simp
  also have "\<dots> = (if uint w \<le> uint (0 :: u32) then uint (0 :: u32) - uint w else uint (0 :: u32) - uint w + 2 ^ 32)"
    by (simp only: uint_sub_if_size word_size) simp
  finally show ?thesis using uint_0_iff [of w] uint_nonneg [of w] by (auto split: if_splits)
qed

lemma uint_not: "uint (NOT w) = 2 ^ 32 - 1 - uint w" for w :: u32
proof -
  have "NOT w = - w - 1" by (simp add: minus_eq_not_plus_1)
  have "NOT w + 1 = - w" by (simp add: minus_eq_not_plus_1)
  have "uint w + uint (NOT w) = 2 ^ 32 - 1"
  proof -
    have "uint (w + NOT w) = 2 ^ 32 - 1" by (simp add: unsigned_minus_1_eq_mask mask_eq_exp_minus_1)
    with uint_add_if [of w "NOT w"] uint_lt2p [of w] uint_lt2p [of "NOT w"] show ?thesis
      by (simp split: if_splits)
  qed
  then show ?thesis by simp
qed

lemma neg_mod: "0 < x \<Longrightarrow> x < m \<Longrightarrow> (- x) mod m = m - x" for x m :: int
  by (simp add: zmod_zminus1_eq_if mod_pos_pos_trivial)

lemma dword_pos: "b \<noteq> 0 \<or> a \<noteq> 0 \<Longrightarrow> 0 \<le> a \<Longrightarrow> 0 \<le> b \<Longrightarrow> 0 < a * 2 ^ 32 + b" for a b :: int
  by simp linarith

lemma dword_negate:
  assumes "lo' = NOT lo + 1" and "hi' = (if lo' = 0 then NOT hi + 1 else NOT hi)"
  shows "dword hi' lo' = (- dword hi lo) mod 2 ^ 64"
proof -
  have lo': "lo' = - lo" using assms(1) by (simp add: minus_eq_not_plus_1)
  have nh: "NOT hi + 1 = - hi" by (simp add: minus_eq_not_plus_1)
  have r: "0 \<le> uint lo" "uint lo < 2 ^ 32" "0 \<le> uint hi" "uint hi < 2 ^ 32"
    using uint_lt2p [of lo] uint_lt2p [of hi] by simp_all
  show ?thesis
  proof (cases "lo = 0 \<and> hi = 0")
    case True
    with assms lo' nh show ?thesis by (simp add: dword_def)
  next
    case False
    have "uint lo \<noteq> 0 \<or> uint hi \<noteq> 0" using False by (simp add: uint_0_iff)
    then have pos: "0 < dword hi lo" unfolding dword_def using r by (intro dword_pos)
    have "dword hi' lo' = 2 ^ 64 - dword hi lo"
    proof (cases "lo = 0")
      case True
      then have "hi' = - hi" "hi \<noteq> 0" using assms lo' nh False by simp_all
      with True lo' show ?thesis by (simp add: dword_def uint_neg)
    next
      case False
      then have "hi' = NOT hi" using assms(2) lo' by simp
      with False lo' show ?thesis by (simp add: dword_def uint_neg uint_not)
    qed
    with neg_mod [OF pos dword_range(2)] show ?thesis by simp
  qed
qed

lemma neg_abs: "sint a < 0 \<Longrightarrow> uint (- a) = - sint a" for a :: u32
proof -
  assume n: "sint a < 0"
  have "uint a = sint a mod 2 ^ 32" by (simp add: uint_sint take_bit_eq_mod)
  also have "\<dots> = sint a + 2 ^ 32"
  proof -
    have "- (2 ^ 31) \<le> sint a" using sint_ge [of a] by simp
    then have "(sint a + 2 ^ 32) mod 2 ^ 32 = sint a + 2 ^ 32" using n by (intro mod_pos_pos_trivial) simp_all
    then show ?thesis by simp
  qed
  finally show ?thesis using n uint_neg [of a] by (auto split: if_splits)
qed

lemma pos_abs: "\<not> sint a < 0 \<Longrightarrow> uint a = sint a" for a :: u32
proof -
  assume n: "\<not> sint a < 0"
  have "uint a = sint a mod 2 ^ 32" by (simp add: uint_sint take_bit_eq_mod)
  moreover have "sint a < 2 ^ 31" using sint_lt [of a] by simp
  ultimately show ?thesis using n by (simp add: mod_pos_pos_trivial)
qed

lemma Mult_correct:
  assumes "Mult a b s = (hi, lo)"
  shows "dword hi lo = (if s then sint a * sint b else uint a * uint b) mod 2 ^ 64"
proof (cases "a = 0 \<or> b = 0")
  case True
  with assms show ?thesis by (auto simp: Mult_def dword_def)
next
  case False
  let ?a = "if s \<and> sint a < 0 then - a else a" and ?b = "if s \<and> sint b < 0 then - b else b"
  let ?neg = "s \<and> (sint a < 0) \<noteq> (sint b < 0)"
  obtain h l where hl: "Mult_loop 32 ?a 0 ?b 0 0 = (h, l)" by (cases "Mult_loop 32 ?a 0 ?b 0 0")
  have prod: "dword h l = uint ?a * uint ?b" by (rule Mult_unsigned [OF hl])
  have range: "dword h l mod 2 ^ 64 = dword h l" using dword_range [of h l] by (simp add: mod_pos_pos_trivial)
  have val: "(if ?neg then - (uint ?a * uint ?b) else uint ?a * uint ?b) = (if s then sint a * sint b else uint a * uint b)"
    using neg_abs [of a] neg_abs [of b] pos_abs [of a] pos_abs [of b] by auto
  have res: "(hi, lo) = (if ?neg then (let hi = NOT h; lo = NOT l + 1 in if lo = 0 then (hi + 1, lo) else (hi, lo)) else (h, l))"
    using assms False hl unfolding Mult_def by (simp add: Let_def split del: if_split)
  show ?thesis
  proof (cases ?neg)
    case True
    then have "lo = NOT l + 1" "hi = (if lo = 0 then NOT h + 1 else NOT h)"
      using res by (auto simp: Let_def split: if_splits)
    then have "dword hi lo = (- dword h l) mod 2 ^ 64" by (rule dword_negate)
    with prod val True show ?thesis by simp
  next
    case False
    then have hl': "hi = h" "lo = l" using res by (simp_all split: if_splits)
    have "uint ?a * uint ?b = (if s then sint a * sint b else uint a * uint b)"
      using val unfolding if_not_P [OF False] .
    then have "dword hi lo = (if s then sint a * sint b else uint a * uint b) - 0 * 2 ^ 64"
      unfolding hl' prod by (simp only: mult_zero_left diff_zero)
    then show ?thesis by (rule dword_mod)
  qed
qed


subsection \<open>Overflow\<close>

lemma sign_bit: "(w AND SIGN_BIT \<noteq> 0) = (sint w < 0)" for w :: u32
proof -
  have "SIGN_BIT = push_bit 31 1" by (simp add: SIGN_BIT_def push_bit_eq_mult)
  then have "(w AND SIGN_BIT \<noteq> 0) = bit w 31" by (simp only: bit_iff_and_push_bit_not_eq_0)
  then show ?thesis using bit_last_iff [of w] by simp
qed

lemma sign_xor: "((a XOR b) AND SIGN_BIT \<noteq> 0) = ((sint a < 0) \<noteq> (sint b < 0))" for a b :: u32
proof -
  have "SIGN_BIT = push_bit 31 1" by (simp add: SIGN_BIT_def push_bit_eq_mult)
  then have "((a XOR b) AND SIGN_BIT \<noteq> 0) = bit (a XOR b) 31" by (simp only: bit_iff_and_push_bit_not_eq_0)
  also have "\<dots> = (bit a 31 \<noteq> bit b 31)" by (simp add: bit_xor_iff)
  finally show ?thesis using bit_last_iff [of a] bit_last_iff [of b] by simp
qed

lemma sint_range32: "- (2 ^ 31) \<le> sint w" "sint w < 2 ^ 31" for w :: u32
  using sint_ge [of w] sint_lt [of w] by simp_all

lemma sint_wrap:
  "- (2 ^ 32) \<le> x \<Longrightarrow> x < 2 ^ 32 \<Longrightarrow> sint (word_of_int x :: u32) =
     (if x < - (2 ^ 31) then x + 2 ^ 32 else if x < 2 ^ 31 then x else x - 2 ^ 32)"
proof -
  assume r: "- (2 ^ 32) \<le> x" "x < 2 ^ 32"
  have s: "sint (word_of_int y :: u32) = y" if "- (2 ^ 31) \<le> y" "y < 2 ^ 31" for y
    using that by (simp add: sint_sbintrunc' signed_take_bit_int_eq_self_iff)
  have w: "(word_of_int x :: u32) = word_of_int (x + 2 ^ 32)" "(word_of_int x :: u32) = word_of_int (x - 2 ^ 32)"
    by (simp_all add: word_of_int_eq_iff take_bit_eq_mod)
  consider "x < - (2 ^ 31)" | "- (2 ^ 31) \<le> x" "x < 2 ^ 31" | "2 ^ 31 \<le> x" by linarith
  then show ?thesis
  proof cases
    case 1
    then show ?thesis unfolding w(1) using s [of "x + 2 ^ 32"] r by simp
  next
    case 2
    then show ?thesis using s [of x] by simp
  next
    case 3
    then show ?thesis unfolding w(2) using s [of "x - 2 ^ 32"] r by simp
  qed
qed

lemma sint_add: "sint (a + b) = (if sint a + sint b < - (2 ^ 31) then sint a + sint b + 2 ^ 32
    else if sint a + sint b < 2 ^ 31 then sint a + sint b else sint a + sint b - 2 ^ 32)" for a b :: u32
  using sint_wrap [of "sint a + sint b"] sint_range32 [of a] sint_range32 [of b] by simp

lemma sint_sub: "sint (a - b) = (if sint a - sint b < - (2 ^ 31) then sint a - sint b + 2 ^ 32
    else if sint a - sint b < 2 ^ 31 then sint a - sint b else sint a - sint b - 2 ^ 32)" for a b :: u32
  using sint_wrap [of "sint a - sint b"] sint_range32 [of a] sint_range32 [of b] by simp

definition in_range :: "int \<Rightarrow> bool" where
  "in_range x \<longleftrightarrow> - (2 ^ 31) \<le> x \<and> x < 2 ^ 31"

lemma ADD_test:
  "((a XOR b) AND SIGN_BIT = 0 \<and> (a XOR (a + b)) AND SIGN_BIT \<noteq> 0) = (\<not> in_range (sint a + sint b))" for a b :: u32
  using sign_xor [of a b] sign_xor [of a "a + b"] sint_add [of a b] sint_range32 [of a] sint_range32 [of b]
  by (auto simp: in_range_def split: if_splits)

lemma ADD_sum: "in_range (sint a + sint b) \<Longrightarrow> sint (a + b) = sint a + sint b" for a b :: u32
  by (simp add: sint_add in_range_def)

lemma SUB_test:
  "((a XOR b) AND SIGN_BIT \<noteq> 0 \<and> (a XOR (a - b)) AND SIGN_BIT \<noteq> 0) = (\<not> in_range (sint a - sint b))" for a b :: u32
  using sign_xor [of a b] sign_xor [of a "a - b"] sint_sub [of a b] sint_range32 [of a] sint_range32 [of b]
  by (auto simp: in_range_def split: if_splits)

lemma SUB_diff: "in_range (sint a - sint b) \<Longrightarrow> sint (a - b) = sint a - sint b" for a b :: u32
  by (simp add: sint_sub in_range_def)


lemma exec_ADD_eq:
  assumes "machine_ok m" and "instr_ok i"
  shows "exec_ADD pc i m =
    (if in_range (sint (registers m ! nat (rs i)) + sint (registers m ! nat (rt i)))
     then go pc (m\<lparr>registers := (registers m)[nat (rd i) := registers m ! nat (rs i) + registers m ! nat (rt i)]\<rparr>)
     else raise OverflowException 0 m)"
  using assms by (simp add: exec_ADD_def instr_ok_def Let_def ADD_test)

lemma exec_SUB_eq:
  assumes "machine_ok m" and "instr_ok i"
  shows "exec_SUB pc i m =
    (if in_range (sint (registers m ! nat (rs i)) - sint (registers m ! nat (rt i)))
     then go pc (m\<lparr>registers := (registers m)[nat (rd i) := registers m ! nat (rs i) - registers m ! nat (rt i)]\<rparr>)
     else raise OverflowException 0 m)"
  using assms by (simp add: exec_SUB_def instr_ok_def Let_def SUB_test)

subsection \<open>Unaligned loads and stores\<close>

text \<open>
  The word at distance \<open>k\<close> (1, 2 or 3) from an aligned address holding \<open>w0\<close>, the next
  aligned word being \<open>w1\<close>.
\<close>

definition unaligned :: "nat \<Rightarrow> u32 \<Rightarrow> u32 \<Rightarrow> u32" where
  "unaligned k w0 w1 = drop_bit (8 * k) w0 OR push_bit (32 - 8 * k) w1"

lemma byte_masks: "(0xff :: u32) = mask 8" "(0xffff :: u32) = mask 16" "(0xffffff :: u32) = mask 24"
  "(0xff000000 :: u32) = NOT (mask 24)" "(0xffff0000 :: u32) = NOT (mask 16)" "(0xffffff00 :: u32) = NOT (mask 8)"
  by (simp_all add: mask_eq_exp_minus_1)

lemma load_pair: "k \<in> {1, 2, 3} \<Longrightarrow>
   merge_LWL (4 - of_nat k) (merge_LWR (3 - of_nat k) old w0) w1 = unaligned k w0 w1"
  by (elim insertE emptyE; simp add: merge_LWL_def merge_LWR_def unaligned_def byte_masks; rule bit_word_eqI;
      auto simp: bit_simps dest: bit_imp_le_length)

lemma store_pair: "k \<in> {1, 2, 3} \<Longrightarrow>
   unaligned k (merge_SWR (3 - of_nat k) w0 r) (merge_SWL (4 - of_nat k) w1 r) = r"
  by (elim insertE emptyE; simp add: merge_SWL_def merge_SWR_def unaligned_def byte_masks; rule bit_word_eqI;
      auto simp: bit_simps dest: bit_imp_le_length)

lemma store_pair_frame: "k \<in> {1, 2, 3} \<Longrightarrow>
   take_bit (8 * k) (merge_SWR (3 - of_nat k) w0 r) = take_bit (8 * k) w0 \<and>
   drop_bit (8 * k) (merge_SWL (4 - of_nat k) w1 r) = drop_bit (8 * k) w1"
  by (elim insertE emptyE; simp add: merge_SWL_def merge_SWR_def byte_masks; intro conjI bit_word_eqI;
      auto simp: bit_simps dest: bit_imp_le_length)

subsection \<open>Properties\<close>

text \<open>
  Every 32-bit word decodes: the two opcode tables are never read outside their bounds, the
  register fields are general registers, and the operation is one the \<open>switch\<close> of
  \<open>OneInstruction\<close> has a case for, so its \<open>default\<close> assertion cannot fail.
\<close>

theorem Decode_total:
  "\<exists>i. Decode v = Some i \<and> i_value i = v \<and> opCode i \<notin> {SPECIAL, BCOND, OP_RFE} \<and>
     {rs i, rt i, rd i} \<subseteq> {0..31}"
proof -
  obtain i where i: "Decode v = Some i" "instr_ok i" using Decode_ok by blast
  moreover from i(1) have "i_value i = v" by (auto simp: Decode_def bind_Some_conv split_beta)
  ultimately show ?thesis by (auto simp: instr_ok_def)
qed

text \<open>
  C17. A user program cannot stop the simulator, but for one instruction: on every well-formed
  machine \<open>OneInstruction\<close> runs to its end, trapping or not, keeps the machine well formed and
  leaves register 0 zero; the exception is \<open>DIV\<close> of the least integer by -1, on which the host's
  own division faults.
\<close>

theorem OneInstruction_safe:
  assumes "machine_ok m"
  shows "(\<exists>m'. OneInstruction m = Some m' \<and> machine_ok m' \<and> registers m' ! 0 = 0) \<or>
    (OneInstruction m = None \<and> (\<exists>i m1. fetched m = Some (i, m1) \<and> opCode i = OP_DIV \<and>
       sint (registers m1 ! nat (rs i)) = - (2 ^ 31) \<and> sint (registers m1 ! nat (rt i)) = - 1))"
  using OneInstruction_cases [OF assms] by (auto simp: div_overflow_def)

lemma OneInstruction_safe_witness:
  "\<exists>m'. OneInstruction (Machine_new True (replicate 4 \<lparr>virtualPage = 0, physicalPage = 0, valid = False,
     readOnly = False, te_use = False, dirty = False\<rparr>)) = Some m' \<and> registers m' ! 0 = 0"
proof -
  let ?m = "Machine_new True (replicate 4 \<lparr>virtualPage = 0, physicalPage = 0, valid = False,
     readOnly = False, te_use = False, dirty = False\<rparr>)"
  have ok: "machine_ok ?m"
    by (simp add: machine_ok_def regs_ok_def mem_ok_def Machine_new_def MemorySize_def NumPhysPages_def PageSize_def)
  have "ReadMem (?m\<lparr>trap := None\<rparr>) 0 4 \<noteq> Some (Some v, m')" for v m'
    by (simp add: Machine_new_def ReadMem_def Translate_def find_entry_def arr_get_def TLBSize_def
        eval_nat_numeral PageSize_def bind_Some_conv)
  then have "fetched ?m \<noteq> Some (i, m1)" for i m1
    by (auto simp: fetched_def bind_Some_conv Machine_new_def get_reg_def arr_get_def)
  with OneInstruction_safe [OF ok] show ?thesis by blast
qed

text \<open>
  C20. \<open>Mult\<close> computes the double-word product: the high and low words it stores are those of
  the exact product of the two registers, read as signed integers for \<open>MULT\<close> and as unsigned
  ones for \<open>MULTU\<close>, whatever the signs and carries.
\<close>

theorem Mult_product:
  "let (hi, lo) = Mult a b signedArith in
   uint hi * 2 ^ 32 + uint lo = (if signedArith then sint a * sint b else uint a * uint b) mod 2 ^ 64"
  using Mult_correct [of a b signedArith] by (auto simp: dword_def split: prod.split)

text \<open>
  C21. The overflow tests are exact: \<open>ADD\<close> and \<open>SUB\<close> trap exactly when the signed sum or
  difference does not fit in 32 bits, and otherwise put the true result in \<open>rd\<close>.
\<close>

theorem ADD_SUB_overflow:
  assumes "machine_ok m" and "instr_ok i"
    and "a = sint (registers m ! nat (rs i))" and "b = sint (registers m ! nat (rt i))"
  shows "(if in_range (a + b)
      then \<exists>v. sint v = a + b \<and> exec_ADD pc i m = go pc (m\<lparr>registers := (registers m)[nat (rd i) := v]\<rparr>)
      else exec_ADD pc i m = raise OverflowException 0 m) \<and>
    (if in_range (a - b)
      then \<exists>v. sint v = a - b \<and> exec_SUB pc i m = go pc (m\<lparr>registers := (registers m)[nat (rd i) := v]\<rparr>)
      else exec_SUB pc i m = raise OverflowException 0 m)"
  unfolding exec_ADD_eq [OF assms(1,2)] exec_SUB_eq [OF assms(1,2)] assms(3,4)
proof (intro conjI)
  let ?a = "registers m ! nat (rs i)" and ?b = "registers m ! nat (rt i)"
  let ?put = "\<lambda>v. go pc (m\<lparr>registers := (registers m)[nat (rd i) := v]\<rparr>)"
  show "if in_range (sint ?a + sint ?b)
      then \<exists>v. sint v = sint ?a + sint ?b \<and>
        (if in_range (sint ?a + sint ?b) then ?put (?a + ?b) else raise OverflowException 0 m) = ?put v
      else (if in_range (sint ?a + sint ?b) then ?put (?a + ?b) else raise OverflowException 0 m) =
        raise OverflowException 0 m"
    using ADD_sum [of ?a ?b] by (cases "in_range (sint ?a + sint ?b)") (simp_all, blast)
  show "if in_range (sint ?a - sint ?b)
      then \<exists>v. sint v = sint ?a - sint ?b \<and>
        (if in_range (sint ?a - sint ?b) then ?put (?a - ?b) else raise OverflowException 0 m) = ?put v
      else (if in_range (sint ?a - sint ?b) then ?put (?a - ?b) else raise OverflowException 0 m) =
        raise OverflowException 0 m"
    using SUB_diff [of ?a ?b] by (cases "in_range (sint ?a - sint ?b)") (simp_all, blast)
qed

lemma ADD_SUB_overflow_witness:
  "exec_ADD 4 \<lparr>i_value = 0, opCode = OP_ADD, rs = 1, rt = 1, rd = 2, extra = 0\<rparr>
     (one_page\<lparr>registers := (replicate 40 0)[1 := 0x7fffffff]\<rparr>) =
   raise OverflowException 0 (one_page\<lparr>registers := (replicate 40 0)[1 := 0x7fffffff]\<rparr>)"
proof -
  have ok: "machine_ok (one_page\<lparr>registers := (replicate 40 0)[1 := 0x7fffffff]\<rparr>)"
    using one_page_ok by simp
  show ?thesis
    using ADD_SUB_overflow [OF ok _ refl refl, of "\<lparr>i_value = 0, opCode = OP_ADD, rs = 1, rt = 1, rd = 2, extra = 0\<rparr>" 4]
    by (simp add: instr_ok_def in_range_def)
qed



text \<open>
  \<open>SRL\<close> is not a logical shift: the value passes through a signed variable, so the result
  is the logical shift only when the register is non-negative or the distance is 0.
\<close>

theorem SRL_shifts_sign:
  assumes "machine_ok m" and "instr_ok i" and "unat (extra i) < 32"
  shows "\<exists>m'. exec_SRL pc i m = go pc m' \<and>
    (registers m' ! nat (rd i) = drop_bit (unat (extra i)) (registers m ! nat (rt i)) \<longleftrightarrow>
       0 \<le> sint (registers m ! nat (rt i)) \<or> extra i = 0)"
proof -
  let ?w = "registers m ! nat (rt i)" and ?n = "unat (extra i)"
  have l: "nat (rd i) < 40" using assms(2) unfolding instr_ok_def by linarith
  have neg: "(sint ?w < 0) = bit ?w 31" using bit_last_iff [of ?w] by simp
  have "signed_drop_bit ?n ?w = drop_bit ?n ?w \<longleftrightarrow> \<not> bit ?w 31 \<or> ?n = 0"
  proof
    assume e: "signed_drop_bit ?n ?w = drop_bit ?n ?w"
    have "bit (signed_drop_bit ?n ?w) 31 = bit ?w 31"
    proof (cases "?n = 0")
      case False
      then have "32 - ?n \<le> 31" by linarith
      then show ?thesis unfolding bit_signed_drop_bit_iff by simp
    qed simp
    moreover have "bit (drop_bit ?n ?w) 31 = bit ?w (?n + 31)" by (simp add: bit_drop_bit_eq)
    moreover have "0 < ?n \<Longrightarrow> \<not> bit ?w (?n + 31)" using bit_imp_le_length [of ?w "?n + 31"] by auto
    ultimately show "\<not> bit ?w 31 \<or> ?n = 0" using e by auto
  next
    assume a: "\<not> bit ?w 31 \<or> ?n = 0"
    show "signed_drop_bit ?n ?w = drop_bit ?n ?w"
    proof (rule bit_word_eqI)
      fix j assume "j < LENGTH(32)"
      with a assms(3) show "bit (signed_drop_bit ?n ?w) j = bit (drop_bit ?n ?w) j"
        by (auto simp: bit_signed_drop_bit_iff bit_drop_bit_eq dest: bit_imp_le_length)
    qed
  qed
  then show ?thesis
    using assms(1,2) l neg
    by (auto simp: exec_SRL_def shift_imm_def instr_ok_def unat_eq_0
        intro!: exI [of _ "m\<lparr>registers := (registers m)[nat (rd i) := signed_drop_bit ?n ?w]\<rparr>"])
qed

lemma SRL_shifts_sign_witness:
  "\<exists>m'. exec_SRL 4 \<lparr>i_value = 0, opCode = OP_SRL, rs = 0, rt = 1, rd = 2, extra = 4\<rparr>
     (one_page\<lparr>registers := (replicate 40 0)[1 := 0x80000000]\<rparr>) = go 4 m' \<and> registers m' ! 2 \<noteq> 0x8000000"
proof -
  let ?i = "\<lparr>i_value = 0, opCode = OP_SRL, rs = 0, rt = 1, rd = 2, extra = 4\<rparr>"
  have ok: "machine_ok (one_page\<lparr>registers := (replicate 40 0)[1 := 0x80000000]\<rparr>)"
    using one_page_ok by simp
  have d: "drop_bit 4 (0x80000000 :: u32) = 0x8000000" by simp
  show ?thesis
    using SRL_shifts_sign [OF ok, of ?i 4] d by (auto simp: instr_ok_def)
qed

end
