(* ===== verification/Disk.thy ===== *)
theory Disk
  imports Nachos_Prelude
begin

text \<open>
  The simulated disk of \<open>machine/disk.h\<close> and \<open>machine/disk.cc\<close>, and the synchronous layer
  \<open>filesys/synchdisk.cc\<close> over it. A disk holds the contents of its 1024 sectors and the
  position of its head; a request transfers one sector at once and names the number of ticks
  after which the completion interrupt is due. \<open>ReadSector\<close> and \<open>WriteSector\<close> wait for that
  interrupt; the thread that waits runs again at the time \<open>resume due\<close>, which the
  scheduler decides: \<open>resume\<close> is a parameter kept in the record. The tick counter is an
  unbounded integer.
\<close>

subsection \<open>The physical disk\<close>

definition RotationTime :: int where "RotationTime = 500"
definition SeekTime :: int where "SeekTime = 500"
definition SectorSize :: int where "SectorSize = 128"
definition SectorsPerTrack :: int where "SectorsPerTrack = 32"
definition NumTracks :: int where "NumTracks = 32"
definition NumSectors :: int where "NumSectors = SectorsPerTrack * NumTracks"
definition MagicNumber :: int where "MagicNumber = 0x456789ab"

lemmas disk_consts = RotationTime_def SeekTime_def SectorSize_def SectorsPerTrack_def
  NumTracks_def NumSectors_def

record disk =
  active :: bool
  lastSector :: int
  bufferInit :: int
  sectors :: "int \<Rightarrow> byte list"
  totalTicks :: int
  numDiskReads :: int
  numDiskWrites :: int
  resume :: "int \<Rightarrow> int"

text \<open>
  The constructor: the UNIX file is either there, and must begin with the magic number, or is
  created with all its bytes zero.
\<close>

definition Disk_new :: "(int \<times> (int \<Rightarrow> byte list)) option \<Rightarrow> int \<Rightarrow> (int \<Rightarrow> int) \<Rightarrow> disk option" where
  "Disk_new unix_file now res = do {
     contents \<leftarrow> (case unix_file of
        Some (magicNum, contents) \<Rightarrow> do { ASSERT (magicNum = MagicNumber); Some contents }
      | None \<Rightarrow> Some (\<lambda>_. replicate (nat SectorSize) 0));
     Some \<lparr>active = False, lastSector = 0, bufferInit = 0, sectors = contents,
           totalTicks = now, numDiskReads = 0, numDiskWrites = 0, resume = res\<rparr> }"

definition TimeToSeek :: "disk \<Rightarrow> int \<Rightarrow> int \<times> int" where
  "TimeToSeek d newSector =
     (let newTrack = newSector sdiv SectorsPerTrack;
          oldTrack = lastSector d sdiv SectorsPerTrack;
          seek = \<bar>newTrack - oldTrack\<bar> * SeekTime;
          over = (totalTicks d + seek) smod RotationTime
      in (seek, if over > 0 then RotationTime - over else 0))"

definition ModuloDiff :: "int \<Rightarrow> int \<Rightarrow> int" where
  "ModuloDiff to from =
     (let toOffset = to smod SectorsPerTrack; fromOffset = from smod SectorsPerTrack
      in ((toOffset - fromOffset) + SectorsPerTrack) smod SectorsPerTrack)"

definition ComputeLatency :: "disk \<Rightarrow> int \<Rightarrow> bool \<Rightarrow> int" where
  "ComputeLatency d newSector writing =
     (let (seek, rotation) = TimeToSeek d newSector;
          timeAfter = totalTicks d + seek + rotation
      in if \<not> writing \<and> seek = 0 \<and>
            (timeAfter - bufferInit d) sdiv RotationTime >
              ModuloDiff newSector (bufferInit d sdiv RotationTime)
         then RotationTime
         else seek + (rotation + ModuloDiff newSector (timeAfter sdiv RotationTime) * RotationTime)
                + RotationTime)"

definition UpdateLast :: "disk \<Rightarrow> int \<Rightarrow> disk" where
  "UpdateLast d newSector =
     (let (seek, rotate) = TimeToSeek d newSector;
          d1 = (if seek \<noteq> 0 then d\<lparr>bufferInit := totalTicks d + seek + rotate\<rparr> else d)
      in d1\<lparr>lastSector := newSector\<rparr>)"

text \<open>
  A request returns with the ticks after which its interrupt is due. \<open>Interrupt::Schedule\<close>,
  called last, asserts that the interrupt lies in the future.
\<close>

definition ReadRequest :: "disk \<Rightarrow> int \<Rightarrow> (byte list \<times> int \<times> disk) option" where
  "ReadRequest d sectorNumber = do {
     let ticks = ComputeLatency d sectorNumber False;
     ASSERT (\<not> active d);
     ASSERT (0 \<le> sectorNumber \<and> sectorNumber < NumSectors);
     let data = sectors d sectorNumber;
     let d1 = UpdateLast (d\<lparr>active := True\<rparr>) sectorNumber;
     let d2 = d1\<lparr>numDiskReads := numDiskReads d1 + 1\<rparr>;
     ASSERT (ticks > 0);
     Some (data, ticks, d2) }"

definition WriteRequest :: "disk \<Rightarrow> int \<Rightarrow> byte list \<Rightarrow> (int \<times> disk) option" where
  "WriteRequest d sectorNumber data = do {
     let ticks = ComputeLatency d sectorNumber True;
     ASSERT (\<not> active d);
     ASSERT (0 \<le> sectorNumber \<and> sectorNumber < NumSectors);
     bytes \<leftarrow> bytes_get data 0 SectorSize;
     let d0 = d\<lparr>sectors := (sectors d)(sectorNumber := bytes)\<rparr>;
     let d1 = UpdateLast (d0\<lparr>active := True\<rparr>) sectorNumber;
     let d2 = d1\<lparr>numDiskWrites := numDiskWrites d1 + 1\<rparr>;
     ASSERT (ticks > 0);
     Some (ticks, d2) }"

definition Disk_CallBack :: "disk \<Rightarrow> disk" where
  "Disk_CallBack d = d\<lparr>active := False\<rparr>"

subsection \<open>The synchronous disk\<close>

text \<open>
  \<open>wait_interrupt\<close> is \<open>semaphore->P()\<close> after a request: the clock has moved on to the time
  the thread resumes, and the interrupt handler (\<open>Disk::CallBack\<close>, then \<open>SynchDisk::CallBack\<close>'s
  \<open>V\<close>) has run.
\<close>

definition wait_interrupt :: "int \<Rightarrow> disk \<Rightarrow> disk" where
  "wait_interrupt ticks d =
     (Disk_CallBack d)\<lparr>totalTicks := resume d (totalTicks d + ticks)\<rparr>"

definition ReadSector :: "disk \<Rightarrow> int \<Rightarrow> (byte list \<times> disk) option" where
  "ReadSector d sectorNumber = do {
     (data, ticks, d1) \<leftarrow> ReadRequest d sectorNumber;
     Some (data, wait_interrupt ticks d1) }"

definition WriteSector :: "disk \<Rightarrow> int \<Rightarrow> byte list \<Rightarrow> disk option" where
  "WriteSector d sectorNumber data = do {
     (ticks, d1) \<leftarrow> WriteRequest d sectorNumber data;
     Some (wait_interrupt ticks d1) }"

definition read_step :: "int \<Rightarrow> int \<Rightarrow> byte list \<times> disk \<Rightarrow> (byte list \<times> disk) option" where
  "read_step sectorNumber i = (\<lambda>(buf, d). do {
     (data, d1) \<leftarrow> ReadSector d (sectorNumber + i);
     buf1 \<leftarrow> bytes_put buf (i * SectorSize) data;
     Some (buf1, d1) })"

definition ReadLength :: "disk \<Rightarrow> int \<Rightarrow> int \<Rightarrow> (byte list \<times> disk) option" where
  "ReadLength d sectorNumber len = do {
     let num_sectors = divRoundUp len SectorSize;
     let buf = replicate (nat (num_sectors * SectorSize)) 0;
     (buf1, d1) \<leftarrow> foldM (read_step sectorNumber) [0..num_sectors - 1] (buf, d);
     data \<leftarrow> bytes_get buf1 0 len;
     Some (data, d1) }"

definition write_step :: "int \<Rightarrow> byte list \<Rightarrow> int \<Rightarrow> disk \<Rightarrow> disk option" where
  "write_step sectorNumber buf i d = do {
     bytes \<leftarrow> bytes_get buf (i * SectorSize) SectorSize;
     WriteSector d (sectorNumber + i) bytes }"

definition WriteLength :: "disk \<Rightarrow> int \<Rightarrow> int \<Rightarrow> byte list \<Rightarrow> disk option" where
  "WriteLength d sectorNumber len data = do {
     let num_sectors = divRoundUp len SectorSize;
     bytes \<leftarrow> bytes_get data 0 len;
     buf \<leftarrow> bytes_put (replicate (nat (num_sectors * SectorSize)) 0) 0 bytes;
     foldM (write_step sectorNumber buf) [0..num_sectors - 1] d }"

text \<open>
  \<open>ReadBlock\<close>, \<open>WriteBlock\<close> and their fragment variants send all their requests before they
  wait once; \<open>blockSize\<close> is the block or the fragment size of the superblock. With no request
  at all the semaphore is never signalled and the call does not return.
\<close>

definition ReadBlock :: "int \<Rightarrow> disk \<Rightarrow> int \<Rightarrow> (byte list \<times> disk) option" where
  "ReadBlock blockSize d blockNumber = do {
     let count_sector = blockSize sdiv SectorSize;
     let start_sector = count_sector * blockNumber;
     ASSERT (count_sector > 0);
     (data, ticks, d1) \<leftarrow> foldM (\<lambda>i (_, _, d). ReadRequest d (start_sector + i))
        [0..count_sector - 1] ([], 0, d);
     Some (data, wait_interrupt ticks d1) }"

definition WriteBlock :: "int \<Rightarrow> disk \<Rightarrow> int \<Rightarrow> byte list \<Rightarrow> disk option" where
  "WriteBlock blockSize d blockNumber data = do {
     let count_sector = blockSize sdiv SectorSize;
     let start_sector = count_sector * blockNumber;
     ASSERT (count_sector > 0);
     (ticks, d1) \<leftarrow> foldM (\<lambda>i (_, d). WriteRequest d (start_sector + i) data)
        [0..count_sector - 1] (0, d);
     Some (wait_interrupt ticks d1) }"

subsection \<open>Timing\<close>

definition sector_ok :: "int \<Rightarrow> bool" where
  "sector_ok s \<longleftrightarrow> 0 \<le> s \<and> s < NumSectors"

definition disk_ok :: "disk \<Rightarrow> bool" where
  "disk_ok d \<longleftrightarrow> \<not> active d \<and> sector_ok (lastSector d) \<and> 0 \<le> totalTicks d \<and> 0 \<le> bufferInit d \<and>
     (\<forall>s. sector_ok s \<longrightarrow> length (sectors d s) = 128) \<and> (\<forall>t. t \<le> resume d t)"

lemma TimeToSeek_bounds:
  assumes "TimeToSeek d s = (seek, rot)" and "sector_ok s" and "sector_ok (lastSector d)"
    and "0 \<le> totalTicks d"
  shows "0 \<le> seek" and "seek \<le> 31 * SeekTime" and "0 \<le> rot" and "rot < RotationTime"
    and "(totalTicks d + seek + rot) mod RotationTime = 0"
proof -
  define a where "a = s div 32"
  define b where "b = lastSector d div 32"
  have ab: "0 \<le> a" "a \<le> 31" "0 \<le> b" "b \<le> 31"
    using assms(2,3) unfolding a_def b_def sector_ok_def disk_consts by auto
  have seek: "seek = \<bar>a - b\<bar> * 500"
    and rot: "rot = (let over = (totalTicks d + seek) mod 500 in if over > 0 then 500 - over else 0)"
    using assms by (auto simp: TimeToSeek_def a_def b_def disk_consts sector_ok_def Let_def)
  show "0 \<le> seek" and le: "seek \<le> 31 * SeekTime" using ab by (auto simp: seek disk_consts)
  have m: "0 \<le> (totalTicks d + seek) mod 500" "(totalTicks d + seek) mod 500 < 500" by simp_all
  then show "0 \<le> rot" and "rot < RotationTime" by (auto simp: rot disk_consts Let_def)
  show "(totalTicks d + seek + rot) mod RotationTime = 0"
  proof (cases "(totalTicks d + seek) mod 500 > 0")
    case True
    then have "rot = 500 - (totalTicks d + seek) mod 500" by (simp add: rot)
    then have "(totalTicks d + seek + rot) mod 500
        = ((totalTicks d + seek) mod 500 + (500 - (totalTicks d + seek) mod 500)) mod 500"
      by (metis mod_add_left_eq)
    then show ?thesis by (simp add: disk_consts)
  next
    case False
    with m show ?thesis by (simp add: rot disk_consts)
  qed
qed

lemma ModuloDiff_eq:
  assumes "0 \<le> to" and "0 \<le> from"
  shows "ModuloDiff to from = (to - from) mod 32"
proof -
  have m: "0 \<le> to mod 32" "from mod 32 < 32" by simp_all
  then have n: "0 \<le> to mod 32 - from mod 32 + 32" by linarith
  have "ModuloDiff to from = (to mod 32 - from mod 32 + 32) mod 32"
    using assms n by (simp add: ModuloDiff_def disk_consts)
  also have "\<dots> = (to - from) mod 32" by (simp add: mod_diff_eq)
  finally show ?thesis .
qed

lemma ModuloDiff_bounds: "0 \<le> to \<Longrightarrow> 0 \<le> from \<Longrightarrow> 0 \<le> ModuloDiff to from \<and> ModuloDiff to from < 32"
  by (simp add: ModuloDiff_eq)

lemma ComputeLatency_bounds:
  assumes "disk_ok d" and "sector_ok s"
  shows "RotationTime \<le> ComputeLatency d s w"
    and "ComputeLatency d s w < 31 * SeekTime + 33 * RotationTime"
proof -
  obtain seek rot where t: "TimeToSeek d s = (seek, rot)" by fastforce
  note b = TimeToSeek_bounds [OF t assms(2)]
  have ok: "sector_ok (lastSector d)" "0 \<le> totalTicks d" using assms by (auto simp: disk_ok_def)
  note b = b [OF ok]
  define q where "q = (totalTicks d + seek + rot) sdiv RotationTime"
  define m where "m = ModuloDiff s q"
  have "0 \<le> totalTicks d + seek + rot" using b ok by linarith
  then have "0 \<le> q" unfolding q_def disk_consts by simp
  then have m: "0 \<le> m" "m \<le> 31"
    using ModuloDiff_bounds [of s q] assms(2) by (auto simp: sector_ok_def m_def)
  have L: "ComputeLatency d s w = RotationTime \<or>
      ComputeLatency d s w = seek + (rot + m * RotationTime) + RotationTime"
    unfolding ComputeLatency_def t prod.case Let_def m_def q_def by simp
  show "RotationTime \<le> ComputeLatency d s w"
    using L b m unfolding disk_consts by linarith
  show "ComputeLatency d s w < 31 * SeekTime + 33 * RotationTime"
    using L b m unfolding disk_consts by linarith
qed

text \<open>
  An unbuffered request ends exactly when the last byte of its sector has passed under the head:
  the disk turns by one sector in \<open>RotationTime\<close> ticks.
\<close>

lemma ComputeLatency_write_ends:
  assumes "disk_ok d" and "sector_ok s"
  shows "(totalTicks d + ComputeLatency d s True) mod (SectorsPerTrack * RotationTime)
       = (s mod SectorsPerTrack + 1) mod SectorsPerTrack * RotationTime"
proof -
  obtain seek rot where t: "TimeToSeek d s = (seek, rot)" by fastforce
  have ok: "sector_ok (lastSector d)" "0 \<le> totalTicks d" using assms by (auto simp: disk_ok_def)
  note b = TimeToSeek_bounds [OF t assms(2) ok]
  define q where "q = (totalTicks d + seek + rot) div 500"
  have e: "totalTicks d + seek + rot = 500 * q"
    using b(5) unfolding q_def disk_consts by (simp add: mod_eq_0_iff_dvd)
  have q: "0 \<le> q" using b ok unfolding q_def by (simp add: pos_imp_zdiv_nonneg_iff)
  have sd: "(totalTicks d + seek + rot) sdiv 500 = q" using b ok by (simp add: q_def)
  have "ComputeLatency d s True = seek + (rot + (s - q) mod 32 * 500) + 500"
    using q assms(2) sd unfolding ComputeLatency_def t prod.case Let_def
    by (simp add: ModuloDiff_eq sector_ok_def disk_consts)
  then have "totalTicks d + ComputeLatency d s True = 500 * (q + (s - q) mod 32 + 1)"
    using e by simp
  then have "(totalTicks d + ComputeLatency d s True) mod 16000 = 500 * ((q + (s - q) mod 32 + 1) mod 32)"
    using mult_mod_right [of 500 "q + (s - q) mod 32 + 1" 32] by simp
  also have "(q + (s - q) mod 32 + 1) mod 32 = (s mod 32 + 1) mod 32"
  proof -
    have "(q + (s - q) mod 32 + 1) mod 32 = ((s - q) mod 32 + (q + 1)) mod 32"
      by (simp only: add.commute add.left_commute add.assoc)
    also have "\<dots> = (s + 1) mod 32" by (subst mod_add_left_eq) (rule arg_cong [where f = "\<lambda>x. x mod 32"], linarith)
    also have "\<dots> = (s mod 32 + 1) mod 32" by (simp only: mod_add_left_eq)
    finally show ?thesis .
  qed
  finally show ?thesis by (simp add: disk_consts)
qed

subsection \<open>Transfers\<close>

lemma UpdateLast_simps [simp]:
  "active (UpdateLast d s) = active d" "lastSector (UpdateLast d s) = s"
  "sectors (UpdateLast d s) = sectors d" "totalTicks (UpdateLast d s) = totalTicks d"
  "resume (UpdateLast d s) = resume d" "numDiskReads (UpdateLast d s) = numDiskReads d"
  "numDiskWrites (UpdateLast d s) = numDiskWrites d"
  by (simp_all add: UpdateLast_def Let_def split: prod.split)

lemma UpdateLast_bufferInit:
  assumes "disk_ok d" and "sector_ok s"
  shows "0 \<le> bufferInit (UpdateLast (d\<lparr>active := True\<rparr>) s)"
proof -
  obtain seek rot where t: "TimeToSeek d s = (seek, rot)" by fastforce
  have ok: "sector_ok (lastSector d)" "0 \<le> totalTicks d" "0 \<le> bufferInit d"
    using assms by (auto simp: disk_ok_def)
  have "TimeToSeek (d\<lparr>active := True\<rparr>) s = (seek, rot)"
    using t by (simp add: TimeToSeek_def)
  moreover have "0 \<le> totalTicks d + seek + rot"
    using TimeToSeek_bounds [OF t assms(2) ok(1,2)] ok by linarith
  ultimately show ?thesis using ok by (simp add: UpdateLast_def)
qed

text \<open>What an operation that only moves the head and the clock leaves.\<close>

definition idle_after :: "disk \<Rightarrow> disk \<Rightarrow> bool" where
  "idle_after d d' \<longleftrightarrow> disk_ok d' \<and> totalTicks d \<le> totalTicks d' \<and> resume d' = resume d"

lemma idle_after_ok [simp]: "idle_after d d' \<Longrightarrow> disk_ok d'"
  by (simp add: idle_after_def)

lemma idle_after_refl [simp]: "disk_ok d \<Longrightarrow> idle_after d d"
  by (simp add: idle_after_def)

lemma idle_after_trans: "idle_after d d' \<Longrightarrow> idle_after d' d'' \<Longrightarrow> idle_after d d''"
  by (simp add: idle_after_def)

lemma wait_interrupt_idle:
  assumes "disk_ok d" and "totalTicks d1 = totalTicks d" and "resume d1 = resume d"
    and "sector_ok (lastSector d1)" and "0 \<le> bufferInit d1" and "0 < t"
    and "\<forall>s. sector_ok s \<longrightarrow> length (sectors d1 s) = 128"
  shows "idle_after d (wait_interrupt t d1)"
proof -
  have "\<forall>t. t \<le> resume d t" and t: "0 \<le> totalTicks d" using assms(1) by (auto simp: disk_ok_def)
  then have "totalTicks d + t \<le> resume d (totalTicks d + t)" by blast
  then have "totalTicks d \<le> resume d (totalTicks d + t)" "0 \<le> resume d (totalTicks d + t)"
    using assms(6) t by linarith+
  with assms show ?thesis
    by (auto simp: idle_after_def wait_interrupt_def Disk_CallBack_def disk_ok_def)
qed

lemma ReadSector_ok:
  assumes "disk_ok d" and "sector_ok s"
  obtains d' where "ReadSector d s = Some (sectors d s, d')" and "idle_after d d'"
    and "sectors d' = sectors d"
proof -
  let ?t = "ComputeLatency d s False"
  let ?u = "UpdateLast (d\<lparr>active := True\<rparr>) s"
  let ?d1 = "?u\<lparr>numDiskReads := numDiskReads ?u + 1\<rparr>"
  have t: "0 < ?t" using ComputeLatency_bounds(1) [OF assms, of False] by (simp add: disk_consts)
  have "ReadSector d s = Some (sectors d s, wait_interrupt ?t ?d1)"
    using assms t by (simp add: ReadSector_def ReadRequest_def disk_ok_def sector_ok_def Let_def)
  moreover have "idle_after d (wait_interrupt ?t ?d1)"
    using assms t UpdateLast_bufferInit [OF assms]
    by (intro wait_interrupt_idle) (auto simp: disk_ok_def)
  moreover have "sectors (wait_interrupt ?t ?d1) = sectors d"
    by (simp add: wait_interrupt_def Disk_CallBack_def)
  ultimately show ?thesis by (rule that)
qed

lemma UpdateLast_sectors:
  "UpdateLast (d\<lparr>sectors := f, active := True\<rparr>) s = (UpdateLast (d\<lparr>active := True\<rparr>) s)\<lparr>sectors := f\<rparr>"
  by (simp add: UpdateLast_def TimeToSeek_def Let_def)

lemma WriteSector_ok:
  assumes "disk_ok d" and "sector_ok s" and "length data = 128"
  obtains d' where "WriteSector d s data = Some d'" and "idle_after d d'"
    and "sectors d' = (sectors d)(s := data)"
proof -
  let ?t = "ComputeLatency d s True"
  let ?f = "(sectors d)(s := data)"
  let ?u = "UpdateLast (d\<lparr>sectors := ?f, active := True\<rparr>) s"
  let ?d1 = "?u\<lparr>numDiskWrites := numDiskWrites ?u + 1\<rparr>"
  have t: "0 < ?t" using ComputeLatency_bounds(1) [OF assms(1,2), of True] by (simp add: disk_consts)
  have g: "bytes_get data 0 SectorSize = Some data"
    using assms(3) by (simp add: bytes_get_def disk_consts)
  have "WriteSector d s data = Some (wait_interrupt ?t ?d1)"
    using assms t by (simp add: WriteSector_def WriteRequest_def disk_ok_def sector_ok_def Let_def g)
  moreover have "idle_after d (wait_interrupt ?t ?d1)"
    using assms t UpdateLast_bufferInit [OF assms(1,2)]
    by (intro wait_interrupt_idle) (auto simp: disk_ok_def UpdateLast_sectors)
  moreover have "sectors (wait_interrupt ?t ?d1) = ?f"
    by (simp add: wait_interrupt_def Disk_CallBack_def)
  ultimately show ?thesis by (rule that)
qed

lemma upto_snoc: "0 \<le> n \<Longrightarrow> [0..n] = [0..n - 1] @ [n]" for n :: int
  by (rule upto_rec2)

text \<open>The run of sectors from \<open>s\<close>, \<open>n\<close> of them, as one string of bytes.\<close>

definition run_bytes :: "(int \<Rightarrow> byte list) \<Rightarrow> int \<Rightarrow> nat \<Rightarrow> byte list" where
  "run_bytes f s n = concat (map (\<lambda>i. f (s + int i)) [0..<n])"

lemma run_bytes_0 [simp]: "run_bytes f s 0 = []"
  by (simp add: run_bytes_def)

lemma run_bytes_Suc: "run_bytes f s (Suc n) = run_bytes f s n @ f (s + int n)"
  by (simp add: run_bytes_def)

lemma length_run_bytes:
  "(\<And>i. i < n \<Longrightarrow> length (f (s + int i)) = 128) \<Longrightarrow> length (run_bytes f s n) = 128 * n"
  by (induction n) (simp_all add: run_bytes_Suc)

lemma run_bytes_cong:
  "(\<And>i. i < n \<Longrightarrow> f (s + int i) = g (s + int i)) \<Longrightarrow> run_bytes f s n = run_bytes g s n"
  by (induction n) (simp_all add: run_bytes_Suc)

lemma read_loop:
  assumes "disk_ok d" and "0 \<le> s" and "s + int n \<le> NumSectors" and "length rest = 128 * m"
    and "n \<le> m"
  shows "\<exists>d'. foldM (read_step s) [0..int n - 1] (rest, d) =
      Some (run_bytes (sectors d) s n @ drop (128 * n) rest, d') \<and>
      idle_after d d' \<and> sectors d' = sectors d"
  using assms
proof (induction n)
  case 0
  then show ?case by simp
next
  case (Suc n)
  have "\<exists>d1. foldM (read_step s) [0..int n - 1] (rest, d) =
      Some (run_bytes (sectors d) s n @ drop (128 * n) rest, d1) \<and>
      idle_after d d1 \<and> sectors d1 = sectors d"
    using Suc by (intro Suc.IH) simp_all
  then obtain d1 where d1: "foldM (read_step s) [0..int n - 1] (rest, d) =
      Some (run_bytes (sectors d) s n @ drop (128 * n) rest, d1)"
    and i1: "idle_after d d1" and s1: "sectors d1 = sectors d" by blast
  have sok: "sector_ok (s + int n)" using Suc.prems by (simp add: sector_ok_def)
  obtain d2 where d2: "ReadSector d1 (s + int n) = Some (sectors d1 (s + int n), d2)"
    and i2: "idle_after d1 d2" and s2: "sectors d2 = sectors d1"
    using ReadSector_ok [OF idle_after_ok [OF i1] sok] by blast
  have len: "length (sectors d (s + int i)) = 128" if "i \<le> n" for i
    using Suc.prems that by (simp add: disk_ok_def sector_ok_def)
  have lr: "length (run_bytes (sectors d) s n) = 128 * n"
    by (rule length_run_bytes) (simp add: len)
  have "bytes_put (run_bytes (sectors d) s n @ drop (128 * n) rest) (int n * SectorSize)
      (sectors d (s + int n)) = Some (run_bytes (sectors d) s (Suc n) @ drop (128 * Suc n) rest)"
    using lr len [of n] Suc.prems
    by (simp add: bytes_put_def disk_consts run_bytes_Suc nat_mult_distrib mult.commute)
  then have "read_step s (int n) (run_bytes (sectors d) s n @ drop (128 * n) rest, d1) =
      Some (run_bytes (sectors d) s (Suc n) @ drop (128 * Suc n) rest, d2)"
    by (simp add: read_step_def d2 s1)
  then have "foldM (read_step s) [0..int (Suc n) - 1] (rest, d) =
      Some (run_bytes (sectors d) s (Suc n) @ drop (128 * Suc n) rest, d2)"
    by (simp add: upto_snoc foldM_append d1)
  then show ?case using idle_after_trans [OF i1 i2] s1 s2 by auto
qed

lemma ReadLength_ok:
  assumes "disk_ok d" and "0 \<le> s" and "0 \<le> len" and "s + divRoundUp len SectorSize \<le> NumSectors"
  obtains d' where "ReadLength d s len =
      Some (take (nat len) (run_bytes (sectors d) s (nat (divRoundUp len SectorSize))), d')"
    and "idle_after d d'" and "sectors d' = sectors d"
proof -
  define n where "n = nat (divRoundUp len SectorSize)"
  have b: "0 \<le> divRoundUp len SectorSize" "len \<le> divRoundUp len SectorSize * SectorSize"
    using divRoundUp_bounds [of len SectorSize] assms(3) by (simp_all add: disk_consts)
  then have n: "divRoundUp len SectorSize = int n" by (simp add: n_def)
  have "\<exists>d'. foldM (read_step s) [0..int n - 1] (replicate (nat (int n * SectorSize)) 0, d) =
      Some (run_bytes (sectors d) s n @ drop (128 * n) (replicate (nat (int n * SectorSize)) 0), d') \<and>
      idle_after d d' \<and> sectors d' = sectors d"
    using assms n by (intro read_loop [where m = n]) (simp_all add: disk_consts nat_mult_distrib)
  then obtain d' where l: "foldM (read_step s) [0..int n - 1] (replicate (nat (int n * SectorSize)) 0, d) =
      Some (run_bytes (sectors d) s n, d')" and i: "idle_after d d'" and s': "sectors d' = sectors d"
    by (auto simp: disk_consts nat_mult_distrib)
  have "length (run_bytes (sectors d) s n) = 128 * n"
    using assms n by (intro length_run_bytes) (simp add: disk_ok_def sector_ok_def)
  then have g: "bytes_get (run_bytes (sectors d) s n) 0 len = Some (take (nat len) (run_bytes (sectors d) s n))"
    using b assms(3) n by (simp add: bytes_get_def disk_consts)
  have "ReadLength d s len = Some (take (nat len) (run_bytes (sectors d) s n), d')"
    using l g by (simp add: ReadLength_def n Let_def)
  then show ?thesis using that i s' by (simp add: n_def)
qed

definition sectors_put :: "(int \<Rightarrow> byte list) \<Rightarrow> int \<Rightarrow> nat \<Rightarrow> byte list \<Rightarrow> int \<Rightarrow> byte list" where
  "sectors_put f s n buf = (\<lambda>k. if s \<le> k \<and> k < s + int n
     then take 128 (drop (128 * nat (k - s)) buf) else f k)"

lemma sectors_put_0 [simp]: "sectors_put f s 0 buf = f"
proof
  fix k
  have "\<not> (s \<le> k \<and> k < s + int 0)" by linarith
  then show "sectors_put f s 0 buf k = f k" by (simp only: sectors_put_def if_False)
qed

lemma sectors_put_Suc:
  "(sectors_put f s n buf)(s + int n := take 128 (drop (128 * n) buf)) = sectors_put f s (Suc n) buf"
  by (auto simp: sectors_put_def fun_eq_iff)

lemma sectors_put_out: "k < s \<or> s + int n \<le> k \<Longrightarrow> sectors_put f s n buf k = f k"
  by (auto simp: sectors_put_def)

lemma take_plus: "take (a + b) xs = take a xs @ take b (drop a xs)"
  by (rule take_add)

lemma run_bytes_put: "k \<le> n \<Longrightarrow> run_bytes (sectors_put f s n buf) s k = take (128 * k) buf"
proof (induction k)
  case (Suc k)
  have "128 * Suc k = 128 * k + 128" by simp
  then have "take (128 * Suc k) buf = take (128 * k) buf @ take 128 (drop (128 * k) buf)"
    by (simp only: take_plus)
  with Suc show ?case by (simp add: run_bytes_Suc sectors_put_def)
qed simp

lemma run_bytes_put_out:
  "s' + int m \<le> s \<or> s + int n \<le> s' \<Longrightarrow> run_bytes (sectors_put f s n buf) s' m = run_bytes f s' m"
  by (rule run_bytes_cong) (auto simp: sectors_put_def)

lemma write_loop:
  assumes "disk_ok d" and "0 \<le> s" and "s + int n \<le> NumSectors" and "length buf = 128 * m"
    and "n \<le> m"
  shows "\<exists>d'. foldM (write_step s buf) [0..int n - 1] d = Some d' \<and>
      idle_after d d' \<and> sectors d' = sectors_put (sectors d) s n buf"
  using assms
proof (induction n)
  case 0
  then show ?case by simp
next
  case (Suc n)
  have "\<exists>d1. foldM (write_step s buf) [0..int n - 1] d = Some d1 \<and>
      idle_after d d1 \<and> sectors d1 = sectors_put (sectors d) s n buf"
    using Suc by (intro Suc.IH) simp_all
  then obtain d1 where d1: "foldM (write_step s buf) [0..int n - 1] d = Some d1"
    and i1: "idle_after d d1" and s1: "sectors d1 = sectors_put (sectors d) s n buf" by blast
  have sok: "sector_ok (s + int n)" using Suc.prems by (simp add: sector_ok_def)
  let ?b = "take 128 (drop (128 * n) buf)"
  have len: "length ?b = 128" using Suc.prems by simp
  obtain d2 where d2: "WriteSector d1 (s + int n) ?b = Some d2"
    and i2: "idle_after d1 d2" and s2: "sectors d2 = (sectors d1)(s + int n := ?b)"
    using WriteSector_ok [OF idle_after_ok [OF i1] sok len] by blast
  have "bytes_get buf (int n * SectorSize) SectorSize = Some ?b"
    using Suc.prems by (simp add: bytes_get_def disk_consts nat_mult_distrib mult.commute)
  then have "foldM (write_step s buf) [0..int (Suc n) - 1] d = Some d2"
    by (simp add: upto_snoc foldM_append d1 write_step_def d2)
  then show ?case using idle_after_trans [OF i1 i2] s1 s2 by (auto simp: sectors_put_Suc)
qed

text \<open>The bytes \<open>WriteLength\<close> stores: the data, padded with zeros to whole sectors.\<close>

definition padded :: "int \<Rightarrow> byte list \<Rightarrow> byte list" where
  "padded len data = take (nat len) data @
     replicate (nat (divRoundUp len SectorSize * SectorSize) - nat len) 0"

lemma length_padded:
  assumes "0 \<le> len" and "len \<le> int (length data)"
  shows "length (padded len data) = 128 * nat (divRoundUp len SectorSize)"
proof -
  have "len \<le> divRoundUp len SectorSize * SectorSize" "0 \<le> divRoundUp len SectorSize"
    using divRoundUp_bounds [of len SectorSize] assms by (simp_all add: disk_consts)
  with assms show ?thesis by (simp add: padded_def disk_consts nat_mult_distrib)
qed

lemma take_padded: "0 \<le> len \<Longrightarrow> len \<le> int (length data) \<Longrightarrow> take (nat len) (padded len data) = take (nat len) data"
  by (simp add: padded_def)

lemma WriteLength_ok:
  assumes "disk_ok d" and "0 \<le> s" and "0 \<le> len" and "s + divRoundUp len SectorSize \<le> NumSectors"
    and "len \<le> int (length data)"
  obtains d' where "WriteLength d s len data = Some d'" and "idle_after d d'"
    and "sectors d' = sectors_put (sectors d) s (nat (divRoundUp len SectorSize)) (padded len data)"
proof -
  define n where "n = nat (divRoundUp len SectorSize)"
  have b: "0 \<le> divRoundUp len SectorSize" "len \<le> divRoundUp len SectorSize * SectorSize"
    using divRoundUp_bounds [of len SectorSize] assms(3) by (simp_all add: disk_consts)
  then have n: "divRoundUp len SectorSize = int n" by (simp add: n_def)
  have pl: "length (padded len data) = 128 * n"
    using length_padded [OF assms(3,5)] n by simp
  have "\<exists>d'. foldM (write_step s (padded len data)) [0..int n - 1] d = Some d' \<and>
      idle_after d d' \<and> sectors d' = sectors_put (sectors d) s n (padded len data)"
    using assms n pl by (intro write_loop [where m = n]) simp_all
  then obtain d' where l: "foldM (write_step s (padded len data)) [0..int n - 1] d = Some d'"
    and i: "idle_after d d'" and s': "sectors d' = sectors_put (sectors d) s n (padded len data)"
    by blast
  have g: "bytes_get data 0 len = Some (take (nat len) data)"
    using assms by (simp add: bytes_get_def)
  have p: "bytes_put (replicate (nat (int n * SectorSize)) 0) 0 (take (nat len) data)
      = Some (padded len data)"
  proof -
    have "length (take (nat len) data) = nat len" using assms by simp
    moreover have "len \<le> int n * 128" using b n by (simp add: disk_consts)
    ultimately show ?thesis
      using assms(3) unfolding bytes_put_def padded_def n by (simp add: disk_consts)
  qed
  have "WriteLength d s len data = Some d'"
    using l by (simp add: WriteLength_def n Let_def g p)
  then show ?thesis using that i s' by (simp add: n_def)
qed

text \<open>
  A run of sectors read after a write: the written bytes for the same run, what was there for a
  run that is disjoint from it.
\<close>

lemma ReadLength_back:
  assumes "0 \<le> len" and "len \<le> int (length data)"
  shows "take (nat len) (run_bytes (sectors_put f s (nat (divRoundUp len SectorSize)) (padded len data))
           s (nat (divRoundUp len SectorSize))) = take (nat len) data"
  using assms length_padded [OF assms] by (simp add: run_bytes_put take_padded)

definition blank_disk :: disk where
  "blank_disk = \<lparr>active = False, lastSector = 0, bufferInit = 0,
     sectors = (\<lambda>_. replicate 128 0), totalTicks = 0, numDiskReads = 0, numDiskWrites = 0,
     resume = (\<lambda>t. t)\<rparr>"

lemma blank_disk_ok [simp]: "disk_ok blank_disk"
  by (simp add: disk_ok_def blank_disk_def sector_ok_def disk_consts)

lemma Disk_new_blank: "Disk_new None 0 (\<lambda>t. t) = Some blank_disk"
  by (simp add: Disk_new_def blank_disk_def disk_consts)

text \<open>
  C23. \<open>WriteLength\<close> followed by \<open>ReadLength\<close> of the same place gives the bytes that were
  written, whatever their length, and \<open>WriteLength\<close> changes what no other run of sectors reads;
  neither call fails on an idle disk when the run lies on the disk.
\<close>

theorem WriteLength_ReadLength:
  assumes "disk_ok d" and "0 \<le> s" and "0 \<le> len" and "s + divRoundUp len SectorSize \<le> NumSectors"
    and "len \<le> int (length data)"
  shows "\<exists>d1 d2. WriteLength d s len data = Some d1 \<and>
      ReadLength d1 s len = Some (take (nat len) data, d2) \<and> sectors d2 = sectors d1 \<and>
      disk_ok d1 \<and> disk_ok d2 \<and>
      (\<forall>k. k < s \<or> s + divRoundUp len SectorSize \<le> k \<longrightarrow> sectors d1 k = sectors d k)"
proof -
  obtain d1 where d1: "WriteLength d s len data = Some d1" and i: "idle_after d d1"
    and s1: "sectors d1 = sectors_put (sectors d) s (nat (divRoundUp len SectorSize)) (padded len data)"
    using WriteLength_ok [OF assms] by blast
  obtain d2 where d2: "ReadLength d1 s len =
      Some (take (nat len) (run_bytes (sectors d1) s (nat (divRoundUp len SectorSize))), d2)"
    and i2: "idle_after d1 d2" and s2: "sectors d2 = sectors d1"
    using ReadLength_ok [OF idle_after_ok [OF i] assms(2-4)] by blast
  have "0 \<le> divRoundUp len SectorSize"
    using divRoundUp_bounds(3) [of len SectorSize] assms(3) by (simp add: disk_consts)
  then have f: "\<forall>k. k < s \<or> s + divRoundUp len SectorSize \<le> k \<longrightarrow> sectors d1 k = sectors d k"
    by (simp add: s1 sectors_put_def)
  have "ReadLength d1 s len = Some (take (nat len) data, d2)"
    using d2 unfolding s1 ReadLength_back [OF assms(3,5)] by simp
  with d1 s2 f i i2 show ?thesis by auto
qed

theorem WriteLength_ReadLength_witness:
  "\<exists>d1 d2. WriteLength blank_disk 3 2 [7, 9] = Some d1 \<and>
      ReadLength d1 3 2 = Some (take (nat 2) [7, 9], d2) \<and> sectors d2 = sectors d1 \<and>
      disk_ok d1 \<and> disk_ok d2 \<and>
      (\<forall>k. k < 3 \<or> 3 + divRoundUp 2 SectorSize \<le> k \<longrightarrow> sectors d1 k = sectors blank_disk k)"
  by (rule WriteLength_ReadLength) (simp_all add: divRoundUp_def disk_consts)

text \<open>
  C24. The latency of a request is at least one sector time and at most a full seek and one full
  turn and one sector more; a write ends exactly when its sector has passed under the head, and
  the track buffer never makes a read slower than the write of the same sector.
\<close>

theorem ComputeLatency_correct:
  assumes "disk_ok d" and "sector_ok s"
  shows "RotationTime \<le> ComputeLatency d s w \<and>
      ComputeLatency d s w < (NumTracks - 1) * SeekTime + (SectorsPerTrack + 1) * RotationTime \<and>
      (totalTicks d + ComputeLatency d s True) mod (SectorsPerTrack * RotationTime)
        = (s mod SectorsPerTrack + 1) mod SectorsPerTrack * RotationTime \<and>
      ComputeLatency d s False \<le> ComputeLatency d s True"
proof (intro conjI)
  show "RotationTime \<le> ComputeLatency d s w" by (rule ComputeLatency_bounds) (fact assms)+
  show "ComputeLatency d s w < (NumTracks - 1) * SeekTime + (SectorsPerTrack + 1) * RotationTime"
    using ComputeLatency_bounds(2) [OF assms, of w] by (simp add: disk_consts)
  show "(totalTicks d + ComputeLatency d s True) mod (SectorsPerTrack * RotationTime)
      = (s mod SectorsPerTrack + 1) mod SectorsPerTrack * RotationTime"
    by (rule ComputeLatency_write_ends) (fact assms)+
  have "ComputeLatency d s False = RotationTime \<or> ComputeLatency d s False = ComputeLatency d s True"
    by (simp add: ComputeLatency_def Let_def split: prod.split)
  then show "ComputeLatency d s False \<le> ComputeLatency d s True"
    using ComputeLatency_bounds(1) [OF assms, of True] by auto
qed

theorem ComputeLatency_correct_witness:
  "RotationTime \<le> ComputeLatency blank_disk 40 False \<and>
      ComputeLatency blank_disk 40 False < (NumTracks - 1) * SeekTime + (SectorsPerTrack + 1) * RotationTime \<and>
      (totalTicks blank_disk + ComputeLatency blank_disk 40 True) mod (SectorsPerTrack * RotationTime)
        = (40 mod SectorsPerTrack + 1) mod SectorsPerTrack * RotationTime \<and>
      ComputeLatency blank_disk 40 False \<le> ComputeLatency blank_disk 40 True"
  by (rule ComputeLatency_correct) (simp_all add: sector_ok_def disk_consts)

lemma ReadRequest_active: "ReadRequest d n = Some (b, t, d') \<Longrightarrow> active d'"
  by (auto simp: ReadRequest_def Let_def run_simps)

lemma WriteRequest_active: "WriteRequest d n b = Some (t, d') \<Longrightarrow> active d'"
  by (auto simp: WriteRequest_def Let_def run_simps)

lemma upto_two: "2 \<le> n \<Longrightarrow> [0..n - 1] = 0 # 1 # [2..n - 1]" for n :: int
  by (simp add: upto_rec1)

text \<open>
  C25. \<open>ReadBlock\<close>, \<open>WriteBlock\<close> and the fragment variants never succeed for a block of two or
  more sectors, on any disk: the second request is sent while the first is still active.
\<close>

theorem ReadBlock_always_stops:
  assumes "2 * SectorSize \<le> blockSize"
  shows "ReadBlock blockSize d n = None \<and> WriteBlock blockSize d n data = None"
proof -
  define c where "c = blockSize sdiv SectorSize"
  have "2 \<le> blockSize div 128" using assms by (simp add: disk_consts)
  then have c: "2 \<le> c" using assms by (simp add: c_def disk_consts)
  have r: "ReadRequest e m = None" if "active e" for e m
    using that by (simp add: ReadRequest_def Let_def)
  have w: "WriteRequest e m data = None" if "active e" for e m
    using that by (simp add: WriteRequest_def Let_def)
  have "foldM (\<lambda>i (_, _, d). ReadRequest d (c * n + i)) [0..c - 1] ([], 0, d) = None"
    using upto_two [OF c] r [OF ReadRequest_active]
    by (cases "ReadRequest d (c * n)") auto
  moreover have "foldM (\<lambda>i (_, d). WriteRequest d (c * n + i) data) [0..c - 1] (0, d) = None"
    using upto_two [OF c] w [OF WriteRequest_active]
    by (cases "WriteRequest d (c * n) data") auto
  ultimately show ?thesis
    by (simp add: ReadBlock_def WriteBlock_def Let_def c_def [symmetric])
qed

theorem ReadBlock_always_stops_witness:
  "ReadBlock 4096 blank_disk 0 = None \<and> WriteBlock 4096 blank_disk 0 (replicate 4096 0) = None"
  by (rule ReadBlock_always_stops) (simp add: disk_consts)

end
