(* ===== verification/FsMeta.thy ===== *)
theory FsMeta
  imports Disk Bitmap
begin

text \<open>
  The on-disk structures of \<open>filesys/\<close>: the superblock, the summary and the free maps of a
  cylinder group, the i-node (\<open>FileHeader\<close>) and the indirect block, each with its
  \<open>fetchFrom\<close> and \<open>writeBack\<close>; and the in-memory \<open>MetaTable\<close> of open i-nodes. The source
  copies the raw bytes of an object; here its \<open>int\<close> members in order are the bytes. One locale,
  \<open>stored_object\<close>, proves once that what was written back is fetched again.
\<close>

subsection \<open>Objects kept as bytes\<close>

definition fetch_object :: "int \<Rightarrow> (byte list \<Rightarrow> 'x) \<Rightarrow> disk \<Rightarrow> int \<Rightarrow> ('x \<times> disk) option" where
  "fetch_object len dec d start_sector = do {
     (bs, d1) \<leftarrow> ReadLength d start_sector len;
     Some (dec bs, d1) }"

definition write_object :: "int \<Rightarrow> ('x \<Rightarrow> byte list) \<Rightarrow> 'x \<Rightarrow> disk \<Rightarrow> int \<Rightarrow> disk option" where
  "write_object len enc x d start_sector = WriteLength d start_sector len (enc x)"

subsection \<open>The superblock\<close>

record super_block =
  disk_size :: int
  block_size :: int
  block_count :: int
  fragment_size :: int
  fragment_count :: int
  inode_count :: int
  cylinder_groups_count :: int
  cylinder_in_each_group :: int
  offset_each_superblock_cylinder :: int
  offset_each_cylinder_summary :: int
  offset_cylinder_free_block_list :: int
  offset_cylinder_free_inode_list :: int
  offset_cylinder_inode_table :: int
  offset_cylinder_data_block :: int
  num_inode_cylinder :: int
  num_fragment_cylinder :: int

definition SuperBlock_ints :: "super_block \<Rightarrow> int list" where
  "SuperBlock_ints sb = [disk_size sb, block_size sb, block_count sb, fragment_size sb,
     fragment_count sb, inode_count sb, cylinder_groups_count sb, cylinder_in_each_group sb,
     offset_each_superblock_cylinder sb, offset_each_cylinder_summary sb,
     offset_cylinder_free_block_list sb, offset_cylinder_free_inode_list sb,
     offset_cylinder_inode_table sb, offset_cylinder_data_block sb, num_inode_cylinder sb,
     num_fragment_cylinder sb]"

definition SuperBlock_bytes :: "super_block \<Rightarrow> byte list" where
  "SuperBlock_bytes sb = ints_to_bytes (SuperBlock_ints sb)"

definition SuperBlock_of_ints :: "int list \<Rightarrow> super_block" where
  "SuperBlock_of_ints is = \<lparr>disk_size = is ! 0, block_size = is ! 1, block_count = is ! 2,
     fragment_size = is ! 3, fragment_count = is ! 4, inode_count = is ! 5,
     cylinder_groups_count = is ! 6, cylinder_in_each_group = is ! 7,
     offset_each_superblock_cylinder = is ! 8, offset_each_cylinder_summary = is ! 9,
     offset_cylinder_free_block_list = is ! 10, offset_cylinder_free_inode_list = is ! 11,
     offset_cylinder_inode_table = is ! 12, offset_cylinder_data_block = is ! 13,
     num_inode_cylinder = is ! 14, num_fragment_cylinder = is ! 15\<rparr>"

definition SuperBlock_of_bytes :: "byte list \<Rightarrow> super_block" where
  "SuperBlock_of_bytes bs = SuperBlock_of_ints (bytes_to_ints 16 bs)"

definition SuperBlock_fetchFrom :: "disk \<Rightarrow> int \<Rightarrow> (super_block \<times> disk) option" where
  "SuperBlock_fetchFrom = fetch_object 64 SuperBlock_of_bytes"

definition SuperBlock_writeBack :: "super_block \<Rightarrow> disk \<Rightarrow> int \<Rightarrow> disk option" where
  "SuperBlock_writeBack = write_object 64 SuperBlock_bytes"

subsection \<open>The summary of a cylinder group\<close>

record cylinder_summary =
  num_free_block :: int
  num_free_inode :: int
  num_free_fragment :: int

definition decInode :: "cylinder_summary \<Rightarrow> cylinder_summary" where
  "decInode cs = cs\<lparr>num_free_inode := num_free_inode cs - 1\<rparr>"
definition decBlock :: "cylinder_summary \<Rightarrow> cylinder_summary" where
  "decBlock cs = cs\<lparr>num_free_block := num_free_block cs - 1\<rparr>"
definition decFragment :: "cylinder_summary \<Rightarrow> cylinder_summary" where
  "decFragment cs = cs\<lparr>num_free_fragment := num_free_fragment cs - 1\<rparr>"

definition CylinderSummary_bytes :: "cylinder_summary \<Rightarrow> byte list" where
  "CylinderSummary_bytes cs =
     ints_to_bytes [num_free_block cs, num_free_inode cs, num_free_fragment cs]"

definition CylinderSummary_of_bytes :: "byte list \<Rightarrow> cylinder_summary" where
  "CylinderSummary_of_bytes bs = (let is = bytes_to_ints 3 bs in
     \<lparr>num_free_block = is ! 0, num_free_inode = is ! 1, num_free_fragment = is ! 2\<rparr>)"

definition CylinderSummary_fetchFrom :: "disk \<Rightarrow> int \<Rightarrow> (cylinder_summary \<times> disk) option" where
  "CylinderSummary_fetchFrom = fetch_object 12 CylinderSummary_of_bytes"

definition CylinderSummary_writeBack :: "cylinder_summary \<Rightarrow> disk \<Rightarrow> int \<Rightarrow> disk option" where
  "CylinderSummary_writeBack = write_object 12 CylinderSummary_bytes"

subsection \<open>The free maps of a cylinder group\<close>

record cylinder_freemap =
  num_cylinder_inode :: int
  num_cylinder_fragment :: int
  inode_free_map :: bitmap
  fragment_free_map :: bitmap

definition CylinderFreemap_new :: "int \<Rightarrow> int \<Rightarrow> cylinder_freemap option" where
  "CylinderFreemap_new inode fragment = do {
     im \<leftarrow> Bitmap_new inode;
     fm \<leftarrow> Bitmap_new fragment;
     Some \<lparr>num_cylinder_inode = inode, num_cylinder_fragment = fragment,
           inode_free_map = im, fragment_free_map = fm\<rparr> }"

definition words_to_bytes :: "u32 list \<Rightarrow> byte list" where
  "words_to_bytes ws = ints_to_bytes (map uint ws)"

fun bytes_to_words :: "nat \<Rightarrow> byte list \<Rightarrow> u32 list" where
  "bytes_to_words 0 bs = []"
| "bytes_to_words (Suc n) bs = bytes_to_word (take 4 bs) # bytes_to_words n (drop 4 bs)"

text \<open>Reading into and writing from the word array of a bitmap.\<close>

definition map_fetch :: "bitmap \<Rightarrow> disk \<Rightarrow> int \<Rightarrow> (bitmap \<times> disk) option" where
  "map_fetch b d start_sector = do {
     (ws, d1) \<leftarrow> fetch_object (numWords b * 4) (bytes_to_words (nat (numWords b))) d start_sector;
     Some (b\<lparr>bm_map := ws\<rparr>, d1) }"

definition map_write :: "bitmap \<Rightarrow> disk \<Rightarrow> int \<Rightarrow> disk option" where
  "map_write b = write_object (numWords b * 4) words_to_bytes (bm_map b)"

definition CylinderFreemap_fetchFrom ::
    "cylinder_freemap \<Rightarrow> disk \<Rightarrow> int \<Rightarrow> int \<Rightarrow> (cylinder_freemap \<times> disk) option" where
  "CylinderFreemap_fetchFrom cf d block_start inode_start = do {
     (fm, d1) \<leftarrow> map_fetch (fragment_free_map cf) d block_start;
     (im, d2) \<leftarrow> map_fetch (inode_free_map cf) d1 inode_start;
     Some (cf\<lparr>fragment_free_map := fm, inode_free_map := im\<rparr>, d2) }"

definition CylinderFreemap_writeBack :: "cylinder_freemap \<Rightarrow> disk \<Rightarrow> int \<Rightarrow> int \<Rightarrow> disk option" where
  "CylinderFreemap_writeBack cf d block_start inode_start = do {
     d1 \<leftarrow> map_write (fragment_free_map cf) d block_start;
     map_write (inode_free_map cf) d1 inode_start }"

subsection \<open>The indirect block\<close>

type_synonym indirect_block = "int list"

definition IndirectBlock_fetchFrom :: "disk \<Rightarrow> int \<Rightarrow> (int list \<times> disk) option" where
  "IndirectBlock_fetchFrom = fetch_object 512 (bytes_to_ints 128)"

definition IndirectBlock_writeBack :: "int list \<Rightarrow> disk \<Rightarrow> int \<Rightarrow> disk option" where
  "IndirectBlock_writeBack = write_object 512 ints_to_bytes"

text \<open>
  Copying the first \<open>n\<close> elements of an array over those of another, as the loops of the source
  do: \<open>None\<close> when either array is too short.
\<close>

definition copy_ints :: "int list \<Rightarrow> int \<Rightarrow> int list \<Rightarrow> int list option" where
  "copy_ints from n to = foldM (\<lambda>i to. do { v \<leftarrow> arr_get from i; arr_set to i v }) [0..n - 1] to"

definition setFragments :: "int list \<Rightarrow> int \<Rightarrow> int list option" where
  "setFragments new_fragments n =
     (let end = if n > 128 then 128 else n in copy_ints new_fragments end (replicate 128 0))"

subsection \<open>The i-node\<close>

text \<open>
  The tick count as it is stored: the model's time never wraps, but the fields are \<open>int\<close>s.
\<close>

definition clock :: "disk \<Rightarrow> int" where
  "clock d = sint (word_of_int (totalTicks d) :: u32)"

lemma clock_range: "int_range (clock d)"
  using sint_range_size [of "word_of_int (totalTicks d) :: u32"] by (simp add: clock_def int_range_def word_size)

definition NUM_DIRECT_FRAGMENTS :: int where "NUM_DIRECT_FRAGMENTS = 16"

record file_header =
  hdr_id :: int
  hdr_type :: int
  owner_id :: int
  last_modified :: int
  last_accessed :: int
  link_count :: int
  numBytes :: int
  numFragments :: int
  dataFragments :: "int list"
  indirect_block :: int

text \<open>
  The constructor leaves \<open>dataFragments\<close> as the allocator found them: \<open>junk\<close>.
\<close>

definition FileHeader_new :: "int list \<Rightarrow> disk \<Rightarrow> int \<Rightarrow> file_header" where
  "FileHeader_new junk d inode_number =
     \<lparr>hdr_id = inode_number, hdr_type = 0, owner_id = 0, last_modified = clock d,
      last_accessed = clock d, link_count = 1, numBytes = 0, numFragments = 0,
      dataFragments = junk, indirect_block = -1\<rparr>"

definition FileHeader_bytes :: "file_header \<Rightarrow> byte list" where
  "FileHeader_bytes h = ints_to_bytes ([hdr_id h, hdr_type h, owner_id h, last_modified h,
     last_accessed h, link_count h, numBytes h, numFragments h] @ dataFragments h @ [indirect_block h])"

definition FileHeader_of_bytes :: "byte list \<Rightarrow> file_header" where
  "FileHeader_of_bytes bs = (let is = bytes_to_ints 25 bs in
     \<lparr>hdr_id = is ! 0, hdr_type = is ! 1, owner_id = is ! 2, last_modified = is ! 3,
      last_accessed = is ! 4, link_count = is ! 5, numBytes = is ! 6, numFragments = is ! 7,
      dataFragments = take 16 (drop 8 is), indirect_block = is ! 24\<rparr>)"

text \<open>An \<open>int\<close> division by zero kills the simulator: \<open>None\<close>.\<close>

definition firstSector :: "super_block \<Rightarrow> file_header \<Rightarrow> int option" where
  "firstSector sb h = do {
     let num_inodes_in_group = num_inode_cylinder sb;
     let legal_inode = hdr_id h - 1;
     ASSERT (num_inodes_in_group \<noteq> 0);
     let index = legal_inode sdiv num_inodes_in_group;
     let offset = legal_inode smod num_inodes_in_group;
     let sector_in_fragment = fragment_size sb sdiv SectorSize;
     let fragment_in_group = num_fragment_cylinder sb;
     Some (fragment_in_group * index * sector_in_fragment +
         offset_each_superblock_cylinder sb * sector_in_fragment +
         offset_cylinder_inode_table sb * sector_in_fragment +
         offset * (128 sdiv SectorSize)) }"

definition FileHeader_fetchFrom :: "super_block \<Rightarrow> file_header \<Rightarrow> disk \<Rightarrow> (file_header \<times> disk) option" where
  "FileHeader_fetchFrom sb h d = do {
     start_sector \<leftarrow> firstSector sb h;
     fetch_object 100 FileHeader_of_bytes d start_sector }"

definition FileHeader_writeBack :: "super_block \<Rightarrow> file_header \<Rightarrow> disk \<Rightarrow> disk option" where
  "FileHeader_writeBack sb h d = do {
     start_sector \<leftarrow> firstSector sb h;
     write_object 100 FileHeader_bytes h d start_sector }"

definition FileLength :: "file_header \<Rightarrow> int" where
  "FileLength h = numBytes h"

definition setLastModified :: "file_header \<Rightarrow> disk \<Rightarrow> file_header" where
  "setLastModified h d = h\<lparr>last_modified := clock d\<rparr>"

definition setDataFragments :: "file_header \<Rightarrow> int list \<Rightarrow> int \<Rightarrow> file_header option" where
  "setDataFragments h frags n = do {
     let k = (if n > NUM_DIRECT_FRAGMENTS then NUM_DIRECT_FRAGMENTS else n);
     fs \<leftarrow> copy_ints frags k (replicate (nat NUM_DIRECT_FRAGMENTS) 0);
     Some (h\<lparr>dataFragments := fs\<rparr>) }"

subsection \<open>The table of open i-nodes\<close>

text \<open>
  The lock that every operation takes first and releases last is not part of this sequential
  state. \<open>findInodeIndex\<close> returns no value when the i-node is not in the table: \<open>None\<close>.
\<close>

record meta_item =
  mt_inode :: int
  usage :: int
  mt_modified :: int
  finish :: int

type_synonym meta_table = "meta_item list"

definition MetaTableItem_new :: "int \<Rightarrow> meta_item" where
  "MetaTableItem_new inode = \<lparr>mt_inode = inode, usage = 0, mt_modified = 0, finish = 0\<rparr>"

definition MetaTable_new :: "int \<Rightarrow> meta_table" where
  "MetaTable_new n = map MetaTableItem_new [1..n]"

fun findInodeIndex :: "meta_table \<Rightarrow> int \<Rightarrow> nat option" where
  "findInodeIndex [] inode = None"
| "findInodeIndex (x # xs) inode =
     (if inode = mt_inode x then Some 0 else map_option Suc (findInodeIndex xs inode))"

definition getUsage :: "meta_table \<Rightarrow> int \<Rightarrow> int option" where
  "getUsage t inode = do { i \<leftarrow> findInodeIndex t inode; Some (usage (t ! i)) }"

definition setUsage :: "meta_table \<Rightarrow> int \<Rightarrow> int \<Rightarrow> meta_table option" where
  "setUsage t inode u = do { i \<leftarrow> findInodeIndex t inode; Some (t[i := (t ! i)\<lparr>usage := u\<rparr>]) }"

definition incUsage :: "meta_table \<Rightarrow> int \<Rightarrow> meta_table option" where
  "incUsage t inode = do {
     i \<leftarrow> findInodeIndex t inode;
     Some (t[i := (t ! i)\<lparr>usage := usage (t ! i) + 1\<rparr>]) }"

definition decUsage :: "meta_table \<Rightarrow> int \<Rightarrow> meta_table option" where
  "decUsage t inode = do {
     i \<leftarrow> findInodeIndex t inode;
     let x = (t ! i)\<lparr>usage := usage (t ! i) - 1\<rparr>;
     Some (t[i := if usage x \<le> 0 then x\<lparr>usage := 0, mt_modified := 0\<rparr> else x]) }"

definition MetaTable_setLastModified :: "meta_table \<Rightarrow> int \<Rightarrow> int \<Rightarrow> meta_table option" where
  "MetaTable_setLastModified t inode m = do {
     i \<leftarrow> findInodeIndex t inode;
     Some (t[i := (t ! i)\<lparr>mt_modified := m\<rparr>]) }"

definition checkLastModified :: "meta_table \<Rightarrow> int \<Rightarrow> int \<Rightarrow> bool option" where
  "checkLastModified t inode m = do {
     i \<leftarrow> findInodeIndex t inode;
     Some (mt_modified (t ! i) = m \<or> mt_modified (t ! i) = 0) }"

definition checkFinish :: "meta_table \<Rightarrow> int \<Rightarrow> (bool \<times> meta_table) option" where
  "checkFinish t inode = do {
     i \<leftarrow> findInodeIndex t inode;
     Some (if finish (t ! i) = 0 then (False, t)
           else if usage (t ! i) \<le> 0 then (True, t[i := (t ! i)\<lparr>mt_modified := 0, finish := 0\<rparr>])
           else (False, t)) }"

definition tryFinish :: "meta_table \<Rightarrow> int \<Rightarrow> (bool \<times> meta_table) option" where
  "tryFinish t inode = do {
     i \<leftarrow> findInodeIndex t inode;
     Some (if usage (t ! i) \<le> 0 then (True, t[i := (t ! i)\<lparr>mt_modified := 0\<rparr>])
           else (False, t[i := (t ! i)\<lparr>finish := 1\<rparr>])) }"

definition waitingFinish :: "meta_table \<Rightarrow> int \<Rightarrow> bool option" where
  "waitingFinish t inode = do { i \<leftarrow> findInodeIndex t inode; Some (finish (t ! i) = 1) }"

subsection \<open>What was written back is fetched\<close>

definition stores :: "(int \<Rightarrow> byte list) \<Rightarrow> int \<Rightarrow> int \<Rightarrow> byte list \<Rightarrow> bool" where
  "stores f s len bs \<longleftrightarrow> take (nat len) (run_bytes f s (nat (divRoundUp len SectorSize))) = bs"

lemma stores_put_out:
  assumes "stores f s len bs" and "s + divRoundUp len SectorSize \<le> s' \<or> s' + int n \<le> s"
    and "0 \<le> len"
  shows "stores (sectors_put f s' n buf) s len bs"
proof -
  have "0 \<le> divRoundUp len SectorSize"
    using divRoundUp_bounds(3) [of len SectorSize] assms(3) by (simp add: disk_consts)
  then show ?thesis
    using assms unfolding stores_def by (subst run_bytes_put_out) auto
qed

locale stored_object =
  fixes len :: int and enc :: "'x \<Rightarrow> byte list" and dec :: "byte list \<Rightarrow> 'x" and ok :: "'x \<Rightarrow> bool"
  assumes len_nonneg: "0 \<le> len"
    and enc_length: "ok x \<Longrightarrow> int (length (enc x)) = len"
    and dec_enc: "ok x \<Longrightarrow> dec (enc x) = x"
begin

lemma write_stores:
  assumes "disk_ok d" and "0 \<le> s" and "s + divRoundUp len SectorSize \<le> NumSectors" and "ok x"
  obtains d' where "write_object len enc x d s = Some d'" and "idle_after d d'"
    and "sectors d' = sectors_put (sectors d) s (nat (divRoundUp len SectorSize)) (padded len (enc x))"
    and "stores (sectors d') s len (enc x)"
proof -
  have l: "len \<le> int (length (enc x))" "nat len = length (enc x)"
    using enc_length [OF assms(4)] by simp_all
  obtain d' where d': "WriteLength d s len (enc x) = Some d'" and i: "idle_after d d'"
    and s': "sectors d' = sectors_put (sectors d) s (nat (divRoundUp len SectorSize)) (padded len (enc x))"
    using WriteLength_ok [OF assms(1,2) len_nonneg assms(3) l(1)] by blast
  have "stores (sectors d') s len (enc x)"
    unfolding stores_def s' ReadLength_back [OF len_nonneg l(1)] by (simp add: l(2))
  with that show ?thesis using d' i s' by (simp add: write_object_def)
qed

lemma fetch_stored:
  assumes "disk_ok d" and "0 \<le> s" and "s + divRoundUp len SectorSize \<le> NumSectors"
    and "stores (sectors d) s len (enc x)" and "ok x"
  obtains d' where "fetch_object len dec d s = Some (x, d')" and "idle_after d d'"
    and "sectors d' = sectors d"
proof -
  obtain d' where "ReadLength d s len =
      Some (take (nat len) (run_bytes (sectors d) s (nat (divRoundUp len SectorSize))), d')"
    and "idle_after d d'" and "sectors d' = sectors d"
    using ReadLength_ok [OF assms(1,2) len_nonneg assms(3)] by blast
  with assms(4,5) that show ?thesis by (simp add: fetch_object_def stores_def dec_enc)
qed

end

lemma ints_roundtrip: "\<forall>i \<in> set is. int_range i \<Longrightarrow> n = length is \<Longrightarrow> bytes_to_ints n (ints_to_bytes is) = is"
  using bytes_to_ints_roundtrip [of "is" "[]"] by simp

definition super_block_ok :: "super_block \<Rightarrow> bool" where
  "super_block_ok sb \<longleftrightarrow> (\<forall>i \<in> set (SuperBlock_ints sb). int_range i)"

interpretation super: stored_object 64 SuperBlock_bytes SuperBlock_of_bytes super_block_ok
proof
  show "(0 :: int) \<le> 64" by simp
  fix x assume ok: "super_block_ok x"
  show "int (length (SuperBlock_bytes x)) = 64"
    by (simp add: SuperBlock_bytes_def SuperBlock_ints_def)
  have "bytes_to_ints 16 (SuperBlock_bytes x) = SuperBlock_ints x"
    using ok unfolding SuperBlock_bytes_def
    by (intro ints_roundtrip) (simp_all add: super_block_ok_def SuperBlock_ints_def)
  then show "SuperBlock_of_bytes (SuperBlock_bytes x) = x"
    by (simp add: SuperBlock_of_bytes_def SuperBlock_of_ints_def SuperBlock_ints_def)
qed

definition summary_ok :: "cylinder_summary \<Rightarrow> bool" where
  "summary_ok cs \<longleftrightarrow> int_range (num_free_block cs) \<and> int_range (num_free_inode cs) \<and>
     int_range (num_free_fragment cs)"

interpretation summary: stored_object 12 CylinderSummary_bytes CylinderSummary_of_bytes summary_ok
proof
  show "(0 :: int) \<le> 12" by simp
  fix x assume ok: "summary_ok x"
  show "int (length (CylinderSummary_bytes x)) = 12" by (simp add: CylinderSummary_bytes_def)
  have "bytes_to_ints 3 (CylinderSummary_bytes x) =
      [num_free_block x, num_free_inode x, num_free_fragment x]"
    using ok unfolding CylinderSummary_bytes_def
    by (intro ints_roundtrip) (simp_all add: summary_ok_def)
  then show "CylinderSummary_of_bytes (CylinderSummary_bytes x) = x"
    by (simp add: CylinderSummary_of_bytes_def)
qed

definition header_ok :: "file_header \<Rightarrow> bool" where
  "header_ok h \<longleftrightarrow> length (dataFragments h) = 16 \<and>
     (\<forall>i \<in> set ([hdr_id h, hdr_type h, owner_id h, last_modified h, last_accessed h, link_count h,
        numBytes h, numFragments h] @ dataFragments h @ [indirect_block h]). int_range i)"

interpretation header: stored_object 100 FileHeader_bytes FileHeader_of_bytes header_ok
proof
  show "(0 :: int) \<le> 100" by simp
  fix x assume ok: "header_ok x"
  then show "int (length (FileHeader_bytes x)) = 100"
    by (simp add: FileHeader_bytes_def header_ok_def)
  let ?is = "[hdr_id x, hdr_type x, owner_id x, last_modified x, last_accessed x, link_count x,
      numBytes x, numFragments x] @ dataFragments x @ [indirect_block x]"
  have "bytes_to_ints 25 (FileHeader_bytes x) = ?is"
    using ok unfolding FileHeader_bytes_def header_ok_def by (intro ints_roundtrip) simp_all
  moreover have "?is ! 24 = indirect_block x"
    using ok by (simp add: header_ok_def nth_append nth_Cons')
  ultimately show "FileHeader_of_bytes (FileHeader_bytes x) = x"
    using ok by (simp add: FileHeader_of_bytes_def header_ok_def Let_def)
qed

definition fragments_ok :: "int list \<Rightarrow> bool" where
  "fragments_ok fs \<longleftrightarrow> length fs = 128 \<and> (\<forall>i \<in> set fs. int_range i)"

interpretation indirect: stored_object 512 ints_to_bytes "bytes_to_ints 128" fragments_ok
  by unfold_locales (auto simp: fragments_ok_def intro: ints_roundtrip)

lemma bytes_to_words_roundtrip: "length ws = n \<Longrightarrow> bytes_to_words n (words_to_bytes ws) = ws"
  by (induction ws arbitrary: n)
    (auto simp: words_to_bytes_def ints_to_bytes_def bytes_to_word_int_to_bytes)

lemma length_words_to_bytes [simp]: "length (words_to_bytes ws) = 4 * length ws"
  by (simp add: words_to_bytes_def)

interpretation fragment_words: stored_object 8 words_to_bytes "bytes_to_words 2" "\<lambda>ws. length ws = 2"
  by unfold_locales (simp_all add: bytes_to_words_roundtrip)

interpretation inode_words: stored_object 4 words_to_bytes "bytes_to_words 1" "\<lambda>ws. length ws = 1"
  by unfold_locales (simp_all add: bytes_to_words_roundtrip del: One_nat_def)

subsection \<open>Deferred removal of an open i-node\<close>

lemma findInodeIndex_bound: "findInodeIndex t inode = Some i \<Longrightarrow> i < length t \<and> mt_inode (t ! i) = inode"
  by (induction t arbitrary: i) (auto split: if_splits)

lemma findInodeIndex_update:
  "mt_inode x = mt_inode (t ! i) \<Longrightarrow> findInodeIndex (t[i := x]) inode = findInodeIndex t inode"
  by (induction t arbitrary: i) (auto split: nat.split)

lemma findInodeIndex_inj:
  "findInodeIndex t a = Some i \<Longrightarrow> findInodeIndex t b = Some i \<Longrightarrow> a = b"
  by (drule findInodeIndex_bound, drule findInodeIndex_bound) simp

definition mt_item :: "meta_table \<Rightarrow> int \<Rightarrow> meta_item option" where
  "mt_item t inode = map_option (\<lambda>i. t ! i) (findInodeIndex t inode)"

lemma mt_item_update:
  assumes "findInodeIndex t inode = Some i" and "mt_inode x = inode"
  shows "mt_item (t[i := x]) = (mt_item t)(inode := Some x)"
proof
  fix j
  have i: "i < length t" "mt_inode (t ! i) = inode" using findInodeIndex_bound [OF assms(1)] by auto
  have f: "findInodeIndex (t[i := x]) j = findInodeIndex t j"
    by (rule findInodeIndex_update) (simp add: i assms)
  show "mt_item (t[i := x]) j = ((mt_item t)(inode := Some x)) j"
  proof (cases "j = inode")
    case True
    with f i assms show ?thesis by (simp add: mt_item_def)
  next
    case False
    then have "findInodeIndex t j \<noteq> Some i" using findInodeIndex_inj [OF assms(1)] by blast
    with False f show ?thesis by (cases "findInodeIndex t j") (auto simp: mt_item_def)
  qed
qed

lemma mt_itemE:
  assumes "mt_item t inode = Some x"
  obtains i where "findInodeIndex t inode = Some i" and "t ! i = x" and "mt_inode x = inode"
  using assms findInodeIndex_bound unfolding mt_item_def by fastforce

lemma MetaTable_new_item: "mt_item (MetaTable_new n) inode =
    (if 1 \<le> inode \<and> inode \<le> n then Some (MetaTableItem_new inode) else None)"
proof -
  have f: "mt_item (map MetaTableItem_new xs) inode =
      (if inode \<in> set xs then Some (MetaTableItem_new inode) else None)" for xs
  proof (induction xs)
    case Nil
    then show ?case by (simp add: mt_item_def)
  next
    case (Cons y xs)
    have y: "mt_inode (MetaTableItem_new y) = y" by (simp add: MetaTableItem_new_def)
    show ?case
    proof (cases "inode = y")
      case False
      have "mt_item (map MetaTableItem_new (y # xs)) inode = mt_item (map MetaTableItem_new xs) inode"
        using False by (simp add: mt_item_def y option.map_comp comp_def)
      with Cons False show ?thesis by simp
    qed (simp add: mt_item_def y)
  qed
  show ?thesis unfolding MetaTable_new_def f by simp
qed

text \<open>
  Closing a file, as the destructor of \<open>OpenFile\<close> does it: one user less, then the question
  whether the i-node is to be unlinked now. \<open>closes n\<close> is that \<open>n\<close> times, with the answers.
\<close>

definition close_inode :: "meta_table \<Rightarrow> int \<Rightarrow> (bool \<times> meta_table) option" where
  "close_inode t inode = do { t1 \<leftarrow> decUsage t inode; checkFinish t1 inode }"

fun closes :: "nat \<Rightarrow> meta_table \<Rightarrow> int \<Rightarrow> (bool list \<times> meta_table) option" where
  "closes 0 t inode = Some ([], t)"
| "closes (Suc n) t inode = do {
     (b, t1) \<leftarrow> close_inode t inode;
     (bs, t2) \<leftarrow> closes n t1 inode;
     Some (b # bs, t2) }"

lemma close_inode_item:
  assumes "mt_item t inode = Some x" and "finish x = 1" and "0 < usage x"
  shows "\<exists>t'. close_inode t inode = Some (usage x = 1, t') \<and> mt_item t' = (mt_item t)(inode :=
      Some (if usage x = 1 then x\<lparr>usage := 0, mt_modified := 0, finish := 0\<rparr>
            else x\<lparr>usage := usage x - 1\<rparr>))"
proof -
  obtain i where i: "findInodeIndex t inode = Some i" "t ! i = x" "mt_inode x = inode"
    by (rule mt_itemE [OF assms(1)])
  have il: "i < length t" using findInodeIndex_bound [OF i(1)] by simp
  let ?x1 = "x\<lparr>usage := usage x - 1\<rparr>"
  let ?x2 = "if usage ?x1 \<le> 0 then ?x1\<lparr>usage := 0, mt_modified := 0\<rparr> else ?x1"
  have d: "decUsage t inode = Some (t[i := ?x2])" using i by (simp add: decUsage_def)
  have f: "findInodeIndex (t[i := ?x2]) inode = Some i"
    by (subst findInodeIndex_update) (use i in auto)
  show ?thesis
  proof (cases "usage x = 1")
    case True
    have "close_inode t inode = Some (True, t[i := x\<lparr>usage := 0, mt_modified := 0, finish := 0\<rparr>])"
      using True il assms(2) f by (simp add: close_inode_def d checkFinish_def)
    moreover have "mt_item (t[i := x\<lparr>usage := 0, mt_modified := 0, finish := 0\<rparr>]) =
        (mt_item t)(inode := Some (x\<lparr>usage := 0, mt_modified := 0, finish := 0\<rparr>))"
      by (rule mt_item_update [OF i(1)]) (simp add: i)
    ultimately show ?thesis using True by simp
  next
    case False
    then have c: "close_inode t inode = Some (False, t[i := ?x1])"
      using il assms(2,3) f by (simp add: close_inode_def d checkFinish_def)
    have "mt_item (t[i := ?x1]) = (mt_item t)(inode := Some ?x1)"
      by (rule mt_item_update [OF i(1)]) (simp add: i)
    with c False show ?thesis by simp
  qed
qed

lemma closes_item:
  "mt_item t inode = Some x \<Longrightarrow> finish x = 1 \<Longrightarrow> usage x = int (Suc n) \<Longrightarrow>
   \<exists>t'. closes (Suc n) t inode = Some (replicate n False @ [True], t') \<and>
     mt_item t' = (mt_item t)(inode := Some (x\<lparr>usage := 0, mt_modified := 0, finish := 0\<rparr>))"
proof (induction n arbitrary: t x)
  case 0
  then show ?case using close_inode_item [of t inode x] by fastforce
next
  case (Suc n)
  obtain t1 where t1: "close_inode t inode = Some (False, t1)"
    "mt_item t1 = (mt_item t)(inode := Some (x\<lparr>usage := usage x - 1\<rparr>))"
    using close_inode_item [OF Suc.prems(1,2)] Suc.prems(3) by auto
  have "\<exists>t'. closes (Suc n) t1 inode = Some (replicate n False @ [True], t') \<and>
      mt_item t' = (mt_item t1)(inode := Some ((x\<lparr>usage := usage x - 1\<rparr>)
        \<lparr>usage := 0, mt_modified := 0, finish := 0\<rparr>))"
    using t1(2) Suc.prems by (intro Suc.IH) simp_all
  then obtain t' where "closes (Suc n) t1 inode = Some (replicate n False @ [True], t')"
    "mt_item t' = (mt_item t)(inode := Some (x\<lparr>usage := 0, mt_modified := 0, finish := 0\<rparr>))"
    using t1(2) by auto
  then show ?case
    using t1(1) closes.simps(2) [of "Suc n" t inode] by (simp del: closes.simps fun_upd_apply)
qed

lemma removal_cases:
  assumes "mt_item t inode = Some x" and "usage x = int n" and "finish x = 0"
  shows "n = 0 \<longrightarrow> (\<exists>t'. tryFinish t inode = Some (True, t') \<and>
           mt_item t' = (mt_item t)(inode := Some (x\<lparr>mt_modified := 0\<rparr>)))"
    and "0 < n \<longrightarrow> (\<exists>t1 t2. tryFinish t inode = Some (False, t1) \<and>
           waitingFinish t1 inode = Some True \<and>
           closes n t1 inode = Some (replicate (n - 1) False @ [True], t2) \<and>
           mt_item t2 = (mt_item t)(inode := Some (x\<lparr>usage := 0, mt_modified := 0, finish := 0\<rparr>)))"
proof -
  obtain i where i: "findInodeIndex t inode = Some i" "t ! i = x" "mt_inode x = inode"
    by (rule mt_itemE [OF assms(1)])
  have il: "i < length t" using findInodeIndex_bound [OF i(1)] by simp
  show "n = 0 \<longrightarrow> (\<exists>t'. tryFinish t inode = Some (True, t') \<and>
      mt_item t' = (mt_item t)(inode := Some (x\<lparr>mt_modified := 0\<rparr>)))"
    using i assms mt_item_update [OF i(1), of "x\<lparr>mt_modified := 0\<rparr>"] by (simp add: tryFinish_def)
  show "0 < n \<longrightarrow> (\<exists>t1 t2. tryFinish t inode = Some (False, t1) \<and>
           waitingFinish t1 inode = Some True \<and>
           closes n t1 inode = Some (replicate (n - 1) False @ [True], t2) \<and>
           mt_item t2 = (mt_item t)(inode := Some (x\<lparr>usage := 0, mt_modified := 0, finish := 0\<rparr>)))"
  proof
    assume n: "0 < n"
    let ?t1 = "t[i := x\<lparr>finish := 1\<rparr>]"
    have t1: "mt_item ?t1 = (mt_item t)(inode := Some (x\<lparr>finish := 1\<rparr>))"
      by (rule mt_item_update [OF i(1)]) (simp add: i)
    have f: "findInodeIndex ?t1 inode = Some i" by (subst findInodeIndex_update) (use i in auto)
    have a: "tryFinish t inode = Some (False, ?t1)" using i n assms(2) by (simp add: tryFinish_def)
    have b: "waitingFinish ?t1 inode = Some True" using f il by (simp add: waitingFinish_def)
    obtain m where m: "n = Suc m" using n by (cases n) auto
    have "\<exists>t2. closes (Suc m) ?t1 inode = Some (replicate m False @ [True], t2) \<and>
        mt_item t2 = (mt_item ?t1)(inode := Some ((x\<lparr>finish := 1\<rparr>)\<lparr>usage := 0, mt_modified := 0, finish := 0\<rparr>))"
      using m assms t1 by (intro closes_item) simp_all
    then obtain t2 where "closes (Suc m) ?t1 inode = Some (replicate m False @ [True], t2)"
      "mt_item t2 = (mt_item t)(inode := Some (x\<lparr>usage := 0, mt_modified := 0, finish := 0\<rparr>))"
      using t1 by auto
    with a b m show "\<exists>t1 t2. tryFinish t inode = Some (False, t1) \<and>
           waitingFinish t1 inode = Some True \<and>
           closes n t1 inode = Some (replicate (n - 1) False @ [True], t2) \<and>
           mt_item t2 = (mt_item t)(inode := Some (x\<lparr>usage := 0, mt_modified := 0, finish := 0\<rparr>))"
      by auto
  qed
qed

text \<open>
  C26. Removal of an i-node: when nobody has it open, \<open>tryFinish\<close> lets the caller unlink it at
  once; when \<open>n\<close> files have it open it is marked, and of the \<open>n\<close> closes that follow exactly the
  last one is told to unlink it, which leaves an unused unmarked entry. No other entry changes.
\<close>

theorem removal_happens_once:
  assumes "mt_item t inode = Some x" and "usage x = int n" and "finish x = 0"
  shows "(n = 0 \<longrightarrow> (\<exists>t'. tryFinish t inode = Some (True, t') \<and>
           mt_item t' = (mt_item t)(inode := Some (x\<lparr>mt_modified := 0\<rparr>)))) \<and>
         (0 < n \<longrightarrow> (\<exists>t1 t2. tryFinish t inode = Some (False, t1) \<and>
           waitingFinish t1 inode = Some True \<and>
           closes n t1 inode = Some (replicate (n - 1) False @ [True], t2) \<and>
           mt_item t2 = (mt_item t)(inode := Some (x\<lparr>usage := 0, mt_modified := 0, finish := 0\<rparr>))))"
  using removal_cases [OF assms] by blast

theorem removal_happens_once_witness:
  "\<exists>t1 t2. tryFinish [MetaTableItem_new 1, (MetaTableItem_new 2)\<lparr>usage := 2\<rparr>] 2 = Some (False, t1) \<and>
     waitingFinish t1 2 = Some True \<and>
     closes 2 t1 2 = Some (replicate (2 - 1) False @ [True], t2) \<and>
     mt_item t2 = (mt_item [MetaTableItem_new 1, (MetaTableItem_new 2)\<lparr>usage := 2\<rparr>])
       (2 := Some ((MetaTableItem_new 2)\<lparr>usage := 0, mt_modified := 0, finish := 0\<rparr>))"
  using removal_happens_once [of "[MetaTableItem_new 1, (MetaTableItem_new 2)\<lparr>usage := 2\<rparr>]" 2
      "(MetaTableItem_new 2)\<lparr>usage := 2\<rparr>" 2]
  by (simp add: mt_item_def MetaTableItem_new_def)

end
