(* ===== verification/FsSearch.thy ===== *)
theory FsSearch
  imports Bitmap
begin

text \<open>
  The two searches of \<open>FileSystem::Allocate\<close> for free fragments in the bitmap of a cylinder
  group: \<open>NextAlignedFragments\<close> looks for a run inside one window (a block), and
  \<open>NextPlaceForSmallFragments\<close> for the smallest hole inside one window. Both only read the
  bitmap.
\<close>

subsection \<open>The searches\<close>

fun all_clear :: "bitmap \<Rightarrow> int list \<Rightarrow> bool option" where
  "all_clear b [] = Some True"
| "all_clear b (k # ks) = do {
     t \<leftarrow> Test b k;
     if t then Some False else all_clear b ks }"

fun find_run :: "bitmap \<Rightarrow> int \<Rightarrow> int list \<Rightarrow> int option option" where
  "find_run b to_align [] = Some None"
| "find_run b to_align (j # js) = do {
     available \<leftarrow> all_clear b [j..j + to_align - 1];
     if available then Some (Some j) else find_run b to_align js }"

text \<open>
  The outer loop; it does not end when \<open>window\<close> is not positive. The result is the array
  \<open>ret\<close> and \<open>ret_len\<close>.
\<close>

definition fill_run :: "int list \<Rightarrow> int \<Rightarrow> int \<Rightarrow> int list option" where
  "fill_run ret j to_align = foldM (\<lambda>k ret. arr_set ret k (j + k)) [0..to_align - 1] ret"

function NextAligned_loop ::
    "int \<Rightarrow> bitmap \<Rightarrow> int \<Rightarrow> int \<Rightarrow> int list \<Rightarrow> int \<Rightarrow> (int list \<times> int) option" where
  "NextAligned_loop bitmap_len b window to_align ret i =
     (if i + window \<le> bitmap_len then
        if window \<le> 0 then None
        else do {
          r \<leftarrow> find_run b to_align [i..i + window - to_align];
          case r of
            Some j \<Rightarrow> do { ret' \<leftarrow> fill_run ret j to_align; Some (ret', to_align) }
          | None \<Rightarrow> NextAligned_loop bitmap_len b window to_align ret (i + window) }
      else Some (ret, 0))"
  by pat_completeness auto
termination
  by (relation "measure (\<lambda>(len, _, _, _, _, i). nat (len - i))") auto

declare NextAligned_loop.simps [simp del]

definition NextAlignedFragments ::
    "int \<Rightarrow> bitmap \<Rightarrow> int \<Rightarrow> int \<Rightarrow> int list \<Rightarrow> (int list \<times> int) option" where
  "NextAlignedFragments bitmap_len b window to_align ret =
     NextAligned_loop bitmap_len b window to_align ret 0"

text \<open>
  The body of the second search at a position \<open>i\<close> that ends a hole \<open>lst\<close> (\<open>last\<close> in the source) up to \<open>i\<close>: the new
  smallest size and its position.
\<close>

definition hole_end :: "int \<Rightarrow> int \<Rightarrow> int \<Rightarrow> int \<Rightarrow> int \<times> int \<Rightarrow> int \<times> int" where
  "hole_end window size' i lst = (\<lambda>(mn, minpos).
     if i - lst \<ge> size' then
       if i sdiv window = lst sdiv window then
         (if i - lst < mn then (i - lst, lst) else (mn, minpos))
       else if lst smod window \<le> window - size' then
         (if window - lst smod window < mn then (window - lst smod window, lst) else (mn, minpos))
       else if i smod window \<ge> size' then
         (if i smod window < mn then (i smod window, i sdiv window * window) else (mn, minpos))
       else if i sdiv window - lst sdiv window > 1 then
         (window, (lst sdiv window + 1) * window)
       else (mn, minpos)
     else (mn, minpos))"

fun NextPlace_loop ::
    "int \<Rightarrow> bitmap \<Rightarrow> int \<Rightarrow> int \<Rightarrow> int list \<Rightarrow> int \<Rightarrow> int \<times> int \<Rightarrow> (int \<times> int) option" where
  "NextPlace_loop bitmap_len b window size' [] lst (mn, minpos) = Some (minpos, mn)"
| "NextPlace_loop bitmap_len b window size' (i # is) lst (mn, minpos) = do {
     stop \<leftarrow> (if i = bitmap_len then Some True else Test b i);
     if stop then do {
       ASSERT (window \<noteq> 0);
       let (mn', minpos') = hole_end window size' i lst (mn, minpos);
       if mn' = size' then Some (minpos', mn')
       else NextPlace_loop bitmap_len b window size' is (i + 1) (mn', minpos') }
     else NextPlace_loop bitmap_len b window size' is lst (mn, minpos) }"

definition NextPlaceForSmallFragments :: "int \<Rightarrow> bitmap \<Rightarrow> int \<Rightarrow> int \<Rightarrow> (int \<times> int) option" where
  "NextPlaceForSmallFragments bitmap_len b window to_align =
     NextPlace_loop bitmap_len b window to_align [0..bitmap_len] 0 (bitmap_len, -1)"

subsection \<open>The aligned search\<close>

text \<open>
  A place for \<open>n\<close> fragments: a free run inside one window.
\<close>

definition free_run :: "bitmap \<Rightarrow> int \<Rightarrow> int \<Rightarrow> int \<Rightarrow> bool" where
  "free_run b window n j \<longleftrightarrow> 0 \<le> j \<and> j + n \<le> numBits b \<and> j mod window + n \<le> window \<and>
     (\<forall>k. j \<le> k \<and> k < j + n \<longrightarrow> \<not> bm_bit b k)"

lemma all_clear_eq:
  assumes "bm_inv b" and "\<forall>k \<in> set ks. 0 \<le> k \<and> k < numBits b"
  shows "all_clear b ks = Some (\<forall>k \<in> set ks. \<not> bm_bit b k)"
  using assms by (induction ks) (auto simp: Test_eq)

lemma find_run_eq:
  assumes "bm_inv b" and "\<forall>j \<in> set js. 0 \<le> j \<and> j + n \<le> numBits b"
  shows "find_run b n js = Some (find (\<lambda>j. \<forall>k. j \<le> k \<and> k < j + n \<longrightarrow> \<not> bm_bit b k) js)"
  using assms(2)
proof (induction js)
  case Nil
  then show ?case by simp
next
  case (Cons j js)
  have "all_clear b [j..j + n - 1] = Some (\<forall>k \<in> set [j..j + n - 1]. \<not> bm_bit b k)"
    using Cons.prems by (intro all_clear_eq [OF assms(1)]) auto
  moreover have "(\<forall>k \<in> set [j..j + n - 1]. \<not> bm_bit b k) = (\<forall>k. j \<le> k \<and> k < j + n \<longrightarrow> \<not> bm_bit b k)"
    by auto
  ultimately have a: "all_clear b [j..j + n - 1] = Some (\<forall>k. j \<le> k \<and> k < j + n \<longrightarrow> \<not> bm_bit b k)"
    by simp
  have "find_run b n js = Some (find (\<lambda>j. \<forall>k. j \<le> k \<and> k < j + n \<longrightarrow> \<not> bm_bit b k) js)"
    using Cons by simp
  then show ?case
    by (simp only: find_run.simps a bind.bind_lunit find.simps split: if_split) auto
qed

lemma fill_run_eq:
  assumes "0 \<le> n" and "n \<le> int (length ret)"
  shows "fill_run ret j n = Some ([j..j + n - 1] @ drop (nat n) ret)"
proof -
  have "foldM (\<lambda>k ret. arr_set ret k (j + k)) [0..int m - 1] ret = Some ([j..j + int m - 1] @ drop m ret)"
    if "m \<le> length ret" for m
    using that
  proof (induction m)
    case (Suc m)
    have u: "[0..int (Suc m) - 1] = [0..int m - 1] @ [int m]"
      "[j..j + int (Suc m) - 1] = [j..j + int m - 1] @ [j + int m]"
      using upto_rec2 [of 0 "int m"] upto_rec2 [of j "j + int m"] by simp_all
    have "drop m ret = ret ! m # drop (Suc m) ret" using Suc.prems by (simp add: Cons_nth_drop_Suc)
    then have "foldM (\<lambda>k ret. arr_set ret k (j + k)) [0..int m - 1] ret
        = Some ([j..j + int m - 1] @ ret ! m # drop (Suc m) ret)"
      using Suc by simp
    then show ?case
      unfolding u foldM_append using Suc.prems by (simp add: arr_set_def list_update_append)
  qed simp
  from this [of "nat n"] assms show ?thesis by (simp add: fill_run_def)
qed

lemma window_start: "0 < w \<Longrightarrow> i mod w = 0 \<Longrightarrow> i \<le> j \<Longrightarrow> j < i + w \<Longrightarrow> j mod w = j - i" for i j w :: int
proof -
  assume a: "0 < w" "i mod w = 0" "i \<le> j" "j < i + w"
  have "j mod w = (i + (j - i)) mod w" by simp
  also have "\<dots> = (j - i) mod w" using a(2) by (metis add_0 mod_add_left_eq)
  finally show ?thesis using a by simp
qed

lemma window_end: "0 < w \<Longrightarrow> i mod w = 0 \<Longrightarrow> len mod w = 0 \<Longrightarrow> len < i + w \<Longrightarrow> len \<le> i" for i len w :: int
proof -
  assume a: "0 < w" "i mod w = 0" "len mod w = 0" "len < i + w"
  obtain p q where pq: "i = w * p" "len = w * q" using a(2,3) by (metis dvd_def mod_eq_0_iff_dvd)
  then have "w * q < w * (p + 1)" using a(4) by (simp add: distrib_left)
  then have "q < p + 1" using a(1) by simp
  then show ?thesis using a(1) pq by simp
qed

text \<open>
  The loop from a window boundary \<open>i\<close>: the first free run of the windows from \<open>i\<close> on.
\<close>

lemma NextAligned_loop_spec:
  assumes "bm_inv b" and "len \<le> numBits b" and "0 < n" and "n \<le> w" and "n \<le> int (length ret)"
    and "0 \<le> i" and "i mod w = 0" and "len mod w = 0"
  shows "\<exists>r ret'. NextAligned_loop len b w n ret i = Some (ret', r) \<and>
    (if r = 0 then \<forall>j. i \<le> j \<and> j + n \<le> len \<longrightarrow> \<not> free_run b w n j
     else r = n \<and> (\<exists>j. ret' = [j..j + n - 1] @ drop (nat n) ret \<and> i \<le> j \<and> j + n \<le> len \<and>
       free_run b w n j \<and> (\<forall>k. i \<le> k \<and> k < j \<longrightarrow> \<not> free_run b w n k)))"
  using assms
proof (induction len b w n ret i rule: NextAligned_loop.induct)
  case (1 len b w n ret i)
  let ?P = "\<lambda>j. \<forall>k. j \<le> k \<and> k < j + n \<longrightarrow> \<not> bm_bit b k"
  have w: "0 < w" using 1 by simp
  show ?case
  proof (cases "i + w \<le> len")
    case False
    have "\<not> free_run b w n j" if j: "i \<le> j" "j + n \<le> len" for j
    proof -
      have "len \<le> i" using window_end [OF w 1(8,9)] False by simp
      with j 1(4) show ?thesis by simp
    qed
    with False show ?thesis by (subst NextAligned_loop.simps) auto
  next
    case True
    have rng: "\<forall>j \<in> set [i..i + w - n]. 0 \<le> j \<and> j + n \<le> numBits b" using 1 True by auto
    have fr: "find_run b n [i..i + w - n] = Some (find ?P [i..i + w - n])"
      by (rule find_run_eq [OF 1(2) rng])
    have inwin: "free_run b w n j \<longleftrightarrow> j \<le> i + w - n \<and> ?P j" if "i \<le> j" "j < i + w" for j
      using that 1 True window_start [OF w 1(8) that] by (auto simp: free_run_def)
    show ?thesis
    proof (cases "find ?P [i..i + w - n]")
      case (Some j)
      then obtain m where m: "m < length [i..i + w - n]" "?P ([i..i + w - n] ! m)" "j = [i..i + w - n] ! m"
        "\<forall>p < m. \<not> ?P ([i..i + w - n] ! p)"
        by (auto simp: find_Some_iff)
      have j: "j = i + int m" "j \<le> i + w - n" using m by (auto simp: nth_upto)
      have first: "\<not> free_run b w n k" if "i \<le> k" "k < j" for k
      proof -
        have "nat (k - i) < m" using that j by simp
        moreover have "[i..i + w - n] ! nat (k - i) = k" using that j by (simp add: nth_upto)
        ultimately have "\<not> ?P k" using m(4) by metis
        moreover have "k < i + w" using that j 1(4) by simp
        ultimately show ?thesis using inwin [OF that(1)] by simp
      qed
      have "?P j" using m by simp
      then have run: "free_run b w n j" using inwin [of j] j 1(4) by simp
      have "NextAligned_loop len b w n ret i = Some ([j..j + n - 1] @ drop (nat n) ret, n)"
        using True w fr Some fill_run_eq [of n ret j] 1
        by (subst NextAligned_loop.simps) simp
      moreover have "i \<le> j" "j + n \<le> len" using j True by simp_all
      ultimately show ?thesis using run first 1(4) by fastforce
    next
      case None
      then have nor: "\<not> ?P j" if "i \<le> j" "j \<le> i + w - n" for j
        using that by (auto simp: find_None_iff)
      have skip: "\<not> free_run b w n j" if "i \<le> j" "j < i + w" for j
        using inwin [OF that] nor that by blast
      have step: "NextAligned_loop len b w n ret i = NextAligned_loop len b w n ret (i + w)"
        using True w fr None by (subst NextAligned_loop.simps) simp
      have "\<exists>r ret'. NextAligned_loop len b w n ret (i + w) = Some (ret', r) \<and>
        (if r = 0 then \<forall>j. i + w \<le> j \<and> j + n \<le> len \<longrightarrow> \<not> free_run b w n j
         else r = n \<and> (\<exists>j. ret' = [j..j + n - 1] @ drop (nat n) ret \<and> i + w \<le> j \<and> j + n \<le> len \<and>
           free_run b w n j \<and> (\<forall>k. i + w \<le> k \<and> k < j \<longrightarrow> \<not> free_run b w n k)))"
        using 1 True w fr None by (intro 1(1)) simp_all
      then obtain r ret' where r: "NextAligned_loop len b w n ret (i + w) = Some (ret', r)"
        "if r = 0 then \<forall>j. i + w \<le> j \<and> j + n \<le> len \<longrightarrow> \<not> free_run b w n j
         else r = n \<and> (\<exists>j. ret' = [j..j + n - 1] @ drop (nat n) ret \<and> i + w \<le> j \<and> j + n \<le> len \<and>
           free_run b w n j \<and> (\<forall>k. i + w \<le> k \<and> k < j \<longrightarrow> \<not> free_run b w n k))" by blast
      show ?thesis
      proof (cases "r = 0")
        case True
        then have "\<forall>j. i \<le> j \<and> j + n \<le> len \<longrightarrow> \<not> free_run b w n j"
          using r(2) skip by (metis linorder_not_le)
        with True r(1) step show ?thesis by auto
      next
        case False
        then obtain j where j: "r = n" "ret' = [j..j + n - 1] @ drop (nat n) ret" "i + w \<le> j"
          "j + n \<le> len" "free_run b w n j" "\<forall>k. i + w \<le> k \<and> k < j \<longrightarrow> \<not> free_run b w n k"
          using r(2) by auto
        have "\<forall>k. i \<le> k \<and> k < j \<longrightarrow> \<not> free_run b w n k"
          using skip j(6) by (metis linorder_not_le)
        moreover have "i \<le> j" using j(3) w by simp
        ultimately show ?thesis using j r(1) step False by auto
      qed
    qed
  qed
qed

subsection \<open>The smallest hole\<close>

text \<open>
  A place the second search may return: a free run that starts at the beginning of a window or
  behind a fragment in use.
\<close>

definition place :: "bitmap \<Rightarrow> int \<Rightarrow> int \<Rightarrow> int \<Rightarrow> bool" where
  "place b w n j \<longleftrightarrow> free_run b w n j \<and> (j mod w = 0 \<or> bm_bit b (j - 1))"

text \<open>
  What the second search knows when it is at position \<open>i\<close> with the current hole starting at
  \<open>lst\<close>: the place it remembers is a free run; as long as it remembers none, no run ends
  before the current hole.
\<close>

definition hole_inv :: "bitmap \<Rightarrow> int \<Rightarrow> int \<Rightarrow> int \<Rightarrow> int \<Rightarrow> int \<times> int \<Rightarrow> bool" where
  "hole_inv b w n i lst = (\<lambda>(mn, minpos).
     0 \<le> lst \<and> lst \<le> i \<and> (\<forall>k. lst \<le> k \<and> k < i \<longrightarrow> \<not> bm_bit b k) \<and>
     (lst = 0 \<or> bm_bit b (lst - 1)) \<and>
     (if minpos = -1 then mn = numBits b \<and> (\<forall>j. j + n \<le> lst \<longrightarrow> \<not> free_run b w n j)
      else place b w n minpos \<and> n \<le> mn \<and> mn \<le> w))"

lemma window_of: "0 < w \<Longrightarrow> i = w * (i div w) + i mod w \<and> 0 \<le> i mod w \<and> i mod w < w" for i w :: int
  by simp

lemma run_inside: "0 < w \<Longrightarrow> l div w = i div w \<Longrightarrow> l \<le> i \<Longrightarrow> l mod w + (i - l) < w" for l i w :: int
proof -
  assume a: "0 < w" "l div w = i div w" "l \<le> i"
  have "l = w * (i div w) + l mod w" using window_of [OF a(1), of l] a(2) by simp
  moreover have "i = w * (i div w) + i mod w" "i mod w < w" using window_of [OF a(1), of i] by auto
  ultimately show ?thesis by linarith
qed

lemma window_next: "0 < w \<Longrightarrow> l div w \<noteq> i div w \<Longrightarrow> l \<le> i \<Longrightarrow> l div w + 1 \<le> i div w" for l i w :: int
  using zdiv_mono1 [of l i w] by linarith

lemma window_mult_le: "0 < w \<Longrightarrow> a + 1 \<le> b \<Longrightarrow> w * a + w \<le> w * b" for a b w :: int
  using mult_left_mono [of "a + 1" b w] by (simp add: distrib_left)

lemma free_runI:
  assumes "\<forall>k. l \<le> k \<and> k < i \<longrightarrow> \<not> bm_bit b k" and "0 \<le> l" and "i \<le> numBits b"
    and "l \<le> j" and "j + n \<le> i" and "j mod w + n \<le> w"
  shows "free_run b w n j"
  using assms by (simp add: free_run_def)

text \<open>A run of the current hole that lies inside one window is found by one of the four cases.\<close>

lemma hole_end_spec:
  assumes w: "0 < w" and n: "0 < n" "n \<le> w" and ww: "w < numBits b"
    and inv: "hole_inv b w n i lst (mn, mp)" and i: "i \<le> numBits b"
    and e: "hole_end w n i lst (mn, mp) = (mn', mp')"
  shows "if mp' = -1 then mn' = numBits b \<and> (\<forall>j. j + n \<le> i \<longrightarrow> \<not> free_run b w n j)
      else place b w n mp' \<and> n \<le> mn' \<and> mn' \<le> w"
proof -
  have l: "0 \<le> lst" "lst \<le> i" and cl: "\<forall>k. lst \<le> k \<and> k < i \<longrightarrow> \<not> bm_bit b k"
    and used: "lst = 0 \<or> bm_bit b (lst - 1)"
    using inv by (auto simp: hole_inv_def)
  have old: "if mp = -1 then mn = numBits b \<and> (\<forall>j. j + n \<le> lst \<longrightarrow> \<not> free_run b w n j)
      else place b w n mp \<and> n \<le> mn \<and> mn \<le> w"
    using inv by (auto simp: hole_inv_def)
  note fi = free_runI [OF cl l(1) i]
  have d: "lst = w * (lst div w) + lst mod w" "0 \<le> lst mod w" "lst mod w < w"
    "i = w * (i div w) + i mod w" "0 \<le> i mod w" "i mod w < w"
    using window_of [OF w] by blast+
  have inhole: "lst \<le> j \<and> j mod w + n \<le> w" if "free_run b w n j" "\<not> j + n \<le> lst" for j
  proof -
    have "\<not> j < lst"
    proof
      assume "j < lst"
      then have "j \<le> lst - 1" "lst - 1 < j + n" "lst \<noteq> 0" using that n by (auto simp: free_run_def)
      then show False using used that(1) by (auto simp: free_run_def)
    qed
    then show ?thesis using that by (auto simp: free_run_def)
  qed
  have keep: ?thesis if "mn' = mn" "mp' = mp" and none: "\<And>j. lst \<le> j \<Longrightarrow> j + n \<le> i \<Longrightarrow> j mod w + n \<le> w \<Longrightarrow> mp \<noteq> -1"
  proof (cases "mp = -1")
    case True
    then have "\<not> free_run b w n j" if "j + n \<le> i" for j
      using old none [of j] inhole [of j] that by auto
    with True old that show ?thesis by simp
  next
    case False
    with old that show ?thesis by simp
  qed
  have take: ?thesis if "mn' = m" "mp' = p" "free_run b w n p" "n \<le> m" "m \<le> w"
      "p mod w = 0 \<or> bm_bit b (p - 1)" for m p
    using that by (auto simp: free_run_def place_def)
  have full: "mp \<noteq> -1" if "\<not> m < mn" "m \<le> w" for m
    using old that ww by auto
  show ?thesis
  proof (cases "i - lst \<ge> n")
    case small: False
    then have "mn' = mn \<and> mp' = mp" using e by (simp add: hole_end_def)
    then show ?thesis by (intro keep) (use small in auto)
  next
    case big: True
    show ?thesis
    proof (cases "i div w = lst div w")
      case same: True
      have fit: "lst mod w + (i - lst) < w" using run_inside [OF w same [symmetric] l(2)] .
      have fr: "free_run b w n lst" using fi [of lst] big fit d l by simp
      show ?thesis
      proof (cases "i - lst < mn")
        case True
        then have "mn' = i - lst \<and> mp' = lst" using e w l big same by (simp add: hole_end_def)
        then show ?thesis using take [OF _ _ fr] big fit d used by auto
      next
        case False
        then have "mn' = mn \<and> mp' = mp" using e w l big same by (simp add: hole_end_def)
        then show ?thesis using full [OF False] fit d by (intro keep) auto
      qed
    next
      case diff: False
      have nx: "lst div w + 1 \<le> i div w" using window_next [OF w _ l(2)] diff by simp
      have wl: "w * (lst div w) + w \<le> w * (i div w)" using window_mult_le [OF w nx] .
      show ?thesis
      proof (cases "lst mod w \<le> w - n")
        case head: True
        have "lst + n \<le> i" using head wl d by linarith
        then have fr: "free_run b w n lst" using fi [of lst n w] head by simp
        show ?thesis
        proof (cases "w - lst mod w < mn")
          case True
          have "(mn', mp') = (w - lst mod w, lst)"
            unfolding e [symmetric] using True w l big diff head by (simp add: hole_end_def)
          then have "mn' = w - lst mod w \<and> mp' = lst" by simp
          then show ?thesis using take [OF _ _ fr] head d used by auto
        next
          case False
          then have "mn' = mn \<and> mp' = mp" using e w l big diff head by (simp add: hole_end_def)
          then show ?thesis using full [OF False] d by (intro keep) auto
        qed
      next
        case nohead: False
        show ?thesis
        proof (cases "i mod w \<ge> n")
          case tail: True
          have c: "i div w * w = w * (i div w)" by (rule mult.commute)
          have "lst \<le> i div w * w" using wl d(1,3) unfolding c by linarith
          moreover have "i div w * w + n \<le> i" using tail d(4) unfolding c by linarith
          moreover have "i div w * w mod w + n \<le> w" using n by simp
          ultimately have fr: "free_run b w n (i div w * w)" by (rule fi)
          show ?thesis
          proof (cases "i mod w < mn")
            case True
            then have "mn' = i mod w \<and> mp' = i div w * w"
              using e w l big diff nohead tail by (simp add: hole_end_def)
            then show ?thesis using take [OF _ _ fr] tail d by simp
          next
            case False
            then have "mn' = mn \<and> mp' = mp"
              using e w l big diff nohead tail by (simp add: hole_end_def)
            then show ?thesis using full [OF False] d by (intro keep) auto
          qed
        next
          case notail: False
          show ?thesis
          proof (cases "i div w - lst div w > 1")
            case middle: True
            have m2: "w * (lst div w + 1) + w \<le> w * (i div w)"
              using window_mult_le [OF w, of "lst div w + 1"] middle by simp
            have c: "(lst div w + 1) * w = w * (lst div w + 1)" by (rule mult.commute)
            have e1: "w * (lst div w + 1) = w * (lst div w) + w" by (simp add: distrib_left)
            have "lst \<le> (lst div w + 1) * w" using d(1,3) unfolding c e1 by linarith
            moreover have "(lst div w + 1) * w + n \<le> i" using m2 d(4,5) n unfolding c by linarith
            moreover have "(lst div w + 1) * w mod w + n \<le> w" using n by simp
            ultimately have fr: "free_run b w n ((lst div w + 1) * w)" by (rule fi)
            have "(mn', mp') = (w, (lst div w + 1) * w)"
              unfolding e [symmetric] using w l big diff nohead notail middle
              by (simp add: hole_end_def)
            then have "mn' = w \<and> mp' = (lst div w + 1) * w" by simp
            then show ?thesis using take [OF _ _ fr] n by simp
          next
            case adj: False
            have ei: "i div w = lst div w + 1" using adj nx by linarith
            have none: False if j: "lst \<le> j" "j + n \<le> i" "j mod w + n \<le> w" for j
            proof -
              have dj: "j = w * (j div w) + j mod w" "0 \<le> j mod w" using window_of [OF w, of j] by auto
              have le: "lst div w \<le> j div w" using zdiv_mono1 [OF j(1) w] .
              have "j div w \<le> i div w" using zdiv_mono1 [of j i w] j n w by simp
              then consider "j div w = lst div w" | "j div w = lst div w + 1" using le ei by linarith
              then show False
              proof cases
                case 1
                then have "j = w * (lst div w) + j mod w" using dj by simp
                then have "lst mod w \<le> j mod w" using d(1) j(1) by linarith
                then show False using j(3) nohead by linarith
              next
                case 2
                then have "j = w * (i div w) + j mod w" using dj ei by simp
                then have "j mod w + n \<le> i mod w" using d(4) j(2) by linarith
                then show False using notail dj by linarith
              qed
            qed
            have "mn' = mn \<and> mp' = mp"
              using e w l big diff nohead notail adj by (simp add: hole_end_def)
            then show ?thesis by (intro keep) (use none in auto)
          qed
        qed
      qed
    qed
  qed
qed

lemma NextPlace_loop_spec:
  assumes inv: "bm_inv b" and w: "0 < w" and n: "0 < n" "n \<le> w" and ww: "w < numBits b"
  shows "hole_inv b w n i lst (mn, mp) \<Longrightarrow> 0 \<le> i \<Longrightarrow> i \<le> numBits b \<Longrightarrow>
    \<exists>mp' mn'. NextPlace_loop (numBits b) b w n [i..numBits b] lst (mn, mp) = Some (mp', mn') \<and>
      (if mp' = -1 then \<forall>j. \<not> free_run b w n j else place b w n mp' \<and> n \<le> mn' \<and> mn' \<le> w)"
proof (induction "nat (numBits b - i)" arbitrary: i lst mn mp rule: less_induct)
  case less
  have u: "[i..numBits b] = i # [i + 1..numBits b]" using less.prems by (simp add: upto_rec1)
  let ?stop = "i = numBits b \<or> bm_bit b i"
  have t: "(if i = numBits b then Some True else Test b i) = Some ?stop"
    using less.prems Test_eq [OF inv, of i] by auto
  show ?case
  proof (cases ?stop)
    case False
    then have lt: "i < numBits b" "\<not> bm_bit b i" using less.prems by auto
    have "\<forall>k. lst \<le> k \<and> k < i + 1 \<longrightarrow> \<not> bm_bit b k"
    proof (intro allI impI)
      fix k assume "lst \<le> k \<and> k < i + 1"
      then show "\<not> bm_bit b k"
        using less.prems(1) lt(2) by (cases "k = i") (auto simp: hole_inv_def)
    qed
    then have "hole_inv b w n (i + 1) lst (mn, mp)"
      using less.prems(1) by (simp add: hole_inv_def)
    then have "\<exists>mp' mn'. NextPlace_loop (numBits b) b w n [i + 1..numBits b] lst (mn, mp) = Some (mp', mn') \<and>
        (if mp' = -1 then \<forall>j. \<not> free_run b w n j else place b w n mp' \<and> n \<le> mn' \<and> mn' \<le> w)"
      using lt less.prems by (intro less.hyps) auto
    with u t False show ?thesis by simp
  next
    case True
    obtain mn' mp' where e: "hole_end w n i lst (mn, mp) = (mn', mp')" by fastforce
    have spec: "if mp' = -1 then mn' = numBits b \<and> (\<forall>j. j + n \<le> i \<longrightarrow> \<not> free_run b w n j)
        else place b w n mp' \<and> n \<le> mn' \<and> mn' \<le> w"
      by (rule hole_end_spec [OF w n ww less.prems(1,3) e])
    show ?thesis
    proof (cases "mn' = n")
      case found: True
      then have "mp' \<noteq> -1" using spec n ww by auto
      then show ?thesis using found u t True e spec w by simp
    next
      case more: False
      have step: "NextPlace_loop (numBits b) b w n [i..numBits b] lst (mn, mp) =
          NextPlace_loop (numBits b) b w n [i + 1..numBits b] (i + 1) (mn', mp')"
        using more u t True e w by simp
      show ?thesis
      proof (cases "i = numBits b")
        case end_: True
        have "NextPlace_loop (numBits b) b w n [i..numBits b] lst (mn, mp) = Some (mp', mn')"
        proof -
          have "[i + 1..numBits b] = []" using end_ by simp
          then show ?thesis unfolding step by simp
        qed
        moreover have "\<forall>j. \<not> free_run b w n j" if "mp' = -1"
          using spec that end_ by (auto simp: free_run_def)
        ultimately show ?thesis using spec by auto
      next
        case False
        then have lt: "i < numBits b" "bm_bit b i" using less.prems True by auto
        have "\<not> free_run b w n j" if "mp' = -1" "j + n \<le> i + 1" for j
        proof (cases "j + n \<le> i")
          case True
          then show ?thesis using spec that by simp
        next
          case False
          then have "j \<le> i" "i < j + n" using that n by simp_all
          then show ?thesis using lt(2) unfolding free_run_def by blast
        qed
        then have "hole_inv b w n (i + 1) (i + 1) (mn', mp')"
          using spec lt less.prems by (auto simp: hole_inv_def)
        then have "\<exists>mp'' mn''. NextPlace_loop (numBits b) b w n [i + 1..numBits b] (i + 1) (mn', mp') = Some (mp'', mn'') \<and>
            (if mp'' = -1 then \<forall>j. \<not> free_run b w n j else place b w n mp'' \<and> n \<le> mn'' \<and> mn'' \<le> w)"
          using lt less.prems by (intro less.hyps) auto
        then show ?thesis unfolding step .
      qed
    qed
  qed
qed

lemma NextAlignedFragments_spec:
  assumes "bm_inv b" and "0 < n" and "n \<le> w" and "numBits b mod w = 0" and "n \<le> int (length ret)"
  shows "\<exists>ret' r. NextAlignedFragments (numBits b) b w n ret = Some (ret', r) \<and>
    (if r = 0 then \<forall>j. \<not> free_run b w n j
     else r = n \<and> (\<exists>j. take (nat n) ret' = [j..j + n - 1] \<and> free_run b w n j \<and>
       (\<forall>k. 0 \<le> k \<and> k < j \<longrightarrow> \<not> free_run b w n k)))"
proof -
  obtain r ret' where r: "NextAligned_loop (numBits b) b w n ret 0 = Some (ret', r)"
    "if r = 0 then \<forall>j. 0 \<le> j \<and> j + n \<le> numBits b \<longrightarrow> \<not> free_run b w n j
     else r = n \<and> (\<exists>j. ret' = [j..j + n - 1] @ drop (nat n) ret \<and> 0 \<le> j \<and> j + n \<le> numBits b \<and>
       free_run b w n j \<and> (\<forall>k. 0 \<le> k \<and> k < j \<longrightarrow> \<not> free_run b w n k))"
    using NextAligned_loop_spec [OF assms(1) order.refl assms(2,3,5), of 0] assms(4) by auto
  show ?thesis
  proof (cases "r = 0")
    case True
    then have "\<forall>j. \<not> free_run b w n j" using r(2) by (auto simp: free_run_def)
    with True r(1) show ?thesis by (simp add: NextAlignedFragments_def)
  next
    case False
    then obtain j where "r = n" "ret' = [j..j + n - 1] @ drop (nat n) ret" "free_run b w n j"
      "\<forall>k. 0 \<le> k \<and> k < j \<longrightarrow> \<not> free_run b w n k"
      using r(2) by auto
    moreover from this(2) have "take (nat n) ret' = [j..j + n - 1]" by simp
    ultimately show ?thesis using False r(1) by (auto simp: NextAlignedFragments_def)
  qed
qed

text \<open>
  \<open>NextAlignedFragments\<close> returns the lowest place where the wanted number of consecutive
  free fragments fits inside one window, and length 0 exactly when there is none.
\<close>

theorem NextAlignedFragments_first:
  assumes "bm_inv b" and "0 < n" and "n \<le> w" and "numBits b mod w = 0" and "n \<le> int (length ret)"
  shows "\<exists>ret' r. NextAlignedFragments (numBits b) b w n ret = Some (ret', r) \<and>
    (if r = 0 then \<forall>j. \<not> free_run b w n j
     else r = n \<and> (\<exists>j. take (nat n) ret' = [j..j + n - 1] \<and> free_run b w n j \<and>
       (\<forall>k. 0 \<le> k \<and> k < j \<longrightarrow> \<not> free_run b w n k)))"
  using assms by (rule NextAlignedFragments_spec)

theorem NextAlignedFragments_first_witness:
  "let b = \<lparr>numBits = 8, numWords = 1, bm_map = [0x21]\<rparr> in
    \<exists>ret' r. NextAlignedFragments 8 b 4 3 [0, 0, 0, 0] = Some (ret', r) \<and>
    (if r = 0 then \<forall>j. \<not> free_run b 4 3 j
     else r = 3 \<and> (\<exists>j. take (nat 3) ret' = [j..j + 3 - 1] \<and> free_run b 4 3 j \<and>
       (\<forall>k. 0 \<le> k \<and> k < j \<longrightarrow> \<not> free_run b 4 3 k)))"
  using NextAlignedFragments_first [of "\<lparr>numBits = 8, numWords = 1, bm_map = [0x21]\<rparr>" 3 4 "[0, 0, 0, 0]"]
  by (simp add: bm_inv_def divRoundUp_def Let_def)

lemma NextPlace_spec:
  assumes "bm_inv b" and "0 < n" and "n \<le> w" and "w < numBits b"
  shows "\<exists>minpos mn. NextPlaceForSmallFragments (numBits b) b w n = Some (minpos, mn) \<and>
    (if minpos = -1 then \<forall>j. \<not> free_run b w n j else place b w n minpos \<and> n \<le> mn \<and> mn \<le> w)"
proof -
  have "hole_inv b w n 0 0 (numBits b, -1)"
    using assms by (auto simp: hole_inv_def free_run_def)
  then show ?thesis
    unfolding NextPlaceForSmallFragments_def
    using NextPlace_loop_spec [of b w n 0 0 "numBits b" "-1"] assms by auto
qed

text \<open>
  \<open>NextPlaceForSmallFragments\<close> finds a place whenever there is one: it returns -1 exactly
  when no window has the wanted number of consecutive free fragments, and otherwise the start of
  such a run.
\<close>

theorem NextPlace_finds_a_hole:
  assumes "bm_inv b" and "0 < n" and "n \<le> w" and "w < numBits b"
  shows "\<exists>minpos mn. NextPlaceForSmallFragments (numBits b) b w n = Some (minpos, mn) \<and>
    (if minpos = -1 then \<forall>j. \<not> free_run b w n j else free_run b w n minpos \<and> n \<le> mn \<and> mn \<le> w)"
  using NextPlace_spec [OF assms] by (auto simp: place_def split: if_splits)

theorem NextPlace_finds_a_hole_witness:
  "let b = \<lparr>numBits = 8, numWords = 1, bm_map = [0x21]\<rparr> in
    \<exists>minpos mn. NextPlaceForSmallFragments 8 b 4 2 = Some (minpos, mn) \<and>
    (if minpos = -1 then \<forall>j. \<not> free_run b 4 2 j else free_run b 4 2 minpos \<and> 2 \<le> mn \<and> mn \<le> 4)"
  using NextPlace_finds_a_hole [of "\<lparr>numBits = 8, numWords = 1, bm_map = [0x21]\<rparr>" 2 4]
  by (simp add: bm_inv_def divRoundUp_def Let_def)

end
