(* ===== verification/FsAlloc.thy ===== *)
theory FsAlloc
  imports FsMeta FsSearch
begin

text \<open>
  The part of \<open>filesys/filesys.cc\<close> that owns the layout of the disk: formatting (the constructor
  of \<open>FileSystem\<close>), the allocation of fragments to an i-node (\<open>Allocate\<close>) and their release
  (\<open>Unlink\<close>). The disk has two cylinder groups of 64 fragments of 1 KB; each begins with 16
  control fragments: the superblock, the summary, the two free maps and the i-node table.
\<close>

definition CYLINDER_GROUPS :: int where "CYLINDER_GROUPS = 2"
definition BLOCK_SIZE :: int where "BLOCK_SIZE = 4096"
definition FRAGMENT_SIZE :: int where "FRAGMENT_SIZE = 1024"
definition INODE_RANGE :: int where "INODE_RANGE = 2048"

lemmas fs_consts = CYLINDER_GROUPS_def BLOCK_SIZE_def FRAGMENT_SIZE_def INODE_RANGE_def

definition sector_in_one_fragment :: int where
  "sector_in_one_fragment = FRAGMENT_SIZE sdiv SectorSize"

subsection \<open>Formatting\<close>

definition format_super_block :: super_block where
  "format_super_block =
     (let disk_data_size = NumSectors * SectorSize;
          blocks = disk_data_size sdiv BLOCK_SIZE;
          fragment_in_one_block = BLOCK_SIZE sdiv FRAGMENT_SIZE;
          fragments = fragment_in_one_block * blocks;
          inodes = disk_data_size sdiv INODE_RANGE
      in \<lparr>disk_size = disk_data_size, block_size = BLOCK_SIZE, block_count = blocks,
          fragment_size = FRAGMENT_SIZE, fragment_count = fragments, inode_count = inodes,
          cylinder_groups_count = CYLINDER_GROUPS,
          cylinder_in_each_group = NumTracks sdiv CYLINDER_GROUPS,
          offset_each_superblock_cylinder = 0 * fragment_in_one_block,
          offset_each_cylinder_summary = 1 * fragment_in_one_block,
          offset_cylinder_free_block_list = 2 * fragment_in_one_block,
          offset_cylinder_free_inode_list = 2 * fragment_in_one_block + fragment_in_one_block sdiv 2,
          offset_cylinder_inode_table = 3 * fragment_in_one_block,
          offset_cylinder_data_block = 4 * fragment_in_one_block,
          num_inode_cylinder = inodes sdiv CYLINDER_GROUPS,
          num_fragment_cylinder = fragments sdiv CYLINDER_GROUPS\<rparr>)"

text \<open>One round of the formatting loop: the control structures of group \<open>i\<close>.\<close>

definition format_group :: "super_block \<Rightarrow> int \<Rightarrow> disk \<Rightarrow> disk option" where
  "format_group sb i d = do {
     let fragment_in_one_block = BLOCK_SIZE sdiv FRAGMENT_SIZE;
     let fragments = fragment_count sb;
     let inodes = inode_count sb;
     let blocks = block_count sb;
     let offset_super_block = offset_each_superblock_cylinder sb * i;
     let start_fragment = (fragments sdiv CYLINDER_GROUPS) * i + offset_super_block;
     let control_block_length = offset_cylinder_data_block sb;
     let cSummary = \<lparr>num_free_block = blocks sdiv CYLINDER_GROUPS - 4,
           num_free_inode = inodes sdiv CYLINDER_GROUPS,
           num_free_fragment = fragments sdiv CYLINDER_GROUPS - 4 * fragment_in_one_block\<rparr>;
     cFreemap \<leftarrow> CylinderFreemap_new (inodes sdiv CYLINDER_GROUPS) (fragments sdiv CYLINDER_GROUPS);
     fm \<leftarrow> foldM (\<lambda>k fm. Mark fm (k + offset_super_block)) [0..control_block_length - 1]
            (fragment_free_map cFreemap);
     let cFreemap = cFreemap\<lparr>fragment_free_map := fm\<rparr>;
     d \<leftarrow> SuperBlock_writeBack sb d (start_fragment * sector_in_one_fragment);
     d \<leftarrow> CylinderSummary_writeBack cSummary d
            ((start_fragment + offset_each_cylinder_summary sb) * sector_in_one_fragment);
     CylinderFreemap_writeBack cFreemap d
       ((start_fragment + offset_cylinder_free_block_list sb) * sector_in_one_fragment)
       ((start_fragment + offset_cylinder_free_inode_list sb) * sector_in_one_fragment) }"

definition format_disk :: "disk \<Rightarrow> disk option" where
  "format_disk d = foldM (format_group format_super_block) [0..CYLINDER_GROUPS - 1] d"

text \<open>
  The kernel's file system: the disk, the superblock and the table of open i-nodes, and the
  directory of the running thread. \<open>junk\<close> and \<open>below\<close> are the memory the source reads without
  having set it: the fragment array of a new \<open>FileHeader\<close>, and the word before the array
  \<open>tmp_old_fragments\<close> in \<open>Allocate\<close>.
\<close>

record fs =
  dsk :: disk
  superBlock :: super_block
  metaTable :: meta_table
  currentDir :: int
  junk :: "int list"
  below :: int

definition FileSystem_new :: "bool \<Rightarrow> disk \<Rightarrow> int list \<Rightarrow> int \<Rightarrow> fs option" where
  "FileSystem_new format d junk0 below0 = do {
     (sb, d) \<leftarrow> (if format then do {
                  d \<leftarrow> format_disk d;
                  Some (format_super_block, d) }
                else SuperBlock_fetchFrom d 0);
     Some \<lparr>dsk = d, superBlock = sb, metaTable = MetaTable_new (inode_count sb), currentDir = 1,
           junk = junk0, below = below0\<rparr> }"

subsection \<open>The control structures of all groups\<close>

definition group_start :: "super_block \<Rightarrow> int \<Rightarrow> int" where
  "group_start sb i = i * (num_fragment_cylinder sb + offset_each_superblock_cylinder sb)"

definition map_sector :: "super_block \<Rightarrow> int \<Rightarrow> int" where
  "map_sector sb i = (group_start sb i + offset_cylinder_free_block_list sb) * sector_in_one_fragment"

definition inode_map_sector :: "super_block \<Rightarrow> int \<Rightarrow> int" where
  "inode_map_sector sb i = (group_start sb i + offset_cylinder_free_inode_list sb) * sector_in_one_fragment"

definition summary_sector :: "super_block \<Rightarrow> int \<Rightarrow> int" where
  "summary_sector sb i = (group_start sb i + offset_each_cylinder_summary sb) * sector_in_one_fragment"

definition fetch_freemap :: "super_block \<Rightarrow> int \<Rightarrow> disk \<Rightarrow> (cylinder_freemap \<times> disk) option" where
  "fetch_freemap sb i d = do {
     cf \<leftarrow> CylinderFreemap_new (num_inode_cylinder sb) (num_fragment_cylinder sb);
     CylinderFreemap_fetchFrom cf d (map_sector sb i) (inode_map_sector sb i) }"

definition write_freemap :: "super_block \<Rightarrow> cylinder_freemap list \<Rightarrow> int \<Rightarrow> disk \<Rightarrow> disk option" where
  "write_freemap sb cf i d = do {
     c \<leftarrow> arr_get cf i;
     CylinderFreemap_writeBack c d (map_sector sb i) (inode_map_sector sb i) }"

text \<open>
  A map of group \<open>i\<close> in the array \<open>cf\<close> is read and replaced through its pointer.
\<close>

definition fragment_map :: "cylinder_freemap list \<Rightarrow> int \<Rightarrow> bitmap option" where
  "fragment_map cf i = map_option fragment_free_map (arr_get cf i)"

definition with_fragment_map ::
    "(bitmap \<Rightarrow> bitmap option) \<Rightarrow> cylinder_freemap list \<Rightarrow> int \<Rightarrow> cylinder_freemap list option" where
  "with_fragment_map f cf i = do {
     c \<leftarrow> arr_get cf i;
     m \<leftarrow> f (fragment_free_map c);
     arr_set cf i (c\<lparr>fragment_free_map := m\<rparr>) }"

subsection \<open>The fragments of an i-node\<close>

text \<open>
  The loops that gather the fragments of an i-node from the header and its indirect block into a
  local array of 128; \<open>sif\<close> is the number of sectors in a fragment.
\<close>

definition gather_fragments :: "int \<Rightarrow> file_header \<Rightarrow> disk \<Rightarrow> (int list \<times> disk) option" where
  "gather_fragments sif h d =
     (if numFragments h > NUM_DIRECT_FRAGMENTS then do {
        ASSERT (numFragments h \<le> 128);
        (ib, d1) \<leftarrow> IndirectBlock_fetchFrom d (sif * indirect_block h);
        Some (take 16 (dataFragments h) @ take (nat (numFragments h - NUM_DIRECT_FRAGMENTS)) ib, d1) }
      else Some (take (nat (numFragments h)) (dataFragments h), d))"

subsection \<open>Allocation\<close>

text \<open>
  The arrays \<open>alloc_add_fragments\<close> and \<open>alloc_remove_fragments\<close> of 128 entries with their
  lengths are lists that may not outgrow 128.
\<close>

definition push128 :: "int list \<Rightarrow> int list \<Rightarrow> int list option" where
  "push128 xs ys = do { ASSERT (length xs + length ys \<le> 128); Some (xs @ ys) }"

definition mark_all :: "int list \<Rightarrow> cylinder_freemap list \<Rightarrow> int \<Rightarrow> cylinder_freemap list option" where
  "mark_all fs cf g = foldM (\<lambda>f cf. with_fragment_map (\<lambda>m. Mark m f) cf g) fs cf"

text \<open>
  The \<open>do ... while\<close> loop that takes whole blocks out of group \<open>g\<close>, entered with
  \<open>rest_blocks > 0\<close>. The array \<open>ret_fragment\<close> has 8 entries.
\<close>

function alloc_blocks_in ::
    "int \<Rightarrow> int \<Rightarrow> cylinder_freemap list \<times> int list \<times> int \<Rightarrow>
     (cylinder_freemap list \<times> int list \<times> int) option" where
  "alloc_blocks_in fic g (cf, add, rest) = do {
     m \<leftarrow> fragment_map cf g;
     (ret, ret_len) \<leftarrow> NextAlignedFragments fic m (BLOCK_SIZE sdiv FRAGMENT_SIZE)
        (BLOCK_SIZE sdiv FRAGMENT_SIZE) (replicate 8 0);
     if ret_len \<noteq> 0 then do {
       let got = take (nat ret_len) ret;
       add' \<leftarrow> push128 add (map (\<lambda>f. f + g * fic) got);
       cf' \<leftarrow> mark_all got cf g;
       if rest - 1 > 0 then alloc_blocks_in fic g (cf', add', rest - 1)
       else Some (cf', add', rest - 1) }
     else Some (cf, add, rest) }"
  by pat_completeness auto
termination
  by (relation "measure (\<lambda>(_, _, _, _, rest). nat rest)") auto

declare alloc_blocks_in.simps [simp del]

definition alloc_blocks ::
    "int \<Rightarrow> int \<Rightarrow> cylinder_freemap list \<times> int list \<times> int \<Rightarrow>
     (cylinder_freemap list \<times> int list \<times> int) option" where
  "alloc_blocks fic first_group st =
     foldM (\<lambda>i (cf, add, rest).
       if rest > 0 then alloc_blocks_in fic ((i + first_group) smod CYLINDER_GROUPS) (cf, add, rest)
       else Some (cf, add, rest)) [0..CYLINDER_GROUPS - 1] st"

text \<open>
  The fragments beyond the last whole block. The inner \<open>do ... while\<close> of the source runs once:
  a place found ends it with nothing left to find, no place found ends it too.
\<close>

definition alloc_rest ::
    "int \<Rightarrow> int \<Rightarrow> cylinder_freemap list \<times> int list \<times> int \<Rightarrow>
     (cylinder_freemap list \<times> int list \<times> int) option" where
  "alloc_rest fic first_group st =
     foldM (\<lambda>i (cf, add, rest).
       if rest > 0 then do {
         let g = (i + first_group) smod CYLINDER_GROUPS;
         m \<leftarrow> fragment_map cf g;
         (first, len) \<leftarrow> NextPlaceForSmallFragments fic m (BLOCK_SIZE sdiv FRAGMENT_SIZE) rest;
         if first \<noteq> -1 then do {
           let len' = (if len > rest then rest else len);
           let got = [first..first + len' - 1];
           add' \<leftarrow> push128 add (map (\<lambda>f. f + g * fic) got);
           cf' \<leftarrow> mark_all got cf g;
           Some (cf', add', 0) }
         else Some (cf, add, rest) }
       else Some (cf, add, rest)) [0..CYLINDER_GROUPS - 1] st"

text \<open>
  Giving back the fragments behind the last whole block of the old allocation, last one first.
\<close>

definition release_extra ::
    "int \<Rightarrow> int \<Rightarrow> int list \<Rightarrow> cylinder_freemap list \<Rightarrow> cylinder_freemap list option" where
  "release_extra fic g extra cf =
     foldM (\<lambda>f cf. with_fragment_map (\<lambda>m. Clear m (f smod fic)) cf g) extra cf"

text \<open>
  The first free fragment over the groups, for the indirect block; the caller takes the number
  as it is, relative to its group.
\<close>

fun find_indirect :: "int list \<Rightarrow> cylinder_freemap list \<Rightarrow> (int \<times> cylinder_freemap list) option" where
  "find_indirect [] cf = Some (-1, cf)"
| "find_indirect (i # is) cf = do {
     c \<leftarrow> arr_get cf i;
     (r, m) \<leftarrow> FindAndSet (fragment_free_map c);
     cf' \<leftarrow> arr_set cf i (c\<lparr>fragment_free_map := m\<rparr>);
     if r \<noteq> -1 then Some (r, cf') else find_indirect is cf' }"

text \<open>
  The old fragments, and for a file that outgrows its 16 direct fragments a fragment for the
  indirect block. \<open>None\<close> as the header stands for the early \<open>return false\<close>.
\<close>

definition prepare_indirect ::
    "file_header \<Rightarrow> int \<Rightarrow> cylinder_freemap list \<Rightarrow> (file_header option \<times> cylinder_freemap list) option" where
  "prepare_indirect h num_new_fragment cf =
     (if \<not> numFragments h > NUM_DIRECT_FRAGMENTS \<and> num_new_fragment > NUM_DIRECT_FRAGMENTS then do {
        (new_indirect_id, cf') \<leftarrow> find_indirect [0..CYLINDER_GROUPS - 1] cf;
        if new_indirect_id = -1 then Some (None, cf')
        else Some (Some (h\<lparr>indirect_block := new_indirect_id\<rparr>), cf') }
      else Some (Some h, cf))"

text \<open>
  The new fragment array, 128 entries that start as zeros, stored in the header and, beyond 16
  fragments, in the indirect block; then the control structures of every group.
\<close>

definition store_fragments :: "file_header \<Rightarrow> int list \<Rightarrow> int \<Rightarrow> int \<Rightarrow> disk \<Rightarrow> (file_header \<times> disk) option" where
  "store_fragments h new_fragments new_length num_new_fragment d = do {
     ASSERT (length new_fragments \<le> 128);
     let tmp_new_fragments = new_fragments @ replicate (128 - length new_fragments) 0;
     let h = h\<lparr>numBytes := new_length, numFragments := num_new_fragment\<rparr>;
     if num_new_fragment > NUM_DIRECT_FRAGMENTS then do {
       h \<leftarrow> setDataFragments h tmp_new_fragments NUM_DIRECT_FRAGMENTS;
       ib \<leftarrow> setFragments (drop 16 tmp_new_fragments) (num_new_fragment - NUM_DIRECT_FRAGMENTS);
       d \<leftarrow> IndirectBlock_writeBack ib d (sector_in_one_fragment * indirect_block h);
       Some (h, d) }
     else do {
       h \<leftarrow> setDataFragments h tmp_new_fragments num_new_fragment;
       Some (h, d) } }"

definition write_control ::
    "super_block \<Rightarrow> cylinder_summary list \<Rightarrow> cylinder_freemap list \<Rightarrow> disk \<Rightarrow> disk option" where
  "write_control sb cs cf d =
     foldM (\<lambda>m d. do {
       c \<leftarrow> arr_get cs m;
       d \<leftarrow> CylinderSummary_writeBack c d (summary_sector sb m);
       write_freemap sb cf m d }) [0..cylinder_groups_count sb - 1] d"

definition fetch_control ::
    "super_block \<Rightarrow> disk \<Rightarrow> (cylinder_summary list \<times> cylinder_freemap list \<times> disk) option" where
  "fetch_control sb d =
     foldM (\<lambda>i (cs, cf, d). do {
       (c, d) \<leftarrow> CylinderSummary_fetchFrom d (summary_sector sb i);
       (f, d) \<leftarrow> fetch_freemap sb i d;
       Some (cs @ [c], cf @ [f], d) }) [0..cylinder_groups_count sb - 1] ([], [], d)"

text \<open>The branch \<open>num_new_fragment > num_old_fragment\<close>.\<close>

definition grow ::
    "super_block \<Rightarrow> int \<Rightarrow> file_header \<Rightarrow> int list \<Rightarrow> int \<Rightarrow> int \<Rightarrow> cylinder_summary list \<Rightarrow>
     cylinder_freemap list \<Rightarrow> disk \<Rightarrow> (bool \<times> file_header \<times> disk) option" where
  "grow sb last_fragment h old_fragments num_new_fragment new_length cs cf d = do {
     let fic = num_fragment_cylinder sb;
     let fragment_in_one_block = BLOCK_SIZE sdiv FRAGMENT_SIZE;
     let num_old_fragment = numFragments h;
     ASSERT (fic \<noteq> 0);
     let cylinder = last_fragment sdiv fic;
     let num_new_block = num_new_fragment sdiv fragment_in_one_block;
     let num_new_extra = num_new_fragment smod fragment_in_one_block;
     let num_old_block = num_old_fragment sdiv fragment_in_one_block;
     let num_old_extra = num_old_fragment smod fragment_in_one_block;
     let extra = rev (drop (nat (num_old_fragment - num_old_extra)) old_fragments);
     cf \<leftarrow> release_extra fic cylinder extra cf;
     let first_group =
       (if num_old_extra \<noteq> 0 \<and> num_old_block \<noteq> 0
        then old_fragments ! nat (num_old_fragment - num_old_extra) sdiv fic else cylinder);
     (cf, add, rest_blocks) \<leftarrow> alloc_blocks fic first_group (cf, [], num_new_block - num_old_block);
     if rest_blocks = 0 then do {
       (cf, add, rest_fragments) \<leftarrow> alloc_rest fic first_group (cf, add, num_new_extra);
       if rest_fragments = 0 then do {
         (h, d) \<leftarrow> store_fragments h (take (nat (num_old_fragment - num_old_extra)) old_fragments @ add)
                     new_length num_new_fragment d;
         d \<leftarrow> write_control sb cs cf d;
         Some (True, h, d) }
       else Some (False, h, d) }
     else Some (False, h, d) }"

definition Allocate ::
    "super_block \<Rightarrow> int \<Rightarrow> file_header \<Rightarrow> int \<Rightarrow> disk \<Rightarrow> (bool \<times> file_header \<times> disk) option" where
  "Allocate sb below_array h new_length d = do {
     (cs, cf, d) \<leftarrow> fetch_control sb d;
     let num_old_fragment = numFragments h;
     let num_new_fragment = new_length sdiv FRAGMENT_SIZE;
     let num_new_fragment =
       (if new_length smod FRAGMENT_SIZE \<noteq> 0 then num_new_fragment + 1 else num_new_fragment);
     (old_fragments, d) \<leftarrow> gather_fragments sector_in_one_fragment h d;
     (hopt, cf) \<leftarrow> prepare_indirect h num_new_fragment cf;
     case hopt of
       None \<Rightarrow> Some (False, h, d)
     | Some h \<Rightarrow> do {
         last_fragment \<leftarrow> (if num_old_fragment = 0 then Some below_array
                          else arr_get old_fragments (num_old_fragment - 1));
         if num_new_fragment < num_old_fragment then Some (True, h\<lparr>numBytes := new_length\<rparr>, d)
         else if num_new_fragment > num_old_fragment then
           grow sb last_fragment h old_fragments num_new_fragment new_length cs cf d
         else Some (True, h\<lparr>numBytes := new_length\<rparr>, d) } }"

subsection \<open>Releasing an i-node\<close>

definition clear_fragment ::
    "int \<Rightarrow> int \<Rightarrow> cylinder_freemap list \<Rightarrow> cylinder_freemap list option" where
  "clear_fragment fic f cf = with_fragment_map (\<lambda>m. Clear m (f smod fic)) cf (f sdiv fic)"

definition fetch_freemaps :: "super_block \<Rightarrow> disk \<Rightarrow> (cylinder_freemap list \<times> disk) option" where
  "fetch_freemaps sb d =
     foldM (\<lambda>i (cf, d). do {
       (f, d) \<leftarrow> fetch_freemap sb i d;
       Some (cf @ [f], d) }) [0..CYLINDER_GROUPS - 1] ([], d)"

definition Unlink :: "super_block \<Rightarrow> int list \<Rightarrow> int \<Rightarrow> disk \<Rightarrow> (bool \<times> disk) option" where
  "Unlink sb hdr_junk inode d = do {
     let fic = num_fragment_cylinder sb;
     let iic = num_inode_cylinder sb;
     ASSERT (iic \<noteq> 0 \<and> fic \<noteq> 0);
     let cylinder_id = inode sdiv iic;
     (cf, d) \<leftarrow> fetch_freemaps sb d;
     (h, d) \<leftarrow> FileHeader_fetchFrom sb (FileHeader_new hdr_junk d inode) d;
     (fragments, d) \<leftarrow> gather_fragments sector_in_one_fragment h d;
     cf \<leftarrow> (if numFragments h > NUM_DIRECT_FRAGMENTS
           then with_fragment_map (\<lambda>m. Clear m (indirect_block h)) cf (indirect_block h sdiv fic)
           else Some cf);
     cf \<leftarrow> foldM (clear_fragment fic) fragments cf;
     c \<leftarrow> arr_get cf (inode sdiv iic);
     im \<leftarrow> Clear (inode_free_map c) (hdr_id h - cylinder_id * iic - 1);
     cf \<leftarrow> arr_set cf (inode sdiv iic) (c\<lparr>inode_free_map := im\<rparr>);
     d \<leftarrow> foldM (write_freemap sb cf) [0..CYLINDER_GROUPS - 1] d;
     Some (True, d) }"

end
