(* ===== verification/FsLayout.thy ===== *)
theory FsLayout
  imports FsAlloc
begin

text \<open>
  Where the control structures of a formatted disk lie, and what it means that a disk holds the
  summaries and free maps \<open>cs\<close> and \<open>cf\<close>: every fetch of the control structures then returns
  them, and writing them back establishes it. Formatting gives a disk whose 16 control fragments
  per group are in use and all else is free.
\<close>

subsection \<open>The layout\<close>

lemma format_sb_simps [simp]:
  "num_inode_cylinder format_super_block = 32" "num_fragment_cylinder format_super_block = 64"
  "fragment_size format_super_block = 1024" "cylinder_groups_count format_super_block = 2"
  "offset_each_superblock_cylinder format_super_block = 0"
  "offset_each_cylinder_summary format_super_block = 4"
  "offset_cylinder_free_block_list format_super_block = 8"
  "offset_cylinder_free_inode_list format_super_block = 10"
  "offset_cylinder_inode_table format_super_block = 12"
  "offset_cylinder_data_block format_super_block = 16"
  "inode_count format_super_block = 64" "block_count format_super_block = 32"
  "fragment_count format_super_block = 128" "block_size format_super_block = 4096"
  by (simp_all add: format_super_block_def fs_consts disk_consts Let_def)

lemma sif [simp]: "sector_in_one_fragment = 8"
  by (simp add: sector_in_one_fragment_def fs_consts disk_consts)

lemma layout_simps [simp]:
  "map_sector format_super_block i = 512 * i + 64"
  "inode_map_sector format_super_block i = 512 * i + 80"
  "summary_sector format_super_block i = 512 * i + 32"
  by (simp_all add: map_sector_def inode_map_sector_def summary_sector_def group_start_def)

lemma firstSector_eq:
  "1 \<le> hdr_id h \<Longrightarrow> firstSector format_super_block h =
     Some (512 * ((hdr_id h - 1) div 32) + 96 + (hdr_id h - 1) mod 32)"
  by (simp add: firstSector_def disk_consts Let_def)

lemma super_block_ok_format [simp]: "super_block_ok format_super_block"
  by (simp add: super_block_ok_def SuperBlock_ints_def format_super_block_def fs_consts disk_consts
      Let_def int_range_def)

lemma one_sector [simp]: "divRoundUp 8 SectorSize = 1" "divRoundUp 4 SectorSize = 1"
  "divRoundUp 12 SectorSize = 1" "divRoundUp 64 SectorSize = 1" "divRoundUp 100 SectorSize = 1"
  "divRoundUp 512 SectorSize = 4" "divRoundUp 1024 SectorSize = 8"
  by (simp_all add: divRoundUp_def disk_consts)

subsection \<open>Free maps\<close>

definition freemap_ok :: "cylinder_freemap \<Rightarrow> bool" where
  "freemap_ok c \<longleftrightarrow> num_cylinder_inode c = 32 \<and> num_cylinder_fragment c = 64 \<and>
     bm_inv (inode_free_map c) \<and> numBits (inode_free_map c) = 32 \<and>
     bm_inv (fragment_free_map c) \<and> numBits (fragment_free_map c) = 64"

definition cfs_ok :: "cylinder_freemap list \<Rightarrow> bool" where
  "cfs_ok cf \<longleftrightarrow> length cf = 2 \<and> (\<forall>c \<in> set cf. freemap_ok c)"

lemma freemap_words:
  assumes "freemap_ok c"
  shows "numWords (inode_free_map c) = 1" "length (bm_map (inode_free_map c)) = 1"
    "numWords (fragment_free_map c) = 2" "length (bm_map (fragment_free_map c)) = 2"
  using assms by (auto simp: freemap_ok_def bm_inv_def divRoundUp_def)

text \<open>One group's structures on a disk.\<close>

definition group_on_disk :: "(int \<Rightarrow> byte list) \<Rightarrow> int \<Rightarrow> cylinder_summary \<Rightarrow> cylinder_freemap \<Rightarrow> bool" where
  "group_on_disk f i cs c \<longleftrightarrow> summary_ok cs \<and> freemap_ok c \<and>
     stores f (512 * i + 32) 12 (CylinderSummary_bytes cs) \<and>
     stores f (512 * i + 64) 8 (words_to_bytes (bm_map (fragment_free_map c))) \<and>
     stores f (512 * i + 80) 4 (words_to_bytes (bm_map (inode_free_map c)))"

definition control_on_disk ::
    "(int \<Rightarrow> byte list) \<Rightarrow> cylinder_summary list \<Rightarrow> cylinder_freemap list \<Rightarrow> bool" where
  "control_on_disk f cs cf \<longleftrightarrow> length cs = 2 \<and> length cf = 2 \<and>
     group_on_disk f 0 (cs ! 0) (cf ! 0) \<and> group_on_disk f 1 (cs ! 1) (cf ! 1)"

lemma control_cfs_ok: "control_on_disk f cs cf \<Longrightarrow> cfs_ok cf"
  by (auto simp: control_on_disk_def cfs_ok_def group_on_disk_def in_set_conv_nth less_Suc_eq numeral_2_eq_2)

lemma Bitmap_new_fields:
  assumes "bm_inv b" and "0 < numBits b"
  shows "\<exists>b0. Bitmap_new (numBits b) = Some b0 \<and> b0\<lparr>bm_map := bm_map b\<rparr> = b \<and> numWords b0 = numWords b"
proof -
  obtain b0 where b0: "Bitmap_new (numBits b) = Some b0" "bm_inv b0" "numBits b0 = numBits b"
    using Bitmap_new_spec [OF assms(2)] by blast
  then have "numWords b0 = numWords b" using assms by (simp add: bm_inv_def)
  with b0 show ?thesis by (auto intro: bitmap.equality)
qed

lemma map_fetch_words:
  assumes "disk_ok d" and "0 \<le> s" and "s < NumSectors" and "bm_inv b" and "numBits b = 64 \<or> numBits b = 32"
    and "stores (sectors d) s (numWords b * 4) (words_to_bytes (bm_map b))"
    and "b0\<lparr>bm_map := bm_map b\<rparr> = b" and "numWords b0 = numWords b"
  obtains d' where "map_fetch b0 d s = Some (b, d')" and "idle_after d d'" and "sectors d' = sectors d"
proof -
  have nw: "numWords b = 2 \<and> length (bm_map b) = 2 \<or> numWords b = 1 \<and> length (bm_map b) = 1"
    using assms(4,5) by (auto simp: bm_inv_def divRoundUp_def)
  then show ?thesis
  proof
    assume n: "numWords b = 2 \<and> length (bm_map b) = 2"
    obtain d' where "fetch_object 8 (bytes_to_words 2) d s = Some (bm_map b, d')" "idle_after d d'"
      "sectors d' = sectors d"
      using fragment_words.fetch_stored [of d s "bm_map b"] assms n by auto
    with n assms(7,8) that show ?thesis by (simp add: map_fetch_def)
  next
    assume n: "numWords b = 1 \<and> length (bm_map b) = 1"
    obtain d' where "fetch_object 4 (bytes_to_words 1) d s = Some (bm_map b, d')" "idle_after d d'"
      "sectors d' = sectors d"
      using inode_words.fetch_stored [of d s "bm_map b"] assms n by auto
    with n assms(7,8) that show ?thesis by (simp add: map_fetch_def)
  qed
qed

lemma fetch_freemap_ok:
  assumes "disk_ok d" and "i = 0 \<or> i = 1" and "group_on_disk (sectors d) i cs c"
  obtains d' where "fetch_freemap format_super_block i d = Some (c, d')" and "idle_after d d'"
    and "sectors d' = sectors d"
proof -
  let ?fm = "fragment_free_map c" and ?im = "inode_free_map c"
  have ok: "freemap_ok c" using assms(3) by (simp add: group_on_disk_def)
  note w = freemap_words [OF ok]
  have inv: "bm_inv ?fm" "numBits ?fm = 64" "bm_inv ?im" "numBits ?im = 32"
    using ok by (auto simp: freemap_ok_def)
  obtain f0 where f0: "Bitmap_new 64 = Some f0" "f0\<lparr>bm_map := bm_map ?fm\<rparr> = ?fm" "numWords f0 = numWords ?fm"
    using Bitmap_new_fields [OF inv(1)] inv(2) by auto
  obtain i0 where i0: "Bitmap_new 32 = Some i0" "i0\<lparr>bm_map := bm_map ?im\<rparr> = ?im" "numWords i0 = numWords ?im"
    using Bitmap_new_fields [OF inv(3)] inv(4) by auto
  have s: "0 \<le> 512 * i + 64" "512 * i + 64 < NumSectors" "0 \<le> 512 * i + 80" "512 * i + 80 < NumSectors"
    using assms(2) by (auto simp: disk_consts)
  obtain d1 where d1: "map_fetch f0 d (512 * i + 64) = Some (?fm, d1)" "idle_after d d1" "sectors d1 = sectors d"
    by (rule map_fetch_words [OF assms(1) s(1,2) inv(1) _ _ f0(2,3)])
      (use assms(3) inv w in \<open>auto simp: group_on_disk_def\<close>)
  obtain d2 where d2: "map_fetch i0 d1 (512 * i + 80) = Some (?im, d2)" "idle_after d1 d2" "sectors d2 = sectors d1"
    by (rule map_fetch_words [OF idle_after_ok [OF d1(2)] s(3,4) inv(3) _ _ i0(2,3)])
      (use assms(3) inv w d1 in \<open>auto simp: group_on_disk_def\<close>)
  have "fetch_freemap format_super_block i d = Some (c, d2)"
    using f0(1) i0(1) d1(1) d2(1) ok
    by (simp add: fetch_freemap_def CylinderFreemap_new_def CylinderFreemap_fetchFrom_def freemap_ok_def)
  then show ?thesis using that idle_after_trans [OF d1(2) d2(2)] d1 d2 by simp
qed

lemma upto_groups: "[0..CYLINDER_GROUPS - 1] = [0, 1]" "[0..2 - 1] = [0, 1 :: int]" "[0..1] = [0, 1 :: int]"
  by (simp_all add: fs_consts upto_rec1)

lemma list2: "length xs = 2 \<Longrightarrow> xs = [xs ! 0, xs ! 1]"
  by (cases xs; cases "tl xs") auto

lemma fetch_control_ok:
  assumes "disk_ok d" and "control_on_disk (sectors d) cs cf"
  obtains d' where "fetch_control format_super_block d = Some (cs, cf, d')" and "idle_after d d'"
    and "sectors d' = sectors d"
proof -
  have g: "group_on_disk (sectors d) 0 (cs ! 0) (cf ! 0)" "group_on_disk (sectors d) 1 (cs ! 1) (cf ! 1)"
    and l: "length cs = 2" "length cf = 2"
    using assms(2) by (auto simp: control_on_disk_def)
  have sum: "\<exists>e'. CylinderSummary_fetchFrom e (512 * i + 32) = Some (c, e') \<and> idle_after e e' \<and> sectors e' = sectors e"
    if "disk_ok e" "i = 0 \<or> i = 1" "group_on_disk (sectors e) i c m" for e i c m
  proof -
    have "0 \<le> 512 * i + 32" "512 * i + 32 + divRoundUp 12 SectorSize \<le> NumSectors"
      using that(2) by (auto simp: disk_consts divRoundUp_def)
    then show ?thesis
      using summary.fetch_stored [of e "512 * i + 32" c] that
      by (auto simp: group_on_disk_def CylinderSummary_fetchFrom_def)
  qed
  obtain d1 where d1: "CylinderSummary_fetchFrom d 32 = Some (cs ! 0, d1)" "idle_after d d1" "sectors d1 = sectors d"
    using sum [of d 0] assms g by auto
  obtain d2 where d2: "fetch_freemap format_super_block 0 d1 = Some (cf ! 0, d2)" "idle_after d1 d2" "sectors d2 = sectors d1"
    using fetch_freemap_ok [of d1 0 "cs ! 0" "cf ! 0"] d1 g by auto
  obtain d3 where d3: "CylinderSummary_fetchFrom d2 544 = Some (cs ! 1, d3)" "idle_after d2 d3" "sectors d3 = sectors d2"
    using sum [of d2 1] d2 d1 g by auto
  obtain d4 where d4: "fetch_freemap format_super_block 1 d3 = Some (cf ! 1, d4)" "idle_after d3 d4" "sectors d4 = sectors d3"
    using fetch_freemap_ok [of d3 1 "cs ! 1" "cf ! 1"] d3 d2 d1 g by auto
  have "fetch_control format_super_block d = Some ([cs ! 0, cs ! 1], [cf ! 0, cf ! 1], d4)"
    using d1(1) d2(1) d3(1) d4(1) by (simp add: fetch_control_def upto_groups)
  moreover have "idle_after d d4"
    using d1 d2 d3 d4 idle_after_trans by blast
  ultimately show ?thesis using that list2 [OF l(1)] list2 [OF l(2)] d1 d2 d3 d4 by simp
qed

lemma stores_cong:
  "(\<And>k. s \<le> k \<Longrightarrow> k < s + divRoundUp len SectorSize \<Longrightarrow> g k = f k) \<Longrightarrow> stores g s len bs = stores f s len bs"
  unfolding stores_def by (subst run_bytes_cong [of _ g s f]) auto

lemma stores_cong1: "g s = f s \<Longrightarrow> divRoundUp len SectorSize = 1 \<Longrightarrow> stores g s len bs = stores f s len bs"
  by (rule stores_cong) (metis order.antisym zle_add1_eq_le)

lemma sectors_put_1: "k \<noteq> s \<Longrightarrow> sectors_put f s (Suc 0) buf k = f k"
  by (rule sectors_put_out) auto

lemma group_on_disk_cong:
  assumes "group_on_disk f i cs c" and "g (512 * i + 32) = f (512 * i + 32)"
    and "g (512 * i + 64) = f (512 * i + 64)" and "g (512 * i + 80) = f (512 * i + 80)"
  shows "group_on_disk g i cs c"
proof -
  show ?thesis
    using assms unfolding group_on_disk_def by (simp add: stores_cong1 [of g _ f])
qed

definition control_sectors :: "int set" where
  "control_sectors = {32, 64, 80, 544, 576, 592}"

lemma control_on_disk_cong:
  "control_on_disk f cs cf \<Longrightarrow> (\<And>k. k \<in> control_sectors \<Longrightarrow> g k = f k) \<Longrightarrow> control_on_disk g cs cf"
proof -
  assume f: "control_on_disk f cs cf" and g: "\<And>k. k \<in> control_sectors \<Longrightarrow> g k = f k"
  have "group_on_disk f 0 (cs ! 0) (cf ! 0)" "group_on_disk f 1 (cs ! 1) (cf ! 1)"
    using f by (simp_all add: control_on_disk_def)
  then have "group_on_disk g 0 (cs ! 0) (cf ! 0)" "group_on_disk g 1 (cs ! 1) (cf ! 1)"
    by (auto elim!: group_on_disk_cong simp: g control_sectors_def)
  then show ?thesis using f by (simp add: control_on_disk_def)
qed

lemma map_write_ok:
  assumes "disk_ok d" and "0 \<le> s" and "s < NumSectors" and "bm_inv b" and "numBits b = 64 \<or> numBits b = 32"
  obtains d' where "map_write b d s = Some d'" and "idle_after d d'"
    and "\<And>k. k \<noteq> s \<Longrightarrow> sectors d' k = sectors d k"
    and "stores (sectors d') s (numWords b * 4) (words_to_bytes (bm_map b))"
proof -
  have nw: "numWords b = 2 \<and> length (bm_map b) = 2 \<or> numWords b = 1 \<and> length (bm_map b) = 1"
    using assms(4,5) by (auto simp: bm_inv_def divRoundUp_def)
  then show ?thesis
  proof
    assume n: "numWords b = 2 \<and> length (bm_map b) = 2"
    obtain d' where "write_object 8 words_to_bytes (bm_map b) d s = Some d'" "idle_after d d'"
      "sectors d' = sectors_put (sectors d) s 1 (padded 8 (words_to_bytes (bm_map b)))"
      "stores (sectors d') s 8 (words_to_bytes (bm_map b))"
      using fragment_words.write_stores [of d s "bm_map b"] assms n by auto
    with n show ?thesis by (intro that [of d']) (simp_all add: map_write_def sectors_put_1)
  next
    assume n: "numWords b = 1 \<and> length (bm_map b) = 1"
    obtain d' where "write_object 4 words_to_bytes (bm_map b) d s = Some d'" "idle_after d d'"
      "sectors d' = sectors_put (sectors d) s 1 (padded 4 (words_to_bytes (bm_map b)))"
      "stores (sectors d') s 4 (words_to_bytes (bm_map b))"
      using inode_words.write_stores [of d s "bm_map b"] assms n by auto
    with n show ?thesis by (intro that [of d']) (simp_all add: map_write_def sectors_put_1)
  qed
qed

text \<open>Writing one group's structures.\<close>

lemma freemap_write_ok:
  assumes "disk_ok d" and "i = 0 \<or> i = 1" and "freemap_ok c"
  obtains d' where "CylinderFreemap_writeBack c d (512 * i + 64) (512 * i + 80) = Some d'"
    and "idle_after d d'"
    and "\<And>k. k \<noteq> 512 * i + 64 \<Longrightarrow> k \<noteq> 512 * i + 80 \<Longrightarrow> sectors d' k = sectors d k"
    and "stores (sectors d') (512 * i + 64) 8 (words_to_bytes (bm_map (fragment_free_map c)))"
    and "stores (sectors d') (512 * i + 80) 4 (words_to_bytes (bm_map (inode_free_map c)))"
proof -
  have inv: "bm_inv (fragment_free_map c)" "numBits (fragment_free_map c) = 64"
    "bm_inv (inode_free_map c)" "numBits (inode_free_map c) = 32"
    using assms(3) by (auto simp: freemap_ok_def)
  have s: "0 \<le> 512 * i + 64" "512 * i + 64 < NumSectors" "0 \<le> 512 * i + 80" "512 * i + 80 < NumSectors"
    using assms(2) by (auto simp: disk_consts)
  obtain d1 where d1: "map_write (fragment_free_map c) d (512 * i + 64) = Some d1" "idle_after d d1"
    "\<And>k. k \<noteq> 512 * i + 64 \<Longrightarrow> sectors d1 k = sectors d k"
    "stores (sectors d1) (512 * i + 64) (numWords (fragment_free_map c) * 4) (words_to_bytes (bm_map (fragment_free_map c)))"
    using map_write_ok [OF assms(1) s(1,2) inv(1)] inv(2) by blast
  obtain d2 where d2: "map_write (inode_free_map c) d1 (512 * i + 80) = Some d2" "idle_after d1 d2"
    "\<And>k. k \<noteq> 512 * i + 80 \<Longrightarrow> sectors d2 k = sectors d1 k"
    "stores (sectors d2) (512 * i + 80) (numWords (inode_free_map c) * 4) (words_to_bytes (bm_map (inode_free_map c)))"
    using map_write_ok [OF idle_after_ok [OF d1(2)] s(3,4) inv(3)] inv(4) by blast
  have "stores (sectors d2) (512 * i + 64) 8 (words_to_bytes (bm_map (fragment_free_map c)))"
    using d1(4) freemap_words [OF assms(3)] d2(3)
    by (subst stores_cong1 [where f = "sectors d1"]) simp_all
  moreover have "stores (sectors d2) (512 * i + 80) 4 (words_to_bytes (bm_map (inode_free_map c)))"
    using d2(4) freemap_words [OF assms(3)] by simp
  moreover have "CylinderFreemap_writeBack c d (512 * i + 64) (512 * i + 80) = Some d2"
    using d1(1) d2(1) by (simp add: CylinderFreemap_writeBack_def)
  ultimately show ?thesis
    using that [of d2] idle_after_trans [OF d1(2) d2(2)] d1(3) d2(3) by simp
qed

lemma group_write_ok:
  assumes "disk_ok d" and "i = 0 \<or> i = 1" and "freemap_ok c" and "summary_ok cs"
  obtains d1 d' where "CylinderSummary_writeBack cs d (512 * i + 32) = Some d1"
    and "CylinderFreemap_writeBack c d1 (512 * i + 64) (512 * i + 80) = Some d'"
    and "idle_after d d'"
    and "\<And>k. k \<noteq> 512 * i + 32 \<Longrightarrow> k \<noteq> 512 * i + 64 \<Longrightarrow> k \<noteq> 512 * i + 80 \<Longrightarrow> sectors d' k = sectors d k"
    and "group_on_disk (sectors d') i cs c"
proof -
  have s: "0 \<le> 512 * i + 32" "512 * i + 32 + divRoundUp 12 SectorSize \<le> NumSectors"
    using assms(2) by (auto simp: disk_consts divRoundUp_def)
  obtain d1 where d1: "CylinderSummary_writeBack cs d (512 * i + 32) = Some d1" "idle_after d d1"
    "sectors d1 = sectors_put (sectors d) (512 * i + 32) 1 (padded 12 (CylinderSummary_bytes cs))"
    "stores (sectors d1) (512 * i + 32) 12 (CylinderSummary_bytes cs)"
    using summary.write_stores [OF assms(1) s assms(4)] by (auto simp: CylinderSummary_writeBack_def)
  obtain d2 where d2: "CylinderFreemap_writeBack c d1 (512 * i + 64) (512 * i + 80) = Some d2"
    "idle_after d1 d2"
    "\<And>k. k \<noteq> 512 * i + 64 \<Longrightarrow> k \<noteq> 512 * i + 80 \<Longrightarrow> sectors d2 k = sectors d1 k"
    "stores (sectors d2) (512 * i + 64) 8 (words_to_bytes (bm_map (fragment_free_map c)))"
    "stores (sectors d2) (512 * i + 80) 4 (words_to_bytes (bm_map (inode_free_map c)))"
    using freemap_write_ok [OF idle_after_ok [OF d1(2)] assms(2,3)] by blast
  have "stores (sectors d2) (512 * i + 32) 12 (CylinderSummary_bytes cs)"
    using d1(4) d2(3) by (subst stores_cong1 [where f = "sectors d1"]) simp_all
  then have "group_on_disk (sectors d2) i cs c"
    using d2 assms by (simp add: group_on_disk_def)
  moreover have "sectors d2 k = sectors d k"
    if "k \<noteq> 512 * i + 32" "k \<noteq> 512 * i + 64" "k \<noteq> 512 * i + 80" for k
    using that d2(3) by (simp add: d1(3) sectors_put_1)
  ultimately show ?thesis using that d1(1) d2(1) idle_after_trans [OF d1(2) d2(2)] by blast
qed

lemma write_control_ok:
  assumes "disk_ok d" and "length cs = 2" and "\<forall>c \<in> set cs. summary_ok c" and "cfs_ok cf"
  obtains d' where "write_control format_super_block cs cf d = Some d'" and "idle_after d d'"
    and "control_on_disk (sectors d') cs cf"
    and "\<And>k. k \<notin> control_sectors \<Longrightarrow> sectors d' k = sectors d k"
proof -
  have l: "length cf = 2" "freemap_ok (cf ! 0)" "freemap_ok (cf ! 1)" "summary_ok (cs ! 0)" "summary_ok (cs ! 1)"
    using assms by (auto simp: cfs_ok_def)
  obtain a d1 where d1: "CylinderSummary_writeBack (cs ! 0) d 32 = Some a"
    "CylinderFreemap_writeBack (cf ! 0) a 64 80 = Some d1" "idle_after d d1"
    "\<And>k. k \<noteq> 32 \<Longrightarrow> k \<noteq> 64 \<Longrightarrow> k \<noteq> 80 \<Longrightarrow> sectors d1 k = sectors d k"
    "group_on_disk (sectors d1) 0 (cs ! 0) (cf ! 0)"
    using group_write_ok [OF assms(1), of 0 "cf ! 0" "cs ! 0"] l by auto
  obtain b d2 where d2: "CylinderSummary_writeBack (cs ! 1) d1 544 = Some b"
    "CylinderFreemap_writeBack (cf ! 1) b 576 592 = Some d2" "idle_after d1 d2"
    "\<And>k. k \<noteq> 544 \<Longrightarrow> k \<noteq> 576 \<Longrightarrow> k \<noteq> 592 \<Longrightarrow> sectors d2 k = sectors d1 k"
    "group_on_disk (sectors d2) 1 (cs ! 1) (cf ! 1)"
    using group_write_ok [OF idle_after_ok [OF d1(3)], of 1 "cf ! 1" "cs ! 1"] l by auto
  have "write_control format_super_block cs cf d = Some d2"
    using d1(1,2) d2(1,2) l assms(2)
    by (simp add: write_control_def write_freemap_def upto_groups arr_get_def)
  moreover have "group_on_disk (sectors d2) 0 (cs ! 0) (cf ! 0)"
    by (rule group_on_disk_cong [OF d1(5)]) (simp_all add: d2(4))
  then have "control_on_disk (sectors d2) cs cf"
    using d2(5) l assms(2) by (simp add: control_on_disk_def)
  moreover have "sectors d2 k = sectors d k" if "k \<notin> control_sectors" for k
    using that d1(4) d2(4) by (simp add: control_sectors_def)
  ultimately show ?thesis using that idle_after_trans [OF d1(3) d2(3)] by blast
qed

subsection \<open>The fragments in use\<close>

definition used :: "cylinder_freemap list \<Rightarrow> int \<Rightarrow> bool" where
  "used cf f = bm_bit (fragment_free_map (cf ! nat (f div 64))) (f mod 64)"

definition inode_used :: "cylinder_freemap list \<Rightarrow> int \<Rightarrow> bool" where
  "inode_used cf n = bm_bit (inode_free_map (cf ! nat (n div 32))) (n mod 32)"

text \<open>
  \<open>changed cf cf' S\<close>: \<open>cf'\<close> differs from \<open>cf\<close> only in the fragments that are used, which are now
  those of \<open>S\<close>.
\<close>

definition changed :: "cylinder_freemap list \<Rightarrow> cylinder_freemap list \<Rightarrow> (int \<Rightarrow> bool) \<Rightarrow> bool" where
  "changed cf cf' S \<longleftrightarrow> cfs_ok cf' \<and> map inode_free_map cf' = map inode_free_map cf \<and>
     (\<forall>f. 0 \<le> f \<and> f < 128 \<longrightarrow> used cf' f = S f)"

lemma with_fragment_map_changed:
  assumes cf: "cfs_ok cf" and g: "g = 0 \<or> g = 1" and k: "0 \<le> k" "k < 64"
    and op: "f (fragment_free_map (cf ! nat g)) = Some m'" "bm_inv m'" "numBits m' = 64"
      "\<forall>j. 0 \<le> j \<and> j < 64 \<longrightarrow> bm_bit m' j = (if j = k then v else bm_bit (fragment_free_map (cf ! nat g)) j)"
  shows "\<exists>cf'. with_fragment_map f cf g = Some cf' \<and> changed cf cf' (\<lambda>x. if x = 64 * g + k then v else used cf x)"
proof -
  have l: "length cf = 2" using cf by (simp add: cfs_ok_def)
  let ?c = "(cf ! nat g)\<lparr>fragment_free_map := m'\<rparr>"
  let ?cf = "cf[nat g := ?c]"
  have gl: "nat g < length cf" using g l by auto
  have "freemap_ok (cf ! nat g)" using cf gl by (auto simp: cfs_ok_def)
  then have "freemap_ok ?c" using op(2,3) by (simp add: freemap_ok_def)
  then have ok: "cfs_ok ?cf" using cf by (auto simp: cfs_ok_def dest!: set_update_subset_insert [THEN subsetD])
  have "with_fragment_map f cf g = Some ?cf"
    using g l op(1) by (auto simp: with_fragment_map_def arr_get_def arr_set_def)
  moreover have "map inode_free_map ?cf = map inode_free_map cf"
    using gl by (simp add: map_update list_update_same_conv)
  moreover have "used ?cf x = (if x = 64 * g + k then v else used cf x)" if x: "0 \<le> x" "x < 128" for x
  proof -
    have m: "0 \<le> x mod 64" "x mod 64 < 64" "x = 64 * (x div 64) + x mod 64" by simp_all
    have d: "x div 64 = 0 \<or> x div 64 = 1" using x by auto
    show ?thesis
    proof (cases "x div 64 = g")
      case True
      have "x = 64 * g + x mod 64" using m(3) [unfolded True] .
      then have "(x = 64 * g + k) = (x mod 64 = k)" by linarith
      with True op(4) m gl show ?thesis by (simp add: used_def)
    next
      case False
      then have "x \<noteq> 64 * g + k" using k by auto
      moreover have "nat (x div 64) \<noteq> nat g" using False d g by auto
      ultimately show ?thesis by (simp add: used_def)
    qed
  qed
  ultimately show ?thesis using ok by (auto simp: changed_def)
qed

lemma changed_cong: "changed cf cf' S \<Longrightarrow> (\<And>x. 0 \<le> x \<Longrightarrow> x < 128 \<Longrightarrow> S x = T x) \<Longrightarrow> changed cf cf' T"
  by (auto simp: changed_def)

lemma Mark_changed:
  assumes "cfs_ok cf" and "g = 0 \<or> g = 1" and "0 \<le> k" and "k < 64"
  shows "\<exists>cf'. with_fragment_map (\<lambda>m. Mark m k) cf g = Some cf' \<and>
    changed cf cf' (\<lambda>x. x = 64 * g + k \<or> used cf x)"
proof -
  have "freemap_ok (cf ! nat g)" using assms(1,2) by (auto simp: cfs_ok_def)
  then have b: "bm_inv (fragment_free_map (cf ! nat g))" "numBits (fragment_free_map (cf ! nat g)) = 64"
    by (auto simp: freemap_ok_def)
  obtain m' where m: "Mark (fragment_free_map (cf ! nat g)) k = Some m'" "bm_inv m'" "numBits m' = 64"
    "\<forall>j. 0 \<le> j \<and> j < 64 \<longrightarrow> bm_bit m' j = (if j = k then True else bm_bit (fragment_free_map (cf ! nat g)) j)"
    using Mark_spec [OF b(1), of k] b(2) assms(3,4) by auto
  obtain cf' where c: "with_fragment_map (\<lambda>m. Mark m k) cf g = Some cf'"
    "changed cf cf' (\<lambda>x. if x = 64 * g + k then True else used cf x)"
    using with_fragment_map_changed [where f = "\<lambda>m. Mark m k", OF assms m] by blast
  have "changed cf cf' (\<lambda>x. x = 64 * g + k \<or> used cf x)" by (rule changed_cong [OF c(2)]) auto
  with c(1) show ?thesis by blast
qed

lemma Clear_changed:
  assumes "cfs_ok cf" and "g = 0 \<or> g = 1" and "0 \<le> k" and "k < 64"
  shows "\<exists>cf'. with_fragment_map (\<lambda>m. Clear m k) cf g = Some cf' \<and>
    changed cf cf' (\<lambda>x. x \<noteq> 64 * g + k \<and> used cf x)"
proof -
  have "freemap_ok (cf ! nat g)" using assms(1,2) by (auto simp: cfs_ok_def)
  then have b: "bm_inv (fragment_free_map (cf ! nat g))" "numBits (fragment_free_map (cf ! nat g)) = 64"
    by (auto simp: freemap_ok_def)
  obtain m' where m: "Clear (fragment_free_map (cf ! nat g)) k = Some m'" "bm_inv m'" "numBits m' = 64"
    "\<forall>j. 0 \<le> j \<and> j < 64 \<longrightarrow> bm_bit m' j = (if j = k then False else bm_bit (fragment_free_map (cf ! nat g)) j)"
    using Clear_spec [OF b(1), of k] b(2) assms(3,4) by auto
  obtain cf' where c: "with_fragment_map (\<lambda>m. Clear m k) cf g = Some cf'"
    "changed cf cf' (\<lambda>x. if x = 64 * g + k then False else used cf x)"
    using with_fragment_map_changed [where f = "\<lambda>m. Clear m k", OF assms m] by blast
  have "changed cf cf' (\<lambda>x. x \<noteq> 64 * g + k \<and> used cf x)" by (rule changed_cong [OF c(2)]) auto
  with c(1) show ?thesis by blast
qed

lemma changed_trans:
  assumes "changed cf cf1 S" and "changed cf1 cf2 T"
  shows "changed cf cf2 T"
  using assms by (auto simp: changed_def)

lemma changed_ok: "changed cf cf' S \<Longrightarrow> cfs_ok cf'"
  by (simp add: changed_def)

lemma changed_used: "changed cf cf' S \<Longrightarrow> 0 \<le> f \<Longrightarrow> f < 128 \<Longrightarrow> used cf' f = S f"
  by (simp add: changed_def)

lemma changed_refl: "cfs_ok cf \<Longrightarrow> changed cf cf (used cf)"
  by (simp add: changed_def)

lemma changed_inodes:
  assumes "changed cf cf' S" and "0 \<le> n" and "n < 64" and "cfs_ok cf"
  shows "inode_used cf' n = inode_used cf n"
proof -
  have l: "length cf = 2" "length cf' = 2" using assms by (auto simp: changed_def cfs_ok_def)
  have "n div 32 = 0 \<or> n div 32 = 1" using assms by auto
  then have "nat (n div 32) < 2" by auto
  then have "inode_free_map (cf' ! nat (n div 32)) = inode_free_map (cf ! nat (n div 32))"
    using assms(1) l unfolding changed_def by (metis nth_map)
  then show ?thesis by (simp add: inode_used_def)
qed

lemma mark_all_changed:
  assumes "cfs_ok cf" and "g = 0 \<or> g = 1" and "\<forall>k \<in> set ks. 0 \<le> k \<and> k < 64"
  shows "\<exists>cf'. mark_all ks cf g = Some cf' \<and>
    changed cf cf' (\<lambda>x. x \<in> (\<lambda>k. k + g * 64) ` set ks \<or> used cf x)"
  using assms(1,3)
proof (induction ks arbitrary: cf)
  case Nil
  then show ?case by (simp add: mark_all_def changed_refl)
next
  case (Cons k ks)
  obtain cf1 where c1: "with_fragment_map (\<lambda>m. Mark m k) cf g = Some cf1"
    "changed cf cf1 (\<lambda>x. x = 64 * g + k \<or> used cf x)"
    using Mark_changed [OF Cons.prems(1) assms(2), of k] Cons.prems(2) by auto
  obtain cf2 where c2: "mark_all ks cf1 g = Some cf2"
    "changed cf1 cf2 (\<lambda>x. x \<in> (\<lambda>k. k + g * 64) ` set ks \<or> used cf1 x)"
    using Cons.IH [OF changed_ok [OF c1(2)]] Cons.prems(2) by auto
  have "changed cf cf2 (\<lambda>x. x \<in> (\<lambda>k. k + g * 64) ` set (k # ks) \<or> used cf x)"
    by (rule changed_cong [OF changed_trans [OF c1(2) c2(2)]])
      (auto simp: changed_used [OF c1(2)])
  moreover have "mark_all (k # ks) cf g = Some cf2"
    using c1(1) c2(1) by (simp add: mark_all_def)
  ultimately show ?case by blast
qed

subsection \<open>A formatted disk\<close>

definition fresh_summary :: cylinder_summary where
  "fresh_summary = \<lparr>num_free_block = 12, num_free_inode = 32, num_free_fragment = 48\<rparr>"

definition fresh_map :: "cylinder_freemap \<Rightarrow> bool" where
  "fresh_map c \<longleftrightarrow> freemap_ok c \<and> (\<forall>k. 0 \<le> k \<and> k < 64 \<longrightarrow> bm_bit (fragment_free_map c) k = (k < 16)) \<and>
     (\<forall>k. 0 \<le> k \<and> k < 32 \<longrightarrow> \<not> bm_bit (inode_free_map c) k)"

lemma fresh_freemap:
  obtains c fm where "CylinderFreemap_new 32 64 = Some c"
    and "foldM (\<lambda>k fm. Mark fm k) [0..15] (fragment_free_map c) = Some fm"
    and "fresh_map (c\<lparr>fragment_free_map := fm\<rparr>)"
proof -
  obtain im where im: "Bitmap_new 32 = Some im" "bm_inv im" "numBits im = 32" "\<forall>j. 0 \<le> j \<and> j < 32 \<longrightarrow> \<not> bm_bit im j"
    using Bitmap_new_spec [of 32] by auto
  obtain f0 where f0: "Bitmap_new 64 = Some f0" "bm_inv f0" "numBits f0 = 64" "\<forall>j. 0 \<le> j \<and> j < 64 \<longrightarrow> \<not> bm_bit f0 j"
    using Bitmap_new_spec [of 64] by auto
  obtain fm where fm: "foldM (\<lambda>k fm. Mark fm k) [0..15] f0 = Some fm" "bm_inv fm" "numBits fm = 64"
    "\<forall>j. 0 \<le> j \<and> j < 64 \<longrightarrow> bm_bit fm j = (j \<in> set [0..15] \<or> bm_bit f0 j)"
    using bm.take_cells [OF f0(2), of "[0..15]"] f0(3) by auto
  let ?c = "\<lparr>num_cylinder_inode = 32, num_cylinder_fragment = 64, inode_free_map = im, fragment_free_map = f0\<rparr>"
  have "CylinderFreemap_new 32 64 = Some ?c" using im f0 by (simp add: CylinderFreemap_new_def)
  moreover have "fresh_map (?c\<lparr>fragment_free_map := fm\<rparr>)"
    using im f0 fm by (auto simp: fresh_map_def freemap_ok_def)
  ultimately show ?thesis using that [of ?c fm] fm(1) by simp
qed

lemma format_group_ok:
  assumes "disk_ok d" and "i = 0 \<or> i = 1"
  obtains d' c where "format_group format_super_block i d = Some d'" and "idle_after d d'"
    and "group_on_disk (sectors d') i fresh_summary c" and "fresh_map c"
    and "stores (sectors d') (512 * i) 64 (SuperBlock_bytes format_super_block)"
    and "\<And>k. k \<noteq> 512 * i \<Longrightarrow> k \<noteq> 512 * i + 32 \<Longrightarrow> k \<noteq> 512 * i + 64 \<Longrightarrow> k \<noteq> 512 * i + 80 \<Longrightarrow>
           sectors d' k = sectors d k"
proof -
  obtain c0 fm where c0: "CylinderFreemap_new 32 64 = Some c0"
    "foldM (\<lambda>k fm. Mark fm k) [0..15] (fragment_free_map c0) = Some fm"
    "fresh_map (c0\<lparr>fragment_free_map := fm\<rparr>)" by (rule fresh_freemap)
  let ?c = "c0\<lparr>fragment_free_map := fm\<rparr>"
  have ok: "freemap_ok ?c" using c0(3) by (simp add: fresh_map_def)
  have s: "0 \<le> 512 * i" "512 * i + divRoundUp 64 SectorSize \<le> NumSectors"
    using assms(2) by (auto simp: disk_consts divRoundUp_def)
  obtain d1 where d1: "SuperBlock_writeBack format_super_block d (512 * i) = Some d1" "idle_after d d1"
    "sectors d1 = sectors_put (sectors d) (512 * i) 1 (padded 64 (SuperBlock_bytes format_super_block))"
    "stores (sectors d1) (512 * i) 64 (SuperBlock_bytes format_super_block)"
    using super.write_stores [OF assms(1) s super_block_ok_format] by (auto simp: SuperBlock_writeBack_def)
  have sok: "summary_ok fresh_summary" by (simp add: summary_ok_def fresh_summary_def int_range_def)
  obtain a d2 where d2: "CylinderSummary_writeBack fresh_summary d1 (512 * i + 32) = Some a"
    "CylinderFreemap_writeBack ?c a (512 * i + 64) (512 * i + 80) = Some d2" "idle_after d1 d2"
    "\<And>k. k \<noteq> 512 * i + 32 \<Longrightarrow> k \<noteq> 512 * i + 64 \<Longrightarrow> k \<noteq> 512 * i + 80 \<Longrightarrow> sectors d2 k = sectors d1 k"
    "group_on_disk (sectors d2) i fresh_summary ?c"
    using group_write_ok [OF idle_after_ok [OF d1(2)] assms(2) ok sok] by blast
  have "format_group format_super_block i d = Some d2"
    using c0(1,2) d1(1) d2(1,2)
    by (simp add: format_group_def Let_def fs_consts fresh_summary_def algebra_simps)
  moreover have "stores (sectors d2) (512 * i) 64 (SuperBlock_bytes format_super_block)"
    using d1(4) d2(4) by (subst stores_cong1 [where f = "sectors d1"]) simp_all
  moreover have "sectors d2 k = sectors d k"
    if "k \<noteq> 512 * i" "k \<noteq> 512 * i + 32" "k \<noteq> 512 * i + 64" "k \<noteq> 512 * i + 80" for k
    using that d2(4) by (simp add: d1(3) sectors_put_1)
  ultimately show ?thesis
    using that [of d2 ?c] d2(5) c0(3) idle_after_trans [OF d1(2) d2(3)] by blast
qed

text \<open>
  A formatted disk: its superblock, and control structures that are fetched whole, in which
  exactly the first 16 fragments of each group are used and no i-node is.
\<close>

lemma format_disk_ok:
  assumes "disk_ok d"
  obtains d' cf where "format_disk d = Some d'" and "idle_after d d'"
    and "control_on_disk (sectors d') [fresh_summary, fresh_summary] cf"
    and "fresh_map (cf ! 0)" and "fresh_map (cf ! 1)"
    and "stores (sectors d') 0 64 (SuperBlock_bytes format_super_block)"
proof -
  obtain d1 c1 where d1: "format_group format_super_block 0 d = Some d1" "idle_after d d1"
    "group_on_disk (sectors d1) 0 fresh_summary c1" "fresh_map c1"
    "stores (sectors d1) (512 * 0) 64 (SuperBlock_bytes format_super_block)"
    by (rule format_group_ok [OF assms, of 0]) auto
  obtain d2 c2 where d2: "format_group format_super_block 1 d1 = Some d2" "idle_after d1 d2"
    "group_on_disk (sectors d2) 1 fresh_summary c2" "fresh_map c2"
    "\<And>k. k \<noteq> 512 * 1 \<Longrightarrow> k \<noteq> 512 * 1 + 32 \<Longrightarrow> k \<noteq> 512 * 1 + 64 \<Longrightarrow> k \<noteq> 512 * 1 + 80 \<Longrightarrow> sectors d2 k = sectors d1 k"
    by (rule format_group_ok [OF idle_after_ok [OF d1(2)], of 1]) auto
  have "format_disk d = Some d2"
    using d1(1) d2(1) by (simp add: format_disk_def upto_groups)
  moreover have "group_on_disk (sectors d2) 0 fresh_summary c1"
    by (rule group_on_disk_cong [OF d1(3)]) (simp_all add: d2(5))
  moreover have "stores (sectors d2) 0 64 (SuperBlock_bytes format_super_block)"
    using d1(5) d2(5) by (subst stores_cong1 [where f = "sectors d1"]) simp_all
  ultimately show ?thesis
    using that [of d2 "[c1, c2]"] d1 d2 idle_after_trans [OF d1(2) d2(2)]
    by (simp add: control_on_disk_def)
qed

lemma fresh_used:
  assumes "fresh_map (cf ! 0)" and "fresh_map (cf ! 1)" and "0 \<le> f" and "f < 128"
  shows "used cf f = (f mod 64 < 16)"
proof -
  have "f div 64 = 0 \<or> f div 64 = 1" using assms(3,4) by auto
  then show ?thesis using assms by (auto simp: used_def fresh_map_def)
qed

lemma fresh_inode:
  assumes "fresh_map (cf ! 0)" and "fresh_map (cf ! 1)" and "0 \<le> n" and "n < 64"
  shows "\<not> inode_used cf n"
proof -
  have "n div 32 = 0 \<or> n div 32 = 1" using assms(3,4) by auto
  then show ?thesis using assms by (auto simp: inode_used_def fresh_map_def)
qed

text \<open>
  C27. Formatting never fails on an idle disk. Mounting the formatted disk gives the superblock
  and the empty table of the 64 i-nodes that formatting gave, and the free maps fetched from it
  have exactly the 16 control fragments of each group in use and no i-node.
\<close>

theorem format_then_mount:
  assumes "disk_ok d"
  shows "\<exists>k d2 cs cf d3. FileSystem_new True d j b = Some k \<and>
    FileSystem_new False (dsk k) j b = Some (k\<lparr>dsk := d2\<rparr>) \<and> sectors d2 = sectors (dsk k) \<and>
    fetch_control (superBlock k) d2 = Some (cs, cf, d3) \<and>
    (\<forall>f. 0 \<le> f \<and> f < 128 \<longrightarrow> used cf f = (f mod 64 < 16)) \<and>
    (\<forall>n. 0 \<le> n \<and> n < 64 \<longrightarrow> \<not> inode_used cf n \<and>
       mt_item (metaTable k) (n + 1) = Some (MetaTableItem_new (n + 1)))"
proof -
  obtain d1 cf where d1: "format_disk d = Some d1" "idle_after d d1"
    "control_on_disk (sectors d1) [fresh_summary, fresh_summary] cf"
    "fresh_map (cf ! 0)" "fresh_map (cf ! 1)"
    "stores (sectors d1) 0 64 (SuperBlock_bytes format_super_block)"
    by (rule format_disk_ok [OF assms])
  obtain d2 where d2: "SuperBlock_fetchFrom d1 0 = Some (format_super_block, d2)" "idle_after d1 d2"
    "sectors d2 = sectors d1"
    using super.fetch_stored [OF idle_after_ok [OF d1(2)], of 0 format_super_block] d1(6)
    by (auto simp: SuperBlock_fetchFrom_def disk_consts divRoundUp_def)
  obtain d3 where d3: "fetch_control format_super_block d2 = Some ([fresh_summary, fresh_summary], cf, d3)"
    using fetch_control_ok [OF idle_after_ok [OF d2(2)]] d1(3) d2(3) by metis
  let ?k = "\<lparr>dsk = d1, superBlock = format_super_block, metaTable = MetaTable_new 64, currentDir = 1,
      junk = j, below = b\<rparr>"
  have "FileSystem_new True d j b = Some ?k" using d1(1) by (simp add: FileSystem_new_def)
  moreover have "FileSystem_new False (dsk ?k) j b = Some (?k\<lparr>dsk := d2\<rparr>)"
    using d2(1) by (simp add: FileSystem_new_def)
  ultimately show ?thesis
    using d2(3) d3 fresh_used [OF d1(4,5)] fresh_inode [OF d1(4,5)]
    by (auto simp: MetaTable_new_item intro!: exI [of _ ?k] exI [of _ d2] exI [of _ "[fresh_summary, fresh_summary]"] exI [of _ cf] exI [of _ d3])
qed

theorem format_then_mount_witness:
  "\<exists>k d2 cs cf d3. FileSystem_new True blank_disk [] 0 = Some k \<and>
    FileSystem_new False (dsk k) [] 0 = Some (k\<lparr>dsk := d2\<rparr>) \<and> sectors d2 = sectors (dsk k) \<and>
    fetch_control (superBlock k) d2 = Some (cs, cf, d3) \<and>
    (\<forall>f. 0 \<le> f \<and> f < 128 \<longrightarrow> used cf f = (f mod 64 < 16)) \<and>
    (\<forall>n. 0 \<le> n \<and> n < 64 \<longrightarrow> \<not> inode_used cf n \<and>
       mt_item (metaTable k) (n + 1) = Some (MetaTableItem_new (n + 1)))"
  by (rule format_then_mount) simp

end
