(* ===== verification/FsAlloc_Correct.thy ===== *)
theory FsAlloc_Correct
  imports FsLayout
begin

text \<open>
  Allocation hands out what is free. Every allocation step adds distinct fragments that no map
  had in use, inside one block each, and marks exactly these; \<open>Allocate\<close> for a file of at most 16
  fragments is their composition.
\<close>

subsection \<open>One step of allocation\<close>

definition alloc_step :: "cylinder_freemap list \<Rightarrow> cylinder_freemap list \<Rightarrow> int list \<Rightarrow> bool" where
  "alloc_step cf cf' new \<longleftrightarrow> changed cf cf' (\<lambda>f. f \<in> set new \<or> used cf f) \<and> distinct new \<and>
     (\<forall>f \<in> set new. 0 \<le> f \<and> f < 128 \<and> \<not> used cf f)"

lemma alloc_step_Nil [simp]: "cfs_ok cf \<Longrightarrow> alloc_step cf cf []"
  by (simp add: alloc_step_def changed_refl)

lemma alloc_step_ok: "alloc_step cf cf' new \<Longrightarrow> cfs_ok cf'"
  unfolding alloc_step_def by (blast dest: changed_ok)

lemma alloc_step_trans:
  assumes "alloc_step cf cf1 m1" and "alloc_step cf1 cf2 m2"
  shows "alloc_step cf cf2 (m1 @ m2)"
proof -
  have c: "changed cf cf1 (\<lambda>f. f \<in> set m1 \<or> used cf f)" "changed cf1 cf2 (\<lambda>f. f \<in> set m2 \<or> used cf1 f)"
    using assms by (simp_all add: alloc_step_def)
  have "changed cf cf2 (\<lambda>f. f \<in> set (m1 @ m2) \<or> used cf f)"
    by (rule changed_cong [OF changed_trans [OF c]]) (auto simp: changed_used [OF c(1)])
  moreover have "\<forall>f \<in> set m2. \<not> (f \<in> set m1 \<or> used cf f)"
    using assms(2) changed_used [OF c(1)] by (auto simp: alloc_step_def)
  ultimately show ?thesis using assms by (auto simp: alloc_step_def)
qed

lemma group_map:
  assumes "cfs_ok cf" and "g = 0 \<or> g = 1"
  shows "fragment_map cf g = Some (fragment_free_map (cf ! nat g))"
    and "bm_inv (fragment_free_map (cf ! nat g))" and "numBits (fragment_free_map (cf ! nat g)) = 64"
  using assms by (auto simp: fragment_map_def arr_get_def cfs_ok_def freemap_ok_def)

lemma used_in_group:
  "g = 0 \<or> g = 1 \<Longrightarrow> 0 \<le> k \<Longrightarrow> k < 64 \<Longrightarrow> used cf (k + g * 64) = bm_bit (fragment_free_map (cf ! nat g)) k"
  by (auto simp: used_def)

text \<open>A run of \<open>n\<close> fragments in one window of group \<open>g\<close>, as absolute numbers.\<close>

lemma run_free:
  assumes "cfs_ok cf" and "g = 0 \<or> g = 1" and "free_run (fragment_free_map (cf ! nat g)) 4 n j"
  shows "\<exists>cf'. mark_all [j..j + n - 1] cf g = Some cf' \<and>
    alloc_step cf cf' [j + g * 64..j + g * 64 + n - 1]"
proof -
  have b: "numBits (fragment_free_map (cf ! nat g)) = 64" by (rule group_map [OF assms(1,2)])
  have j: "0 \<le> j" "j + n \<le> 64" "\<And>k. j \<le> k \<Longrightarrow> k < j + n \<Longrightarrow> \<not> bm_bit (fragment_free_map (cf ! nat g)) k"
    using assms(3) b by (auto simp: free_run_def)
  obtain cf' where c: "mark_all [j..j + n - 1] cf g = Some cf'"
    "changed cf cf' (\<lambda>x. x \<in> (\<lambda>k. k + g * 64) ` set [j..j + n - 1] \<or> used cf x)"
    using mark_all_changed [OF assms(1,2), of "[j..j + n - 1]"] j(1,2) by auto
  have img: "(\<lambda>k. k + g * 64) ` set [j..j + n - 1] = set [j + g * 64..j + g * 64 + n - 1]"
    by (auto simp: image_iff intro!: bexI [of _ "_ - g * 64"])
  have "\<not> used cf f \<and> 0 \<le> f \<and> f < 128" if f: "f \<in> set [j + g * 64..j + g * 64 + n - 1]" for f
  proof -
    have k: "j \<le> f - g * 64" "f - g * 64 < j + n" using f by auto
    then have "\<not> bm_bit (fragment_free_map (cf ! nat g)) (f - g * 64)" by (rule j(3))
    moreover have "used cf (f - g * 64 + g * 64) = bm_bit (fragment_free_map (cf ! nat g)) (f - g * 64)"
      using k j(1,2) by (intro used_in_group [OF assms(2)]) linarith+
    moreover have "0 \<le> f \<and> f < 128" using k j(1,2) assms(2) by auto
    ultimately show ?thesis by simp
  qed
  then have "alloc_step cf cf' [j + g * 64..j + g * 64 + n - 1]"
    using c(2) unfolding alloc_step_def img by (auto simp del: set_upto)
  with c(1) show ?thesis by blast
qed

text \<open>
  A list of whole blocks: aligned runs of four.
\<close>

fun blocks :: "int list \<Rightarrow> bool" where
  "blocks [] = True"
| "blocks (a # b # c # d # fs) = (a mod 4 = 0 \<and> b = a + 1 \<and> c = a + 2 \<and> d = a + 3 \<and> blocks fs)"
| "blocks _ = False"

lemma blocks_append: "blocks xs \<Longrightarrow> blocks (xs @ ys) = blocks ys"
  by (induction xs rule: blocks.induct) auto

lemma upto_four: "[j..j + 3] = [j, j + 1, j + 2, j + 3]" for j :: int
  by (simp add: upto_rec1)

lemma minus4: "x + 4 - 1 = x + 3" for x :: int
  by simp

lemma alloc_blocks_in_spec:
  assumes "cfs_ok cf" and "g = 0 \<or> g = 1" and "0 < rest" and "int (length add) + 4 * rest \<le> 128"
  shows "\<exists>cf' new rest'. alloc_blocks_in 64 g (cf, add, rest) = Some (cf', add @ new, rest') \<and>
    alloc_step cf cf' new \<and> blocks new \<and> 0 \<le> rest' \<and> int (length new) = 4 * (rest - rest') \<and>
    (0 < rest' \<longrightarrow> (\<forall>j. \<not> free_run (fragment_free_map (cf' ! nat g)) 4 4 j))"
  using assms
proof (induction "nat rest" arbitrary: cf add rest rule: less_induct)
  case less
  let ?m = "fragment_free_map (cf ! nat g)"
  note gm = group_map [OF less.prems(1,2)]
  obtain ret' r where n: "NextAlignedFragments 64 ?m 4 4 (replicate 8 0) = Some (ret', r)"
    "if r = 0 then \<forall>j. \<not> free_run ?m 4 4 j
     else r = 4 \<and> (\<exists>j. take 4 ret' = [j..j + 4 - 1] \<and> free_run ?m 4 4 j)"
  proof -
    obtain ret' r where "NextAlignedFragments 64 ?m 4 4 (replicate 8 0) = Some (ret', r)"
      and "if r = 0 then \<forall>j. \<not> free_run ?m 4 4 j
       else r = 4 \<and> (\<exists>j. take (nat 4) ret' = [j..j + 4 - 1] \<and> free_run ?m 4 4 j \<and>
         (\<forall>k. 0 \<le> k \<and> k < j \<longrightarrow> \<not> free_run ?m 4 4 k))"
      using NextAlignedFragments_spec [OF gm(2), of 4 4 "replicate 8 0"] gm(3) by auto
    then show ?thesis by (intro that [of ret' r]) (auto split: if_splits)
  qed
  show ?case
  proof (cases "r = 0")
    case True
    then have "alloc_blocks_in 64 g (cf, add, rest) = Some (cf, add @ [], rest)"
      using n(1) gm(1) by (subst alloc_blocks_in.simps) (simp add: fs_consts)
    moreover have "alloc_step cf cf []" using less.prems by simp
    moreover have "\<forall>j. \<not> free_run ?m 4 4 j" using n(2) True by simp
    ultimately show ?thesis
      using less.prems by (intro exI [of _ cf] exI [of _ "[]"] exI [of _ rest]) simp
  next
    case False
    then have "r = 4 \<and> (\<exists>j. take 4 ret' = [j..j + 4 - 1] \<and> free_run ?m 4 4 j)" using n(2) by simp
    then obtain j where j0: "r = 4" "take 4 ret' = [j..j + 4 - 1]" "free_run ?m 4 4 j" by blast
    have "j + 4 - 1 = j + 3" by simp
    then have j: "r = 4" "take 4 ret' = [j..j + 3]" "free_run ?m 4 4 j" using j0 by (simp_all only:)
    have "j mod 4 + 4 \<le> 4" "0 \<le> j mod 4" using j(3) by (auto simp: free_run_def)
    then have al: "(j + g * 64) mod 4 = 0" using less.prems(2) by auto
    obtain cf1 where c1: "mark_all [j..j + 3] cf g = Some cf1"
      "alloc_step cf cf1 [j + g * 64..j + g * 64 + 3]"
      using run_free [OF less.prems(1,2) j(3)] by (simp only: minus4) blast
    have mp: "map (\<lambda>f. f + g * 64) [j..j + 3] = [j + g * 64..j + g * 64 + 3]"
      unfolding upto_four by simp
    let ?b = "[j + g * 64..j + g * 64 + 3]"
    have bl: "blocks ?b" "length ?b = 4" unfolding upto_four using al by simp_all
    have p: "push128 add ?b = Some (add @ ?b)" using less.prems(3,4) bl(2) by (simp add: push128_def)
    have step: "alloc_blocks_in 64 g (cf, add, rest) =
        (if rest - 1 > 0 then alloc_blocks_in 64 g (cf1, add @ ?b, rest - 1) else Some (cf1, add @ ?b, rest - 1))"
      using n(1) gm(1) j(1,2) c1(1) p mp by (subst alloc_blocks_in.simps) (simp add: fs_consts)
    show ?thesis
    proof (cases "rest - 1 > 0")
      case True
      have "\<exists>cf' new rest'. alloc_blocks_in 64 g (cf1, add @ ?b, rest - 1) = Some (cf', (add @ ?b) @ new, rest') \<and>
        alloc_step cf1 cf' new \<and> blocks new \<and> 0 \<le> rest' \<and> int (length new) = 4 * (rest - 1 - rest') \<and>
        (0 < rest' \<longrightarrow> (\<forall>j. \<not> free_run (fragment_free_map (cf' ! nat g)) 4 4 j))"
        using True less.prems bl(2) alloc_step_ok [OF c1(2)] by (intro less.hyps) auto
      then obtain cf' new rest' where h: "alloc_blocks_in 64 g (cf1, add @ ?b, rest - 1) = Some (cf', (add @ ?b) @ new, rest')"
        "alloc_step cf1 cf' new" "blocks new" "0 \<le> rest'" "int (length new) = 4 * (rest - 1 - rest')"
        "0 < rest' \<longrightarrow> (\<forall>j. \<not> free_run (fragment_free_map (cf' ! nat g)) 4 4 j)" by blast
      have "alloc_step cf cf' (?b @ new)" by (rule alloc_step_trans [OF c1(2) h(2)])
      moreover have "blocks (?b @ new)" using bl(1) h(3) by (simp only: blocks_append)
      moreover have "int (length (?b @ new)) = 4 * (rest - rest')" using h(5) bl(2) by simp
      moreover have "alloc_blocks_in 64 g (cf, add, rest) = Some (cf', add @ (?b @ new), rest')"
        using step True h(1) by simp
      ultimately show ?thesis using h(4,6) by blast
    next
      case False
      then have "alloc_blocks_in 64 g (cf, add, rest) = Some (cf1, add @ ?b, 0)" "rest = 1"
        using step less.prems(3) by auto
      then show ?thesis using c1(2) bl by (intro exI [of _ cf1] exI [of _ ?b] exI [of _ 0]) simp
    qed
  qed
qed

subsection \<open>Over both groups\<close>

lemma free_run_mono:
  assumes "alloc_step cf cf' new" and "cfs_ok cf" and "g = 0 \<or> g = 1"
    and "free_run (fragment_free_map (cf' ! nat g)) w n j"
  shows "free_run (fragment_free_map (cf ! nat g)) w n j"
proof -
  note b = group_map(3) [OF assms(2,3)] group_map(3) [OF alloc_step_ok [OF assms(1)] assms(3)]
  have "\<not> bm_bit (fragment_free_map (cf ! nat g)) k" if "j \<le> k" "k < j + n" for k
  proof -
    have k: "0 \<le> k" "k < 64" using that assms(4) b by (auto simp: free_run_def)
    have "\<not> bm_bit (fragment_free_map (cf' ! nat g)) k" using that assms(4) by (auto simp: free_run_def)
    then have "\<not> used cf' (k + g * 64)" using used_in_group [OF assms(3) k] by simp
    moreover have "0 \<le> k + g * 64" "k + g * 64 < 128" using k assms(3) by auto
    ultimately have "\<not> used cf (k + g * 64)"
      using assms(1) by (auto simp: alloc_step_def changed_def)
    then show ?thesis using used_in_group [OF assms(3) k] by simp
  qed
  then show ?thesis using assms(4) b by (auto simp: free_run_def)
qed

definition no_run :: "cylinder_freemap list \<Rightarrow> int \<Rightarrow> bool" where
  "no_run cf n \<longleftrightarrow> (\<forall>g j. (g = 0 \<or> g = 1) \<longrightarrow> \<not> free_run (fragment_free_map (cf ! nat g)) 4 n j)"

lemma group_cycle: "0 \<le> fg \<Longrightarrow> (0 + fg) smod CYLINDER_GROUPS = fg mod 2 \<and> (1 + fg) smod CYLINDER_GROUPS = 1 - fg mod 2"
  by (simp add: fs_consts) presburger

lemma alloc_blocks_spec:
  assumes "cfs_ok cf" and "0 \<le> fg" and "0 \<le> rest" and "int (length add) + 4 * rest \<le> 128"
  shows "\<exists>cf' new rest'. alloc_blocks 64 fg (cf, add, rest) = Some (cf', add @ new, rest') \<and>
    alloc_step cf cf' new \<and> blocks new \<and> 0 \<le> rest' \<and> int (length new) = 4 * (rest - rest') \<and>
    (0 < rest' \<longrightarrow> no_run cf' 4)"
proof -
  let ?a = "fg mod 2" and ?b = "1 - fg mod 2"
  have ab: "?a = 0 \<or> ?a = 1" "?b = 0 \<or> ?b = 1" by auto
  let ?step = "\<lambda>g (cf, add, rest). if rest > 0 then alloc_blocks_in 64 g (cf, add, rest) else Some (cf, add, rest)"
  have unf: "alloc_blocks 64 fg st = (?step ?a st \<bind> ?step ?b)" for st
    using group_cycle [OF assms(2)] by (cases st) (auto simp: alloc_blocks_def upto_groups split: bind_splits)
  have one: "\<exists>cf' new rest'. ?step g (c, ad, r) = Some (cf', ad @ new, rest') \<and>
    alloc_step c cf' new \<and> blocks new \<and> 0 \<le> rest' \<and> int (length new) = 4 * (r - rest') \<and>
    (0 < rest' \<longrightarrow> (\<forall>j. \<not> free_run (fragment_free_map (cf' ! nat g)) 4 4 j))"
    if "cfs_ok c" "g = 0 \<or> g = 1" "0 \<le> r" "int (length ad) + 4 * r \<le> 128" for c ad r g
  proof (cases "r > 0")
    case True
    then show ?thesis using alloc_blocks_in_spec [OF that(1,2) True that(4)] by simp
  next
    case False
    then have "r = 0" using that by simp
    then show ?thesis using that by (intro exI [of _ c] exI [of _ "[]"] exI [of _ 0]) simp
  qed
  obtain c1 n1 r1 where s1: "?step ?a (cf, add, rest) = Some (c1, add @ n1, r1)" "alloc_step cf c1 n1"
    "blocks n1" "0 \<le> r1" "int (length n1) = 4 * (rest - r1)"
    "0 < r1 \<longrightarrow> (\<forall>j. \<not> free_run (fragment_free_map (c1 ! nat ?a)) 4 4 j)"
    using one [OF assms(1) ab(1) assms(3,4)] by blast
  have "int (length (add @ n1)) + 4 * r1 \<le> 128" using s1(5) assms(4) by simp
  then obtain c2 n2 r2 where s2: "?step ?b (c1, add @ n1, r1) = Some (c2, (add @ n1) @ n2, r2)" "alloc_step c1 c2 n2"
    "blocks n2" "0 \<le> r2" "int (length n2) = 4 * (r1 - r2)"
    "0 < r2 \<longrightarrow> (\<forall>j. \<not> free_run (fragment_free_map (c2 ! nat ?b)) 4 4 j)"
    using one [OF alloc_step_ok [OF s1(2)] ab(2) s1(4)] by blast
  have "no_run c2 4" if "0 < r2"
    unfolding no_run_def
  proof (intro allI impI)
    fix g j :: int assume g: "g = 0 \<or> g = 1"
    have "r2 \<le> r1" using s2(5) by presburger
    then have "0 < r1" using that by linarith
    then have a: "\<not> free_run (fragment_free_map (c2 ! nat ?a)) 4 4 j"
      using s1(6) free_run_mono [OF s2(2) alloc_step_ok [OF s1(2)] ab(1)] by blast
    have b: "\<not> free_run (fragment_free_map (c2 ! nat ?b)) 4 4 j" using s2(6) that by blast
    have "g = ?a \<or> g = ?b" using g ab by auto
    then show "\<not> free_run (fragment_free_map (c2 ! nat g)) 4 4 j" using a b by blast
  qed
  moreover have "alloc_step cf c2 (n1 @ n2)" by (rule alloc_step_trans [OF s1(2) s2(2)])
  moreover have "blocks (n1 @ n2)" using s1(3) s2(3) by (simp only: blocks_append)
  moreover have "alloc_blocks 64 fg (cf, add, rest) = Some (c2, add @ (n1 @ n2), r2)"
    using s1(1) s2(1) unfolding unf by simp
  moreover have "int (length (n1 @ n2)) = 4 * (rest - r2)" using s1(5) s2(5) by simp
  ultimately show ?thesis using s2(4) by blast
qed

text \<open>The fragments beyond the whole blocks: a contiguous run inside one block.\<close>

definition small_run :: "int list \<Rightarrow> bool" where
  "small_run fs \<longleftrightarrow> fs = [] \<or> (\<exists>a. fs = [a..a + int (length fs) - 1] \<and> a mod 4 + int (length fs) \<le> 4)"

text \<open>Such a run starts at the beginning of a block or behind a fragment that was in use.\<close>

definition settled :: "cylinder_freemap list \<Rightarrow> int list \<Rightarrow> bool" where
  "settled cf fs \<longleftrightarrow> fs = [] \<or> hd fs mod 4 = 0 \<or> used cf (hd fs - 1)"

lemma place_settled:
  assumes "cfs_ok cf" and "g = 0 \<or> g = 1" and "place (fragment_free_map (cf ! nat g)) 4 n j"
  shows "settled cf [j + g * 64..j + g * 64 + n - 1]"
proof (cases "n \<le> 0")
  case False
  have j: "0 \<le> j" "j + n \<le> 64"
    using assms(3) group_map(3) [OF assms(1,2)] by (auto simp: place_def free_run_def)
  have hd: "hd [j + g * 64..j + g * 64 + n - 1] = j + g * 64" using False by (simp add: upto_rec1)
  show ?thesis
  proof (cases "j mod 4 = 0")
    case True
    then have "(j + g * 64) mod 4 = 0" using assms(2) by presburger
    then show ?thesis by (simp add: settled_def hd)
  next
    case no: False
    then have "bm_bit (fragment_free_map (cf ! nat g)) (j - 1)" "0 \<le> j - 1"
      using assms(3) j by (auto simp: place_def) (metis mod_0 order_le_less zle_diff1_eq)
    then have "used cf (j - 1 + g * 64)" using used_in_group [OF assms(2), of "j - 1"] j False by simp
    moreover have "j - 1 + g * 64 = j + g * 64 - 1" by simp
    ultimately show ?thesis unfolding settled_def hd by (simp only:) simp
  qed
qed (simp add: settled_def)

lemma alloc_rest_in:
  assumes "cfs_ok cf" and "g = 0 \<or> g = 1" and "0 < rest" and "rest < 4"
    and "int (length add) + rest \<le> 128"
  shows "\<exists>cf' new rest' first len. NextPlaceForSmallFragments 64 (fragment_free_map (cf ! nat g)) 4 rest = Some (first, len) \<and>
    (if first = -1 then cf' = cf \<and> new = [] \<and> rest' = rest \<and> (\<forall>j. \<not> free_run (fragment_free_map (cf ! nat g)) 4 rest j)
     else rest \<le> len \<and> mark_all [first..first + rest - 1] cf g = Some cf' \<and>
       push128 add (map (\<lambda>f. f + g * 64) [first..first + rest - 1]) = Some (add @ new) \<and> rest' = 0 \<and>
       alloc_step cf cf' new \<and> int (length new) = rest \<and> small_run new \<and> settled cf new)"
proof -
  note gm = group_map [OF assms(1,2)]
  obtain first len where n: "NextPlaceForSmallFragments 64 (fragment_free_map (cf ! nat g)) 4 rest = Some (first, len)"
    "if first = -1 then \<forall>j. \<not> free_run (fragment_free_map (cf ! nat g)) 4 rest j
     else place (fragment_free_map (cf ! nat g)) 4 rest first \<and> rest \<le> len \<and> len \<le> 4"
    using NextPlace_spec [OF gm(2), of rest 4] gm(3) assms(3,4) by auto
  show ?thesis
  proof (cases "first = -1")
    case True
    with n show ?thesis by auto
  next
    case False
    then have pl: "place (fragment_free_map (cf ! nat g)) 4 rest first" and len: "rest \<le> len"
      using n(2) by auto
    then have fr: "free_run (fragment_free_map (cf ! nat g)) 4 rest first" "rest \<le> len"
      by (simp_all add: place_def)
    obtain cf' where c: "mark_all [first..first + rest - 1] cf g = Some cf'"
      "alloc_step cf cf' [first + g * 64..first + g * 64 + rest - 1]"
      using run_free [OF assms(1,2) fr(1)] by blast
    let ?new = "[first + g * 64..first + g * 64 + rest - 1]"
    have mp: "map (\<lambda>f. f + g * 64) [first..first + rest - 1] = ?new"
      using assms(3) by (intro nth_equalityI) (auto simp: nth_upto)
    have len: "int (length ?new) = rest" using assms(3) by simp
    have "(first + g * 64) mod 4 = first mod 4" using assms(2) by presburger
    moreover have "first mod 4 + rest \<le> 4" using fr(1) by (simp add: free_run_def)
    ultimately have "small_run ?new"
      unfolding small_run_def len by (intro disjI2 exI [of _ "first + g * 64"]) simp
    moreover have "push128 add ?new = Some (add @ ?new)"
      using len assms(5) by (simp add: push128_def del: length_upto)
    moreover have "settled cf ?new" by (rule place_settled [OF assms(1,2) pl])
    ultimately show ?thesis using n(1) False fr(2) c len mp by (auto simp del: length_upto)
  qed
qed

lemma alloc_rest_spec:
  assumes "cfs_ok cf" and "0 \<le> fg" and "0 \<le> rest" and "rest < 4" and "int (length add) + rest \<le> 128"
  shows "\<exists>cf' new rest'. alloc_rest 64 fg (cf, add, rest) = Some (cf', add @ new, rest') \<and>
    alloc_step cf cf' new \<and> small_run new \<and> int (length new) = rest - rest' \<and> settled cf new \<and>
    (rest' = 0 \<or> no_run cf rest)"
proof -
  let ?a = "fg mod 2" and ?b = "1 - fg mod 2"
  have ab: "?a = 0 \<or> ?a = 1" "?b = 0 \<or> ?b = 1" by auto
  let ?step = "\<lambda>g (cf, add, rest). if rest > 0 then do {
         m \<leftarrow> fragment_map cf g;
         (first, len) \<leftarrow> NextPlaceForSmallFragments 64 m (BLOCK_SIZE sdiv FRAGMENT_SIZE) rest;
         if first \<noteq> -1 then do {
           let len' = (if len > rest then rest else len);
           let got = [first..first + len' - 1];
           add' \<leftarrow> push128 add (map (\<lambda>f. f + g * 64) got);
           cf' \<leftarrow> mark_all got cf g;
           Some (cf', add', 0) }
         else Some (cf, add, rest) }
       else Some (cf, add, rest)"
  have unf: "alloc_rest 64 fg st = (?step ?a st \<bind> ?step ?b)" for st
    using group_cycle [OF assms(2)] by (cases st) (auto simp: alloc_rest_def upto_groups Let_def split: bind_splits)
  have one: "\<exists>cf' new rest'. ?step g (c, ad, r) = Some (cf', ad @ new, rest') \<and>
    alloc_step c cf' new \<and> small_run new \<and> int (length new) = r - rest' \<and> settled c new \<and>
    (rest' = 0 \<or> rest' = r \<and> cf' = c \<and> new = [] \<and> (\<forall>j. \<not> free_run (fragment_free_map (c ! nat g)) 4 r j))"
    if h: "cfs_ok c" "g = 0 \<or> g = 1" "0 \<le> r" "r < 4" "int (length ad) + r \<le> 128" for c ad r g
  proof (cases "r > 0")
    case True
    obtain cf' new rest' first len where
      n: "NextPlaceForSmallFragments 64 (fragment_free_map (c ! nat g)) 4 r = Some (first, len)" and
      s: "if first = -1 then cf' = c \<and> new = [] \<and> rest' = r \<and> (\<forall>j. \<not> free_run (fragment_free_map (c ! nat g)) 4 r j)
       else r \<le> len \<and> mark_all [first..first + r - 1] c g = Some cf' \<and>
         push128 ad (map (\<lambda>f. f + g * 64) [first..first + r - 1]) = Some (ad @ new) \<and> rest' = 0 \<and>
         alloc_step c cf' new \<and> int (length new) = r \<and> small_run new \<and> settled c new"
      using alloc_rest_in [OF h(1,2) True h(4,5)] by blast
    show ?thesis
    proof (cases "first = -1")
      case fail: True
      then have "?step g (c, ad, r) = Some (c, ad @ [], r)"
        using True n group_map(1) [OF h(1,2)] by (simp add: fs_consts)
      then show ?thesis
        using fail s h by (intro exI [of _ c] exI [of _ "[]"] exI [of _ r]) (auto simp: small_run_def settled_def)
    next
      case found: False
      then have f: "r \<le> len" "mark_all [first..first + r - 1] c g = Some cf'"
         "push128 ad (map (\<lambda>f. f + g * 64) [first..first + r - 1]) = Some (ad @ new)"
         "alloc_step c cf' new" "int (length new) = r" "small_run new" "settled c new" using s by auto
      have l: "(if len > r then r else len) = r" using f(1) by simp
      have "?step g (c, ad, r) = Some (cf', ad @ new, 0)"
        using True n group_map(1) [OF h(1,2)] found f(2,3) by (simp add: fs_consts l)
      then show ?thesis using f by auto
    qed
  next
    case False
    then have "r = 0" using h by simp
    then show ?thesis using h by (intro exI [of _ c] exI [of _ "[]"] exI [of _ 0]) (simp add: small_run_def settled_def)
  qed
  obtain c1 n1 r1 where s1: "?step ?a (cf, add, rest) = Some (c1, add @ n1, r1)" "alloc_step cf c1 n1"
    "small_run n1" "int (length n1) = rest - r1" "settled cf n1"
    "r1 = 0 \<or> r1 = rest \<and> c1 = cf \<and> n1 = [] \<and> (\<forall>j. \<not> free_run (fragment_free_map (cf ! nat ?a)) 4 rest j)"
    using one [OF assms(1) ab(1) assms(3-5)] by blast
  show ?thesis
  proof (cases "r1 = 0")
    case True
    then have "alloc_rest 64 fg (cf, add, rest) = Some (c1, add @ n1, 0)"
      using s1(1) unfolding unf by simp
    then show ?thesis using s1 True by auto
  next
    case False
    then have e: "r1 = rest" "c1 = cf" "n1 = []" and na: "\<forall>j. \<not> free_run (fragment_free_map (cf ! nat ?a)) 4 rest j"
      using s1(6) by auto
    obtain c2 n2 r2 where s2: "?step ?b (cf, add, rest) = Some (c2, add @ n2, r2)" "alloc_step cf c2 n2"
      "small_run n2" "int (length n2) = rest - r2" "settled cf n2"
      "r2 = 0 \<or> r2 = rest \<and> c2 = cf \<and> n2 = [] \<and> (\<forall>j. \<not> free_run (fragment_free_map (cf ! nat ?b)) 4 rest j)"
      using one [OF assms(1) ab(2) assms(3-5)] by blast
    have "r2 = 0 \<or> no_run cf rest"
    proof (cases "r2 = 0")
      case False
      have "no_run cf rest"
        unfolding no_run_def
      proof (intro allI impI)
        fix g j :: int assume "g = 0 \<or> g = 1"
        then have "g = ?a \<or> g = ?b" using ab by auto
        then show "\<not> free_run (fragment_free_map (cf ! nat g)) 4 rest j" using na s2(6) False by blast
      qed
      then show ?thesis ..
    qed simp
    moreover have "alloc_rest 64 fg (cf, add, rest) = Some (c2, add @ n2, r2)"
      using s1(1) s2(1) e unfolding unf by simp
    ultimately show ?thesis using s2 by blast
  qed
qed

subsection \<open>Whole free blocks\<close>

definition free_blocks :: "cylinder_freemap list \<Rightarrow> int set" where
  "free_blocks cf = {w \<in> {0..<32}. \<forall>i \<in> {0..3}. \<not> used cf (4 * w + i)}"

lemma finite_free_blocks [simp]: "finite (free_blocks cf)"
  by (rule finite_subset [of _ "{0..<32}"]) (auto simp: free_blocks_def)

lemma free_blocks_run:
  assumes "cfs_ok cf" and "w \<in> free_blocks cf" and "0 < n" and "n \<le> 4"
  shows "\<not> no_run cf n"
proof -
  let ?g = "w div 16" and ?j = "4 * (w mod 16)"
  have w: "0 \<le> w" "w < 32" "\<forall>i \<in> {0..3}. \<not> used cf (4 * w + i)" using assms(2) by (auto simp: free_blocks_def)
  have g: "?g = 0 \<or> ?g = 1" using w by auto
  have j: "0 \<le> ?j" "?j + 4 \<le> 64" "?j mod 4 = 0" by auto
  have we: "4 * w = ?j + ?g * 64" using div_mult_mod_eq [of w 16] by linarith
  have "\<not> bm_bit (fragment_free_map (cf ! nat ?g)) k" if k: "?j \<le> k" "k < ?j + n" for k
  proof -
    have "\<not> used cf (4 * w + (k - ?j))" using w(3) k assms(4) by auto
    moreover have "4 * w + (k - ?j) = k + ?g * 64" using we by simp
    moreover have "used cf (k + ?g * 64) = bm_bit (fragment_free_map (cf ! nat ?g)) k"
      using k j assms(4) by (intro used_in_group [OF g]) linarith+
    ultimately show ?thesis by simp
  qed
  then have "free_run (fragment_free_map (cf ! nat ?g)) 4 n ?j"
    using j assms(4) group_map(3) [OF assms(1) g] unfolding free_run_def by auto
  then show ?thesis unfolding no_run_def using g by blast
qed

lemma blocks_windows: "blocks new \<Longrightarrow> 4 * card ((\<lambda>f. f div 4) ` set new) \<le> length new"
proof (induction new rule: blocks.induct)
  case (2 a b c d fs)
  have "(\<lambda>f. f div 4) ` set (a # b # c # d # fs) = insert (a div 4) ((\<lambda>f. f div 4) ` set fs)"
    using 2 by auto
  then have "card ((\<lambda>f. f div 4) ` set (a # b # c # d # fs)) \<le> Suc (card ((\<lambda>f. f div 4) ` set fs))"
    by (simp add: card_insert_if)
  with 2 show ?case by simp
qed auto

lemma free_blocks_step:
  assumes "alloc_step cf cf' new" and "blocks new"
  shows "4 * int (card (free_blocks cf)) \<le> 4 * int (card (free_blocks cf')) + int (length new)"
proof -
  let ?W = "(\<lambda>f. f div 4) ` set new"
  have "free_blocks cf - ?W \<subseteq> free_blocks cf'"
  proof
    fix w assume w: "w \<in> free_blocks cf - ?W"
    have "\<not> used cf' (4 * w + i)" if i: "i \<in> {0..3}" for i
    proof -
      have "(4 * w + i) div 4 = w" using i by auto
      then have "4 * w + i \<notin> set new" using w by force
      moreover have "\<not> used cf (4 * w + i)" "0 \<le> 4 * w + i" "4 * w + i < 128"
        using w i by (auto simp: free_blocks_def)
      ultimately show ?thesis using assms(1) by (auto simp: alloc_step_def changed_def)
    qed
    then show "w \<in> free_blocks cf'" using w by (auto simp: free_blocks_def)
  qed
  then have "card (free_blocks cf - ?W) \<le> card (free_blocks cf')" by (simp add: card_mono)
  moreover have "card (free_blocks cf) - card ?W \<le> card (free_blocks cf - ?W)"
    by (rule diff_card_le_card_Diff) simp
  moreover have "4 * card ?W \<le> length new" by (rule blocks_windows [OF assms(2)])
  ultimately show ?thesis by linarith
qed

subsection \<open>Growing a file\<close>

definition frags_ok :: "int list \<Rightarrow> bool" where
  "frags_ok fs \<longleftrightarrow> blocks (take (4 * (length fs div 4)) fs) \<and> small_run (drop (4 * (length fs div 4)) fs)"

definition owned :: "cylinder_freemap list \<Rightarrow> int list \<Rightarrow> bool" where
  "owned cf fs \<longleftrightarrow> distinct fs \<and> (\<forall>f \<in> set fs. 0 \<le> f \<and> f < 128 \<and> used cf f)"

lemma release_extra_spec:
  assumes "cfs_ok cf" and "g = 0 \<or> g = 1" and "\<forall>f \<in> set ex. f div 64 = g"
  shows "\<exists>cf'. release_extra 64 g ex cf = Some cf' \<and> changed cf cf' (\<lambda>f. f \<notin> set ex \<and> used cf f)"
  using assms(1,3)
proof (induction ex arbitrary: cf)
  case Nil
  then show ?case by (simp add: release_extra_def changed_refl)
next
  case (Cons f ex)
  have f: "f div 64 = g" "0 \<le> f" using Cons.prems(2) assms(2) by auto
  then have eq: "64 * g + f mod 64 = f" using mult_div_mod_eq [of 64 f] by simp
  obtain cf1 where c1: "with_fragment_map (\<lambda>m. Clear m (f mod 64)) cf g = Some cf1"
    "changed cf cf1 (\<lambda>x. x \<noteq> f \<and> used cf x)"
    using Clear_changed [OF Cons.prems(1) assms(2), of "f mod 64"] eq by auto
  obtain cf2 where c2: "release_extra 64 g ex cf1 = Some cf2"
    "changed cf1 cf2 (\<lambda>x. x \<notin> set ex \<and> used cf1 x)"
    using Cons.IH [OF changed_ok [OF c1(2)]] Cons.prems(2) by auto
  have "changed cf cf2 (\<lambda>x. x \<notin> set (f # ex) \<and> used cf x)"
    by (rule changed_cong [OF changed_trans [OF c1(2) c2(2)]])
      (auto simp: changed_used [OF c1(2)])
  moreover have "release_extra 64 g (f # ex) cf = Some cf2"
    using c1(1) c2(1) f(2) by (simp add: release_extra_def)
  ultimately show ?case by blast
qed

lemma copy_ints_eq:
  assumes "0 \<le> n" and "n \<le> int (length from)" and "n \<le> int (length to)"
  shows "copy_ints from n to = Some (take (nat n) from @ drop (nat n) to)"
proof -
  have "foldM (\<lambda>i to. do { v \<leftarrow> arr_get from i; arr_set to i v }) [0..int m - 1] to = Some (take m from @ drop m to)"
    if "m \<le> length from" "m \<le> length to" for m
    using that
  proof (induction m)
    case (Suc m)
    have "drop m to = to ! m # drop (Suc m) to" using Suc.prems by (simp add: Cons_nth_drop_Suc)
    then have "foldM (\<lambda>i to. do { v \<leftarrow> arr_get from i; arr_set to i v }) [0..int m - 1] to
        = Some (take m from @ to ! m # drop (Suc m) to)" using Suc by simp
    moreover have "[0..int (Suc m) - 1] = [0..int m - 1] @ [int m]" by (simp add: upto_rec2)
    moreover have "length (take m from) = m" using Suc.prems by simp
    ultimately show ?case
      using Suc.prems by (simp add: foldM_append arr_get_def arr_set_def list_update_append take_Suc_conv_app_nth)
  qed simp
  from this [of "nat n"] assms show ?thesis by (simp add: copy_ints_def)
qed

definition direct_array :: "int list \<Rightarrow> int list" where
  "direct_array fs = fs @ replicate (16 - length fs) 0"

lemma store_fragments_direct:
  assumes "int (length fs) = n" and "n \<le> 16"
  shows "store_fragments h fs len n d =
    Some (h\<lparr>numBytes := len, numFragments := n, dataFragments := direct_array fs\<rparr>, d)"
proof -
  have l: "length fs \<le> 16" using assms by simp
  have "copy_ints (fs @ replicate (128 - length fs) 0) n (replicate 16 0) = Some (direct_array fs)"
    using assms l by (subst copy_ints_eq) (auto simp: direct_array_def)
  then show ?thesis
    using assms l by (simp add: store_fragments_def setDataFragments_def NUM_DIRECT_FRAGMENTS_def Let_def)
qed

lemma in_window4: "a mod 4 + n \<le> 4 \<Longrightarrow> a \<le> x \<Longrightarrow> x < a + n \<Longrightarrow> x div 4 = a div 4"
  for a n x :: int
  by presburger

lemma small_run_window:
  assumes "small_run fs" and "x \<in> set fs" and "y \<in> set fs"
  shows "x div 64 = y div 64"
proof -
  obtain a where a: "fs = [a..a + int (length fs) - 1]" "a mod 4 + int (length fs) \<le> 4"
    using assms(1,2) by (auto simp: small_run_def)
  then have "a \<le> x" "x < a + int (length fs)" "a \<le> y" "y < a + int (length fs)"
    using assms(2,3) by (metis atLeastAtMost_iff set_upto zle_diff1_eq)+
  then have "x div 4 = a div 4" "y div 4 = a div 4" using in_window4 [OF a(2)] by blast+
  then have "x div 4 div 16 = y div 4 div 16" by simp
  then show ?thesis by (simp add: zdiv_zmult2_eq [symmetric])
qed

lemma frags_ok_append:
  assumes "frags_ok fs" and "blocks bs" and "small_run r" and "length r < 4"
  shows "frags_ok (take (4 * (length fs div 4)) fs @ bs @ r)"
proof -
  let ?k = "take (4 * (length fs div 4)) fs"
  have len4: "length xs mod 4 = 0" if "blocks xs" for xs
    using that by (induction xs rule: blocks.induct) auto
  have b: "blocks (?k @ bs)" using assms(1,2) by (simp add: frags_ok_def blocks_append)
  have "length (?k @ bs @ r) div 4 * 4 = length (?k @ bs)"
    using len4 [OF b] assms(4) by (simp add: mult.commute) presburger
  then show ?thesis using b assms(3) by (simp add: frags_ok_def mult.commute)
qed

text \<open>
  Moving fragments to their new places from the first to the last never overwrites one that is
  still to be moved.
\<close>

definition no_clobber :: "int list \<Rightarrow> int list \<Rightarrow> bool" where
  "no_clobber old new \<longleftrightarrow> (\<forall>i j. i < j \<and> j < length old \<and> i < length new \<longrightarrow> new ! i = old ! i \<or> new ! i \<noteq> old ! j)"

text \<open>
  What a call of \<open>grow\<close> gives a file of at most 16 fragments: the whole blocks it had, then new
  fragments, all of them free before or its own, all of them marked; or nothing, when there are
  not enough free blocks.
\<close>

definition grown ::
    "file_header \<Rightarrow> int list \<Rightarrow> int \<Rightarrow> int \<Rightarrow> cylinder_summary list \<Rightarrow> cylinder_freemap list \<Rightarrow> disk \<Rightarrow>
     file_header \<Rightarrow> disk \<Rightarrow> int list \<Rightarrow> cylinder_freemap list \<Rightarrow> bool" where
  "grown h fs n len cs cf d h' d' fs' cf' \<longleftrightarrow>
     h' = h\<lparr>numBytes := len, numFragments := n, dataFragments := direct_array fs'\<rparr> \<and>
     int (length fs') = n \<and> take (4 * (length fs div 4)) fs' = take (4 * (length fs div 4)) fs \<and>
     frags_ok fs' \<and> owned cf' fs' \<and> no_clobber fs fs' \<and>
     changed cf cf' (\<lambda>f. f \<in> set fs' \<or> used cf f \<and> f \<notin> set fs) \<and>
     (\<forall>f \<in> set fs'. f \<in> set fs \<or> \<not> used cf f) \<and>
     idle_after d d' \<and> control_on_disk (sectors d') cs cf' \<and>
     (\<forall>k. k \<notin> control_sectors \<longrightarrow> sectors d' k = sectors d k)"

text \<open>The pieces of \<open>grow\<close>, with the sizes as natural numbers.\<close>

definition keep_of :: "int list \<Rightarrow> int list" where
  "keep_of fs = take (4 * (length fs div 4)) fs"

definition extra_of :: "int list \<Rightarrow> int list" where
  "extra_of fs = drop (4 * (length fs div 4)) fs"

definition group_of :: "int \<Rightarrow> int list \<Rightarrow> int" where
  "group_of lst fs = (if length fs mod 4 \<noteq> 0 \<and> length fs div 4 \<noteq> 0
     then fs ! (4 * (length fs div 4)) div 64 else lst div 64)"

lemma keep_extra: "keep_of fs @ extra_of fs = fs"
  by (simp add: keep_of_def extra_of_def)

lemma group_of_nonneg:
  assumes "owned cf fs" and "0 \<le> lst div 64"
  shows "0 \<le> group_of lst fs"
proof (cases "length fs mod 4 \<noteq> 0")
  case True
  then have "4 * (length fs div 4) < length fs"
    by (metis add.right_neutral le_neq_implies_less mult_div_mod_eq nat_le_linear add_left_cancel
        times_div_less_eq_dividend)
  then have "0 \<le> fs ! (4 * (length fs div 4))" using assms(1) by (simp add: owned_def)
  then show ?thesis using assms(2) by (simp add: group_of_def pos_imp_zdiv_nonneg_iff)
qed (use assms in \<open>simp add: group_of_def\<close>)

lemma grow_release:
  assumes "cfs_ok cf" and "frags_ok fs" and "owned cf fs" and "if fs = [] then 0 \<le> lst else lst = last fs"
  obtains cf1 where "release_extra 64 (lst div 64) (rev (extra_of fs)) cf = Some cf1"
    and "changed cf cf1 (\<lambda>f. f \<notin> set (extra_of fs) \<and> used cf f)"
proof (cases "extra_of fs = []")
  case True
  then show ?thesis using that [of cf] changed_refl [OF assms(1)] by (simp add: release_extra_def)
next
  case False
  then have ne: "fs \<noteq> []" by (auto simp: extra_of_def)
  then have l: "lst = last fs" "last fs \<in> set fs" using assms(4) by simp_all
  have le: "last fs \<in> set (extra_of fs)"
    by (metis False keep_extra last_appendR last_in_set)
  have "small_run (extra_of fs)" using assms(2) by (simp add: frags_ok_def extra_of_def)
  then have "\<forall>f \<in> set (rev (extra_of fs)). f div 64 = lst div 64"
    using small_run_window [OF _ _ le] l(1) by auto
  moreover have "lst div 64 = 0 \<or> lst div 64 = 1" using assms(3) l by (auto simp: owned_def)
  ultimately obtain cf1 where "release_extra 64 (lst div 64) (rev (extra_of fs)) cf = Some cf1"
    "changed cf cf1 (\<lambda>f. f \<notin> set (rev (extra_of fs)) \<and> used cf f)"
    using release_extra_spec [OF assms(1)] by blast
  then show ?thesis using that by simp
qed

lemma grow_unfold:
  assumes "owned cf fs" and "int (length fs) = numFragments h" and "0 \<le> lst div 64" and "numFragments h < n"
  shows "grow format_super_block lst h fs n len cs cf d = do {
     cf1 \<leftarrow> release_extra 64 (lst div 64) (rev (extra_of fs)) cf;
     (cf2, add, rest) \<leftarrow> alloc_blocks 64 (group_of lst fs) (cf1, [], n div 4 - int (length fs div 4));
     if rest = 0 then do {
       (cf3, add, rest) \<leftarrow> alloc_rest 64 (group_of lst fs) (cf2, add, n mod 4);
       if rest = 0 then do {
         (h, d) \<leftarrow> store_fragments h (keep_of fs @ add) len n d;
         d \<leftarrow> write_control format_super_block cs cf3 d;
         Some (True, h, d) }
       else Some (False, h, d) }
     else Some (False, h, d) }"
proof -
  have m: "0 \<le> numFragments h" using assms(2) by linarith
  have k: "nat (numFragments h - numFragments h mod 4) = 4 * (length fs div 4)"
    "numFragments h div 4 = int (length fs div 4)" "numFragments h mod 4 = int (length fs mod 4)"
    unfolding assms(2) [symmetric] by (simp_all add: minus_mod_eq_mult_div nat_mult_distrib zdiv_int zmod_int)
  have c: "(4096 :: int) sdiv 1024 = 4" by simp
  have k': "nat (numFragments h - int (length fs mod 4)) = 4 * (length fs div 4)"
    using k(1) unfolding k(3) .
  have sd: "lst sdiv 64 = lst div 64" "n sdiv 4 = n div 4" "n smod 4 = n mod 4"
    "numFragments h sdiv 4 = numFragments h div 4" "numFragments h smod 4 = numFragments h mod 4"
    using m assms(3,4) by (simp_all add: pos_imp_zdiv_nonneg_iff)
  have g: "(if numFragments h mod 4 \<noteq> 0 \<and> numFragments h div 4 \<noteq> 0
      then fs ! nat (numFragments h - numFragments h mod 4) sdiv 64 else lst div 64) = group_of lst fs"
  proof (cases "length fs mod 4 \<noteq> 0 \<and> length fs div 4 \<noteq> 0")
    case True
    then have "4 * (length fs div 4) < length fs"
      by (metis add.right_neutral le_neq_implies_less mult_div_mod_eq nat_le_linear add_left_cancel
          times_div_less_eq_dividend)
    then have "0 \<le> fs ! (4 * (length fs div 4))" using assms(1) by (simp add: owned_def)
    with True show ?thesis by (simp add: k k' group_of_def)
  next
    case False
    then show ?thesis by (auto simp: k group_of_def)
  qed
  show ?thesis
    unfolding grow_def Let_def fs_consts format_sb_simps c
    unfolding sd unfolding g by (simp add: k k' keep_of_def extra_of_def cong: if_cong)
qed

text \<open>
  The two searches one after the other, from the maps in which the extra fragments have been
  released: enough whole blocks make both succeed.
\<close>

lemma alloc_both:
  assumes "cfs_ok cf1" and "0 \<le> fg" and "0 \<le> rb" and "rb \<le> 4" and "0 \<le> re" and "re < 4"
  obtains cf2 nw1 rest1 cf3 nw2 rest2
  where "alloc_blocks 64 fg (cf1, [], rb) = Some (cf2, nw1, rest1)"
    and "alloc_rest 64 fg (cf2, nw1, re) = Some (cf3, nw1 @ nw2, rest2)"
    and "alloc_step cf1 cf3 (nw1 @ nw2)" and "blocks nw1" and "small_run nw2"
    and "int (length nw1) = 4 * (rb - rest1)" and "int (length nw2) = re - rest2"
    and "nw1 = [] \<longrightarrow> settled cf1 nw2"
    and "rest1 \<noteq> 0 \<or> rest2 \<noteq> 0 \<longrightarrow> int (card (free_blocks cf1)) \<le> rb"
proof -
  obtain cf2 nw1 rest1 where s1: "alloc_blocks 64 fg (cf1, [], rb) = Some (cf2, nw1, rest1)"
    "alloc_step cf1 cf2 nw1" "blocks nw1" "0 \<le> rest1" "int (length nw1) = 4 * (rb - rest1)"
    "0 < rest1 \<longrightarrow> no_run cf2 4"
    using alloc_blocks_spec [OF assms(1-3), of "[]"] assms(4) by auto
  have "int (length nw1) + re \<le> 128" using s1(4,5) assms(4,6) by simp
  then obtain cf3 nw2 rest2 where s2: "alloc_rest 64 fg (cf2, nw1, re) = Some (cf3, nw1 @ nw2, rest2)"
    "alloc_step cf2 cf3 nw2" "small_run nw2" "int (length nw2) = re - rest2"
    "settled cf2 nw2" "rest2 = 0 \<or> no_run cf2 re"
    using alloc_rest_spec [OF alloc_step_ok [OF s1(2)] assms(2,5,6)] by blast
  have "int (card (free_blocks cf1)) \<le> rb" if f: "rest1 \<noteq> 0 \<or> rest2 \<noteq> 0"
  proof -
    have "re \<noteq> 0" if "rest2 \<noteq> 0" "rest1 = 0"
    proof
      assume "re = 0"
      then have "alloc_rest 64 fg (cf2, nw1, re) = Some (cf2, nw1, 0)"
        by (simp add: alloc_rest_def upto_groups)
      with s2(1) that show False by simp
    qed
    then have "no_run cf2 4 \<or> no_run cf2 re \<and> 0 < re"
      using f s1(4,6) s2(6) assms(5) by (metis order_le_less)
    then have "free_blocks cf2 = {}"
      using free_blocks_run [OF alloc_step_ok [OF s1(2)]] assms(6)
      by (metis all_not_in_conv order_less_imp_le order_refl zero_less_numeral)
    then have "4 * int (card (free_blocks cf1)) \<le> int (length nw1)"
      using free_blocks_step [OF s1(2,3)] by simp
    then show ?thesis using s1(4,5) by presburger
  qed
  moreover have rng: "\<forall>f \<in> set nw2. 0 \<le> f \<and> f < 128" using s2(2) by (simp add: alloc_step_def)
  moreover have "settled cf1 nw2" if "nw1 = []"
  proof (cases "nw2 = [] \<or> hd nw2 mod 4 = 0")
    case False
    then have u: "used cf2 (hd nw2 - 1)" "hd nw2 mod 4 \<noteq> 0" "hd nw2 \<in> set nw2"
      using s2(5) by (auto simp: settled_def)
    have "0 \<le> hd nw2" "hd nw2 < 128" using rng u(3) by blast+
    moreover have "hd nw2 \<noteq> 0" using u(2) by auto
    ultimately have "0 \<le> hd nw2 - 1" "hd nw2 - 1 < 128" by linarith+
    then have "used cf1 (hd nw2 - 1)" using u(1) s1(2) that by (simp add: alloc_step_def changed_def)
    then show ?thesis by (simp add: settled_def)
  qed (auto simp: settled_def)
  ultimately show ?thesis
    using that [OF s1(1) s2(1) alloc_step_trans [OF s1(2) s2(2)] s1(3) s2(3) s1(5) s2(4)] by blast
qed

lemma grown_frags:
  assumes "owned cf fs" and "frags_ok fs" and "cfs_ok cf"
    and c1: "changed cf cf1 (\<lambda>f. f \<notin> set (extra_of fs) \<and> used cf f)"
    and st: "alloc_step cf1 cf3 (nw1 @ nw2)" and "blocks nw1" and "small_run nw2" and "length nw2 < 4"
  shows "frags_ok (keep_of fs @ nw1 @ nw2)" and "owned cf3 (keep_of fs @ nw1 @ nw2)"
    and "changed cf cf3 (\<lambda>f. f \<in> set (keep_of fs @ nw1 @ nw2) \<or> used cf f \<and> f \<notin> set fs)"
    and "\<forall>f \<in> set (keep_of fs @ nw1 @ nw2). f \<in> set fs \<or> \<not> used cf f"
proof -
  have sets: "set fs = set (keep_of fs) \<union> set (extra_of fs)" "set (keep_of fs) \<inter> set (extra_of fs) = {}"
    and dk: "distinct (keep_of fs)"
  proof -
    have "distinct (keep_of fs @ extra_of fs)" using assms(1) by (simp only: keep_extra owned_def)
    then show "set (keep_of fs) \<inter> set (extra_of fs) = {}" "distinct (keep_of fs)" by simp_all
    show "set fs = set (keep_of fs) \<union> set (extra_of fs)"
      by (subst keep_extra [symmetric]) (rule set_append)
  qed
  have inr: "\<forall>f \<in> set fs. 0 \<le> f \<and> f < 128 \<and> used cf f" using assms(1) by (simp add: owned_def)
  have new: "distinct (nw1 @ nw2)" "\<forall>f \<in> set (nw1 @ nw2). 0 \<le> f \<and> f < 128 \<and> \<not> used cf1 f"
    "changed cf1 cf3 (\<lambda>f. f \<in> set (nw1 @ nw2) \<or> used cf1 f)"
    using st by (auto simp: alloc_step_def)
  have u1: "used cf1 f = (f \<notin> set (extra_of fs) \<and> used cf f)" if "0 \<le> f" "f < 128" for f
    by (rule changed_used [OF c1 that])
  show "frags_ok (keep_of fs @ nw1 @ nw2)"
    unfolding keep_of_def by (rule frags_ok_append [OF assms(2,6,7,8)])
  have dj: "set (keep_of fs) \<inter> set (nw1 @ nw2) = {}"
    using new(2) inr u1 sets by blast
  have u3: "used cf3 f = (f \<in> set (keep_of fs @ nw1 @ nw2) \<or> used cf f \<and> f \<notin> set fs)"
    if "0 \<le> f" "f < 128" for f
    using changed_used [OF new(3) that] u1 [OF that] sets inr by auto
  show "changed cf cf3 (\<lambda>f. f \<in> set (keep_of fs @ nw1 @ nw2) \<or> used cf f \<and> f \<notin> set fs)"
    by (rule changed_cong [OF changed_trans [OF c1 new(3)]]) (use u3 changed_used [OF new(3)] in blast)
  show "owned cf3 (keep_of fs @ nw1 @ nw2)"
    using dk new dj u3 inr sets by (auto simp: owned_def)
  show "\<forall>f \<in> set (keep_of fs @ nw1 @ nw2). f \<in> set fs \<or> \<not> used cf f"
    using new(2) u1 sets by auto
qed

lemma small_run_nth:
  assumes "small_run fs" and "a < length fs"
  shows "fs ! a = hd fs + int a" and "hd fs mod 4 + int (length fs) \<le> 4"
proof -
  obtain s where s: "fs = [s..s + int (length fs) - 1]" "s mod 4 + int (length fs) \<le> 4"
  proof -
    have "fs \<noteq> []" using assms(2) by (metis list.size(3) not_less_zero)
    then show ?thesis using assms(1) that unfolding small_run_def by blast
  qed
  have "s \<le> s + int (length fs) - 1" using assms(2) by linarith
  then have "hd [s..s + int (length fs) - 1] = s" by (simp only: upto_rec1 list.sel)
  then have "hd fs = s" using s(1) by metis
  moreover have "fs ! a = s + int a" using assms(2) by (subst s(1)) (simp add: nth_upto)
  ultimately show "fs ! a = hd fs + int a" "hd fs mod 4 + int (length fs) \<le> 4" using s(2) by auto
qed

lemma grown_no_clobber:
  assumes fs: "frags_ok fs" "owned cf fs" and c1: "changed cf cf1 (\<lambda>f. f \<notin> set (extra_of fs) \<and> used cf f)"
    and nw: "blocks nw1" "small_run nw2" "nw1 = [] \<longrightarrow> settled cf1 nw2"
  shows "no_clobber fs (keep_of fs @ nw1 @ nw2)"
  unfolding no_clobber_def
proof (intro allI impI)
  let ?new = "keep_of fs @ nw1 @ nw2" and ?k = "4 * (length fs div 4)"
  fix i j assume ij: "i < j \<and> j < length fs \<and> i < length ?new"
  have lk: "length (keep_of fs) = ?k" by (simp add: keep_of_def)
  show "?new ! i = fs ! i \<or> ?new ! i \<noteq> fs ! j"
  proof (cases "i < ?k")
    case True
    then show ?thesis using lk by (simp add: nth_append keep_of_def)
  next
    case False
    define a where "a = i - ?k"
    define b where "b = j - ?k"
    let ?ex = "extra_of fs"
    have len: "length ?ex = length fs - ?k" by (simp add: extra_of_def)
    have ab: "a < b" "b < length ?ex" using ij False len by (auto simp: a_def b_def)
    have ni: "?new ! i = (nw1 @ nw2) ! a" "a < length (nw1 @ nw2)"
      using False lk ij by (auto simp: nth_append a_def)
    have oj: "fs ! j = ?ex ! b" using False ij by (simp add: extra_of_def b_def)
    have "small_run ?ex" using fs(1) by (simp add: frags_ok_def extra_of_def)
    note ex = small_run_nth [OF this]
    have e: "fs ! j = hd ?ex + int b" "hd ?ex mod 4 + int b < 4"
      using ex [OF ab(2)] ab(2) oj by auto
    show ?thesis
    proof (cases nw1 rule: blocks.cases)
      case 1
      then have n: "?new ! i = hd nw2 + int a" "hd nw2 mod 4 + int a < 4" "settled cf1 nw2" "nw2 \<noteq> []"
        using ni small_run_nth [OF nw(2), of a] nw(3) by auto
      show ?thesis
      proof (cases "hd nw2 mod 4 = 0")
        case True
        then have "hd nw2 + int a \<noteq> hd ?ex + int b" using n(2) e(2) ab(1) by presburger
        then show ?thesis using n(1) e(1) by simp
      next
        case no: False
        have "\<not> used cf1 x" if "x \<in> set ?ex" for x
        proof -
          have "x \<in> set fs" using that by (metis keep_extra Un_iff set_append)
          then show ?thesis using fs(2) that changed_used [OF c1] by (auto simp: owned_def)
        qed
        then have "hd nw2 - 1 \<notin> set ?ex" using n(3,4) no by (auto simp: settled_def)
        moreover have "hd ?ex + int (b - a - 1) \<in> set ?ex"
          using ex(1) [of "b - a - 1"] ab by (metis less_imp_diff_less nth_mem order.strict_trans)
        ultimately have "hd nw2 - 1 \<noteq> hd ?ex + int (b - a - 1)" by metis
        then have "hd nw2 + int a \<noteq> hd ?ex + int b" using ab(1) by (simp add: of_nat_diff)
        then show ?thesis using n(1) e(1) by simp
      qed
    next
      case (2 w x y z rest)
      then have w: "w mod 4 = 0" "x = w + 1" "y = w + 2" "z = w + 3" using nw(1) by auto
      have "a < 4" using ab(1) e(2) by simp
      then have "a = 0 \<or> a = 1 \<or> a = 2 \<or> a = 3" by linarith
      then have "(nw1 @ nw2) ! a = w + int a" using 2 w by auto
      moreover have "w + int a \<noteq> hd ?ex + int b" using w(1) e(2) ab(1) \<open>a < 4\<close> by presburger
      ultimately show ?thesis using ni(1) e(1) by simp
    qed (use nw(1) in auto)
  qed
qed

lemma grow_direct:
  assumes d: "disk_ok d" and cs: "length cs = 2" "\<forall>c \<in> set cs. summary_ok c" and cf: "cfs_ok cf"
    and fs: "frags_ok fs" "owned cf fs" "int (length fs) = numFragments h"
    and n: "numFragments h < n" "n \<le> 16"
    and lst: "if fs = [] then 0 \<le> lst else lst = last fs"
  shows "\<exists>r h' d'. grow format_super_block lst h fs n len cs cf d = Some (r, h', d') \<and>
    (if r then \<exists>fs' cf'. grown h fs n len cs cf d h' d' fs' cf'
     else h' = h \<and> d' = d \<and> int (card (free_blocks cf)) \<le> n div 4 - int (length fs) div 4)"
proof -
  obtain cf1 where c1: "release_extra 64 (lst div 64) (rev (extra_of fs)) cf = Some cf1"
    "changed cf cf1 (\<lambda>f. f \<notin> set (extra_of fs) \<and> used cf f)"
    by (rule grow_release [OF cf fs(1,2) lst])
  have "0 \<le> lst" using lst fs(2) by (cases "fs = []") (auto simp: owned_def)
  then have l0: "0 \<le> lst div 64" by (simp add: pos_imp_zdiv_nonneg_iff)
  define rb where "rb = n div 4 - int (length fs div 4)"
  have rb: "0 \<le> rb" "rb \<le> 4" "0 \<le> n mod 4" "n mod 4 < 4"
    using n fs(3) unfolding rb_def zdiv_int by (auto intro: zdiv_mono1)
  obtain cf2 nw1 rest1 cf3 nw2 rest2
    where s1: "alloc_blocks 64 (group_of lst fs) (cf1, [], rb) = Some (cf2, nw1, rest1)"
    and s2: "alloc_rest 64 (group_of lst fs) (cf2, nw1, n mod 4) = Some (cf3, nw1 @ nw2, rest2)"
    and s: "alloc_step cf1 cf3 (nw1 @ nw2)" "blocks nw1" "small_run nw2"
      "int (length nw1) = 4 * (rb - rest1)" "int (length nw2) = n mod 4 - rest2"
    and se: "nw1 = [] \<longrightarrow> settled cf1 nw2"
    and few: "rest1 \<noteq> 0 \<or> rest2 \<noteq> 0 \<longrightarrow> int (card (free_blocks cf1)) \<le> rb"
    using alloc_both [OF changed_ok [OF c1(2)] group_of_nonneg [OF fs(2) l0] rb] by blast
  note unf = grow_unfold [OF fs(2,3) l0 n(1), of len cs d, folded rb_def]
  show ?thesis
  proof (cases "rest1 = 0 \<and> rest2 = 0")
    case False
    have "card (free_blocks cf) \<le> card (free_blocks cf1)"
      using c1(2) by (intro card_mono finite_free_blocks) (auto simp: free_blocks_def changed_def)
    moreover have "grow format_super_block lst h fs n len cs cf d = Some (False, h, d)"
      using False unfolding unf by (simp add: c1(1) s1 s2)
    ultimately show ?thesis using few False by (auto simp: rb_def zdiv_int)
  next
    case True
    let ?fs' = "keep_of fs @ nw1 @ nw2"
    let ?h' = "h\<lparr>numBytes := len, numFragments := n, dataFragments := direct_array ?fs'\<rparr>"
    have "int (length (keep_of fs)) = 4 * int (length fs div 4)" by (simp add: keep_of_def)
    then have ln: "int (length ?fs') = n"
      using s(4,5) True mult_div_mod_eq [of 4 n] by (simp add: rb_def)
    have "length nw2 < 4" using s(5) True rb(4) by simp
    note gf = grown_frags [OF fs(2,1) cf c1(2) s(1,2,3) this]
    obtain d' where w: "write_control format_super_block cs cf3 d = Some d'" "idle_after d d'"
      "control_on_disk (sectors d') cs cf3" "\<And>k. k \<notin> control_sectors \<Longrightarrow> sectors d' k = sectors d k"
      using write_control_ok [OF d cs alloc_step_ok [OF s(1)]] by blast
    have "grow format_super_block lst h fs n len cs cf d = Some (True, ?h', d')"
      unfolding unf using True store_fragments_direct [OF ln n(2)] w(1) by (simp add: c1(1) s1 s2)
    moreover have "take (4 * (length fs div 4)) ?fs' = take (4 * (length fs div 4)) fs"
      by (simp add: keep_of_def)
    then have "grown h fs n len cs cf d ?h' d' ?fs' cf3"
      using ln gf w grown_no_clobber [OF fs(1,2) c1(2) s(2,3) se] by (simp add: grown_def)
    ultimately show ?thesis by auto
  qed
qed

text \<open>A file of at most 16 fragments, with its fragments, on a disk that holds its free maps.\<close>

definition direct_file :: "cylinder_freemap list \<Rightarrow> file_header \<Rightarrow> int list \<Rightarrow> bool" where
  "direct_file cf h fs \<longleftrightarrow> int (length fs) = numFragments h \<and> length (dataFragments h) = 16 \<and>
     fs = take (length fs) (dataFragments h) \<and> frags_ok fs \<and> owned cf fs"

lemma direct_file_gather:
  assumes "direct_file cf h fs"
  shows "gather_fragments sif h d = Some (fs, d)" and "numFragments h \<le> 16"
proof -
  have l: "int (length fs) = numFragments h" "fs = take (length fs) (dataFragments h)" "length (dataFragments h) = 16"
    using assms by (auto simp: direct_file_def)
  then have "length fs \<le> 16" by (metis length_take min.cobounded1)
  with l show "numFragments h \<le> 16" by simp
  moreover have "nat (numFragments h) = length fs" using l(1) by simp
  ultimately show "gather_fragments sif h d = Some (fs, d)"
    using l(2) by (simp add: gather_fragments_def NUM_DIRECT_FRAGMENTS_def)
qed

lemma control_summaries: "control_on_disk f cs cf \<Longrightarrow> length cs = 2 \<and> (\<forall>c \<in> set cs. summary_ok c)"
  by (auto simp: control_on_disk_def group_on_disk_def in_set_conv_nth less_Suc_eq numeral_2_eq_2)

lemma grown_idle:
  assumes "grown h fs n len cs cf d1 h' d' fs' cf'" and "sectors d1 = sectors d" and "idle_after d d1"
  shows "grown h fs n len cs cf d h' d' fs' cf'"
  using assms idle_after_trans by (auto simp: grown_def)

lemma Allocate_spec:
  assumes "disk_ok d" and "control_on_disk (sectors d) cs cf" and "direct_file cf h fs"
    and "0 \<le> len" and "divRoundUp len 1024 \<le> 16" and "0 \<le> b"
  shows "\<exists>r h' d'. Allocate format_super_block b h len d = Some (r, h', d') \<and>
    (if divRoundUp len 1024 \<le> numFragments h
     then r \<and> h' = h\<lparr>numBytes := len\<rparr> \<and> idle_after d d' \<and> sectors d' = sectors d
     else if r then \<exists>fs' cf'. grown h fs (divRoundUp len 1024) len cs cf d h' d' fs' cf'
     else h' = h \<and> idle_after d d' \<and> sectors d' = sectors d \<and>
       int (card (free_blocks cf)) \<le> divRoundUp len 1024 div 4 - numFragments h div 4)"
proof -
  let ?n = "divRoundUp len 1024"
  obtain d1 where d1: "fetch_control format_super_block d = Some (cs, cf, d1)" "idle_after d d1"
    "sectors d1 = sectors d" by (rule fetch_control_ok [OF assms(1,2)])
  note g = direct_file_gather [OF assms(3)]
  have f: "frags_ok fs" "owned cf fs" "int (length fs) = numFragments h"
    using assms(3) by (auto simp: direct_file_def)
  have n: "(if len smod 1024 \<noteq> 0 then len sdiv 1024 + 1 else len sdiv 1024) = ?n"
    using assms(4) pos_mod_sign [of 1024 len] by (auto simp: divRoundUp_def)
  have pre: "prepare_indirect h ?n cf = Some (Some h, cf)"
    using assms(5) by (simp add: prepare_indirect_def NUM_DIRECT_FRAGMENTS_def)
  define lst where "lst = (if numFragments h = 0 then b else last fs)"
  have al: "(if numFragments h = 0 then Some b else arr_get fs (numFragments h - 1)) = Some lst"
    unfolding lst_def f(3) [symmetric]
    by (cases "fs = []") (auto simp: arr_get_def last_conv_nth nat_diff_distrib')
  have A: "Allocate format_super_block b h len d =
      (if ?n < numFragments h then Some (True, h\<lparr>numBytes := len\<rparr>, d1)
       else if ?n > numFragments h then grow format_super_block lst h fs ?n len cs cf d1
       else Some (True, h\<lparr>numBytes := len\<rparr>, d1))"
    unfolding Allocate_def d1(1) fs_consts Let_def bind.bind_lunit prod.case n g(1) pre al by simp
  show ?thesis
  proof (cases "?n \<le> numFragments h")
    case True
    then show ?thesis using A d1 by auto
  next
    case False
    have l: "if fs = [] then 0 \<le> lst else lst = last fs"
      using f(3) assms(6) by (auto simp: lst_def)
    have cs: "length cs = 2" "\<forall>c \<in> set cs. summary_ok c" using control_summaries [OF assms(2)] by blast+
    have lt: "numFragments h < ?n" using False by simp
    obtain r h' d' where gr: "grow format_super_block lst h fs ?n len cs cf d1 = Some (r, h', d')"
      "if r then \<exists>fs' cf'. grown h fs ?n len cs cf d1 h' d' fs' cf'
       else h' = h \<and> d' = d1 \<and> int (card (free_blocks cf)) \<le> ?n div 4 - int (length fs) div 4"
      using grow_direct [OF idle_after_ok [OF d1(2)] cs control_cfs_ok [OF assms(2)] f lt assms(5) l] by blast
    have A': "Allocate format_super_block b h len d = Some (r, h', d')" using A lt gr(1) by simp
    show ?thesis
    proof (cases r)
      case True
      then obtain fs' cf' where "grown h fs ?n len cs cf d1 h' d' fs' cf'" using gr(2) by auto
      then have "grown h fs ?n len cs cf d h' d' fs' cf'" by (rule grown_idle [OF _ d1(3,2)])
      then show ?thesis using A' True False by auto
    next
      case no: False
      then show ?thesis using A' gr(2) False d1 f(3) by auto
    qed
  qed
qed


definition empty_header :: "int \<Rightarrow> file_header" where
  "empty_header i = FileHeader_new (replicate 16 0) blank_disk i"

lemma empty_header_direct: "direct_file cf (empty_header i) []"
  by (simp add: direct_file_def empty_header_def FileHeader_new_def frags_ok_def small_run_def owned_def)


end
