(* ===== verification/OpenFile.thy ===== *)
theory OpenFile
  imports FsAlloc_Correct
begin

text \<open>
  \<open>filesys/openfile.cc\<close>: an open file is a copy of its i-node and a position. Reading and writing
  go through the fragments of the i-node; the table of open i-nodes says whether the copy is still
  the i-node on disk. Every operation passes the file system state along.
\<close>

record open_file =
  seekPosition :: int
  hdr :: file_header

text \<open>Operations on the disk alone, within the file system.\<close>

definition on_disk :: "(disk \<Rightarrow> ('a \<times> disk) option) \<Rightarrow> fs \<Rightarrow> ('a \<times> fs) option" where
  "on_disk f k = do { (x, d) \<leftarrow> f (dsk k); Some (x, k\<lparr>dsk := d\<rparr>) }"

definition disk_do :: "(disk \<Rightarrow> disk option) \<Rightarrow> fs \<Rightarrow> fs option" where
  "disk_do f k = do { d \<leftarrow> f (dsk k); Some (k\<lparr>dsk := d\<rparr>) }"

definition on_table :: "(meta_table \<Rightarrow> meta_table option) \<Rightarrow> fs \<Rightarrow> fs option" where
  "on_table f k = do { t \<leftarrow> f (metaTable k); Some (k\<lparr>metaTable := t\<rparr>) }"

definition OpenFile_new :: "fs \<Rightarrow> int \<Rightarrow> (open_file \<times> fs) option" where
  "OpenFile_new k inode_number = do {
     let h = FileHeader_new (junk k) (dsk k) inode_number;
     (h, k) \<leftarrow> on_disk (FileHeader_fetchFrom (superBlock k) h) k;
     k \<leftarrow> on_table (\<lambda>t. incUsage t inode_number) k;
     Some (\<lparr>seekPosition = 0, hdr = h\<rparr>, k) }"

definition OpenFile_delete :: "fs \<Rightarrow> open_file \<Rightarrow> fs option" where
  "OpenFile_delete k f = do {
     (ret, t) \<leftarrow> close_inode (metaTable k) (hdr_id (hdr f));
     let k = k\<lparr>metaTable := t\<rparr>;
     if ret then do {
       (_, k) \<leftarrow> on_disk (Unlink (superBlock k) (junk k) (hdr_id (hdr f))) k;
       Some k }
     else Some k }"

definition Seek :: "open_file \<Rightarrow> int \<Rightarrow> open_file" where
  "Seek f position = f\<lparr>seekPosition := position\<rparr>"

definition SeekToEnd :: "open_file \<Rightarrow> open_file" where
  "SeekToEnd f = f\<lparr>seekPosition := numBytes (hdr f)\<rparr>"

definition OpenFile_Length :: "open_file \<Rightarrow> int" where
  "OpenFile_Length f = FileLength (hdr f)"

text \<open>The header is fetched again when the table says that it has been modified since.\<close>

definition refresh :: "fs \<Rightarrow> open_file \<Rightarrow> (open_file \<times> fs) option" where
  "refresh k f = do {
     ok \<leftarrow> checkLastModified (metaTable k) (hdr_id (hdr f)) (last_modified (hdr f));
     if \<not> ok then do {
       (h, k) \<leftarrow> on_disk (FileHeader_fetchFrom (superBlock k) (hdr f)) k;
       Some (f\<lparr>hdr := h\<rparr>, k) }
     else Some (f, k) }"

text \<open>
  \<open>read_frags\<close> is the loop that reads the fragments with numbers \<open>is\<close> in the list \<open>frags\<close>, the
  one with number \<open>i\<close> to offset \<open>(i - base) * fragment_size\<close> of the buffer. \<open>ReadAt\<close> runs it with
  base 0 on a buffer that begins with the first fragment it reads.
\<close>

definition read_frags ::
    "int \<Rightarrow> int list \<Rightarrow> int \<Rightarrow> int list \<Rightarrow> byte list \<Rightarrow> disk \<Rightarrow> (byte list \<times> disk) option" where
  "read_frags fsize frags base is buf d =
     foldM (\<lambda>i (buf, d). do {
       tmp_fragment_num \<leftarrow> arr_get frags i;
       (bs, d) \<leftarrow> ReadLength d (tmp_fragment_num * (fsize sdiv SectorSize)) fsize;
       buf \<leftarrow> bytes_put buf ((i - base) * fsize) bs;
       Some (buf, d) }) is (buf, d)"

definition write_frags ::
    "int \<Rightarrow> int list \<Rightarrow> int \<Rightarrow> int list \<Rightarrow> byte list \<Rightarrow> disk \<Rightarrow> disk option" where
  "write_frags fsize frags base is buf d =
     foldM (\<lambda>i d. do {
       tmp_fragment_num \<leftarrow> arr_get frags i;
       bs \<leftarrow> bytes_get buf ((i - base) * fsize) fsize;
       WriteLength d (tmp_fragment_num * (fsize sdiv SectorSize)) fsize bs }) is d"

text \<open>The result of \<open>ReadAt\<close>: the bytes that it puts into the caller's buffer.\<close>

definition ReadAt :: "fs \<Rightarrow> open_file \<Rightarrow> int \<Rightarrow> int \<Rightarrow> (byte list \<times> open_file \<times> fs) option" where
  "ReadAt k f n position = do {
     (f, k) \<leftarrow> refresh k f;
     let fileLength = FileLength (hdr f);
     if n \<le> 0 \<or> position \<ge> fileLength then Some ([], f, k)
     else do {
       let n = (if position + n \<ge> fileLength then fileLength - position else n);
       let fsize = fragment_size (superBlock k);
       ASSERT (fsize \<noteq> 0);
       let first = divRoundDown position fsize;
       let end_point = divRoundDown (position + n - 1) fsize;
       (frags, k) \<leftarrow> on_disk (gather_fragments (fsize sdiv SectorSize) (hdr f)) k;
       let buf = replicate (nat ((end_point - first + 1) * fsize)) 0;
       (buf, k) \<leftarrow> on_disk (read_frags fsize frags 0 [first..end_point] buf) k;
       data \<leftarrow> bytes_get buf (position - first * fsize) n;
       Some (data, f, k) } }"

text \<open>
  Moving the fragments before the written ones to their new places. An old fragment number that
  was never set is \<open>None\<close>.
\<close>

definition move_frags :: "int \<Rightarrow> int list \<Rightarrow> int list \<Rightarrow> int list \<Rightarrow> disk \<Rightarrow> disk option" where
  "move_frags fsize old new is d =
     foldM (\<lambda>i d. do {
       a \<leftarrow> arr_get old i;
       b \<leftarrow> arr_get new i;
       if a = b then Some d
       else do {
         (bs, d) \<leftarrow> ReadLength d ((fsize sdiv SectorSize) * a) fsize;
         WriteLength d ((fsize sdiv SectorSize) * b) fsize bs } }) is d"

definition finish_write :: "fs \<Rightarrow> open_file \<Rightarrow> (open_file \<times> fs) option" where
  "finish_write k f = do {
     let f = f\<lparr>hdr := setLastModified (hdr f) (dsk k)\<rparr>;
     k \<leftarrow> disk_do (FileHeader_writeBack (superBlock k) (hdr f)) k;
     k \<leftarrow> on_table (\<lambda>t. MetaTable_setLastModified t (hdr_id (hdr f)) (last_modified (hdr f))) k;
     Some (f, k) }"

definition WriteAt ::
    "fs \<Rightarrow> open_file \<Rightarrow> byte list \<Rightarrow> int \<Rightarrow> int \<Rightarrow> (int \<times> open_file \<times> fs) option" where
  "WriteAt k f from n position = do {
     (f, k) \<leftarrow> refresh k f;
     let fileLength = FileLength (hdr f);
     let newLength = (if position + n > fileLength then position + n else fileLength);
     let fsize = fragment_size (superBlock k);
     ASSERT (fsize \<noteq> 0);
     let first = divRoundDown position fsize;
     (old, k) \<leftarrow> on_disk (gather_fragments (fsize sdiv SectorSize) (hdr f)) k;
     let num_old = numFragments (hdr f);
     ((ok, h), k) \<leftarrow> on_disk (\<lambda>d. map_option (\<lambda>(r, h, d). ((r, h), d))
        (Allocate (superBlock k) (below k) (hdr f) newLength d)) k;
     let f = f\<lparr>hdr := h\<rparr>;
     if ok then do {
       let num_new = numFragments h;
       (new, k) \<leftarrow> on_disk (gather_fragments (fsize sdiv SectorSize) h) k;
       k \<leftarrow> disk_do (move_frags fsize old new (if fileLength > 0 then [0..first - 1] else [])) k;
       let buf = replicate (nat ((num_new - first) * fsize)) 0;
       (buf, k) \<leftarrow> on_disk (read_frags fsize old first [first..num_old - 1] buf) k;
       bytes \<leftarrow> bytes_get from 0 n;
       buf \<leftarrow> bytes_put buf (position - first * fsize) bytes;
       k \<leftarrow> disk_do (write_frags fsize new first [first..num_new - 1] buf) k;
       (f, k) \<leftarrow> finish_write k f;
       Some (n, f, k) }
     else Some (0, f, k) }"

definition WriteDir ::
    "fs \<Rightarrow> open_file \<Rightarrow> byte list \<Rightarrow> int \<Rightarrow> int \<Rightarrow> (int \<times> open_file \<times> fs) option" where
  "WriteDir k f from n position = do {
     let fileLength = FileLength (hdr f);
     let newLength = position + n;
     if newLength > fileLength then WriteAt k f from n position
     else do {
       (f, k) \<leftarrow> refresh k f;
       let fsize = fragment_size (superBlock k);
       ASSERT (fsize \<noteq> 0);
       let num_new = divRoundUp newLength fsize;
       bytes \<leftarrow> bytes_get from 0 n;
       buf \<leftarrow> bytes_put (replicate (nat (num_new * fsize)) 0) 0 bytes;
       k \<leftarrow> disk_do (write_frags fsize (dataFragments (hdr f)) 0 [0..num_new - 1] buf) k;
       let f = f\<lparr>hdr := (hdr f)\<lparr>numBytes := newLength, numFragments := num_new\<rparr>\<rparr>;
       (f, k) \<leftarrow> finish_write k f;
       Some (n, f, k) } }"

definition Read :: "fs \<Rightarrow> open_file \<Rightarrow> int \<Rightarrow> (byte list \<times> open_file \<times> fs) option" where
  "Read k f n = do {
     (data, f, k) \<leftarrow> ReadAt k f n (seekPosition f);
     Some (data, f\<lparr>seekPosition := seekPosition f + int (length data)\<rparr>, k) }"

definition Write :: "fs \<Rightarrow> open_file \<Rightarrow> byte list \<Rightarrow> int \<Rightarrow> (int \<times> open_file \<times> fs) option" where
  "Write k f from n = do {
     (r, f, k) \<leftarrow> WriteAt k f from n (seekPosition f);
     Some (r, f\<lparr>seekPosition := seekPosition f + r\<rparr>, k) }"

subsection \<open>Reading beyond the first fragment\<close>

lemma read_frags_length:
  assumes "read_frags fsize frags base is buf d = Some (buf', d')"
  shows "length buf' = length buf"
proof -
  have "(\<lambda>s. length (fst s) = length buf) (buf', d')"
    by (rule foldM_invariant [OF _ _ assms [unfolded read_frags_def]])
      (auto simp: bind_Some_conv, metis bytes_put_length)
  then show ?thesis by simp
qed

lemma read_frags_snoc:
  "read_frags fsize frags base (is @ [i]) buf d =
     (read_frags fsize frags base is buf d \<bind> (\<lambda>(buf, d). read_frags fsize frags base [i] buf d))"
  by (simp add: read_frags_def foldM_append) (auto split: bind_splits)

lemma read_frags_overflow:
  assumes "0 < fsize" and "0 < first" and "first \<le> end_point"
    and "int (length buf) = (end_point - first + 1) * fsize"
  shows "read_frags fsize frags 0 [first..end_point] buf d = None"
proof -
  have u: "[first..end_point] = [first..end_point - 1] @ [end_point]"
    using assms(3) by (rule upto_rec2)
  have "read_frags fsize frags 0 [end_point] b e = None" if l: "length b = length buf" for b e
  proof (rule ccontr)
    assume "read_frags fsize frags 0 [end_point] b e \<noteq> None"
    then obtain f bs e' b' where rd: "ReadLength e (f * (fsize sdiv SectorSize)) fsize = Some (bs, e')"
      and put: "bytes_put b (end_point * fsize) bs = Some b'"
      by (auto simp: read_frags_def bind_Some_conv)
    have "int (length bs) = fsize" using rd by (auto simp: ReadLength_def Let_def run_simps)
    then have "end_point * fsize + fsize \<le> (end_point - first + 1) * fsize"
      using put l assms(4) by (simp add: bytes_put_Some_iff)
    then have "(end_point + 1) * fsize \<le> (end_point - first + 1) * fsize" by (simp add: algebra_simps)
    then show False using assms(1,2) by simp
  qed
  then show ?thesis
    unfolding u read_frags_snoc using read_frags_length by (auto split: bind_splits)
qed

lemma ReadAt_overruns:
  assumes "refresh k f = Some (f1, k1)" and "0 < n" and "position < numBytes (hdr f1)"
    and "0 < fragment_size (superBlock k1)" and "fragment_size (superBlock k1) \<le> position"
  shows "ReadAt k f n position = None"
proof -
  let ?fs = "fragment_size (superBlock k1)"
  define n' where "n' = (if position + n \<ge> numBytes (hdr f1) then numBytes (hdr f1) - position else n)"
  have n': "0 < n'" using assms(2,3) by (simp add: n'_def)
  let ?first = "position div ?fs" and ?fin = "(position + n' - 1) div ?fs"
  have first: "0 < ?first" using assms(4,5) by (simp add: pos_imp_zdiv_pos_iff)
  have le: "?first \<le> ?fin" using n' assms(4) by (intro zdiv_mono1) simp_all
  have none: "read_frags ?fs frags 0 [?first..?fin] (replicate (nat ((?fin - ?first + 1) * ?fs)) 0) d = None" for frags d
    by (rule read_frags_overflow [OF assms(4) first le]) (use le assms(4) in simp)
  show ?thesis
    unfolding ReadAt_def assms(1) bind.bind_lunit prod.case Let_def FileLength_def n'_def [symmetric]
    using assms none n' by (auto simp: divRoundDown_def on_disk_def split: bind_splits)
qed

text \<open>
  \<open>ReadAt\<close> at a position beyond the first fragment of a file always writes behind the end of its
  buffer, for every file system, file and length: it indexes the buffer with the number of the
  fragment in the file, although the buffer begins with the first fragment that it reads. A write
  outside the buffer ends the run of the model, with \<open>None\<close>.
\<close>

theorem ReadAt_beyond_first_fragment:
  assumes "refresh k f = Some (f1, k1)" and "0 < n" and "position < numBytes (hdr f1)"
    and "0 < fragment_size (superBlock k1)" and "fragment_size (superBlock k1) \<le> position"
  shows "ReadAt k f n position = None"
  by (rule ReadAt_overruns [OF assms])

definition blank_fs :: fs where
  "blank_fs = \<lparr>dsk = blank_disk, superBlock = format_super_block, metaTable = MetaTable_new 1,
     currentDir = 1, junk = replicate 16 0, below = 0\<rparr>"

definition long_file :: open_file where
  "long_file = \<lparr>seekPosition = 0, hdr = (empty_header 1)\<lparr>numBytes := 3000, numFragments := 3\<rparr>\<rparr>"

theorem ReadAt_beyond_first_fragment_witness:
  "ReadAt blank_fs long_file 10 1024 = None"
proof (rule ReadAt_beyond_first_fragment [where ?f1.0 = long_file and ?k1.0 = blank_fs])
  show "refresh blank_fs long_file = Some (long_file, blank_fs)"
    by (simp add: refresh_def blank_fs_def long_file_def empty_header_def FileHeader_new_def
        checkLastModified_def MetaTable_new_def MetaTableItem_new_def blank_disk_def)
qed (simp_all add: blank_fs_def long_file_def)

end
