(* ===== verification/OpenFile_Correct.thy ===== *)
theory OpenFile_Correct
  imports OpenFile
begin

text \<open>
  Reading and writing files of at most 16 fragments implement reading and writing an array of
  bytes, also when the file grows and its last fragments move. The contents of a fragment are the
  eight sectors that it occupies.
\<close>

subsection \<open>Fragments on the disk\<close>

definition frag :: "(int \<Rightarrow> byte list) \<Rightarrow> int \<Rightarrow> byte list" where
  "frag f n = run_bytes f (8 * n) 8"

definition contents :: "(int \<Rightarrow> byte list) \<Rightarrow> int list \<Rightarrow> byte list" where
  "contents f fs = concat (map (frag f) fs)"

definition frag_ok :: "int \<Rightarrow> bool" where
  "frag_ok n \<longleftrightarrow> 0 \<le> n \<and> n < 128"

text \<open>Which sectors a list of fragments covers.\<close>

definition covers :: "int list \<Rightarrow> int \<Rightarrow> bool" where
  "covers ns k \<longleftrightarrow> (\<exists>n \<in> set ns. 8 * n \<le> k \<and> k < 8 * n + 8)"

lemma frag_length: "disk_ok d \<Longrightarrow> frag_ok n \<Longrightarrow> length (frag (sectors d) n) = 1024"
  unfolding frag_def frag_ok_def
  by (subst length_run_bytes) (auto simp: disk_ok_def sector_ok_def disk_consts)

lemma frag_cong: "(\<And>k. 8 * n \<le> k \<Longrightarrow> k < 8 * n + 8 \<Longrightarrow> f k = g k) \<Longrightarrow> frag f n = frag g n"
  unfolding frag_def by (rule run_bytes_cong) simp

lemma contents_cong: "(\<And>n. n \<in> set fs \<Longrightarrow> frag f n = frag g n) \<Longrightarrow> contents f fs = contents g fs"
  by (simp add: contents_def cong: map_cong)

lemma contents_simps [simp]:
  "contents f [] = []" "contents f (n # fs) = frag f n @ contents f fs"
  "contents f (fs @ gs) = contents f fs @ contents f gs"
  by (simp_all add: contents_def)

lemma contents_length:
  "disk_ok d \<Longrightarrow> \<forall>n \<in> set fs. frag_ok n \<Longrightarrow> length (contents (sectors d) fs) = 1024 * length fs"
  by (induction fs) (auto simp: frag_length)

lemma read_frag:
  assumes "disk_ok d" and "frag_ok n"
  obtains d' where "ReadLength d (n * (1024 sdiv SectorSize)) 1024 = Some (frag (sectors d) n, d')"
    and "idle_after d d'" and "sectors d' = sectors d"
proof -
  have s: "0 \<le> n * 8" "n * 8 + divRoundUp 1024 SectorSize \<le> NumSectors"
    using assms(2) by (simp_all add: frag_ok_def disk_consts divRoundUp_def)
  obtain d' where "ReadLength d (n * 8) 1024 =
      Some (take (nat 1024) (run_bytes (sectors d) (n * 8) (nat (divRoundUp 1024 SectorSize))), d')"
    "idle_after d d'" "sectors d' = sectors d"
    using ReadLength_ok [OF assms(1) s(1) _ s(2)] by auto
  moreover have "run_bytes (sectors d) (n * 8) 8 = frag (sectors d) n"
    by (simp add: frag_def mult.commute)
  ultimately show ?thesis using that frag_length [OF assms] by (simp add: disk_consts divRoundUp_def)
qed

lemma write_frag:
  assumes "disk_ok d" and "frag_ok n" and "length bs = 1024"
  obtains d' where "WriteLength d (n * (1024 sdiv SectorSize)) 1024 bs = Some d'" and "idle_after d d'"
    and "frag (sectors d') n = bs" and "\<And>m. m \<noteq> n \<Longrightarrow> frag (sectors d') m = frag (sectors d) m"
    and "\<And>k. \<not> covers [n] k \<Longrightarrow> sectors d' k = sectors d k"
proof -
  have s: "0 \<le> n * 8" "n * 8 + divRoundUp 1024 SectorSize \<le> NumSectors"
    using assms(2) by (simp_all add: frag_ok_def disk_consts divRoundUp_def)
  have p: "padded 1024 bs = bs" using assms(3) by (simp add: padded_def divRoundUp_def disk_consts)
  obtain d' where d': "WriteLength d (n * 8) 1024 bs = Some d'" "idle_after d d'"
    "sectors d' = sectors_put (sectors d) (n * 8) 8 bs"
    using WriteLength_ok [OF assms(1) s(1) _ s(2), of bs] assms(3) p
    by (auto simp: divRoundUp_def disk_consts)
  have "frag (sectors d') n = bs"
    unfolding d'(3) frag_def using run_bytes_put [of 8 8 "sectors d" "n * 8" bs] assms(3) by (simp add: mult.commute)
  moreover have "frag (sectors d') m = frag (sectors d) m" if "m \<noteq> n" for m
    unfolding d'(3) frag_def by (rule run_bytes_put_out) (use that in auto)
  moreover have "sectors d' k = sectors d k" if "\<not> covers [n] k" for k
    unfolding d'(3) by (rule sectors_put_out) (use that in \<open>auto simp: covers_def\<close>)
  ultimately show ?thesis using that d'(1,2) by (simp add: disk_consts)
qed

subsection \<open>The loops\<close>

lemma read_frags_ok:
  assumes "disk_ok d" and "\<forall>n \<in> set fs. frag_ok n" and "first + m \<le> length fs" and "1024 * m \<le> length buf"
  shows "\<exists>d'. read_frags 1024 fs (int first) [int first..int first + int m - 1] buf d =
      Some (contents (sectors d) (take m (drop first fs)) @ drop (1024 * m) buf, d') \<and>
      idle_after d d' \<and> sectors d' = sectors d"
  using assms
proof (induction m)
  case 0
  then show ?case by (simp add: read_frags_def)
next
  case (Suc m)
  obtain d1 where d1: "read_frags 1024 fs (int first) [int first..int first + int m - 1] buf d =
      Some (contents (sectors d) (take m (drop first fs)) @ drop (1024 * m) buf, d1)"
    "idle_after d d1" "sectors d1 = sectors d" using Suc by auto
  let ?i = "int first + int m"
  have u: "[int first..int first + int (Suc m) - 1] = [int first..int first + int m - 1] @ [?i]"
    by (simp add: upto_rec2)
  have i: "first + m < length fs" using Suc.prems by simp
  then have fo: "frag_ok (fs ! (first + m))" using Suc.prems by simp
  have ag: "arr_get fs ?i = Some (fs ! (first + m))" using i by (simp add: arr_get_def nat_add_distrib)
  obtain d2 where d2: "ReadLength d1 (fs ! (first + m) * (1024 sdiv SectorSize)) 1024 = Some (frag (sectors d1) (fs ! (first + m)), d2)"
    "idle_after d1 d2" "sectors d2 = sectors d1"
    by (rule read_frag [OF idle_after_ok [OF d1(2)] fo])
  have lc: "length (contents (sectors d) (take m (drop first fs))) = 1024 * m"
    using contents_length [OF Suc.prems(1), of "take m (drop first fs)"] Suc.prems i
    by (auto dest: in_set_takeD in_set_dropD)
  have lf: "length (frag (sectors d) (fs ! (first + m))) = 1024" by (rule frag_length [OF Suc.prems(1) fo])
  have tk: "take (Suc m) (drop first fs) = take m (drop first fs) @ [fs ! (first + m)]"
    using i by (simp add: take_Suc_conv_app_nth)
  have "bytes_put (contents (sectors d) (take m (drop first fs)) @ drop (1024 * m) buf) (int m * 1024)
      (frag (sectors d) (fs ! (first + m))) =
      Some (contents (sectors d) (take (Suc m) (drop first fs)) @ drop (1024 * Suc m) buf)"
    using lc lf Suc.prems(4) by (simp add: bytes_put_def tk nat_mult_distrib mult.commute)
  then have "read_frags 1024 fs (int first) [?i] (contents (sectors d) (take m (drop first fs)) @ drop (1024 * m) buf) d1 =
      Some (contents (sectors d) (take (Suc m) (drop first fs)) @ drop (1024 * Suc m) buf, d2)"
    using d2(1) d1(3) ag by (simp add: read_frags_def)
  then have "read_frags 1024 fs (int first) [int first..int first + int (Suc m) - 1] buf d =
      Some (contents (sectors d) (take (Suc m) (drop first fs)) @ drop (1024 * Suc m) buf, d2)"
    unfolding u read_frags_snoc using d1(1) by simp
  then show ?case using idle_after_trans [OF d1(2) d2(2)] d1(3) d2(3) by auto
qed

lemma write_frags_ok:
  assumes "disk_ok d" and "\<forall>n \<in> set fs. frag_ok n" and "distinct fs" and "first + m \<le> length fs"
    and "1024 * m \<le> length buf"
  shows "\<exists>d'. write_frags 1024 fs (int first) [int first..int first + int m - 1] buf d = Some d' \<and>
      idle_after d d' \<and> contents (sectors d') (take m (drop first fs)) = take (1024 * m) buf \<and>
      (\<forall>n. n \<notin> set (take m (drop first fs)) \<longrightarrow> frag (sectors d') n = frag (sectors d) n) \<and>
      (\<forall>k. \<not> covers fs k \<longrightarrow> sectors d' k = sectors d k)"
  using assms
proof (induction m)
  case 0
  then show ?case by (simp add: write_frags_def)
next
  case (Suc m)
  obtain d1 where d1: "write_frags 1024 fs (int first) [int first..int first + int m - 1] buf d = Some d1"
    "idle_after d d1" "contents (sectors d1) (take m (drop first fs)) = take (1024 * m) buf"
    "\<forall>n. n \<notin> set (take m (drop first fs)) \<longrightarrow> frag (sectors d1) n = frag (sectors d) n"
    "\<forall>k. \<not> covers fs k \<longrightarrow> sectors d1 k = sectors d k" using Suc by auto
  let ?i = "int first + int m" and ?n = "fs ! (first + m)" and ?bs = "take 1024 (drop (1024 * m) buf)"
  have u: "[int first..int first + int (Suc m) - 1] = [int first..int first + int m - 1] @ [?i]"
    by (simp add: upto_rec2)
  have i: "first + m < length fs" using Suc.prems by simp
  then have fo: "frag_ok ?n" and inn: "?n \<in> set fs" using Suc.prems by simp_all
  have ag: "arr_get fs ?i = Some ?n" using i by (simp add: arr_get_def nat_add_distrib)
  have lb: "length ?bs = 1024" using Suc.prems(5) by simp
  obtain d2 where d2: "WriteLength d1 (?n * (1024 sdiv SectorSize)) 1024 ?bs = Some d2" "idle_after d1 d2"
    "frag (sectors d2) ?n = ?bs" "\<And>x. x \<noteq> ?n \<Longrightarrow> frag (sectors d2) x = frag (sectors d1) x"
    "\<And>k. \<not> covers [?n] k \<Longrightarrow> sectors d2 k = sectors d1 k"
    using write_frag [OF idle_after_ok [OF d1(2)] fo lb] by blast
  have tk: "take (Suc m) (drop first fs) = take m (drop first fs) @ [?n]"
    using i by (simp add: take_Suc_conv_app_nth)
  have nin: "?n \<notin> set (take m (drop first fs))"
  proof -
    have "distinct (take (Suc m) (drop first fs))" using Suc.prems(3) by simp
    then show ?thesis unfolding tk by simp
  qed
  have "bytes_get buf (int m * 1024) 1024 = Some ?bs"
    using Suc.prems(5) by (simp add: bytes_get_def nat_mult_distrib mult.commute)
  then have w: "write_frags 1024 fs (int first) [int first..int first + int (Suc m) - 1] buf d = Some d2"
    unfolding u using d1(1) d2(1) ag by (simp add: write_frags_def foldM_append)
  have "contents (sectors d2) (take m (drop first fs)) = contents (sectors d1) (take m (drop first fs))"
    by (rule contents_cong) (use nin d2(4) in metis)
  then have c: "contents (sectors d2) (take (Suc m) (drop first fs)) = take (1024 * Suc m) buf"
    unfolding tk using d1(3) d2(3) take_add [of "1024 * m" 1024 buf] by (simp add: add.commute)
  moreover have "\<forall>k. \<not> covers fs k \<longrightarrow> sectors d2 k = sectors d k"
    using d1(5) d2(5) inn by (auto simp: covers_def)
  moreover have "\<forall>n. n \<notin> set (take (Suc m) (drop first fs)) \<longrightarrow> frag (sectors d2) n = frag (sectors d) n"
    unfolding tk using d1(4) d2(4) by simp
  ultimately show ?case using w idle_after_trans [OF d1(2) d2(2)] by blast
qed

lemma move_frags_ok:
  assumes "disk_ok d" and "\<forall>n \<in> set old. frag_ok n" and "\<forall>n \<in> set new. frag_ok n" and "distinct new"
    and "no_clobber old new" and "m \<le> length old" and "m \<le> length new"
  shows "\<exists>d'. move_frags 1024 old new [0..int m - 1] d = Some d' \<and> idle_after d d' \<and>
      (\<forall>i < m. frag (sectors d') (new ! i) = frag (sectors d) (old ! i)) \<and>
      (\<forall>j. m \<le> j \<and> j < length old \<longrightarrow> frag (sectors d') (old ! j) = frag (sectors d) (old ! j)) \<and>
      (\<forall>n. n \<notin> set new \<longrightarrow> frag (sectors d') n = frag (sectors d) n) \<and>
      (\<forall>k. \<not> covers new k \<longrightarrow> sectors d' k = sectors d k)"
  using assms
proof (induction m)
  case 0
  then show ?case by (simp add: move_frags_def)
next
  case (Suc m)
  obtain d1 where d1: "move_frags 1024 old new [0..int m - 1] d = Some d1" "idle_after d d1"
    "\<forall>i < m. frag (sectors d1) (new ! i) = frag (sectors d) (old ! i)"
    "\<forall>j. m \<le> j \<and> j < length old \<longrightarrow> frag (sectors d1) (old ! j) = frag (sectors d) (old ! j)"
    "\<forall>n. n \<notin> set new \<longrightarrow> frag (sectors d1) n = frag (sectors d) n"
    "\<forall>k. \<not> covers new k \<longrightarrow> sectors d1 k = sectors d k" using Suc by auto
  have u: "[0..int (Suc m) - 1] = [0..int m - 1] @ [int m]" by (simp add: upto_rec2)
  let ?a = "old ! m" and ?b = "new ! m"
  have ag: "arr_get old (int m) = Some ?a" "arr_get new (int m) = Some ?b"
    and fo: "frag_ok ?a" "frag_ok ?b" "?b \<in> set new"
    using Suc.prems by (simp_all add: arr_get_def)
  show ?case
  proof (cases "?a = ?b")
    case True
    then have "move_frags 1024 old new [0..int (Suc m) - 1] d = Some d1"
      unfolding u using d1(1) ag by (simp add: move_frags_def foldM_append)
    moreover have "\<forall>i < Suc m. frag (sectors d1) (new ! i) = frag (sectors d) (old ! i)"
      using d1(3,4) True Suc.prems(6) by (auto simp: less_Suc_eq)
    ultimately show ?thesis using d1 by (intro exI [of _ d1]) simp
  next
    case False
    obtain d2 where d2: "ReadLength d1 (?a * (1024 sdiv SectorSize)) 1024 = Some (frag (sectors d1) ?a, d2)"
      "idle_after d1 d2" "sectors d2 = sectors d1" by (rule read_frag [OF idle_after_ok [OF d1(2)] fo(1)])
    have lb: "length (frag (sectors d1) ?a) = 1024" by (rule frag_length [OF idle_after_ok [OF d1(2)] fo(1)])
    obtain d3 where d3: "WriteLength d2 (?b * (1024 sdiv SectorSize)) 1024 (frag (sectors d1) ?a) = Some d3"
      "idle_after d2 d3" "frag (sectors d3) ?b = frag (sectors d1) ?a"
      "\<And>x. x \<noteq> ?b \<Longrightarrow> frag (sectors d3) x = frag (sectors d2) x"
      "\<And>k. \<not> covers [?b] k \<Longrightarrow> sectors d3 k = sectors d2 k"
      using write_frag [OF idle_after_ok [OF d2(2)] fo(2) lb] by blast
    have "move_frags 1024 old new [0..int (Suc m) - 1] d = Some d3"
      unfolding u using d1(1) ag False d2(1) d3(1)
      by (simp add: move_frags_def foldM_append mult.commute)
    moreover have "idle_after d d3" using d1(2) d2(2) d3(2) idle_after_trans by blast
    moreover have "\<forall>i < Suc m. frag (sectors d3) (new ! i) = frag (sectors d) (old ! i)"
    proof (intro allI impI)
      fix i assume i: "i < Suc m"
      show "frag (sectors d3) (new ! i) = frag (sectors d) (old ! i)"
      proof (cases "i = m")
        case True
        then show ?thesis using d3(3) d1(4) Suc.prems(6) by simp
      next
        case False
        then have "new ! i \<noteq> ?b" using i Suc.prems(4,7) by (simp add: nth_eq_iff_index_eq)
        then show ?thesis using d3(4) d2(3) d1(3) i False by simp
      qed
    qed
    moreover have "\<forall>j. Suc m \<le> j \<and> j < length old \<longrightarrow> frag (sectors d3) (old ! j) = frag (sectors d) (old ! j)"
    proof (intro allI impI)
      fix j assume j: "Suc m \<le> j \<and> j < length old"
      then have "?b = ?a \<or> ?b \<noteq> old ! j"
        using Suc.prems(5,7) unfolding no_clobber_def by auto
      then show "frag (sectors d3) (old ! j) = frag (sectors d) (old ! j)"
        using False d3(4) d2(3) d1(4) j by auto
    qed
    moreover have "\<forall>n. n \<notin> set new \<longrightarrow> frag (sectors d3) n = frag (sectors d) n"
      using d1(5) d2(3) d3(4) fo(3) by metis
    moreover have "\<forall>k. \<not> covers new k \<longrightarrow> sectors d3 k = sectors d k"
      using d1(6) d2(3) d3(5) fo(3) by (auto simp: covers_def)
    ultimately show ?thesis by blast
  qed
qed

subsection \<open>A consistent file system with an open file\<close>

definition fs_inv :: "fs \<Rightarrow> cylinder_summary list \<Rightarrow> cylinder_freemap list \<Rightarrow> bool" where
  "fs_inv k cs cf \<longleftrightarrow> superBlock k = format_super_block \<and> disk_ok (dsk k) \<and>
     control_on_disk (sectors (dsk k)) cs cf \<and> 0 \<le> below k \<and>
     (\<forall>f. 0 \<le> f \<and> f < 128 \<and> f mod 64 < 16 \<longrightarrow> used cf f)"

definition file_inv :: "fs \<Rightarrow> cylinder_freemap list \<Rightarrow> open_file \<Rightarrow> int list \<Rightarrow> bool" where
  "file_inv k cf f fs \<longleftrightarrow> direct_file cf (hdr f) fs \<and> 0 \<le> numBytes (hdr f) \<and>
     numFragments (hdr f) = divRoundUp (numBytes (hdr f)) 1024 \<and>
     checkLastModified (metaTable k) (hdr_id (hdr f)) (last_modified (hdr f)) = Some True \<and>
     1 \<le> hdr_id (hdr f) \<and> hdr_id (hdr f) \<le> 64 \<and> (\<forall>n \<in> set fs. 16 \<le> n mod 64)"

definition file_bytes :: "fs \<Rightarrow> open_file \<Rightarrow> int list \<Rightarrow> byte list" where
  "file_bytes k f fs = take (nat (numBytes (hdr f))) (contents (sectors (dsk k)) fs)"

lemma file_inv_frags: "file_inv k cf f fs \<Longrightarrow> \<forall>n \<in> set fs. frag_ok n"
  by (simp add: file_inv_def direct_file_def owned_def frag_ok_def)

lemma data_frag_sectors:
  assumes "0 \<le> n" and "n < 128" and "16 \<le> n mod 64" and "8 * n \<le> k" and "k < 8 * n + 8"
  shows "k \<notin> control_sectors" and "\<not> (96 \<le> k \<and> k < 128)" and "\<not> (608 \<le> k \<and> k < 640)"
proof -
  have "16 \<le> n \<and> n < 64 \<or> 80 \<le> n" using assms(1,2,3) by presburger
  then have "128 \<le> k \<and> k < 512 \<or> 640 \<le> k" using assms(4,5) by linarith
  then show "k \<notin> control_sectors" "\<not> (96 \<le> k \<and> k < 128)" "\<not> (608 \<le> k \<and> k < 640)"
    by (auto simp: control_sectors_def)
qed

text \<open>The sector of an i-node, and what a finished write leaves outside the data of the file.\<close>

definition inode_sector :: "int \<Rightarrow> int" where
  "inode_sector i = 512 * ((i - 1) div 32) + 96 + (i - 1) mod 32"

lemma inode_sector_range:
  assumes "1 \<le> i" and "i \<le> 64"
  shows "0 \<le> inode_sector i" and "inode_sector i + divRoundUp 100 SectorSize \<le> NumSectors"
    and "96 \<le> inode_sector i \<and> inode_sector i < 128 \<or> 608 \<le> inode_sector i \<and> inode_sector i < 640"
    and "inode_sector i \<notin> control_sectors"
proof -
  have g: "(i - 1) div 32 = 0 \<or> (i - 1) div 32 = 1" using assms by auto
  have m: "0 \<le> (i - 1) mod 32" "(i - 1) mod 32 < 32" by simp_all
  show r: "96 \<le> inode_sector i \<and> inode_sector i < 128 \<or> 608 \<le> inode_sector i \<and> inode_sector i < 640"
    using g m by (auto simp: inode_sector_def)
  then show "0 \<le> inode_sector i" "inode_sector i + divRoundUp 100 SectorSize \<le> NumSectors"
    "inode_sector i \<notin> control_sectors"
    by (auto simp: disk_consts divRoundUp_def control_sectors_def)
qed

lemma inode_sector_inj:
  assumes "1 \<le> i" and "1 \<le> j" and "inode_sector i = inode_sector j"
  shows "i = j"
proof -
  let ?a = "(i - 1) div 32" and ?b = "(j - 1) div 32" and ?c = "(i - 1) mod 32" and ?d = "(j - 1) mod 32"
  have e: "512 * ?a + ?c = 512 * ?b + ?d" using assms(3) by (simp add: inode_sector_def)
  have m: "0 \<le> ?c" "?c < 32" "0 \<le> ?d" "?d < 32" by simp_all
  have "a = b" if "512 * a + c = 512 * b + d" "0 \<le> c" "c < 32" "0 \<le> d" "d < 32" for a b c d :: int
    by (cases a b rule: linorder_cases) (use that in linarith)+
  from this [OF e m] have ab: "?a = ?b" .
  with e have "?c = ?d" by simp
  with ab have "i - 1 = j - 1" by (metis div_mult_mod_eq)
  then show ?thesis by simp
qed

definition after_write :: "fs \<Rightarrow> open_file \<Rightarrow> fs \<Rightarrow> open_file \<Rightarrow> bool" where
  "after_write k f k' f' \<longleftrightarrow>
     superBlock k' = superBlock k \<and> currentDir k' = currentDir k \<and> junk k' = junk k \<and> below k' = below k \<and>
     idle_after (dsk k) (dsk k') \<and> hdr_id (hdr f') = hdr_id (hdr f) \<and> seekPosition f' = seekPosition f \<and>
     stores (sectors (dsk k')) (inode_sector (hdr_id (hdr f))) 100 (FileHeader_bytes (hdr f')) \<and>
     (\<forall>i. 1 \<le> i \<and> i \<le> 64 \<and> i \<noteq> hdr_id (hdr f) \<longrightarrow>
        sectors (dsk k') (inode_sector i) = sectors (dsk k) (inode_sector i)) \<and>
     mt_item (metaTable k') = (mt_item (metaTable k))(hdr_id (hdr f) :=
       map_option (mt_modified_update (\<lambda>_. last_modified (hdr f'))) (mt_item (metaTable k) (hdr_id (hdr f)))) \<and>
     (header_ok (hdr f) \<longrightarrow> header_ok (hdr f'))"

lemma after_write_later:
  assumes "after_write (k\<lparr>dsk := d\<rparr>) (f\<lparr>hdr := h\<rparr>) k' f'" and "idle_after (dsk k) d"
    and "hdr_id h = hdr_id (hdr f)" and "header_ok (hdr f) \<Longrightarrow> header_ok h"
    and "\<And>i. 1 \<le> i \<Longrightarrow> i \<le> 64 \<Longrightarrow> sectors d (inode_sector i) = sectors (dsk k) (inode_sector i)"
  shows "after_write k f k' f'"
proof -
  have a: "superBlock k' = superBlock k \<and> currentDir k' = currentDir k \<and> junk k' = junk k \<and> below k' = below k"
    "idle_after d (dsk k')" "hdr_id (hdr f') = hdr_id (hdr f)" "seekPosition f' = seekPosition f"
    "stores (sectors (dsk k')) (inode_sector (hdr_id (hdr f))) 100 (FileHeader_bytes (hdr f'))"
    "mt_item (metaTable k') = (mt_item (metaTable k))(hdr_id (hdr f) :=
       map_option (mt_modified_update (\<lambda>_. last_modified (hdr f'))) (mt_item (metaTable k) (hdr_id (hdr f))))"
    using assms(1) by (simp_all add: after_write_def assms(3))
  have o: "\<forall>i. 1 \<le> i \<and> i \<le> 64 \<and> i \<noteq> hdr_id (hdr f) \<longrightarrow> sectors (dsk k') (inode_sector i) = sectors d (inode_sector i)"
    using assms(1) by (simp add: after_write_def assms(3))
  have h: "header_ok h \<Longrightarrow> header_ok (hdr f')"
    using assms(1) by (simp add: after_write_def)
  show ?thesis
    unfolding after_write_def using a(1,3-6) idle_after_trans [OF assms(2) a(2)] o h assms(4,5) by metis
qed

lemma finish_write_ok:
  assumes "superBlock k = format_super_block" and "disk_ok (dsk k)" and "1 \<le> hdr_id (hdr f)"
    and "hdr_id (hdr f) \<le> 64" and "length (dataFragments (hdr f)) = 16"
    and "mt_item (metaTable k) (hdr_id (hdr f)) = Some it"
  obtains h d' t' where "finish_write k f = Some (f\<lparr>hdr := h\<rparr>, k\<lparr>dsk := d', metaTable := t'\<rparr>)"
    and "h = (hdr f)\<lparr>last_modified := clock (dsk k)\<rparr>" and "idle_after (dsk k) d'"
    and "\<forall>k'. \<not> (96 \<le> k' \<and> k' < 128) \<longrightarrow> \<not> (608 \<le> k' \<and> k' < 640) \<longrightarrow> sectors d' k' = sectors (dsk k) k'"
    and "checkLastModified t' (hdr_id h) (last_modified h) = Some True"
    and "after_write k f (k\<lparr>dsk := d', metaTable := t'\<rparr>) (f\<lparr>hdr := h\<rparr>)"
proof -
  let ?h = "(hdr f)\<lparr>last_modified := clock (dsk k)\<rparr>" and ?s = "inode_sector (hdr_id (hdr f))"
  have fsec: "firstSector format_super_block ?h = Some ?s"
    using assms(3) by (subst firstSector_eq) (simp_all add: inode_sector_def)
  note s = inode_sector_range [OF assms(3,4)]
  have len: "100 \<le> int (length (FileHeader_bytes ?h))" and len': "length (FileHeader_bytes ?h) = 100"
    using assms(5) by (simp_all add: FileHeader_bytes_def)
  obtain d' where d': "WriteLength (dsk k) ?s 100 (FileHeader_bytes ?h) = Some d'" "idle_after (dsk k) d'"
    "sectors d' = sectors_put (sectors (dsk k)) ?s 1 (padded 100 (FileHeader_bytes ?h))"
    using WriteLength_ok [OF assms(2) s(1) _ s(2) len] by auto
  have st: "stores (sectors d') ?s 100 (FileHeader_bytes ?h)"
    using ReadLength_back [OF _ len, of "sectors (dsk k)" ?s] len' unfolding stores_def d'(3) by simp
  obtain i where i: "findInodeIndex (metaTable k) (hdr_id (hdr f)) = Some i" "mt_inode it = hdr_id (hdr f)"
    "metaTable k ! i = it" using mt_itemE [OF assms(6)] by metis
  have il: "i < length (metaTable k)" using findInodeIndex_bound [OF i(1)] by simp
  let ?t = "(metaTable k)[i := it\<lparr>mt_modified := clock (dsk k)\<rparr>]"
  have "findInodeIndex ?t (hdr_id (hdr f)) = Some i"
    by (subst findInodeIndex_update) (use i in auto)
  then have "checkLastModified ?t (hdr_id ?h) (last_modified ?h) = Some True"
    using il by (simp add: checkLastModified_def)
  moreover have "finish_write k f = Some (f\<lparr>hdr := ?h\<rparr>, k\<lparr>dsk := d', metaTable := ?t\<rparr>)"
    using d'(1) fsec i assms(1)
    by (simp add: finish_write_def setLastModified_def disk_do_def on_table_def FileHeader_writeBack_def
        write_object_def MetaTable_setLastModified_def)
  moreover have out: "sectors d' k' = sectors (dsk k) k'" if "k' \<noteq> ?s" for k'
    using that unfolding d'(3) by (intro sectors_put_out) auto
  have "\<forall>k'. \<not> (96 \<le> k' \<and> k' < 128) \<longrightarrow> \<not> (608 \<le> k' \<and> k' < 640) \<longrightarrow> sectors d' k' = sectors (dsk k) k'"
    using out s(3) by metis
  moreover have "after_write k f (k\<lparr>dsk := d', metaTable := ?t\<rparr>) (f\<lparr>hdr := ?h\<rparr>)"
  proof -
    have "mt_item ?t = (mt_item (metaTable k))(hdr_id (hdr f) := Some (it\<lparr>mt_modified := clock (dsk k)\<rparr>))"
      by (rule mt_item_update [OF i(1)]) (simp add: i(2))
    moreover have "header_ok ?h" if "header_ok (hdr f)" using that clock_range by (simp add: header_ok_def)
    moreover have "sectors d' (inode_sector i) = sectors (dsk k) (inode_sector i)"
      if "1 \<le> i \<and> i \<le> 64 \<and> i \<noteq> hdr_id (hdr f)" for i
      using inode_sector_inj [of i "hdr_id (hdr f)"] that assms(3) by (intro out) blast
    ultimately show ?thesis using st d'(2) assms(6) unfolding after_write_def by simp
  qed
  ultimately show ?thesis using that d'(2) by blast
qed

text \<open>What a write does to an array of bytes: it replaces a part, and extends it at the end.\<close>

definition overwrite :: "byte list \<Rightarrow> int \<Rightarrow> byte list \<Rightarrow> byte list" where
  "overwrite old position bytes =
     take (nat position) old @ bytes @ drop (nat position + length bytes) old"

lemma refresh_current: "file_inv k cf f fs \<Longrightarrow> refresh k f = Some (f, k)"
  by (simp add: refresh_def file_inv_def)

lemma file_contents_length:
  assumes "file_inv k cf f fs" and "disk_ok (dsk k)"
  shows "length (contents (sectors (dsk k)) fs) = 1024 * length fs"
    and "numBytes (hdr f) \<le> 1024 * int (length fs)" and "int (length fs) = divRoundUp (numBytes (hdr f)) 1024"
proof -
  show "length (contents (sectors (dsk k)) fs) = 1024 * length fs"
    by (rule contents_length [OF assms(2) file_inv_frags [OF assms(1)]])
  show n: "int (length fs) = divRoundUp (numBytes (hdr f)) 1024"
    using assms(1) by (simp add: file_inv_def direct_file_def)
  show "numBytes (hdr f) \<le> 1024 * int (length fs)"
    using divRoundUp_bounds(1) [of "numBytes (hdr f)" 1024] assms(1) n by (simp add: file_inv_def mult.commute)
qed

text \<open>Reading from the first fragment on gives the bytes of the file.\<close>

lemma ReadAt_ok:
  assumes "fs_inv k cs cf" and "file_inv k cf f fs" and "0 \<le> position" and "position < 1024" and "0 \<le> n"
  shows "\<exists>d'. ReadAt k f n position =
      Some (take (nat n) (drop (nat position) (file_bytes k f fs)), f, k\<lparr>dsk := d'\<rparr>) \<and>
    idle_after (dsk k) d' \<and> sectors d' = sectors (dsk k)"
proof -
  let ?len = "numBytes (hdr f)" and ?C = "contents (sectors (dsk k)) fs"
  have ok: "disk_ok (dsk k)" and sb: "superBlock k = format_super_block" using assms(1) by (auto simp: fs_inv_def)
  note cl = file_contents_length [OF assms(2) ok]
  note g = direct_file_gather(1) [where sif = "1024 sdiv SectorSize" and d = "dsk k"]
  have df: "direct_file cf (hdr f) fs" and l0: "0 \<le> ?len" using assms(2) by (auto simp: file_inv_def)
  have kd: "k\<lparr>dsk := dsk k\<rparr> = k" by simp
  show ?thesis
  proof (cases "n \<le> 0 \<or> position \<ge> ?len")
    case True
    then have "take (nat n) (drop (nat position) (file_bytes k f fs)) = []"
      by (auto simp: file_bytes_def)
    moreover have "ReadAt k f n position = Some ([], f, k)"
      using True by (simp add: ReadAt_def refresh_current [OF assms(2)] FileLength_def)
    ultimately show ?thesis using ok by (intro exI [of _ "dsk k"]) simp
  next
    case False
    define n' where "n' = (if position + n \<ge> ?len then ?len - position else n)"
    define e where "e = nat ((position + n' - 1) div 1024)"
    have n': "0 < n'" "position + n' \<le> ?len" using False by (auto simp: n'_def)
    have e: "(position + n' - 1) div 1024 = int e" using assms(3) n' by (simp add: e_def pos_imp_zdiv_nonneg_iff)
    note dm = div_mult_mod_eq [of "position + n' - 1" 1024, unfolded e]
    have md: "0 \<le> (position + n' - 1) mod 1024" "(position + n' - 1) mod 1024 < 1024" by simp_all
    have el: "position + n' \<le> 1024 * int (Suc e)" using dm md by simp
    have "int e * 1024 < int (length fs) * 1024" using dm md n'(2) cl(2) by linarith
    then have "int e < int (length fs)" by simp
    then have ef: "Suc e \<le> length fs" by simp
    have p0: "position div 1024 = 0" using assms(3,4) by simp
    let ?buf = "replicate (nat ((int e - 0 + 1) * 1024)) (0 :: byte)"
    obtain d' where d': "read_frags 1024 fs 0 [0..int (Suc e) - 1] ?buf (dsk k) =
        Some (contents (sectors (dsk k)) (take (Suc e) fs) @ drop (1024 * Suc e) ?buf, d')"
      "idle_after (dsk k) d'" "sectors d' = sectors (dsk k)"
      using read_frags_ok [OF ok file_inv_frags [OF assms(2)], of 0 "Suc e" ?buf] ef by (auto simp: nat_add_distrib nat_mult_distrib)
    let ?B = "contents (sectors (dsk k)) (take (Suc e) fs)"
    have B: "?B = take (1024 * Suc e) ?C"
    proof -
      have "length ?B = 1024 * Suc e"
        using contents_length [OF ok, of "take (Suc e) fs"] file_inv_frags [OF assms(2)] ef
        by (auto dest: in_set_takeD)
      moreover have "?C = ?B @ contents (sectors (dsk k)) (drop (Suc e) fs)"
        by (metis append_take_drop_id contents_simps(3))
      ultimately show ?thesis by simp
    qed
    have lb: "length (contents (sectors (dsk k)) (take (Suc e) fs)) = 1024 * Suc e"
      unfolding B using cl(1) ef by simp
    have get: "bytes_get ?B position n' = Some (take (nat n') (drop (nat position) ?B))"
      using assms(3) n'(1) el lb by (simp add: bytes_get_def)
    have "take (nat n') (drop (nat position) ?B) = take (nat n) (drop (nat position) (file_bytes k f fs))"
    proof -
      have "take (nat n') (drop (nat position) ?B) = take (nat n') (drop (nat position) ?C)"
        unfolding B using el assms(3) n'(1) by (simp add: drop_take take_take min_def) linarith
      also have "\<dots> = take (nat n) (drop (nat position) (take (nat ?len) ?C))"
      proof -
        have "nat n' = min (nat n) (nat ?len - nat position)"
          using assms(3,5) False l0 unfolding n'_def by (auto simp: min_def nat_diff_distrib)
        then show ?thesis by (simp add: drop_take min.commute)
      qed
      finally show ?thesis by (simp add: file_bytes_def)
    qed
    moreover have "ReadAt k f n position = Some (take (nat n') (drop (nat position) ?B), f, k\<lparr>dsk := d'\<rparr>)"
      unfolding ReadAt_def refresh_current [OF assms(2)] bind.bind_lunit prod.case Let_def FileLength_def
        n'_def [symmetric]
      using False d'(1) get assms(3,4) e n' g [OF df] sb p0
      by (simp add: divRoundDown_def on_disk_def kd)
    ultimately show ?thesis using d'(2,3) by auto
  qed
qed

end
