(* ===== verification/FileWrite.thy ===== *)
theory FileWrite
  imports OpenFile_Correct
begin

text \<open>
  \<open>OpenFile::WriteAt\<close> implements writing into an array of bytes: the space comes from \<open>Allocate\<close>,
  the fragments in front of the written ones move to their new places, and the rest is read, changed
  in memory and written back.
\<close>

lemma take_append3:
  "length X = p \<Longrightarrow> length bs = n \<Longrightarrow> p + n \<le> N \<Longrightarrow> take N (X @ bs @ Y) = X @ bs @ take (N - p - n) Y"
  by simp

lemma overwrite_pieces:
  assumes "length A = a" and "a \<le> p" and "p \<le> L" and "L \<le> length (A @ C)" and "length bs = n"
    and "N = max (p + n) L"
  shows "take N (A @ take (p - a) (C @ Z) @ bs @ drop (p - a + n) (C @ Z)) =
    take p (take L (A @ C)) @ bs @ drop (p + n) (take L (A @ C))"
proof -
  have pre: "A @ take (p - a) (C @ Z) = take p (take L (A @ C))"
    using assms(1-4) by (simp add: min_def)
  have post: "drop (p - a + n) (C @ Z) = drop (p + n) (A @ C @ Z)"
    using assms(1,2) by simp
  have lp: "length (take p (take L (A @ C))) = p" using assms(3,4) by simp
  have "take N (A @ take (p - a) (C @ Z) @ bs @ drop (p - a + n) (C @ Z)) =
      take N (take p (take L (A @ C)) @ bs @ drop (p + n) (A @ C @ Z))"
    unfolding pre [symmetric] post by (simp only: append_assoc)
  also have "\<dots> = take p (take L (A @ C)) @ bs @ take (N - p - n) (drop (p + n) (A @ C @ Z))"
    by (rule take_append3 [OF lp assms(5)]) (simp add: assms(6))
  also have "take (N - p - n) (drop (p + n) (A @ C @ Z)) = drop (p + n) (take N (A @ C @ Z))"
    by (simp only: drop_take diff_diff_left)
  also have "\<dots> = drop (p + n) (take L (A @ C))"
  proof (cases "p + n \<le> L")
    case True
    then have "N = L" using assms(6) by simp
    moreover have "take L (A @ C @ Z) = take L (A @ C)"
    proof -
      have "take L ((A @ C) @ Z) = take L (A @ C)" using assms(4) by (subst take_append) simp
      then show ?thesis by (simp only: append_assoc)
    qed
    ultimately show ?thesis by (simp only:)
  next
    case False
    then have "N = p + n" using assms(6) by simp
    then show ?thesis using False by simp
  qed
  finally show ?thesis .
qed

text \<open>The three loops of \<open>WriteAt\<close>, one after another.\<close>

definition transfer ::
    "int list \<Rightarrow> int list \<Rightarrow> int \<Rightarrow> int \<Rightarrow> byte list \<Rightarrow> disk \<Rightarrow> disk option" where
  "transfer old new first off bytes d = do {
     d \<leftarrow> move_frags 1024 old new [0..first - 1] d;
     let buf = replicate (nat ((int (length new) - first) * 1024)) 0;
     (buf, d) \<leftarrow> read_frags 1024 old first [first..int (length old) - 1] buf d;
     buf \<leftarrow> bytes_put buf off bytes;
     write_frags 1024 new first [first..int (length new) - 1] buf d }"

lemma transfer_ok:
  assumes "disk_ok d" and "\<forall>n \<in> set old. frag_ok n" and "\<forall>n \<in> set new. frag_ok n" and "distinct new"
    and "no_clobber old new" and "first \<le> length old" and "length old \<le> length new"
    and "off + length bytes \<le> 1024 * (length new - first)"
  obtains d' where "transfer old new (int first) (int off) bytes d = Some d'" and "idle_after d d'"
    and "contents (sectors d') new = contents (sectors d) (take first old) @
      (let b = contents (sectors d) (drop first old) @ replicate (1024 * (length new - length old)) 0
       in take off b @ bytes @ drop (off + length bytes) b)"
    and "\<forall>n. n \<notin> set new \<longrightarrow> frag (sectors d') n = frag (sectors d) n"
    and "\<forall>k. \<not> covers new k \<longrightarrow> sectors d' k = sectors d k"
proof -
  let ?m = "length old - first" and ?Z = "replicate (1024 * (length new - length old)) (0 :: byte)"
  let ?buf = "replicate (1024 * (length new - first)) (0 :: byte)"
  obtain d1 where d1: "move_frags 1024 old new [0..int first - 1] d = Some d1" "idle_after d d1"
    "\<forall>i < first. frag (sectors d1) (new ! i) = frag (sectors d) (old ! i)"
    "\<forall>j. first \<le> j \<and> j < length old \<longrightarrow> frag (sectors d1) (old ! j) = frag (sectors d) (old ! j)"
    "\<forall>n. n \<notin> set new \<longrightarrow> frag (sectors d1) n = frag (sectors d) n"
    "\<forall>k. \<not> covers new k \<longrightarrow> sectors d1 k = sectors d k"
    using move_frags_ok [OF assms(1-6) le_trans [OF assms(6,7)]] by blast
  have rest: "contents (sectors d1) (drop first old) = contents (sectors d) (drop first old)"
    by (rule contents_cong) (use d1(4) in \<open>auto simp: in_set_conv_nth\<close>)
  have up: "int first + int ?m - 1 = int (length old) - 1"
    "int first + int (length new - first) - 1 = int (length new) - 1" using assms(6,7) by simp_all
  have le: "first + ?m \<le> length old" "1024 * ?m \<le> length ?buf" using assms(6,7) by simp_all
  obtain d2 where d2: "read_frags 1024 old (int first) [int first..int (length old) - 1] ?buf d1 =
      Some (contents (sectors d1) (drop first old) @ drop (1024 * ?m) ?buf, d2)"
    "idle_after d1 d2" "sectors d2 = sectors d1"
    using read_frags_ok [OF idle_after_ok [OF d1(2)] assms(2) le] unfolding up by auto
  let ?B = "contents (sectors d) (drop first old) @ ?Z"
  have z: "drop (1024 * ?m) ?buf = ?Z"
  proof -
    have "1024 * (length new - first) - 1024 * ?m = 1024 * (length new - length old)"
      using assms(6,7) by (simp add: diff_mult_distrib2)
    then show ?thesis by (simp add: drop_replicate)
  qed
  have lB: "length ?B = 1024 * (length new - first)"
  proof -
    have "length (contents (sectors d) (drop first old)) = 1024 * (length old - first)"
      using contents_length [OF assms(1), of "drop first old"] assms(2) by (auto dest: in_set_dropD)
    then show ?thesis using assms(6,7) by (simp add: diff_mult_distrib2)
  qed
  define P where "P = take off ?B @ bytes @ drop (off + length bytes) ?B"
  have put: "bytes_put ?B (int off) bytes = Some P" using lB assms(8) by (simp add: bytes_put_def P_def)
  have lP: "length P = 1024 * (length new - first)" using bytes_put_length [OF put] lB by simp
  have le3: "first + (length new - first) \<le> length new" "1024 * (length new - first) \<le> length P"
    using assms(6,7) lP by simp_all
  obtain d3 where d3: "write_frags 1024 new (int first) [int first..int (length new) - 1] P d2 = Some d3"
    "idle_after d2 d3" "contents (sectors d3) (drop first new) = P"
    "\<forall>n. n \<notin> set (drop first new) \<longrightarrow> frag (sectors d3) n = frag (sectors d2) n"
    "\<forall>k. \<not> covers new k \<longrightarrow> sectors d3 k = sectors d2 k"
    using write_frags_ok [OF idle_after_ok [OF d2(2)] assms(3,4) le3] lP unfolding up by (auto simp del: take_drop)
  have front: "contents (sectors d3) (take first new) = contents (sectors d) (take first old)"
  proof -
    have eq: "frag (sectors d3) (new ! i) = frag (sectors d) (old ! i)" if "i < first" for i
    proof -
      have "new ! i \<notin> set (drop first new)"
        using that assms(4,6,7) by (auto simp: in_set_conv_nth nth_eq_iff_index_eq)
      then show ?thesis using d3(4) d2(3) d1(3) that by simp
    qed
    have "map (frag (sectors d3)) (take first new) = map (frag (sectors d)) (take first old)"
    proof (rule nth_equalityI)
      show "length (map (frag (sectors d3)) (take first new)) = length (map (frag (sectors d)) (take first old))"
        using assms(6,7) by simp
      show "map (frag (sectors d3)) (take first new) ! i = map (frag (sectors d)) (take first old) ! i"
        if "i < length (map (frag (sectors d3)) (take first new))" for i
        using that assms(6,7) eq [of i] by simp
    qed
    then show ?thesis by (simp add: contents_def)
  qed
  have "contents (sectors d3) new = contents (sectors d) (take first old) @ P"
    using front d3(3) contents_simps(3) [of "sectors d3" "take first new" "drop first new"] by simp
  moreover have "transfer old new (int first) (int off) bytes d = Some d3"
  proof -
    have "nat ((int (length new) - int first) * 1024) = 1024 * (length new - first)" by simp
    then show ?thesis
      unfolding transfer_def Let_def using d1(1) d2(1) d3(1) put z rest by simp
  qed
  moreover have "idle_after d d3" using d1(2) d2(2) d3(2) idle_after_trans by blast
  moreover have "\<forall>n. n \<notin> set new \<longrightarrow> frag (sectors d3) n = frag (sectors d) n"
    using d3(4) d2(3) d1(5) by (auto dest: in_set_dropD)
  moreover have "\<forall>k. \<not> covers new k \<longrightarrow> sectors d3 k = sectors d k" using d3(5) d2(3) d1(6) by simp
  ultimately show ?thesis using that by (simp add: Let_def P_def)
qed

text \<open>
  What \<open>WriteAt\<close> leaves when it has found the space: a consistent file system, in which the file has
  the new bytes and every other fragment of a file its old contents.
\<close>

definition saved ::
    "fs \<Rightarrow> cylinder_freemap list \<Rightarrow> open_file \<Rightarrow> int list \<Rightarrow> fs \<Rightarrow> open_file \<Rightarrow>
     cylinder_freemap list \<Rightarrow> int list \<Rightarrow> bool" where
  "saved k cf f fs k' f' cf' fs' \<longleftrightarrow>
     file_inv k' cf' f' fs' \<and> after_write k f k' f' \<and>
     (numFragments (hdr f') = numFragments (hdr f) \<longrightarrow> cf' = cf \<and> fs' = fs) \<and>
     (\<forall>x \<in> set fs'. x \<in> set fs \<or> \<not> used cf x) \<and>
     (\<forall>x. 0 \<le> x \<and> x < 128 \<and> x \<notin> set fs \<and> x \<notin> set fs' \<longrightarrow> used cf' x = used cf x) \<and>
     map inode_free_map cf' = map inode_free_map cf \<and>
     (\<forall>x. 0 \<le> x \<and> x < 128 \<and> 16 \<le> x mod 64 \<and> x \<notin> set fs \<and> x \<notin> set fs' \<longrightarrow>
        frag (sectors (dsk k')) x = frag (sectors (dsk k)) x)"

definition written ::
    "fs \<Rightarrow> cylinder_freemap list \<Rightarrow> open_file \<Rightarrow> int list \<Rightarrow> int \<Rightarrow> byte list \<Rightarrow> fs \<Rightarrow> open_file \<Rightarrow>
     cylinder_freemap list \<Rightarrow> int list \<Rightarrow> bool" where
  "written k cf f fs position bytes k' f' cf' fs' \<longleftrightarrow>
     saved k cf f fs k' f' cf' fs' \<and> file_bytes k' f' fs' = overwrite (file_bytes k f fs) position bytes"

lemma saved_others:
  assumes "saved k cf f fs k' f' cf' fs'" and "0 \<le> x" and "x < 128" and "16 \<le> x mod 64" and "used cf x" and "x \<notin> set fs"
  shows "used cf' x" and "x \<notin> set fs'" and "frag (sectors (dsk k')) x = frag (sectors (dsk k)) x"
  using assms by (auto simp: saved_def)

text \<open>The space that \<open>Allocate\<close> finds, as \<open>WriteAt\<close> needs it.\<close>

definition space_for ::
    "cylinder_summary list \<Rightarrow> cylinder_freemap list \<Rightarrow> disk \<Rightarrow> file_header \<Rightarrow> int list \<Rightarrow> int \<Rightarrow>
     cylinder_freemap list \<Rightarrow> disk \<Rightarrow> file_header \<Rightarrow> int list \<Rightarrow> bool" where
  "space_for cs cf d h fs N cf' d' h' fs' \<longleftrightarrow>
     direct_file cf' h' fs' \<and> numBytes h' = N \<and> numFragments h' = divRoundUp N 1024 \<and>
     hdr_id h' = hdr_id h \<and> no_clobber fs fs' \<and> length fs \<le> length fs' \<and>
     (\<forall>f \<in> set fs'. f \<in> set fs \<or> \<not> used cf f) \<and>
     (\<forall>f. 0 \<le> f \<and> f < 128 \<longrightarrow> used cf' f = (f \<in> set fs' \<or> used cf f \<and> f \<notin> set fs)) \<and>
     map inode_free_map cf' = map inode_free_map cf \<and>
     control_on_disk (sectors d') cs cf' \<and> idle_after d d' \<and>
     (\<forall>k. k \<notin> control_sectors \<longrightarrow> sectors d' k = sectors d k) \<and> (header_ok h \<longrightarrow> header_ok h') \<and>
     (divRoundUp N 1024 = numFragments h \<longrightarrow> cf' = cf \<and> fs' = fs)"

lemma Allocate_space:
  assumes "disk_ok d" and "control_on_disk (sectors d) cs cf" and "direct_file cf h fs"
    and "numFragments h = divRoundUp (numBytes h) 1024" and "0 \<le> numBytes h" and "numBytes h \<le> N"
    and "divRoundUp N 1024 \<le> 16" and "0 \<le> b"
  shows "\<exists>r h' d'. Allocate format_super_block b h N d = Some (r, h', d') \<and>
    (if r then \<exists>cf' fs'. space_for cs cf d h fs N cf' d' h' fs'
     else h' = h \<and> idle_after d d' \<and> sectors d' = sectors d \<and> numFragments h < divRoundUp N 1024 \<and>
       int (card (free_blocks cf)) \<le> divRoundUp N 1024 div 4 - numFragments h div 4)"
proof -
  let ?n = "divRoundUp N 1024"
  have N0: "0 \<le> N" using assms(5,6) by simp
  obtain r h' d' where a: "Allocate format_super_block b h N d = Some (r, h', d')"
    "if ?n \<le> numFragments h
     then r \<and> h' = h\<lparr>numBytes := N\<rparr> \<and> idle_after d d' \<and> sectors d' = sectors d
     else if r then \<exists>fs' cf'. grown h fs ?n N cs cf d h' d' fs' cf'
     else h' = h \<and> idle_after d d' \<and> sectors d' = sectors d \<and>
       int (card (free_blocks cf)) \<le> ?n div 4 - numFragments h div 4"
    using Allocate_spec [OF assms(1-3) N0 assms(7,8)] by blast
  have lf: "int (length fs) = numFragments h" using assms(3) by (simp add: direct_file_def)
  have "N \<le> 16384" using divRoundUp_le_iff [OF N0, of 1024 16] assms(7) by simp
  then have rN: "int_range N" using N0 by (simp add: int_range_def)
  show ?thesis
  proof (cases "?n \<le> numFragments h")
    case True
    have "numFragments h \<le> ?n"
      using divRoundUp_le_iff [of "numBytes h" 1024 ?n] divRoundUp_bounds(1) [OF N0, of 1024] assms(4,5,6) by simp
    then have "numFragments h = ?n" using True by simp
    moreover have "used cf f = (f \<in> set fs \<or> used cf f \<and> f \<notin> set fs)" if "0 \<le> f \<and> f < 128" for f
      using assms(3) by (auto simp: direct_file_def owned_def)
    moreover have "header_ok h \<longrightarrow> header_ok (h\<lparr>numBytes := N\<rparr>)" using rN by (simp add: header_ok_def)
    ultimately have "space_for cs cf d h fs N cf d' h' fs"
      using a(2) True assms(2,3) by (auto simp: space_for_def direct_file_def no_clobber_def)
    then show ?thesis using a True by auto
  next
    case False
    show ?thesis
    proof (cases r)
      case True
      then obtain fs' cf' where g: "grown h fs ?n N cs cf d h' d' fs' cf'" using a(2) False by auto
      have l: "int (length fs') = ?n" using g by (simp add: grown_def)
      then have "length fs' \<le> 16" "length fs \<le> length fs'" using assms(7) False lf by simp_all
      moreover have "header_ok h \<longrightarrow> header_ok h'"
      proof -
        have "h' = h\<lparr>numBytes := N, numFragments := ?n, dataFragments := direct_array fs'\<rparr>"
          "\<forall>x \<in> set fs'. 0 \<le> x \<and> x < 128" using g by (auto simp: grown_def owned_def)
        then show ?thesis using rN assms(7) divRoundUp_bounds(3) [OF N0, of 1024] \<open>length fs' \<le> 16\<close>
          by (auto simp: header_ok_def direct_array_def int_range_def)
      qed
      ultimately have "space_for cs cf d h fs N cf' d' h' fs'"
        using g False by (auto simp: grown_def space_for_def direct_file_def direct_array_def changed_def)
      then show ?thesis using a True by auto
    qed (use a False in auto)
  qed
qed

lemma transfer_parts:
  assumes "transfer old new first off bytes d = Some d'"
  obtains d1 buf d2 buf' where "move_frags 1024 old new [0..first - 1] d = Some d1"
    and "read_frags 1024 old first [first..int (length old) - 1]
      (replicate (nat ((int (length new) - first) * 1024)) 0) d1 = Some (buf, d2)"
    and "bytes_put buf off bytes = Some buf'"
    and "write_frags 1024 new first [first..int (length new) - 1] buf' d2 = Some d'"
  using assms unfolding transfer_def Let_def by (auto simp: bind_Some_conv)

lemma WriteAt_eq:
  assumes "superBlock k = format_super_block" and "refresh k f = Some (f, k)" and "direct_file cf (hdr f) fs"
    and "0 \<le> position" and "position \<le> numBytes (hdr f)" and "n = int (length bytes)"
    and "Allocate format_super_block (below k) (hdr f) (max (position + n) (numBytes (hdr f))) (dsk k) = Some (r, h', d1)"
    and "r \<Longrightarrow> direct_file cf' h' fs'"
    and "r \<Longrightarrow> transfer fs fs' (position div 1024) (position - position div 1024 * 1024) bytes d1 = Some d2"
    and "r \<Longrightarrow> finish_write (k\<lparr>dsk := d2\<rparr>) (f\<lparr>hdr := h'\<rparr>) = Some (f', k')"
  shows "WriteAt k f bytes n position = Some (if r then (n, f', k') else (0, f\<lparr>hdr := h'\<rparr>, k\<lparr>dsk := d1\<rparr>))"
proof -
  have N: "(if position + n > numBytes (hdr f) then position + n else numBytes (hdr f)) =
      max (position + n) (numBytes (hdr f))" by simp
  have al: "on_disk (\<lambda>d. map_option (\<lambda>(r, h, d). ((r, h), d))
      (Allocate (superBlock k) (below k) (hdr f) (max (position + n) (numBytes (hdr f))) d)) k =
      Some ((r, h'), k\<lparr>dsk := d1\<rparr>)"
    unfolding assms(1) on_disk_def assms(7) by simp
  have kd: "k\<lparr>dsk := dsk k\<rparr> = k" by simp
  have lf: "int (length fs) = numFragments (hdr f)" using assms(3) by (simp add: direct_file_def)
  have ga: "on_disk (gather_fragments sif (hdr f)) k = Some (fs, k)" for sif
    using direct_file_gather(1) [OF assms(3)] by (simp add: on_disk_def)
  show ?thesis
  proof (cases r)
    case True
    have lf': "int (length fs') = numFragments h'" using assms(8) [OF True] by (simp add: direct_file_def)
    have ga': "on_disk (gather_fragments sif h') (k\<lparr>dsk := d1\<rparr>) = Some (fs', k\<lparr>dsk := d1\<rparr>)" for sif
      using direct_file_gather(1) [OF assms(8) [OF True]] by (simp add: on_disk_def)
    obtain e1 buf e2 buf' where t: "move_frags 1024 fs fs' [0..position div 1024 - 1] d1 = Some e1"
      "read_frags 1024 fs (position div 1024) [position div 1024..int (length fs) - 1]
        (replicate (nat ((int (length fs') - position div 1024) * 1024)) 0) e1 = Some (buf, e2)"
      "bytes_put buf (position - position div 1024 * 1024) bytes = Some buf'"
      "write_frags 1024 fs' (position div 1024) [position div 1024..int (length fs') - 1] buf' e2 = Some d2"
      by (rule transfer_parts [OF assms(9) [OF True]])
    have mv: "move_frags 1024 fs fs' [] d1 = Some e1" if "\<not> 0 < numBytes (hdr f)"
      using that t(1) assms(4,5) by simp
    have by_get: "bytes_get bytes 0 n = Some bytes" using assms(6) by (simp add: bytes_get_def)
    show ?thesis
      unfolding WriteAt_def assms(2) bind.bind_lunit prod.case Let_def FileLength_def N al ga
      using True ga' by_get t mv assms(10) [OF True] lf lf' assms(4)
      by (simp add: assms(1) divRoundDown_def disk_do_def on_disk_def del: upto_rec_numeral)
  next
    case False
    then show ?thesis
      unfolding WriteAt_def assms(2) bind.bind_lunit prod.case Let_def FileLength_def N al ga
      by (simp add: assms(1))
  qed
qed

text \<open>The fragments of files are neither control nor i-node sectors.\<close>

lemma data_frag_same:
  assumes "\<And>k. k \<notin> control_sectors \<Longrightarrow> \<not> (96 \<le> k \<and> k < 128) \<Longrightarrow> \<not> (608 \<le> k \<and> k < 640) \<Longrightarrow> g k = f k"
    and "0 \<le> n" and "n < 128" and "16 \<le> n mod 64"
  shows "frag g n = frag f n"
  by (rule frag_cong) (rule assms(1); use data_frag_sectors [OF assms(2-4)] in blast)

lemma covers_data:
  assumes "\<forall>n \<in> set ns. 0 \<le> n \<and> n < 128 \<and> 16 \<le> n mod 64" and "covers ns k"
  shows "k \<notin> control_sectors" and "\<not> (96 \<le> k \<and> k < 128)" and "\<not> (608 \<le> k \<and> k < 640)"
  using assms data_frag_sectors unfolding covers_def by blast+

lemma WriteAt_spec:
  assumes "fs_inv k cs cf" and "file_inv k cf f fs" and "0 \<le> position" and "position \<le> numBytes (hdr f)"
    and "n = int (length bytes)" and "position + n \<le> 16384"
  shows "\<exists>r f' k'. WriteAt k f bytes n position = Some (r, f', k') \<and>
    (r = n \<and> (\<exists>cf' fs'. fs_inv k' cs cf' \<and> written k cf f fs position bytes k' f' cf' fs') \<or>
     r = 0 \<and> f' = f \<and> (\<exists>d'. k' = k\<lparr>dsk := d'\<rparr> \<and> idle_after (dsk k) d' \<and> sectors d' = sectors (dsk k)) \<and>
       numFragments (hdr f) < divRoundUp (max (position + n) (numBytes (hdr f))) 1024 \<and>
       int (card (free_blocks cf)) \<le> divRoundUp (max (position + n) (numBytes (hdr f))) 1024 div 4 - numFragments (hdr f) div 4)"
proof -
  let ?L = "numBytes (hdr f)" and ?h = "hdr f"
  define N where "N = (if position + n > ?L then position + n else ?L)"
  have N: "N = max (position + n) ?L" by (simp add: N_def)
  have ok: "disk_ok (dsk k)" "control_on_disk (sectors (dsk k)) cs cf" and sb: "superBlock k = format_super_block"
    and b0: "0 \<le> below k" and ctl: "\<forall>f. 0 \<le> f \<and> f < 128 \<and> f mod 64 < 16 \<longrightarrow> used cf f"
    using assms(1) by (auto simp: fs_inv_def)
  have df: "direct_file cf ?h fs" and L0: "0 \<le> ?L" and nf: "numFragments ?h = divRoundUp ?L 1024"
    using assms(2) by (auto simp: file_inv_def)
  have ids: "1 \<le> hdr_id ?h" "hdr_id ?h \<le> 64" using assms(2) by (auto simp: file_inv_def)
  note g = direct_file_gather
  have N0: "0 \<le> N" "divRoundUp N 1024 \<le> 16"
  proof -
    show "0 \<le> N" using L0 by (simp add: N)
    have "divRoundUp ?L 1024 \<le> 16" using g(2) [OF df] nf by simp
    moreover have "divRoundUp (position + n) 1024 \<le> 16"
      using assms(3,5,6) divRoundUp_le_iff [of "position + n" 1024 16] by simp
    ultimately show "divRoundUp N 1024 \<le> 16" by (simp add: N_def)
  qed
  obtain r h' d1 where al: "Allocate format_super_block (below k) ?h N (dsk k) = Some (r, h', d1)"
    "if r then \<exists>cf' fs'. space_for cs cf (dsk k) ?h fs N cf' d1 h' fs'
     else h' = ?h \<and> idle_after (dsk k) d1 \<and> sectors d1 = sectors (dsk k) \<and> numFragments ?h < divRoundUp N 1024 \<and>
       int (card (free_blocks cf)) \<le> divRoundUp N 1024 div 4 - numFragments ?h div 4"
    using Allocate_space [OF ok df nf L0 _ N0(2) b0] N by auto
  note eq = WriteAt_eq [OF sb refresh_current [OF assms(2)] df assms(3-5) al(1) [unfolded N]]
  show ?thesis
  proof (cases r)
    case False
    then show ?thesis using eq al(2) unfolding N by (intro exI [of _ 0] exI [of _ f]) auto
  next
    case True
    then obtain cf' fs' where sp: "space_for cs cf (dsk k) ?h fs N cf' d1 h' fs'" using al(2) by auto
    define p where "p = nat position"
    have p: "position = int p" "p \<le> nat ?L" using assms(3,4) L0 by (simp_all add: p_def)
    let ?first = "p div 1024" and ?off = "p mod 1024"
    have df': "direct_file cf' h' fs'" and nB: "numBytes h' = N" and nF: "numFragments h' = divRoundUp N 1024"
      and nc: "no_clobber fs fs'" and le: "length fs \<le> length fs'"
      and new: "\<forall>f \<in> set fs'. f \<in> set fs \<or> \<not> used cf f"
      and us: "\<forall>f. 0 \<le> f \<and> f < 128 \<longrightarrow> used cf' f = (f \<in> set fs' \<or> used cf f \<and> f \<notin> set fs)"
      and ctl1: "control_on_disk (sectors d1) cs cf'" and i1: "idle_after (dsk k) d1"
      and same1: "\<forall>k'. k' \<notin> control_sectors \<longrightarrow> sectors d1 k' = sectors (dsk k) k'"
      and id': "hdr_id h' = hdr_id ?h" and hok: "header_ok ?h \<longrightarrow> header_ok h'"
      using sp by (auto simp: space_for_def)
    have fok: "\<forall>n \<in> set fs. frag_ok n" by (rule file_inv_frags [OF assms(2)])
    have fok': "\<forall>n \<in> set fs'. frag_ok n" and ds: "distinct fs'" and lf': "int (length fs') = divRoundUp N 1024"
      using df' nF by (auto simp: direct_file_def owned_def frag_ok_def)
    note cl = file_contents_length [OF assms(2) ok(1)]
    have "1024 * ?first \<le> p" by simp
    then have "1024 * int ?first \<le> 1024 * int (length fs)" using p assms(4) cl(2) by linarith
    then have fl: "?first \<le> length fs" by simp
    have "N \<le> 1024 * int (length fs')" using divRoundUp_bounds(1) [OF N0(1), of 1024] lf' by simp
    then have "p + length bytes \<le> 1024 * length fs'" using N p assms(5) by simp
    then have room: "?off + length bytes \<le> 1024 * (length fs' - ?first)"
      using mult_div_mod_eq [of 1024 p] unfolding diff_mult_distrib2 by linarith
    obtain d2 where d2: "transfer fs fs' (int ?first) (int ?off) bytes d1 = Some d2" "idle_after d1 d2"
      "contents (sectors d2) fs' = contents (sectors d1) (take ?first fs) @
        (let b = contents (sectors d1) (drop ?first fs) @ replicate (1024 * (length fs' - length fs)) 0
         in take ?off b @ bytes @ drop (?off + length bytes) b)"
      "\<forall>n. n \<notin> set fs' \<longrightarrow> frag (sectors d2) n = frag (sectors d1) n"
      "\<forall>k. \<not> covers fs' k \<longrightarrow> sectors d2 k = sectors d1 k"
      by (rule transfer_ok [OF idle_after_ok [OF i1] fok fok' ds nc fl le room])
    have data: "\<forall>n \<in> set fs. 0 \<le> n \<and> n < 128 \<and> 16 \<le> n mod 64"
      using fok assms(2) by (auto simp: file_inv_def frag_ok_def)
    have data': "\<forall>n \<in> set fs'. 0 \<le> n \<and> n < 128 \<and> 16 \<le> n mod 64"
    proof
      fix n assume n: "n \<in> set fs'"
      then have "0 \<le> n \<and> n < 128" using fok' by (auto simp: frag_ok_def)
      moreover have "16 \<le> n mod 64" using n new data ctl calculation not_le by metis
      ultimately show "0 \<le> n \<and> n < 128 \<and> 16 \<le> n mod 64" by simp
    qed
    obtain it where it: "mt_item (metaTable k) (hdr_id ?h) = Some it"
      using assms(2) by (auto simp: file_inv_def checkLastModified_def mt_item_def bind_Some_conv)
    have l16: "length (dataFragments h') = 16" using df' by (simp add: direct_file_def)
    let ?k2 = "k\<lparr>dsk := d2\<rparr>" and ?f2 = "f\<lparr>hdr := h'\<rparr>"
    have pre: "superBlock ?k2 = format_super_block" "disk_ok (dsk ?k2)" "1 \<le> hdr_id (hdr ?f2)"
      "hdr_id (hdr ?f2) \<le> 64" "length (dataFragments (hdr ?f2)) = 16"
      "mt_item (metaTable ?k2) (hdr_id (hdr ?f2)) = Some it"
      using sb idle_after_ok [OF d2(2)] ids l16 it id' by simp_all
    obtain h'' d3 t' where fw0: "finish_write ?k2 ?f2 = Some (?f2\<lparr>hdr := h''\<rparr>, ?k2\<lparr>dsk := d3, metaTable := t'\<rparr>)"
      and h'': "h'' = (hdr ?f2)\<lparr>last_modified := clock (dsk ?k2)\<rparr>" and i3: "idle_after (dsk ?k2) d3"
      and same3: "\<forall>k'. \<not> (96 \<le> k' \<and> k' < 128) \<longrightarrow> \<not> (608 \<le> k' \<and> k' < 640) \<longrightarrow>
        sectors d3 k' = sectors (dsk ?k2) k'"
      and chk: "checkLastModified t' (hdr_id h'') (last_modified h'') = Some True"
      and aw0: "after_write ?k2 ?f2 (?k2\<lparr>dsk := d3, metaTable := t'\<rparr>) (?f2\<lparr>hdr := h''\<rparr>)"
      by (rule finish_write_ok [OF pre])
    have fw: "finish_write ?k2 ?f2 = Some (f\<lparr>hdr := h''\<rparr>, k\<lparr>dsk := d3, metaTable := t'\<rparr>)"
      "h'' = h'\<lparr>last_modified := clock d2\<rparr>" "idle_after d2 d3"
      "\<And>k'. \<not> (96 \<le> k' \<and> k' < 128) \<Longrightarrow> \<not> (608 \<le> k' \<and> k' < 640) \<Longrightarrow> sectors d3 k' = sectors d2 k'"
      using fw0 h'' i3 same3 by simp_all
    let ?k' = "k\<lparr>dsk := d3, metaTable := t'\<rparr>" and ?f' = "f\<lparr>hdr := h''\<rparr>"
    have "WriteAt k f bytes n position = Some (n, ?f', ?k')"
    proof -
      have "transfer fs fs' (position div 1024) (position - position div 1024 * 1024) bytes d1 = Some d2"
        using d2(1) unfolding p(1) zdiv_int minus_div_mult_eq_mod zmod_int by simp
      then show ?thesis using eq [OF df' _ fw(1)] True by simp
    qed
    moreover have "fs_inv ?k' cs cf'"
    proof -
      have "control_on_disk (sectors d3) cs cf'"
      proof (rule control_on_disk_cong [OF ctl1])
        fix s assume s: "s \<in> control_sectors"
        then have "\<not> covers fs' s" using covers_data(1) [OF data'] by blast
        moreover have "\<not> (96 \<le> s \<and> s < 128)" "\<not> (608 \<le> s \<and> s < 640)" using s by (auto simp: control_sectors_def)
        ultimately show "sectors d3 s = sectors d1 s" using fw(4) d2(5) by simp
      qed
      moreover have "used cf' x" if "0 \<le> x \<and> x < 128 \<and> x mod 64 < 16" for x
        using that ctl us data by fastforce
      ultimately show ?thesis using sb b0 fw(3) by (auto simp: fs_inv_def)
    qed
    moreover have "written k cf f fs position bytes ?k' ?f' cf' fs'"
    proof -
      have same: "frag (sectors d1) x = frag (sectors (dsk k)) x" "frag (sectors d3) x = frag (sectors d2) x"
        if "0 \<le> x" "x < 128" "16 \<le> x mod 64" for x
        by (rule data_frag_same; use same1 fw(4) that in blast)+
      let ?C = "contents (sectors (dsk k))"
      have c1: "contents (sectors d1) xs = ?C xs" if "set xs \<subseteq> set fs" for xs
        by (rule contents_cong) (use that data same(1) in blast)
      have "contents (sectors d3) fs' = contents (sectors d2) fs'"
        by (rule contents_cong) (use data' same(2) in blast)
      also have "\<dots> = ?C (take ?first fs) @ take ?off (?C (drop ?first fs) @ replicate (1024 * (length fs' - length fs)) 0) @
          bytes @ drop (?off + length bytes) (?C (drop ?first fs) @ replicate (1024 * (length fs' - length fs)) 0)"
        using d2(3) c1 by (simp add: set_take_subset set_drop_subset Let_def)
      finally have c3: "contents (sectors d3) fs' = \<dots>" .
      have lA: "length (?C (take ?first fs)) = 1024 * ?first"
        using contents_length [OF ok(1), of "take ?first fs"] fok fl by (auto dest: in_set_takeD)
      have AC: "?C (take ?first fs) @ ?C (drop ?first fs) = ?C fs"
        by (metis append_take_drop_id contents_simps(3))
      have "take (nat N) (contents (sectors d3) fs') =
          take p (take (nat ?L) (?C fs)) @ bytes @ drop (p + length bytes) (take (nat ?L) (?C fs))"
        unfolding c3 AC [symmetric] minus_mult_div_eq_mod [symmetric]
        by (rule overwrite_pieces [OF lA _ p(2) _ refl])
          (use AC cl(1,2) N p(1) assms(5) L0 in auto)
      then have "file_bytes ?k' ?f' fs' = overwrite (file_bytes k f fs) position bytes"
        using fw(2) nB p(1) by (simp add: file_bytes_def overwrite_def)
      moreover have "file_inv ?k' cf' ?f' fs'"
        using df' fw(2) chk nB nF N0 ids id' data' by (simp add: file_inv_def direct_file_def)
      moreover have "frag (sectors d3) x = frag (sectors (dsk k)) x"
        if "0 \<le> x \<and> x < 128 \<and> 16 \<le> x mod 64 \<and> x \<notin> set fs \<and> x \<notin> set fs'" for x
        using that same d2(4) by auto
      moreover have "numFragments (hdr ?f') = numFragments ?h \<longrightarrow> cf' = cf \<and> fs' = fs"
        using sp fw(2) nF by (simp add: space_for_def)
      moreover have "map inode_free_map cf' = map inode_free_map cf" using sp by (simp add: space_for_def)
      moreover have "after_write k f ?k' ?f'"
      proof (rule after_write_later)
        show "after_write ?k2 ?f2 ?k' ?f'" using aw0 by simp
        show "idle_after (dsk k) d2" using i1 d2(2) by (rule idle_after_trans)
        show "sectors d2 (inode_sector i) = sectors (dsk k) (inode_sector i)" if i: "1 \<le> i" "i \<le> 64" for i
          using same1 d2(5) inode_sector_range [OF i] covers_data [OF data'] by metis
      qed (use id' hok in auto)
      ultimately show ?thesis using new us by (simp add: written_def saved_def)
    qed
    ultimately show ?thesis by blast
  qed
qed

subsection \<open>What reading and writing promise\<close>

lemma fresh_fs_inv:
  assumes "disk_ok d" and "control_on_disk (sectors d) cs cf" and "fresh_map (cf ! 0)" and "fresh_map (cf ! 1)"
  shows "fs_inv (blank_fs\<lparr>dsk := d\<rparr>) cs cf"
  using assms fresh_used [OF assms(3,4)] by (auto simp: fs_inv_def blank_fs_def)

definition new_file :: open_file where
  "new_file = \<lparr>seekPosition = 0, hdr = empty_header 1\<rparr>"

lemma new_file_inv: "file_inv (blank_fs\<lparr>dsk := d\<rparr>) cf new_file []"
  using empty_header_direct [of cf 1]
  by (simp add: file_inv_def new_file_def blank_fs_def empty_header_def FileHeader_new_def divRoundUp_def
      checkLastModified_def MetaTable_new_def MetaTableItem_new_def)

lemma overwrite_empty [simp]: "overwrite [] 0 bytes = bytes"
  by (simp add: overwrite_def)

text \<open>
  C30. Reading from a position in the first fragment of a file gives the bytes of the file from
  there on, as many as asked for or as there are, and changes no sector of the disk.
\<close>

theorem ReadAt_gives_the_bytes:
  assumes "fs_inv k cs cf" and "file_inv k cf f fs" and "0 \<le> position" and "position < 1024" and "0 \<le> n"
  shows "\<exists>d'. ReadAt k f n position =
      Some (take (nat n) (drop (nat position) (file_bytes k f fs)), f, k\<lparr>dsk := d'\<rparr>) \<and>
    disk_ok d' \<and> sectors d' = sectors (dsk k)"
  using ReadAt_ok [OF assms] by auto


lemma formatted:
  obtains d cf where "format_disk blank_disk = Some d" and "disk_ok d"
    and "fs_inv (blank_fs\<lparr>dsk := d\<rparr>) [fresh_summary, fresh_summary] cf" and "0 < card (free_blocks cf)"
proof -
  obtain d cf where d: "format_disk blank_disk = Some d" "idle_after blank_disk d"
    "control_on_disk (sectors d) [fresh_summary, fresh_summary] cf" "fresh_map (cf ! 0)" "fresh_map (cf ! 1)"
    by (rule format_disk_ok [OF blank_disk_ok])
  have "4 \<in> free_blocks cf" by (auto simp: free_blocks_def fresh_used [OF d(4,5)])
  then have "0 < card (free_blocks cf)" using card_gt_0_iff finite_free_blocks by blast
  then show ?thesis using that d(1) idle_after_ok [OF d(2)] fresh_fs_inv [OF _ d(3-5)] by simp
qed

lemma new_file_bytes [simp]: "file_bytes k new_file [] = []" "numBytes (hdr new_file) = 0"
    "numFragments (hdr new_file) = 0"
  by (simp_all add: file_bytes_def new_file_def empty_header_def FileHeader_new_def)

theorem ReadAt_gives_the_bytes_witness:
  "\<exists>d d'. format_disk blank_disk = Some d \<and>
     ReadAt (blank_fs\<lparr>dsk := d\<rparr>) new_file 10 0 = Some ([], new_file, blank_fs\<lparr>dsk := d'\<rparr>)"
proof -
  obtain d cf where d: "format_disk blank_disk = Some d" "disk_ok d"
    "fs_inv (blank_fs\<lparr>dsk := d\<rparr>) [fresh_summary, fresh_summary] cf" "0 < card (free_blocks cf)"
    by (rule formatted)
  show ?thesis
    using ReadAt_gives_the_bytes [OF d(3) new_file_inv, of 0 10] d(1) by auto
qed


text \<open>
  What \<open>Write\<close> has written is what \<open>Read\<close> reads, after seeking back to where the write began,
  and no other byte is read.
\<close>

theorem Read_after_Write:
  assumes "fs_inv k cs cf" and "file_inv k cf f fs" and "0 \<le> seekPosition f"
    and "seekPosition f \<le> numBytes (hdr f)" and "seekPosition f < 1024"
    and "n = int (length bytes)" and "seekPosition f + n \<le> 16384"
    and "Write k f bytes n = Some (n, f1, k1)" and "0 < n"
  shows "seekPosition f1 = seekPosition f + n \<and>
    (\<exists>k2. Read k1 (Seek f1 (seekPosition f)) n = Some (bytes, f1, k2))"
proof -
  obtain r f' k' where w: "WriteAt k f bytes n (seekPosition f) = Some (r, f', k')"
    "r = n \<and> (\<exists>cf' fs'. fs_inv k' cs cf' \<and> written k cf f fs (seekPosition f) bytes k' f' cf' fs') \<or> r = 0"
    using WriteAt_spec [OF assms(1-4,6,7)] by blast
  have e: "r = n" "k1 = k'" "f1 = f'\<lparr>seekPosition := seekPosition f' + n\<rparr>" using assms(8) w(1) by (auto simp: Write_def)
  obtain cf' fs' where inv: "fs_inv k' cs cf'" and wr: "written k cf f fs (seekPosition f) bytes k' f' cf' fs'"
    using w(2) e(1) assms(9) by auto
  have fi: "file_inv k' cf' f' fs'" and fb: "file_bytes k' f' fs' = overwrite (file_bytes k f fs) (seekPosition f) bytes"
    and sp: "seekPosition f' = seekPosition f" using wr by (auto simp: written_def saved_def after_write_def)
  let ?g = "Seek f1 (seekPosition f)"
  have gi: "file_inv k' cf' ?g fs'" "file_bytes k' ?g fs' = file_bytes k' f' fs'"
    using fi e(3) by (simp_all add: file_inv_def Seek_def file_bytes_def)
  have "length (file_bytes k f fs) = nat (numBytes (hdr f))"
    using file_contents_length [OF assms(2)] assms(1,2) by (auto simp: file_bytes_def fs_inv_def file_inv_def)
  then have "take (nat n) (drop (nat (seekPosition f)) (file_bytes k' f' fs')) = bytes"
    using assms(3,4,6) unfolding fb overwrite_def by (simp add: nat_mono)
  then have "\<exists>k2. ReadAt k' ?g n (seekPosition f) = Some (bytes, ?g, k2)"
    using ReadAt_ok [OF inv gi(1) assms(3,5), of n] gi(2) assms(9) by auto
  then show ?thesis
    using e sp assms(6) by (auto simp: Read_def Seek_def)
qed

theorem Read_after_Write_witness:
  "\<exists>d f1 k1 k2. format_disk blank_disk = Some d \<and>
     Write (blank_fs\<lparr>dsk := d\<rparr>) new_file [104, 105] 2 = Some (2, f1, k1) \<and>
     Read k1 (Seek f1 0) 2 = Some ([104, 105], f1, k2)"
proof -
  obtain d cf where d: "format_disk blank_disk = Some d" "disk_ok d"
    "fs_inv (blank_fs\<lparr>dsk := d\<rparr>) [fresh_summary, fresh_summary] cf" "0 < card (free_blocks cf)"
    by (rule formatted)
  have s: "seekPosition new_file = 0" by (simp add: new_file_def)
  have "divRoundUp (max (0 + 2) 0) 1024 div 4 = 0" by (simp add: divRoundUp_def)
  then obtain f' k' where "WriteAt (blank_fs\<lparr>dsk := d\<rparr>) new_file [104, 105] 2 0 = Some (2, f', k')"
    using WriteAt_spec [OF d(3) new_file_inv, of 0 2 "[104, 105]"] d(4) by auto
  then have w: "Write (blank_fs\<lparr>dsk := d\<rparr>) new_file [104, 105] 2 =
      Some (2, f'\<lparr>seekPosition := seekPosition f' + 2\<rparr>, k')" by (simp add: Write_def s)
  show ?thesis
    using Read_after_Write [OF d(3) new_file_inv _ _ _ _ _ w] w d(1) by (auto simp: s)
qed

end
