(* ===== verification/Directory.thy ===== *)
theory Directory
  imports FileWrite
begin

text \<open>
  \<open>filesys/directory.h\<close>, \<open>directory.cc\<close>: a directory is a table of entries, each an i-node number
  and a name in an array of 32 characters. Names are C strings: what counts is the part before the
  first zero byte, and the bytes behind it are whatever the memory held. Copying a name that does not
  fit ends the run of the model.
\<close>

subsection \<open>The C string functions that the directory uses\<close>

definition cstr :: "byte list \<Rightarrow> byte list" where
  "cstr s = takeWhile (\<lambda>c. c \<noteq> 0) s"

definition terminated :: "byte list \<Rightarrow> bool" where
  "terminated s \<longleftrightarrow> 0 \<in> set s"

definition strlen :: "byte list \<Rightarrow> nat option" where
  "strlen s = (if terminated s then Some (length (cstr s)) else None)"

fun strncmp_eq :: "nat \<Rightarrow> byte list \<Rightarrow> byte list \<Rightarrow> bool option" where
  "strncmp_eq 0 xs ys = Some True"
| "strncmp_eq (Suc n) (x # xs) (y # ys) =
     (if x \<noteq> y then Some False else if x = 0 then Some True else strncmp_eq n xs ys)"
| "strncmp_eq (Suc n) [] ys = None"
| "strncmp_eq (Suc n) xs [] = None"

definition strncpy :: "byte list \<Rightarrow> byte list \<Rightarrow> nat \<Rightarrow> byte list option" where
  "strncpy dst src n = do {
     ASSERT (n \<le> length dst);
     let s = take n (cstr src);
     Some (s @ replicate (n - length s) 0 @ drop n dst) }"

definition copy_name :: "byte list \<Rightarrow> byte list \<Rightarrow> byte list option" where
  "copy_name dst src = do { n \<leftarrow> strlen src; strncpy dst src (n + 1) }"

subsection \<open>Entries and tables\<close>

definition FileNameMaxLen :: nat where
  "FileNameMaxLen = 32"

record dir_entry =
  inode_number :: int
  ename :: "byte list"

record directory =
  tableSize :: int
  table :: "dir_entry list"

definition Directory_new :: directory where
  "Directory_new = \<lparr>tableSize = 0, table = []\<rparr>"

text \<open>\<open>fresh i\<close> is the entry number \<open>i\<close> of an array just allocated, with whatever the memory held.\<close>

type_synonym fresh_entries = "int \<Rightarrow> dir_entry"

definition new_entries :: "fresh_entries \<Rightarrow> int \<Rightarrow> dir_entry list" where
  "new_entries fresh n = map fresh [0..n - 1]"

definition sizeof_entry :: int where
  "sizeof_entry = 36"

definition entry_bytes :: "dir_entry \<Rightarrow> byte list" where
  "entry_bytes e = int_to_bytes (inode_number e) @ ename e"

definition table_bytes :: "dir_entry list \<Rightarrow> byte list" where
  "table_bytes es = concat (map entry_bytes es)"

fun entries_of_bytes :: "nat \<Rightarrow> byte list \<Rightarrow> dir_entry list" where
  "entries_of_bytes 0 bs = []"
| "entries_of_bytes (Suc n) bs =
     \<lparr>inode_number = bytes_to_int (take 4 bs), ename = take 32 (drop 4 bs)\<rparr> #
     entries_of_bytes n (drop 36 bs)"

definition FetchFrom :: "fresh_entries \<Rightarrow> fs \<Rightarrow> open_file \<Rightarrow> (directory \<times> open_file \<times> fs) option" where
  "FetchFrom fresh k file = do {
     let file_length = numBytes (hdr file);
     let n = file_length sdiv sizeof_entry;
     (bytes, file, k) \<leftarrow> ReadAt k file file_length 0;
     raw \<leftarrow> bytes_put (table_bytes (new_entries fresh n)) 0 bytes;
     Some (\<lparr>tableSize = n, table = entries_of_bytes (nat n) raw\<rparr>, file, k) }"

definition WriteBack :: "directory \<Rightarrow> fs \<Rightarrow> open_file \<Rightarrow> (open_file \<times> fs) option" where
  "WriteBack d k file = do {
     (_, file, k) \<leftarrow> WriteDir k file (table_bytes (table d)) (tableSize d * sizeof_entry) 0;
     Some (file, k) }"

fun FindIndex_from :: "dir_entry list \<Rightarrow> byte list \<Rightarrow> int \<Rightarrow> int option" where
  "FindIndex_from [] name i = Some (-1)"
| "FindIndex_from (e # es) name i = do {
     same \<leftarrow> strncmp_eq FileNameMaxLen (ename e) name;
     if same then Some i else FindIndex_from es name (i + 1) }"

definition FindIndex :: "directory \<Rightarrow> byte list \<Rightarrow> int option" where
  "FindIndex d name = FindIndex_from (take (nat (tableSize d)) (table d)) name 0"

definition Directory_Find :: "directory \<Rightarrow> byte list \<Rightarrow> int option" where
  "Directory_Find d name = do {
     i \<leftarrow> FindIndex d name;
     if i \<noteq> -1 then do { e \<leftarrow> arr_get (table d) i; Some (inode_number e) } else Some (-1) }"

text \<open>One entry of the new table: the number and the name of an old entry.\<close>

definition copy_entry :: "dir_entry list \<Rightarrow> int \<Rightarrow> int \<Rightarrow> byte list \<Rightarrow> dir_entry list option" where
  "copy_entry new i inode name = do {
     e \<leftarrow> arr_get new i;
     s \<leftarrow> copy_name (ename e) name;
     arr_set new i \<lparr>inode_number = inode, ename = s\<rparr> }"

definition Directory_Add :: "fresh_entries \<Rightarrow> directory \<Rightarrow> byte list \<Rightarrow> int \<Rightarrow> (bool \<times> directory) option" where
  "Directory_Add fresh d name inode = do {
     i \<leftarrow> FindIndex d name;
     if i \<noteq> -1 then Some (False, d)
     else do {
       let new = new_entries fresh (tableSize d + 1);
       new \<leftarrow> foldM (\<lambda>i new. do {
           e \<leftarrow> arr_get (table d) i;
           copy_entry new i (inode_number e) (ename e) }) [0..tableSize d - 1] new;
       new \<leftarrow> copy_entry new (tableSize d) inode name;
       Some (True, \<lparr>tableSize = tableSize d + 1, table = new\<rparr>) } }"

function Remove_copy :: "dir_entry list \<Rightarrow> int \<Rightarrow> int \<Rightarrow> int \<Rightarrow> int \<Rightarrow> dir_entry list \<Rightarrow> dir_entry list option" where
  "Remove_copy old index n i j new =
     (if i < n then
        if index = j then Remove_copy old index n i (j + 1) new
        else do {
          e \<leftarrow> arr_get old j;
          new \<leftarrow> copy_entry new i (inode_number e) (ename e);
          Remove_copy old index n (i + 1) (j + 1) new }
      else Some new)"
  by pat_completeness auto
termination
  by (relation "measure (\<lambda>(old, index, n, i, j, new). 2 * nat (n - i) + (if j \<le> index then 1 else 0))") auto

declare Remove_copy.simps [simp del]

definition Directory_Remove :: "fresh_entries \<Rightarrow> directory \<Rightarrow> byte list \<Rightarrow> (bool \<times> directory) option" where
  "Directory_Remove fresh d name = do {
     index \<leftarrow> FindIndex d name;
     if index = -1 then Some (False, d)
     else do {
       let n = tableSize d - 1;
       new \<leftarrow> Remove_copy (table d) index n 0 0 (new_entries fresh n);
       Some (True, \<lparr>tableSize = n, table = new\<rparr>) } }"

subsection \<open>The string functions on terminated arrays\<close>

lemma cstr_Cons: "cstr (c # s) = (if c = 0 then [] else c # cstr s)"
  by (simp add: cstr_def)

lemma cstr_length: "terminated s \<Longrightarrow> length (cstr s) < length s"
  by (induction s) (auto simp: terminated_def cstr_def)

lemma cstr_nonzero: "0 \<notin> set (cstr s)"
  unfolding cstr_def using set_takeWhileD by fastforce

lemma cstr_append_zero: "0 \<notin> set s \<Longrightarrow> cstr (s @ 0 # r) = s"
  by (induction s) (auto simp: cstr_def)

lemma strncmp_eq_cstr:
  assumes "terminated xs" and "terminated ys" and "length xs \<le> n"
  shows "strncmp_eq n xs ys = Some (cstr xs = cstr ys)"
  using assms
proof (induction n xs ys rule: strncmp_eq.induct)
  case (2 n x xs y ys)
  then show ?case by (auto simp: terminated_def cstr_Cons)
qed (auto simp: terminated_def)

lemma copy_name_ok:
  assumes "terminated src" and "length (cstr src) < length dst"
  shows "copy_name dst src = Some (cstr src @ 0 # drop (length (cstr src) + 1) dst)"
  using assms by (simp add: copy_name_def strlen_def strncpy_def)

lemma copy_name_long:
  assumes "terminated src" and "length dst \<le> length (cstr src)"
  shows "copy_name dst src = None"
  using assms by (simp add: copy_name_def strlen_def strncpy_def)

subsection \<open>Directories as tables of names\<close>

definition entry_ok :: "dir_entry \<Rightarrow> bool" where
  "entry_ok e \<longleftrightarrow> int_range (inode_number e) \<and> inode_number e \<noteq> -1 \<and> length (ename e) = 32 \<and> terminated (ename e)"

definition named :: "dir_entry \<Rightarrow> byte list \<times> int" where
  "named e = (cstr (ename e), inode_number e)"

definition listing :: "directory \<Rightarrow> (byte list \<times> int) list" where
  "listing d = map named (table d)"

definition dir_ok :: "directory \<Rightarrow> bool" where
  "dir_ok d \<longleftrightarrow> tableSize d = int (length (table d)) \<and> (\<forall>e \<in> set (table d). entry_ok e) \<and>
     distinct (map fst (listing d))"

definition fresh_ok :: "fresh_entries \<Rightarrow> bool" where
  "fresh_ok fresh \<longleftrightarrow> (\<forall>i. length (ename (fresh i)) = 32)"

definition dir_lookup :: "directory \<Rightarrow> byte list \<Rightarrow> int option" where
  "dir_lookup d = map_of (listing d)"

lemma FindIndex_from_spec:
  assumes "\<forall>e \<in> set es. entry_ok e" and "terminated name" and "0 \<le> i"
  shows "\<exists>r. FindIndex_from es name i = Some r \<and>
    (if cstr name \<in> fst ` set (map named es)
     then \<exists>j < length es. r = i + int j \<and> fst (named (es ! j)) = cstr name \<and>
       (\<forall>j' < j. fst (named (es ! j')) \<noteq> cstr name)
     else r = -1)"
  using assms(1,3)
proof (induction es arbitrary: i)
  case (Cons e es)
  have s: "strncmp_eq FileNameMaxLen (ename e) name = Some (fst (named e) = cstr name)"
    using Cons.prems(1) assms(2) strncmp_eq_cstr [of "ename e" name] by (simp add: FileNameMaxLen_def entry_ok_def named_def)
  show ?case
  proof (cases "fst (named e) = cstr name")
    case True
    then show ?thesis using s by auto
  next
    case False
    obtain r where r: "FindIndex_from es name (i + 1) = Some r"
      "if cstr name \<in> fst ` set (map named es)
       then \<exists>j < length es. r = i + 1 + int j \<and> fst (named (es ! j)) = cstr name \<and>
         (\<forall>j' < j. fst (named (es ! j')) \<noteq> cstr name)
       else r = -1"
      using Cons.IH [of "i + 1"] Cons.prems by auto
    show ?thesis
    proof (cases "cstr name \<in> fst ` set (map named es)")
      case True
      then obtain j where j: "j < length es" "r = i + 1 + int j" "fst (named (es ! j)) = cstr name"
        "\<forall>j' < j. fst (named (es ! j')) \<noteq> cstr name" using r(2) by auto
      then have "Suc j < length (e # es) \<and> r = i + int (Suc j) \<and> fst (named ((e # es) ! Suc j)) = cstr name \<and>
          (\<forall>j' < Suc j. fst (named ((e # es) ! j')) \<noteq> cstr name)"
        using False by (auto simp: less_Suc_eq_0_disj)
      then show ?thesis using True False s r(1) by auto
    qed (use False s r in auto)
  qed
qed simp

lemma FindIndex_spec:
  assumes "dir_ok d" and "terminated name"
  shows "case dir_lookup d (cstr name) of
      None \<Rightarrow> FindIndex d name = Some (-1)
    | Some n \<Rightarrow> \<exists>j < length (table d). FindIndex d name = Some (int j) \<and> named (table d ! j) = (cstr name, n)"
proof -
  have d: "take (nat (tableSize d)) (table d) = table d" "\<forall>e \<in> set (table d). entry_ok e"
    "distinct (map fst (listing d))"
    using assms(1) by (auto simp: dir_ok_def)
  obtain r where r: "FindIndex d name = Some r"
    "if cstr name \<in> fst ` set (map named (table d))
     then \<exists>j < length (table d). r = int j \<and> fst (named (table d ! j)) = cstr name
     else r = -1"
    using FindIndex_from_spec [OF d(2) assms(2), of 0] unfolding FindIndex_def d(1) by (auto split: if_splits)
  show ?thesis
  proof (cases "cstr name \<in> fst ` set (listing d)")
    case True
    then obtain j where j: "j < length (table d)" "r = int j" "fst (named (table d ! j)) = cstr name"
      using r(2) by (auto simp: listing_def)
    have "dir_lookup d (cstr name) = Some (snd (named (table d ! j)))"
      unfolding dir_lookup_def
      by (rule map_of_is_SomeI [OF d(3)]) (use j in \<open>auto simp: listing_def intro!: image_eqI [of _ _ "table d ! j"] prod_eqI\<close>)
    then show ?thesis using j r(1) by (auto simp: prod_eq_iff)
  next
    case False
    then have "dir_lookup d (cstr name) = None" by (simp add: dir_lookup_def map_of_eq_None_iff)
    then show ?thesis using False r by (simp add: listing_def)
  qed
qed

lemma Directory_Find_spec:
  assumes "dir_ok d" and "terminated name"
  shows "Directory_Find d name = Some (case dir_lookup d (cstr name) of None \<Rightarrow> -1 | Some n \<Rightarrow> n)"
  using FindIndex_spec [OF assms]
  by (cases "dir_lookup d (cstr name)") (auto simp: Directory_Find_def arr_get_def named_def)

text \<open>Copying entries from one table to another.\<close>

lemma copy_entry_ok:
  assumes "i < length new" and "length (ename (new ! i)) = 32" and "terminated name" and "length (cstr name) < 32"
    and "int_range inode" and "inode \<noteq> -1"
  obtains e where "copy_entry new (int i) inode name = Some (new[i := e])" and "entry_ok e"
    and "named e = (cstr name, inode)"
proof -
  let ?s = "cstr name @ 0 # drop (length (cstr name) + 1) (ename (new ! i))"
  let ?e = "\<lparr>inode_number = inode, ename = ?s\<rparr>"
  have "copy_entry new (int i) inode name = Some (new[i := ?e])"
    using assms(1-4) copy_name_ok [OF assms(3), of "ename (new ! i)"]
    by (simp add: copy_entry_def arr_get_def arr_set_def)
  moreover have "entry_ok ?e" using assms by (simp add: entry_ok_def terminated_def)
  moreover have "named ?e = (cstr name, inode)"
    by (simp add: named_def cstr_append_zero cstr_nonzero)
  ultimately show ?thesis using that by blast
qed

definition copied :: "dir_entry list \<Rightarrow> dir_entry list \<Rightarrow> bool" where
  "copied xs es \<longleftrightarrow> map named xs = map named es \<and> (\<forall>e \<in> set xs. entry_ok e)"

lemma copied_simps [simp]:
  "copied [] []" "copied (xs @ [x]) (es @ [e]) = (copied xs es \<and> entry_ok x \<and> named x = named e)"
  by (auto simp: copied_def)

lemma copied_length: "copied xs es \<Longrightarrow> length xs = length es"
  unfolding copied_def by (metis length_map)

lemma copy_one:
  assumes "copied pre (take i old)" and "i < length old" and "entry_ok (old ! j)" and "x # post = rest"
    and "length pre = i" and "length (ename x) = 32" and "j < length old"
  obtains e where "copy_entry (pre @ rest) (int i) (inode_number (old ! j)) (ename (old ! j)) = Some (pre @ e # post)"
    and "entry_ok e" and "named e = named (old ! j)"
proof -
  have t: "terminated (ename (old ! j))" "length (cstr (ename (old ! j))) < 32" "int_range (inode_number (old ! j))"
    "inode_number (old ! j) \<noteq> -1" using assms(3) cstr_length [of "ename (old ! j)"] by (auto simp: entry_ok_def)
  have i: "i < length (pre @ rest)" "length (ename ((pre @ rest) ! i)) = 32" using assms(4-6) by auto
  obtain e where "copy_entry (pre @ rest) (int i) (inode_number (old ! j)) (ename (old ! j)) = Some ((pre @ rest)[i := e])"
    "entry_ok e" "named e = (cstr (ename (old ! j)), inode_number (old ! j))"
    by (rule copy_entry_ok [OF i t])
  then show ?thesis using that assms(4,5) by (auto simp: named_def)
qed

lemma Add_copies:
  assumes "\<forall>e \<in> set old. entry_ok e" and "\<forall>x \<in> set new. length (ename x) = 32" and "length old \<le> length new"
    and "m \<le> length old"
  shows "\<exists>xs. foldM (\<lambda>i new. do {
           e \<leftarrow> arr_get old i;
           copy_entry new i (inode_number e) (ename e) }) [0..int m - 1] new = Some (xs @ drop m new) \<and>
    copied xs (take m old)"
  using assms(4)
proof (induction m)
  case 0
  then show ?case by (auto intro: exI [of _ "[]"])
next
  case (Suc m)
  let ?f = "\<lambda>i new. do { e \<leftarrow> arr_get old i; copy_entry new i (inode_number e) (ename e) }"
  obtain xs where xs: "foldM ?f [0..int m - 1] new = Some (xs @ drop m new)" "copied xs (take m old)"
    using Suc by auto
  have u: "[0..int (Suc m) - 1] = [0..int m - 1] @ [int m]" by (simp add: upto_rec2)
  have m: "m < length old" "m < length new" using Suc.prems assms(3) by simp_all
  have lx: "length xs = m" using copied_length [OF xs(2)] m by simp
  have d: "new ! m # drop (Suc m) new = drop m new" using m by (simp add: Cons_nth_drop_Suc)
  have eo: "entry_ok (old ! m)" "length (ename (new ! m)) = 32" using assms(1,2) m by simp_all
  obtain e where e: "copy_entry (xs @ drop m new) (int m) (inode_number (old ! m)) (ename (old ! m)) =
      Some (xs @ e # drop (Suc m) new)" "entry_ok e" "named e = named (old ! m)"
    by (rule copy_one [OF xs(2) m(1) eo(1) d lx eo(2) m(1)])
  have "foldM ?f [0..int (Suc m) - 1] new = Some ((xs @ [e]) @ drop (Suc m) new)"
    unfolding u using xs(1) e(1) m by (simp add: foldM_append arr_get_def)
  moreover have "copied (xs @ [e]) (take (Suc m) old)"
    using xs(2) e(2,3) m by (simp add: take_Suc_conv_app_nth)
  ultimately show ?case by blast
qed

lemma new_entries_ok:
  assumes "fresh_ok fresh"
  shows "length (new_entries fresh n) = nat n" and "\<forall>x \<in> set (new_entries fresh n). length (ename x) = 32"
  using assms by (auto simp: new_entries_def fresh_ok_def)

lemma Directory_Add_new:
  assumes "dir_ok d" and "fresh_ok fresh" and "terminated name" and "length (cstr name) < 32"
    and "dir_lookup d (cstr name) = None" and "int_range inode" and "inode \<noteq> -1"
  shows "\<exists>d'. Directory_Add fresh d name inode = Some (True, d') \<and> dir_ok d' \<and>
    listing d' = listing d @ [(cstr name, inode)]"
proof -
  have d: "tableSize d = int (length (table d))" "\<forall>e \<in> set (table d). entry_ok e" "distinct (map fst (listing d))"
    using assms(1) by (auto simp: dir_ok_def)
  let ?n = "length (table d)" and ?new = "new_entries fresh (tableSize d + 1)"
  note ne = new_entries_ok [OF assms(2), of "tableSize d + 1"]
  have ln: "length ?new = Suc ?n" using ne(1) d(1) by simp
  obtain xs where xs: "foldM (\<lambda>i new. do { e \<leftarrow> arr_get (table d) i; copy_entry new i (inode_number e) (ename e) })
      [0..int ?n - 1] ?new = Some (xs @ drop ?n ?new)" "copied xs (take ?n (table d))"
    using Add_copies [OF d(2) ne(2), of ?n] ln by auto
  have lx: "length xs = ?n" using copied_length [OF xs(2)] by simp
  obtain y where y: "drop ?n ?new = [y]" using ln by (cases "drop ?n ?new") (auto dest: arg_cong [of _ _ length])
  then have "y \<in> set ?new" by (metis in_set_dropD list.set_intros(1))
  then have yl: "length (ename y) = 32" using ne(2) by blast
  have idx: "?n < length (xs @ [y])" "length (ename ((xs @ [y]) ! ?n)) = 32" using lx yl by (simp_all add: nth_append)
  obtain e where e: "copy_entry (xs @ [y]) (int ?n) inode name = Some ((xs @ [y])[?n := e])" "entry_ok e"
    "named e = (cstr name, inode)" by (rule copy_entry_ok [OF idx assms(3,4,6,7)])
  have u: "(xs @ [y])[?n := e] = xs @ [e]" using list_update_length [of xs y "[]" e] lx by simp
  have "FindIndex d name = Some (-1)" using FindIndex_spec [OF assms(1,3)] assms(5) by simp
  then have "Directory_Add fresh d name inode = Some (True, \<lparr>tableSize = tableSize d + 1, table = xs @ [e]\<rparr>)"
    using xs(1) e(1) d(1) y u by (simp add: Directory_Add_def Let_def)
  moreover have "listing \<lparr>tableSize = tableSize d + 1, table = xs @ [e]\<rparr> = listing d @ [(cstr name, inode)]"
    using xs(2) e(3) by (simp add: listing_def copied_def)
  moreover have "dir_ok \<lparr>tableSize = tableSize d + 1, table = xs @ [e]\<rparr>"
  proof -
    have "cstr name \<notin> fst ` set (listing d)" using assms(5) by (simp add: dir_lookup_def map_of_eq_None_iff)
    then show ?thesis using calculation(2) d lx xs(2) e(2) by (auto simp: dir_ok_def copied_def)
  qed
  ultimately show ?thesis by blast
qed

lemma Remove_copies:
  assumes "\<forall>e \<in> set old. entry_ok e" and "idx < length old"
    and "R = take idx old @ drop (Suc idx) old" and "copied pre (take i R)" and "length pre = i"
    and "\<forall>x \<in> set rest. length (ename x) = 32" and "i + length rest = length R"
    and "j = (if i < idx then i else Suc i) \<or> i = idx \<and> j = idx"
  shows "\<exists>xs. Remove_copy old (int idx) (int (length R)) (int i) (int j) (pre @ rest) = Some xs \<and> copied xs R"
  using assms(4-8)
proof (induction rest arbitrary: pre i j)
  case Nil
  then have "take i R = R" "int i = int (length R)" by simp_all
  then show ?case using Nil.prems(1) by (subst Remove_copy.simps) auto
next
  case (Cons x post)
  have i: "i < length R" using Cons.prems(4) by simp
  have lR: "length R = length old - 1" using assms(2,3) by simp
  let ?j = "if i < idx then i else Suc i"
  have jo: "?j < length old" using i lR assms(2) by auto
  have Ri: "R ! i = old ! ?j" using assms(2,3) by (auto simp: nth_append)
  have eo: "entry_ok (old ! ?j)" "entry_ok (R ! i)" using assms(1) jo by (auto simp: Ri)
  have R: "\<forall>e \<in> set R. entry_ok e" using assms(1,3) by (auto dest: in_set_takeD in_set_dropD)
  have xl: "length (ename x) = 32" using Cons.prems(3) by simp
  have idx: "i < length (pre @ x # post)" "length (ename ((pre @ x # post) ! i)) = 32"
    using Cons.prems(2) xl by (auto simp: nth_append)
  have t: "terminated (ename (old ! ?j))" "length (cstr (ename (old ! ?j))) < 32" "int_range (inode_number (old ! ?j))"
    "inode_number (old ! ?j) \<noteq> -1" using eo(1) cstr_length [of "ename (old ! ?j)"] by (auto simp: entry_ok_def)
  obtain e where e: "copy_entry (pre @ x # post) (int i) (inode_number (old ! ?j)) (ename (old ! ?j)) =
      Some ((pre @ x # post)[i := e])" "entry_ok e" "named e = (cstr (ename (old ! ?j)), inode_number (old ! ?j))"
    by (rule copy_entry_ok [OF idx t])
  have u: "(pre @ x # post)[i := e] = (pre @ [e]) @ post" using Cons.prems(2) by auto
  have cp: "copied (pre @ [e]) (take (Suc i) R)"
    using Cons.prems(1) e(2,3) i by (simp add: take_Suc_conv_app_nth Ri named_def)
  obtain xs where xs: "Remove_copy old (int idx) (int (length R)) (int (Suc i)) (int (Suc ?j)) ((pre @ [e]) @ post) = Some xs"
    "copied xs R"
  proof -
    have "Suc ?j = (if Suc i < idx then Suc i else Suc (Suc i)) \<or> Suc i = idx \<and> Suc ?j = idx" by auto
    then show ?thesis
      using Cons.IH [OF cp, of "Suc ?j"] Cons.prems(2,3,4) that by auto
  qed
  have run: "Remove_copy old (int idx) (int (length R)) (int i) (int ?j) (pre @ x # post) = Some xs"
    using i jo e(1) xs(1) u by (subst Remove_copy.simps) (auto simp: arr_get_def add.commute)
  have "Remove_copy old (int idx) (int (length R)) (int i) (int j) (pre @ x # post) = Some xs"
  proof (cases "j = ?j")
    case False
    then have "i = idx" "j = idx" using Cons.prems(5) by auto
    then show ?thesis using i run by (subst Remove_copy.simps) (simp add: add.commute)
  qed (use run in simp)
  then show ?case using xs(2) by blast
qed

lemma Directory_Remove_found:
  assumes "dir_ok d" and "fresh_ok fresh" and "terminated name" and "dir_lookup d (cstr name) = Some n"
  shows "\<exists>d'. Directory_Remove fresh d name = Some (True, d') \<and> dir_ok d' \<and>
    listing d' = filter (\<lambda>(s, i). s \<noteq> cstr name) (listing d)"
proof -
  have d: "tableSize d = int (length (table d))" "\<forall>e \<in> set (table d). entry_ok e" "distinct (map fst (listing d))"
    using assms(1) by (auto simp: dir_ok_def)
  obtain j where j: "j < length (table d)" "FindIndex d name = Some (int j)" "named (table d ! j) = (cstr name, n)"
    using FindIndex_spec [OF assms(1,3)] assms(4) by auto
  let ?R = "take j (table d) @ drop (Suc j) (table d)"
  have lR: "int (length ?R) = tableSize d - 1" using j(1) d(1) by simp
  note ne = new_entries_ok [OF assms(2), of "tableSize d - 1"]
  have "j = (if 0 < j then 0 else Suc 0) \<or> 0 = j \<and> 0 = j \<or> 0 < j" by auto
  then have "\<exists>xs. Remove_copy (table d) (int j) (int (length ?R)) (int 0) (int 0) ([] @ new_entries fresh (tableSize d - 1)) =
      Some xs \<and> copied xs ?R"
    using ne lR by (intro Remove_copies [OF d(2) j(1) refl]) auto
  then obtain xs where xs: "Remove_copy (table d) (int j) (tableSize d - 1) 0 0 (new_entries fresh (tableSize d - 1)) = Some xs"
    "copied xs ?R" using lR by auto
  let ?d' = "\<lparr>tableSize = tableSize d - 1, table = xs\<rparr>"
  have "Directory_Remove fresh d name = Some (True, ?d')"
    using j(2) xs(1) by (simp add: Directory_Remove_def Let_def)
  moreover have l: "listing ?d' = take j (listing d) @ drop (Suc j) (listing d)"
    using xs(2) by (simp add: listing_def copied_def take_map drop_map)
  moreover have "take j (listing d) @ drop (Suc j) (listing d) = filter (\<lambda>(s, i). s \<noteq> cstr name) (listing d)"
  proof -
    have jl: "j < length (listing d)" "fst (listing d ! j) = cstr name" using j(1,3) by (simp_all add: listing_def)
    define A B p where "A = take j (listing d)" and "B = drop (Suc j) (listing d)" and "p = listing d ! j"
    have sp: "listing d = A @ p # B" unfolding A_def B_def p_def using jl(1) by (rule id_take_nth_drop)
    have "distinct (map fst (A @ p # B))" using d(3) sp by simp
    then have "filter (\<lambda>(s, i). s \<noteq> fst p) A = A" "filter (\<lambda>(s, i). s \<noteq> fst p) B = B"
      by (auto simp: filter_id_conv image_iff)
    moreover have "fst p = cstr name" using jl(2) by (simp add: p_def)
    ultimately have "filter (\<lambda>(s, i). s \<noteq> cstr name) (A @ p # B) = A @ B" by (simp add: split_beta)
    then have "A @ B = filter (\<lambda>(s, i). s \<noteq> cstr name) (listing d)" by (simp only: sp)
    then show ?thesis unfolding A_def B_def .
  qed
  moreover have "dir_ok ?d'"
  proof -
    have "distinct (map fst (filter (\<lambda>(s, i). s \<noteq> cstr name) (listing d)))"
      using d(3) by (rule distinct_map_filter)
    then show ?thesis
      using calculation(2,3) xs(2) lR copied_length [OF xs(2)] by (simp add: dir_ok_def copied_def)
  qed
  ultimately show ?thesis by metis
qed

lemma map_of_filter_out: "map_of (filter (\<lambda>(x, i). x \<noteq> s) ps) y = (if y = s then None else map_of ps y)"
  by (induction ps) auto

lemma dir_lookup_new: "listing d' = listing d @ [(s, i)] \<Longrightarrow> dir_lookup d s = None \<Longrightarrow>
    dir_lookup d' = (dir_lookup d)(s \<mapsto> i)"
  by (auto simp: dir_lookup_def map_add_def fun_eq_iff split: option.split)

lemma dir_lookup_removed: "listing d' = filter (\<lambda>(x, i). x \<noteq> s) (listing d) \<Longrightarrow>
    dir_lookup d' = (dir_lookup d)(s := None)"
  by (simp add: dir_lookup_def map_of_filter_out fun_eq_iff)

subsection \<open>The interface of a table of names\<close>

text \<open>
  What the file system relies on: a lookup that gives the number of a name or -1, and operations that
  add and remove one name. Names are compared by \<open>key\<close>.
\<close>

locale name_lookup =
  fixes ok :: "'t \<Rightarrow> bool" and good :: "'n \<Rightarrow> bool" and key :: "'n \<Rightarrow> 'k"
    and lookup :: "'t \<Rightarrow> 'k \<Rightarrow> int option" and find :: "'t \<Rightarrow> 'n \<Rightarrow> int option"
  assumes find_lookup: "ok t \<Longrightarrow> good k \<Longrightarrow>
      find t k = Some (case lookup t (key k) of None \<Rightarrow> -1 | Some n \<Rightarrow> n)"
    and lookup_number: "ok t \<Longrightarrow> lookup t x \<noteq> Some (-1)"
begin

lemma absent_iff: "ok t \<Longrightarrow> good k \<Longrightarrow> find t k = Some (-1) \<longleftrightarrow> lookup t (key k) = None"
  using find_lookup [of t k] lookup_number [of t "key k"] by (auto split: option.splits)

lemma find_cong: "ok t \<Longrightarrow> ok t' \<Longrightarrow> good k \<Longrightarrow> lookup t' (key k) = lookup t (key k) \<Longrightarrow> find t' k = find t k"
  by (simp add: find_lookup)

end

locale name_table = name_lookup ok good key lookup find
  for ok :: "'t \<Rightarrow> bool" and good :: "'n \<Rightarrow> bool" and key :: "'n \<Rightarrow> 'k"
    and lookup :: "'t \<Rightarrow> 'k \<Rightarrow> int option" and find :: "'t \<Rightarrow> 'n \<Rightarrow> int option" +
  fixes fits :: "'n \<Rightarrow> bool" and number :: "int \<Rightarrow> bool"
    and add :: "'t \<Rightarrow> 'n \<Rightarrow> int \<Rightarrow> (bool \<times> 't) option" and remove :: "'t \<Rightarrow> 'n \<Rightarrow> (bool \<times> 't) option"
  assumes add_new: "ok t \<Longrightarrow> good k \<Longrightarrow> fits k \<Longrightarrow> number n \<Longrightarrow> lookup t (key k) = None \<Longrightarrow>
      \<exists>t'. add t k n = Some (True, t') \<and> ok t' \<and> lookup t' = (lookup t)(key k \<mapsto> n)"
    and add_old: "ok t \<Longrightarrow> good k \<Longrightarrow> lookup t (key k) \<noteq> None \<Longrightarrow> add t k n = Some (False, t)"
    and remove_old: "ok t \<Longrightarrow> good k \<Longrightarrow> lookup t (key k) \<noteq> None \<Longrightarrow>
      \<exists>t'. remove t k = Some (True, t') \<and> ok t' \<and> lookup t' = (lookup t)(key k := None)"
    and remove_new: "ok t \<Longrightarrow> good k \<Longrightarrow> lookup t (key k) = None \<Longrightarrow> remove t k = Some (False, t)"
begin

lemma add_then_find:
  assumes "ok t" and "good k" and "fits k" and "number n" and "good k'" and "find t k = Some (-1)"
  shows "\<exists>t'. add t k n = Some (True, t') \<and> ok t' \<and> find t' k' = (if key k' = key k then Some n else find t k')"
proof -
  obtain t' where "add t k n = Some (True, t')" "ok t'" "lookup t' = (lookup t)(key k \<mapsto> n)"
    using add_new [OF assms(1-4)] assms(6) absent_iff [OF assms(1,2)] by auto
  then show ?thesis using find_lookup [OF assms(1,5)] find_lookup [OF _ assms(5), of t'] by auto
qed

lemma remove_then_find:
  assumes "ok t" and "good k" and "good k'" and "find t k \<noteq> Some (-1)"
  shows "\<exists>t'. remove t k = Some (True, t') \<and> ok t' \<and> find t' k' = (if key k' = key k then Some (-1) else find t k')"
proof -
  obtain t' where "remove t k = Some (True, t')" "ok t'" "lookup t' = (lookup t)(key k := None)"
    using remove_old [OF assms(1,2)] assms(4) absent_iff [OF assms(1,2)] by auto
  then show ?thesis using find_lookup [OF assms(1,3)] find_lookup [OF _ assms(3), of t'] by auto
qed

lemma add_found: "ok t \<Longrightarrow> good k \<Longrightarrow> find t k \<noteq> Some (-1) \<Longrightarrow> add t k n = Some (False, t)"
  using add_old absent_iff by blast

lemma remove_absent: "ok t \<Longrightarrow> good k \<Longrightarrow> find t k = Some (-1) \<Longrightarrow> remove t k = Some (False, t)"
  using remove_new absent_iff by blast

end

definition dir_inv :: "fresh_entries \<Rightarrow> directory \<Rightarrow> bool" where
  "dir_inv fresh d \<longleftrightarrow> dir_ok d \<and> fresh_ok fresh"

definition inode_range :: "int \<Rightarrow> bool" where
  "inode_range n \<longleftrightarrow> int_range n \<and> n \<noteq> -1"

definition name_fits :: "byte list \<Rightarrow> bool" where
  "name_fits s \<longleftrightarrow> length (cstr s) < FileNameMaxLen"

interpretation dir: name_table "dir_inv fresh" terminated cstr dir_lookup Directory_Find name_fits inode_range
    "Directory_Add fresh" "Directory_Remove fresh"
  for fresh
proof
  fix t k x n
  assume t: "dir_inv fresh t"
  then have ok: "dir_ok t" "fresh_ok fresh" by (simp_all add: dir_inv_def)
  show "dir_lookup t x \<noteq> Some (-1)"
    using ok(1) by (auto simp: dir_lookup_def listing_def dir_ok_def entry_ok_def named_def dest!: map_of_SomeD)
  assume k: "terminated k"
  note fi = FindIndex_spec [OF ok(1) k]
  show "Directory_Find t k = Some (case dir_lookup t (cstr k) of None \<Rightarrow> -1 | Some n \<Rightarrow> n)"
    by (rule Directory_Find_spec [OF ok(1) k])
  show "dir_lookup t (cstr k) = None \<Longrightarrow> name_fits k \<Longrightarrow> inode_range n \<Longrightarrow>
    \<exists>t'. Directory_Add fresh t k n = Some (True, t') \<and> dir_inv fresh t' \<and> dir_lookup t' = (dir_lookup t)(cstr k \<mapsto> n)"
    using Directory_Add_new [OF ok k, of n] dir_lookup_new
    by (auto simp: name_fits_def FileNameMaxLen_def inode_range_def dir_inv_def ok(2))
  show "dir_lookup t (cstr k) \<noteq> None \<Longrightarrow> Directory_Add fresh t k n = Some (False, t)"
    using fi by (auto simp: Directory_Add_def)
  show "dir_lookup t (cstr k) \<noteq> None \<Longrightarrow> \<exists>t'. Directory_Remove fresh t k = Some (True, t') \<and> dir_inv fresh t' \<and>
      dir_lookup t' = (dir_lookup t)(cstr k := None)"
    using Directory_Remove_found [OF ok k] dir_lookup_removed by (auto simp: dir_inv_def ok(2))
  show "dir_lookup t (cstr k) = None \<Longrightarrow> Directory_Remove fresh t k = Some (False, t)"
    using fi by (simp add: Directory_Remove_def)
qed

subsection \<open>What a directory promises\<close>


definition zero_entries :: fresh_entries where
  "zero_entries i = \<lparr>inode_number = 0, ename = replicate 32 0\<rparr>"

lemma Directory_new_inv: "dir_inv zero_entries Directory_new"
  by (simp add: dir_inv_def dir_ok_def Directory_new_def fresh_ok_def zero_entries_def listing_def)


text \<open>
  The length of a name is not checked: adding a new name of 32 characters or more to a directory
  writes behind the array of the new entry.
\<close>

theorem Add_of_a_long_name:
  assumes "dir_inv fresh d" and "terminated name" and "FileNameMaxLen \<le> length (cstr name)"
    and "Directory_Find d name = Some (-1)"
  shows "Directory_Add fresh d name n = None"
proof -
  have ok: "dir_ok d" "fresh_ok fresh" using assms(1) by (simp_all add: dir_inv_def)
  have d: "tableSize d = int (length (table d))" "\<forall>e \<in> set (table d). entry_ok e"
    using ok(1) by (auto simp: dir_ok_def)
  let ?n = "length (table d)" and ?new = "new_entries fresh (tableSize d + 1)"
  note ne = new_entries_ok [OF ok(2), of "tableSize d + 1"]
  have ln: "length ?new = Suc ?n" using ne(1) d(1) by simp
  obtain xs where xs: "foldM (\<lambda>i new. do { e \<leftarrow> arr_get (table d) i; copy_entry new i (inode_number e) (ename e) })
      [0..int ?n - 1] ?new = Some (xs @ drop ?n ?new)" "copied xs (take ?n (table d))"
    using Add_copies [OF d(2) ne(2), of ?n] ln by auto
  have lx: "length xs = ?n" using copied_length [OF xs(2)] by simp
  have n: "(xs @ drop ?n ?new) ! ?n = ?new ! ?n" using lx ln by (simp add: nth_append)
  have "length (ename (?new ! ?n)) = 32" using ne(2) ln by simp
  then have "copy_entry (xs @ drop ?n ?new) (int ?n) inode name = None" for inode
    using copy_name_long [OF assms(2), of "ename (?new ! ?n)"] assms(3) n lx ln
    by (simp add: copy_entry_def arr_get_def FileNameMaxLen_def)
  moreover have "dir_lookup d (cstr name) = None" using dir.absent_iff [OF assms(1,2)] assms(4) by simp
  then have "FindIndex d name = Some (-1)" using FindIndex_spec [OF ok(1) assms(2)] by simp
  ultimately show ?thesis using xs(1) d(1) by (simp add: Directory_Add_def Let_def)
qed

theorem Add_of_a_long_name_witness:
  "Directory_Add zero_entries Directory_new (replicate 32 97 @ [0]) 7 = None"
proof (rule Add_of_a_long_name [OF Directory_new_inv])
  have "cstr (replicate 32 97 @ [0]) = replicate 32 97" by (rule cstr_append_zero) simp
  then show "FileNameMaxLen \<le> length (cstr (replicate 32 97 @ [0]))" by (simp add: FileNameMaxLen_def)
qed (simp_all add: terminated_def Directory_Find_def FindIndex_def Directory_new_def)

end
