(* ===== verification/DirFile.thy ===== *)
theory DirFile
  imports Directory
begin

text \<open>
  A directory in its file: \<open>OpenFile::WriteDir\<close>, which replaces the contents of a file, and the round
  trip of \<open>Directory::WriteBack\<close> and \<open>Directory::FetchFrom\<close>.
\<close>

subsection \<open>A shorter file keeps the shape of its fragments\<close>

lemma small_run_take: "small_run fs \<Longrightarrow> small_run (take m fs)"
proof (cases "fs = [] \<or> m = 0 \<or> length fs \<le> m")
  case False
  assume "small_run fs"
  then obtain a where a: "fs = [a..a + int (length fs) - 1]" "a mod 4 + int (length fs) \<le> 4"
    using False by (auto simp: small_run_def)
  have m: "m < length fs" using False by simp
  have "take m fs = [a..a + int m - 1]"
  proof (rule nth_equalityI)
    show "length (take m fs) = length [a..a + int m - 1]" using m by simp
    fix i assume "i < length (take m fs)"
    then have i: "i < m" "i < length fs" using m by simp_all
    have "fs ! i = a + int i" by (subst a(1)) (use i in simp)
    then show "take m fs ! i = [a..a + int m - 1] ! i" using i by simp
  qed
  then show ?thesis using a(2) m by (auto simp: small_run_def)
qed (auto simp: small_run_def)

lemma frags_ok_block: "frags_ok (a # b # c # d # fs) \<longleftrightarrow> a mod 4 = 0 \<and> b = a + 1 \<and> c = a + 2 \<and> d = a + 3 \<and> frags_ok fs"
proof -
  have "4 * (length (a # b # c # d # fs) div 4) = Suc (Suc (Suc (Suc (4 * (length fs div 4)))))"
    by simp presburger
  then show ?thesis unfolding frags_ok_def by (simp only: take_Suc_Cons drop_Suc_Cons blocks.simps conj_assoc)
qed

lemma frags_ok_small: "length fs < 4 \<Longrightarrow> frags_ok fs \<longleftrightarrow> small_run fs"
  by (simp add: frags_ok_def)

lemma frags_ok_take: "frags_ok fs \<Longrightarrow> frags_ok (take m fs)"
proof (induction fs arbitrary: m rule: blocks.induct)
  case (2 a b c d fs)
  have f: "a mod 4 = 0" "b = a + 1" "c = a + 2" "d = a + 3" "frags_ok fs" using 2 by (auto simp: frags_ok_block)
  show ?case
  proof (cases "m < 4")
    case True
    have "small_run [a, b, c, d]" using f(1-4) by (auto simp: small_run_def upto_rec1 intro!: exI [of _ a])
    then have "small_run (take m [a, b, c, d])" by (rule small_run_take)
    moreover have "take m (a # b # c # d # fs) = take m [a, b, c, d]"
      using True by (simp add: take_Cons')
    ultimately show ?thesis using True by (simp add: frags_ok_small)
  next
    case False
    then obtain n where n: "m = Suc (Suc (Suc (Suc n)))"
      using that [of "m - 4"] by simp
    then show ?thesis using 2 f by (simp add: frags_ok_block)
  qed
qed (auto simp: frags_ok_small small_run_take)

lemma direct_file_take:
  assumes "direct_file cf h fs" and "m \<le> length fs"
  shows "direct_file cf (h\<lparr>numBytes := n, numFragments := int m\<rparr>) (take m fs)"
proof -
  define xs where "xs = take m fs"
  have f: "fs = take (length fs) (dataFragments h)" "frags_ok fs" "owned cf fs" "length (dataFragments h) = 16"
    using assms(1) by (auto simp: direct_file_def)
  have l: "length xs = m" using assms(2) by (simp add: xs_def)
  have "xs = take m (dataFragments h)" unfolding xs_def using assms(2) f(1) by (metis min.absorb1 take_take)
  moreover have "frags_ok xs" unfolding xs_def by (rule frags_ok_take [OF f(2)])
  moreover have "owned cf xs" using f(3) by (auto simp: owned_def xs_def dest: in_set_takeD)
  ultimately have "direct_file cf (h\<lparr>numBytes := n, numFragments := int m\<rparr>) xs"
    using l f(4) by (simp add: direct_file_def)
  then show ?thesis by (simp only: xs_def)
qed

lemma direct_file_same:
  "dataFragments h' = dataFragments h \<Longrightarrow> numFragments h' = numFragments h \<Longrightarrow>
   direct_file cf h fs \<Longrightarrow> direct_file cf h' fs"
  by (simp add: direct_file_def)

text \<open>A loop over the first fragments does not look at what lies behind them.\<close>

lemma write_frags_prefix:
  assumes "set is \<subseteq> {0..<int (length fs)}"
  shows "write_frags fsize (fs @ rest) base is buf d = write_frags fsize fs base is buf d"
  using assms
proof (induction "is" arbitrary: d)
  case (Cons i "is")
  then have "arr_get (fs @ rest) i = arr_get fs i" by (auto simp: arr_get_def nth_append)
  then show ?case using Cons by (auto simp: write_frags_def split: bind_splits)
qed (simp add: write_frags_def)

subsection \<open>WriteDir replaces the contents\<close>

lemma WriteDir_shrink:
  assumes "fs_inv k cs cf" and "file_inv k cf f fs" and "n = int (length bytes)" and "n \<le> numBytes (hdr f)"
  shows "\<exists>f' k' fs'. WriteDir k f bytes n 0 = Some (n, f', k') \<and> fs_inv k' cs cf \<and>
    saved k cf f fs k' f' cf fs' \<and> file_bytes k' f' fs' = bytes"
proof -
  let ?h = "hdr f"
  define m where "m = nat (divRoundUp n 1024)"
  have sb: "superBlock k = format_super_block" and ok: "disk_ok (dsk k)" "control_on_disk (sectors (dsk k)) cs cf"
    using assms(1) by (auto simp: fs_inv_def)
  have df: "direct_file cf ?h fs" using assms(2) by (simp add: file_inv_def)
  have ids: "1 \<le> hdr_id ?h" "hdr_id ?h \<le> 64" using assms(2) by (auto simp: file_inv_def)
  have fok: "\<forall>n \<in> set fs. frag_ok n" by (rule file_inv_frags [OF assms(2)])
  have data: "\<forall>n \<in> set fs. 0 \<le> n \<and> n < 128 \<and> 16 \<le> n mod 64"
    using fok assms(2) by (auto simp: file_inv_def frag_ok_def)
  have n0: "0 \<le> n" using assms(3) by simp
  have m: "divRoundUp n 1024 = int m" unfolding m_def using divRoundUp_bounds(3) [OF n0, of 1024] by simp
  note cl = file_contents_length [OF assms(2) ok(1)]
  have "divRoundUp n 1024 \<le> int (length fs)"
    using divRoundUp_le_iff [OF n0, of 1024 "int (length fs)"] cl(2) assms(4) by simp
  then have mf: "m \<le> length fs" using m by simp
  have nm: "n \<le> 1024 * int m" using divRoundUp_bounds(1) [OF n0, of 1024] m by simp
  have dd: "dataFragments ?h = fs @ drop (length fs) (dataFragments ?h)"
    using df by (metis append_take_drop_id direct_file_def)
  let ?buf = "bytes @ replicate (1024 * m - length bytes) 0"
  have lb: "length bytes \<le> 1024 * m" using nm assms(3) by simp
  have put: "bytes_put (replicate (nat (int m * 1024)) 0) 0 bytes = Some ?buf"
    using lb by (simp add: bytes_put_def nat_mult_distrib mult.commute)
  have ds: "distinct fs" using df by (simp add: direct_file_def owned_def)
  have le: "0 + m \<le> length fs" "1024 * m \<le> length ?buf" using mf lb by simp_all
  obtain d1 where d1: "write_frags 1024 fs 0 [0..int m - 1] ?buf (dsk k) = Some d1" "idle_after (dsk k) d1"
    "contents (sectors d1) (take m fs) = ?buf"
    "\<forall>n. n \<notin> set (take m fs) \<longrightarrow> frag (sectors d1) n = frag (sectors (dsk k)) n"
    "\<forall>s. \<not> covers fs s \<longrightarrow> sectors d1 s = sectors (dsk k) s"
    using write_frags_ok [OF ok(1) fok ds le] lb by auto
  have wf: "write_frags 1024 (dataFragments ?h) 0 [0..int m - 1] ?buf (dsk k) = Some d1"
    by (subst dd, subst write_frags_prefix) (use mf d1(1) in auto)
  let ?h1 = "?h\<lparr>numBytes := n, numFragments := int m\<rparr>"
  obtain it where it: "mt_item (metaTable k) (hdr_id ?h) = Some it"
    using assms(2) by (auto simp: file_inv_def checkLastModified_def mt_item_def bind_Some_conv)
  have l16: "length (dataFragments ?h) = 16" using df by (simp add: direct_file_def)
  let ?k1 = "k\<lparr>dsk := d1\<rparr>" and ?f1 = "f\<lparr>hdr := ?h1\<rparr>"
  have pre: "superBlock ?k1 = format_super_block" "disk_ok (dsk ?k1)" "1 \<le> hdr_id (hdr ?f1)"
    "hdr_id (hdr ?f1) \<le> 64" "length (dataFragments (hdr ?f1)) = 16"
    "mt_item (metaTable ?k1) (hdr_id (hdr ?f1)) = Some it"
    using sb idle_after_ok [OF d1(2)] ids l16 it by simp_all
  obtain h2 d2 t' where fw0: "finish_write ?k1 ?f1 = Some (?f1\<lparr>hdr := h2\<rparr>, ?k1\<lparr>dsk := d2, metaTable := t'\<rparr>)"
    and h2: "h2 = (hdr ?f1)\<lparr>last_modified := clock (dsk ?k1)\<rparr>" and i2: "idle_after (dsk ?k1) d2"
    and same2: "\<forall>s. \<not> (96 \<le> s \<and> s < 128) \<longrightarrow> \<not> (608 \<le> s \<and> s < 640) \<longrightarrow> sectors d2 s = sectors (dsk ?k1) s"
    and chk: "checkLastModified t' (hdr_id h2) (last_modified h2) = Some True"
    and aw0: "after_write ?k1 ?f1 (?k1\<lparr>dsk := d2, metaTable := t'\<rparr>) (?f1\<lparr>hdr := h2\<rparr>)"
    by (rule finish_write_ok [OF pre])
  let ?k' = "k\<lparr>dsk := d2, metaTable := t'\<rparr>" and ?f' = "f\<lparr>hdr := h2\<rparr>"
  have "WriteDir k f bytes n 0 = Some (n, ?f', ?k')"
    unfolding WriteDir_def refresh_current [OF assms(2)] bind.bind_lunit prod.case Let_def FileLength_def
    using assms(3,4) m put wf fw0 sb by (simp add: bytes_get_def disk_do_def)
  moreover have "fs_inv ?k' cs cf"
  proof -
    have "control_on_disk (sectors d2) cs cf"
    proof (rule control_on_disk_cong [OF ok(2)])
      fix s assume s: "s \<in> control_sectors"
      then have "\<not> covers fs s" using covers_data(1) [OF data] by blast
      moreover have "\<not> (96 \<le> s \<and> s < 128)" "\<not> (608 \<le> s \<and> s < 640)" using s by (auto simp: control_sectors_def)
      ultimately show "sectors d2 s = sectors (dsk k) s" using same2 d1(5) by simp
    qed
    then show ?thesis using assms(1) i2 by (auto simp: fs_inv_def)
  qed
  moreover have same: "frag (sectors d2) x = frag (sectors d1) x" if "0 \<le> x" "x < 128" "16 \<le> x mod 64" for x
    by (rule data_frag_same) (use same2 that in auto)
  have "contents (sectors d2) (take m fs) = contents (sectors d1) (take m fs)"
    by (rule contents_cong) (use data same in \<open>auto dest!: in_set_takeD\<close>)
  then have "file_bytes ?k' ?f' (take m fs) = bytes" using d1(3) h2 assms(3) by (simp add: file_bytes_def)
  moreover have "file_inv ?k' cf ?f' (take m fs)"
  proof -
    define xs where "xs = take m fs"
    have "direct_file cf h2 xs"
      unfolding xs_def by (rule direct_file_same [OF _ _ direct_file_take [OF df mf, of n]]) (simp_all add: h2)
    moreover have "\<forall>x \<in> set xs. 16 \<le> x mod 64" using data by (auto simp: xs_def dest: in_set_takeD)
    ultimately have "file_inv ?k' cf ?f' xs" using h2 chk ids m n0 by (simp add: file_inv_def)
    then show ?thesis by (simp only: xs_def)
  qed
  moreover have "frag (sectors d2) x = frag (sectors (dsk k)) x"
    if "0 \<le> x \<and> x < 128 \<and> 16 \<le> x mod 64 \<and> x \<notin> set fs" for x
    using that same d1(4) by (auto dest: in_set_takeD)
  moreover have "after_write k f ?k' ?f'"
  proof (rule after_write_later)
    show "after_write ?k1 ?f1 ?k' ?f'" using aw0 by simp
    show "sectors d1 (inode_sector i) = sectors (dsk k) (inode_sector i)" if i: "1 \<le> i" "i \<le> 64" for i
      using d1(5) inode_sector_range [OF i] covers_data [OF data] by metis
    have "n \<le> 16384" "m \<le> 16" using cl(2) assms(4) df mf direct_file_gather(2) [OF df] by (auto simp: direct_file_def)
    then show "header_ok ?h \<Longrightarrow> header_ok ?h1" using n0 by (simp add: header_ok_def int_range_def)
  qed (use d1(2) in auto)
  moreover have "take m fs = fs" if "numFragments (hdr ?f') = numFragments ?h"
  proof -
    have "int m = int (length fs)" using that h2 df by (simp add: direct_file_def)
    then show ?thesis by simp
  qed
  ultimately have "saved k cf f fs ?k' ?f' cf (take m fs)"
    using set_take_subset [of m fs] by (auto simp: saved_def)
  then show ?thesis
    using \<open>WriteDir k f bytes n 0 = Some (n, ?f', ?k')\<close> \<open>fs_inv ?k' cs cf\<close> \<open>file_bytes ?k' ?f' (take m fs) = bytes\<close> by blast
qed

lemma WriteDir_spec:
  assumes "fs_inv k cs cf" and "file_inv k cf f fs" and "n = int (length bytes)" and "n \<le> 16384"
  shows "\<exists>r f' k'. WriteDir k f bytes n 0 = Some (r, f', k') \<and>
    ((\<exists>cf' fs'. fs_inv k' cs cf' \<and> saved k cf f fs k' f' cf' fs' \<and> file_bytes k' f' fs' = bytes \<and> numBytes (hdr f') = n) \<or>
     f' = f \<and> sectors (dsk k') = sectors (dsk k) \<and> numBytes (hdr f) < n \<and> numFragments (hdr f) < divRoundUp n 1024 \<and>
       int (card (free_blocks cf)) \<le> divRoundUp n 1024 div 4 - numFragments (hdr f) div 4)"
proof -
  have bytes_len: "numBytes (hdr f') = n"
    if fb: "fs_inv k' cs cf'" "file_inv k' cf' f' fs'" "file_bytes k' f' fs' = bytes" for k' cf' f' fs'
  proof -
    have "disk_ok (dsk k')" using fb(1) by (simp add: fs_inv_def)
    then show ?thesis
      using file_contents_length [OF fb(2)] fb(2,3) assms(3)
      by (auto simp: file_bytes_def file_inv_def)
  qed
  show ?thesis
  proof (cases "n \<le> numBytes (hdr f)")
    case True
    obtain f' k' fs' where w: "WriteDir k f bytes n 0 = Some (n, f', k')" "fs_inv k' cs cf" "saved k cf f fs k' f' cf fs'"
      "file_bytes k' f' fs' = bytes" using WriteDir_shrink [OF assms(1-3) True] by blast
    then have "numBytes (hdr f') = n" using bytes_len [of k' cf f' fs'] by (simp add: saved_def)
    then show ?thesis using w by blast
  next
    case False
    have p: "0 \<le> (0 :: int)" "0 \<le> numBytes (hdr f)" "0 + n \<le> 16384" using assms(2,4) by (auto simp: file_inv_def)
    have wd: "WriteDir k f bytes n 0 = WriteAt k f bytes n 0" using False by (simp add: WriteDir_def FileLength_def)
    have mx: "max (0 + n) (numBytes (hdr f)) = n" using False by simp
    obtain r f' k' where w: "WriteAt k f bytes n 0 = Some (r, f', k')"
      "r = n \<and> (\<exists>cf' fs'. fs_inv k' cs cf' \<and> written k cf f fs 0 bytes k' f' cf' fs') \<or>
       r = 0 \<and> f' = f \<and> (\<exists>d'. k' = k\<lparr>dsk := d'\<rparr> \<and> idle_after (dsk k) d' \<and> sectors d' = sectors (dsk k)) \<and>
         numFragments (hdr f) < divRoundUp n 1024 \<and>
         int (card (free_blocks cf)) \<le> divRoundUp n 1024 div 4 - numFragments (hdr f) div 4"
      using WriteAt_spec [OF assms(1,2) p(1,2) assms(3) p(3)] unfolding mx by blast
    show ?thesis
    proof (cases "\<exists>cf' fs'. fs_inv k' cs cf' \<and> written k cf f fs 0 bytes k' f' cf' fs'")
      case True
      then obtain cf' fs' where inv: "fs_inv k' cs cf'" and wr: "written k cf f fs 0 bytes k' f' cf' fs'" by blast
      have "disk_ok (dsk k)" using assms(1) by (simp add: fs_inv_def)
      then have "length (file_bytes k f fs) \<le> length bytes"
        using False assms(3) by (simp add: file_bytes_def)
      then have "overwrite (file_bytes k f fs) 0 bytes = bytes" by (simp add: overwrite_def)
      then have fb: "file_inv k' cf' f' fs'" "file_bytes k' f' fs' = bytes" and sv: "saved k cf f fs k' f' cf' fs'"
        using wr by (simp_all add: written_def saved_def)
      then show ?thesis using wd w(1) inv bytes_len [OF inv fb] by auto
    next
      case no: False
      then show ?thesis using w False wd by auto
    qed
  qed
qed

subsection \<open>A directory written is the directory read\<close>

lemma entry_bytes_length: "length (ename e) = 32 \<Longrightarrow> length (entry_bytes e) = 36"
  by (simp add: entry_bytes_def)

lemma table_bytes_length: "\<forall>e \<in> set es. length (ename e) = 32 \<Longrightarrow> length (table_bytes es) = 36 * length es"
  by (induction es) (auto simp: table_bytes_def entry_bytes_length)

lemma entries_roundtrip:
  "\<forall>e \<in> set es. entry_ok e \<Longrightarrow> entries_of_bytes (length es) (table_bytes es @ rest) = es"
proof (induction es)
  case (Cons e es)
  have e: "int_range (inode_number e)" "length (ename e) = 32" using Cons.prems by (auto simp: entry_ok_def)
  have "table_bytes (e # es) @ rest = int_to_bytes (inode_number e) @ ename e @ table_bytes es @ rest"
    by (simp add: table_bytes_def entry_bytes_def)
  then show ?case
    using Cons e bytes_to_int_int_to_bytes [of "inode_number e"] by simp
qed simp

lemma FetchFrom_written:
  assumes "fs_inv k cs cf" and "file_inv k cf f fs" and "file_bytes k f fs = table_bytes (table d)"
    and "numBytes (hdr f) = 36 * tableSize d" and "dir_ok d" and "fresh_ok fresh"
  shows "\<exists>d'. FetchFrom fresh k f = Some (d, f, k\<lparr>dsk := d'\<rparr>) \<and> idle_after (dsk k) d' \<and> sectors d' = sectors (dsk k)"
proof -
  have d: "tableSize d = int (length (table d))" "\<forall>e \<in> set (table d). entry_ok e"
    using assms(5) by (auto simp: dir_ok_def)
  have t: "length (table_bytes (table d)) = 36 * length (table d)"
    by (rule table_bytes_length) (use d(2) in \<open>auto simp: entry_ok_def\<close>)
  have nb: "numBytes (hdr f) sdiv sizeof_entry = tableSize d"
    using assms(4) d(1) by (simp add: sizeof_entry_def sdiv_nonneg)
  obtain d' where rd: "ReadAt k f (numBytes (hdr f)) 0 = Some (table_bytes (table d), f, k\<lparr>dsk := d'\<rparr>)"
    "idle_after (dsk k) d'" "sectors d' = sectors (dsk k)"
    using ReadAt_ok [OF assms(1,2), of 0 "numBytes (hdr f)"] assms(2-4) t d(1) by (auto simp: file_inv_def)
  have "length (table_bytes (new_entries fresh (tableSize d))) = 36 * length (table d)"
    using table_bytes_length [OF new_entries_ok(2) [OF assms(6)]] new_entries_ok(1) [OF assms(6)] d(1) by simp
  then have "bytes_put (table_bytes (new_entries fresh (tableSize d))) 0 (table_bytes (table d)) =
      Some (table_bytes (table d))"
    using t by (simp add: bytes_put_def)
  then have "FetchFrom fresh k f = Some (d, f, k\<lparr>dsk := d'\<rparr>)"
    using rd(1) nb entries_roundtrip [OF d(2), of "[]"] d(1) by (simp add: FetchFrom_def Let_def)
  then show ?thesis using rd(2,3) by blast
qed

lemma table_bytes_size: "dir_ok d \<Longrightarrow> 36 * tableSize d = int (length (table_bytes (table d)))"
  using table_bytes_length [of "table d"] by (auto simp: dir_ok_def entry_ok_def)

lemma WriteBack_spec:
  assumes "fs_inv k cs cf" and "file_inv k cf f fs" and "dir_ok d" and "36 * tableSize d \<le> 16384"
  shows "\<exists>f' k'. WriteBack d k f = Some (f', k') \<and>
    ((\<exists>cf' fs'. fs_inv k' cs cf' \<and> saved k cf f fs k' f' cf' fs' \<and> file_bytes k' f' fs' = table_bytes (table d) \<and>
        numBytes (hdr f') = 36 * tableSize d) \<or>
     f' = f \<and> sectors (dsk k') = sectors (dsk k) \<and> numBytes (hdr f) < 36 * tableSize d \<and>
       numFragments (hdr f) < divRoundUp (36 * tableSize d) 1024 \<and>
       int (card (free_blocks cf)) \<le> divRoundUp (36 * tableSize d) 1024 div 4 - numFragments (hdr f) div 4)"
proof -
  obtain r f' k' where w: "WriteDir k f (table_bytes (table d)) (36 * tableSize d) 0 = Some (r, f', k')"
    "(\<exists>cf' fs'. fs_inv k' cs cf' \<and> saved k cf f fs k' f' cf' fs' \<and> file_bytes k' f' fs' = table_bytes (table d) \<and>
        numBytes (hdr f') = 36 * tableSize d) \<or>
     f' = f \<and> sectors (dsk k') = sectors (dsk k) \<and> numBytes (hdr f) < 36 * tableSize d \<and>
       numFragments (hdr f) < divRoundUp (36 * tableSize d) 1024 \<and>
       int (card (free_blocks cf)) \<le> divRoundUp (36 * tableSize d) 1024 div 4 - numFragments (hdr f) div 4"
    using WriteDir_spec [OF assms(1,2) table_bytes_size [OF assms(3)] assms(4)] by blast
  then show ?thesis
    by (auto simp: WriteBack_def sizeof_entry_def mult.commute)
qed



end
