(* ===== verification/FileSys.thy ===== *)
theory FileSys
  imports DirFile
begin

text \<open>
  The naming operations of \<open>filesys/filesys.cc\<close>: \<open>CreateRoot\<close>, \<open>Create\<close>, \<open>Open\<close>, \<open>Remove\<close> and
  \<open>ChangeDirectory\<close>, put together from the free maps, the i-nodes, the open files and the directories.
  The lock that each takes is free, as the model runs one operation at a time.
\<close>

subsection \<open>Creating the root directory\<close>

definition new_header :: "fs \<Rightarrow> int \<Rightarrow> int \<Rightarrow> file_header" where
  "new_header k inode type =
     (FileHeader_new (junk k) (dsk k) inode)\<lparr>hdr_type := type, link_count := 2, numBytes := 0, numFragments := 0\<rparr>"

definition dot :: "byte list" where "dot = [46, 0]"
definition dotdot :: "byte list" where "dotdot = [46, 46, 0]"

definition write_cfm :: "super_block \<Rightarrow> int \<Rightarrow> cylinder_freemap \<Rightarrow> disk \<Rightarrow> disk option" where
  "write_cfm sb i c d = CylinderFreemap_writeBack c d (map_sector sb i) (inode_map_sector sb i)"

definition CreateRoot :: "fresh_entries \<Rightarrow> fs \<Rightarrow> fs option" where
  "CreateRoot fresh k = do {
     let sb = superBlock k;
     (cs, k) \<leftarrow> on_disk (\<lambda>d. CylinderSummary_fetchFrom d (summary_sector sb 0)) k;
     let cs = decFragment (decBlock (decInode cs));
     (cfm, k) \<leftarrow> on_disk (fetch_freemap sb 0) k;
     (pos, im) \<leftarrow> FindAndSet (inode_free_map cfm);
     let cfm = cfm\<lparr>inode_free_map := im\<rparr>;
     let inode = pos + 1;
     let h = new_header k inode 1;
     k \<leftarrow> disk_do (\<lambda>d. CylinderSummary_writeBack cs d (summary_sector sb 0)) k;
     k \<leftarrow> disk_do (write_cfm sb 0 cfm) k;
     k \<leftarrow> disk_do (FileHeader_writeBack sb h) k;
     (file, k) \<leftarrow> OpenFile_new k inode;
     (_, root) \<leftarrow> Directory_Add fresh Directory_new dot inode;
     (_, root) \<leftarrow> Directory_Add fresh root dotdot inode;
     (file, k) \<leftarrow> WriteBack root k file;
     OpenFile_delete k file }"

subsection \<open>Creating a file or a directory\<close>

text \<open>
  The loop over the cylinder groups: the map of each is fetched into \<open>cfm\<close>, and the first that has
  a free i-node ends the loop. The result is the number that \<open>Create\<close> takes for the new i-node, the
  group and the map where the loop stopped.
\<close>

fun find_inode ::
    "super_block \<Rightarrow> int list \<Rightarrow> (int \<times> cylinder_freemap) option \<Rightarrow> disk \<Rightarrow>
     (int \<times> (int \<times> cylinder_freemap) option \<times> disk) option" where
  "find_inode sb [] cfm d = Some (-1, cfm, d)"
| "find_inode sb (i # is) cfm d = do {
     (c, d) \<leftarrow> fetch_freemap sb i d;
     (pos, im) \<leftarrow> FindAndSet (inode_free_map c);
     let c = c\<lparr>inode_free_map := im\<rparr>;
     if pos \<noteq> -1 then Some (pos + 1, Some (i, c), d)
     else find_inode sb is (Some (i, c)) d }"

text \<open>What \<open>Create\<close> does for a directory: the two entries go into the current directory.\<close>

definition add_dots :: "fresh_entries \<Rightarrow> fs \<Rightarrow> int \<Rightarrow> int \<Rightarrow> fs option" where
  "add_dots fresh k cur inode = do {
     (file, k) \<leftarrow> OpenFile_new k cur;
     (new_directory, file, k) \<leftarrow> FetchFrom fresh k file;
     (_, new_directory) \<leftarrow> Directory_Add fresh new_directory dot inode;
     (_, new_directory) \<leftarrow> Directory_Add fresh new_directory dotdot cur;
     (file, k) \<leftarrow> WriteBack new_directory k file;
     OpenFile_delete k file }"

text \<open>Entering the name, and only then writing the free maps that were fetched at the beginning.\<close>

definition enter_name ::
    "fresh_entries \<Rightarrow> fs \<Rightarrow> int \<Rightarrow> byte list \<Rightarrow> int \<Rightarrow> (int \<times> cylinder_freemap) option \<Rightarrow> fs option" where
  "enter_name fresh k cur name inode cfm = do {
     (file, k) \<leftarrow> OpenFile_new k cur;
     (dir, file, k) \<leftarrow> FetchFrom fresh k file;
     (added, dir) \<leftarrow> Directory_Add fresh dir name inode;
     (file, k) \<leftarrow> (if added then do {
         (file, k) \<leftarrow> WriteBack dir k file;
         (i, c) \<leftarrow> cfm;
         k \<leftarrow> disk_do (write_cfm (superBlock k) i c) k;
         Some (file, k) }
       else Some (file, k));
     OpenFile_delete k file }"

definition Create :: "fresh_entries \<Rightarrow> fs \<Rightarrow> byte list \<Rightarrow> int \<Rightarrow> (bool \<times> fs) option" where
  "Create fresh k name type = do {
     let cur = currentDir k;
     let sb = superBlock k;
     ((new_inode, cfm), k) \<leftarrow> on_disk (\<lambda>d. map_option (\<lambda>(n, c, d). ((n, c), d))
        (find_inode sb [0..CYLINDER_GROUPS - 1] None d)) k;
     if new_inode \<noteq> -1 then do {
       let h = new_header k new_inode type;
       k \<leftarrow> disk_do (FileHeader_writeBack sb h) k;
       k \<leftarrow> (if type = 1 then add_dots fresh k cur new_inode else Some k);
       k \<leftarrow> enter_name fresh k cur name new_inode cfm;
       Some (True, k) }
     else Some (False, k) }"

subsection \<open>Opening, removing, changing the directory\<close>

definition is_root :: "byte list \<Rightarrow> bool option" where
  "is_root name = strncmp_eq 2 [47, 0] name"

definition Open :: "fresh_entries \<Rightarrow> fs \<Rightarrow> byte list \<Rightarrow> (open_file option \<times> fs) option" where
  "Open fresh k name = do {
     root \<leftarrow> is_root name;
     if root then do {
       (f, k) \<leftarrow> OpenFile_new k 1;
       Some (Some f, k) }
     else do {
       (dir_file, k) \<leftarrow> OpenFile_new k (currentDir k);
       (dir, dir_file, k) \<leftarrow> FetchFrom fresh k dir_file;
       inode \<leftarrow> Directory_Find dir name;
       going \<leftarrow> waitingFinish (metaTable k) inode;
       if going then Some (None, k)
       else do {
         k \<leftarrow> OpenFile_delete k dir_file;
         if inode \<noteq> -1 then do {
           (f, k) \<leftarrow> OpenFile_new k inode;
           Some (Some f, k) }
         else Some (None, k) } } }"

definition FS_Remove :: "fresh_entries \<Rightarrow> fs \<Rightarrow> byte list \<Rightarrow> (bool \<times> fs) option" where
  "FS_Remove fresh k name = do {
     (dir_file, k) \<leftarrow> OpenFile_new k (currentDir k);
     (dir, dir_file, k) \<leftarrow> FetchFrom fresh k dir_file;
     inode \<leftarrow> Directory_Find dir name;
     (success, dir_file, k) \<leftarrow> (if inode \<noteq> -1 then do {
         (_, dir) \<leftarrow> Directory_Remove fresh dir name;
         (dir_file, k) \<leftarrow> WriteBack dir k dir_file;
         (now, t) \<leftarrow> tryFinish (metaTable k) inode;
         let k = k\<lparr>metaTable := t\<rparr>;
         if now then do {
           (success, k) \<leftarrow> on_disk (Unlink (superBlock k) (junk k) inode) k;
           Some (success, dir_file, k) }
         else Some (False, dir_file, k) }
       else Some (False, dir_file, k));
     k \<leftarrow> OpenFile_delete k dir_file;
     Some (success, k) }"

definition ChangeDirectory :: "fresh_entries \<Rightarrow> fs \<Rightarrow> byte list \<Rightarrow> (bool \<times> fs) option" where
  "ChangeDirectory fresh k name = do {
     (dir_file, k) \<leftarrow> OpenFile_new k (currentDir k);
     (dir, dir_file, k) \<leftarrow> FetchFrom fresh k dir_file;
     inode \<leftarrow> Directory_Find dir name;
     let (success, k) = (if inode \<noteq> -1 then (True, k\<lparr>currentDir := inode\<rparr>) else (False, k));
     k \<leftarrow> OpenFile_delete k dir_file;
     Some (success, k) }"

end
