(* ===== verification/FileSys_Correct.thy ===== *)
theory FileSys_Correct
  imports FileSys
begin

text \<open>
  The naming operations on a consistent file system. \<open>closed_file\<close> is a file on the disk: its i-node is
  stored, its fragments are its own, and the table of i-nodes agrees. Opening it gives an open file
  with these bytes, closing it gives the state back.
\<close>

definition closed_file :: "fs \<Rightarrow> cylinder_freemap list \<Rightarrow> int \<Rightarrow> file_header \<Rightarrow> int list \<Rightarrow> bool" where
  "closed_file k cf i h fs \<longleftrightarrow>
     stores (sectors (dsk k)) (inode_sector i) 100 (FileHeader_bytes h) \<and> header_ok h \<and> hdr_id h = i \<and>
     1 \<le> i \<and> i \<le> 64 \<and> direct_file cf h fs \<and> 0 \<le> numBytes h \<and> numFragments h = divRoundUp (numBytes h) 1024 \<and>
     (\<forall>n \<in> set fs. 16 \<le> n mod 64) \<and>
     (\<exists>it. mt_item (metaTable k) i = Some it \<and> finish it = 0 \<and> 0 \<le> usage it \<and>
       (mt_modified it = 0 \<or> mt_modified it = last_modified h))"

definition same_context :: "fs \<Rightarrow> fs \<Rightarrow> bool" where
  "same_context k k' \<longleftrightarrow> superBlock k' = superBlock k \<and> currentDir k' = currentDir k \<and> junk k' = junk k \<and>
     below k' = below k \<and> idle_after (dsk k) (dsk k')"

lemma same_context_trans: "same_context k k' \<Longrightarrow> same_context k' k'' \<Longrightarrow> same_context k k''"
  using idle_after_trans unfolding same_context_def by auto

lemma fs_inv_cong:
  assumes "fs_inv k cs cf" and "same_context k k'" and "\<And>s. s \<in> control_sectors \<Longrightarrow> sectors (dsk k') s = sectors (dsk k) s"
  shows "fs_inv k' cs cf"
  using assms control_on_disk_cong [of "sectors (dsk k)" cs cf "sectors (dsk k')"]
  by (auto simp: fs_inv_def same_context_def)

lemma length_file_bytes:
  assumes "file_inv k cf f fs" and "fs_inv k cs cf"
  shows "int (length (file_bytes k f fs)) = numBytes (hdr f)"
  using file_contents_length [OF assms(1)] assms by (auto simp: file_bytes_def fs_inv_def file_inv_def)

lemma mt_update_item:
  assumes "mt_item t i = Some it" and "mt_inode x = mt_inode it"
  shows "\<exists>j. findInodeIndex t i = Some j \<and> t ! j = it \<and> mt_item (t[j := x]) = (mt_item t)(i := Some x)"
proof -
  obtain j where j: "findInodeIndex t i = Some j" "t ! j = it" "mt_inode it = i" by (rule mt_itemE [OF assms(1)])
  then show ?thesis using mt_item_update [OF j(1), of x] assms(2) by auto
qed

lemma OpenFile_new_ok:
  assumes "fs_inv k cs cf" and "closed_file k cf i h fs"
  obtains k' it where "OpenFile_new k i = Some (\<lparr>seekPosition = 0, hdr = h\<rparr>, k')" and "same_context k k'"
    and "sectors (dsk k') = sectors (dsk k)" and "file_inv k' cf \<lparr>seekPosition = 0, hdr = h\<rparr> fs"
    and "mt_item (metaTable k) i = Some it" and "finish it = 0" and "0 \<le> usage it"
    and "mt_item (metaTable k') = (mt_item (metaTable k))(i := Some (it\<lparr>usage := usage it + 1\<rparr>))"
proof -
  have c: "stores (sectors (dsk k)) (inode_sector i) 100 (FileHeader_bytes h)" "header_ok h" "hdr_id h = i"
    "1 \<le> i" "i \<le> 64" "direct_file cf h fs" "0 \<le> numBytes h" "numFragments h = divRoundUp (numBytes h) 1024"
    "\<forall>n \<in> set fs. 16 \<le> n mod 64" using assms(2) by (auto simp: closed_file_def)
  obtain it where it: "mt_item (metaTable k) i = Some it" "finish it = 0" "0 \<le> usage it"
    "mt_modified it = 0 \<or> mt_modified it = last_modified h" using assms(2) by (auto simp: closed_file_def)
  have inv: "superBlock k = format_super_block" "disk_ok (dsk k)" using assms(1) by (auto simp: fs_inv_def)
  note s = inode_sector_range [OF c(4,5)]
  obtain d where d: "fetch_object 100 FileHeader_of_bytes (dsk k) (inode_sector i) = Some (h, d)" "idle_after (dsk k) d"
    "sectors d = sectors (dsk k)" by (rule header.fetch_stored [OF inv(2) s(1,2) c(1,2)])
  let ?h0 = "FileHeader_new (junk k) (dsk k) i"
  have fsec: "firstSector format_super_block ?h0 = Some (inode_sector i)"
    using c(4) by (subst firstSector_eq) (simp_all add: FileHeader_new_def inode_sector_def)
  let ?x = "it\<lparr>usage := usage it + 1\<rparr>"
  obtain j where j: "findInodeIndex (metaTable k) i = Some j" "metaTable k ! j = it"
    "mt_item ((metaTable k)[j := ?x]) = (mt_item (metaTable k))(i := Some ?x)"
    using mt_update_item [OF it(1), of ?x] by auto
  let ?k' = "k\<lparr>dsk := d, metaTable := (metaTable k)[j := ?x]\<rparr>"
  have "OpenFile_new k i = Some (\<lparr>seekPosition = 0, hdr = h\<rparr>, ?k')"
    using d(1) fsec j(1,2) inv(1)
    by (simp add: OpenFile_new_def Let_def on_disk_def on_table_def FileHeader_fetchFrom_def incUsage_def)
  moreover have "checkLastModified ((metaTable k)[j := ?x]) i (last_modified h) = Some True"
  proof -
    have "mt_item ((metaTable k)[j := ?x]) i = Some ?x" using j(3) by simp
    then show ?thesis using it(4) by (auto simp: mt_item_def checkLastModified_def)
  qed
  then have "file_inv ?k' cf \<lparr>seekPosition = 0, hdr = h\<rparr> fs" using c by (simp add: file_inv_def)
  moreover have "same_context k ?k'" using d(2) by (simp add: same_context_def)
  ultimately show ?thesis using that [of ?k' it] d(3) j(3) it(1-3) by simp
qed

lemma OpenFile_delete_ok:
  assumes "mt_item (metaTable k) (hdr_id (hdr f)) = Some it" and "finish it = 0"
  obtains t where "OpenFile_delete k f = Some (k\<lparr>metaTable := t\<rparr>)"
    and "mt_item t = (mt_item (metaTable k))(hdr_id (hdr f) :=
      Some (if usage it \<le> 1 then it\<lparr>usage := 0, mt_modified := 0\<rparr> else it\<lparr>usage := usage it - 1\<rparr>))"
proof -
  let ?x = "if usage it \<le> 1 then it\<lparr>usage := 0, mt_modified := 0\<rparr> else it\<lparr>usage := usage it - 1\<rparr>"
  have "mt_inode ?x = mt_inode it" by simp
  then obtain j where j: "findInodeIndex (metaTable k) (hdr_id (hdr f)) = Some j" "metaTable k ! j = it"
    "mt_item ((metaTable k)[j := ?x]) = (mt_item (metaTable k))(hdr_id (hdr f) := Some ?x)"
    using mt_update_item [OF assms(1), of ?x] by blast
  have jl: "j < length (metaTable k)" using findInodeIndex_bound [OF j(1)] by simp
  have fj: "findInodeIndex ((metaTable k)[j := ?x]) (hdr_id (hdr f)) = Some j"
    by (subst findInodeIndex_update) (use j in auto)
  have "decUsage (metaTable k) (hdr_id (hdr f)) = Some ((metaTable k)[j := ?x])"
    using j(1,2) by (simp add: decUsage_def Let_def)
  then have "close_inode (metaTable k) (hdr_id (hdr f)) = Some (False, (metaTable k)[j := ?x])"
    using fj jl assms(2) by (simp add: close_inode_def checkFinish_def)
  then have "OpenFile_delete k f = Some (k\<lparr>metaTable := (metaTable k)[j := ?x]\<rparr>)"
    by (simp add: OpenFile_delete_def)
  then show ?thesis using that j(3) by blast
qed

subsection \<open>A directory on the disk\<close>

definition dir_on_disk ::
    "fs \<Rightarrow> cylinder_freemap list \<Rightarrow> int \<Rightarrow> directory \<Rightarrow> file_header \<Rightarrow> int list \<Rightarrow> bool" where
  "dir_on_disk k cf i d h fs \<longleftrightarrow> closed_file k cf i h fs \<and> dir_ok d \<and> numBytes h = 36 * tableSize d \<and>
     take (nat (numBytes h)) (contents (sectors (dsk k)) fs) = table_bytes (table d)"

lemma open_directory:
  assumes "fs_inv k cs cf" and "dir_on_disk k cf i d h fs" and "fresh_ok fresh"
  obtains k0 k1 it where "OpenFile_new k i = Some (\<lparr>seekPosition = 0, hdr = h\<rparr>, k0)"
    and "FetchFrom fresh k0 \<lparr>seekPosition = 0, hdr = h\<rparr> = Some (d, \<lparr>seekPosition = 0, hdr = h\<rparr>, k1)"
    and "same_context k k1" and "sectors (dsk k1) = sectors (dsk k)"
    and "file_inv k1 cf \<lparr>seekPosition = 0, hdr = h\<rparr> fs"
    and "mt_item (metaTable k) i = Some it" and "finish it = 0" and "0 \<le> usage it"
    and "mt_item (metaTable k1) = (mt_item (metaTable k))(i := Some (it\<lparr>usage := usage it + 1\<rparr>))"
proof -
  let ?f = "\<lparr>seekPosition = 0, hdr = h\<rparr>"
  have d: "closed_file k cf i h fs" "dir_ok d" "numBytes h = 36 * tableSize d"
    "take (nat (numBytes h)) (contents (sectors (dsk k)) fs) = table_bytes (table d)"
    using assms(2) by (auto simp: dir_on_disk_def)
  obtain k0 it where o: "OpenFile_new k i = Some (?f, k0)" "same_context k k0" "sectors (dsk k0) = sectors (dsk k)"
    "file_inv k0 cf ?f fs" "mt_item (metaTable k) i = Some it" "finish it = 0" "0 \<le> usage it"
    "mt_item (metaTable k0) = (mt_item (metaTable k))(i := Some (it\<lparr>usage := usage it + 1\<rparr>))"
    by (rule OpenFile_new_ok [OF assms(1) d(1)])
  have i0: "fs_inv k0 cs cf" by (rule fs_inv_cong [OF assms(1) o(2)]) (simp add: o(3))
  have fb: "file_bytes k0 ?f fs = table_bytes (table d)" using d(4) o(3) by (simp add: file_bytes_def)
  have nb: "numBytes (hdr ?f) = 36 * tableSize d" using d(3) by simp
  obtain e where e: "FetchFrom fresh k0 ?f = Some (d, ?f, k0\<lparr>dsk := e\<rparr>)" "idle_after (dsk k0) e"
    "sectors e = sectors (dsk k0)" using FetchFrom_written [OF i0 o(4) fb nb d(2) assms(3)] by blast
  have "same_context k (k0\<lparr>dsk := e\<rparr>)"
    using o(2) e(2) idle_after_trans by (auto simp: same_context_def)
  moreover have "file_inv (k0\<lparr>dsk := e\<rparr>) cf ?f fs" using o(4) by (simp add: file_inv_def)
  ultimately show ?thesis using that [of k0 "k0\<lparr>dsk := e\<rparr>" it] o e by simp
qed

subsection \<open>The free maps\<close>

text \<open>The map \<open>c\<close> of group 0, fetched from \<open>cf\<close>, in which the i-node at \<open>pos\<close> has been taken.\<close>

definition took_inode :: "cylinder_freemap list \<Rightarrow> int \<Rightarrow> cylinder_freemap \<Rightarrow> bool" where
  "took_inode cf pos c \<longleftrightarrow> freemap_ok c \<and> fragment_free_map c = fragment_free_map (cf ! 0) \<and>
     (\<forall>j. 0 \<le> j \<and> j < 32 \<longrightarrow> bm_bit (inode_free_map c) j = (j = pos \<or> inode_used cf j))"

lemma take_first_inode:
  assumes "fs_inv k cs cf" and "0 \<le> pos" and "pos < 32" and "\<not> inode_used cf pos"
    and "\<forall>j. 0 \<le> j \<and> j < pos \<longrightarrow> inode_used cf j"
  obtains m d' where "fetch_freemap format_super_block 0 (dsk k) = Some (cf ! 0, d')"
    and "idle_after (dsk k) d'" and "sectors d' = sectors (dsk k)"
    and "FindAndSet (inode_free_map (cf ! 0)) = Some (pos, m)" and "took_inode cf pos ((cf ! 0)\<lparr>inode_free_map := m\<rparr>)"
proof -
  have inv: "disk_ok (dsk k)" "group_on_disk (sectors (dsk k)) 0 (cs ! 0) (cf ! 0)"
    using assms(1) by (auto simp: fs_inv_def control_on_disk_def)
  have fm: "freemap_ok (cf ! 0)" using inv(2) by (simp add: group_on_disk_def)
  obtain d' where d': "fetch_freemap format_super_block 0 (dsk k) = Some (cf ! 0, d')" "idle_after (dsk k) d'"
    "sectors d' = sectors (dsk k)" using fetch_freemap_ok [OF inv(1) _ inv(2)] by blast
  have im: "bm_inv (inode_free_map (cf ! 0))" "numBits (inode_free_map (cf ! 0)) = 32" using fm by (auto simp: freemap_ok_def)
  have u: "inode_used cf j = bm_bit (inode_free_map (cf ! 0)) j" if "0 \<le> j" "j < 32" for j
    using that by (simp add: inode_used_def)
  obtain m where m: "FindAndSet (inode_free_map (cf ! 0)) = Some (pos, m)" "bm_inv m" "numBits m = 32"
    "\<forall>j. 0 \<le> j \<and> j < 32 \<longrightarrow> bm_bit m j = (j = pos \<or> bm_bit (inode_free_map (cf ! 0)) j)"
    using FindAndSet_first [OF im(1) assms(2)] im(2) assms(2-5) u by auto
  have "took_inode cf pos ((cf ! 0)\<lparr>inode_free_map := m\<rparr>)"
    using fm m(2-4) u by (simp add: took_inode_def freemap_ok_def)
  then show ?thesis using that d' m(1) by blast
qed

lemma find_inode_first:
  assumes "fs_inv k cs cf" and "0 \<le> pos" and "pos < 32" and "\<not> inode_used cf pos"
    and "\<forall>j. 0 \<le> j \<and> j < pos \<longrightarrow> inode_used cf j"
  obtains c d' where "find_inode format_super_block [0..CYLINDER_GROUPS - 1] None (dsk k) = Some (pos + 1, Some (0, c), d')"
    and "idle_after (dsk k) d'" and "sectors d' = sectors (dsk k)" and "took_inode cf pos c"
proof -
  obtain m d' where "fetch_freemap format_super_block 0 (dsk k) = Some (cf ! 0, d')" "idle_after (dsk k) d'"
    "sectors d' = sectors (dsk k)" "FindAndSet (inode_free_map (cf ! 0)) = Some (pos, m)"
    "took_inode cf pos ((cf ! 0)\<lparr>inode_free_map := m\<rparr>)" by (rule take_first_inode [OF assms])
  moreover have "[0..CYLINDER_GROUPS - 1] = [0, 1]" by (rule upto_groups(1))
  ultimately show ?thesis using that assms(2) by simp
qed

lemma write_cfm_ok:
  assumes "fs_inv k cs cf" and "freemap_ok c" and "\<And>x. 0 \<le> x \<Longrightarrow> x < 16 \<Longrightarrow> bm_bit (fragment_free_map c) x"
  obtains d' where "write_cfm format_super_block 0 c (dsk k) = Some d'" and "idle_after (dsk k) d'"
    and "\<And>s. s \<notin> control_sectors \<Longrightarrow> sectors d' s = sectors (dsk k) s"
    and "fs_inv (k\<lparr>dsk := d'\<rparr>) cs (cf[0 := c])"
proof -
  have inv: "disk_ok (dsk k)" "control_on_disk (sectors (dsk k)) cs cf" using assms(1) by (auto simp: fs_inv_def)
  have z: "(0 :: int) = 0 \<or> (0 :: int) = 1" by simp
  obtain d' where d': "CylinderFreemap_writeBack c (dsk k) 64 80 = Some d'" "idle_after (dsk k) d'"
    "\<And>s. s \<noteq> 64 \<Longrightarrow> s \<noteq> 80 \<Longrightarrow> sectors d' s = sectors (dsk k) s"
    "stores (sectors d') 64 8 (words_to_bytes (bm_map (fragment_free_map c)))"
    "stores (sectors d') 80 4 (words_to_bytes (bm_map (inode_free_map c)))"
    by (rule freemap_write_ok [OF inv(1) z assms(2)]) auto
  have g: "summary_ok (cs ! 0)" "stores (sectors (dsk k)) 32 12 (CylinderSummary_bytes (cs ! 0))"
    "group_on_disk (sectors (dsk k)) 1 (cs ! 1) (cf ! 1)" "length cs = 2" "length cf = 2"
    using inv(2) by (auto simp: control_on_disk_def group_on_disk_def)
  have "stores (sectors d') 32 12 (CylinderSummary_bytes (cs ! 0))"
    using stores_cong1 [of "sectors d'" 32 "sectors (dsk k)" 12] d'(3) g(2) by (simp add: divRoundUp_def disk_consts)
  then have g0: "group_on_disk (sectors d') 0 (cs ! 0) c" using g(1) assms(2) d'(4,5) by (simp add: group_on_disk_def)
  have g1: "group_on_disk (sectors d') 1 (cs ! 1) (cf ! 1)"
    by (rule group_on_disk_cong [OF g(3)]) (simp_all add: d'(3))
  have "control_on_disk (sectors d') cs (cf[0 := c])" using g0 g1 g(4,5) by (simp add: control_on_disk_def)
  moreover have "used (cf[0 := c]) x" if "0 \<le> x \<and> x < 128 \<and> x mod 64 < 16" for x
  proof (cases "x < 64")
    case True
    then have "x mod 64 = x" "x div 64 = 0" using that by simp_all
    then show ?thesis using that assms(3) [of x] g(5) by (simp add: used_def)
  next
    case False
    then have "x div 64 = 1" using that by presburger
    moreover have "used cf x" using that assms(1) by (simp add: fs_inv_def)
    ultimately show ?thesis by (simp add: used_def)
  qed
  ultimately have "fs_inv (k\<lparr>dsk := d'\<rparr>) cs (cf[0 := c])" using assms(1) d'(2) by (simp add: fs_inv_def)
  moreover have "write_cfm format_super_block 0 c (dsk k) = Some d'"
    using d'(1) by (simp add: write_cfm_def)
  moreover have "sectors d' s = sectors (dsk k) s" if "s \<notin> control_sectors" for s
    using that d'(3) by (auto simp: control_sectors_def)
  ultimately show ?thesis using that d'(2) by blast
qed

subsection \<open>Creating a file\<close>

definition junk_ok :: "fs \<Rightarrow> bool" where
  "junk_ok k \<longleftrightarrow> length (junk k) = 16 \<and> (\<forall>i \<in> set (junk k). int_range i)"

lemma new_header_ok:
  assumes "junk_ok k" and "1 \<le> i" and "i \<le> 64" and "int_range ty"
  shows "header_ok (new_header k i ty)" and "hdr_id (new_header k i ty) = i" and "numBytes (new_header k i ty) = 0"
    and "numFragments (new_header k i ty) = 0"
  using assms clock_range by (auto simp: new_header_def FileHeader_new_def header_ok_def junk_ok_def int_range_def)

lemma write_header_ok:
  assumes "fs_inv k cs cf" and "header_ok h" and "hdr_id h = i" and "1 \<le> i" and "i \<le> 64"
  obtains d' where "FileHeader_writeBack format_super_block h (dsk k) = Some d'"
    and "idle_after (dsk k) d'" and "\<And>s. s \<noteq> inode_sector i \<Longrightarrow> sectors d' s = sectors (dsk k) s"
    and "stores (sectors d') (inode_sector i) 100 (FileHeader_bytes h)"
    and "fs_inv (k\<lparr>dsk := d'\<rparr>) cs cf"
proof -
  note s = inode_sector_range [OF assms(4,5)]
  have ok: "disk_ok (dsk k)" using assms(1) by (simp add: fs_inv_def)
  obtain d' where d': "write_object 100 FileHeader_bytes h (dsk k) (inode_sector i) = Some d'" "idle_after (dsk k) d'"
    "sectors d' = sectors_put (sectors (dsk k)) (inode_sector i) (nat (divRoundUp 100 SectorSize)) (padded 100 (FileHeader_bytes h))"
    "stores (sectors d') (inode_sector i) 100 (FileHeader_bytes h)"
    by (rule header.write_stores [OF ok s(1,2) assms(2)])
  have "firstSector format_super_block h = Some (inode_sector i)"
    using assms(3,4) by (subst firstSector_eq) (simp_all add: inode_sector_def)
  then have "FileHeader_writeBack format_super_block h (dsk k) = Some d'"
    using d'(1) by (simp add: FileHeader_writeBack_def)
  moreover have out: "sectors d' s = sectors (dsk k) s" if "s \<noteq> inode_sector i" for s
    unfolding d'(3) by (rule sectors_put_out) (use that in \<open>auto simp: divRoundUp_def disk_consts\<close>)
  have "sectors d' x = sectors (dsk k) x" if "x \<in> control_sectors" for x using out s(4) that by metis
  then have "fs_inv (k\<lparr>dsk := d'\<rparr>) cs cf"
    by (intro fs_inv_cong [OF assms(1)]) (simp_all add: same_context_def d'(2))
  ultimately show ?thesis using that d'(2,4) out by blast
qed

lemma closed_file_cong:
  assumes "closed_file k cf i h fs" and "sectors (dsk k') (inode_sector i) = sectors (dsk k) (inode_sector i)"
    and "mt_item (metaTable k') i = mt_item (metaTable k) i" and "direct_file cf' h fs"
  shows "closed_file k' cf' i h fs"
proof -
  have "divRoundUp 100 SectorSize = 1" by (simp add: divRoundUp_def disk_consts)
  then have "stores (sectors (dsk k')) (inode_sector i) 100 (FileHeader_bytes h) =
      stores (sectors (dsk k)) (inode_sector i) 100 (FileHeader_bytes h)"
    by (intro stores_cong1 assms(2))
  then show ?thesis using assms(1,3,4) by (simp add: closed_file_def)
qed

lemma data_not_inode:
  assumes "1 \<le> i" and "i \<le> 64" and "g = inode_sector i" and "\<And>s. s \<noteq> g \<Longrightarrow> f' s = f s"
    and "0 \<le> n" and "n < 128" and "16 \<le> n mod 64"
  shows "frag f' n = frag f n"
  by (rule data_frag_same) (use assms(3-7) inode_sector_range(3) [OF assms(1,2)] in auto)

text \<open>The directory is not touched by the new i-node.\<close>

lemma dir_on_disk_cong:
  assumes "dir_on_disk k cf i d h fs" and "sectors (dsk k') (inode_sector i) = sectors (dsk k) (inode_sector i)"
    and "mt_item (metaTable k') i = mt_item (metaTable k) i" and "direct_file cf' h fs"
    and "\<And>n. n \<in> set fs \<Longrightarrow> frag (sectors (dsk k')) n = frag (sectors (dsk k)) n"
  shows "dir_on_disk k' cf' i d h fs"
proof -
  have "closed_file k cf i h fs" using assms(1) by (simp add: dir_on_disk_def)
  then have "closed_file k' cf' i h fs" by (rule closed_file_cong [OF _ assms(2-4)])
  then show ?thesis using assms(1) contents_cong [of fs, OF assms(5)] by (auto simp: dir_on_disk_def)
qed

lemma closed_file_data:
  assumes "closed_file k cf i h fs" and "n \<in> set fs"
  shows "0 \<le> n" and "n < 128" and "16 \<le> n mod 64"
  using assms by (auto simp: closed_file_def direct_file_def owned_def)

text \<open>
  Entering a name: what is on the disk afterwards is the directory with the new entry, and the free
  maps that were fetched before, in group 0.
\<close>

definition entered ::
    "fs \<Rightarrow> cylinder_summary list \<Rightarrow> cylinder_freemap list \<Rightarrow> int \<Rightarrow> directory \<Rightarrow> file_header \<Rightarrow> int list \<Rightarrow>
     cylinder_freemap \<Rightarrow> fs \<Rightarrow> cylinder_freemap list \<Rightarrow> file_header \<Rightarrow> int list \<Rightarrow> bool" where
  "entered k cs cf cur d' h fs c k' cf' h' fs' \<longleftrightarrow>
     fs_inv k' cs (cf'[0 := c]) \<and> same_context k k' \<and>
     stores (sectors (dsk k')) (inode_sector cur) 100 (FileHeader_bytes h') \<and> header_ok h' \<and> hdr_id h' = cur \<and>
     direct_file cf' h' fs' \<and> numBytes h' = 36 * tableSize d' \<and> numFragments h' = divRoundUp (numBytes h') 1024 \<and>
     take (nat (numBytes h')) (contents (sectors (dsk k')) fs') = table_bytes (table d') \<and>
     (\<forall>n \<in> set fs'. 16 \<le> n mod 64) \<and> (\<forall>x \<in> set fs'. x \<in> set fs \<or> \<not> used cf x) \<and>
     (numFragments h' = numFragments h \<longrightarrow> cf' = cf \<and> fs' = fs) \<and> length cf' = 2 \<and>
     map inode_free_map cf' = map inode_free_map cf \<and>
     (\<forall>i. 1 \<le> i \<and> i \<le> 64 \<and> i \<noteq> cur \<longrightarrow> sectors (dsk k') (inode_sector i) = sectors (dsk k) (inode_sector i) \<and>
        mt_item (metaTable k') i = mt_item (metaTable k) i) \<and>
     (\<exists>it. mt_item (metaTable k') cur = Some it \<and> finish it = 0 \<and> 0 \<le> usage it \<and>
        (mt_modified it = 0 \<or> mt_modified it = last_modified h'))"

lemma enter_name_ok:
  assumes "fs_inv k cs cf" and "dir_on_disk k cf cur d h fs" and "fresh_ok fresh"
    and "Directory_Add fresh d name n = Some (True, d')" and "dir_ok d'" and "36 * tableSize d' \<le> 16384"
    and "took_inode cf pos c"
    and "divRoundUp (36 * tableSize d') 1024 \<le> numFragments h \<or>
      divRoundUp (36 * tableSize d') 1024 div 4 - numFragments h div 4 < int (card (free_blocks cf))"
  shows "\<exists>k' cf' h' fs'. enter_name fresh k cur name n (Some (0, c)) = Some k' \<and> entered k cs cf cur d' h fs c k' cf' h' fs'"
proof -
  let ?f = "\<lparr>seekPosition = 0, hdr = h\<rparr>"
  have cl: "closed_file k cf cur h fs" using assms(2) by (simp add: dir_on_disk_def)
  have cur: "1 \<le> cur" "cur \<le> 64" "hdr_id h = cur" "header_ok h" using cl by (auto simp: closed_file_def)
  obtain k0 k1 it where o: "OpenFile_new k cur = Some (?f, k0)" "FetchFrom fresh k0 ?f = Some (d, ?f, k1)"
    "same_context k k1" "sectors (dsk k1) = sectors (dsk k)" "file_inv k1 cf ?f fs"
    "mt_item (metaTable k) cur = Some it" "finish it = 0" "0 \<le> usage it"
    "mt_item (metaTable k1) = (mt_item (metaTable k))(cur := Some (it\<lparr>usage := usage it + 1\<rparr>))"
    by (rule open_directory [OF assms(1-3)])
  have i1: "fs_inv k1 cs cf" by (rule fs_inv_cong [OF assms(1) o(3)]) (simp add: o(4))
  obtain f2 k2 cf2 fs2 where w: "WriteBack d' k1 ?f = Some (f2, k2)" "fs_inv k2 cs cf2"
    "saved k1 cf ?f fs k2 f2 cf2 fs2" "file_bytes k2 f2 fs2 = table_bytes (table d')" "numBytes (hdr f2) = 36 * tableSize d'"
    using WriteBack_spec [OF i1 o(5) assms(5,6)] assms(8) by auto
  have aw: "after_write k1 ?f k2 f2" and fi: "file_inv k2 cf2 f2 fs2" using w(3) by (auto simp: saved_def)
  have sb: "superBlock k2 = format_super_block" using w(2) by (simp add: fs_inv_def)
  have c: "freemap_ok c" "fragment_free_map c = fragment_free_map (cf ! 0)" using assms(7) by (auto simp: took_inode_def)
  have ctl: "bm_bit (fragment_free_map c) x" if "0 \<le> x" "x < 16" for x
    using assms(1) that c(2) by (auto simp: fs_inv_def used_def dest: spec [of _ x])
  obtain d3 where d3: "write_cfm format_super_block 0 c (dsk k2) = Some d3" "idle_after (dsk k2) d3"
    "\<And>s. s \<notin> control_sectors \<Longrightarrow> sectors d3 s = sectors (dsk k2) s" "fs_inv (k2\<lparr>dsk := d3\<rparr>) cs (cf2[0 := c])"
    using write_cfm_ok [OF w(2) c(1) ctl] by blast
  let ?k3 = "k2\<lparr>dsk := d3\<rparr>"
  let ?it = "it\<lparr>usage := usage it + 1, mt_modified := last_modified (hdr f2)\<rparr>"
  have id2: "hdr_id (hdr f2) = cur" using aw cur(3) by (simp add: after_write_def)
  have mt2: "mt_item (metaTable k2) = (mt_item (metaTable k))(cur := Some ?it)"
    using aw o(9) cur(3) by (simp add: after_write_def)
  have m3: "mt_item (metaTable ?k3) (hdr_id (hdr f2)) = Some ?it" "finish ?it = 0" using mt2 id2 o(7) by simp_all
  obtain t where t: "OpenFile_delete ?k3 f2 = Some (?k3\<lparr>metaTable := t\<rparr>)"
    "mt_item t = (mt_item (metaTable ?k3))(hdr_id (hdr f2) :=
      Some (if usage ?it \<le> 1 then ?it\<lparr>usage := 0, mt_modified := 0\<rparr> else ?it\<lparr>usage := usage ?it - 1\<rparr>))"
    by (rule OpenFile_delete_ok [OF m3])
  let ?k4 = "?k3\<lparr>metaTable := t\<rparr>"
  have "enter_name fresh k cur name n (Some (0, c)) = Some ?k4"
    using o(1,2) assms(4) w(1) d3(1) t(1) sb by (simp add: enter_name_def disk_do_def)
  moreover have "entered k cs cf cur d' h fs c ?k4 cf2 (hdr f2) fs2"
  proof -
    have out: "sectors d3 (inode_sector i) = sectors (dsk k2) (inode_sector i)" if "1 \<le> i" "i \<le> 64" for i
      using d3(3) inode_sector_range(4) [OF that] by blast
    have "stores (sectors d3) (inode_sector cur) 100 (FileHeader_bytes (hdr f2))"
      using aw cur(3) stores_cong1 [of "sectors d3" "inode_sector cur" "sectors (dsk k2)" 100] out [OF cur(1,2)]
      by (simp add: after_write_def divRoundUp_def disk_consts)
    moreover have "contents (sectors d3) fs2 = contents (sectors (dsk k2)) fs2"
    proof (rule contents_cong)
      fix x assume x: "x \<in> set fs2"
      then have "0 \<le> x" "x < 128" "16 \<le> x mod 64" using fi file_inv_frags [OF fi] by (auto simp: file_inv_def frag_ok_def)
      then show "frag (sectors d3) x = frag (sectors (dsk k2)) x" by (intro data_frag_same d3(3))
    qed
    then have "take (nat (numBytes (hdr f2))) (contents (sectors d3) fs2) = table_bytes (table d')"
      using w(4) by (simp add: file_bytes_def)
    moreover have "same_context k ?k4"
    proof (rule same_context_trans [OF o(3)])
      have "idle_after (dsk k1) (dsk k2)" using aw by (simp add: after_write_def)
      then have "idle_after (dsk k1) d3" using d3(2) by (rule idle_after_trans)
      then show "same_context k1 ?k4" using aw by (simp add: same_context_def after_write_def)
    qed
    moreover have "fs_inv ?k4 cs (cf2[0 := c])" using d3(4) by (simp add: fs_inv_def)
    moreover have "sectors d3 (inode_sector i) = sectors (dsk k) (inode_sector i) \<and> mt_item t i = mt_item (metaTable k) i"
      if "1 \<le> i \<and> i \<le> 64 \<and> i \<noteq> cur" for i
    proof
      have "\<forall>i. 1 \<le> i \<and> i \<le> 64 \<and> i \<noteq> cur \<longrightarrow> sectors (dsk k2) (inode_sector i) = sectors (dsk k1) (inode_sector i)"
        using aw cur(3) unfolding after_write_def by simp
      then show "sectors d3 (inode_sector i) = sectors (dsk k) (inode_sector i)" using that out [of i] o(4) by simp
      show "mt_item t i = mt_item (metaTable k) i" using that t(2) mt2 id2 by simp
    qed
    moreover have "length cf2 = 2" using w(2) by (simp add: fs_inv_def control_on_disk_def)
    moreover have "header_ok (hdr f2)" using aw cur(4) by (simp add: after_write_def)
    moreover have "mt_item t cur = Some (if usage ?it \<le> 1 then ?it\<lparr>usage := 0, mt_modified := 0\<rparr> else ?it\<lparr>usage := usage ?it - 1\<rparr>)"
      using t(2) id2 by simp
    ultimately show ?thesis
      using id2 fi w(3,5) o(7,8) unfolding entered_def by (auto simp: file_inv_def saved_def)
  qed
  ultimately show ?thesis by blast
qed

lemma took_used:
  assumes "took_inode cf pos c" and "length cf = 2" and "0 \<le> x"
  shows "used (cf[0 := c]) x = used cf x"
proof (cases "x < 64")
  case True
  then have "x div 64 = 0" using assms(3) by simp
  then show ?thesis using assms(1,2) by (simp add: used_def took_inode_def)
next
  case False
  then have "nat (x div 64) \<noteq> 0" by simp
  then show ?thesis by (simp add: used_def)
qed

lemma took_inode_used:
  assumes "took_inode cf pos c" and "length cf' = 2" and "map inode_free_map cf' = map inode_free_map cf" and "0 \<le> pos" and "pos < 32"
    and "0 \<le> j" and "j < 64"
  shows "inode_used (cf'[0 := c]) j = (j = pos \<or> inode_used cf j)"
proof (cases "j < 32")
  case True
  then have "j div 32 = 0" "j mod 32 = j" using assms(6) by simp_all
  then show ?thesis using assms True by (simp add: inode_used_def took_inode_def)
next
  case False
  then have g: "j div 32 = 1" using assms(7) by simp
  have "length cf = 2" using assms(2,3) by (metis length_map)
  then have "inode_free_map (cf' ! 1) = inode_free_map (cf ! 1)"
    using assms(2,3) by (metis lessI nth_map numeral_2_eq_2 One_nat_def)
  then show ?thesis using g False assms(5) by (simp add: inode_used_def)
qed

lemma direct_file_used:
  assumes "direct_file cf h fs" and "\<And>x. x \<in> set fs \<Longrightarrow> used cf x \<Longrightarrow> used cf' x"
  shows "direct_file cf' h fs"
  using assms by (auto simp: direct_file_def owned_def)

lemma direct_file_Nil: "numFragments h = 0 \<Longrightarrow> length (dataFragments h) = 16 \<Longrightarrow> direct_file cf h []"
  by (simp add: direct_file_def frags_ok_def small_run_def owned_def)

text \<open>An i-node of the table that nobody has open.\<close>

definition idle_inode :: "fs \<Rightarrow> int \<Rightarrow> bool" where
  "idle_inode k i \<longleftrightarrow> (\<exists>it. mt_item (metaTable k) i = Some it \<and> finish it = 0 \<and> 0 \<le> usage it \<and> mt_modified it = 0)"

lemma closed_file_empty:
  assumes "stores (sectors (dsk k)) (inode_sector i) 100 (FileHeader_bytes h)" and "header_ok h" and "hdr_id h = i"
    and "1 \<le> i" and "i \<le> 64" and "numBytes h = 0" and "numFragments h = 0" and "idle_inode k i"
  shows "closed_file k cf i h []"
proof -
  have "direct_file cf h []" by (rule direct_file_Nil [OF assms(7)]) (use assms(2) in \<open>simp add: header_ok_def\<close>)
  then show ?thesis using assms by (auto simp: closed_file_def idle_inode_def divRoundUp_def)
qed

lemma Create_core:
  assumes "fs_inv k cs cf" and "dir_on_disk k cf (currentDir k) d h fs" and "fresh_ok fresh" and "junk_ok k"
    and "0 \<le> pos" and "pos < 32" and "\<not> inode_used cf pos" and "\<forall>j. 0 \<le> j \<and> j < pos \<longrightarrow> inode_used cf j"
    and "pos + 1 \<noteq> currentDir k" and "idle_inode k (pos + 1)"
    and "Directory_Add fresh d name (pos + 1) = Some (True, d')" and "dir_ok d'" and "36 * tableSize d' \<le> 16384"
    and "divRoundUp (36 * tableSize d') 1024 \<le> numFragments h \<or>
      divRoundUp (36 * tableSize d') 1024 div 4 - numFragments h div 4 < int (card (free_blocks cf))"
    and "ty \<noteq> 1" and "int_range ty"
  shows "\<exists>k1 k' c cf' h' fs' nh. Create fresh k name ty = Some (True, k') \<and> took_inode cf pos c \<and> same_context k k1 \<and>
    entered k1 cs cf (currentDir k) d' h fs c k' cf' h' fs' \<and>
    closed_file k' (cf'[0 := c]) (pos + 1) nh [] \<and> numBytes nh = 0"
proof -
  let ?cur = "currentDir k" and ?i = "pos + 1"
  have sb: "superBlock k = format_super_block" using assms(1) by (simp add: fs_inv_def)
  have cl: "closed_file k cf ?cur h fs" using assms(2) by (simp add: dir_on_disk_def)
  have cur: "1 \<le> ?cur" "?cur \<le> 64" using cl by (auto simp: closed_file_def)
  have i: "1 \<le> ?i" "?i \<le> 64" using assms(5,6) by simp_all
  obtain c d1 where c: "find_inode format_super_block [0..CYLINDER_GROUPS - 1] None (dsk k) = Some (?i, Some (0, c), d1)"
    "idle_after (dsk k) d1" "sectors d1 = sectors (dsk k)" "took_inode cf pos c"
    by (rule find_inode_first [OF assms(1,5-8)])
  let ?k0 = "k\<lparr>dsk := d1\<rparr>" and ?nh = "new_header (k\<lparr>dsk := d1\<rparr>) ?i ty"
  have s0: "same_context k ?k0" using c(2) by (simp add: same_context_def)
  have i0: "fs_inv ?k0 cs cf" by (rule fs_inv_cong [OF assms(1) s0]) (simp add: c(3))
  have j0: "junk_ok ?k0" using assms(4) by (simp add: junk_ok_def)
  note nh = new_header_ok [OF j0 i assms(16)]
  obtain d2 where d2: "FileHeader_writeBack format_super_block ?nh (dsk ?k0) = Some d2" "idle_after (dsk ?k0) d2"
    "\<And>s. s \<noteq> inode_sector ?i \<Longrightarrow> sectors d2 s = sectors (dsk ?k0) s"
    "stores (sectors d2) (inode_sector ?i) 100 (FileHeader_bytes ?nh)" "fs_inv (?k0\<lparr>dsk := d2\<rparr>) cs cf"
    using write_header_ok [OF i0 nh(1,2) i] by blast
  let ?k1 = "k\<lparr>dsk := d2\<rparr>"
  have same: "sectors d2 s = sectors (dsk k) s" if "s \<noteq> inode_sector ?i" for s using d2(3) that c(3) by simp
  have s1: "same_context k ?k1" using c(2) d2(2) idle_after_trans by (auto simp: same_context_def)
  have i1: "fs_inv ?k1 cs cf" using d2(5) by simp
  have "inode_sector ?cur \<noteq> inode_sector ?i" using inode_sector_inj [OF cur(1) i(1)] assms(9) by auto
  then have sc: "sectors d2 (inode_sector ?cur) = sectors (dsk k) (inode_sector ?cur)" by (rule same)
  have fr: "frag (sectors d2) n = frag (sectors (dsk k)) n" if "n \<in> set fs" for n
    by (rule data_not_inode [OF i refl same closed_file_data [OF cl that]])
  have df: "direct_file cf h fs" using cl by (simp add: closed_file_def)
  have dd: "dir_on_disk ?k1 cf ?cur d h fs"
    using dir_on_disk_cong [OF assms(2), of ?k1] sc df fr by simp
  obtain k' cf' h' fs' where e: "enter_name fresh ?k1 ?cur name ?i (Some (0, c)) = Some k'"
    "entered ?k1 cs cf ?cur d' h fs c k' cf' h' fs'"
    using enter_name_ok [OF i1 dd assms(3,11-13) c(4) assms(14)] by blast
  have "Create fresh k name ty = Some (True, k')"
    using c(1) d2(1) e(1) sb i(1) assms(15) by (simp add: Create_def on_disk_def disk_do_def Let_def)
  moreover have "closed_file k' (cf'[0 := c]) ?i ?nh []"
  proof -
    have keep: "sectors (dsk k') (inode_sector ?i) = sectors (dsk ?k1) (inode_sector ?i)"
      "mt_item (metaTable k') ?i = mt_item (metaTable ?k1) ?i"
      using e(2) i assms(9) by (auto simp: entered_def)
    have nl: "length (dataFragments ?nh) = 16" using nh(1) by (simp add: header_ok_def)
    have cl1: "closed_file ?k1 cf ?i ?nh []"
      by (rule closed_file_empty) (use d2(4) nh i assms(10) in \<open>simp_all add: idle_inode_def\<close>)
    show ?thesis by (rule closed_file_cong [OF cl1 keep direct_file_Nil [OF nh(4) nl]])
  qed
  ultimately show ?thesis using c(4) s1 e(2) nh(3) by blast
qed

lemma entered_dir:
  assumes "entered k cs cf cur d' h fs c k' cf' h' fs'" and "took_inode cf pos c" and "cf' = cf"
    and "1 \<le> cur" and "cur \<le> 64" and "dir_ok d'"
  shows "dir_on_disk k' (cf'[0 := c]) cur d' h' fs'"
proof -
  have e: "direct_file cf' h' fs'" "length cf' = 2" using assms(1) by (auto simp: entered_def)
  have "direct_file (cf'[0 := c]) h' fs'"
  proof (rule direct_file_used [OF e(1)])
    fix x assume "x \<in> set fs'" and u: "used cf' x"
    then have "0 \<le> x" using e(1) by (auto simp: direct_file_def owned_def)
    then show "used (cf'[0 := c]) x" using took_used [OF assms(2)] e(2) u assms(3) by simp
  qed
  then show ?thesis
    using assms(1,4-6) unfolding dir_on_disk_def closed_file_def entered_def by (auto simp: dir_ok_def)
qed

lemma waitingFinish_item: "mt_item t i = Some it \<Longrightarrow> waitingFinish t i = Some (finish it = 1)"
  by (auto simp: mt_item_def waitingFinish_def)

lemma Open_found:
  assumes "fs_inv k cs cf" and "dir_on_disk k cf (currentDir k) d h fs" and "fresh_ok fresh"
    and "is_root name = Some False" and "terminated name" and "Directory_Find d name = Some i"
    and "closed_file k cf i h' fs'" and "i \<noteq> currentDir k"
  shows "\<exists>k'. Open fresh k name = Some (Some \<lparr>seekPosition = 0, hdr = h'\<rparr>, k') \<and> fs_inv k' cs cf \<and>
    file_inv k' cf \<lparr>seekPosition = 0, hdr = h'\<rparr> fs' \<and> sectors (dsk k') = sectors (dsk k) \<and> same_context k k' \<and>
    dir_on_disk k' cf (currentDir k) d h fs \<and>
    (\<exists>it. mt_item (metaTable k') i = Some it \<and> finish it = 0 \<and> 1 \<le> usage it \<and>
       (mt_modified it = 0 \<or> mt_modified it = last_modified h'))"
proof -
  let ?f = "\<lparr>seekPosition = 0, hdr = h\<rparr>" and ?cur = "currentDir k"
  obtain k0 k1 it where o: "OpenFile_new k ?cur = Some (?f, k0)" "FetchFrom fresh k0 ?f = Some (d, ?f, k1)"
    "same_context k k1" "sectors (dsk k1) = sectors (dsk k)" "file_inv k1 cf ?f fs"
    "mt_item (metaTable k) ?cur = Some it" "finish it = 0" "0 \<le> usage it"
    "mt_item (metaTable k1) = (mt_item (metaTable k))(?cur := Some (it\<lparr>usage := usage it + 1\<rparr>))"
    by (rule open_directory [OF assms(1-3)])
  have hid: "hdr_id h = ?cur" using assms(2) by (simp add: dir_on_disk_def closed_file_def)
  obtain it' where it': "mt_item (metaTable k) i = Some it'" "finish it' = 0" and i1: "1 \<le> i"
    using assms(7) by (auto simp: closed_file_def)
  have wf: "waitingFinish (metaTable k1) i = Some False"
    using waitingFinish_item [of "metaTable k1" i it'] o(9) it' assms(8) by simp
  let ?it = "it\<lparr>usage := usage it + 1\<rparr>"
  have m: "mt_item (metaTable k1) (hdr_id (hdr ?f)) = Some ?it" "finish ?it = 0" using o(7,9) hid by simp_all
  obtain t where t: "OpenFile_delete k1 ?f = Some (k1\<lparr>metaTable := t\<rparr>)"
    "mt_item t = (mt_item (metaTable k1))(hdr_id (hdr ?f) :=
      Some (if usage ?it \<le> 1 then ?it\<lparr>usage := 0, mt_modified := 0\<rparr> else ?it\<lparr>usage := usage ?it - 1\<rparr>))"
    by (rule OpenFile_delete_ok [OF m])
  let ?k2 = "k1\<lparr>metaTable := t\<rparr>"
  have s2: "same_context k ?k2" using o(3) by (simp add: same_context_def)
  have i2: "fs_inv ?k2 cs cf" by (rule fs_inv_cong [OF assms(1) s2]) (simp add: o(4))
  have mi: "mt_item (metaTable ?k2) i = mt_item (metaTable k) i" using t(2) o(9) hid assms(8) by simp
  have df: "direct_file cf h' fs'" using assms(7) by (simp add: closed_file_def)
  have sec: "sectors (dsk ?k2) (inode_sector i) = sectors (dsk k) (inode_sector i)" using o(4) by simp
  obtain k3 it3 where k3: "OpenFile_new ?k2 i = Some (\<lparr>seekPosition = 0, hdr = h'\<rparr>, k3)" "same_context ?k2 k3"
    "sectors (dsk k3) = sectors (dsk ?k2)" "file_inv k3 cf \<lparr>seekPosition = 0, hdr = h'\<rparr> fs'"
    "mt_item (metaTable ?k2) i = Some it3" "finish it3 = 0" "0 \<le> usage it3"
    "mt_item (metaTable k3) = (mt_item (metaTable ?k2))(i := Some (it3\<lparr>usage := usage it3 + 1\<rparr>))"
    by (rule OpenFile_new_ok [OF i2 closed_file_cong [OF assms(7) sec mi df]])
  have "same_context k k3" by (rule same_context_trans [OF s2 k3(2)])
  moreover have "dir_on_disk k3 cf ?cur d h fs"
  proof -
    have "mt_modified it = 0 \<or> mt_modified it = last_modified h"
      using assms(2) o(6) by (auto simp: dir_on_disk_def closed_file_def)
    then have "\<exists>it. mt_item (metaTable k3) ?cur = Some it \<and> finish it = 0 \<and> 0 \<le> usage it \<and>
        (mt_modified it = 0 \<or> mt_modified it = last_modified h)"
      using k3(8) t(2) hid assms(8) o(7,8) by auto
    moreover have "sectors (dsk k3) = sectors (dsk k)" using o(4) k3(3) by simp
    ultimately show ?thesis using assms(2) unfolding dir_on_disk_def closed_file_def by (elim conjE) (intro conjI, simp_all only:)
  qed
  moreover have "\<exists>it. mt_item (metaTable k3) i = Some it \<and> finish it = 0 \<and> 1 \<le> usage it \<and>
      (mt_modified it = 0 \<or> mt_modified it = last_modified h')"
    using k3(5-8) mi assms(7) by (auto simp: closed_file_def)
  moreover have "Open fresh k name = Some (Some \<lparr>seekPosition = 0, hdr = h'\<rparr>, k3)"
    using o(1,2) assms(4,6) wf t(1) k3(1) i1 by (simp add: Open_def)
  moreover have "fs_inv k3 cs cf" by (rule fs_inv_cong [OF i2 k3(2)]) (simp add: k3(3))
  ultimately show ?thesis using k3(3,4) o(4) by simp
qed

text \<open>What a new name does to the size of the directory.\<close>

lemma Add_size:
  assumes "dir_inv fresh d" and "terminated name" and "name_fits name" and "inode_range n"
    and "Directory_Find d name = Some (-1)"
  obtains d' where "Directory_Add fresh d name n = Some (True, d')" and "dir_ok d'" and "tableSize d' = tableSize d + 1"
    and "Directory_Find d' name = Some n"
proof -
  have d: "dir_ok d" "fresh_ok fresh" using assms(1) by (simp_all add: dir_inv_def)
  have nl: "dir_lookup d (cstr name) = None" using dir.absent_iff [OF assms(1,2)] assms(5) by simp
  obtain d' where d': "Directory_Add fresh d name n = Some (True, d')" "dir_ok d'" "listing d' = listing d @ [(cstr name, n)]"
    using Directory_Add_new [OF d assms(2) _ nl] assms(3,4) by (auto simp: name_fits_def FileNameMaxLen_def inode_range_def)
  have "length (listing d') = length (listing d) + 1" using d'(3) by simp
  then have "tableSize d' = tableSize d + 1" using d(1) d'(2) by (simp add: dir_ok_def listing_def)
  moreover have "Directory_Find d' name = Some n"
    using Directory_Find_spec [OF d'(2) assms(2)] dir_lookup_new [OF d'(3) nl] by simp
  ultimately show ?thesis using that d'(1,2) by blast
qed

end
