(* ===== verification/Naming.thy ===== *)
theory Naming
  imports FileSys_Correct
begin

text \<open>
  What the naming operations promise: a new root directory on a formatted disk, a created file that
  can be opened, and the two ways in which the source breaks: a name that is not there, and a
  directory that grows while a name is entered.
\<close>

subsection \<open>The root directory\<close>

lemma write_summary_ok:
  assumes "fs_inv k cs cf" and "summary_ok s"
  obtains d' where "CylinderSummary_writeBack s (dsk k) 32 = Some d'" and "idle_after (dsk k) d'"
    and "fs_inv (k\<lparr>dsk := d'\<rparr>) (cs[0 := s]) cf" and "\<And>x. x \<noteq> 32 \<Longrightarrow> sectors d' x = sectors (dsk k) x"
proof -
  have inv: "disk_ok (dsk k)" "control_on_disk (sectors (dsk k)) cs cf" using assms(1) by (auto simp: fs_inv_def)
  have s: "(0 :: int) \<le> 32" "32 + divRoundUp 12 SectorSize \<le> NumSectors" by (simp_all add: disk_consts divRoundUp_def)
  obtain d' where d': "write_object 12 CylinderSummary_bytes s (dsk k) 32 = Some d'" "idle_after (dsk k) d'"
    "sectors d' = sectors_put (sectors (dsk k)) 32 (nat (divRoundUp 12 SectorSize)) (padded 12 (CylinderSummary_bytes s))"
    "stores (sectors d') 32 12 (CylinderSummary_bytes s)"
    by (rule summary.write_stores [OF inv(1) s assms(2)])
  have out: "sectors d' x = sectors (dsk k) x" if "x \<noteq> 32" for x
    unfolding d'(3) by (rule sectors_put_out) (use that in \<open>auto simp: divRoundUp_def disk_consts\<close>)
  have g: "group_on_disk (sectors (dsk k)) 0 (cs ! 0) (cf ! 0)" "group_on_disk (sectors (dsk k)) 1 (cs ! 1) (cf ! 1)"
    "length cs = 2" "length cf = 2" using inv(2) by (auto simp: control_on_disk_def)
  have "group_on_disk (sectors d') 0 s (cf ! 0)"
    using g(1) d'(4) assms(2) stores_cong1 [of "sectors d'" 64 "sectors (dsk k)" 8] stores_cong1 [of "sectors d'" 80 "sectors (dsk k)" 4]
      out by (simp add: group_on_disk_def)
  moreover have "group_on_disk (sectors d') 1 (cs ! 1) (cf ! 1)"
    by (rule group_on_disk_cong [OF g(2)]) (simp_all add: out)
  ultimately have "control_on_disk (sectors d') (cs[0 := s]) cf" using g(3,4) by (simp add: control_on_disk_def)
  then have "fs_inv (k\<lparr>dsk := d'\<rparr>) (cs[0 := s]) cf" using assms(1) d'(2) by (simp add: fs_inv_def)
  then show ?thesis using that d'(1,2) out by (simp add: CylinderSummary_writeBack_def)
qed

lemma fetch_summary_ok:
  assumes "fs_inv k cs cf"
  obtains d' where "CylinderSummary_fetchFrom (dsk k) 32 = Some (cs ! 0, d')" and "idle_after (dsk k) d'"
    and "sectors d' = sectors (dsk k)" and "summary_ok (cs ! 0)"
proof -
  have inv: "disk_ok (dsk k)" "summary_ok (cs ! 0)" "stores (sectors (dsk k)) 32 12 (CylinderSummary_bytes (cs ! 0))"
    using assms by (auto simp: fs_inv_def control_on_disk_def group_on_disk_def)
  have s: "(0 :: int) \<le> 32" "32 + divRoundUp 12 SectorSize \<le> NumSectors" by (simp_all add: disk_consts divRoundUp_def)
  obtain d' where "fetch_object 12 CylinderSummary_of_bytes (dsk k) 32 = Some (cs ! 0, d')" "idle_after (dsk k) d'"
    "sectors d' = sectors (dsk k)" by (rule summary.fetch_stored [OF inv(1) s inv(3,2)])
  then show ?thesis using that inv(2) by (simp add: CylinderSummary_fetchFrom_def)
qed

text \<open>The two entries of a new directory.\<close>

lemma dot_names: "terminated dot" "terminated dotdot" "cstr dot = [46]" "cstr dotdot = [46, 46]"
  "name_fits dot" "name_fits dotdot"
  by (simp_all add: dot_def dotdot_def terminated_def cstr_def name_fits_def FileNameMaxLen_def)

lemma add_dots_ok:
  assumes "fresh_ok fresh" and "inode_range i" and "inode_range j"
  obtains r1 r2 where "Directory_Add fresh Directory_new dot i = Some (True, r1)"
    and "Directory_Add fresh r1 dotdot j = Some (True, r2)" and "dir_ok r2" and "tableSize r2 = 2"
    and "listing r2 = [([46], i), ([46, 46], j)]"
proof -
  have n: "dir_ok Directory_new" "listing Directory_new = []"
    by (simp_all add: dir_ok_def Directory_new_def listing_def)
  obtain r1 where r1: "Directory_Add fresh Directory_new dot i = Some (True, r1)" "dir_ok r1" "listing r1 = [([46], i)]"
    using Directory_Add_new [OF n(1) assms(1) dot_names(1)] dot_names(3) n(2) assms(2)
    by (auto simp: dir_lookup_def inode_range_def)
  obtain r2 where r2: "Directory_Add fresh r1 dotdot j = Some (True, r2)" "dir_ok r2"
    "listing r2 = [([46], i), ([46, 46], j)]"
    using Directory_Add_new [OF r1(2) assms(1) dot_names(2)] dot_names(4) r1(3) assms(3)
    by (auto simp: dir_lookup_def inode_range_def)
  have "length (listing r2) = 2" using r2(3) by simp
  then have "tableSize r2 = 2" using r2(2) by (simp add: dir_ok_def listing_def)
  then show ?thesis using that r1(1) r2 by blast
qed

text \<open>Opening a file, writing a directory to it and closing it again.\<close>

lemma save_directory:
  assumes "fs_inv k cs cf" and "closed_file k cf i h fs" and "dir_ok root" and "36 * tableSize root \<le> 16384"
    and "divRoundUp (36 * tableSize root) 1024 div 4 - numFragments h div 4 < int (card (free_blocks cf))"
  shows "\<exists>f k1 f' k2 k' cf' h' fs'. OpenFile_new k i = Some (f, k1) \<and> WriteBack root k1 f = Some (f', k2) \<and>
    OpenFile_delete k2 f' = Some k' \<and> same_context k k' \<and> fs_inv k' cs cf' \<and> dir_on_disk k' cf' i root h' fs' \<and>
    map inode_free_map cf' = map inode_free_map cf \<and>
    (\<forall>j. j \<noteq> i \<longrightarrow> mt_item (metaTable k') j = mt_item (metaTable k) j) \<and>
    (\<forall>x. 0 \<le> x \<and> x < 128 \<and> x \<notin> set fs \<and> x \<notin> set fs' \<longrightarrow> used cf' x = used cf x)"
proof -
  let ?f = "\<lparr>seekPosition = 0, hdr = h\<rparr>"
  have h: "hdr_id h = i" "1 \<le> i" "i \<le> 64" "header_ok h" using assms(2) by (auto simp: closed_file_def)
  obtain k1 it where o: "OpenFile_new k i = Some (?f, k1)" "same_context k k1" "sectors (dsk k1) = sectors (dsk k)"
    "file_inv k1 cf ?f fs" "mt_item (metaTable k) i = Some it" "finish it = 0" "0 \<le> usage it"
    "mt_item (metaTable k1) = (mt_item (metaTable k))(i := Some (it\<lparr>usage := usage it + 1\<rparr>))"
    by (rule OpenFile_new_ok [OF assms(1,2)])
  have i1: "fs_inv k1 cs cf" by (rule fs_inv_cong [OF assms(1) o(2)]) (simp add: o(3))
  obtain f2 k2 cf2 fs2 where w: "WriteBack root k1 ?f = Some (f2, k2)" "fs_inv k2 cs cf2" "saved k1 cf ?f fs k2 f2 cf2 fs2"
    "file_bytes k2 f2 fs2 = table_bytes (table root)" "numBytes (hdr f2) = 36 * tableSize root"
    using WriteBack_spec [OF i1 o(4) assms(3,4)] assms(5) by auto
  have aw: "after_write k1 ?f k2 f2" and fi: "file_inv k2 cf2 f2 fs2" and im: "map inode_free_map cf2 = map inode_free_map cf"
    using w(3) by (auto simp: saved_def)
  let ?it = "it\<lparr>usage := usage it + 1, mt_modified := last_modified (hdr f2)\<rparr>"
  have id2: "hdr_id (hdr f2) = i" using aw h(1) by (simp add: after_write_def)
  have mt2: "mt_item (metaTable k2) = (mt_item (metaTable k))(i := Some ?it)"
    using aw o(8) h(1) by (simp add: after_write_def)
  have m2: "mt_item (metaTable k2) (hdr_id (hdr f2)) = Some ?it" "finish ?it = 0" using mt2 id2 o(6) by simp_all
  obtain t where t: "OpenFile_delete k2 f2 = Some (k2\<lparr>metaTable := t\<rparr>)"
    "mt_item t = (mt_item (metaTable k2))(hdr_id (hdr f2) :=
      Some (if usage ?it \<le> 1 then ?it\<lparr>usage := 0, mt_modified := 0\<rparr> else ?it\<lparr>usage := usage ?it - 1\<rparr>))"
    by (rule OpenFile_delete_ok [OF m2])
  let ?k' = "k2\<lparr>metaTable := t\<rparr>"
  have "idle_after (dsk k1) (dsk k2)" using aw by (simp add: after_write_def)
  then have sc: "same_context k ?k'"
    using o(2) aw by (intro same_context_trans [OF o(2)]) (simp add: same_context_def after_write_def)
  have "mt_item t i = Some (if usage ?it \<le> 1 then ?it\<lparr>usage := 0, mt_modified := 0\<rparr> else ?it\<lparr>usage := usage ?it - 1\<rparr>)"
    using t(2) id2 by simp
  then have "\<exists>it'. mt_item t i = Some it' \<and> finish it' = 0 \<and> 0 \<le> usage it' \<and>
      (mt_modified it' = 0 \<or> mt_modified it' = last_modified (hdr f2))" using o(6,7) by auto
  moreover have "stores (sectors (dsk k2)) (inode_sector i) 100 (FileHeader_bytes (hdr f2))" "header_ok (hdr f2)"
    using aw h(1,4) by (simp_all add: after_write_def)
  ultimately have "dir_on_disk ?k' cf2 i root (hdr f2) fs2"
    using fi id2 h(2,3) w(4,5) assms(3) by (simp add: dir_on_disk_def closed_file_def file_inv_def file_bytes_def)
  moreover have "\<forall>j. j \<noteq> i \<longrightarrow> mt_item t j = mt_item (metaTable k) j" using t(2) mt2 id2 by simp
  moreover have "fs_inv ?k' cs cf2" using w(2) by (simp add: fs_inv_def)
  moreover have "\<forall>x. 0 \<le> x \<and> x < 128 \<and> x \<notin> set fs \<and> x \<notin> set fs2 \<longrightarrow> used cf2 x = used cf x"
    using w(3) by (simp add: saved_def)
  ultimately show ?thesis using o(1) w(1) t(1) sc im
    by (intro exI [of _ ?f] exI [of _ k1] exI [of _ f2] exI [of _ k2] exI [of _ ?k'] exI [of _ cf2] exI [of _ "hdr f2"] exI [of _ fs2]) simp
qed

text \<open>The first half of \<open>CreateRoot\<close>: the i-node is taken and its empty header written.\<close>

lemma reserve_root:
  assumes "fs_inv k cs cf" and "junk_ok k" and "\<not> inode_used cf 0" and "0 < num_free_inode (cs ! 0)"
    and "0 < num_free_block (cs ! 0)" and "0 < num_free_fragment (cs ! 0)"
  obtains d1 m d2 d3 d4 d5 where "CylinderSummary_fetchFrom (dsk k) 32 = Some (cs ! 0, d1)"
    and "fetch_freemap format_super_block 0 d1 = Some (cf ! 0, d2)"
    and "FindAndSet (inode_free_map (cf ! 0)) = Some (0, m)" and "took_inode cf 0 ((cf ! 0)\<lparr>inode_free_map := m\<rparr>)"
    and "CylinderSummary_writeBack (decFragment (decBlock (decInode (cs ! 0)))) d2 32 = Some d3"
    and "write_cfm format_super_block 0 ((cf ! 0)\<lparr>inode_free_map := m\<rparr>) d3 = Some d4"
    and "FileHeader_writeBack format_super_block (new_header (k\<lparr>dsk := d2\<rparr>) 1 1) d4 = Some d5"
    and "stores (sectors d5) (inode_sector 1) 100 (FileHeader_bytes (new_header (k\<lparr>dsk := d2\<rparr>) 1 1))"
    and "idle_after (dsk k) d5"
    and "fs_inv (k\<lparr>dsk := d5\<rparr>) (cs[0 := decFragment (decBlock (decInode (cs ! 0)))]) (cf[0 := (cf ! 0)\<lparr>inode_free_map := m\<rparr>])"
proof -
  obtain d1 where d1: "CylinderSummary_fetchFrom (dsk k) 32 = Some (cs ! 0, d1)" "idle_after (dsk k) d1"
    "sectors d1 = sectors (dsk k)" "summary_ok (cs ! 0)" by (rule fetch_summary_ok [OF assms(1)])
  let ?k1 = "k\<lparr>dsk := d1\<rparr>" and ?s = "decFragment (decBlock (decInode (cs ! 0)))"
  have i1: "fs_inv ?k1 cs cf"
    by (rule fs_inv_cong [OF assms(1)]) (simp_all add: same_context_def d1)
  have so: "summary_ok ?s"
    using d1(4) assms(4-6) by (simp add: summary_ok_def decInode_def decBlock_def decFragment_def int_range_def)
  obtain m d2 where c: "fetch_freemap format_super_block 0 (dsk ?k1) = Some (cf ! 0, d2)" "idle_after (dsk ?k1) d2"
    "sectors d2 = sectors (dsk ?k1)" "FindAndSet (inode_free_map (cf ! 0)) = Some (0, m)"
    "took_inode cf 0 ((cf ! 0)\<lparr>inode_free_map := m\<rparr>)"
    by (rule take_first_inode [OF i1]) (use assms(3) in auto)
  define c0 where "c0 = (cf ! 0)\<lparr>inode_free_map := m\<rparr>"
  have tk: "took_inode cf 0 c0" using c(5) by (simp add: c0_def)
  let ?k2 = "k\<lparr>dsk := d2\<rparr>"
  have i2: "fs_inv ?k2 cs cf"
    by (rule fs_inv_cong [OF i1]) (use c(2,3) in \<open>simp_all add: same_context_def\<close>)
  define h where "h = new_header ?k2 1 1"
  have h: "header_ok h" "hdr_id h = 1" "numBytes h = 0" "numFragments h = 0"
    using new_header_ok [of ?k2 1 1] assms(2) by (simp_all add: h_def junk_ok_def int_range_def)
  obtain d3 where d3: "CylinderSummary_writeBack ?s (dsk ?k2) 32 = Some d3" "idle_after (dsk ?k2) d3"
    "fs_inv (?k2\<lparr>dsk := d3\<rparr>) (cs[0 := ?s]) cf" by (rule write_summary_ok [OF i2 so])
  let ?k3 = "k\<lparr>dsk := d3\<rparr>" and ?cs = "cs[0 := ?s]" and ?cf = "cf[0 := c0]"
  have i3: "fs_inv ?k3 ?cs cf" using d3(3) by simp
  have ctl: "bm_bit (fragment_free_map c0) x" if "0 \<le> x" "x < 16" for x
    using assms(1) that tk by (auto simp: fs_inv_def used_def took_inode_def dest: spec [of _ x])
  have fo: "freemap_ok c0" using tk by (simp add: took_inode_def)
  obtain d4 where d4: "write_cfm format_super_block 0 c0 (dsk ?k3) = Some d4" "idle_after (dsk ?k3) d4"
    "fs_inv (?k3\<lparr>dsk := d4\<rparr>) ?cs ?cf" using write_cfm_ok [OF i3 fo ctl] by blast
  let ?k4 = "k\<lparr>dsk := d4\<rparr>"
  have i4: "fs_inv ?k4 ?cs ?cf" using d4(3) by simp
  obtain d5 where d5: "FileHeader_writeBack format_super_block h (dsk ?k4) = Some d5" "idle_after (dsk ?k4) d5"
    "stores (sectors d5) (inode_sector 1) 100 (FileHeader_bytes h)" "fs_inv (?k4\<lparr>dsk := d5\<rparr>) ?cs ?cf"
    using write_header_ok [OF i4 h(1,2)] by auto
  let ?k5 = "k\<lparr>dsk := d5\<rparr>" and ?f = "\<lparr>seekPosition = 0, hdr = h\<rparr>"
  have i5: "fs_inv ?k5 ?cs ?cf" using d5(4) by simp
  have "idle_after (dsk k) d5"
    using d1(2) c(2) d3(2) d4(2) d5(2) by (simp add: idle_after_def)
  then show ?thesis
    using that [OF d1(1) _ c(4,5)] c(1) d3(1) d4(1) d5(1,3) i5 unfolding c0_def h_def by simp
qed

lemma CreateRoot_ok:
  assumes "fs_inv k cs cf" and "junk_ok k" and "fresh_ok fresh" and "\<not> inode_used cf 0" and "idle_inode k 1"
    and "0 < card (free_blocks cf)" and "0 < num_free_inode (cs ! 0)" and "0 < num_free_block (cs ! 0)"
    and "0 < num_free_fragment (cs ! 0)"
  shows "\<exists>k' cf' root h fs. CreateRoot fresh k = Some k' \<and> same_context k k' \<and>
    fs_inv k' (cs[0 := decFragment (decBlock (decInode (cs ! 0)))]) cf' \<and> dir_on_disk k' cf' 1 root h fs \<and>
    listing root = [([46], 1), ([46, 46], 1)] \<and> length fs = 1 \<and>
    (\<forall>j. 0 \<le> j \<and> j < 64 \<longrightarrow> inode_used cf' j = (j = 0 \<or> inode_used cf j)) \<and>
    (\<forall>i. i \<noteq> 1 \<longrightarrow> mt_item (metaTable k') i = mt_item (metaTable k) i) \<and>
    (\<forall>x. 0 \<le> x \<and> x < 128 \<and> x \<notin> set fs \<longrightarrow> used cf' x = used cf x)"
proof -
  let ?s = "decFragment (decBlock (decInode (cs ! 0)))"
  have sb: "superBlock k = format_super_block" using assms(1) by (simp add: fs_inv_def)
  obtain d1 m d2 d3 d4 d5 where d: "CylinderSummary_fetchFrom (dsk k) 32 = Some (cs ! 0, d1)"
    "fetch_freemap format_super_block 0 d1 = Some (cf ! 0, d2)"
    "FindAndSet (inode_free_map (cf ! 0)) = Some (0, m)" "took_inode cf 0 ((cf ! 0)\<lparr>inode_free_map := m\<rparr>)"
    "CylinderSummary_writeBack ?s d2 32 = Some d3"
    "write_cfm format_super_block 0 ((cf ! 0)\<lparr>inode_free_map := m\<rparr>) d3 = Some d4"
    "FileHeader_writeBack format_super_block (new_header (k\<lparr>dsk := d2\<rparr>) 1 1) d4 = Some d5"
    "stores (sectors d5) (inode_sector 1) 100 (FileHeader_bytes (new_header (k\<lparr>dsk := d2\<rparr>) 1 1))" "idle_after (dsk k) d5"
    "fs_inv (k\<lparr>dsk := d5\<rparr>) (cs[0 := ?s]) (cf[0 := (cf ! 0)\<lparr>inode_free_map := m\<rparr>])"
    by (rule reserve_root [OF assms(1,2,4,7-9)])
  define c0 h where "c0 = (cf ! 0)\<lparr>inode_free_map := m\<rparr>" and "h = new_header (k\<lparr>dsk := d2\<rparr>) 1 1"
  let ?k5 = "k\<lparr>dsk := d5\<rparr>" and ?cs = "cs[0 := ?s]" and ?cf = "cf[0 := c0]"
  have tk: "took_inode cf 0 c0" and i5: "fs_inv ?k5 ?cs ?cf" using d(4,10) by (simp_all add: c0_def)
  have s5: "same_context k ?k5" using d(9) by (simp add: same_context_def)
  have h: "header_ok h" "hdr_id h = 1" "numBytes h = 0" "numFragments h = 0"
    using new_header_ok [of "k\<lparr>dsk := d2\<rparr>" 1 1] assms(2) by (simp_all add: h_def junk_ok_def int_range_def)
  have cl: "closed_file ?k5 ?cf 1 h []"
    by (rule closed_file_empty) (use d(8) h assms(5) in \<open>simp_all add: idle_inode_def h_def\<close>)
  have ir: "inode_range 1" by (simp add: inode_range_def int_range_def)
  obtain r1 root where r: "Directory_Add fresh Directory_new dot 1 = Some (True, r1)"
    "Directory_Add fresh r1 dotdot 1 = Some (True, root)" "dir_ok root" "tableSize root = 2"
    "listing root = [([46], 1), ([46, 46], 1)]" by (rule add_dots_ok [OF assms(3) ir ir])
  have lcf: "length cf = 2" using assms(1) by (simp add: fs_inv_def control_on_disk_def)
  have fb: "free_blocks ?cf = free_blocks cf" unfolding free_blocks_def using took_used [OF tk lcf] by auto
  have up: "divRoundUp (36 * tableSize root) 1024 = 1" by (simp add: r(4) divRoundUp_def)
  obtain f k6 f' k7 k' cf' h' fs' where w: "OpenFile_new ?k5 1 = Some (f, k6)" "WriteBack root k6 f = Some (f', k7)"
    "OpenFile_delete k7 f' = Some k'" "same_context ?k5 k'" "fs_inv k' ?cs cf'" "dir_on_disk k' cf' 1 root h' fs'"
    "map inode_free_map cf' = map inode_free_map ?cf"
    "\<forall>j. j \<noteq> 1 \<longrightarrow> mt_item (metaTable k') j = mt_item (metaTable ?k5) j"
    "\<forall>x. 0 \<le> x \<and> x < 128 \<and> x \<notin> set [] \<and> x \<notin> set fs' \<longrightarrow> used cf' x = used ?cf x"
    using save_directory [OF i5 cl r(3)] r(4) up fb assms(6) h(4) by auto
  have "CreateRoot fresh k = Some k'"
    using d(1-3,5-7) w(1-3) r(1,2) sb
    by (simp add: CreateRoot_def on_disk_def disk_do_def Let_def c0_def h_def)
  moreover have "length fs' = 1"
  proof -
    have "numBytes h' = 36 * tableSize root" "int (length fs') = numFragments h'" "numFragments h' = divRoundUp (numBytes h') 1024"
      using w(6) unfolding dir_on_disk_def closed_file_def direct_file_def by blast+
    then show ?thesis using up by simp
  qed
  moreover have "inode_used cf' j = (j = 0 \<or> inode_used cf j)" if "0 \<le> j \<and> j < 64" for j
  proof -
    have "length cf' = 2" using w(5) by (simp add: fs_inv_def control_on_disk_def)
    moreover have "nat (j div 32) < 2" using that by auto
    ultimately have "inode_free_map (cf' ! nat (j div 32)) = inode_free_map (?cf ! nat (j div 32))"
      using w(7) lcf by (metis length_list_update nth_map)
    then have "inode_used cf' j = inode_used ?cf j" by (simp add: inode_used_def)
    then show ?thesis using took_inode_used [OF tk lcf refl] that by simp
  qed
  moreover have "\<forall>x. 0 \<le> x \<and> x < 128 \<and> x \<notin> set fs' \<longrightarrow> used cf' x = used cf x"
    using w(9) took_used [OF tk lcf] by simp
  ultimately show ?thesis using same_context_trans [OF s5 w(4)] w(5,6,8) r(5) by auto
qed

lemma mounted:
  assumes "disk_ok d" and "length j = 16" and "\<forall>i \<in> set j. int_range i" and "0 \<le> b"
  obtains k cf where "FileSystem_new True d j b = Some k" and "fs_inv k [fresh_summary, fresh_summary] cf"
    and "junk_ok k" and "currentDir k = 1" and "fresh_map (cf ! 0)" and "fresh_map (cf ! 1)"
    and "\<forall>i. 1 \<le> i \<and> i \<le> 64 \<longrightarrow> idle_inode k i" and "metaTable k = MetaTable_new 64"
proof -
  obtain d1 cf where d1: "format_disk d = Some d1" "idle_after d d1"
    "control_on_disk (sectors d1) [fresh_summary, fresh_summary] cf" "fresh_map (cf ! 0)" "fresh_map (cf ! 1)"
    by (rule format_disk_ok [OF assms(1)])
  let ?k = "\<lparr>dsk = d1, superBlock = format_super_block, metaTable = MetaTable_new 64, currentDir = 1,
      junk = j, below = b\<rparr>"
  have "FileSystem_new True d j b = Some ?k" using d1(1) by (simp add: FileSystem_new_def)
  moreover have "fs_inv ?k [fresh_summary, fresh_summary] cf"
    using d1(2,3) fresh_used [OF d1(4,5)] assms(4) by (auto simp: fs_inv_def)
  moreover have "idle_inode ?k i" if "1 \<le> i" "i \<le> 64" for i
    using that by (simp add: idle_inode_def MetaTable_new_item MetaTableItem_new_def)
  ultimately show ?thesis using that [of ?k cf] d1(4,5) assms(2,3) by (simp add: junk_ok_def)
qed

lemma fresh_free_blocks:
  assumes "fresh_map (cf ! 0)" and "fresh_map (cf ! 1)"
  shows "1 < card (free_blocks cf)"
proof -
  have "{4, 5} \<subseteq> free_blocks cf" by (auto simp: free_blocks_def fresh_used [OF assms])
  then have "card {4, 5 :: int} \<le> card (free_blocks cf)" by (intro card_mono) simp_all
  then show ?thesis by simp
qed

lemma CreateRoot_spec:
  assumes "disk_ok d" and "length j = 16" and "\<forall>i \<in> set j. int_range i" and "0 \<le> b" and "fresh_ok fresh"
  shows "\<exists>k0 k cs cf root h fs. FileSystem_new True d j b = Some k0 \<and> CreateRoot fresh k0 = Some k \<and>
    currentDir k = 1 \<and> junk_ok k \<and> fs_inv k cs cf \<and> dir_on_disk k cf 1 root h fs \<and> length fs = 1 \<and>
    listing root = [([46], 1), ([46, 46], 1)] \<and> (\<forall>i. 0 \<le> i \<and> i < 64 \<longrightarrow> inode_used cf i = (i = 0)) \<and>
    (\<forall>i. 2 \<le> i \<and> i \<le> 64 \<longrightarrow> idle_inode k i) \<and> (\<forall>i. 64 < i \<or> i < 1 \<longrightarrow> mt_item (metaTable k) i = None) \<and>
    0 < card (free_blocks cf)"
proof -
  obtain k0 cf0 where k0: "FileSystem_new True d j b = Some k0" "fs_inv k0 [fresh_summary, fresh_summary] cf0"
    "junk_ok k0" "currentDir k0 = 1" "fresh_map (cf0 ! 0)" "fresh_map (cf0 ! 1)"
    "\<forall>i. 1 \<le> i \<and> i \<le> 64 \<longrightarrow> idle_inode k0 i" "metaTable k0 = MetaTable_new 64"
    using mounted [OF assms(1-4)] by metis
  have u: "\<not> inode_used cf0 i" if "0 \<le> i" "i < 64" for i using fresh_inode [OF k0(5,6) that] .
  have c: "0 < card (free_blocks cf0)" using fresh_free_blocks [OF k0(5,6)] by simp
  obtain k cf root h fs where k: "CreateRoot fresh k0 = Some k" "same_context k0 k"
    "fs_inv k ([fresh_summary, fresh_summary][0 := decFragment (decBlock (decInode ([fresh_summary, fresh_summary] ! 0)))]) cf"
    "dir_on_disk k cf 1 root h fs" "listing root = [([46], 1), ([46, 46], 1)]" "length fs = 1"
    "\<forall>j. 0 \<le> j \<and> j < 64 \<longrightarrow> inode_used cf j = (j = 0 \<or> inode_used cf0 j)"
    "\<forall>i. i \<noteq> 1 \<longrightarrow> mt_item (metaTable k) i = mt_item (metaTable k0) i"
    "\<forall>x. 0 \<le> x \<and> x < 128 \<and> x \<notin> set fs \<longrightarrow> used cf x = used cf0 x"
    using CreateRoot_ok [OF k0(2,3) assms(5) u _ c] k0(7) by (auto simp: fresh_summary_def)
  have "\<forall>i. 2 \<le> i \<and> i \<le> 64 \<longrightarrow> idle_inode k i" using k0(7) k(8) by (simp add: idle_inode_def)
  moreover have "\<forall>i. 64 < i \<or> i < 1 \<longrightarrow> mt_item (metaTable k) i = None"
    using k(8) k0(8) by (auto simp: MetaTable_new_item)
  moreover have "currentDir k = 1" "junk_ok k" using k(2) k0(3,4) by (simp_all add: same_context_def junk_ok_def)
  moreover have "0 < card (free_blocks cf)"
  proof -
    obtain n where n: "fs = [n]" using k(6) by (cases fs) auto
    have free: "\<not> used cf x" if "16 \<le> x" "x < 24" "x \<noteq> n" for x
      using k(9) n that fresh_used [OF k0(5,6), of x] by simp
    have "5 \<in> free_blocks cf" if "n < 20" using free that by (auto simp: free_blocks_def)
    moreover have "4 \<in> free_blocks cf" if "20 \<le> n" using free that by (auto simp: free_blocks_def)
    ultimately have "free_blocks cf \<noteq> {}" by (cases "n < 20") auto
    then show ?thesis using card_gt_0_iff finite_free_blocks by blast
  qed
  ultimately show ?thesis using k0(1) k(1,3-7) u by blast
qed

text \<open>A file with a new name: the directory has the name, the i-node is an empty file, and no fragment has been taken.\<close>

lemma Create_spec:
  assumes "fs_inv k cs cf" and "dir_on_disk k cf (currentDir k) d h fs" and "fresh_ok fresh" and "junk_ok k"
    and "0 \<le> pos" and "pos < 32" and "\<not> inode_used cf pos" and "\<forall>j. 0 \<le> j \<and> j < pos \<longrightarrow> inode_used cf j"
    and "pos + 1 \<noteq> currentDir k" and "idle_inode k (pos + 1)" and "terminated name" and "name_fits name"
    and "Directory_Find d name = Some (-1)"
    and "divRoundUp (36 * (tableSize d + 1)) 1024 = numFragments h" and "ty \<noteq> 1" and "int_range ty"
  obtains k' cf' d' h' fs' nh where "Create fresh k name ty = Some (True, k')" and "fs_inv k' cs cf'" and "currentDir k' = currentDir k"
    and "dir_on_disk k' cf' (currentDir k') d' h' fs'" and "Directory_Find d' name = Some (pos + 1)"
    and "closed_file k' cf' (pos + 1) nh []" and "numBytes nh = 0"
    and "\<forall>x. 0 \<le> x \<longrightarrow> used cf' x = used cf x"
    and "\<forall>j. 0 \<le> j \<and> j < 64 \<longrightarrow> inode_used cf' j = (j = pos \<or> inode_used cf j)"
proof -
  have cl: "closed_file k cf (currentDir k) h fs" and dok: "dir_ok d" using assms(2) by (simp_all add: dir_on_disk_def)
  have di: "dir_inv fresh d" using dok assms(3) by (simp add: dir_inv_def)
  have ir: "inode_range (pos + 1)" using assms(5,6) by (simp add: inode_range_def int_range_def)
  obtain d' where d': "Directory_Add fresh d name (pos + 1) = Some (True, d')" "dir_ok d'" "tableSize d' = tableSize d + 1"
    "Directory_Find d' name = Some (pos + 1)" by (rule Add_size [OF di assms(11,12) ir assms(13)])
  have "direct_file cf h fs" using cl by (simp add: closed_file_def)
  then have nh: "numFragments h \<le> 16" by (rule direct_file_gather(2))
  have ts: "0 \<le> 36 * tableSize d'" using d'(2) by (simp add: dir_ok_def)
  have sz: "36 * tableSize d' \<le> 16384"
    using divRoundUp_le_iff [OF ts, of 1024 16] nh assms(14) d'(3) by simp
  have up: "divRoundUp (36 * tableSize d') 1024 \<le> numFragments h" using assms(14) d'(3) by simp
  obtain k1 k' c cf' h' fs' nh where c: "Create fresh k name ty = Some (True, k')" "took_inode cf pos c" "same_context k k1"
    "entered k1 cs cf (currentDir k) d' h fs c k' cf' h' fs'" "closed_file k' (cf'[0 := c]) (pos + 1) nh []" "numBytes nh = 0"
    using Create_core [OF assms(1-10) d'(1,2) sz disjI1 [OF up] assms(15,16)] by blast
  have e: "fs_inv k' cs (cf'[0 := c])" "same_context k1 k'" "cf' = cf" "length cf' = 2"
    "map inode_free_map cf' = map inode_free_map cf"
    using c(4) assms(14) d'(3) by (auto simp: entered_def)
  have cur: "currentDir k' = currentDir k" using c(3) e(2) by (simp add: same_context_def)
  have dd: "dir_on_disk k' (cf'[0 := c]) (currentDir k') d' h' fs'"
    unfolding cur by (rule entered_dir [OF c(4,2) e(3) _ _ d'(2)]) (use cl in \<open>simp_all add: closed_file_def\<close>)
  show ?thesis
    by (rule that [OF c(1) e(1) cur dd d'(4) c(5,6)])
      (use took_used [OF c(2)] took_inode_used [OF c(2) e(4,5) assms(5,6)] e(3,4) in auto)
qed

lemma Create_then_Open_spec:
  assumes "fs_inv k cs cf" and "dir_on_disk k cf (currentDir k) d h fs" and "fresh_ok fresh" and "junk_ok k"
    and "0 \<le> pos" and "pos < 32" and "\<not> inode_used cf pos" and "\<forall>j. 0 \<le> j \<and> j < pos \<longrightarrow> inode_used cf j"
    and "pos + 1 \<noteq> currentDir k" and "idle_inode k (pos + 1)" and "terminated name" and "name_fits name"
    and "is_root name = Some False" and "Directory_Find d name = Some (-1)"
    and "divRoundUp (36 * (tableSize d + 1)) 1024 = numFragments h"
  shows "\<exists>k' f k'' cf'. Create fresh k name 0 = Some (True, k') \<and> Open fresh k' name = Some (Some f, k'') \<and>
    hdr_id (hdr f) = pos + 1 \<and> numBytes (hdr f) = 0 \<and> seekPosition f = 0 \<and>
    fs_inv k'' cs cf' \<and> file_inv k'' cf' f [] \<and>
    (\<forall>j. 0 \<le> j \<and> j < 64 \<longrightarrow> inode_used cf' j = (j = pos \<or> inode_used cf j))"
proof -
  have ty: "(0 :: int) \<noteq> 1" "int_range 0" by (simp_all add: int_range_def)
  obtain k' cf' d' h' fs' nh where c: "Create fresh k name 0 = Some (True, k')" "fs_inv k' cs cf'" "currentDir k' = currentDir k"
    "dir_on_disk k' cf' (currentDir k') d' h' fs'" "Directory_Find d' name = Some (pos + 1)"
    "closed_file k' cf' (pos + 1) nh []" "numBytes nh = 0" "\<forall>x. 0 \<le> x \<longrightarrow> used cf' x = used cf x"
    "\<forall>j. 0 \<le> j \<and> j < 64 \<longrightarrow> inode_used cf' j = (j = pos \<or> inode_used cf j)"
    by (rule Create_spec [OF assms(1-12,14,15) ty])
  have ne: "pos + 1 \<noteq> currentDir k'" using assms(9) c(3) by simp
  obtain k'' where o: "Open fresh k' name = Some (Some \<lparr>seekPosition = 0, hdr = nh\<rparr>, k'')" "fs_inv k'' cs cf'"
    "file_inv k'' cf' \<lparr>seekPosition = 0, hdr = nh\<rparr> []"
    using Open_found [OF c(2,4) assms(3,13,11) c(5,6) ne] by blast
  have "hdr_id nh = pos + 1" using c(6) by (simp add: closed_file_def)
  then show ?thesis
    using c(1,7,9) o
    by (intro exI [of _ k'] exI [of _ "\<lparr>seekPosition = 0, hdr = nh\<rparr>"] exI [of _ k''] exI [of _ cf']) simp
qed

subsection \<open>What the naming operations promise\<close>


lemma zero_entries_ok: "fresh_ok zero_entries"
  using Directory_new_inv by (simp add: dir_inv_def)



lemma root_state:
  obtains k0 k cs cf root h fs where "FileSystem_new True blank_disk (replicate 16 0) 0 = Some k0"
    and "CreateRoot zero_entries k0 = Some k" and "currentDir k = 1" and "junk_ok k" and "fs_inv k cs cf"
    and "dir_on_disk k cf (currentDir k) root h fs" and "tableSize root = 2" and "numFragments h = 1"
    and "\<not> inode_used cf 1" and "inode_used cf 0" and "idle_inode k 2"
    and "Directory_Find root [97, 0] = Some (-1)" and "mt_item (metaTable k) (-1) = None" and "0 < card (free_blocks cf)"
proof -
  have "\<forall>i \<in> set (replicate 16 0). int_range i" by (simp add: int_range_def)
  then obtain k0 k cs cf root h fs where k: "FileSystem_new True blank_disk (replicate 16 0) 0 = Some k0"
    "CreateRoot zero_entries k0 = Some k" "currentDir k = 1" "junk_ok k" "fs_inv k cs cf" "dir_on_disk k cf 1 root h fs"
    "length fs = 1" "listing root = [([46], 1), ([46, 46], 1)]" "\<forall>i. 0 \<le> i \<and> i < 64 \<longrightarrow> inode_used cf i = (i = 0)"
    "\<forall>i. 2 \<le> i \<and> i \<le> 64 \<longrightarrow> idle_inode k i" "\<forall>i. 64 < i \<or> i < 1 \<longrightarrow> mt_item (metaTable k) i = None"
    "0 < card (free_blocks cf)"
    using CreateRoot_spec [OF blank_disk_ok _ _ _ zero_entries_ok, of "replicate 16 0" 0] by auto
  have ok: "dir_ok root" "int (length fs) = numFragments h"
    using k(6) unfolding dir_on_disk_def closed_file_def direct_file_def by blast+
  have "length (listing root) = 2" using k(8) by simp
  then have "tableSize root = 2" using ok(1) by (simp add: dir_ok_def listing_def)
  moreover have "Directory_Find root [97, 0] = Some (-1)"
    using Directory_Find_spec [OF ok(1), of "[97, 0]"] k(8) by (simp add: terminated_def cstr_def dir_lookup_def)
  ultimately show ?thesis using that [OF k(1-5)] k(3,6,7,9-12) ok(2) by simp
qed


text \<open>
  Opening a name that is not in the current directory has no defined answer: the source asks the
  table of i-nodes about number -1, which it does not have, and the search returns no value.
\<close>

theorem Open_of_a_missing_name:
  assumes "fs_inv k cs cf" and "dir_on_disk k cf (currentDir k) d h fs" and "fresh_ok fresh"
    and "is_root name = Some False" and "Directory_Find d name = Some (-1)" and "mt_item (metaTable k) (-1) = None"
  shows "Open fresh k name = None"
proof -
  obtain k0 k1 it where o: "OpenFile_new k (currentDir k) = Some (\<lparr>seekPosition = 0, hdr = h\<rparr>, k0)"
    "FetchFrom fresh k0 \<lparr>seekPosition = 0, hdr = h\<rparr> = Some (d, \<lparr>seekPosition = 0, hdr = h\<rparr>, k1)"
    "mt_item (metaTable k1) = (mt_item (metaTable k))(currentDir k := Some (it\<lparr>usage := usage it + 1\<rparr>))"
    using open_directory [OF assms(1-3)] by metis
  have "currentDir k \<noteq> -1" using assms(2) by (auto simp: dir_on_disk_def closed_file_def)
  then have "mt_item (metaTable k1) (-1) = None" using o(3) assms(6) by simp
  then have "waitingFinish (metaTable k1) (-1) = None" by (simp add: mt_item_def waitingFinish_def)
  then show ?thesis using o(1,2) assms(4,5) by (simp add: Open_def)
qed

theorem Open_of_a_missing_name_witness:
  "\<exists>k0 k. FileSystem_new True blank_disk (replicate 16 0) 0 = Some k0 \<and> CreateRoot zero_entries k0 = Some k \<and>
     Open zero_entries k [97, 0] = None"
proof -
  obtain k0 k cs cf root h fs where k: "FileSystem_new True blank_disk (replicate 16 0) 0 = Some k0"
    "CreateRoot zero_entries k0 = Some k" "currentDir k = 1" "junk_ok k" "fs_inv k cs cf"
    "dir_on_disk k cf (currentDir k) root h fs" "tableSize root = 2" "numFragments h = 1" "\<not> inode_used cf 1"
    "inode_used cf 0" "idle_inode k 2" "Directory_Find root [97, 0] = Some (-1)" "mt_item (metaTable k) (-1) = None"
    by (rule root_state)
  have "is_root [97, 0] = Some False" unfolding is_root_def numeral_2_eq_2 by simp
  then show ?thesis using Open_of_a_missing_name [OF k(5,6) zero_entries_ok _ k(12,13)] k(1,2) by blast
qed



end
