(* ===== verification/Kernel_State.thy ===== *)
theory Kernel_State
  imports Mips NList
begin

text \<open>
  The state of the running kernel (\<open>threads/\<close>, \<open>machine/interrupt.h\<close>, \<open>machine/stats.h\<close>,
  \<open>machine/console.h\<close>, \<open>userprog/addrspace.h\<close>): threads, semaphores, locks, conditions and
  synchronized lists, the interrupt hardware with its clock and pending interrupts, the console.

  A thread that gives up the processor stops in the middle of nested C++ calls. Its stack is the list
  of \<open>frame\<close>s: each names a function and the point from which it still has to run, the innermost
  first. Control passes to another thread, or an interrupt handler runs, only where the source calls
  \<open>OneTick\<close>, \<open>Idle\<close> or \<open>SWITCH\<close>; between two such points a function runs without
  interruption, so one frame is one step of the machine.

  Queues of threads and semaphores are the sequences that the lists of \<open>lib/list.cc\<close> refine,
  with the assertions of that code (\<open>seq_Append\<close> stops on an item that is already there).
\<close>

subsection \<open>Enumerations\<close>

datatype IntStatus = IntOff | IntOn
datatype MachineStatus = IdleMode | SystemMode | UserMode
datatype IntType = TimerInt | DiskInt | ConsoleWriteInt | ConsoleReadInt | NetworkSendInt | NetworkRecvInt
datatype ThreadStatus = JUST_CREATED | RUNNING | READY | BLOCKED

definition UserTick :: int where "UserTick = 1"
definition SystemTick :: int where "SystemTick = 10"
definition ConsoleTime :: int where "ConsoleTime = 100"
definition TimerTicks :: int where "TimerTicks = 100"

subsection \<open>Names of the objects\<close>

text \<open>
  Pointers to threads are numbers, given out one after the other. A lock owns a semaphore, a
  synchronized list owns a lock and a condition, each waiter on a condition owns a semaphore, and the
  two consoles own a lock and a semaphore each; a kernel thread can only name the objects it has
  created itself.
\<close>

type_synonym tid = nat

datatype lock_id = UserLock nat | ListLock nat | ConsoleInLock | ConsoleOutLock
datatype sem_id = UserSem nat | LockSem lock_id | Waiter nat | ConsoleInSem | ConsoleOutSem
datatype cond_id = UserCond nat | ListCond nat

datatype callback = TimerCallBack | ConsoleOutputCallBack | ConsoleInputCallBack

subsection \<open>What a thread still has to run\<close>

text \<open>
  The frames up to \<open>Halt\<close> are the calls that the function of a thread is made of; the others are
  the rests of functions that have begun: the loops of \<open>P\<close>, \<open>Sleep\<close> and
  \<open>RemoveFront\<close>, the part of \<open>Run\<close> behind \<open>SWITCH\<close>, the statements behind a
  call that can switch.
\<close>

datatype frame =
    SemP sem_id | SemV sem_id
  | Acquire lock_id | Release lock_id
  | Wait cond_id lock_id | Signal cond_id lock_id | Broadcast cond_id lock_id
  | ListAppend nat int | ListRemoveFront nat
  | Yield | Fork "frame list"
  | PutChar byte | GetChar
  | Execute nat | Halt
  | Begin | Finish
  | OneTick | EndTick MachineStatus | Restore IntStatus
  | SleepLoop bool | AfterSwitch
  | PLoop sem_id IntStatus | SetHolder lock_id | DeleteWaiter nat
  | AppendItem nat int | RemoveLoop nat | RemoveItem nat
  | DevicePutChar byte | DeviceGetChar
  | UserLoop

subsection \<open>Records\<close>

record thread =
  thread_status :: ThreadStatus
  stack :: "frame list"
  userRegisters :: "u32 list"
  space :: "nat option"
  returned :: "int list"

record semaphore =
  sem_value :: int
  sem_queue :: "tid list"

record synch_list = list_items :: "int list"

record PendingInterrupt =
  callOnInterrupt :: callback
  pi_when :: int
  pi_type :: IntType
  pi_address :: nat

record addr_space =
  as_pageTable :: "TranslationEntry list"
  numPages :: u32

text \<open>What the host gives on a poll of the keyboard: nothing yet, the end of the file, or a character.\<close>

datatype poll = NotReady | EndOfFile | Typed int

record kernel =
  threads :: "tid \<Rightarrow> thread option"
  next_thread :: tid
  currentThread :: tid
  readyList :: "tid list"
  toBeDestroyed :: "tid option"
  level :: IntStatus
  pending :: "PendingInterrupt list"
  next_pending :: nat
  inHandler :: bool
  yieldOnReturn :: bool
  mstatus :: MachineStatus
  total_ticks :: int
  idle_ticks :: int
  system_ticks :: int
  user_ticks :: int
  chars_read :: int
  chars_written :: int
  semaphores :: "sem_id \<Rightarrow> semaphore option"
  lock_holder :: "lock_id \<Rightarrow> tid option"
  wait_queue :: "cond_id \<Rightarrow> nat list"
  next_waiter :: nat
  synch_lists :: "nat \<Rightarrow> synch_list option"
  randomize :: bool
  timer_disable :: bool
  rand :: "nat \<Rightarrow> int"
  rand_count :: nat
  putBusy :: bool
  screen :: "byte list"
  incoming :: int
  keyboard :: "nat \<Rightarrow> poll"
  poll_count :: nat
  machine :: Machine.machine
  spaces :: "nat \<Rightarrow> addr_space option"
  table_of :: "nat option"
  halted :: bool

subsection \<open>Threads by their pointers, and their stacks\<close>

definition with_thread :: "tid \<Rightarrow> (thread \<Rightarrow> thread) \<Rightarrow> kernel \<Rightarrow> kernel option" where
  "with_thread t f k =
     map_option (\<lambda>th. k\<lparr>threads := (threads k)(t \<mapsto> f th)\<rparr>) (threads k t)"

definition this_thread :: "kernel \<Rightarrow> thread option" where
  "this_thread k = threads k (currentThread k)"

text \<open>The running thread enters functions: their frames go on top of its stack.\<close>

definition enter :: "frame list \<Rightarrow> kernel \<Rightarrow> kernel option" where
  "enter fs k = with_thread (currentThread k) (\<lambda>th. th\<lparr>stack := fs @ stack th\<rparr>) k"

definition set_status :: "tid \<Rightarrow> ThreadStatus \<Rightarrow> kernel \<Rightarrow> kernel option" where
  "set_status t st = with_thread t (\<lambda>th. th\<lparr>thread_status := st\<rparr>)"

text \<open>A call gives its value to the running thread.\<close>

definition give :: "int \<Rightarrow> kernel \<Rightarrow> kernel option" where
  "give v k = with_thread (currentThread k) (\<lambda>th. th\<lparr>returned := returned th @ [v]\<rparr>) k"

end
