(* ===== verification/Synch.thy ===== *)
theory Synch
  imports Kernel_State
begin

text \<open>
  The operations of the scheduler, of threads and of the synchronization objects
  (\<open>threads/scheduler.cc\<close>, \<open>thread.cc\<close>, \<open>synch.cc\<close>, \<open>synchlist.cc\<close>), and the part of
  \<open>machine/interrupt.cc\<close> that they call. An operation that may give up the processor does what
  comes before that point and enters the frames of what comes after it.
\<close>

subsection \<open>Interrupt levels and pending interrupts\<close>

text \<open>
  \<open>SetLevel\<close> ends with the call of \<open>OneTick\<close> when it enables interrupts; that call is entered
  as a frame. The order of pending interrupts is that of \<open>PendingCompare\<close>.
\<close>

definition SetLevel :: "IntStatus \<Rightarrow> kernel \<Rightarrow> (IntStatus \<times> kernel) option" where
  "SetLevel now k = do {
     let old = level k;
     ASSERT (now = IntOff \<or> \<not> inHandler k);
     let k = k\<lparr>level := now\<rparr>;
     k \<leftarrow> (if now = IntOn \<and> old = IntOff then enter [OneTick] k else Some k);
     Some (old, k) }"

definition YieldOnReturn :: "kernel \<Rightarrow> kernel option" where
  "YieldOnReturn k = do { ASSERT (inHandler k); Some (k\<lparr>yieldOnReturn := True\<rparr>) }"

definition PendingCompare :: "PendingInterrupt \<Rightarrow> PendingInterrupt \<Rightarrow> int" where
  "PendingCompare x y =
     (if pi_when x < pi_when y then -1 else if pi_when y < pi_when x then 1 else 0)"

definition Schedule :: "callback \<Rightarrow> int \<Rightarrow> IntType \<Rightarrow> kernel \<Rightarrow> kernel option" where
  "Schedule toCall fromNow type k = do {
     let when' = total_ticks k + fromNow;
     let toOccur = \<lparr>callOnInterrupt = toCall, pi_when = when', pi_type = type, pi_address = next_pending k\<rparr>;
     let k = k\<lparr>next_pending := Suc (next_pending k)\<rparr>;
     ASSERT (fromNow > 0);
     ps \<leftarrow> seq_Insert PendingCompare (pending k) toOccur;
     Some (k\<lparr>pending := ps\<rparr>) }"

definition Interrupt_Halt :: "kernel \<Rightarrow> kernel" where
  "Interrupt_Halt k = k\<lparr>halted := True\<rparr>"

subsection \<open>The scheduler\<close>

definition ReadyToRun :: "tid \<Rightarrow> kernel \<Rightarrow> kernel option" where
  "ReadyToRun t k = do {
     ASSERT (level k = IntOff);
     k \<leftarrow> set_status t READY k;
     rl \<leftarrow> seq_Append (readyList k) t;
     Some (k\<lparr>readyList := rl\<rparr>) }"

definition FindNextToRun :: "kernel \<Rightarrow> (tid option \<times> kernel) option" where
  "FindNextToRun k = do {
     ASSERT (level k = IntOff);
     if readyList k = [] then Some (None, k)
     else do {
       (t, rl) \<leftarrow> seq_RemoveFront (readyList k);
       Some (Some t, k\<lparr>readyList := rl\<rparr>) } }"

definition SaveUserState :: "tid \<Rightarrow> kernel \<Rightarrow> kernel option" where
  "SaveUserState t k = do {
     th \<leftarrow> threads k t;
     rs \<leftarrow> foldM (\<lambda>i rs. do { v \<leftarrow> ReadRegister (machine k) i; arr_set rs i v })
             [0..NumTotalRegs - 1] (userRegisters th);
     with_thread t (\<lambda>th. th\<lparr>userRegisters := rs\<rparr>) k }"

definition RestoreUserState :: "tid \<Rightarrow> kernel \<Rightarrow> kernel option" where
  "RestoreUserState t k = do {
     th \<leftarrow> threads k t;
     m \<leftarrow> foldM (\<lambda>i m. do { v \<leftarrow> arr_get (userRegisters th) i; WriteRegister m i v })
            [0..NumTotalRegs - 1] (machine k);
     Some (k\<lparr>machine := m\<rparr>) }"

text \<open>\<open>AddrSpace::RestoreState\<close>: the machine points to the page table of the address space.\<close>

definition RestoreState :: "nat \<Rightarrow> kernel \<Rightarrow> kernel option" where
  "RestoreState sp k = do {
     as \<leftarrow> spaces k sp;
     Some (k\<lparr>table_of := Some sp, machine := (machine k)\<lparr>pageTableSize := numPages as\<rparr>\<rparr>) }"

text \<open>
  \<open>Run\<close> up to \<open>SWITCH\<close>: what comes behind it stays on the stack of the old thread. The stack
  check of \<open>CheckOverflow\<close> concerns the host's memory and is left out, and
  \<open>AddrSpace::SaveState\<close> has no body.
\<close>

definition Run :: "tid \<Rightarrow> bool \<Rightarrow> kernel \<Rightarrow> kernel option" where
  "Run nextThread finishing k = do {
     let oldThread = currentThread k;
     ASSERT (level k = IntOff);
     k \<leftarrow> (if finishing then do { ASSERT (toBeDestroyed k = None); Some (k\<lparr>toBeDestroyed := Some oldThread\<rparr>) }
          else Some k);
     old \<leftarrow> threads k oldThread;
     k \<leftarrow> (if space old \<noteq> None then SaveUserState oldThread k else Some k);
     k \<leftarrow> enter [AfterSwitch] k;
     let k = k\<lparr>currentThread := nextThread\<rparr>;
     set_status nextThread RUNNING k }"

text \<open>\<open>delete\<close> of the finished thread, whose destructor checks that it is not running.\<close>

definition CheckToBeDestroyed :: "kernel \<Rightarrow> kernel option" where
  "CheckToBeDestroyed k =
     (case toBeDestroyed k of
        None \<Rightarrow> Some k
      | Some t \<Rightarrow> do {
          ASSERT (t \<noteq> currentThread k);
          Some (k\<lparr>threads := (threads k)(t := None), toBeDestroyed := None\<rparr>) })"

text \<open>The rest of \<open>Run\<close>, when the thread has the processor again.\<close>

definition Run_after_switch :: "kernel \<Rightarrow> kernel option" where
  "Run_after_switch k = do {
     ASSERT (level k = IntOff);
     k \<leftarrow> CheckToBeDestroyed k;
     th \<leftarrow> this_thread k;
     case space th of
       None \<Rightarrow> Some k
     | Some sp \<Rightarrow> do { k \<leftarrow> RestoreUserState (currentThread k) k; RestoreState sp k } }"

subsection \<open>Threads\<close>

text \<open>
  \<open>StackAllocate\<close> makes \<open>ThreadRoot\<close> the first thing the new thread runs: \<open>Begin\<close>,
  the function, \<open>Finish\<close>. The registers of a new thread are whatever memory holds; they are
  never read before they are saved.
\<close>

definition Thread_new :: "frame list \<Rightarrow> thread" where
  "Thread_new body =
     \<lparr>thread_status = JUST_CREATED, stack = Begin # body @ [Finish], userRegisters = replicate (nat NumTotalRegs) 0,
      space = None, returned = []\<rparr>"

definition Thread_Fork :: "frame list \<Rightarrow> kernel \<Rightarrow> kernel option" where
  "Thread_Fork body k = do {
     let t = next_thread k;
     let k = k\<lparr>threads := (threads k)(t \<mapsto> Thread_new body), next_thread := Suc t\<rparr>;
     (oldLevel, k) \<leftarrow> SetLevel IntOff k;
     k \<leftarrow> ReadyToRun t k;
     (_, k) \<leftarrow> SetLevel oldLevel k;
     Some k }"

definition Thread_Begin :: "kernel \<Rightarrow> kernel option" where
  "Thread_Begin k = do {
     k \<leftarrow> CheckToBeDestroyed k;
     (_, k) \<leftarrow> SetLevel IntOn k;
     Some k }"

definition Thread_Sleep :: "bool \<Rightarrow> kernel \<Rightarrow> kernel option" where
  "Thread_Sleep finishing k = do {
     ASSERT (level k = IntOff);
     k \<leftarrow> set_status (currentThread k) BLOCKED k;
     enter [SleepLoop finishing] k }"

definition Thread_Finish :: "kernel \<Rightarrow> kernel option" where
  "Thread_Finish k = do {
     (_, k) \<leftarrow> SetLevel IntOff k;
     Thread_Sleep True k }"

definition Thread_Yield :: "kernel \<Rightarrow> kernel option" where
  "Thread_Yield k = do {
     (oldLevel, k) \<leftarrow> SetLevel IntOff k;
     (nextThread, k) \<leftarrow> FindNextToRun k;
     case nextThread of
       None \<Rightarrow> do { (_, k) \<leftarrow> SetLevel oldLevel k; Some k }
     | Some t \<Rightarrow> do {
         k \<leftarrow> ReadyToRun (currentThread k) k;
         k \<leftarrow> enter [Restore oldLevel] k;
         Run t False k } }"

subsection \<open>Semaphores\<close>

definition Semaphore_new :: "int \<Rightarrow> semaphore" where
  "Semaphore_new v = \<lparr>sem_value = v, sem_queue = []\<rparr>"

definition P_loop :: "sem_id \<Rightarrow> IntStatus \<Rightarrow> kernel \<Rightarrow> kernel option" where
  "P_loop s oldLevel k = do {
     sm \<leftarrow> semaphores k s;
     if sem_value sm = 0 then do {
       q \<leftarrow> seq_Append (sem_queue sm) (currentThread k);
       let k = k\<lparr>semaphores := (semaphores k)(s \<mapsto> sm\<lparr>sem_queue := q\<rparr>)\<rparr>;
       k \<leftarrow> enter [PLoop s oldLevel] k;
       Thread_Sleep False k }
     else do {
       let k = k\<lparr>semaphores := (semaphores k)(s \<mapsto> sm\<lparr>sem_value := sem_value sm - 1\<rparr>)\<rparr>;
       (_, k) \<leftarrow> SetLevel oldLevel k;
       Some k } }"

definition Semaphore_P :: "sem_id \<Rightarrow> kernel \<Rightarrow> kernel option" where
  "Semaphore_P s k = do {
     (oldLevel, k) \<leftarrow> SetLevel IntOff k;
     P_loop s oldLevel k }"

definition Semaphore_V :: "sem_id \<Rightarrow> kernel \<Rightarrow> kernel option" where
  "Semaphore_V s k = do {
     (oldLevel, k) \<leftarrow> SetLevel IntOff k;
     sm \<leftarrow> semaphores k s;
     (sm, k) \<leftarrow> (if sem_queue sm \<noteq> [] then do {
         (t, q) \<leftarrow> seq_RemoveFront (sem_queue sm);
         k \<leftarrow> ReadyToRun t k;
         Some (sm\<lparr>sem_queue := q\<rparr>, k) }
       else Some (sm, k));
     let k = k\<lparr>semaphores := (semaphores k)(s \<mapsto> sm\<lparr>sem_value := sem_value sm + 1\<rparr>)\<rparr>;
     (_, k) \<leftarrow> SetLevel oldLevel k;
     Some k }"

subsection \<open>Locks\<close>

definition IsHeldByCurrentThread :: "lock_id \<Rightarrow> kernel \<Rightarrow> bool" where
  "IsHeldByCurrentThread l k = (lock_holder k l = Some (currentThread k))"

definition Lock_Acquire :: "lock_id \<Rightarrow> kernel \<Rightarrow> kernel option" where
  "Lock_Acquire l k = enter [SemP (LockSem l), SetHolder l] k"

definition Lock_set_holder :: "lock_id \<Rightarrow> kernel \<Rightarrow> kernel option" where
  "Lock_set_holder l k = Some (k\<lparr>lock_holder := (lock_holder k)(l := Some (currentThread k))\<rparr>)"

definition Lock_Release :: "lock_id \<Rightarrow> kernel \<Rightarrow> kernel option" where
  "Lock_Release l k = do {
     ASSERT (IsHeldByCurrentThread l k);
     let k = k\<lparr>lock_holder := (lock_holder k)(l := None)\<rparr>;
     Semaphore_V (LockSem l) k }"

subsection \<open>Condition variables\<close>

definition Condition_Wait :: "cond_id \<Rightarrow> lock_id \<Rightarrow> kernel \<Rightarrow> kernel option" where
  "Condition_Wait c l k = do {
     ASSERT (IsHeldByCurrentThread l k);
     let w = next_waiter k;
     let k = k\<lparr>semaphores := (semaphores k)(Waiter w \<mapsto> Semaphore_new 0), next_waiter := Suc w\<rparr>;
     q \<leftarrow> seq_Append (wait_queue k c) w;
     let k = k\<lparr>wait_queue := (wait_queue k)(c := q)\<rparr>;
     enter [Release l, SemP (Waiter w), Acquire l, DeleteWaiter w] k }"

definition delete_waiter :: "nat \<Rightarrow> kernel \<Rightarrow> kernel option" where
  "delete_waiter w k = do {
     _ \<leftarrow> semaphores k (Waiter w);
     Some (k\<lparr>semaphores := (semaphores k)(Waiter w := None)\<rparr>) }"

definition Condition_Signal :: "cond_id \<Rightarrow> lock_id \<Rightarrow> kernel \<Rightarrow> kernel option" where
  "Condition_Signal c l k = do {
     ASSERT (IsHeldByCurrentThread l k);
     if wait_queue k c \<noteq> [] then do {
       (w, q) \<leftarrow> seq_RemoveFront (wait_queue k c);
       let k = k\<lparr>wait_queue := (wait_queue k)(c := q)\<rparr>;
       Semaphore_V (Waiter w) k }
     else Some k }"

definition Condition_Broadcast :: "cond_id \<Rightarrow> lock_id \<Rightarrow> kernel \<Rightarrow> kernel option" where
  "Condition_Broadcast c l k =
     (if wait_queue k c \<noteq> [] then enter [Signal c l, Broadcast c l] k else Some k)"

subsection \<open>Synchronized lists\<close>

definition SynchList_Append :: "nat \<Rightarrow> int \<Rightarrow> kernel \<Rightarrow> kernel option" where
  "SynchList_Append n x k =
     enter [Acquire (ListLock n), AppendItem n x, Signal (ListCond n) (ListLock n), Release (ListLock n)] k"

definition append_item :: "nat \<Rightarrow> int \<Rightarrow> kernel \<Rightarrow> kernel option" where
  "append_item n x k = do {
     sl \<leftarrow> synch_lists k n;
     xs \<leftarrow> seq_Append (list_items sl) x;
     Some (k\<lparr>synch_lists := (synch_lists k)(n \<mapsto> sl\<lparr>list_items := xs\<rparr>)\<rparr>) }"

definition SynchList_RemoveFront :: "nat \<Rightarrow> kernel \<Rightarrow> kernel option" where
  "SynchList_RemoveFront n k =
     enter [Acquire (ListLock n), RemoveLoop n, RemoveItem n, Release (ListLock n)] k"

definition remove_loop :: "nat \<Rightarrow> kernel \<Rightarrow> kernel option" where
  "remove_loop n k = do {
     sl \<leftarrow> synch_lists k n;
     if list_items sl = [] then enter [Wait (ListCond n) (ListLock n), RemoveLoop n] k
     else Some k }"

definition remove_item :: "nat \<Rightarrow> kernel \<Rightarrow> kernel option" where
  "remove_item n k = do {
     sl \<leftarrow> synch_lists k n;
     (x, xs) \<leftarrow> seq_RemoveFront (list_items sl);
     give x (k\<lparr>synch_lists := (synch_lists k)(n \<mapsto> sl\<lparr>list_items := xs\<rparr>)\<rparr>) }"

end
