(* ===== verification/Kernel.thy ===== *)
theory Kernel
  imports Synch
begin

text \<open>
  The devices and the machine cycle: the timer and the alarm (\<open>machine/timer.cc\<close>,
  \<open>threads/alarm.cc\<close>), the two consoles and their synchronized front ends
  (\<open>machine/console.cc\<close>, \<open>userprog/synchconsole.cc\<close>), the firing of interrupts and the
  passing of time (\<open>machine/interrupt.cc\<close>), user programs (\<open>userprog/addrspace.cc\<close>,
  \<open>exception.cc\<close>, \<open>Machine::Run\<close>); then the step of the kernel, which runs the topmost
  frame of the running thread, and the states it can reach.
\<close>

subsection \<open>Timer and alarm\<close>

text \<open>\<open>RandomNumber\<close> is the host's \<open>rand\<close>: the sequence of its values is part of the state.\<close>

definition RandomNumber :: "kernel \<Rightarrow> int \<times> kernel" where
  "RandomNumber k = (rand k (rand_count k), k\<lparr>rand_count := Suc (rand_count k)\<rparr>)"

definition Timer_SetInterrupt :: "kernel \<Rightarrow> kernel option" where
  "Timer_SetInterrupt k =
     (if \<not> timer_disable k then do {
        let (delay, k) = (if randomize k then let (r, k) = RandomNumber k in (1 + r mod (TimerTicks * 2), k)
                          else (TimerTicks, k));
        Schedule TimerCallBack delay TimerInt k }
      else Some k)"

definition Alarm_CallBack :: "kernel \<Rightarrow> kernel option" where
  "Alarm_CallBack k = (if mstatus k \<noteq> IdleMode then YieldOnReturn k else Some k)"

definition Timer_CallBack :: "kernel \<Rightarrow> kernel option" where
  "Timer_CallBack k = do { k \<leftarrow> Alarm_CallBack k; Timer_SetInterrupt k }"

subsection \<open>The consoles\<close>

definition EOF :: int where "EOF = -1"

definition ConsoleInput_CallBack :: "kernel \<Rightarrow> kernel option" where
  "ConsoleInput_CallBack k = do {
     ASSERT (incoming k = EOF);
     let (p, k) = (keyboard k (poll_count k), k\<lparr>poll_count := Suc (poll_count k)\<rparr>);
     case p of
       NotReady \<Rightarrow> Schedule ConsoleInputCallBack ConsoleTime ConsoleReadInt k
     | EndOfFile \<Rightarrow> Semaphore_V ConsoleInSem k
     | Typed c \<Rightarrow> Semaphore_V ConsoleInSem (k\<lparr>incoming := c, chars_read := chars_read k + 1\<rparr>) }"

definition ConsoleInput_GetChar :: "kernel \<Rightarrow> kernel option" where
  "ConsoleInput_GetChar k = do {
     let ch = incoming k;
     k \<leftarrow> (if incoming k \<noteq> EOF then Schedule ConsoleInputCallBack ConsoleTime ConsoleReadInt k else Some k);
     give ch (k\<lparr>incoming := EOF\<rparr>) }"

definition ConsoleOutput_CallBack :: "kernel \<Rightarrow> kernel option" where
  "ConsoleOutput_CallBack k =
     Semaphore_V ConsoleOutSem (k\<lparr>putBusy := False, chars_written := chars_written k + 1\<rparr>)"

definition ConsoleOutput_PutChar :: "byte \<Rightarrow> kernel \<Rightarrow> kernel option" where
  "ConsoleOutput_PutChar ch k = do {
     ASSERT (\<not> putBusy k);
     let k = k\<lparr>screen := screen k @ [ch], putBusy := True\<rparr>;
     Schedule ConsoleOutputCallBack ConsoleTime ConsoleWriteInt k }"

definition SynchConsole_GetChar :: "kernel \<Rightarrow> kernel option" where
  "SynchConsole_GetChar k = enter [Acquire ConsoleInLock, SemP ConsoleInSem, DeviceGetChar, Release ConsoleInLock] k"

definition SynchConsole_PutChar :: "byte \<Rightarrow> kernel \<Rightarrow> kernel option" where
  "SynchConsole_PutChar ch k =
     enter [Acquire ConsoleOutLock, DevicePutChar ch, SemP ConsoleOutSem, Release ConsoleOutLock] k"

subsection \<open>Firing interrupts and passing time\<close>

definition CallBack :: "callback \<Rightarrow> kernel \<Rightarrow> kernel option" where
  "CallBack c k =
     (case c of TimerCallBack \<Rightarrow> Timer_CallBack k
      | ConsoleOutputCallBack \<Rightarrow> ConsoleOutput_CallBack k
      | ConsoleInputCallBack \<Rightarrow> ConsoleInput_CallBack k)"

text \<open>The \<open>do\<close> loop of \<open>CheckIfDue\<close>: it fires the first interrupt and then all that are due.\<close>

partial_function (option) fire_loop :: "kernel \<Rightarrow> kernel option" where
  "fire_loop k =
     (case pending k of
        [] \<Rightarrow> None
      | next # ps \<Rightarrow>
          (case CallBack (callOnInterrupt next) (k\<lparr>pending := ps\<rparr>) of
             None \<Rightarrow> None
           | Some k \<Rightarrow>
               if pending k \<noteq> [] \<and> pi_when (hd (pending k)) \<le> total_ticks k then fire_loop k else Some k))"

declare fire_loop.simps [code]

definition CheckIfDue :: "bool \<Rightarrow> kernel \<Rightarrow> (bool \<times> kernel) option" where
  "CheckIfDue advanceClock k = do {
     ASSERT (level k = IntOff);
     if pending k = [] then Some (False, k)
     else do {
       let next = hd (pending k);
       if pi_when next > total_ticks k \<and> \<not> advanceClock then Some (False, k)
       else do {
         let k = (if pi_when next > total_ticks k
                  then k\<lparr>idle_ticks := idle_ticks k + (pi_when next - total_ticks k), total_ticks := pi_when next\<rparr>
                  else k);
         m \<leftarrow> DelayedLoad 0 0 (machine k);
         k \<leftarrow> fire_loop (k\<lparr>machine := m, inHandler := True\<rparr>);
         Some (True, k\<lparr>inHandler := False\<rparr>) } } }"

definition OneTick_run :: "kernel \<Rightarrow> kernel option" where
  "OneTick_run k = do {
     let oldStatus = mstatus k;
     let k = (if mstatus k = SystemMode
              then k\<lparr>total_ticks := total_ticks k + SystemTick, system_ticks := system_ticks k + SystemTick\<rparr>
              else k\<lparr>total_ticks := total_ticks k + UserTick, user_ticks := user_ticks k + UserTick\<rparr>);
     (_, k) \<leftarrow> CheckIfDue False (k\<lparr>level := IntOff\<rparr>);
     let k = k\<lparr>level := IntOn\<rparr>;
     if yieldOnReturn k
     then enter [Yield, EndTick oldStatus] (k\<lparr>yieldOnReturn := False, mstatus := SystemMode\<rparr>)
     else Some k }"

definition Idle :: "kernel \<Rightarrow> kernel option" where
  "Idle k = do {
     (fired, k) \<leftarrow> CheckIfDue True (k\<lparr>mstatus := IdleMode\<rparr>);
     if fired then Some (k\<lparr>mstatus := SystemMode\<rparr>)
     else Some (Interrupt_Halt k) }"

text \<open>
  The loop of \<open>Sleep\<close>: one look at the ready list, then \<open>Idle\<close>, to which the loop is what
  lies behind it, or \<open>Run\<close>.
\<close>

definition Sleep_loop :: "bool \<Rightarrow> kernel \<Rightarrow> kernel option" where
  "Sleep_loop finishing k = do {
     (nextThread, k) \<leftarrow> FindNextToRun k;
     case nextThread of
       None \<Rightarrow> do { k \<leftarrow> enter [SleepLoop finishing] k; Idle k }
     | Some t \<Rightarrow> Run t finishing k }"

subsection \<open>User programs\<close>

definition SC_Halt :: u32 where "SC_Halt = 0"
definition SC_Add :: u32 where "SC_Add = 42"

text \<open>\<open>SysAdd\<close> adds two C \<open>int\<close>s; the sum is what the machine's registers hold of it.\<close>

definition SysAdd :: "u32 \<Rightarrow> u32 \<Rightarrow> u32" where "SysAdd op1 op2 = op1 + op2"

definition ExceptionHandler :: "ExceptionType \<Rightarrow> kernel \<Rightarrow> kernel option" where
  "ExceptionHandler which k = do {
     type \<leftarrow> ReadRegister (machine k) 2;
     if which = SyscallException then
       if type = SC_Halt then Some (Interrupt_Halt k)
       else if type = SC_Add then do {
         a \<leftarrow> ReadRegister (machine k) 4;
         b \<leftarrow> ReadRegister (machine k) 5;
         m \<leftarrow> WriteRegister (machine k) 2 (SysAdd a b);
         pc \<leftarrow> ReadRegister m PCReg;
         m \<leftarrow> WriteRegister m PrevPCReg pc;
         m \<leftarrow> WriteRegister m PCReg (pc + 4);
         pc \<leftarrow> ReadRegister m PCReg;
         m \<leftarrow> WriteRegister m NextPCReg (pc + 4);
         Some (k\<lparr>machine := m\<rparr>) }
       else None
     else None }"

text \<open>
  One round of \<open>Machine::Run\<close>. The machine's page table is the table of the address space that
  \<open>table_of\<close> points to, so the bits an instruction sets there are kept with that space.
  \<open>RaiseException\<close> has set the trap; the handler runs in system mode before the round's tick.
\<close>

definition load_table :: "kernel \<Rightarrow> Machine.machine option" where
  "load_table k =
     (case table_of k of
        None \<Rightarrow> Some ((machine k)\<lparr>pageTable := None\<rparr>)
      | Some sp \<Rightarrow> map_option (\<lambda>as. (machine k)\<lparr>pageTable := Some (as_pageTable as)\<rparr>) (spaces k sp))"

definition store_table :: "Machine.machine \<Rightarrow> kernel \<Rightarrow> kernel" where
  "store_table m k =
     (case (table_of k, pageTable m) of
        (Some sp, Some t) \<Rightarrow>
          k\<lparr>machine := m, spaces := (spaces k)(sp := map_option (\<lambda>as. as\<lparr>as_pageTable := t\<rparr>) (spaces k sp))\<rparr>
      | _ \<Rightarrow> k\<lparr>machine := m\<rparr>)"

definition user_round :: "kernel \<Rightarrow> kernel option" where
  "user_round k = do {
     m \<leftarrow> load_table k;
     m \<leftarrow> OneInstruction m;
     let k = store_table m k;
     k \<leftarrow> (case trap m of
            None \<Rightarrow> Some k
          | Some which \<Rightarrow> do {
              k \<leftarrow> ExceptionHandler which (k\<lparr>mstatus := SystemMode\<rparr>);
              Some (k\<lparr>mstatus := UserMode\<rparr>) });
     enter [OneTick, UserLoop] k }"

definition InitRegisters :: "addr_space \<Rightarrow> Machine.machine \<Rightarrow> Machine.machine option" where
  "InitRegisters as m = do {
     m \<leftarrow> foldM (\<lambda>i m. WriteRegister m i 0) [0..NumTotalRegs - 1] m;
     m \<leftarrow> WriteRegister m PCReg 0;
     m \<leftarrow> WriteRegister m NextPCReg 4;
     WriteRegister m StackReg (numPages as * word_of_int PageSize - 16) }"

definition AddrSpace_Execute :: "nat \<Rightarrow> kernel \<Rightarrow> kernel option" where
  "AddrSpace_Execute sp k = do {
     as \<leftarrow> spaces k sp;
     k \<leftarrow> with_thread (currentThread k) (\<lambda>th. th\<lparr>space := Some sp\<rparr>) k;
     m \<leftarrow> InitRegisters as (machine k);
     k \<leftarrow> RestoreState sp (k\<lparr>machine := m\<rparr>);
     enter [UserLoop] (k\<lparr>mstatus := UserMode\<rparr>) }"

subsection \<open>The step of the kernel\<close>

fun exec :: "frame \<Rightarrow> kernel \<Rightarrow> kernel option" where
  "exec (SemP s) k = Semaphore_P s k"
| "exec (SemV s) k = Semaphore_V s k"
| "exec (Acquire l) k = Lock_Acquire l k"
| "exec (Release l) k = Lock_Release l k"
| "exec (Wait c l) k = Condition_Wait c l k"
| "exec (Signal c l) k = Condition_Signal c l k"
| "exec (Broadcast c l) k = Condition_Broadcast c l k"
| "exec (ListAppend n x) k = SynchList_Append n x k"
| "exec (ListRemoveFront n) k = SynchList_RemoveFront n k"
| "exec Yield k = Thread_Yield k"
| "exec (Fork body) k = Thread_Fork body k"
| "exec (PutChar ch) k = SynchConsole_PutChar ch k"
| "exec GetChar k = SynchConsole_GetChar k"
| "exec (Execute sp) k = AddrSpace_Execute sp k"
| "exec Halt k = Some (Interrupt_Halt k)"
| "exec Begin k = Thread_Begin k"
| "exec Finish k = Thread_Finish k"
| "exec OneTick k = OneTick_run k"
| "exec (EndTick oldStatus) k = Some (k\<lparr>mstatus := oldStatus\<rparr>)"
| "exec (Restore oldLevel) k = do { (_, k) \<leftarrow> SetLevel oldLevel k; Some k }"
| "exec (SleepLoop finishing) k = Sleep_loop finishing k"
| "exec AfterSwitch k = Run_after_switch k"
| "exec (PLoop s oldLevel) k = P_loop s oldLevel k"
| "exec (SetHolder l) k = Lock_set_holder l k"
| "exec (DeleteWaiter w) k = delete_waiter w k"
| "exec (AppendItem n x) k = append_item n x k"
| "exec (RemoveLoop n) k = remove_loop n k"
| "exec (RemoveItem n) k = remove_item n k"
| "exec (DevicePutChar ch) k = ConsoleOutput_PutChar ch k"
| "exec DeviceGetChar k = ConsoleInput_GetChar k"
| "exec UserLoop k = user_round k"

definition step :: "kernel \<Rightarrow> kernel option" where
  "step k = do {
     th \<leftarrow> this_thread k;
     case stack th of
       [] \<Rightarrow> None
     | f # fs \<Rightarrow> do {
         k \<leftarrow> with_thread (currentThread k) (\<lambda>th. th\<lparr>stack := fs\<rparr>) k;
         exec f k } }"

text \<open>One step of a kernel that has not halted, and the states that such steps lead to.\<close>

inductive kstep :: "kernel \<Rightarrow> kernel \<Rightarrow> bool" where
  kstepI: "\<not> halted k \<Longrightarrow> step k = Some k' \<Longrightarrow> kstep k k'"

inductive_simps kstep_iff: "kstep k k'"

inductive reachable :: "kernel \<Rightarrow> kernel \<Rightarrow> bool" for k0 :: kernel where
  reachable_start: "reachable k0 k0"
| reachable_step: "reachable k0 k \<Longrightarrow> kstep k k' \<Longrightarrow> reachable k0 k'"

declare reachable_start [intro]

subsection \<open>The kernel after its start\<close>

text \<open>
  What the function of a thread may be made of: calls of the public operations, on objects that the
  kernel's programmer has created.
\<close>

fun public :: "frame \<Rightarrow> bool" where
  "public (SemP (UserSem _)) = True"
| "public (SemV (UserSem _)) = True"
| "public (Acquire (UserLock _)) = True"
| "public (Release (UserLock _)) = True"
| "public (Wait (UserCond _) (UserLock _)) = True"
| "public (Signal (UserCond _) (UserLock _)) = True"
| "public (Broadcast (UserCond _) (UserLock _)) = True"
| "public (ListAppend _ _) = True"
| "public (ListRemoveFront _) = True"
| "public Yield = True"
| "public (Fork body) = list_all public body"
| "public (PutChar _) = True"
| "public GetChar = True"
| "public (Execute _) = True"
| "public Halt = True"
| "public _ = False"

text \<open>
  \<open>Kernel::Initialize\<close>, with the objects that threads will use: the semaphores and their initial
  values, free locks, empty conditions and lists, the machine \<open>m\<close> with the user programs in its
  memory, and their address spaces. The main thread runs
  \<open>body\<close> and then finishes, as \<open>main\<close> does. The file system and the network are not part of
  this state.
\<close>

definition initial_semaphore :: "(nat \<Rightarrow> int) \<Rightarrow> sem_id \<Rightarrow> semaphore option" where
  "initial_semaphore init s =
     (case s of UserSem n \<Rightarrow> Some (Semaphore_new (init n))
      | LockSem _ \<Rightarrow> Some (Semaphore_new 1)
      | Waiter _ \<Rightarrow> None
      | ConsoleInSem \<Rightarrow> Some (Semaphore_new 0)
      | ConsoleOutSem \<Rightarrow> Some (Semaphore_new 0))"

definition Kernel_new ::
    "bool \<Rightarrow> (nat \<Rightarrow> int) \<Rightarrow> (nat \<Rightarrow> poll) \<Rightarrow> (nat \<Rightarrow> int) \<Rightarrow> Machine.machine \<Rightarrow>
     (nat \<Rightarrow> addr_space option) \<Rightarrow> frame list \<Rightarrow> kernel" where
  "Kernel_new randomSlice rnd kbd init m sps body =
     \<lparr>threads = [0 \<mapsto> (Thread_new body)\<lparr>thread_status := RUNNING, stack := body @ [Finish]\<rparr>],
      next_thread = 1, currentThread = 0, readyList = [], toBeDestroyed = None,
      level = IntOff, pending = [], next_pending = 0, inHandler = False, yieldOnReturn = False,
      mstatus = SystemMode, total_ticks = 0, idle_ticks = 0, system_ticks = 0, user_ticks = 0,
      chars_read = 0, chars_written = 0,
      semaphores = initial_semaphore init, lock_holder = \<lambda>_. None, wait_queue = \<lambda>_. [], next_waiter = 0,
      synch_lists = \<lambda>_. Some \<lparr>list_items = []\<rparr>, randomize = randomSlice, timer_disable = False,
      rand = rnd, rand_count = 0, putBusy = False, screen = [], incoming = EOF, keyboard = kbd,
      poll_count = 0, machine = m, spaces = sps, table_of = None, halted = False\<rparr>"

definition Kernel_Initialize ::
    "bool \<Rightarrow> (nat \<Rightarrow> int) \<Rightarrow> (nat \<Rightarrow> poll) \<Rightarrow> (nat \<Rightarrow> int) \<Rightarrow> Machine.machine \<Rightarrow>
     (nat \<Rightarrow> addr_space option) \<Rightarrow> frame list \<Rightarrow> kernel option" where
  "Kernel_Initialize randomSlice rnd kbd init m sps body = do {
     let k = Kernel_new randomSlice rnd kbd init m sps body;
     k \<leftarrow> Timer_SetInterrupt k;
     k \<leftarrow> Schedule ConsoleInputCallBack ConsoleTime ConsoleReadInt k;
     (_, k) \<leftarrow> SetLevel IntOn k;
     Some k }"

end
