(* ===== verification/Kernel_Inv.thy ===== *)
theory Kernel_Inv
  imports Kernel
begin

text \<open>
  The invariant of the scheduler: which threads are ready, blocked or running, on which queue each
  stands, where its stack stands still, and when interrupts are off. It holds after the start of
  the kernel and every step keeps it.
\<close>

subsection \<open>Shapes of a stack\<close>

text \<open>
  Frames that a thread runs with interrupts enabled are \<open>plain\<close>. A stack of plain frames with
  \<open>Finish\<close> at its bottom belongs to a thread that runs its function.
\<close>

fun plain :: "frame \<Rightarrow> bool" where
  "plain (PLoop _ _) = False"
| "plain AfterSwitch = False"
| "plain (SleepLoop _) = False"
| "plain Begin = False"
| "plain (Restore _) = False"
| "plain Finish = False"
| "plain (Fork body) = list_all public body"
| "plain (SemV (UserSem _)) = True"
| "plain (SemV _) = False"
| "plain _ = True"

definition calls :: "frame list \<Rightarrow> bool" where
  "calls fs \<longleftrightarrow> (\<exists>gs. fs = gs @ [Finish] \<and> list_all plain gs)"

definition suspended :: "sem_id \<Rightarrow> frame list \<Rightarrow> bool" where
  "suspended s fs \<longleftrightarrow> (\<exists>gs. fs = AfterSwitch # PLoop s IntOn # gs \<and> calls gs)"

definition yielded :: "frame list \<Rightarrow> bool" where
  "yielded fs \<longleftrightarrow> (\<exists>gs. fs = AfterSwitch # Restore IntOn # gs \<and> calls gs)"

definition unborn :: "frame list \<Rightarrow> bool" where
  "unborn fs \<longleftrightarrow> (\<exists>gs. fs = Begin # gs \<and> calls gs)"

definition resumed :: "frame list \<Rightarrow> bool" where
  "resumed fs \<longleftrightarrow> (\<exists>gs f. fs = f # gs \<and> calls gs \<and> (f = Restore IntOn \<or> (\<exists>s. f = PLoop s IntOn)))"

definition asleep :: "sem_id \<Rightarrow> frame list \<Rightarrow> bool" where
  "asleep s fs \<longleftrightarrow> (\<exists>gs. fs = SleepLoop False # PLoop s IntOn # gs \<and> calls gs)"

definition can_resume :: "frame list \<Rightarrow> bool" where
  "can_resume fs \<longleftrightarrow> (\<exists>s. suspended s fs) \<or> yielded fs \<or> unborn fs"

subsection \<open>The invariant\<close>

definition waits_on :: "kernel \<Rightarrow> tid \<Rightarrow> sem_id \<Rightarrow> bool" where
  "waits_on k t s \<longleftrightarrow> (\<exists>sm. semaphores k s = Some sm \<and> t \<in> set (sem_queue sm))"

text \<open>A thread that does not have the processor.\<close>

definition waiting_ok :: "kernel \<Rightarrow> tid \<Rightarrow> thread \<Rightarrow> bool" where
  "waiting_ok k t th \<longleftrightarrow>
     (thread_status th = READY \<and> t \<in> set (readyList k) \<and> can_resume (stack th)) \<or>
     (thread_status th = BLOCKED \<and> (\<exists>s. suspended s (stack th) \<and> waits_on k t s)) \<or>
     (thread_status th = BLOCKED \<and> toBeDestroyed k = Some t \<and> stack th = [AfterSwitch])"

text \<open>The thread that has it, at interrupt level \<open>lv\<close>.\<close>

definition running_ok :: "IntStatus \<Rightarrow> kernel \<Rightarrow> thread \<Rightarrow> bool" where
  "running_ok lv k th \<longleftrightarrow>
     thread_status th = RUNNING \<and> currentThread k \<notin> set (readyList k) \<and> (\<forall>s. \<not> waits_on k (currentThread k) s) \<and>
     (if lv = IntOn then calls (stack th) \<and> toBeDestroyed k = None
      else can_resume (stack th) \<or> (resumed (stack th) \<and> toBeDestroyed k = None))"

definition sleeping_ok :: "IntStatus \<Rightarrow> kernel \<Rightarrow> thread \<Rightarrow> bool" where
  "sleeping_ok lv k th \<longleftrightarrow> lv = IntOff \<and> toBeDestroyed k = None \<and>
     ((thread_status th = BLOCKED \<and> stack th = [SleepLoop True] \<and> currentThread k \<notin> set (readyList k) \<and>
         (\<forall>s. \<not> waits_on k (currentThread k) s)) \<or>
      (\<exists>s. asleep s (stack th) \<and>
         ((thread_status th = BLOCKED \<and> currentThread k \<notin> set (readyList k) \<and>
            (\<forall>s'. waits_on k (currentThread k) s' \<longleftrightarrow> s' = s)) \<or>
          (thread_status th = READY \<and> currentThread k \<in> set (readyList k) \<and>
            (\<forall>s'. \<not> waits_on k (currentThread k) s')))))"

definition ready_ok :: "kernel \<Rightarrow> bool" where
  "ready_ok k \<longleftrightarrow> distinct (readyList k) \<and>
     (\<forall>t \<in> set (readyList k). t \<noteq> currentThread k \<longrightarrow> (\<exists>th. threads k t = Some th \<and> thread_status th = READY))"

definition queues_ok :: "kernel \<Rightarrow> bool" where
  "queues_ok k \<longleftrightarrow> (\<forall>s sm. semaphores k s = Some sm \<longrightarrow> 0 \<le> sem_value sm \<and> distinct (sem_queue sm) \<and>
     (\<forall>t \<in> set (sem_queue sm). t \<noteq> currentThread k \<longrightarrow>
        (\<exists>th. threads k t = Some th \<and> thread_status th = BLOCKED \<and> suspended s (stack th))))"

definition threads_ok :: "kernel \<Rightarrow> bool" where
  "threads_ok k \<longleftrightarrow> (\<forall>t th. threads k t = Some th \<longrightarrow>
     t < next_thread k \<and> (t \<noteq> currentThread k \<longrightarrow> waiting_ok k t th))"

definition doomed_ok :: "kernel \<Rightarrow> bool" where
  "doomed_ok k \<longleftrightarrow> (\<forall>t. toBeDestroyed k = Some t \<longrightarrow> t \<noteq> currentThread k \<and>
     (\<exists>th. threads k t = Some th \<and> thread_status th = BLOCKED \<and> stack th = [AfterSwitch]))"

definition others_ok :: "kernel \<Rightarrow> bool" where
  "others_ok k \<longleftrightarrow> ready_ok k \<and> queues_ok k \<and> threads_ok k \<and> doomed_ok k"

lemmas others_defs = others_ok_def ready_ok_def queues_ok_def threads_ok_def doomed_ok_def

definition sched_ok :: "IntStatus \<Rightarrow> kernel \<Rightarrow> bool" where
  "sched_ok lv k \<longleftrightarrow> others_ok k \<and>
     (\<exists>th. this_thread k = Some th \<and> (running_ok lv k th \<or> sleeping_ok lv k th))"

text \<open>The running thread has taken a frame off its stack and runs it with interrupts at \<open>lv\<close>.\<close>

definition at_frame :: "IntStatus \<Rightarrow> kernel \<Rightarrow> frame list \<Rightarrow> bool" where
  "at_frame lv k fs \<longleftrightarrow> others_ok k \<and> level k = lv \<and>
     currentThread k \<notin> set (readyList k) \<and> (\<forall>s. \<not> waits_on k (currentThread k) s) \<and>
     (\<exists>th. this_thread k = Some th \<and> thread_status th = RUNNING \<and> stack th = fs)"

named_theorems sched_simps \<open>the scheduler's invariant does not look at the other fields\<close>

lemma sched_ok_simps [simp, sched_simps]:
  "waits_on (k\<lparr>level := a\<rparr>) t s = waits_on k t s"
  "waits_on (k\<lparr>threads := b\<rparr>) t s = waits_on k t s"
  "waits_on (k\<lparr>readyList := c\<rparr>) t s = waits_on k t s"
  "waits_on (k\<lparr>currentThread := d\<rparr>) t s = waits_on k t s"
  "waits_on (k\<lparr>toBeDestroyed := e\<rparr>) t s = waits_on k t s"
  "waits_on (k\<lparr>next_thread := f\<rparr>) t s = waits_on k t s"
  by (simp_all add: waits_on_def)

subsection \<open>Facts about stacks\<close>

lemma calls_plain: "plain f \<Longrightarrow> calls (f # fs) = calls fs"
  unfolding calls_def by (auto simp: Cons_eq_append_conv)

lemma calls_Finish [simp]: "calls [Finish]"
  by (simp add: calls_def)

lemma calls_Nil [simp]: "\<not> calls []"
  by (simp add: calls_def)

lemma calls_Cons: "calls (f # fs) \<longleftrightarrow> (f = Finish \<and> fs = []) \<or> (plain f \<and> calls fs)"
  unfolding calls_def by (auto simp: Cons_eq_append_conv)

lemma calls_append: "list_all plain gs \<Longrightarrow> calls (gs @ fs) = calls fs"
  by (induction gs) (auto simp: calls_plain)

lemma public_plain: "public f \<Longrightarrow> plain f"
  by (cases f rule: public.cases) auto

lemma calls_body: "list_all public body \<Longrightarrow> calls (body @ [Finish])"
  by (subst calls_append) (auto simp: list_all_iff public_plain)

subsection \<open>Changing the stack of the running thread\<close>

definition set_this :: "thread \<Rightarrow> kernel \<Rightarrow> kernel" where
  "set_this th k = k\<lparr>threads := (threads k)(currentThread k \<mapsto> th)\<rparr>"

lemma set_this_simps [simp]:
  "currentThread (set_this th k) = currentThread k" "readyList (set_this th k) = readyList k"
  "semaphores (set_this th k) = semaphores k" "toBeDestroyed (set_this th k) = toBeDestroyed k"
  "next_thread (set_this th k) = next_thread k" "level (set_this th k) = level k"
  "inHandler (set_this th k) = inHandler k" "this_thread (set_this th k) = Some th"
  "threads (set_this th k) = (threads k)(currentThread k \<mapsto> th)" "waits_on (set_this th k) t s = waits_on k t s"
  by (simp_all add: set_this_def this_thread_def waits_on_def)

lemma set_this_twice [simp]: "set_this a (set_this b k) = set_this a k"
  by (simp add: set_this_def)

lemma enter_eq: "this_thread k = Some th \<Longrightarrow> enter gs k = Some (set_this (th\<lparr>stack := gs @ stack th\<rparr>) k)"
  by (simp add: enter_def with_thread_def this_thread_def set_this_def)

lemma others_set_this:
  "others_ok k \<Longrightarrow> this_thread k \<noteq> None \<Longrightarrow> others_ok (set_this th k)"
  unfolding others_defs waiting_ok_def this_thread_def
  by (auto simp: waits_on_def)

lemma at_frame_set_this:
  assumes "at_frame lv k fs" and "thread_status th = RUNNING"
  shows "at_frame lv (set_this th k) (stack th)"
  using assms others_set_this [of k th] by (auto simp: at_frame_def)

lemma at_frame_enter:
  assumes "at_frame lv k fs"
  shows "\<exists>th. this_thread k = Some th \<and> thread_status th = RUNNING \<and> stack th = fs \<and>
    enter gs k = Some (set_this (th\<lparr>stack := gs @ fs\<rparr>) k) \<and> at_frame lv (set_this (th\<lparr>stack := gs @ fs\<rparr>) k) (gs @ fs)"
proof -
  obtain th where th: "this_thread k = Some th" "thread_status th = RUNNING" "stack th = fs"
    using assms by (auto simp: at_frame_def)
  then show ?thesis
    using enter_eq [OF th(1), of gs] at_frame_set_this [OF assms, of "th\<lparr>stack := gs @ fs\<rparr>"] by simp
qed

lemma at_frame_On: "at_frame IntOn k fs \<Longrightarrow> calls fs \<Longrightarrow> toBeDestroyed k = None \<Longrightarrow> sched_ok IntOn k"
  unfolding at_frame_def sched_ok_def running_ok_def by auto

subsection \<open>Waking a thread\<close>

text \<open>What \<open>V\<close> does to semaphore, thread and ready list.\<close>

definition woken :: "sem_id \<Rightarrow> kernel \<Rightarrow> kernel" where
  "woken s k =
     (case semaphores k s of None \<Rightarrow> k
      | Some sm \<Rightarrow> (case sem_queue sm of
          [] \<Rightarrow> k\<lparr>semaphores := (semaphores k)(s \<mapsto> sm\<lparr>sem_value := sem_value sm + 1\<rparr>)\<rparr>
        | t # q \<Rightarrow>
            k\<lparr>threads := (threads k)(t := map_option (\<lambda>th. th\<lparr>thread_status := READY\<rparr>) (threads k t)),
              readyList := readyList k @ [t],
              semaphores := (semaphores k)(s \<mapsto> \<lparr>sem_value = sem_value sm + 1, sem_queue = q\<rparr>)\<rparr>))"

lemma ready_running: "can_resume fs \<Longrightarrow> \<not> resumed fs"
  by (auto simp: can_resume_def suspended_def yielded_def unborn_def resumed_def)

lemma suspended_unique: "suspended s fs \<Longrightarrow> suspended s' fs \<Longrightarrow> s = s'"
  by (auto simp: suspended_def)

lemma asleep_unique: "asleep s fs \<Longrightarrow> asleep s' fs \<Longrightarrow> s = s'"
  by (auto simp: asleep_def)

lemma stack_shapes [simp]:
  "\<not> suspended s [AfterSwitch]" "\<not> can_resume [AfterSwitch]" "\<not> asleep s [SleepLoop True]"
  by (auto simp: suspended_def can_resume_def yielded_def unborn_def asleep_def)

lemma queued_thread:
  assumes "queues_ok k" and "semaphores k s = Some sm" and "t \<in> set (sem_queue sm)" and "t \<noteq> currentThread k"
  shows "\<exists>th. threads k t = Some th \<and> thread_status th = BLOCKED \<and> suspended s (stack th)"
  using assms by (auto simp: queues_ok_def)

lemma ready_thread:
  assumes "ready_ok k" and "t \<in> set (readyList k)" and "t \<noteq> currentThread k"
  shows "\<exists>th. threads k t = Some th \<and> thread_status th = READY"
  using assms by (auto simp: ready_ok_def)

lemma waits_suspended:
  assumes "queues_ok k" and "waits_on k t s" and "t \<noteq> currentThread k" and "threads k t = Some th"
  shows "thread_status th = BLOCKED \<and> suspended s (stack th)"
  using assms queued_thread [of k s _ t] by (fastforce simp: waits_on_def)

lemma woken_fields [simp]:
  "currentThread (woken s k) = currentThread k" "toBeDestroyed (woken s k) = toBeDestroyed k"
  "next_thread (woken s k) = next_thread k" "level (woken s k) = level k" "inHandler (woken s k) = inHandler k"
  by (simp_all add: woken_def split: option.split list.split)

lemma woken_Nil: "semaphores k s = Some sm \<Longrightarrow> sem_queue sm = [] \<Longrightarrow>
    woken s k = k\<lparr>semaphores := (semaphores k)(s \<mapsto> \<lparr>sem_value = sem_value sm + 1, sem_queue = []\<rparr>)\<rparr>"
  by (cases sm) (simp add: woken_def)

lemma woken_Cons: "semaphores k s = Some sm \<Longrightarrow> sem_queue sm = t # q \<Longrightarrow> threads k t = Some th \<Longrightarrow>
    woken s k = k\<lparr>threads := (threads k)(t \<mapsto> th\<lparr>thread_status := READY\<rparr>), readyList := readyList k @ [t],
      semaphores := (semaphores k)(s \<mapsto> \<lparr>sem_value = sem_value sm + 1, sem_queue = q\<rparr>)\<rparr>"
  by (simp add: woken_def)

text \<open>The first thread of the queue exists and is not ready.\<close>

lemma first_waiter:
  assumes "others_ok k" and "semaphores k s = Some sm" and "sem_queue sm = t # q" and "this_thread k \<noteq> None"
    and "currentThread k \<in> set (sem_queue sm) \<Longrightarrow> currentThread k \<notin> set (readyList k)"
  shows "t \<notin> set (readyList k)" "\<exists>th. threads k t = Some th" "t \<notin> set q"
proof -
  have o: "ready_ok k" "queues_ok k" using assms(1) by (simp_all add: others_ok_def)
  show "t \<notin> set q" using o(2) assms(2,3) unfolding queues_ok_def by (metis distinct.simps(2))
  show "\<exists>th. threads k t = Some th"
    using queued_thread [OF o(2) assms(2), of t] assms(3,4) by (cases "t = currentThread k") (auto simp: this_thread_def)
  show "t \<notin> set (readyList k)"
    using queued_thread [OF o(2) assms(2), of t] ready_thread [OF o(1), of t] assms(3,5)
    by (cases "t = currentThread k") auto
qed

lemma waits_on_update:
  "waits_on (k\<lparr>semaphores := (semaphores k)(s \<mapsto> sm)\<rparr>) t s' =
     (if s' = s then t \<in> set (sem_queue sm) else waits_on k t s')"
  by (simp add: waits_on_def)

lemma woken_waits:
  assumes "semaphores k s = Some sm" and "queues_ok k"
  shows "waits_on (woken s k) t s' \<longleftrightarrow> waits_on k t s' \<and> \<not> (s' = s \<and> sem_queue sm \<noteq> [] \<and> t = hd (sem_queue sm))"
proof -
  have "distinct (sem_queue sm)" using assms by (metis queues_ok_def)
  then show ?thesis
    using assms(1) by (cases "sem_queue sm") (auto simp: woken_def waits_on_def)
qed

lemma others_woken:
  assumes "others_ok k" and "semaphores k s = Some sm" and "this_thread k \<noteq> None"
    and c: "currentThread k \<in> set (sem_queue sm) \<Longrightarrow> currentThread k \<notin> set (readyList k)"
  shows "others_ok (woken s k)"
proof -
  have o: "ready_ok k" "queues_ok k" "threads_ok k" "doomed_ok k" using assms(1) by (simp_all add: others_ok_def)
  note waits = woken_waits [OF assms(2) o(2)]
  show ?thesis
  proof (cases "sem_queue sm")
    case Nil
    note w = woken_Nil [OF assms(2) Nil]
    have "queues_ok (woken s k)" using o(2) assms(2) Nil unfolding queues_ok_def w by (auto split: if_splits)
    moreover have "threads_ok (woken s k)"
      using o(3) Nil unfolding threads_ok_def waiting_ok_def waits by (simp add: w)
    ultimately show ?thesis using o(1,4) by (simp add: others_ok_def ready_ok_def doomed_ok_def w)
  next
    case (Cons t q)
    note f = first_waiter [OF assms(1,2) Cons assms(3) c]
    then obtain th where th: "threads k t = Some th" by blast
    note w = woken_Cons [OF assms(2) Cons th]
    have t: "t \<noteq> currentThread k \<Longrightarrow> thread_status th = BLOCKED \<and> suspended s (stack th)"
      using queued_thread [OF o(2) assms(2), of t] Cons th by auto
    have other: "s' = s" if "semaphores k s' = Some sm'" "t \<in> set (sem_queue sm')" "t \<noteq> currentThread k" for s' sm'
      using queued_thread [OF o(2) that] t that(3) th suspended_unique by fastforce
    have "ready_ok (woken s k)" using o(1) f(1) unfolding ready_ok_def w by auto
    moreover have "queues_ok (woken s k)"
      unfolding queues_ok_def
    proof (intro allI impI, goal_cases)
      case (1 s' sm')
      show ?case
      proof (cases "s' = s")
        case True
        with 1 have sm': "sm' = \<lparr>sem_value = sem_value sm + 1, sem_queue = q\<rparr>" by (simp add: w)
        show ?thesis using o(2) assms(2) Cons f(3) unfolding queues_ok_def sm' True by (fastforce simp: w)
      next
        case False
        with 1 have sm': "semaphores k s' = Some sm'" by (simp add: w)
        show ?thesis using o(2) sm' other [OF sm'] False unfolding queues_ok_def by (auto simp: w)
      qed
    qed
    moreover have "threads_ok (woken s k)"
      unfolding threads_ok_def
    proof (intro allI impI, goal_cases)
      case (1 t' th')
      show ?case
      proof (cases "t' = t")
        case True
        with 1 have "th' = th\<lparr>thread_status := READY\<rparr>" by (simp add: w)
        with True t o(3) th show ?thesis by (auto simp: threads_ok_def waiting_ok_def can_resume_def w)
      next
        case False
        with 1 have "threads k t' = Some th'" by (simp add: w)
        with o(3) False Cons show ?thesis
          unfolding threads_ok_def waiting_ok_def waits by (auto simp: w)
      qed
    qed
    moreover have "doomed_ok (woken s k)"
      using o(4) t th unfolding doomed_ok_def by (fastforce simp: w)
    ultimately show ?thesis by (simp add: others_ok_def)
  qed
qed

lemma V_off:
  assumes "others_ok k" and "semaphores k s = Some sm" and "this_thread k \<noteq> None" and "level k = IntOff"
    and "currentThread k \<in> set (sem_queue sm) \<Longrightarrow> currentThread k \<notin> set (readyList k)"
  shows "Semaphore_V s k = Some (woken s k)"
proof (cases "sem_queue sm")
  case Nil
  then show ?thesis using assms(2,4) by (cases sm) (simp add: Semaphore_V_def SetLevel_def woken_def)
next
  case (Cons t q)
  note f = first_waiter [OF assms(1,2) Cons assms(3,5)]
  then obtain th where th: "threads k t = Some th" by blast
  show ?thesis
    unfolding woken_Cons [OF assms(2) Cons th]
    using assms(2,4) Cons f(1) th
    by (cases sm) (simp add: Semaphore_V_def SetLevel_def ReadyToRun_def set_status_def with_thread_def seq_Append_def)
qed

lemma this_woken:
  assumes "semaphores k s = Some sm"
  shows "this_thread (woken s k) =
    (if sem_queue sm \<noteq> [] \<and> hd (sem_queue sm) = currentThread k
     then map_option (\<lambda>th. th\<lparr>thread_status := READY\<rparr>) (this_thread k) else this_thread k)"
  using assms by (cases "sem_queue sm") (auto simp: woken_def this_thread_def)

lemma ready_woken: "semaphores k s = Some sm \<Longrightarrow>
    readyList (woken s k) = readyList k @ (if sem_queue sm = [] then [] else [hd (sem_queue sm)])"
  by (cases "sem_queue sm") (simp_all add: woken_def)

lemma asleep_alone:
  assumes "sched_ok lv k" and "semaphores k s = Some sm" and "currentThread k \<in> set (sem_queue sm)"
  shows "currentThread k \<notin> set (readyList k)"
  using assms by (auto simp: sched_ok_def running_ok_def sleeping_ok_def waits_on_def)

lemma sched_woken:
  assumes "sched_ok lv k" and "semaphores k s = Some sm"
  shows "sched_ok lv (woken s k)"
proof -
  obtain th where o: "others_ok k" and th: "this_thread k = Some th" "running_ok lv k th \<or> sleeping_ok lv k th"
    using assms(1) by (auto simp: sched_ok_def)
  then have q: "queues_ok k" by (simp add: others_ok_def)
  note waits = woken_waits [OF assms(2) q]
  have "others_ok (woken s k)"
    using others_woken [OF o assms(2)] th(1) asleep_alone [OF assms] by simp
  moreover have "\<exists>th. this_thread (woken s k) = Some th \<and> (running_ok lv (woken s k) th \<or> sleeping_ok lv (woken s k) th)"
  proof (cases "sem_queue sm \<noteq> [] \<and> hd (sem_queue sm) = currentThread k")
    case True
    then have w: "waits_on k (currentThread k) s" using assms(2) by (cases "sem_queue sm") (auto simp: waits_on_def)
    then have "\<not> running_ok lv k th" by (auto simp: running_ok_def)
    with th(2) have sl: "sleeping_ok lv k th" by blast
    with w obtain s' where "asleep s' (stack th)" "\<forall>s''. waits_on k (currentThread k) s'' \<longleftrightarrow> s'' = s'"
      by (auto simp: sleeping_ok_def)
    with w have "asleep s (stack th)" "\<forall>s''. waits_on k (currentThread k) s'' \<longleftrightarrow> s'' = s" by auto
    with True sl have "sleeping_ok lv (woken s k) (th\<lparr>thread_status := READY\<rparr>)"
      unfolding sleeping_ok_def waits by (auto simp: ready_woken [OF assms(2)])
    with True th(1) show ?thesis by (simp add: this_woken [OF assms(2)])
  next
    case False
    then have w: "waits_on (woken s k) (currentThread k) s' = waits_on k (currentThread k) s'" for s'
      unfolding waits by auto
    have r: "currentThread k \<in> set (readyList (woken s k)) \<longleftrightarrow> currentThread k \<in> set (readyList k)"
      using False by (auto simp: ready_woken [OF assms(2)])
    have "running_ok lv (woken s k) th = running_ok lv k th" "sleeping_ok lv (woken s k) th = sleeping_ok lv k th"
      by (simp_all only: running_ok_def sleeping_ok_def w r woken_fields)
    moreover have "this_thread (woken s k) = Some th" using th(1) False by (auto simp: this_woken [OF assms(2)])
    ultimately show ?thesis using th(2) by blast
  qed
  ultimately show ?thesis by (simp add: sched_ok_def)
qed

lemma SetLevel_off [simp]: "SetLevel IntOff k = Some (level k, k\<lparr>level := IntOff\<rparr>)"
  by (simp add: SetLevel_def)

lemma SetLevel_on:
  "level k = IntOff \<Longrightarrow> \<not> inHandler k \<Longrightarrow> SetLevel IntOn k = map_option (Pair IntOff) (enter [OneTick] (k\<lparr>level := IntOn\<rparr>))"
  by (cases "enter [OneTick] (k\<lparr>level := IntOn\<rparr>)") (simp_all add: SetLevel_def)

subsection \<open>What the invariant looks at\<close>

definition same_sched :: "kernel \<Rightarrow> kernel \<Rightarrow> bool" where
  "same_sched k' k \<longleftrightarrow> threads k' = threads k \<and> next_thread k' = next_thread k \<and>
     currentThread k' = currentThread k \<and> readyList k' = readyList k \<and>
     toBeDestroyed k' = toBeDestroyed k \<and> semaphores k' = semaphores k"

lemma same_waits: "same_sched k' k \<Longrightarrow> waits_on k' t s = waits_on k t s"
  by (simp add: same_sched_def waits_on_def)

lemma same_this: "same_sched k' k \<Longrightarrow> this_thread k' = this_thread k"
  by (simp add: same_sched_def this_thread_def)

lemma same_others: "same_sched k' k \<Longrightarrow> others_ok k' = others_ok k"
  unfolding others_defs waiting_ok_def same_waits by (simp add: same_sched_def)

lemma same_sched_ok: "same_sched k' k \<Longrightarrow> sched_ok lv k' = sched_ok lv k"
  unfolding sched_ok_def running_ok_def sleeping_ok_def
  by (simp add: same_others same_this same_waits) (simp add: same_sched_def)

lemma same_at_frame: "same_sched k' k \<Longrightarrow> at_frame lv k fs \<Longrightarrow> level k' = lv' \<Longrightarrow> at_frame lv' k' fs"
  unfolding at_frame_def by (simp add: same_others same_this same_waits) (simp add: same_sched_def)

lemma same_sched_simps [simp]: "same_sched k k" "same_sched (k\<lparr>level := a\<rparr>) k" "same_sched (k\<lparr>lock_holder := b\<rparr>) k"
  "same_sched (k\<lparr>machine := c\<rparr>) k" "same_sched (k\<lparr>mstatus := d\<rparr>) k" "same_sched (k\<lparr>wait_queue := e\<rparr>) k"
  by (simp_all add: same_sched_def)

lemma same_trans: "same_sched k'' k' \<Longrightarrow> same_sched k' k \<Longrightarrow> same_sched k'' k"
  by (simp add: same_sched_def)

subsection \<open>Semaphore operations of the running thread\<close>

definition with_sem :: "sem_id \<Rightarrow> semaphore \<Rightarrow> kernel \<Rightarrow> kernel" where
  "with_sem s sm k = k\<lparr>semaphores := (semaphores k)(s \<mapsto> sm)\<rparr>"

lemma at_frame_this: "at_frame lv k fs \<Longrightarrow> \<exists>th. this_thread k = Some th \<and> thread_status th = RUNNING \<and> stack th = fs"
  by (simp add: at_frame_def)

lemma not_waiting: "at_frame lv k fs \<Longrightarrow> semaphores k s = Some sm \<Longrightarrow> currentThread k \<notin> set (sem_queue sm)"
  by (auto simp: at_frame_def waits_on_def)

lemma level_same: "level k = l \<Longrightarrow> k\<lparr>level := l\<rparr> = k"
  by (cases k) simp

lemma V_on:
  assumes "at_frame IntOn k fs" and "semaphores k s = Some sm" and "\<not> inHandler k"
  shows "Semaphore_V s k = enter [OneTick] (woken s k)"
proof (cases "sem_queue sm")
  case Nil
  then show ?thesis using assms by (cases sm) (simp add: Semaphore_V_def SetLevel_def woken_def at_frame_def level_same)
next
  case (Cons t q)
  have o: "others_ok k" "level k = IntOn" "this_thread k \<noteq> None" using assms(1) by (auto simp: at_frame_def)
  note f = first_waiter [OF o(1) assms(2) Cons o(3)] not_waiting [OF assms(1,2)]
  then obtain th where th: "threads k t = Some th" by blast
  show ?thesis
    unfolding woken_Cons [OF assms(2) Cons th]
    using assms(2,3) Cons f(1,4) o(2) th
    by (cases sm) (simp add: Semaphore_V_def SetLevel_def ReadyToRun_def set_status_def with_thread_def seq_Append_def level_same)
qed

lemma at_frame_woken:
  assumes "at_frame lv k fs" and "semaphores k s = Some sm"
  shows "at_frame lv (woken s k) fs" and "this_thread (woken s k) = this_thread k"
proof -
  note c = not_waiting [OF assms]
  then have h: "\<not> (sem_queue sm \<noteq> [] \<and> hd (sem_queue sm) = currentThread k)" by (cases "sem_queue sm") auto
  then show t: "this_thread (woken s k) = this_thread k" by (auto simp: this_woken [OF assms(2)])
  have o: "others_ok k" "this_thread k \<noteq> None" "queues_ok k" using assms(1) by (auto simp: at_frame_def others_ok_def)
  have "currentThread k \<notin> set (readyList (woken s k))"
    using h assms(1) by (auto simp: ready_woken [OF assms(2)] at_frame_def)
  then show "at_frame lv (woken s k) fs"
    using assms(1) t others_woken [OF o(1) assms(2) o(2)] c woken_waits [OF assms(2) o(3)]
    by (auto simp: at_frame_def)
qed

lemma sched_V:
  assumes "at_frame IntOn k fs" and "semaphores k s = Some sm" and "\<not> inHandler k"
    and "calls fs" and "toBeDestroyed k = None"
  shows "\<exists>k'. Semaphore_V s k = Some k' \<and> sched_ok IntOn k' \<and> level k' = IntOn"
proof -
  have "at_frame IntOn (woken s k) fs" by (rule at_frame_woken [OF assms(1,2)])
  from at_frame_enter [OF this, of "[OneTick]"] obtain th where
    "enter [OneTick] (woken s k) = Some (set_this (th\<lparr>stack := OneTick # fs\<rparr>) (woken s k))"
    "at_frame IntOn (set_this (th\<lparr>stack := OneTick # fs\<rparr>) (woken s k)) (OneTick # fs)" by auto
  then show ?thesis
    using V_on [OF assms(1-3)] at_frame_On [of _ "OneTick # fs"] assms(4,5)
    by (auto simp: calls_plain at_frame_def)
qed

text \<open>A \<open>P\<close> that finds the semaphore at 0 puts the thread on the queue.\<close>

lemma P_blocks:
  assumes "at_frame IntOff k fs" and "semaphores k s = Some sm" and "sem_value sm = 0" and "this_thread k = Some th"
  shows "P_loop s old k = Some (set_this (th\<lparr>thread_status := BLOCKED, stack := SleepLoop False # PLoop s old # fs\<rparr>)
    (with_sem s (sm\<lparr>sem_queue := sem_queue sm @ [currentThread k]\<rparr>) k))"
  using assms not_waiting [OF assms(1,2)]
  by (auto simp: P_loop_def seq_Append_def enter_def with_thread_def this_thread_def Thread_Sleep_def set_status_def
      set_this_def with_sem_def at_frame_def)

lemma P_proceeds:
  assumes "at_frame IntOff k fs" and "semaphores k s = Some sm" and "sem_value sm \<noteq> 0" and "this_thread k = Some th"
    and "\<not> inHandler k"
  shows "P_loop s IntOn k = Some (set_this (th\<lparr>stack := OneTick # fs\<rparr>)
    (with_sem s (sm\<lparr>sem_value := sem_value sm - 1\<rparr>) k\<lparr>level := IntOn\<rparr>))"
  using assms
  by (auto simp: P_loop_def enter_def with_thread_def this_thread_def SetLevel_def set_this_def with_sem_def at_frame_def)

lemma others_with_sem:
  assumes "others_ok k" and "semaphores k s = Some sm"
    and "0 \<le> sem_value sm'" and "distinct (sem_queue sm')" and "set (sem_queue sm') - {currentThread k} = set (sem_queue sm) - {currentThread k}"
  shows "others_ok (with_sem s sm' k)"
proof -
  have w: "waits_on (with_sem s sm' k) t s' = waits_on k t s'" if "t \<noteq> currentThread k" for t s'
    using assms(2,5) that unfolding waits_on_def with_sem_def by (auto simp: set_eq_iff)
  have "queues_ok (with_sem s sm' k)"
    using assms unfolding others_ok_def queues_ok_def with_sem_def by (simp add: set_eq_iff) metis
  moreover have "threads_ok (with_sem s sm' k)"
    using assms(1) w unfolding others_ok_def threads_ok_def waiting_ok_def by (auto simp: with_sem_def)
  ultimately show ?thesis
    using assms(1) by (simp add: others_ok_def ready_ok_def doomed_ok_def with_sem_def)
qed

lemma sched_P_loop:
  assumes "at_frame IntOff k fs" and "semaphores k s = Some sm" and "\<not> inHandler k"
    and "calls fs" and "toBeDestroyed k = None"
  shows "\<exists>k'. P_loop s IntOn k = Some k' \<and> sched_ok (level k') k'"
proof -
  obtain th where th: "this_thread k = Some th" "thread_status th = RUNNING" "stack th = fs"
    using at_frame_this [OF assms(1)] by blast
  have o: "others_ok k" "queues_ok k" "level k = IntOff" "currentThread k \<notin> set (readyList k)"
    "\<And>s'. \<not> waits_on k (currentThread k) s'"
    using assms(1) by (auto simp: at_frame_def others_ok_def)
  have sm: "0 \<le> sem_value sm" "distinct (sem_queue sm)" "currentThread k \<notin> set (sem_queue sm)"
    using o(2) assms(2) not_waiting [OF assms(1,2)] by (auto simp: queues_ok_def)
  show ?thesis
  proof (cases "sem_value sm = 0")
    case True
    let ?sm = "sm\<lparr>sem_queue := sem_queue sm @ [currentThread k]\<rparr>"
    let ?th = "th\<lparr>thread_status := BLOCKED, stack := SleepLoop False # PLoop s IntOn # fs\<rparr>"
    let ?k = "set_this ?th (with_sem s ?sm k)"
    have "others_ok (with_sem s ?sm k)" using sm by (intro others_with_sem [OF o(1) assms(2)]) auto
    then have "others_ok ?k" using th(1) by (intro others_set_this) (simp_all add: this_thread_def with_sem_def)
    moreover have "waits_on ?k (currentThread k) s' \<longleftrightarrow> s' = s" for s'
      using o(5) [of s'] by (auto simp: with_sem_def waits_on_update)
    moreover have "asleep s (stack ?th)" using assms(4) by (simp add: asleep_def)
    ultimately have "sched_ok IntOff ?k"
      using o(4) assms(5) by (auto simp: sched_ok_def sleeping_ok_def with_sem_def)
    then show ?thesis using P_blocks [OF assms(1,2) True th(1)] o(3) by (simp add: with_sem_def)
  next
    case False
    let ?k = "with_sem s (sm\<lparr>sem_value := sem_value sm - 1\<rparr>) k\<lparr>level := IntOn\<rparr>"
    have "others_ok (with_sem s (sm\<lparr>sem_value := sem_value sm - 1\<rparr>) k)"
      using sm False by (intro others_with_sem [OF o(1) assms(2)]) auto
    then have "at_frame IntOn ?k fs"
      using th o(4,5) not_waiting [OF assms(1,2)] same_others [of ?k "with_sem s (sm\<lparr>sem_value := sem_value sm - 1\<rparr>) k"]
      by (auto simp: at_frame_def with_sem_def this_thread_def waits_on_update)
    from at_frame_set_this [OF this, of "th\<lparr>stack := OneTick # fs\<rparr>"]
    have "sched_ok IntOn (set_this (th\<lparr>stack := OneTick # fs\<rparr>) ?k)"
      using th assms(4,5) by (intro at_frame_On [of _ "OneTick # fs"]) (auto simp: calls_plain with_sem_def)
    then show ?thesis using P_proceeds [OF assms(1,2) False th(1) assms(3)] by simp
  qed
qed

end
