(* ===== verification/Monitor.thy ===== *)
theory Monitor
  imports Kernel_Inv
begin

text \<open>
  What the synchronization objects promise, without scheduler, interrupts and queues of threads: a
  machine of threads that take turns at any point. A thread is the list of calls it still has to
  make; \<open>P\<close> may run when the semaphore is positive. The kernel refines this machine, and its locks,
  conditions, synchronized lists and consoles have here the invariants that make them correct.
\<close>

subsection \<open>The abstract machine\<close>

record monitor =
  progs :: "tid \<Rightarrow> frame list option"
  vals :: "sem_id \<Rightarrow> int option"
  holders :: "lock_id \<Rightarrow> tid option"
  condq :: "cond_id \<Rightarrow> nat list"
  fresh :: nat
  items :: "nat \<Rightarrow> int list option"
  busy :: bool

definition goto :: "tid \<Rightarrow> frame list \<Rightarrow> monitor \<Rightarrow> monitor" where
  "goto t fs a = a\<lparr>progs := (progs a)(t \<mapsto> fs)\<rparr>"

definition add_val :: "sem_id \<Rightarrow> int \<Rightarrow> monitor \<Rightarrow> monitor" where
  "add_val s d a = a\<lparr>vals := (vals a)(s := map_option (\<lambda>v. v + d) (vals a s))\<rparr>"

text \<open>Thread \<open>t\<close> makes the call \<open>f\<close>; \<open>fs\<close> is what it has to do afterwards.\<close>

fun act :: "tid \<Rightarrow> frame \<Rightarrow> frame list \<Rightarrow> monitor \<Rightarrow> monitor option" where
  "act t (SemP s) fs a = (case vals a s of None \<Rightarrow> None
     | Some v \<Rightarrow> if 0 < v then Some (goto t fs (add_val s (- 1) a)) else None)"
| "act t (SemV s) fs a = (if vals a s = None then None else Some (goto t fs (add_val s 1 a)))"
| "act t (Acquire l) fs a = Some (goto t (SemP (LockSem l) # SetHolder l # fs) a)"
| "act t (SetHolder l) fs a = Some (goto t fs (a\<lparr>holders := (holders a)(l \<mapsto> t)\<rparr>))"
| "act t (Release l) fs a = (if holders a l \<noteq> Some t then None
     else Some (goto t fs (add_val (LockSem l) 1 (a\<lparr>holders := (holders a)(l := None)\<rparr>))))"
| "act t (Wait c l) fs a = (if holders a l \<noteq> Some t then None
     else let w = fresh a in
       Some (goto t ([Release l, SemP (Waiter w), Acquire l, DeleteWaiter w] @ fs)
         (a\<lparr>vals := (vals a)(Waiter w \<mapsto> 0), fresh := Suc w, condq := (condq a)(c := condq a c @ [w])\<rparr>)))"
| "act t (Signal c l) fs a = (if holders a l \<noteq> Some t then None
     else case condq a c of [] \<Rightarrow> Some (goto t fs a)
       | w # q \<Rightarrow> Some (goto t fs (add_val (Waiter w) 1 (a\<lparr>condq := (condq a)(c := q)\<rparr>))))"
| "act t (Broadcast c l) fs a =
     Some (goto t (if condq a c = [] then fs else Signal c l # Broadcast c l # fs) a)"
| "act t (DeleteWaiter w) fs a = Some (goto t fs (a\<lparr>vals := (vals a)(Waiter w := None)\<rparr>))"
| "act t (ListAppend n x) fs a =
     Some (goto t ([Acquire (ListLock n), AppendItem n x, Signal (ListCond n) (ListLock n), Release (ListLock n)] @ fs) a)"
| "act t (AppendItem n x) fs a = (case items a n of None \<Rightarrow> None
     | Some xs \<Rightarrow> Some (goto t fs (a\<lparr>items := (items a)(n \<mapsto> xs @ [x])\<rparr>)))"
| "act t (ListRemoveFront n) fs a =
     Some (goto t ([Acquire (ListLock n), RemoveLoop n, RemoveItem n, Release (ListLock n)] @ fs) a)"
| "act t (RemoveLoop n) fs a =
     Some (goto t (if items a n = Some [] then Wait (ListCond n) (ListLock n) # RemoveLoop n # fs else fs) a)"
| "act t (RemoveItem n) fs a = (case items a n of Some (x # xs) \<Rightarrow>
     Some (goto t fs (a\<lparr>items := (items a)(n \<mapsto> xs)\<rparr>)) | _ \<Rightarrow> None)"
| "act t (PutChar ch) fs a =
     Some (goto t ([Acquire ConsoleOutLock, DevicePutChar ch, SemP ConsoleOutSem, Release ConsoleOutLock] @ fs) a)"
| "act t (DevicePutChar ch) fs a = (if busy a then None else Some (goto t fs (a\<lparr>busy := True\<rparr>)))"
| "act t GetChar fs a =
     Some (goto t ([Acquire ConsoleInLock, SemP ConsoleInSem, DeviceGetChar, Release ConsoleInLock] @ fs) a)"
| "act t DeviceGetChar fs a = Some (goto t fs a)"
| "act t (Execute sp) fs a = Some (goto t (UserLoop # fs) a)"
| "act t UserLoop fs a = Some (goto t (UserLoop # fs) a)"
| "act t Halt fs a = Some (goto t fs a)"
| "act t f fs a = None"

text \<open>
  What a stack still has to do: the frames of ticks and switches have no effect here, and a thread in
  the loop of \<open>P\<close> is about to call it.
\<close>

fun effect :: "frame \<Rightarrow> frame option" where
  "effect OneTick = None"
| "effect Yield = None"
| "effect (EndTick _) = None"
| "effect (Restore _) = None"
| "effect AfterSwitch = None"
| "effect (SleepLoop _) = None"
| "effect Begin = None"
| "effect Finish = None"
| "effect (PLoop s _) = Some (SemP s)"
| "effect f = Some f"

definition prog :: "frame list \<Rightarrow> frame list" where
  "prog fs = List.map_filter effect fs"

inductive mstep :: "monitor \<Rightarrow> monitor \<Rightarrow> bool" where
  call: "progs a t = Some (f # fs) \<Longrightarrow> act t f fs a = Some a' \<Longrightarrow> mstep a a'"
| fork: "progs a t = Some (Fork body # fs) \<Longrightarrow> list_all public body \<Longrightarrow> progs a t' = None \<Longrightarrow>
    mstep a (goto t' (prog body) (goto t fs a))"
| char_typed: "mstep a (add_val ConsoleInSem 1 a)"
| char_shown: "busy a \<Longrightarrow> mstep a (add_val ConsoleOutSem 1 (a\<lparr>busy := False\<rparr>))"
| gone: "progs a t = Some [] \<Longrightarrow> mstep a (a\<lparr>progs := (progs a)(t := None)\<rparr>)"

subsection \<open>The discipline of a program\<close>

text \<open>The locks that only the kernel's own code takes, and what a call needs, takes and frees of them.\<close>

definition internal :: "lock_id set" where "internal = {l. \<forall>n. l \<noteq> UserLock n}"

fun needs :: "frame \<Rightarrow> lock_id set" where
  "needs (Release l) = {l} \<inter> internal"
| "needs (Wait _ l) = {l} \<inter> internal"
| "needs (Signal _ l) = {l} \<inter> internal"
| "needs (Broadcast _ l) = {l} \<inter> internal"
| "needs (AppendItem n _) = {ListLock n}"
| "needs (RemoveLoop n) = {ListLock n}"
| "needs (RemoveItem n) = {ListLock n}"
| "needs (DevicePutChar _) = {ConsoleOutLock}"
| "needs (SemP ConsoleOutSem) = {ConsoleOutLock}"
| "needs _ = {}"

fun takes :: "frame \<Rightarrow> lock_id set" where
  "takes (Acquire l) = {l} \<inter> internal"
| "takes (SetHolder l) = {l} \<inter> internal"
| "takes _ = {}"

fun frees :: "frame \<Rightarrow> lock_id set" where
  "frees (Release l) = {l} \<inter> internal"
| "frees _ = {}"

text \<open>Calls that a thread may only make while it holds no internal lock.\<close>

fun outside :: "frame \<Rightarrow> bool" where
  "outside (ListAppend _ _) = True"
| "outside (ListRemoveFront _) = True"
| "outside (PutChar _) = True"
| "outside GetChar = True"
| "outside _ = False"

text \<open>Pairs of calls that always follow each other.\<close>

fun partner :: "frame \<Rightarrow> frame option" where
  "partner (SemP (LockSem l)) = Some (SetHolder l)"
| "partner (RemoveLoop n) = Some (RemoveItem n)"
| "partner (DevicePutChar _) = Some (SemP ConsoleOutSem)"
| "partner _ = None"

fun second :: "frame \<Rightarrow> bool" where
  "second (SetHolder _) = True"
| "second (RemoveItem _) = True"
| "second (SemP ConsoleOutSem) = True"
| "second _ = False"

text \<open>Only semaphores of the programmer are signalled by a call of \<open>V\<close>.\<close>

fun allowed :: "frame \<Rightarrow> bool" where
  "allowed (SemV (UserSem _)) = True"
| "allowed (SemV _) = False"
| "allowed (Fork body) = list_all public body"
| "allowed _ = True"

definition linked :: "frame \<Rightarrow> frame list \<Rightarrow> bool" where
  "linked f fs \<longleftrightarrow> (case fs of [] \<Rightarrow> partner f = None
     | g # _ \<Rightarrow> (case partner f of None \<Rightarrow> \<not> second g | Some g' \<Rightarrow> g = g'))"

fun typed :: "lock_id set \<Rightarrow> frame list \<Rightarrow> bool" where
  "typed H [] \<longleftrightarrow> H = {}"
| "typed H (f # fs) \<longleftrightarrow> linked f fs \<and> allowed f \<and> needs f \<subseteq> H \<and> takes f \<inter> H = {} \<and> (outside f \<longrightarrow> H = {}) \<and>
     typed (H \<union> takes f - frees f) fs"

text \<open>Waiters: \<open>P\<close> on a waiter's semaphore comes before its deletion, after which nobody names it.\<close>

fun mentions :: "nat \<Rightarrow> frame \<Rightarrow> bool" where
  "mentions w (SemP (Waiter v)) = (v = w)"
| "mentions w (DeleteWaiter v) = (v = w)"
| "mentions w _ = False"

definition names :: "nat \<Rightarrow> frame list \<Rightarrow> bool" where
  "names w fs \<longleftrightarrow> (\<exists>f \<in> set fs. mentions w f)"

fun waits_wf :: "frame list \<Rightarrow> bool" where
  "waits_wf [] \<longleftrightarrow> True"
| "waits_wf (f # fs) \<longleftrightarrow> waits_wf fs \<and> (\<forall>w. f = SemP (Waiter w) \<longrightarrow> DeleteWaiter w \<in> set fs) \<and>
     (\<forall>w. f = DeleteWaiter w \<longrightarrow> \<not> names w fs)"

subsection \<open>The invariant\<close>

definition held :: "monitor \<Rightarrow> tid \<Rightarrow> lock_id set" where
  "held a t = {l \<in> internal. holders a l = Some t}"

definition at_call_of :: "monitor \<Rightarrow> frame \<Rightarrow> tid \<Rightarrow> bool" where
  "at_call_of a f t \<longleftrightarrow> (\<exists>fs. progs a t = Some (f # fs))"

definition progs_ok :: "monitor \<Rightarrow> bool" where
  "progs_ok a \<longleftrightarrow> (\<forall>t fs. progs a t = Some fs \<longrightarrow> typed (held a t) fs \<and> waits_wf fs) \<and>
     (\<forall>t. progs a t = None \<longrightarrow> held a t = {})"

text \<open>
  A free lock has a semaphore at 1; otherwise either exactly one thread has passed the semaphore and is
  about to become the holder, or the lock has a holder and nobody is.
\<close>

definition lock_ok :: "monitor \<Rightarrow> lock_id \<Rightarrow> bool" where
  "lock_ok a l \<longleftrightarrow>
     (vals a (LockSem l) = Some 1 \<and> holders a l = None \<and> (\<forall>t. \<not> at_call_of a (SetHolder l) t)) \<or>
     (vals a (LockSem l) = Some 0 \<and> holders a l = None \<and> (\<exists>t. \<forall>u. at_call_of a (SetHolder l) u \<longleftrightarrow> u = t)) \<or>
     (vals a (LockSem l) = Some 0 \<and> holders a l \<noteq> None \<and> (\<forall>t. \<not> at_call_of a (SetHolder l) t))"

definition waiters_ok :: "monitor \<Rightarrow> bool" where
  "waiters_ok a \<longleftrightarrow>
     (\<forall>w. vals a (Waiter w) \<noteq> None \<longrightarrow> w < fresh a) \<and>
     (\<forall>t fs w. progs a t = Some fs \<longrightarrow> names w fs \<longrightarrow> vals a (Waiter w) \<noteq> None) \<and>
     (\<forall>t fs t' fs' w. progs a t = Some fs \<longrightarrow> progs a t' = Some fs' \<longrightarrow> names w fs \<longrightarrow> names w fs' \<longrightarrow> t = t') \<and>
     (\<forall>c w. w \<in> set (condq a c) \<longrightarrow> vals a (Waiter w) = Some 0 \<and>
        (\<exists>t fs. progs a t = Some fs \<and> SemP (Waiter w) \<in> set fs)) \<and>
     (\<forall>c. distinct (condq a c)) \<and> (\<forall>c c' w. w \<in> set (condq a c) \<longrightarrow> w \<in> set (condq a c') \<longrightarrow> c = c')"

text \<open>The character that is being shown, or has been and was not yet waited for, is that of one thread.\<close>

definition console_ok :: "monitor \<Rightarrow> bool" where
  "console_ok a \<longleftrightarrow> (\<exists>v. vals a ConsoleOutSem = Some v \<and> 0 \<le> v \<and>
     v + (if busy a then 1 else 0) = (if \<exists>t. at_call_of a (SemP ConsoleOutSem) t then 1 else 0)) \<and>
     vals a ConsoleInSem \<noteq> None"

definition items_ok :: "monitor \<Rightarrow> bool" where
  "items_ok a \<longleftrightarrow> (\<forall>n. items a n \<noteq> None) \<and> (\<forall>n t. at_call_of a (RemoveItem n) t \<longrightarrow> items a n \<noteq> Some [])"

definition mon_ok :: "monitor \<Rightarrow> bool" where
  "mon_ok a \<longleftrightarrow> progs_ok a \<and> (\<forall>l. lock_ok a l) \<and> waiters_ok a \<and> console_ok a \<and> items_ok a"

subsection \<open>What a turn of one thread changes\<close>

lemma goto_simps [simp]:
  "progs (goto t fs a) = (progs a)(t \<mapsto> fs)" "vals (goto t fs a) = vals a" "holders (goto t fs a) = holders a"
  "condq (goto t fs a) = condq a" "fresh (goto t fs a) = fresh a" "items (goto t fs a) = items a" "busy (goto t fs a) = busy a"
  "held (goto t fs a) u = held a u"
  by (simp_all add: goto_def held_def)

lemma add_val_simps [simp]:
  "progs (add_val s d a) = progs a" "holders (add_val s d a) = holders a" "condq (add_val s d a) = condq a"
  "fresh (add_val s d a) = fresh a" "items (add_val s d a) = items a" "busy (add_val s d a) = busy a"
  "held (add_val s d a) u = held a u" "vals (add_val s d a) = (vals a)(s := map_option (\<lambda>v. v + d) (vals a s))"
  by (simp_all add: add_val_def held_def)

definition heads :: "frame \<Rightarrow> frame list \<Rightarrow> bool" where
  "heads f fs \<longleftrightarrow> (\<exists>gs. fs = f # gs)"

lemma heads_simps [simp]: "heads f (g # gs) \<longleftrightarrow> g = f" "\<not> heads f []"
  by (auto simp: heads_def)

lemma at_call_goto [simp]: "at_call_of (goto t fs a) f u \<longleftrightarrow> (if u = t then heads f fs else at_call_of a f u)"
  by (auto simp: at_call_of_def heads_def)

lemma at_call_here: "progs a t = Some (f # fs) \<Longrightarrow> at_call_of a g t \<longleftrightarrow> g = f"
  by (auto simp: at_call_of_def)

lemma at_call_fields [simp]:
  "at_call_of (a\<lparr>vals := b\<rparr>) f u = at_call_of a f u" "at_call_of (a\<lparr>holders := c\<rparr>) f u = at_call_of a f u"
  "at_call_of (a\<lparr>condq := d\<rparr>) f u = at_call_of a f u" "at_call_of (a\<lparr>fresh := e\<rparr>) f u = at_call_of a f u"
  "at_call_of (a\<lparr>items := g\<rparr>) f u = at_call_of a f u" "at_call_of (a\<lparr>busy := h\<rparr>) f u = at_call_of a f u"
  "at_call_of (add_val s v a) f u = at_call_of a f u"
  by (simp_all add: at_call_of_def)

text \<open>The parts of the invariant, when a thread goes from \<open>f # fs\<close> in \<open>a\<close> to \<open>fs'\<close> in \<open>b\<close>.\<close>

definition turn :: "tid \<Rightarrow> frame \<Rightarrow> frame list \<Rightarrow> monitor \<Rightarrow> monitor \<Rightarrow> bool" where
  "turn t f fs a b \<longleftrightarrow> mon_ok a \<and> progs a t = Some (f # fs) \<and> progs b = progs a"

lemma turnD:
  assumes "turn t f fs a b"
  shows "progs_ok a" "lock_ok a l" "waiters_ok a" "console_ok a" "items_ok a" "progs a t = Some (f # fs)"
    "typed (held a t) (f # fs)" "waits_wf (f # fs)" "progs b = progs a"
  using assms unfolding turn_def mon_ok_def progs_ok_def by blast+

lemma turn_progs:
  assumes "turn t f fs a b" and "\<And>u. u \<noteq> t \<Longrightarrow> held b u = held a u" and "typed (held b t) fs'" and "waits_wf fs'"
  shows "progs_ok (goto t fs' b)"
  using turnD(1) [OF assms(1)] turnD(9) [OF assms(1)] assms(2-4) by (auto simp: progs_ok_def)

lemma turn_lock:
  assumes "turn t f fs a b" and "vals b (LockSem l) = vals a (LockSem l)" and "holders b l = holders a l"
    and "f \<noteq> SetHolder l" and "\<not> heads (SetHolder l) fs'"
  shows "lock_ok (goto t fs' b) l"
proof -
  have "at_call_of (goto t fs' b) (SetHolder l) u = at_call_of a (SetHolder l) u" for u
    using turnD(6,9) [OF assms(1)] assms(4,5) by (auto simp: at_call_of_def heads_def)
  with turnD(2) [OF assms(1), of l] assms(2,3) show ?thesis by (simp add: lock_ok_def)
qed

lemma turn_console:
  assumes "turn t f fs a b" and "vals b ConsoleOutSem = vals a ConsoleOutSem" and "busy b = busy a"
    and "vals b ConsoleInSem \<noteq> None" and "f \<noteq> SemP ConsoleOutSem" and "\<not> heads (SemP ConsoleOutSem) fs'"
  shows "console_ok (goto t fs' b)"
proof -
  have "at_call_of (goto t fs' b) (SemP ConsoleOutSem) u = at_call_of a (SemP ConsoleOutSem) u" for u
    using turnD(6,9) [OF assms(1)] assms(5,6) by (auto simp: at_call_of_def heads_def)
  with turnD(4) [OF assms(1)] assms(2-4) show ?thesis by (simp add: console_ok_def)
qed

lemma turn_items:
  assumes "turn t f fs a b" and "items b = items a" and "\<And>n. \<not> heads (RemoveItem n) fs'"
  shows "items_ok (goto t fs' b)"
proof -
  have "at_call_of (goto t fs' b) (RemoveItem n) u \<Longrightarrow> at_call_of a (RemoveItem n) u" for n u
    using turnD(6,9) [OF assms(1)] assms(3) by (auto simp: at_call_of_def heads_def split: if_splits)
  with turnD(5) [OF assms(1)] assms(2) show ?thesis unfolding items_ok_def by (metis goto_simps(6))
qed

lemma waitersD:
  assumes "waiters_ok a"
  shows "\<And>t fs w. progs a t = Some fs \<Longrightarrow> names w fs \<Longrightarrow> vals a (Waiter w) \<noteq> None"
    and "\<And>t fs t' fs' w. progs a t = Some fs \<Longrightarrow> progs a t' = Some fs' \<Longrightarrow> names w fs \<Longrightarrow> names w fs' \<Longrightarrow> t = t'"
    and "\<And>c w. w \<in> set (condq a c) \<Longrightarrow> \<exists>t fs. progs a t = Some fs \<and> SemP (Waiter w) \<in> set fs"
    and "\<And>c w. w \<in> set (condq a c) \<Longrightarrow> vals a (Waiter w) = Some 0"
    and "\<And>c. distinct (condq a c)"
    and "\<And>c c' w. w \<in> set (condq a c) \<Longrightarrow> w \<in> set (condq a c') \<Longrightarrow> c = c'"
  using assms unfolding waiters_ok_def by blast+

lemma waiters_transfer:
  assumes k: "waiters_ok a" and same: "\<And>w. vals b (Waiter w) = vals a (Waiter w)" "fresh b = fresh a" "condq b = condq a"
    and sub: "\<And>u gs w. progs b u = Some gs \<Longrightarrow> names w gs \<Longrightarrow> \<exists>gs'. progs a u = Some gs' \<and> names w gs'"
    and keep: "\<And>u gs w. progs a u = Some gs \<Longrightarrow> SemP (Waiter w) \<in> set gs \<Longrightarrow> \<exists>gs'. progs b u = Some gs' \<and> SemP (Waiter w) \<in> set gs'"
  shows "waiters_ok b"
  unfolding waiters_ok_def same
proof (intro conjI allI impI, goal_cases)
  case (1 w)
  then show ?case using k by (simp add: waiters_ok_def)
next
  case (2 u gs w)
  then show ?case using sub waitersD(1) [OF k] by blast
next
  case (3 u gs u' gs' w)
  then show ?case using sub [OF 3(1,3)] sub [OF 3(2,4)] waitersD(2) [OF k] by blast
next
  case (4 c w)
  then show ?case by (rule waitersD(4) [OF k])
next
  case (5 c w)
  then show ?case using waitersD(3) [OF k] keep by blast
qed (use waitersD(5,6) [OF k] in blast)+

lemma turn_waiters:
  assumes "turn t f fs a b" and "\<And>w. vals b (Waiter w) = vals a (Waiter w)" and "fresh b = fresh a" and "condq b = condq a"
    and "\<And>w. names w fs' \<Longrightarrow> names w (f # fs)" and "\<And>w. SemP (Waiter w) \<in> set (f # fs) \<Longrightarrow> SemP (Waiter w) \<in> set fs'"
  shows "waiters_ok (goto t fs' b)"
proof (rule waiters_transfer [OF turnD(3) [OF assms(1)]], goal_cases)
  case (4 u gs w)
  then show ?case using turnD(6,9) [OF assms(1)] assms(5) by (auto split: if_splits)
next
  case (5 u gs w)
  then show ?case using turnD(6,9) [OF assms(1)] assms(6) by (cases "u = t") auto
qed (use assms(2-4) in simp_all)

subsection \<open>Calls that only change the program\<close>

lemma names_simps [simp]: "\<not> names w []" "names w (f # fs) \<longleftrightarrow> mentions w f \<or> names w fs"
  "names w (fs @ gs) \<longleftrightarrow> names w fs \<or> names w gs"
  by (auto simp: names_def)

lemma internal_simps [simp]: "ListLock n \<in> internal" "ConsoleInLock \<in> internal" "ConsoleOutLock \<in> internal"
  "UserLock n \<notin> internal"
  by (auto simp: internal_def)

lemma not_second: "\<not> second g \<Longrightarrow> g \<noteq> SetHolder l \<and> g \<noteq> RemoveItem n \<and> g \<noteq> SemP ConsoleOutSem"
  by auto

definition first_only :: "frame list \<Rightarrow> bool" where
  "first_only fs \<longleftrightarrow> (\<forall>g. heads g fs \<longrightarrow> \<not> second g)"

lemma first_only_simps [simp]: "first_only []" "first_only (g # gs) \<longleftrightarrow> \<not> second g"
  by (simp_all add: first_only_def)

lemma linked_simps [simp]:
  "linked f [] \<longleftrightarrow> partner f = None"
  "linked f (g # gs) \<longleftrightarrow> (case partner f of None \<Rightarrow> \<not> second g | Some g' \<Rightarrow> g = g')"
  by (simp_all add: linked_def)

lemma linked_first: "partner f = None \<Longrightarrow> linked f fs \<longleftrightarrow> first_only fs"
  by (cases fs) simp_all

lemma first_onlyD: "first_only fs \<Longrightarrow> \<not> heads (SetHolder l) fs \<and> \<not> heads (RemoveItem n) fs \<and> \<not> heads (SemP ConsoleOutSem) fs"
  by (auto simp: first_only_def)

text \<open>A call that only replaces itself by other calls.\<close>

lemma restack:
  assumes "mon_ok a" and "progs a t = Some (f # fs)" and "\<not> second f" and "first_only fs'"
    and "typed (held a t) fs'" and "waits_wf fs'" and "\<And>w. names w fs' \<Longrightarrow> names w (f # fs)"
    and "\<And>w. SemP (Waiter w) \<in> set (f # fs) \<Longrightarrow> SemP (Waiter w) \<in> set fs'"
  shows "mon_ok (goto t fs' a)"
proof -
  have u: "turn t f fs a a" using assms(1,2) by (simp add: turn_def)
  note n = not_second [OF assms(3)] and h = first_onlyD [OF assms(4)]
  have "vals a ConsoleInSem \<noteq> None" using assms(1) by (simp add: mon_ok_def console_ok_def)
  then show ?thesis
    unfolding mon_ok_def
    using turn_progs [OF u _ assms(5,6)] turn_lock [OF u, of _ fs'] turn_waiters [OF u, of fs'] turn_console [OF u, of fs']
      turn_items [OF u, of fs'] assms(7,8) n h
    by blast
qed

lemma pop_ok:
  assumes "mon_ok a" and "progs a t = Some (f # fs)"
    and "\<not> second f" and "partner f = None" and "needs f = {} \<or> takes f = {} \<and> frees f = {}" and "takes f = {}" and "frees f = {}"
    and "\<And>w. f \<noteq> SemP (Waiter w)"
  shows "mon_ok (goto t fs a)"
proof -
  have t: "typed (held a t) (f # fs)" "waits_wf (f # fs)" using assms(1,2) unfolding mon_ok_def progs_ok_def by blast+
  then have "typed (held a t) fs" using assms(6,7) by simp
  moreover have "first_only fs" using t(1) assms(4) linked_first by simp
  ultimately show ?thesis using t(2) assms(8) by (intro restack [OF assms(1,2,3)]) auto
qed

lemma held_internal: "held a t \<subseteq> internal"
  by (auto simp: held_def)

lemma turn_typed:
  assumes "mon_ok a" and "progs a t = Some (f # fs)"
  shows "linked f fs" "allowed f" "needs f \<subseteq> held a t" "takes f \<inter> held a t = {}" "outside f \<longrightarrow> held a t = {}"
    "typed (held a t \<union> takes f - frees f) fs" "waits_wf fs" "\<And>w. f = SemP (Waiter w) \<Longrightarrow> DeleteWaiter w \<in> set fs"
    "\<And>w. f = DeleteWaiter w \<Longrightarrow> \<not> names w fs"
proof -
  have "typed (held a t) (f # fs)" "waits_wf (f # fs)" using assms unfolding mon_ok_def progs_ok_def by blast+
  then show "linked f fs" "allowed f" "needs f \<subseteq> held a t" "takes f \<inter> held a t = {}" "outside f \<longrightarrow> held a t = {}"
    "typed (held a t \<union> takes f - frees f) fs" "waits_wf fs" "\<And>w. f = SemP (Waiter w) \<Longrightarrow> DeleteWaiter w \<in> set fs"
    "\<And>w. f = DeleteWaiter w \<Longrightarrow> \<not> names w fs" by auto
qed

fun expanded :: "frame \<Rightarrow> frame list" where
  "expanded (Acquire l) = [SemP (LockSem l), SetHolder l]"
| "expanded (ListAppend n x) = [Acquire (ListLock n), AppendItem n x, Signal (ListCond n) (ListLock n), Release (ListLock n)]"
| "expanded (ListRemoveFront n) = [Acquire (ListLock n), RemoveLoop n, RemoveItem n, Release (ListLock n)]"
| "expanded (PutChar ch) = [Acquire ConsoleOutLock, DevicePutChar ch, SemP ConsoleOutSem, Release ConsoleOutLock]"
| "expanded GetChar = [Acquire ConsoleInLock, SemP ConsoleInSem, DeviceGetChar, Release ConsoleInLock]"
| "expanded (Execute sp) = [UserLoop]"
| "expanded UserLoop = [UserLoop]"
| "expanded (Broadcast c l) = [Signal c l, Broadcast c l]"
| "expanded (RemoveLoop n) = [Wait (ListCond n) (ListLock n), RemoveLoop n]"
| "expanded _ = []"

lemma expand_ok:
  assumes "mon_ok a" and "progs a t = Some (f # fs)" and "expanded f \<noteq> []"
  shows "mon_ok (goto t (expanded f @ fs) a)"
proof -
  note t = turn_typed [OF assms(1,2)]
  have f: "\<not> second f" "\<And>w. f \<noteq> SemP (Waiter w)" "\<And>w. f \<noteq> DeleteWaiter w"
    using assms(3) by (cases f rule: expanded.cases; simp)+
  have n: "\<not> mentions w f" "\<not> names w (expanded f)" "SemP (Waiter w) \<notin> set (expanded f)" for w
    using assms(3) by (cases f rule: expanded.cases; simp)+
  have "typed (held a t) (expanded f @ fs)"
    using t(1-6) assms(3)
    by (cases f rule: expanded.cases) (auto simp: linked_first insert_Diff_if)
  moreover have "first_only (expanded f @ fs)" using assms(3) by (cases f rule: expanded.cases) simp_all
  moreover have "waits_wf (expanded f @ fs)" using t(7) by (cases f rule: expanded.cases) simp_all
  ultimately show ?thesis using n f(2) by (intro restack [OF assms(1,2) f(1)]) auto
qed

subsection \<open>Semaphores\<close>

lemma mon_okI:
  assumes "progs_ok a" and "\<And>l. lock_ok a l" and "waiters_ok a" and "console_ok a" and "items_ok a"
  shows "mon_ok a"
  using assms by (simp add: mon_ok_def)

lemma mon_okD:
  assumes "mon_ok a"
  shows "progs_ok a" "lock_ok a l" "waiters_ok a" "console_ok a" "items_ok a"
  using assms by (simp_all add: mon_ok_def)

lemma turnI: "mon_ok a \<Longrightarrow> progs a t = Some (f # fs) \<Longrightarrow> progs b = progs a \<Longrightarrow> turn t f fs a b"
  by (simp add: turn_def)

text \<open>Semaphores that the invariant does not speak of, or of which it only says that they exist.\<close>

lemma user_val_ok:
  assumes "mon_ok a" and "progs a t = Some (f # fs)" and "f = SemP s \<or> f = SemV s" and "s = ConsoleInSem \<or> (\<exists>n. s = UserSem n)"
  shows "mon_ok (goto t fs (add_val s d a))"
proof -
  let ?b = "add_val s d a"
  have u: "turn t f fs a ?b" by (rule turnI [OF assms(1,2)]) simp
  note w = turn_typed [OF assms(1,2)]
  have p: "partner f = None" "needs f = {}" "takes f = {}" "frees f = {}" "\<not> second f" "\<not> mentions v f" "f \<noteq> SemP (Waiter v)" for v
    using assms(3,4) by auto
  note h = first_onlyD [OF linked_first [OF p(1), THEN iffD1, OF w(1)]] and n = not_second [OF p(5)]
  show ?thesis
  proof (rule mon_okI)
    show "progs_ok (goto t fs ?b)" by (rule turn_progs [OF u]) (use w p in simp_all)
    show "lock_ok (goto t fs ?b) l" for l by (rule turn_lock [OF u]) (use assms(4) n h in auto)
    show "waiters_ok (goto t fs ?b)"
      by (rule turn_waiters [OF u]) (use assms(3,4) in auto)
    have "vals a ConsoleInSem \<noteq> None" using mon_okD(4) [OF assms(1)] by (simp add: console_ok_def)
    then show "console_ok (goto t fs ?b)" by (intro turn_console [OF u]) (use assms(4) n h in auto)
    show "items_ok (goto t fs ?b)" by (rule turn_items [OF u]) (use h in simp_all)
  qed
qed

text \<open>\<open>P\<close> on the semaphore of a lock: the thread is now the one that becomes the holder.\<close>

lemma lock_P_ok:
  assumes "mon_ok a" and "progs a t = Some (SemP (LockSem l) # fs)" and "vals a (LockSem l) = Some v" and "0 < v"
  shows "mon_ok (goto t fs (add_val (LockSem l) (- 1) a))"
proof -
  let ?b = "add_val (LockSem l) (- 1) a"
  have u: "turn t (SemP (LockSem l)) fs a ?b" by (rule turnI [OF assms(1,2)]) simp
  note w = turn_typed [OF assms(1,2)]
  obtain gs where gs: "fs = SetHolder l # gs" using w(1) by (cases fs) simp_all
  show ?thesis
  proof (rule mon_okI)
    show "progs_ok (goto t fs ?b)" by (rule turn_progs [OF u]) (use w in simp_all)
    show "lock_ok (goto t fs ?b) l'" for l'
    proof (cases "l' = l")
      case True
      have "vals a (LockSem l) = Some 1 \<and> holders a l = None \<and> (\<forall>t. \<not> at_call_of a (SetHolder l) t)"
        using mon_okD(2) [OF assms(1), of l] assms(3,4) by (auto simp: lock_ok_def)
      with True gs show ?thesis by (auto simp: lock_ok_def)
    next
      case False
      then show ?thesis by (intro turn_lock [OF u]) (auto simp: gs)
    qed
    show "waiters_ok (goto t fs ?b)" by (rule turn_waiters [OF u]) auto
    have "vals a ConsoleInSem \<noteq> None" using mon_okD(4) [OF assms(1)] by (simp add: console_ok_def)
    then show "console_ok (goto t fs ?b)" by (intro turn_console [OF u]) (auto simp: gs)
    show "items_ok (goto t fs ?b)" by (rule turn_items [OF u]) (auto simp: gs)
  qed
qed

lemma SetHolder_ok:
  assumes "mon_ok a" and "progs a t = Some (SetHolder l # fs)"
  shows "mon_ok (goto t fs (a\<lparr>holders := (holders a)(l \<mapsto> t)\<rparr>))"
proof -
  let ?b = "a\<lparr>holders := (holders a)(l \<mapsto> t)\<rparr>"
  have u: "turn t (SetHolder l) fs a ?b" by (rule turnI [OF assms(1,2)]) simp
  note w = turn_typed [OF assms(1,2)]
  have "at_call_of a (SetHolder l) t" using assms(2) by (simp add: at_call_here)
  with mon_okD(2) [OF assms(1), of l] have l: "vals a (LockSem l) = Some 0" "holders a l = None"
    "\<forall>u. at_call_of a (SetHolder l) u \<longleftrightarrow> u = t" by (auto simp: lock_ok_def)
  note h = first_onlyD [OF linked_first [THEN iffD1, OF _ w(1)]]
  have hb: "held ?b t = held a t \<union> takes (SetHolder l)" "u \<noteq> t \<Longrightarrow> held ?b u = held a u" for u
    using l(2) by (auto simp: held_def)
  show ?thesis
  proof (rule mon_okI)
    show "progs_ok (goto t fs ?b)" by (rule turn_progs [OF u]) (use w hb in auto)
    show "lock_ok (goto t fs ?b) l'" for l'
    proof (cases "l' = l")
      case True
      then show ?thesis using l h by (simp add: lock_ok_def)
    next
      case False
      with h show ?thesis by (intro turn_lock [OF u]) auto
    qed
    show "waiters_ok (goto t fs ?b)" by (rule turn_waiters [OF u]) auto
    have "vals a ConsoleInSem \<noteq> None" using mon_okD(4) [OF assms(1)] by (simp add: console_ok_def)
    then show "console_ok (goto t fs ?b)" by (intro turn_console [OF u]) (use h in auto)
    show "items_ok (goto t fs ?b)" by (rule turn_items [OF u]) (use h in auto)
  qed
qed

lemma Release_ok:
  assumes "mon_ok a" and "progs a t = Some (Release l # fs)" and "holders a l = Some t"
  shows "mon_ok (goto t fs (add_val (LockSem l) 1 (a\<lparr>holders := (holders a)(l := None)\<rparr>)))"
proof -
  let ?b = "add_val (LockSem l) 1 (a\<lparr>holders := (holders a)(l := None)\<rparr>)"
  have u: "turn t (Release l) fs a ?b" by (rule turnI [OF assms(1,2)]) simp
  note w = turn_typed [OF assms(1,2)]
  have l: "vals a (LockSem l) = Some 0" "\<forall>u. \<not> at_call_of a (SetHolder l) u"
    using mon_okD(2) [OF assms(1), of l] assms(3) by (auto simp: lock_ok_def)
  note h = first_onlyD [OF linked_first [THEN iffD1, OF _ w(1)]]
  have hb: "held ?b t = held a t - frees (Release l)" "u \<noteq> t \<Longrightarrow> held ?b u = held a u" for u
    using assms(3) by (auto simp: held_def)
  show ?thesis
  proof (rule mon_okI)
    show "progs_ok (goto t fs ?b)" by (rule turn_progs [OF u]) (use w hb in auto)
    show "lock_ok (goto t fs ?b) l'" for l'
    proof (cases "l' = l")
      case True
      then show ?thesis using l h by (simp add: lock_ok_def)
    next
      case False
      with h show ?thesis by (intro turn_lock [OF u]) auto
    qed
    show "waiters_ok (goto t fs ?b)" by (rule turn_waiters [OF u]) auto
    have "vals a ConsoleInSem \<noteq> None" using mon_okD(4) [OF assms(1)] by (simp add: console_ok_def)
    then show "console_ok (goto t fs ?b)" by (intro turn_console [OF u]) (use h in auto)
    show "items_ok (goto t fs ?b)" by (rule turn_items [OF u]) (use h in auto)
  qed
qed

text \<open>A turn, part by part: each part is as it was, or shown to hold.\<close>

lemma turn_mon:
  assumes "mon_ok a" and "progs a t = Some (f # fs)" and "progs b = progs a"
    and "\<And>u. u \<noteq> t \<Longrightarrow> held b u = held a u" and "typed (held b t) fs'" and "waits_wf fs'"
    and "\<And>l. (vals b (LockSem l) = vals a (LockSem l) \<and> holders b l = holders a l \<and> f \<noteq> SetHolder l \<and> \<not> heads (SetHolder l) fs') \<or>
      lock_ok (goto t fs' b) l"
    and "waiters_ok (goto t fs' b)"
    and "(vals b ConsoleOutSem = vals a ConsoleOutSem \<and> busy b = busy a \<and> vals b ConsoleInSem = vals a ConsoleInSem \<and>
      f \<noteq> SemP ConsoleOutSem \<and> \<not> heads (SemP ConsoleOutSem) fs') \<or> console_ok (goto t fs' b)"
    and "(items b = items a \<and> (\<forall>n. \<not> heads (RemoveItem n) fs')) \<or> items_ok (goto t fs' b)"
  shows "mon_ok (goto t fs' b)"
proof -
  have u: "turn t f fs a b" by (rule turnI [OF assms(1-3)])
  have c: "vals a ConsoleInSem \<noteq> None" using mon_okD(4) [OF assms(1)] by (simp add: console_ok_def)
  show ?thesis
    using turn_progs [OF u assms(4-6)] turn_lock [OF u, of _ fs'] assms(7,8) turn_console [OF u, of fs'] assms(9)
      turn_items [OF u, of fs'] assms(10) c
    by (intro mon_okI) auto
qed

lemma waiter_P_ok:
  assumes "mon_ok a" and "progs a t = Some (SemP (Waiter w) # fs)" and "vals a (Waiter w) = Some v" and "0 < v"
  shows "mon_ok (goto t fs (add_val (Waiter w) (- 1) a))"
proof -
  note y = turn_typed [OF assms(1,2)] and k = mon_okD(3) [OF assms(1)]
  note h = first_onlyD [OF linked_first [THEN iffD1, OF _ y(1)]]
  have q: "w \<notin> set (condq a c)" for c using k assms(3,4) unfolding waiters_ok_def by (metis less_irrefl option.inject)
  have keep: "\<exists>u gs. progs (goto t fs a) u = Some gs \<and> SemP (Waiter v) \<in> set gs"
    if queued: "v \<in> set (condq a c)" for c v
  proof -
    have "v \<noteq> w" using queued q by auto
    moreover obtain u gs where "progs a u = Some gs" "SemP (Waiter v) \<in> set gs"
      using k queued unfolding waiters_ok_def by blast
    ultimately show ?thesis using assms(2) by (cases "u = t") auto
  qed
  have ww: "waiters_ok (goto t fs (add_val (Waiter w) (- 1) a))"
    unfolding waiters_ok_def
  proof (intro conjI allI impI, goal_cases)
    case (1 v)
    then show ?case using k assms(3) by (auto simp: waiters_ok_def split: if_splits)
  next
    case (2 u gs v)
    then have "\<exists>gs. progs a u = Some gs \<and> names v gs" using assms(2) by (auto split: if_splits)
    then show ?case using k unfolding waiters_ok_def by (auto simp: assms(3))
  next
    case (3 u gs u' gs' v)
    then have "\<exists>gs. progs a u = Some gs \<and> names v gs" "\<exists>gs. progs a u' = Some gs \<and> names v gs"
      using assms(2) by (auto split: if_splits)
    then show ?case using k unfolding waiters_ok_def by blast
  next
    case (4 c v)
    then have "v \<noteq> w" using q by auto
    with 4 show ?case using k by (auto simp: waiters_ok_def)
  next
    case (5 c v)
    then show ?case using keep by simp
  next
    case (6 c)
    then show ?case using k by (simp add: waiters_ok_def)
  next
    case (7 c c' v)
    then show ?case using k by (auto simp: waiters_ok_def)
  qed
  show ?thesis
    by (rule turn_mon [OF assms(1,2)]) (use y ww h in auto)
qed

lemma console_P_ok:
  assumes "mon_ok a" and "progs a t = Some (SemP ConsoleOutSem # fs)" and "vals a ConsoleOutSem = Some v" and "0 < v"
  shows "mon_ok (goto t fs (add_val ConsoleOutSem (- 1) a))"
proof -
  note y = turn_typed [OF assms(1,2)]
  note h = first_onlyD [OF linked_first [THEN iffD1, OF _ y(1)]]
  have here: "at_call_of a (SemP ConsoleOutSem) t" using assms(2) by (simp add: at_call_here)
  have only: "u = t" if there: "at_call_of a (SemP ConsoleOutSem) u" for u
  proof -
    obtain gs where "progs a u = Some (SemP ConsoleOutSem # gs)" using there by (auto simp: at_call_of_def)
    from turn_typed(3) [OF assms(1) this] y(3) show ?thesis by (auto simp: held_def)
  qed
  have "v = 1 \<and> \<not> busy a" using mon_okD(4) [OF assms(1)] assms(3,4) here by (auto simp: console_ok_def split: if_splits)
  then have c: "console_ok (goto t fs (add_val ConsoleOutSem (- 1) a))"
    using mon_okD(4) [OF assms(1)] assms(3) only h by (auto simp: console_ok_def)
  have w: "waiters_ok (goto t fs (add_val ConsoleOutSem (- 1) a))"
    by (rule turn_waiters [OF turnI [OF assms(1,2)]]) auto
  show ?thesis by (rule turn_mon [OF assms(1,2)]) (use y w c h in auto)
qed

lemma device_put_ok:
  assumes "mon_ok a" and "progs a t = Some (DevicePutChar ch # fs)"
  shows "\<not> busy a" and "mon_ok (goto t fs (a\<lparr>busy := True\<rparr>))"
proof -
  note y = turn_typed [OF assms(1,2)]
  obtain gs where gs: "fs = SemP ConsoleOutSem # gs" using y(1) by (cases fs) simp_all
  have no: "\<not> at_call_of a (SemP ConsoleOutSem) u" for u
  proof
    assume "at_call_of a (SemP ConsoleOutSem) u"
    then obtain gs where g: "progs a u = Some (SemP ConsoleOutSem # gs)" by (auto simp: at_call_of_def)
    from turn_typed(3) [OF assms(1) g] y(3) have "u = t" by (auto simp: held_def)
    with g assms(2) show False by simp
  qed
  with mon_okD(4) [OF assms(1)] show b: "\<not> busy a" by (auto simp: console_ok_def split: if_splits)
  have c: "console_ok (goto t fs (a\<lparr>busy := True\<rparr>))"
    using mon_okD(4) [OF assms(1)] no b gs by (auto simp: console_ok_def)
  have w: "waiters_ok (goto t fs (a\<lparr>busy := True\<rparr>))"
    by (rule turn_waiters [OF turnI [OF assms(1,2)]]) auto
  have hb: "held (a\<lparr>busy := True\<rparr>) u = held a u" for u by (simp add: held_def)
  show "mon_ok (goto t fs (a\<lparr>busy := True\<rparr>))" by (rule turn_mon [OF assms(1,2)]) (use y w c hb gs in auto)
qed

subsection \<open>Conditions\<close>

lemma Wait_ok:
  assumes "mon_ok a" and "progs a t = Some (Wait c l # fs)" and "holders a l = Some t"
  defines "w \<equiv> fresh a"
  shows "vals a (Waiter w) = None" and "w \<notin> set (condq a c)" and
    "mon_ok (goto t ([Release l, SemP (Waiter w), Acquire l, DeleteWaiter w] @ fs)
      (a\<lparr>vals := (vals a)(Waiter w \<mapsto> 0), fresh := Suc w, condq := (condq a)(c := condq a c @ [w])\<rparr>))"
proof -
  let ?fs = "[Release l, SemP (Waiter w), Acquire l, DeleteWaiter w] @ fs"
  let ?b = "a\<lparr>vals := (vals a)(Waiter w \<mapsto> 0), fresh := Suc w, condq := (condq a)(c := condq a c @ [w])\<rparr>"
  note y = turn_typed [OF assms(1,2)] and k = mon_okD(3) [OF assms(1)]
  show new: "vals a (Waiter w) = None"
    using k unfolding waiters_ok_def w_def by (metis less_irrefl)
  have nn: "\<not> names w gs" if "progs a u = Some gs" for u gs
    using k that new unfolding waiters_ok_def by metis
  have nq: "w \<notin> set (condq a c')" for c'
    using k new unfolding waiters_ok_def by (metis option.distinct(1))
  then show "w \<notin> set (condq a c)" .
  have hb: "held ?b u = held a u" for u by (simp add: held_def)
  have "typed (held a t) ?fs"
    using y assms(3) linked_first [OF _, of "Wait c l" fs] by (cases "l \<in> internal") (auto simp: linked_first insert_absorb)
  moreover have "waits_wf ?fs" using y(7) nn [OF assms(2)] by simp
  moreover have "waiters_ok (goto t ?fs ?b)"
    unfolding waiters_ok_def
  proof (intro conjI allI impI, goal_cases)
    case (1 v)
    then show ?case using k by (auto simp: waiters_ok_def w_def less_Suc_eq split: if_splits)
  next
    case (2 u gs v)
    show ?case
    proof (cases "v = w")
      case False
      with 2 have "\<exists>gs. progs a u = Some gs \<and> names v gs" using assms(2) by (auto split: if_splits)
      then show ?thesis using k False unfolding waiters_ok_def by auto
    qed simp
  next
    case (3 u gs u' gs' v)
    have *: "(v = w \<and> x = t) \<or> (\<exists>g. progs a x = Some g \<and> names v g)" if "progs (goto t ?fs ?b) x = Some g" "names v g" for x g
      using that assms(2) by (cases "x = t") auto
    from * [OF 3(1,3)] * [OF 3(2,4)] show ?case using k nn unfolding waiters_ok_def by blast
  next
    case (4 c' v)
    then show ?case using k by (auto simp: waiters_ok_def split: if_splits)
  next
    case (5 c' v)
    show ?case
    proof (cases "v = w")
      case True
      then show ?thesis by (intro exI [of _ t] exI [of _ ?fs]) simp
    next
      case False
      with 5 have "v \<in> set (condq a c')" by (auto split: if_splits)
      then obtain u gs where "progs a u = Some gs" "SemP (Waiter v) \<in> set gs" using k unfolding waiters_ok_def by blast
      then show ?thesis using assms(2) by (cases "u = t") auto
    qed
  next
    case (6 c')
    then show ?case using k nq by (auto simp: waiters_ok_def)
  next
    case (7 c' c'' v)
    then show ?case using k nq by (auto simp: waiters_ok_def split: if_splits)
  qed
  ultimately show "mon_ok (goto t ?fs ?b)"
    by (intro turn_mon [OF assms(1,2)]) (use y hb in auto)
qed

lemma Signal_ok:
  assumes "mon_ok a" and "progs a t = Some (Signal c l # fs)" and "condq a c = w # q"
  shows "vals a (Waiter w) = Some 0" and "mon_ok (goto t fs (add_val (Waiter w) 1 (a\<lparr>condq := (condq a)(c := q)\<rparr>)))"
proof -
  let ?b = "add_val (Waiter w) 1 (a\<lparr>condq := (condq a)(c := q)\<rparr>)"
  note y = turn_typed [OF assms(1,2)] and k = mon_okD(3) [OF assms(1)]
  note h = first_onlyD [OF linked_first [THEN iffD1, OF _ y(1)]]
  have wc: "w \<in> set (condq a c)" using assms(3) by simp
  with k show v0: "vals a (Waiter w) = Some 0" unfolding waiters_ok_def by blast
  have sub: "v \<in> set (condq a c') \<and> v \<noteq> w" if queued: "v \<in> set (condq ?b c')" for c' v
  proof -
    have "distinct (condq a c)" by (rule waitersD(5) [OF k])
    moreover have "v \<in> set (condq a c')" using queued assms(3) by (auto split: if_splits)
    moreover have "v = w \<Longrightarrow> c' = c" using waitersD(6) [OF k _ wc] calculation(2) by blast
    ultimately show ?thesis using queued assms(3) by (auto split: if_splits)
  qed
  have "waiters_ok (goto t fs ?b)"
    unfolding waiters_ok_def
  proof (intro conjI allI impI, goal_cases)
    case (1 v)
    then show ?case using k v0 by (auto simp: waiters_ok_def split: if_splits)
  next
    case (2 u gs v)
    then have "\<exists>gs. progs a u = Some gs \<and> names v gs" using assms(2) by (auto split: if_splits)
    then show ?case using k unfolding waiters_ok_def by (auto simp: v0)
  next
    case (3 u gs u' gs' v)
    then have "\<exists>gs. progs a u = Some gs \<and> names v gs" "\<exists>gs. progs a u' = Some gs \<and> names v gs"
      using assms(2) by (auto split: if_splits)
    then show ?case using k unfolding waiters_ok_def by blast
  next
    case (4 c' v)
    with sub [of v c'] show ?case using k by (auto simp: waiters_ok_def)
  next
    case (5 c' v)
    then have "v \<in> set (condq ?b c')" by simp
    with sub obtain u gs where "progs a u = Some gs" "SemP (Waiter v) \<in> set gs" using waitersD(3) [OF k] by blast
    then show ?case using assms(2) by (cases "u = t") auto
  next
    case (6 c')
    have "distinct (condq a c')" "distinct (condq a c)" using k by (simp_all add: waiters_ok_def)
    with assms(3) show ?case by auto
  next
    case (7 c' c'' v)
    with sub [of v c'] sub [of v c''] show ?case using k unfolding waiters_ok_def by (metis goto_simps(4))
  qed
  moreover have hb: "held ?b u = held a u" for u by (simp add: held_def)
  ultimately show "mon_ok (goto t fs ?b)" by (intro turn_mon [OF assms(1,2)]) (use y h in auto)
qed

lemma DeleteWaiter_ok:
  assumes "mon_ok a" and "progs a t = Some (DeleteWaiter w # fs)"
  shows "vals a (Waiter w) \<noteq> None" and "mon_ok (goto t fs (a\<lparr>vals := (vals a)(Waiter w := None)\<rparr>))"
proof -
  let ?b = "a\<lparr>vals := (vals a)(Waiter w := None)\<rparr>"
  note y = turn_typed [OF assms(1,2)] and k = mon_okD(3) [OF assms(1)]
  note h = first_onlyD [OF linked_first [THEN iffD1, OF _ y(1)]]
  have nf: "\<not> names w fs" using y(9) by simp
  have "names w (DeleteWaiter w # fs)" by simp
  with waitersD(1) [OF k assms(2)] show "vals a (Waiter w) \<noteq> None" by blast
  have mine: "u = t" if "progs a u = Some gs" "names w gs" for u gs
    by (rule waitersD(2) [OF k that(1) assms(2) that(2)]) simp
  have nq: "w \<notin> set (condq a c)" for c
  proof
    assume "w \<in> set (condq a c)"
    then obtain u gs where g: "progs a u = Some gs" "SemP (Waiter w) \<in> set gs" using waitersD(3) [OF k] by blast
    then have n: "names w gs" by (auto simp: names_def intro!: bexI [of _ "SemP (Waiter w)"])
    with mine g assms(2) have "gs = DeleteWaiter w # fs" by auto
    with g(2) nf show False by (auto simp: names_def)
  qed
  have "waiters_ok (goto t fs ?b)"
    unfolding waiters_ok_def
  proof (intro conjI allI impI, goal_cases)
    case (1 v)
    then show ?case using k by (auto simp: waiters_ok_def split: if_splits)
  next
    case (2 u gs v)
    then have g: "\<exists>gs. progs a u = Some gs \<and> names v gs" using assms(2) by (auto split: if_splits)
    have "v \<noteq> w" using 2 mine nf by (cases "u = t") auto
    with g show ?case using k unfolding waiters_ok_def by auto
  next
    case (3 u gs u' gs' v)
    then have "\<exists>gs. progs a u = Some gs \<and> names v gs" "\<exists>gs. progs a u' = Some gs \<and> names v gs"
      using assms(2) by (auto split: if_splits)
    then show ?case using k unfolding waiters_ok_def by blast
  next
    case (4 c v)
    then show ?case using k nq by (auto simp: waiters_ok_def)
  next
    case (5 c v)
    then have "v \<in> set (condq a c)" by simp
    then obtain u gs where "progs a u = Some gs" "SemP (Waiter v) \<in> set gs" using waitersD(3) [OF k] by blast
    then show ?case using assms(2) by (cases "u = t") auto
  next
    case (6 c)
    then show ?case using k by (simp add: waiters_ok_def)
  next
    case (7 c c' v)
    then show ?case using k by (auto simp: waiters_ok_def)
  qed
  moreover have hb: "held ?b u = held a u" for u by (simp add: held_def)
  ultimately show "mon_ok (goto t fs ?b)" by (intro turn_mon [OF assms(1,2)]) (use y h in auto)
qed

subsection \<open>Synchronized lists\<close>

text \<open>Only the holder of a list's lock touches the list, so what \<open>RemoveLoop\<close> found stays true.\<close>

lemma list_turn:
  assumes "mon_ok a" and "progs a t = Some (f # fs)" and "ListLock n \<in> needs f" and "at_call_of a (RemoveItem n) u"
  shows "u = t"
proof -
  obtain gs where "progs a u = Some (RemoveItem n # gs)" using assms(4) by (auto simp: at_call_of_def)
  from turn_typed(3) [OF assms(1) this] turn_typed(3) [OF assms(1,2)] assms(3) show ?thesis by (auto simp: held_def)
qed

lemma set_items_ok:
  assumes "mon_ok a" and "progs a t = Some (f # fs)" and "ListLock n \<in> needs f" and "f = AppendItem n x \<or> f = RemoveItem n"
  shows "mon_ok (goto t fs (a\<lparr>items := (items a)(n \<mapsto> xs)\<rparr>))"
proof -
  let ?b = "a\<lparr>items := (items a)(n \<mapsto> xs)\<rparr>"
  note y = turn_typed [OF assms(1,2)]
  have p: "partner f = None" "takes f = {}" "frees f = {}" "f \<noteq> SetHolder l" "f \<noteq> SemP ConsoleOutSem" for l using assms(4) by auto
  note h = first_onlyD [OF linked_first [THEN iffD1, OF p(1) y(1)]]
  have hb: "held ?b u = held a u" for u by (simp add: held_def)
  have "u = t" if "at_call_of a (RemoveItem n) u" for u by (rule list_turn [OF assms(1,2,3) that])
  then have "items_ok (goto t fs ?b)" using mon_okD(5) [OF assms(1)] h by (auto simp: items_ok_def)
  moreover have "waiters_ok (goto t fs ?b)"
    by (rule turn_waiters [OF turnI [OF assms(1,2)]]) (use assms(4) in auto)
  ultimately show ?thesis by (intro turn_mon [OF assms(1,2)]) (use y p hb h in auto)
qed

lemma RemoveLoop_ok:
  assumes "mon_ok a" and "progs a t = Some (RemoveLoop n # fs)" and "items a n \<noteq> Some []"
  shows "mon_ok (goto t fs a)"
proof -
  note y = turn_typed [OF assms(1,2)]
  obtain gs where gs: "fs = RemoveItem n # gs" using y(1) by (cases fs) simp_all
  have "items_ok (goto t fs a)" using mon_okD(5) [OF assms(1)] assms(3) gs by (auto simp: items_ok_def)
  moreover have "waiters_ok (goto t fs a)" by (rule turn_waiters [OF turnI [OF assms(1,2)]]) auto
  ultimately show ?thesis by (intro turn_mon [OF assms(1,2)]) (use y gs in auto)
qed

subsection \<open>Every step keeps the invariant\<close>

lemma act_ok:
  assumes "mon_ok a" and "progs a t = Some (f # fs)" and "act t f fs a = Some a'"
  shows "mon_ok a'"
proof -
  note r = assms(1,2)
  note y = turn_typed [OF r]
  have c: "vals a ConsoleOutSem \<noteq> None" using mon_okD(4) [OF r(1)] by (auto simp: console_ok_def)
  show ?thesis
  proof (cases f)
    case (SemP s)
    then obtain v where v: "vals a s = Some v" "0 < v" "a' = goto t fs (add_val s (- 1) a)"
      using assms(3) by (auto split: option.splits if_splits)
    show ?thesis
    proof (cases s)
      case (LockSem l)
      with SemP v lock_P_ok [of a t l fs v] r show ?thesis by simp
    next
      case (Waiter w)
      with SemP v waiter_P_ok [of a t w fs v] r show ?thesis by simp
    next
      case ConsoleOutSem
      with SemP v console_P_ok [of a t fs v] r show ?thesis by simp
    qed (use SemP v(3) user_val_ok [OF r, of s] in auto)
  next
    case (SemV s)
    then obtain n where "s = UserSem n" using y(2) by (cases s) auto
    with SemV assms(3) user_val_ok [OF r, of s 1] show ?thesis by (auto split: if_splits)
  next
    case (SetHolder l)
    with SetHolder_ok [of a t l fs] r assms(3) show ?thesis by auto
  next
    case (Release l)
    with Release_ok [of a t l fs] r assms(3) show ?thesis by (auto split: if_splits)
  next
    case (Wait c l)
    with Wait_ok(3) [of a t c l fs] r assms(3) show ?thesis by (auto simp: Let_def split: if_splits)
  next
    case (Signal c l)
    with Signal_ok(2) [of a t c l fs] r assms(3) pop_ok [OF r] show ?thesis by (auto split: if_splits list.splits)
  next
    case (Broadcast c l)
    with expand_ok [OF r] pop_ok [OF r] assms(3) show ?thesis by (auto split: if_splits)
  next
    case (DeleteWaiter w)
    with DeleteWaiter_ok(2) [of a t w fs] r assms(3) show ?thesis by auto
  next
    case (AppendItem n x)
    with set_items_ok [OF r, of n x] assms(3) show ?thesis by (auto split: option.splits)
  next
    case (RemoveLoop n)
    with expand_ok [OF r] RemoveLoop_ok [of a t n fs] r assms(3) show ?thesis by (auto split: if_splits)
  next
    case (RemoveItem n)
    with set_items_ok [OF r, of n] assms(3) show ?thesis by (auto split: option.splits list.splits)
  next
    case (DevicePutChar ch)
    with device_put_ok(2) [of a t ch fs] r assms(3) show ?thesis by (auto split: if_splits)
  qed (use assms(3) expand_ok [OF r] pop_ok [OF r] in auto)
qed

lemma typed_prog_public:
  assumes "list_all public body"
  shows "typed {} (prog body) \<and> waits_wf (prog body) \<and> first_only (prog body) \<and> (\<forall>w. \<not> names w (prog body))"
  using assms
proof (induction body)
  case Nil
  then show ?case by (simp add: prog_def map_filter_simps)
next
  case (Cons f body)
  then show ?case
    by (cases f rule: public.cases) (auto simp: prog_def map_filter_simps linked_first)
qed

lemma new_thread_ok:
  assumes "mon_ok a" and "list_all public body" and "progs a t = None"
  shows "mon_ok (goto t (prog body) a)"
proof -
  note p = typed_prog_public [OF assms(2)] and k = mon_okD [OF assms(1)]
  note h = first_onlyD [of "prog body"]
  have n: "\<not> names w (prog body)" for w using p by blast
  have at: "at_call_of a f t = False" for f using assms(3) by (simp add: at_call_of_def)
  have "held a t = {}" using k(1) assms(3) by (simp add: progs_ok_def)
  then have "progs_ok (goto t (prog body) a)" using k(1) p by (simp add: progs_ok_def)
  moreover have "lock_ok (goto t (prog body) a) l" for l
  proof -
    have "at_call_of (goto t (prog body) a) (SetHolder l) u = at_call_of a (SetHolder l) u" for u using at h p by auto
    with k(2) [of l] show ?thesis by (simp add: lock_ok_def)
  qed
  moreover have "waiters_ok (goto t (prog body) a)"
    by (rule waiters_transfer [OF k(3)]) (use n assms(3) in \<open>auto split: if_splits\<close>)
  moreover have "console_ok (goto t (prog body) a)"
  proof -
    have "at_call_of (goto t (prog body) a) (SemP ConsoleOutSem) u = at_call_of a (SemP ConsoleOutSem) u" for u using at h p by auto
    with k(4) show ?thesis by (simp add: console_ok_def)
  qed
  moreover have "items_ok (goto t (prog body) a)"
    using k(5) h p unfolding items_ok_def by (metis at_call_goto goto_simps(6))
  ultimately show ?thesis by (intro mon_okI)
qed

lemma interrupt_ok:
  assumes "mon_ok a"
  shows "mon_ok (add_val ConsoleInSem 1 a)" and "busy a \<Longrightarrow> mon_ok (add_val ConsoleOutSem 1 (a\<lparr>busy := False\<rparr>))"
proof -
  note k = mon_okD [OF assms]
  have w: "waiters_ok b" if "progs b = progs a" "fresh b = fresh a" "condq b = condq a" "\<And>w. vals b (Waiter w) = vals a (Waiter w)" for b
    by (rule waiters_transfer [OF k(3)]) (use that in auto)
  have hb: "held (a\<lparr>busy := x\<rparr>) u = held a u" for u x by (simp add: held_def)
  show "mon_ok (add_val ConsoleInSem 1 a)"
    by (intro mon_okI w) (use k in \<open>auto simp: progs_ok_def lock_ok_def console_ok_def items_ok_def\<close>)
  show "mon_ok (add_val ConsoleOutSem 1 (a\<lparr>busy := False\<rparr>))" if "busy a"
    by (intro mon_okI w) (use k that hb in \<open>auto simp: progs_ok_def lock_ok_def console_ok_def items_ok_def split: if_splits\<close>)
qed

lemma gone_ok:
  assumes "mon_ok a" and "progs a t = Some []"
  shows "mon_ok (a\<lparr>progs := (progs a)(t := None)\<rparr>)"
proof -
  let ?b = "a\<lparr>progs := (progs a)(t := None)\<rparr>"
  note k = mon_okD [OF assms(1)]
  have hb: "held ?b u = held a u" for u by (simp add: held_def)
  have "typed (held a t) []" using k(1) assms(2) unfolding progs_ok_def by blast
  then have "progs_ok ?b" using k(1) hb by (auto simp: progs_ok_def)
  moreover have at: "at_call_of ?b f u = at_call_of a f u" for f u using assms(2) by (auto simp: at_call_of_def)
  moreover have "waiters_ok ?b"
    by (rule waiters_transfer [OF k(3)]) (use assms(2) in \<open>auto split: if_splits\<close>)
  ultimately show ?thesis using k(2,4,5) by (intro mon_okI) (simp_all add: lock_ok_def console_ok_def items_ok_def)
qed

lemma mstep_ok:
  assumes "mstep a a'" and "mon_ok a"
  shows "mon_ok a'"
  using assms(1)
proof cases
  case (call t f fs)
  then show ?thesis using act_ok assms(2) by blast
next
  case (fork t body fs t')
  have "mon_ok (goto t fs a)" using pop_ok [OF assms(2) fork(2)] by simp
  moreover have "t' \<noteq> t" using fork by auto
  ultimately show ?thesis using new_thread_ok [of "goto t fs a" body t'] fork by simp
next
  case char_typed
  then show ?thesis using interrupt_ok(1) assms(2) by blast
next
  case char_shown
  then show ?thesis using interrupt_ok(2) assms(2) by blast
next
  case (gone t)
  then show ?thesis using gone_ok assms(2) by blast
qed

lemma msteps_ok: "mstep\<^sup>*\<^sup>* a a' \<Longrightarrow> mon_ok a \<Longrightarrow> mon_ok a'"
  by (induction rule: rtranclp_induct) (auto intro: mstep_ok)

text \<open>The semaphores of the programmer are never deleted.\<close>

definition users_ok :: "monitor \<Rightarrow> bool" where
  "users_ok a \<longleftrightarrow> (\<forall>n. vals a (UserSem n) \<noteq> None)"

lemma act_users:
  assumes "users_ok a" and "act t f fs a = Some a'"
  shows "users_ok a'"
  using assms by (cases f) (auto simp: users_ok_def Let_def split: option.splits list.splits if_split_asm)

lemma mstep_users:
  assumes "mstep a a'" and "users_ok a"
  shows "users_ok a'"
  using assms(1)
proof cases
  case (call t f fs)
  from act_users [OF assms(2) this(2)] show ?thesis .
qed (use assms(2) in \<open>auto simp: users_ok_def\<close>)

lemma msteps_users: "mstep\<^sup>*\<^sup>* a a' \<Longrightarrow> users_ok a \<Longrightarrow> users_ok a'"
  by (induction rule: rtranclp_induct) (auto intro: mstep_users)

end
