(* ===== verification/Kernel_Switch.thy ===== *)
theory Kernel_Switch
  imports Kernel_Inv
begin

text \<open>
  The operations that pass the processor on: the scheduler's invariant through \<open>Run\<close>,
  \<open>Sleep\<close>, \<open>Yield\<close>, \<open>Begin\<close>, \<open>Finish\<close> and \<open>Fork\<close>. What the hardware has to provide is that
  the registers can be saved: \<open>mach_ok\<close>.
\<close>

subsection \<open>The registers and the address spaces\<close>

definition regs_fit :: "u32 list \<Rightarrow> bool" where
  "regs_fit vs \<longleftrightarrow> length vs = 40 \<and> uint (vs ! 37) < 32"

definition mach_ok :: "kernel \<Rightarrow> bool" where
  "mach_ok k \<longleftrightarrow> regs_fit (registers (machine k)) \<and> length (mainMemory (machine k)) = 16384 \<and>
     tlb (machine k) = None \<and>
     (\<forall>t th. threads k t = Some th \<longrightarrow> regs_fit (userRegisters th) \<and> (\<forall>sp. space th = Some sp \<longrightarrow> spaces k sp \<noteq> None)) \<and>
     (\<forall>sp as. spaces k sp = Some as \<longrightarrow> uint (numPages as) \<le> int (length (as_pageTable as))) \<and>
     (\<forall>sp. table_of k = Some sp \<longrightarrow> (\<exists>as. spaces k sp = Some as \<and> pageTableSize (machine k) = numPages as))"

lemma copy_registers:
  assumes "length xs = 40" and "n \<le> 40" and "length ys = 40"
  shows "foldM (\<lambda>i rs. do { v \<leftarrow> arr_get xs i; arr_set rs i v }) [0..int n - 1] ys = Some (take n xs @ drop n ys)"
  using assms(2)
proof (induction n)
  case 0
  then show ?case by simp
next
  case (Suc n)
  have r: "[0..int (Suc n) - 1] = [0..int n - 1] @ [int n]" using upto_rec2 [of 0 "int n"] by simp
  have l: "(take n xs @ drop n ys)[n := xs ! n] = take (Suc n) xs @ drop (Suc n) ys"
    using Suc.prems assms(1,3)
    by (intro nth_equalityI) (auto simp: nth_list_update nth_append min_def less_Suc_eq)
  show ?case
    unfolding r foldM_append using Suc assms(1,3) l by (simp add: arr_get_in arr_set_in)
qed

lemma SaveUserState_eq:
  assumes "threads k t = Some th" and "regs_fit (registers (machine k))" and "length (userRegisters th) = 40"
  shows "SaveUserState t k = with_thread t (\<lambda>th. th\<lparr>userRegisters := registers (machine k)\<rparr>) k"
proof -
  let ?f = "\<lambda>i rs. do { v \<leftarrow> ReadRegister (machine k) i; arr_set rs i v }"
  let ?g = "\<lambda>i rs. do { v \<leftarrow> arr_get (registers (machine k)) i; arr_set rs i v }"
  have fg: "foldM ?f is vs = foldM ?g is vs" if "set is \<subseteq> {0..<40}" for "is" vs
    using that
  proof (induction "is" arbitrary: vs)
    case (Cons i "is")
    then have "ReadRegister (machine k) i = arr_get (registers (machine k)) i"
      by (simp add: ReadRegister_def get_reg_def NumTotalRegs_def)
    with Cons show ?case by (simp cong: bind_option_cong)
  qed simp
  have "foldM ?f [0..NumTotalRegs - 1] (userRegisters th) = foldM ?g [0..int 40 - 1] (userRegisters th)"
    by (subst fg) (auto simp: NumTotalRegs_def)
  also have "\<dots> = Some (registers (machine k))"
    using copy_registers [of "registers (machine k)" 40 "userRegisters th"] assms(2,3) by (simp add: regs_fit_def)
  finally show ?thesis using assms(1) by (simp add: SaveUserState_def)
qed

lemma RestoreUserState_eq:
  assumes "threads k t = Some th" and "length (registers (machine k)) = 40" and "length (userRegisters th) = 40"
  shows "RestoreUserState t k = Some (k\<lparr>machine := (machine k)\<lparr>registers := userRegisters th\<rparr>\<rparr>)"
proof -
  let ?f = "\<lambda>i m. do { v \<leftarrow> arr_get (userRegisters th) i; WriteRegister m i v }"
  let ?g = "\<lambda>i rs. do { v \<leftarrow> arr_get (userRegisters th) i; arr_set rs i v }"
  have fg: "foldM ?f is m = map_option (\<lambda>rs. m\<lparr>registers := rs\<rparr>) (foldM ?g is (registers m))"
    if "set is \<subseteq> {0..<40}" for "is" m
    using that
  proof (induction "is" arbitrary: m)
    case (Cons i "is")
    show ?case
    proof (cases "arr_get (userRegisters th) i")
      case (Some v)
      have "WriteRegister m i v = map_option (\<lambda>rs. m\<lparr>registers := rs\<rparr>) (arr_set (registers m) i v)"
        using Cons.prems by (cases "arr_set (registers m) i v") (simp_all add: WriteRegister_def set_reg_def NumTotalRegs_def)
      with Some Cons show ?thesis by (cases "arr_set (registers m) i v") simp_all
    qed simp
  qed simp
  have "foldM ?f [0..NumTotalRegs - 1] (machine k) =
      map_option (\<lambda>rs. (machine k)\<lparr>registers := rs\<rparr>) (foldM ?g [0..int 40 - 1] (registers (machine k)))"
    by (subst fg) (auto simp: NumTotalRegs_def)
  also have "\<dots> = Some ((machine k)\<lparr>registers := userRegisters th\<rparr>)"
    using copy_registers [of "userRegisters th" 40 "registers (machine k)"] assms(2,3) by simp
  finally show ?thesis using assms(1) by (simp add: RestoreUserState_def)
qed

subsection \<open>Dispatching the first ready thread\<close>

text \<open>All threads, the running one included, are as a thread without the processor should be.\<close>

definition all_ok :: "kernel \<Rightarrow> bool" where
  "all_ok k \<longleftrightarrow> ready_ok k \<and> queues_ok k \<and> threads_ok k \<and>
     (\<forall>t. toBeDestroyed k = Some t \<longrightarrow>
        (\<exists>th. threads k t = Some th \<and> thread_status th = BLOCKED \<and> stack th = [AfterSwitch])) \<and> (\<exists>th. this_thread k = Some th \<and> waiting_ok k (currentThread k) th \<and>
     (currentThread k \<in> set (readyList k) \<longrightarrow> thread_status th = READY) \<and>
     (\<forall>s. waits_on k (currentThread k) s \<longrightarrow> thread_status th = BLOCKED \<and> suspended s (stack th)))"

definition dispatch :: "tid \<Rightarrow> tid list \<Rightarrow> kernel \<Rightarrow> kernel" where
  "dispatch n rl k =
     k\<lparr>threads := (threads k)(n := map_option (\<lambda>th. th\<lparr>thread_status := RUNNING\<rparr>) (threads k n)),
       readyList := rl, currentThread := n\<rparr>"

lemma dispatch_ok:
  assumes "all_ok k" and "readyList k = n # rl"
  shows "sched_ok IntOff (dispatch n rl k)"
proof -
  obtain th0 where o: "ready_ok k" "queues_ok k" "threads_ok k"
      "\<And>t. toBeDestroyed k = Some t \<Longrightarrow> \<exists>th. threads k t = Some th \<and> thread_status th = BLOCKED \<and> stack th = [AfterSwitch]"
    and c: "this_thread k = Some th0" "waiting_ok k (currentThread k) th0"
    "currentThread k \<in> set (readyList k) \<longrightarrow> thread_status th0 = READY"
    "\<And>s. waits_on k (currentThread k) s \<Longrightarrow> thread_status th0 = BLOCKED \<and> suspended s (stack th0)"
    using assms(1) unfolding all_ok_def by blast
  have ready: "\<exists>th. threads k t = Some th \<and> thread_status th = READY" if "t \<in> set (n # rl)" for t
    using ready_thread [OF o(1), of t] that assms(2) c(1,3) by (cases "t = currentThread k") (auto simp: this_thread_def)
  have queued: "\<exists>th. threads k t = Some th \<and> thread_status th = BLOCKED \<and> suspended s (stack th)" if "waits_on k t s" for t s
    using queued_thread [OF o(2), of s _ t] that c(1,4) by (cases "t = currentThread k") (auto simp: this_thread_def waits_on_def)
  have wok: "waiting_ok k t th" if "threads k t = Some th" for t th
    using that o(3) c(1,2) by (cases "t = currentThread k") (auto simp: threads_ok_def this_thread_def)
  obtain th where th: "threads k n = Some th" "thread_status th = READY" using ready [of n] by auto
  then have cr: "can_resume (stack th)" using wok [OF th(1)] by (auto simp: waiting_ok_def)
  have nw: "\<not> waits_on k n s" for s using queued [of n s] th by auto
  have d: "distinct (n # rl)" using o(1) assms(2) by (simp add: ready_ok_def)
  let ?k = "dispatch n rl k"
  have f: "currentThread ?k = n" "readyList ?k = rl" "semaphores ?k = semaphores k" "toBeDestroyed ?k = toBeDestroyed k"
    "next_thread ?k = next_thread k" "threads ?k = (threads k)(n \<mapsto> th\<lparr>thread_status := RUNNING\<rparr>)"
    "waits_on ?k t s = waits_on k t s" for t s
    using th(1) by (simp_all add: dispatch_def waits_on_def)
  have "ready_ok ?k" using d ready by (auto simp: ready_ok_def f)
  moreover have "queues_ok ?k"
    using o(2) queued by (auto simp: queues_ok_def f waits_on_def)
  moreover have "threads_ok ?k"
    using o(3) wok th(1) assms(2) by (auto simp: threads_ok_def f waiting_ok_def)
  moreover have "doomed_ok ?k"
    using o(4) th by (fastforce simp: doomed_ok_def f)
  moreover have "running_ok IntOff ?k (th\<lparr>thread_status := RUNNING\<rparr>)"
    using d nw cr by (simp add: running_ok_def f)
  ultimately show ?thesis by (simp add: sched_ok_def others_ok_def this_thread_def f)
qed

text \<open>What \<open>Run\<close> leaves of the old thread.\<close>

definition saved :: "kernel \<Rightarrow> thread \<Rightarrow> thread" where
  "saved k th = (if space th \<noteq> None then th\<lparr>userRegisters := registers (machine k)\<rparr> else th)"

definition left :: "bool \<Rightarrow> thread \<Rightarrow> kernel \<Rightarrow> kernel" where
  "left finishing th k =
     set_this (saved k th\<lparr>stack := AfterSwitch # stack th\<rparr>)
       (if finishing then k\<lparr>toBeDestroyed := Some (currentThread k)\<rparr> else k)"

lemma saved_simps [simp]: "thread_status (saved k th) = thread_status th" "stack (saved k th) = stack th"
  "space (saved k th) = space th"
  by (simp_all add: saved_def)

lemma left_simps [simp]:
  "currentThread (left f th k) = currentThread k" "readyList (left f th k) = readyList k"
  "semaphores (left f th k) = semaphores k" "next_thread (left f th k) = next_thread k" "level (left f th k) = level k"
  "threads (left f th k) = (threads k)(currentThread k \<mapsto> saved k th\<lparr>stack := AfterSwitch # stack th\<rparr>)"
  "this_thread (left f th k) = Some (saved k th\<lparr>stack := AfterSwitch # stack th\<rparr>)"
  "waits_on (left f th k) t s = waits_on k t s"
  "toBeDestroyed (left f th k) = (if f then Some (currentThread k) else toBeDestroyed k)"
  by (simp_all add: left_def this_thread_def waits_on_def)

lemma Run_eq:
  assumes "level k = IntOff" and "this_thread k = Some th" and "regs_fit (registers (machine k))"
    and "length (userRegisters th) = 40" and "finishing \<longrightarrow> toBeDestroyed k = None" and "threads k n \<noteq> None"
  shows "Run n finishing k = Some (dispatch n (readyList k) (left finishing th k))"
proof -
  have t: "threads k (currentThread k) = Some th" using assms(2) by (simp add: this_thread_def)
  have save: "SaveUserState (currentThread k) (k\<lparr>toBeDestroyed := d\<rparr>) =
      Some (k\<lparr>toBeDestroyed := d, threads := (threads k)(currentThread k \<mapsto> th\<lparr>userRegisters := registers (machine k)\<rparr>)\<rparr>)" for d
    using t assms(3,4) by (simp add: SaveUserState_eq [of "k\<lparr>toBeDestroyed := d\<rparr>"] with_thread_def)
  have k: "k\<lparr>toBeDestroyed := toBeDestroyed k\<rparr> = k" by (cases k) simp
  note defs = Run_def Let_def enter_def with_thread_def set_status_def dispatch_def left_def set_this_def saved_def
  obtain th' where n: "threads k n = Some th'" using assms(6) by blast
  show ?thesis
  proof (cases finishing)
    case True
    then show ?thesis using assms(1,5) t n save by (cases "space th"; cases "n = currentThread k") (simp_all add: defs)
  next
    case False
    then show ?thesis
      using assms(1) t n save [of "toBeDestroyed k", unfolded k]
      by (cases "space th"; cases "n = currentThread k") (simp_all add: defs)
  qed
qed

lemma left_all_ok:
  assumes "others_ok k" and "this_thread k = Some th" and "toBeDestroyed k = None"
    and "f \<Longrightarrow> thread_status th = BLOCKED \<and> stack th = []"
    and "waiting_ok (left f th k) (currentThread k) (th\<lparr>stack := AfterSwitch # stack th\<rparr>)"
    and "currentThread k \<in> set (readyList k) \<Longrightarrow> thread_status th = READY"
    and "\<And>s. waits_on k (currentThread k) s \<Longrightarrow> thread_status th = BLOCKED \<and> suspended s (AfterSwitch # stack th)"
  shows "all_ok (left f th k)"
proof -
  have o: "ready_ok k" "queues_ok k" "threads_ok k" using assms(1) by (simp_all add: others_ok_def)
  have "ready_ok (left f th k)" using o(1) by (auto simp: ready_ok_def)
  moreover have "queues_ok (left f th k)" using o(2) by (auto simp: queues_ok_def)
  moreover have "threads_ok (left f th k)"
    using o(3) assms(2,3) by (auto simp: threads_ok_def waiting_ok_def this_thread_def)
  ultimately show ?thesis using assms(3-7) unfolding all_ok_def by (auto simp: waiting_ok_def)
qed

subsection \<open>Sleep, yield, finish\<close>

lemma enter_calls:
  assumes "at_frame IntOn k fs" and "calls fs" and "toBeDestroyed k = None" and "list_all plain gs"
  shows "\<exists>th. this_thread k = Some th \<and> stack th = fs \<and> enter gs k = Some (set_this (th\<lparr>stack := gs @ fs\<rparr>) k) \<and>
    sched_ok IntOn (set_this (th\<lparr>stack := gs @ fs\<rparr>) k) \<and> level k = IntOn"
proof -
  from at_frame_enter [OF assms(1), of gs] obtain th where
    e: "this_thread k = Some th" "stack th = fs" "enter gs k = Some (set_this (th\<lparr>stack := gs @ fs\<rparr>) k)"
    "at_frame IntOn (set_this (th\<lparr>stack := gs @ fs\<rparr>) k) (gs @ fs)" by blast
  moreover have "sched_ok IntOn (set_this (th\<lparr>stack := gs @ fs\<rparr>) k)"
    by (rule at_frame_On [OF e(4)]) (use assms in \<open>simp_all add: calls_append\<close>)
  ultimately show ?thesis using assms(1) by (auto simp: at_frame_def)
qed

text \<open>The running thread is in the loop of \<open>Sleep\<close>; \<open>fs\<close> is what lies below.\<close>

definition at_sleep :: "bool \<Rightarrow> kernel \<Rightarrow> frame list \<Rightarrow> bool" where
  "at_sleep finishing k fs \<longleftrightarrow> others_ok k \<and> level k = IntOff \<and>
     (\<exists>th. this_thread k = Some th \<and> stack th = fs \<and> sleeping_ok IntOff k (th\<lparr>stack := SleepLoop finishing # fs\<rparr>))"

lemma waiting_ok_cong:
  "waiting_ok k t th \<Longrightarrow> thread_status th' = thread_status th \<Longrightarrow> stack th' = stack th \<Longrightarrow> waiting_ok k t th'"
  by (simp add: waiting_ok_def)

lemma dispatch_left: "dispatch n rl (left f th (k\<lparr>readyList := x\<rparr>)) = dispatch n rl (left f th k)"
  by (simp add: dispatch_def left_def set_this_def saved_def)

lemma dispatch_simps [simp]:
  "level (dispatch n rl k) = level k" "currentThread (dispatch n rl k) = n" "readyList (dispatch n rl k) = rl"
  "inHandler (dispatch n rl k) = inHandler k" "toBeDestroyed (dispatch n rl k) = toBeDestroyed k"
  by (simp_all add: dispatch_def)

lemma Sleep_dispatches:
  assumes "at_sleep fin k fs" and "readyList k = n # rl" and "mach_ok k" and "this_thread k = Some th"
  shows "Sleep_loop fin k = Some (dispatch n rl (left fin th k))" and "sched_ok IntOff (dispatch n rl (left fin th k))"
proof -
  have a: "others_ok k" "level k = IntOff" "stack th = fs" "sleeping_ok IntOff k (th\<lparr>stack := SleepLoop fin # fs\<rparr>)"
    using assms(1,4) by (auto simp: at_sleep_def)
  have d: "toBeDestroyed k = None" using a(4) by (simp add: sleeping_ok_def)
  have n: "threads k n \<noteq> None"
    using ready_thread [of k n] a(1) assms(2,4) by (cases "n = currentThread k") (auto simp: others_ok_def this_thread_def)
  have m: "regs_fit (registers (machine k))" "length (userRegisters th) = 40"
    using assms(3,4) by (auto simp: mach_ok_def regs_fit_def this_thread_def)
  have "Run n fin (k\<lparr>readyList := rl\<rparr>) = Some (dispatch n rl (left fin th k))"
    using Run_eq [of "k\<lparr>readyList := rl\<rparr>" th fin n] a(2) assms(4) d n m by (simp add: this_thread_def dispatch_left)
  then show "Sleep_loop fin k = Some (dispatch n rl (left fin th k))"
    using a(2) assms(2) by (simp add: Sleep_loop_def FindNextToRun_def)
  let ?th = "th\<lparr>stack := AfterSwitch # stack th\<rparr>"
  have "all_ok (left fin th k)"
  proof (cases fin)
    case True
    with a(3,4) have "thread_status th = BLOCKED" "stack th = []" "currentThread k \<notin> set (readyList k)"
      "\<And>s. \<not> waits_on k (currentThread k) s" by (auto simp: sleeping_ok_def asleep_def)
    with True show ?thesis by (intro left_all_ok [OF a(1) assms(4) d]) (auto simp: waiting_ok_def)
  next
    case False
    then obtain s gs where s: "fs = PLoop s IntOn # gs" "calls gs"
      "(thread_status th = BLOCKED \<and> currentThread k \<notin> set (readyList k) \<and> (\<forall>s'. waits_on k (currentThread k) s' \<longleftrightarrow> s' = s)) \<or>
       (thread_status th = READY \<and> currentThread k \<in> set (readyList k) \<and> (\<forall>s'. \<not> waits_on k (currentThread k) s'))"
      using a(3,4) by (auto simp: sleeping_ok_def asleep_def)
    then have "suspended s (AfterSwitch # stack th)" using a(3) by (simp add: suspended_def)
    with s(3) False show ?thesis
      by (intro left_all_ok [OF a(1) assms(4) d]) (auto simp: waiting_ok_def can_resume_def)
  qed
  then show "sched_ok IntOff (dispatch n rl (left fin th k))" using dispatch_ok assms(2) by simp
qed

lemma Yield_alone:
  assumes "at_frame IntOn k fs" and "readyList k = []" and "\<not> inHandler k"
  shows "Thread_Yield k = enter [OneTick] k"
  using assms by (simp add: Thread_Yield_def FindNextToRun_def SetLevel_on at_frame_def level_same option.map_comp)
    (auto simp: comp_def option.map_ident split: bind_splits option.splits)

lemma Yield_switches:
  assumes "at_frame IntOn k fs" and "readyList k = n # rl" and "mach_ok k" and "this_thread k = Some th"
    and "calls fs" and "toBeDestroyed k = None"
  defines "k' \<equiv> dispatch n (rl @ [currentThread k])
    (left False (th\<lparr>thread_status := READY, stack := Restore IntOn # fs\<rparr>) (k\<lparr>level := IntOff\<rparr>))"
  shows "Thread_Yield k = Some k'" and "sched_ok IntOff k'"
proof -
  let ?c = "currentThread k" and ?th = "th\<lparr>thread_status := READY, stack := Restore IntOn # fs\<rparr>"
  have a: "others_ok k" "level k = IntOn" "?c \<notin> set (n # rl)" "\<And>s. \<not> waits_on k ?c s" "stack th = fs"
    using assms(1,2,4) by (auto simp: at_frame_def)
  obtain th' where n: "threads k n = Some th'" using ready_thread [of k n] a(1,3) assms(2) by (auto simp: others_ok_def)
  have m: "regs_fit (registers (machine k))" "length (userRegisters th) = 40"
    using assms(3,4) by (auto simp: mach_ok_def regs_fit_def this_thread_def)
  let ?k = "set_this ?th (k\<lparr>level := IntOff\<rparr>)"
  have "Thread_Yield k = Run n False (?k\<lparr>readyList := rl @ [?c]\<rparr>)"
    using assms(2,4) a(2,3,5)
    by (simp add: Thread_Yield_def FindNextToRun_def ReadyToRun_def seq_Append_def set_status_def with_thread_def
        enter_def this_thread_def set_this_def) (cases k, simp)
  also have "\<dots> = Some (dispatch n (rl @ [?c]) (left False ?th ?k))"
    using Run_eq [of "?k\<lparr>readyList := rl @ [?c]\<rparr>" ?th False n] a(3) n m
    by (simp add: this_thread_def dispatch_left set_this_def)
  also have "left False ?th ?k = left False ?th (k\<lparr>level := IntOff\<rparr>)"
    by (simp add: left_def set_this_def saved_def)
  finally show "Thread_Yield k = Some k'" by (simp add: k'_def)
  let ?v = "k\<lparr>level := IntOff, readyList := n # rl @ [?c]\<rparr>"
  have v: "currentThread ?v = ?c" "this_thread ?v = Some th" using assms(4) by (simp_all add: this_thread_def)
  have "all_ok (left False ?th ?v)"
  proof -
    have r: "readyList k = n # rl" by (rule assms(2))
    have o: "ready_ok k" "queues_ok k" "threads_ok k" using a(1) by (simp_all add: others_ok_def)
    have "ready_ok (left False ?th ?v)" using o(1) a(3) r by (auto simp: ready_ok_def)
    moreover have "queues_ok (left False ?th ?v)" using o(2) by (auto simp: queues_ok_def)
    moreover have "threads_ok (left False ?th ?v)"
      using o(3) assms(2,4,6) by (auto simp: threads_ok_def waiting_ok_def this_thread_def)
    moreover have "yielded (AfterSwitch # Restore IntOn # fs)" using assms(5) by (simp add: yielded_def)
    ultimately show ?thesis
      using assms(6) a(4) unfolding all_ok_def by (auto simp: waiting_ok_def can_resume_def)
  qed
  then have "sched_ok IntOff (dispatch n (rl @ [?c]) (left False ?th ?v))"
    using dispatch_ok [of "left False ?th ?v" n "rl @ [?c]"] by simp
  then show "sched_ok IntOff k'" by (simp add: k'_def dispatch_left)
qed

lemma sched_Yield:
  assumes "at_frame IntOn k fs" and "mach_ok k" and "calls fs" and "toBeDestroyed k = None" and "\<not> inHandler k"
  shows "\<exists>k'. Thread_Yield k = Some k' \<and> sched_ok (level k') k'"
proof (cases "readyList k")
  case Nil
  with Yield_alone [OF assms(1) Nil assms(5)] enter_calls [OF assms(1,3,4), of "[OneTick]"] show ?thesis by auto
next
  case (Cons n rl)
  obtain th where "this_thread k = Some th" using at_frame_this [OF assms(1)] by blast
  from Yield_switches [OF assms(1) Cons assms(2) this assms(3,4)] show ?thesis by simp
qed

text \<open>\<open>Finish\<close> and a blocked \<open>P\<close> enter the loop of \<open>Sleep\<close>.\<close>

lemma sched_Finish:
  assumes "at_frame IntOn k []" and "toBeDestroyed k = None"
  shows "\<exists>k'. Thread_Finish k = Some k' \<and> sched_ok (level k') k'"
proof -
  obtain th where th: "this_thread k = Some th" "stack th = []" using at_frame_this [OF assms(1)] by blast
  have a: "others_ok k" "currentThread k \<notin> set (readyList k)" "\<And>s. \<not> waits_on k (currentThread k) s"
    using assms(1) by (auto simp: at_frame_def)
  let ?th = "th\<lparr>thread_status := BLOCKED, stack := [SleepLoop True]\<rparr>"
  let ?k = "set_this ?th (k\<lparr>level := IntOff\<rparr>)"
  have "Thread_Finish k = Some ?k"
    using th by (simp add: Thread_Finish_def Thread_Sleep_def set_status_def enter_def with_thread_def this_thread_def set_this_def)
  moreover have "others_ok ?k" using a(1) th(1) same_others [of "k\<lparr>level := IntOff\<rparr>" k]
    by (intro others_set_this) (simp_all add: this_thread_def)
  then have "sched_ok IntOff ?k" using a(2,3) assms(2) by (simp add: sched_ok_def sleeping_ok_def)
  ultimately show ?thesis by simp
qed

subsection \<open>A thread that has the processor again\<close>

lemma forget_doomed:
  assumes "others_ok k" and "this_thread k = Some th" and "toBeDestroyed k = Some t"
  shows "others_ok (k\<lparr>threads := (threads k)(t := None), toBeDestroyed := None\<rparr>)"
proof -
  have o: "ready_ok k" "queues_ok k" "threads_ok k" "doomed_ok k" using assms(1) by (simp_all add: others_ok_def)
  obtain d where d: "t \<noteq> currentThread k" "threads k t = Some d" "thread_status d = BLOCKED" "stack d = [AfterSwitch]"
    using o(4) assms(3) by (auto simp: doomed_ok_def)
  let ?k = "k\<lparr>threads := (threads k)(t := None), toBeDestroyed := None\<rparr>"
  have r: "t \<notin> set (readyList k)" using ready_thread [OF o(1)] d by fastforce
  have q: "semaphores k s = Some sm \<Longrightarrow> t \<notin> set (sem_queue sm)" for s sm
    using queued_thread [OF o(2), of s sm t] d by auto
  have "ready_ok ?k" using o(1) r by (auto simp: ready_ok_def)
  moreover have "queues_ok ?k" using o(2) q by (auto simp: queues_ok_def)
  moreover have "threads_ok ?k" using o(3) assms(3) by (auto simp: threads_ok_def waiting_ok_def waits_on_def)
  ultimately show ?thesis by (simp add: others_ok_def doomed_ok_def)
qed

definition cleaned :: "kernel \<Rightarrow> kernel" where
  "cleaned k = (case toBeDestroyed k of None \<Rightarrow> k
     | Some t \<Rightarrow> k\<lparr>threads := (threads k)(t := None), toBeDestroyed := None\<rparr>)"

lemma cleaned_simps [simp]:
  "currentThread (cleaned k) = currentThread k" "readyList (cleaned k) = readyList k" "level (cleaned k) = level k"
  "semaphores (cleaned k) = semaphores k" "inHandler (cleaned k) = inHandler k" "toBeDestroyed (cleaned k) = None"
  "machine (cleaned k) = machine k" "spaces (cleaned k) = spaces k"
  by (simp_all add: cleaned_def split: option.split)

lemma at_frame_cleaned:
  assumes "at_frame lv k fs"
  shows "CheckToBeDestroyed k = Some (cleaned k)" and "at_frame lv (cleaned k) fs" and "this_thread (cleaned k) = this_thread k"
proof -
  obtain th where th: "this_thread k = Some th" "others_ok k" using assms by (auto simp: at_frame_def)
  then have d: "t \<noteq> currentThread k" if "toBeDestroyed k = Some t" for t using that by (auto simp: others_ok_def doomed_ok_def)
  then show "CheckToBeDestroyed k = Some (cleaned k)" by (auto simp: CheckToBeDestroyed_def cleaned_def split: option.split)
  show t: "this_thread (cleaned k) = this_thread k" using d by (auto simp: cleaned_def this_thread_def split: option.split)
  have "others_ok (cleaned k)" using th forget_doomed [OF th(2,1)] by (auto simp: cleaned_def split: option.split)
  then show "at_frame lv (cleaned k) fs" using assms t by (simp add: at_frame_def waits_on_def)
qed

lemma sched_Begin:
  assumes "at_frame IntOff k fs" and "calls fs" and "\<not> inHandler k"
  shows "\<exists>k'. Thread_Begin k = Some k' \<and> sched_ok (level k') k'"
proof -
  note c = at_frame_cleaned [OF assms(1)]
  let ?k = "cleaned k\<lparr>level := IntOn\<rparr>"
  have "at_frame IntOn ?k fs" by (rule same_at_frame [OF _ c(2)]) simp_all
  then have "\<exists>k'. enter [OneTick] ?k = Some k' \<and> sched_ok (level k') k'"
    using enter_calls [of ?k fs "[OneTick]"] assms(2) by auto
  moreover have "level k = IntOff" using assms(1) by (simp add: at_frame_def)
  ultimately show ?thesis using c(1) assms(3) by (auto simp: Thread_Begin_def SetLevel_on)
qed

lemma sched_Restore:
  assumes "at_frame IntOff k fs" and "calls fs" and "\<not> inHandler k" and "toBeDestroyed k = None"
  shows "\<exists>k'. exec (Restore IntOn) k = Some k' \<and> sched_ok (level k') k'"
proof -
  let ?k = "k\<lparr>level := IntOn\<rparr>"
  have "at_frame IntOn ?k fs" by (rule same_at_frame [OF _ assms(1)]) simp_all
  then have "\<exists>k'. enter [OneTick] ?k = Some k' \<and> sched_ok (level k') k'"
    using enter_calls [of ?k fs "[OneTick]"] assms(2,4) by auto
  moreover have "level k = IntOff" using assms(1) by (simp add: at_frame_def)
  ultimately show ?thesis using assms(3) by (auto simp: SetLevel_on)
qed

lemma sched_AfterSwitch:
  assumes "at_frame IntOff k fs" and "resumed fs" and "mach_ok k" and "this_thread k = Some th"
  defines "k' \<equiv> (case space th of None \<Rightarrow> cleaned k
     | Some sp \<Rightarrow> (cleaned k)\<lparr>table_of := Some sp,
         machine := (machine k)\<lparr>registers := userRegisters th, pageTableSize := numPages (the (spaces k sp))\<rparr>\<rparr>)"
  shows "Run_after_switch k = Some k'" and "sched_ok (level k') k'"
proof -
  note c = at_frame_cleaned [OF assms(1)]
  have l: "level k = IntOff" using assms(1) by (simp add: at_frame_def)
  have t: "threads (cleaned k) (currentThread k) = Some th" using c(3) assms(4) by (simp add: this_thread_def)
  have m: "length (registers (machine k)) = 40" "length (userRegisters th) = 40"
    "\<And>sp. space th = Some sp \<Longrightarrow> \<exists>as. spaces k sp = Some as"
    using assms(3,4) by (auto simp: mach_ok_def regs_fit_def this_thread_def)
  show "Run_after_switch k = Some k'"
  proof (cases "space th")
    case None
    then show ?thesis using l c(1,3) assms(4) by (simp add: Run_after_switch_def k'_def)
  next
    case (Some sp)
    then obtain as where "spaces k sp = Some as" using m(3) by blast
    with Some show ?thesis
      using l c(1,3) assms(4) m t RestoreUserState_eq [of "cleaned k" "currentThread k" th]
      by (simp add: Run_after_switch_def k'_def RestoreState_def)
  qed
  have "same_sched k' (cleaned k)" by (auto simp: k'_def same_sched_def split: option.split)
  moreover have "sched_ok IntOff (cleaned k)"
    using c(2) assms(2) by (auto simp: sched_ok_def at_frame_def running_ok_def)
  moreover have "level k' = IntOff" using l by (auto simp: k'_def split: option.split)
  ultimately show "sched_ok (level k') k'" using same_sched_ok by simp
qed

subsection \<open>A new thread\<close>

lemma sched_Fork:
  assumes "at_frame IntOn k fs" and "calls fs" and "toBeDestroyed k = None" and "\<not> inHandler k" and "list_all public body"
  shows "\<exists>k'. Thread_Fork body k = Some k' \<and> sched_ok (level k') k'"
proof -
  obtain th where th: "this_thread k = Some th" "thread_status th = RUNNING" "stack th = fs"
    using at_frame_this [OF assms(1)] by blast
  let ?t = "next_thread k" and ?c = "currentThread k"
  have a: "others_ok k" "level k = IntOn" "?c \<notin> set (readyList k)" "\<And>s. \<not> waits_on k ?c s"
    using assms(1) by (auto simp: at_frame_def)
  have o: "ready_ok k" "queues_ok k" "threads_ok k" "doomed_ok k" using a(1) by (simp_all add: others_ok_def)
  have new: "threads k ?t = None" using o(3) by (cases "threads k ?t") (auto simp: threads_ok_def)
  have c: "?t \<noteq> ?c" using th(1) new by (auto simp: this_thread_def)
  have r: "?t \<notin> set (readyList k)" using ready_thread [OF o(1)] new c by fastforce
  have q: "semaphores k s = Some sm \<Longrightarrow> ?t \<notin> set (sem_queue sm)" for s sm
    using queued_thread [OF o(2), of s sm ?t] new c by auto
  let ?th = "(Thread_new body)\<lparr>thread_status := READY\<rparr>"
  let ?k = "k\<lparr>next_thread := Suc ?t, threads := (threads k)(?t \<mapsto> ?th), readyList := readyList k @ [?t]\<rparr>"
  have "unborn (stack ?th)" using calls_body [OF assms(5)] by (simp add: Thread_new_def unborn_def)
  then have w: "waiting_ok ?k ?t ?th" by (simp add: waiting_ok_def can_resume_def)
  have "ready_ok ?k" using o(1) r by (auto simp: ready_ok_def)
  moreover have "queues_ok ?k" using o(2) q by (auto simp: queues_ok_def)
  moreover have "threads_ok ?k"
    using o(3) w by (auto simp: threads_ok_def waiting_ok_def waits_on_def less_Suc_eq)
  moreover have "doomed_ok ?k" using o(4) new by (auto simp: doomed_ok_def)
  ultimately have "at_frame IntOn ?k fs"
    using a th c by (auto simp: at_frame_def others_ok_def this_thread_def waits_on_def)
  then have "\<exists>k'. enter [OneTick] ?k = Some k' \<and> sched_ok (level k') k'"
    using enter_calls [of ?k fs "[OneTick]"] assms(2,3) a(2) by auto
  moreover have "Thread_Fork body k = enter [OneTick] ?k"
    using a(2) assms(4) r
    by (simp add: Thread_Fork_def ReadyToRun_def set_status_def with_thread_def seq_Append_def SetLevel_def Let_def level_same)
  ultimately show ?thesis by simp
qed

end
