(* ===== verification/Kernel_Abs.thy ===== *)
theory Kernel_Abs
  imports Monitor Kernel_Switch
begin

text \<open>
  The abstraction of a kernel to the machine of \<open>Monitor\<close>: stacks become the calls that are left,
  semaphores their values; queues, statuses, clock and devices disappear.
\<close>

definition monitor_of :: "kernel \<Rightarrow> monitor" where
  "monitor_of k =
     \<lparr>progs = \<lambda>t. map_option (\<lambda>th. prog (stack th)) (threads k t),
      vals = \<lambda>s. map_option sem_value (semaphores k s),
      holders = lock_holder k, condq = wait_queue k, fresh = next_waiter k,
      items = \<lambda>n. map_option list_items (synch_lists k n), busy = putBusy k\<rparr>"

lemma monitor_of_simps [simp]:
  "progs (monitor_of k) t = map_option (\<lambda>th. prog (stack th)) (threads k t)"
  "vals (monitor_of k) s = map_option sem_value (semaphores k s)"
  "holders (monitor_of k) = lock_holder k" "condq (monitor_of k) = wait_queue k" "fresh (monitor_of k) = next_waiter k"
  "items (monitor_of k) n = map_option list_items (synch_lists k n)" "busy (monitor_of k) = putBusy k"
  by (simp_all add: monitor_of_def)

lemma monitor_same [simp]:
  "monitor_of (k\<lparr>level := x1\<rparr>) = monitor_of k" "monitor_of (k\<lparr>mstatus := x2\<rparr>) = monitor_of k"
  "monitor_of (k\<lparr>yieldOnReturn := x3\<rparr>) = monitor_of k" "monitor_of (k\<lparr>rand_count := x4\<rparr>) = monitor_of k"
  "monitor_of (k\<lparr>poll_count := x5\<rparr>) = monitor_of k" "monitor_of (k\<lparr>pending := x6\<rparr>) = monitor_of k"
  "monitor_of (k\<lparr>next_pending := x7\<rparr>) = monitor_of k" "monitor_of (k\<lparr>inHandler := x8\<rparr>) = monitor_of k"
  "monitor_of (k\<lparr>total_ticks := x9\<rparr>) = monitor_of k" "monitor_of (k\<lparr>idle_ticks := x9\<rparr>) = monitor_of k"
  "monitor_of (k\<lparr>system_ticks := x9\<rparr>) = monitor_of k" "monitor_of (k\<lparr>user_ticks := x9\<rparr>) = monitor_of k"
  "monitor_of (k\<lparr>machine := y1\<rparr>) = monitor_of k" "monitor_of (k\<lparr>spaces := y2\<rparr>) = monitor_of k"
  "monitor_of (k\<lparr>table_of := y3\<rparr>) = monitor_of k" "monitor_of (k\<lparr>halted := y4\<rparr>) = monitor_of k"
  "monitor_of (k\<lparr>incoming := y5\<rparr>) = monitor_of k" "monitor_of (k\<lparr>chars_read := y6\<rparr>) = monitor_of k"
  "monitor_of (k\<lparr>chars_written := y7\<rparr>) = monitor_of k" "monitor_of (k\<lparr>screen := y8\<rparr>) = monitor_of k"
  "monitor_of (k\<lparr>currentThread := y9\<rparr>) = monitor_of k" "monitor_of (k\<lparr>readyList := z1\<rparr>) = monitor_of k"
  "monitor_of (k\<lparr>toBeDestroyed := z2\<rparr>) = monitor_of k" "monitor_of (k\<lparr>next_thread := z3\<rparr>) = monitor_of k"
  by (simp_all add: monitor_of_def)

lemma monitor_fields [simp]:
  "monitor_of (k\<lparr>lock_holder := b1\<rparr>) = (monitor_of k)\<lparr>holders := b1\<rparr>"
  "monitor_of (k\<lparr>wait_queue := b2\<rparr>) = (monitor_of k)\<lparr>condq := b2\<rparr>"
  "monitor_of (k\<lparr>next_waiter := b3\<rparr>) = (monitor_of k)\<lparr>fresh := b3\<rparr>"
  "monitor_of (k\<lparr>putBusy := b4\<rparr>) = (monitor_of k)\<lparr>busy := b4\<rparr>"
  by (simp_all add: monitor_of_def)

lemma monitor_semaphores:
  "monitor_of (k\<lparr>semaphores := (semaphores k)(s := x)\<rparr>) = (monitor_of k)\<lparr>vals := (vals (monitor_of k))(s := map_option sem_value x)\<rparr>"
  by (simp add: monitor_of_def fun_eq_iff)

lemma monitor_lists:
  "monitor_of (k\<lparr>synch_lists := (synch_lists k)(n := x)\<rparr>) = (monitor_of k)\<lparr>items := (items (monitor_of k))(n := map_option list_items x)\<rparr>"
  by (simp add: monitor_of_def fun_eq_iff)

lemma monitor_threads:
  "monitor_of (k\<lparr>threads := (threads k)(t \<mapsto> th)\<rparr>) = goto t (prog (stack th)) (monitor_of k)"
  by (simp add: monitor_of_def goto_def fun_eq_iff)

lemma goto_same: "progs a t = Some fs \<Longrightarrow> goto t fs a = a"
  by (cases a) (simp add: goto_def fun_upd_idem)

lemma goto_twice [simp]: "goto t fs (goto t gs a) = goto t fs a"
  by (simp add: goto_def)

lemma monitor_set_this: "monitor_of (set_this th k) = goto (currentThread k) (prog (stack th)) (monitor_of k)"
  by (simp add: set_this_def monitor_threads)

lemma monitor_enter:
  assumes "enter gs k = Some k'" and "this_thread k = Some th"
  shows "monitor_of k' = goto (currentThread k) (prog (gs @ stack th)) (monitor_of k)"
  using assms by (auto simp: enter_eq monitor_set_this)

text \<open>Waking a thread changes no stack.\<close>

lemma monitor_woken:
  assumes "semaphores k s = Some sm" and "sem_queue sm \<noteq> [] \<Longrightarrow> threads k (hd (sem_queue sm)) \<noteq> None"
  shows "monitor_of (woken s k) = add_val s 1 (monitor_of k)"
proof (cases "sem_queue sm")
  case Nil
  then show ?thesis
    using assms(1) by (simp add: woken_def monitor_of_def add_val_def fun_eq_iff)
next
  case (Cons t q)
  with assms(2) obtain th where "threads k t = Some th" by auto
  then show ?thesis
    using assms(1) Cons by (simp add: woken_def monitor_of_def add_val_def fun_eq_iff)
qed

lemma prog_simps [simp]: "prog [] = []"
  "prog (f # fs) = (case effect f of None \<Rightarrow> prog fs | Some g \<Rightarrow> g # prog fs)"
  by (simp_all add: prog_def map_filter_simps split: option.split)

lemma prog_append: "prog (fs @ gs) = prog fs @ prog gs"
  by (induction fs) (auto split: option.split)

lemma prog_plain: "list_all (\<lambda>f. effect f = Some f) fs \<Longrightarrow> prog fs = fs"
  by (induction fs) auto

end
