(* ===== verification/Kernel_Irq.thy ===== *)
theory Kernel_Irq
  imports Kernel_Abs
begin

text \<open>
  Interrupts: the list of pending interrupts stays sorted by its times, every handler runs to its end
  whatever thread it interrupts, the loop of \<open>CheckIfDue\<close> ends, and \<open>OneTick\<close> and
  \<open>Idle\<close> keep the invariants.
\<close>

subsection \<open>The order of pending interrupts\<close>

interpretation pending_order: comparison PendingCompare
  by unfold_locales (auto simp: PendingCompare_def split: if_splits)

lemma length_filter_insert:
  "length (filter Q (seq_insert c x xs)) = (if Q x then 1 else 0) + length (filter Q xs)"
  by (induction xs) auto

definition awaits :: "callback \<Rightarrow> kernel \<Rightarrow> nat" where
  "awaits c k = length (filter (\<lambda>p. callOnInterrupt p = c) (pending k))"

definition pend_ok :: "kernel \<Rightarrow> bool" where
  "pend_ok k \<longleftrightarrow> sorted_by PendingCompare (pending k) \<and> distinct (pending k) \<and>
     (\<forall>p \<in> set (pending k). pi_address p < next_pending k) \<and> (\<forall>i. 0 \<le> rand k i) \<and>
     awaits ConsoleInputCallBack k \<le> (if incoming k = EOF then 1 else 0) \<and>
     awaits ConsoleOutputCallBack k = (if putBusy k then 1 else 0) \<and>
     semaphores k ConsoleInSem \<noteq> None \<and> semaphores k ConsoleOutSem \<noteq> None"

lemma Schedule_eq:
  assumes "0 < d" and "\<forall>p \<in> set (pending k). pi_address p < next_pending k"
  shows "Schedule c d ty k = Some (k\<lparr>next_pending := Suc (next_pending k),
    pending := seq_insert PendingCompare \<lparr>callOnInterrupt = c, pi_when = total_ticks k + d, pi_type = ty, pi_address = next_pending k\<rparr> (pending k)\<rparr>)"
proof -
  have "\<lparr>callOnInterrupt = c, pi_when = w, pi_type = ty, pi_address = next_pending k\<rparr> \<notin> set (pending k)" for w
    using assms(2) by auto
  with assms(1) show ?thesis by (simp add: Schedule_def seq_Insert_def Let_def)
qed

text \<open>What a handler leaves as it was.\<close>

definition handled :: "kernel \<Rightarrow> kernel \<Rightarrow> bool" where
  "handled k k' \<longleftrightarrow> currentThread k' = currentThread k \<and> next_thread k' = next_thread k \<and>
     toBeDestroyed k' = toBeDestroyed k \<and> level k' = level k \<and> inHandler k' = inHandler k \<and> mstatus k' = mstatus k \<and>
     (\<forall>t. map_option (\<lambda>th. th\<lparr>thread_status := READY\<rparr>) (threads k' t) = map_option (\<lambda>th. th\<lparr>thread_status := READY\<rparr>) (threads k t)) \<and>
     (\<forall>s. s \<noteq> ConsoleInSem \<and> s \<noteq> ConsoleOutSem \<longrightarrow> semaphores k' s = semaphores k s) \<and>
     (\<exists>rl. readyList k' = readyList k @ rl) \<and>
     lock_holder k' = lock_holder k \<and> wait_queue k' = wait_queue k \<and> next_waiter k' = next_waiter k \<and>
     synch_lists k' = synch_lists k \<and> machine k' = machine k \<and> spaces k' = spaces k \<and> table_of k' = table_of k \<and>
     total_ticks k' = total_ticks k \<and> rand k' = rand k \<and> halted k' = halted k \<and> screen k' = screen k \<and>
     (mstatus k = IdleMode \<longrightarrow> yieldOnReturn k' = yieldOnReturn k)"

lemma handled_refl [simp]: "handled k k"
  by (simp add: handled_def)

lemma handled_trans: "handled k k' \<Longrightarrow> handled k' k'' \<Longrightarrow> handled k k''"
  by (auto simp: handled_def)

lemma handled_woken:
  assumes "semaphores k s = Some sm" and "s = ConsoleInSem \<or> s = ConsoleOutSem"
  shows "handled k (woken s k)"
  using assms by (auto simp: handled_def woken_def option.map_comp comp_def split: option.split list.split)

subsection \<open>The handlers\<close>

text \<open>\<open>next\<close> has just been taken off the list: what a handler finds, and what it has to establish.\<close>

definition before_handler :: "IntStatus \<Rightarrow> PendingInterrupt \<Rightarrow> kernel \<Rightarrow> bool" where
  "before_handler lv p k \<longleftrightarrow> sched_ok lv k \<and> level k = IntOff \<and> inHandler k \<and> pend_ok (k\<lparr>pending := p # pending k\<rparr>)"

definition due :: "kernel \<Rightarrow> nat" where
  "due k = length (filter (\<lambda>p. pi_when p \<le> total_ticks k) (pending k))"

definition after_handler :: "IntStatus \<Rightarrow> kernel \<Rightarrow> kernel \<Rightarrow> bool" where
  "after_handler lv k k' \<longleftrightarrow> sched_ok lv k' \<and> pend_ok k' \<and> handled k k' \<and> due k' = due k \<and>
     mstep\<^sup>*\<^sup>* (monitor_of k) (monitor_of k')"

lemma sorted_tail: "sorted_by c (x # xs) \<Longrightarrow> sorted_by c xs"
  by (simp add: sorted_by_def)

lemma before_pending:
  assumes "before_handler lv p k"
  shows "sorted_by PendingCompare (pending k)" "distinct (pending k)" "\<forall>q \<in> set (pending k). pi_address q < next_pending k"
    "\<forall>i. 0 \<le> rand k i" "semaphores k ConsoleInSem \<noteq> None" "semaphores k ConsoleOutSem \<noteq> None"
    "(if callOnInterrupt p = ConsoleInputCallBack then 1 else 0) + awaits ConsoleInputCallBack k \<le> (if incoming k = EOF then 1 else 0)"
    "(if callOnInterrupt p = ConsoleOutputCallBack then 1 else 0) + awaits ConsoleOutputCallBack k = (if putBusy k then 1 else 0)"
  using assms by (auto simp: before_handler_def pend_ok_def awaits_def dest: sorted_tail split: if_splits)

text \<open>Putting a later interrupt on the list.\<close>

lemma after_schedule:
  assumes "sched_ok lv k" and "0 < d" and "sorted_by PendingCompare (pending k)" and "distinct (pending k)"
    and "\<forall>q \<in> set (pending k). pi_address q < next_pending k" and "\<forall>i. 0 \<le> rand k i"
    and "semaphores k ConsoleInSem \<noteq> None" and "semaphores k ConsoleOutSem \<noteq> None"
    and "(if c = ConsoleInputCallBack then 1 else 0) + awaits ConsoleInputCallBack k \<le> (if incoming k = EOF then 1 else 0)"
    and "(if c = ConsoleOutputCallBack then 1 else 0) + awaits ConsoleOutputCallBack k = (if putBusy k then 1 else 0)"
  shows "\<exists>k'. Schedule c d ty k = Some k' \<and> after_handler lv k k' \<and> same_sched k' k \<and>
    (\<exists>n ps. k' = k\<lparr>next_pending := n, pending := ps\<rparr>)"
proof -
  let ?p = "\<lparr>callOnInterrupt = c, pi_when = total_ticks k + d, pi_type = ty, pi_address = next_pending k\<rparr>"
  let ?k = "k\<lparr>next_pending := Suc (next_pending k), pending := seq_insert PendingCompare ?p (pending k)\<rparr>"
  have s: "same_sched ?k k" by (simp add: same_sched_def)
  have new: "?p \<notin> set (pending k)" using assms(5) by auto
  have "pend_ok ?k"
    using assms pending_order.insert_sorted [OF assms(3), of ?p] new
    by (auto simp: pend_ok_def awaits_def length_filter_insert distinct_seq_insert less_Suc_eq split: if_splits)
  moreover have "due ?k = due k" using assms(2) by (simp add: due_def length_filter_insert)
  moreover have "handled k ?k" by (simp add: handled_def)
  ultimately have "after_handler lv k ?k" using assms(1) same_sched_ok [OF s] by (simp add: after_handler_def)
  with s Schedule_eq [OF assms(2,5), of c ty] show ?thesis by blast
qed

lemma Timer_CallBack_ok:
  assumes "before_handler lv p k" and "callOnInterrupt p = TimerCallBack"
  shows "\<exists>k'. Timer_CallBack k = Some k' \<and> after_handler lv k k'"
proof -
  note b = before_pending [OF assms(1)]
  obtain y where a: "Alarm_CallBack k = Some (k\<lparr>yieldOnReturn := y\<rparr>)"
    "mstatus k = IdleMode \<longrightarrow> y = yieldOnReturn k"
  proof (cases "mstatus k = IdleMode")
    case True
    have "k\<lparr>yieldOnReturn := yieldOnReturn k\<rparr> = k" by (cases k) simp
    with True that [of "yieldOnReturn k"] show ?thesis by (simp add: Alarm_CallBack_def)
  next
    case False
    with assms(1) that [of True] show ?thesis by (simp add: Alarm_CallBack_def YieldOnReturn_def before_handler_def)
  qed
  let ?d = "if randomize k then 1 + rand k (rand_count k) mod (TimerTicks * 2) else TimerTicks"
  let ?n = "if timer_disable k \<or> \<not> randomize k then rand_count k else Suc (rand_count k)"
  let ?k = "k\<lparr>yieldOnReturn := y, rand_count := ?n\<rparr>"
  have same: "same_sched ?k k" by (simp add: same_sched_def)
  have h: "after_handler lv k k'" if "after_handler lv ?k k'" for k'
    using that a(2) by (auto simp: after_handler_def handled_def due_def)
  have s: "sched_ok lv ?k" using assms(1) same_sched_ok [OF same] by (simp add: before_handler_def)
  have d: "0 < ?d" by (simp add: TimerTicks_def add_pos_nonneg)
  have r: "k\<lparr>yieldOnReturn := y, rand_count := rand_count k\<rparr> = k\<lparr>yieldOnReturn := y\<rparr>" by (cases k) simp
  have t: "Timer_CallBack k = (if timer_disable k then Some ?k else Schedule TimerCallBack ?d TimerInt ?k)"
    using a(1) r by (simp add: Timer_CallBack_def Timer_SetInterrupt_def RandomNumber_def)
  show ?thesis
  proof (cases "timer_disable k")
    case True
    have "pend_ok ?k" using b assms(2) by (auto simp: pend_ok_def awaits_def)
    with True t s a(2) show ?thesis by (auto simp: after_handler_def handled_def due_def)
  next
    case False
    have "\<exists>k'. Schedule TimerCallBack ?d TimerInt ?k = Some k' \<and> after_handler lv ?k k' \<and> same_sched k' ?k \<and>
      (\<exists>n ps. k' = ?k\<lparr>next_pending := n, pending := ps\<rparr>)"
      by (rule after_schedule [OF s d]) (use b assms(2) in \<open>simp_all add: awaits_def\<close>)
    with False t h show ?thesis by auto
  qed
qed

text \<open>The console handlers signal their semaphores.\<close>

lemma signal_console:
  assumes "sched_ok lv k" and "level k = IntOff" and "s = ConsoleInSem \<or> s = ConsoleOutSem" and "pend_ok k"
  shows "Semaphore_V s k = Some (woken s k)" and "sched_ok lv (woken s k)" and "pend_ok (woken s k)"
    and "handled k (woken s k)" and "due (woken s k) = due k" and "monitor_of (woken s k) = add_val s 1 (monitor_of k)"
proof -
  obtain sm where sm: "semaphores k s = Some sm" using assms(3,4) by (auto simp: pend_ok_def)
  have o: "others_ok k" "this_thread k \<noteq> None" using assms(1) by (auto simp: sched_ok_def)
  show "Semaphore_V s k = Some (woken s k)"
    using V_off [OF o(1) sm o(2) assms(2)] asleep_alone [OF assms(1) sm] by blast
  show "pend_ok (woken s k)"
    using assms(4) by (auto simp: pend_ok_def awaits_def woken_def split: option.split list.split)
  show "due (woken s k) = due k" by (auto simp: due_def woken_def split: option.split list.split)
  show "sched_ok lv (woken s k)" "handled k (woken s k)"
    by (rule sched_woken [OF assms(1) sm], rule handled_woken [OF sm assms(3)])
  have "threads k t \<noteq> None" if "t \<in> set (sem_queue sm)" for t
    using queued_thread [of k s sm t] o sm that by (cases "t = currentThread k") (auto simp: others_ok_def this_thread_def)
  then show "monitor_of (woken s k) = add_val s 1 (monitor_of k)" by (intro monitor_woken [OF sm]) simp
qed

lemma ConsoleOutput_CallBack_ok:
  assumes "before_handler lv p k" and "callOnInterrupt p = ConsoleOutputCallBack"
  shows "\<exists>k'. ConsoleOutput_CallBack k = Some k' \<and> after_handler lv k k'"
proof -
  note b = before_pending [OF assms(1)]
  let ?k = "k\<lparr>putBusy := False, chars_written := chars_written k + 1\<rparr>"
  have "same_sched ?k k" by (simp add: same_sched_def)
  then have s: "sched_ok lv ?k" "level ?k = IntOff"
    using assms(1) same_sched_ok [of ?k k] by (simp_all add: before_handler_def)
  have "pend_ok ?k" using b assms(2) by (auto simp: pend_ok_def awaits_def split: if_splits)
  note c = signal_console [OF s _ this, of ConsoleOutSem]
  have "putBusy k" using b(8) assms(2) by (auto split: if_splits)
  then have "mstep (monitor_of k) (monitor_of (woken ConsoleOutSem ?k))"
    using c(6) char_shown [of "monitor_of k"] by simp
  moreover have "handled k (woken ConsoleOutSem ?k)" "due (woken ConsoleOutSem ?k) = due k"
    using c(4,5) by (simp_all add: handled_def due_def)
  ultimately show ?thesis
    using c(1-3) by (intro exI [of _ "woken ConsoleOutSem ?k"]) (simp add: ConsoleOutput_CallBack_def after_handler_def)
qed

lemma ConsoleInput_CallBack_ok:
  assumes "before_handler lv p k" and "callOnInterrupt p = ConsoleInputCallBack"
  shows "\<exists>k'. ConsoleInput_CallBack k = Some k' \<and> after_handler lv k k'"
proof -
  note b = before_pending [OF assms(1)]
  have e: "incoming k = EOF" "awaits ConsoleInputCallBack k = 0" using b(7) assms(2) by (auto split: if_splits)
  let ?k = "k\<lparr>poll_count := Suc (poll_count k)\<rparr>"
  have same: "same_sched (?k\<lparr>incoming := c, chars_read := n\<rparr>) k" "same_sched ?k k" for c n
    by (simp_all add: same_sched_def)
  have s: "sched_ok lv (?k\<lparr>incoming := c, chars_read := n\<rparr>)" "sched_ok lv ?k" "level k = IntOff" for c n
    using assms(1) same_sched_ok [OF same(1)] same_sched_ok [OF same(2)] by (simp_all add: before_handler_def)
  have pk: "pend_ok (?k\<lparr>incoming := c, chars_read := n\<rparr>)" "pend_ok ?k" for c n
    using b assms(2) e by (auto simp: pend_ok_def awaits_def)
  show ?thesis
  proof (cases "keyboard k (poll_count k)")
    case NotReady
    have "\<exists>k'. Schedule ConsoleInputCallBack ConsoleTime ConsoleReadInt ?k = Some k' \<and> after_handler lv ?k k' \<and>
        same_sched k' ?k \<and> (\<exists>n ps. k' = ?k\<lparr>next_pending := n, pending := ps\<rparr>)"
      by (rule after_schedule [OF s(2)]) (use b assms(2) e in \<open>simp_all add: awaits_def ConsoleTime_def\<close>)
    with NotReady e(1) show ?thesis by (auto simp: ConsoleInput_CallBack_def after_handler_def handled_def due_def)
  next
    case EndOfFile
    note c = signal_console [OF s(2) _ _ pk(2), of ConsoleInSem]
    have "mstep (monitor_of k) (monitor_of (woken ConsoleInSem ?k))" using c(6) s(3) char_typed [of "monitor_of k"] by simp
    moreover have "handled k (woken ConsoleInSem ?k)" "due (woken ConsoleInSem ?k) = due k"
      using c(4,5) s(3) by (simp_all add: handled_def due_def)
    ultimately show ?thesis
      using EndOfFile e(1) c(1-3) s(3)
      by (intro exI [of _ "woken ConsoleInSem ?k"]) (simp add: ConsoleInput_CallBack_def after_handler_def)
  next
    case (Typed c)
    let ?i = "?k\<lparr>incoming := c, chars_read := chars_read k + 1\<rparr>"
    note c = signal_console [OF s(1) _ _ pk(1) [where c = c and n = "chars_read k + 1"], of ConsoleInSem]
    have "mstep (monitor_of k) (monitor_of (woken ConsoleInSem ?i))" using c(6) s(3) char_typed [of "monitor_of k"] by simp
    moreover have "handled k (woken ConsoleInSem ?i)" "due (woken ConsoleInSem ?i) = due k"
      using c(4,5) s(3) by (simp_all add: handled_def due_def)
    ultimately show ?thesis
      using Typed e(1) c(1-3) s(3)
      by (intro exI [of _ "woken ConsoleInSem ?i"]) (simp add: ConsoleInput_CallBack_def after_handler_def)
  qed
qed

lemma CallBack_ok:
  assumes "before_handler lv p k"
  shows "\<exists>k'. CallBack (callOnInterrupt p) k = Some k' \<and> after_handler lv k k'"
  using Timer_CallBack_ok [OF assms] ConsoleOutput_CallBack_ok [OF assms] ConsoleInput_CallBack_ok [OF assms]
  by (cases "callOnInterrupt p") (simp_all add: CallBack_def)

subsection \<open>The loop that fires what is due\<close>

lemma fire_loop_ok:
  assumes "sched_ok lv k" and "level k = IntOff" and "inHandler k" and "pend_ok k" and "pending k \<noteq> []"
  shows "\<exists>k'. fire_loop k = Some k' \<and> sched_ok lv k' \<and> pend_ok k' \<and> handled k k' \<and>
    mstep\<^sup>*\<^sup>* (monitor_of k) (monitor_of k')"
  using assms
proof (induction "due k" arbitrary: k rule: less_induct)
  case less
  obtain p ps where ps: "pending k = p # ps" using less.prems(5) by (cases "pending k") auto
  let ?k = "k\<lparr>pending := ps\<rparr>"
  have "same_sched ?k k" by (simp add: same_sched_def)
  moreover have "?k\<lparr>pending := p # pending ?k\<rparr> = k" using ps by (cases k) simp
  ultimately have "before_handler lv p ?k"
    using less.prems same_sched_ok [of ?k k lv] by (simp add: before_handler_def)
  then obtain k' where k': "CallBack (callOnInterrupt p) ?k = Some k'" "sched_ok lv k'" "pend_ok k'" "handled ?k k'" "due k' = due ?k"
    "mstep\<^sup>*\<^sup>* (monitor_of ?k) (monitor_of k')"
    using CallBack_ok unfolding after_handler_def by blast
  then have ms: "mstep\<^sup>*\<^sup>* (monitor_of k) (monitor_of k')" by simp
  have h: "handled k k'" using k'(4) by (simp add: handled_def)
  then have l: "level k' = IntOff" "inHandler k'" "total_ticks k' = total_ticks k" using less.prems(2,3) by (simp_all add: handled_def)
  have fire: "fire_loop k = (if pending k' \<noteq> [] \<and> pi_when (hd (pending k')) \<le> total_ticks k' then fire_loop k' else Some k')"
    using k'(1) ps by (subst fire_loop.simps) simp
  show ?case
  proof (cases "pending k' \<noteq> [] \<and> pi_when (hd (pending k')) \<le> total_ticks k'")
    case True
    then have "0 < due k'" by (cases "pending k'") (auto simp: due_def)
    then have "0 < due ?k" by (simp add: k'(5))
    have "due ?k \<le> due k" by (simp add: due_def ps)
    show ?thesis
    proof (cases "pi_when p \<le> total_ticks k")
      case due: True
      then have "due k' < due k" by (simp add: k'(5)) (simp add: due_def ps)
      from less.hyps [OF this k'(2) l(1,2) k'(3)] True obtain k'' where
        k'': "fire_loop k' = Some k''" "sched_ok lv k''" "pend_ok k''" "handled k' k''" "mstep\<^sup>*\<^sup>* (monitor_of k') (monitor_of k'')"
        by blast
      then show ?thesis using True fire handled_trans [OF h k''(4)] rtranclp_trans [OF ms k''(5)] by simp
    next
      case False
      have "sorted_by PendingCompare (p # ps)" using less.prems(4) ps by (simp add: pend_ok_def)
      then have "\<not> pi_when q \<le> total_ticks k" if "q \<in> set ps" for q
        using pending_order.front_least [of p ps q] that False by (auto simp: PendingCompare_def split: if_splits)
      then have "due ?k = 0" by (auto simp: due_def filter_empty_conv)
      with \<open>0 < due ?k\<close> show ?thesis by simp
    qed
  next
    case False
    with fire have "fire_loop k = Some k'" by (simp only: if_False)
    with h k'(2,3) ms show ?thesis by blast
  qed
qed

subsection \<open>Time passes\<close>

text \<open>The part of the state that no interrupt touches, whatever else happens in a tick.\<close>

definition irq :: "kernel \<Rightarrow> kernel \<Rightarrow> bool" where
  "irq k k' \<longleftrightarrow> currentThread k' = currentThread k \<and> next_thread k' = next_thread k \<and>
     toBeDestroyed k' = toBeDestroyed k \<and>
     (\<forall>t. map_option (\<lambda>th. th\<lparr>thread_status := READY\<rparr>) (threads k' t) = map_option (\<lambda>th. th\<lparr>thread_status := READY\<rparr>) (threads k t)) \<and>
     (\<forall>s. s \<noteq> ConsoleInSem \<and> s \<noteq> ConsoleOutSem \<longrightarrow> semaphores k' s = semaphores k s) \<and>
     (\<exists>rl. readyList k' = readyList k @ rl) \<and>
     lock_holder k' = lock_holder k \<and> wait_queue k' = wait_queue k \<and> next_waiter k' = next_waiter k \<and>
     synch_lists k' = synch_lists k \<and> spaces k' = spaces k \<and> table_of k' = table_of k \<and> screen k' = screen k \<and>
     (\<exists>vs. machine k' = (machine k)\<lparr>registers := vs\<rparr>) \<and> mstep\<^sup>*\<^sup>* (monitor_of k) (monitor_of k')"

lemma same_registers: "\<exists>vs. m = m\<lparr>registers := vs\<rparr>"
  by (rule exI [of _ "registers m"]) simp

lemma irq_refl [simp]: "irq k k"
  by (simp add: irq_def same_registers)

lemma handled_irq: "handled k k' \<Longrightarrow> mstep\<^sup>*\<^sup>* (monitor_of k) (monitor_of k') \<Longrightarrow> irq k k'"
  using same_registers [of "machine k"] by (simp add: handled_def irq_def)

lemma irq_thread:
  assumes "irq k k'" and "threads k' t = Some th'"
  shows "\<exists>th. threads k t = Some th \<and> stack th' = stack th \<and> userRegisters th' = userRegisters th \<and>
    space th' = space th \<and> returned th' = returned th"
proof -
  have "map_option (\<lambda>th. th\<lparr>thread_status := READY\<rparr>) (threads k' t) = map_option (\<lambda>th. th\<lparr>thread_status := READY\<rparr>) (threads k t)"
    using assms(1) unfolding irq_def by blast
  then have "map_option (\<lambda>th. th\<lparr>thread_status := READY\<rparr>) (threads k t) = Some (th'\<lparr>thread_status := READY\<rparr>)"
    using assms(2) by simp
  then obtain th where "threads k t = Some th" "th\<lparr>thread_status := READY\<rparr> = th'\<lparr>thread_status := READY\<rparr>" by auto
  then show ?thesis by (cases th; cases th') auto
qed

lemma irq_mach:
  assumes "irq k k'" and "mach_ok k" and "regs_fit (registers (machine k'))"
  shows "mach_ok k'"
proof -
  have "regs_fit (userRegisters th) \<and> (\<forall>sp. space th = Some sp \<longrightarrow> spaces k' sp \<noteq> None)" if "threads k' t = Some th" for t th
    using irq_thread [OF assms(1) that] assms(1,2) by (fastforce simp: mach_ok_def irq_def)
  with assms show ?thesis unfolding mach_ok_def by (auto simp: irq_def)
qed

definition calm :: "kernel \<Rightarrow> bool" where
  "calm k \<longleftrightarrow> \<not> inHandler k \<and> pend_ok k \<and> mach_ok k"

lemma CheckIfDue_ok:
  assumes "sched_ok lv k" and "level k = IntOff" and "calm k"
  shows "\<exists>b k'. CheckIfDue adv k = Some (b, k') \<and> sched_ok lv k' \<and> level k' = IntOff \<and> calm k' \<and> irq k k' \<and>
    mstatus k' = mstatus k \<and> halted k' = halted k \<and> (mstatus k = IdleMode \<longrightarrow> yieldOnReturn k' = yieldOnReturn k) \<and>
    (b \<or> k' = k) \<and> (b \<or> \<not> adv \<or> pending k = [])"
proof (cases "pending k = [] \<or> (total_ticks k < pi_when (hd (pending k)) \<and> \<not> adv)")
  case True
  with assms show ?thesis by (auto simp: CheckIfDue_def)
next
  case False
  let ?w = "pi_when (hd (pending k))"
  let ?k = "if total_ticks k < ?w then k\<lparr>idle_ticks := idle_ticks k + (?w - total_ticks k), total_ticks := ?w\<rparr> else k"
  have r: "regs_ok (machine k)" using assms(3) by (simp add: calm_def mach_ok_def regs_fit_def regs_ok_def)
  let ?m = "(machine k)\<lparr>registers := delayed (registers (machine k)) 0 0\<rparr>"
  have m: "DelayedLoad 0 0 (machine k) = Some ?m" "regs_fit (registers ?m)"
    using DelayedLoad_eq [OF r] delayed_regs_ok [OF r, of 0 0] by (simp_all add: regs_ok_def regs_fit_def)
  let ?f = "?k\<lparr>machine := ?m, inHandler := True\<rparr>"
  have same: "same_sched ?f k" by (simp add: same_sched_def)
  have p: "pend_ok ?f" using assms(3) by (simp add: calm_def pend_ok_def awaits_def)
  have "sched_ok lv ?f" "level ?f = IntOff" "inHandler ?f" "pending ?f \<noteq> []"
    using assms(1,2) same_sched_ok [OF same] False by auto
  from fire_loop_ok [OF this(1-3) p this(4)] obtain k' where
    k': "fire_loop ?f = Some k'" "sched_ok lv k'" "pend_ok k'" "handled ?f k'" "mstep\<^sup>*\<^sup>* (monitor_of ?f) (monitor_of k')" by blast
  let ?r = "k'\<lparr>inHandler := False\<rparr>"
  have i: "irq k ?r" using handled_irq [OF k'(4,5)] by (cases "total_ticks k < ?w") (auto simp: irq_def)
  have hm: "machine ?r = ?m" "level ?r = IntOff" "mstatus ?r = mstatus k" "halted ?r = halted k"
    "mstatus k = IdleMode \<longrightarrow> yieldOnReturn ?r = yieldOnReturn k"
    using k'(4) assms(2) by (simp_all add: handled_def)
  have "mach_ok ?r" by (rule irq_mach [OF i]) (use assms(3) m(2) hm(1) in \<open>simp_all add: calm_def\<close>)
  moreover have "pend_ok ?r" using k'(3) by (simp add: pend_ok_def awaits_def)
  moreover have "sched_ok lv ?r" using k'(2) same_sched_ok [of ?r k'] by (simp add: same_sched_def)
  moreover have "CheckIfDue adv k = Some (True, ?r)"
    using False assms(2) m(1) k'(1) by (cases "total_ticks k < ?w") (auto simp: CheckIfDue_def Let_def)
  ultimately show ?thesis using i hm by (intro exI [of _ True] exI [of _ ?r]) (simp add: calm_def)
qed

text \<open>\<open>OneTick\<close> fires what is due and enters \<open>Yield\<close> when the timer asked for it.\<close>

lemma same_calm:
  "calm k \<Longrightarrow> calm (k\<lparr>level := a\<rparr>)" "calm k \<Longrightarrow> calm (k\<lparr>mstatus := b\<rparr>)" "calm k \<Longrightarrow> calm (k\<lparr>yieldOnReturn := c\<rparr>)"
  "calm k \<Longrightarrow> calm (k\<lparr>total_ticks := d, system_ticks := e\<rparr>)" "calm k \<Longrightarrow> calm (k\<lparr>total_ticks := d, user_ticks := e\<rparr>)"
  "calm k \<Longrightarrow> calm (k\<lparr>halted := f\<rparr>)"
  by (simp_all add: calm_def pend_ok_def mach_ok_def awaits_def)

lemma calm_enter:
  assumes "calm k" and "enter gs k = Some k'"
  shows "calm k'"
proof -
  obtain th where th: "threads k (currentThread k) = Some th"
      "k' = k\<lparr>threads := (threads k)(currentThread k \<mapsto> th\<lparr>stack := gs @ stack th\<rparr>)\<rparr>"
    using assms(2) by (auto simp: enter_def with_thread_def)
  with assms(1) show ?thesis by (auto simp: calm_def pend_ok_def mach_ok_def awaits_def)
qed

lemma sched_running:
  assumes "sched_ok IntOn k" and "level k = IntOn"
  shows "\<exists>fs. at_frame IntOn k fs \<and> calls fs \<and> toBeDestroyed k = None"
  using assms by (auto simp: sched_ok_def at_frame_def running_ok_def sleeping_ok_def)

lemma OneTick_ok:
  assumes "at_frame IntOn k fs" and "calls fs" and "toBeDestroyed k = None" and "calm k"
  shows "\<exists>k1 k'. irq k k1 \<and> halted k1 = halted k \<and> sched_ok IntOn k1 \<and> calm k1 \<and> level k1 = IntOn \<and>
    OneTick_run k = Some k' \<and> yieldOnReturn k' = False \<and> sched_ok (level k') k' \<and> calm k' \<and>
    (k' = k1 \<or> enter [Yield, EndTick (mstatus k)] k1 = Some k')"
proof -
  let ?t = "if mstatus k = SystemMode
      then k\<lparr>total_ticks := total_ticks k + SystemTick, system_ticks := system_ticks k + SystemTick\<rparr>
      else k\<lparr>total_ticks := total_ticks k + UserTick, user_ticks := user_ticks k + UserTick\<rparr>"
  let ?k = "?t\<lparr>level := IntOff\<rparr>"
  have same: "same_sched ?k k" by (simp add: same_sched_def)
  have s: "sched_ok IntOn ?k" using at_frame_On [OF assms(1-3)] same_sched_ok [OF same] by simp
  have c: "calm ?k" using assms(4) same_calm by simp
  obtain b k2 where k2: "CheckIfDue False ?k = Some (b, k2)" "sched_ok IntOn k2" "calm k2" "irq ?k k2" "halted k2 = halted ?k"
    using CheckIfDue_ok [OF s _ c, of False] by auto
  let ?r = "k2\<lparr>level := IntOn\<rparr>"
  have i: "irq k ?r" using k2(4) by (cases "mstatus k = SystemMode") (auto simp: irq_def)
  have r: "sched_ok IntOn ?r" "calm ?r" "halted ?r = halted k"
    using k2(2,3,5) same_sched_ok [of ?r k2] same_calm(1) [OF k2(3)] by simp_all
  have run: "OneTick_run k = (if yieldOnReturn ?r
      then enter [Yield, EndTick (mstatus k)] (?r\<lparr>yieldOnReturn := False, mstatus := SystemMode\<rparr>) else Some ?r)"
    using k2(1) by (cases "mstatus k = SystemMode") (auto simp: OneTick_run_def Let_def)
  show ?thesis
  proof (cases "yieldOnReturn ?r")
    case False
    with run i r show ?thesis by (intro exI [of _ ?r]) simp
  next
    case True
    let ?y = "?r\<lparr>yieldOnReturn := False, mstatus := SystemMode\<rparr>"
    have sy: "sched_ok IntOn ?y" "calm ?y" "irq k ?y" "halted ?y = halted k"
      using r i same_sched_ok [of ?y ?r] same_calm(2,3) by (simp_all add: same_sched_def irq_def)
    then obtain gs where g: "at_frame IntOn ?y gs" "calls gs" "toBeDestroyed ?y = None" using sched_running by fastforce
    from enter_calls [OF g, of "[Yield, EndTick (mstatus k)]"] obtain th where
      e: "enter [Yield, EndTick (mstatus k)] ?y = Some (set_this (th\<lparr>stack := [Yield, EndTick (mstatus k)] @ gs\<rparr>) ?y)"
      "sched_ok IntOn (set_this (th\<lparr>stack := [Yield, EndTick (mstatus k)] @ gs\<rparr>) ?y)" by auto
    show ?thesis
      by (rule exI [of _ ?y], rule exI [of _ "set_this (th\<lparr>stack := [Yield, EndTick (mstatus k)] @ gs\<rparr>) ?y"])
        (use True run sy e calm_enter [OF sy(2) e(1)] in \<open>simp add: set_this_def\<close>)
  qed
qed

lemma Idle_ok:
  assumes "sched_ok IntOff k" and "level k = IntOff" and "calm k"
  shows "\<exists>k'. Idle k = Some k' \<and> sched_ok IntOff k' \<and> level k' = IntOff \<and> calm k' \<and> irq k k' \<and>
    yieldOnReturn k' = yieldOnReturn k \<and>
    (halted k' \<longrightarrow> halted k \<or> (pending k = [] \<and> k' = k\<lparr>mstatus := IdleMode, halted := True\<rparr>))"
proof -
  let ?k = "k\<lparr>mstatus := IdleMode\<rparr>"
  have "sched_ok IntOff ?k" "calm ?k" using assms same_sched_ok [of ?k k] same_calm(2) by simp_all
  then obtain b k1 where k1: "CheckIfDue True ?k = Some (b, k1)" "sched_ok IntOff k1" "level k1 = IntOff" "calm k1"
    "irq ?k k1" "halted k1 = halted k" "yieldOnReturn k1 = yieldOnReturn k" "b \<or> (k1 = ?k \<and> pending k = [])"
    using CheckIfDue_ok [of IntOff ?k True] assms(2) by auto
  show ?thesis
  proof (cases b)
    case True
    let ?r = "k1\<lparr>mstatus := SystemMode\<rparr>"
    have "irq k ?r" using k1(5) by (auto simp: irq_def)
    with True k1 same_sched_ok [of ?r k1] same_calm(2) show ?thesis by (simp add: Idle_def)
  next
    case False
    let ?r = "k1\<lparr>halted := True\<rparr>"
    have "irq k ?r" using k1(5) by (auto simp: irq_def)
    with False k1 same_sched_ok [of ?r k1] same_calm(6) show ?thesis
      by (auto simp: Idle_def Interrupt_Halt_def same_sched_def)
  qed
qed

end
