(* ===== verification/Mips_Frame.thy ===== *)
theory Mips_Frame
  imports Mips_Correct
begin

text \<open>
  What no user instruction can change: whether the machine has a TLB, and the size of the page table.
  With \<open>OneInstruction_safe\<close> this is what a kernel needs of its users' programs.
\<close>

definition mmu :: "machine \<Rightarrow> bool \<times> u32" where
  "mmu m = (tlb m = None, pageTableSize m)"

named_theorems keeps \<open>operations that keep the memory management as it is\<close>

lemma set_reg_keeps [keeps]: "set_reg m i v = Some m' \<Longrightarrow> mmu m' = mmu m"
  by (auto simp: set_reg_def mmu_def split: bind_splits)

lemma DelayedLoad_keeps [keeps]: "DelayedLoad r v m = Some m' \<Longrightarrow> mmu m' = mmu m"
  by (auto simp: DelayedLoad_def dest!: set_reg_keeps split: bind_splits)

lemma mmu_update [simp]: "mmu (m\<lparr>trap := t\<rparr>) = mmu m" "mmu (m\<lparr>mainMemory := b\<rparr>) = mmu m" "mmu (m\<lparr>registers := c\<rparr>) = mmu m"
  by (simp_all add: mmu_def)

lemma RaiseException_keeps [keeps]: "RaiseException e a m = Some m' \<Longrightarrow> mmu m' = mmu m"
  by (auto simp: RaiseException_def bind_Some_conv dest!: keeps)

lemma set_entry_keeps [keeps]: "set_entry m i e = Some m' \<Longrightarrow> mmu m' = mmu m"
  by (auto simp: set_entry_def the_table_def mmu_def split: bind_splits if_splits)

lemma Translate_keeps [keeps]: "Translate m a sz w = Some (r, m') \<Longrightarrow> mmu m' = mmu m"
  by (cases "find_entry m (a div word_of_int PageSize)"; cases "the (find_entry m (a div word_of_int PageSize))")
    (auto simp: Translate_def Let_def bind_Some_conv dest!: keeps split: if_split_asm)

lemma store_bytes_keeps [keeps]: "store_bytes m a bs = Some m' \<Longrightarrow> mmu m' = mmu m"
  by (auto simp: store_bytes_def bind_Some_conv)

lemma ReadMem_keeps [keeps]: "ReadMem m a sz = Some (r, m') \<Longrightarrow> mmu m' = mmu m"
  by (cases "Translate m a sz False"; cases "fst (the (Translate m a sz False))")
    (auto simp: ReadMem_def bind_Some_conv dest!: keeps split: if_split_asm)

lemma WriteMem_keeps [keeps]: "WriteMem m a sz v = Some (r, m') \<Longrightarrow> mmu m' = mmu m"
  by (cases "Translate m a sz True"; cases "fst (the (Translate m a sz True))")
    (auto simp: WriteMem_def bind_Some_conv dest!: keeps split: if_split_asm)

lemma ending_keeps [keeps]:
  "go pc m = Some (e, m') \<Longrightarrow> mmu m' = mmu m" "load pc r v m = Some (e, m') \<Longrightarrow> mmu m' = mmu m"
  "raise x a m = Some (e, m') \<Longrightarrow> mmu m' = mmu m"
  by (auto simp: go_def load_def raise_def bind_Some_conv dest!: keeps)

definition frames :: "exec \<Rightarrow> bool" where
  "frames f \<longleftrightarrow> (\<forall>pc i m e m'. f pc i m = Some (e, m') \<longrightarrow> mmu m' = mmu m)"

lemma frames_shapes: "frames (reg3 f)" "frames (imm2 f)" "frames (shift_imm g)" "frames (shift_reg g)"
  "frames (exec_mult b)" "frames (exec_store sz)"
  by (auto simp: frames_def reg3_def imm2_def shift_imm_def shift_reg_def exec_mult_def exec_store_def
      bind_Some_conv Let_def split_beta dest!: keeps split: if_split_asm)

lemma frames_arith: "frames exec_ADD" "frames exec_ADDI" "frames exec_SUB" "frames exec_DIV" "frames exec_DIVU"
  "frames exec_MFHI" "frames exec_MFLO" "frames exec_MTHI" "frames exec_MTLO" "frames exec_LUI"
  by (auto simp: frames_def exec_ADD_def exec_ADDI_def exec_SUB_def exec_DIV_def exec_DIVU_def exec_MFHI_def exec_MFLO_def
      exec_MTHI_def exec_MTLO_def exec_LUI_def bind_Some_conv Let_def dest!: keeps split: if_split_asm)

lemma frames_jumps: "frames exec_BEQ" "frames exec_BNE" "frames exec_BGEZ" "frames exec_BGTZ" "frames exec_BLEZ"
  "frames exec_BLTZ" "frames exec_BGEZAL" "frames exec_BLTZAL" "frames exec_J" "frames exec_JAL" "frames exec_JR"
  "frames exec_JALR" "frames exec_SYSCALL" "frames exec_ILLEGAL"
  by (auto simp: frames_def exec_BEQ_def exec_BNE_def exec_BGEZ_def exec_BGTZ_def exec_BLEZ_def exec_BLTZ_def
      exec_BGEZAL_def exec_BLTZAL_def exec_J_def exec_JAL_def exec_JR_def exec_JALR_def exec_SYSCALL_def
      exec_ILLEGAL_def branch_if_def link_to_def bind_Some_conv Let_def dest!: keeps split: if_split_asm)

lemma frames_memory: "frames exec_LB_LBU" "frames exec_LH_LHU" "frames exec_LW" "frames exec_LWL" "frames exec_LWR"
  "frames exec_SWL" "frames exec_SWR"
  by (auto simp: frames_def exec_LB_LBU_def exec_LH_LHU_def exec_LW_def exec_LWL_def exec_LWR_def exec_SWL_def
      exec_SWR_def bind_Some_conv Let_def dest!: keeps split: if_split_asm option.split_asm)

lemma frames_none: "frames (\<lambda>pc i m. None)"
  by (simp add: frames_def)

lemma frames_exec_op: "op \<noteq> OP_RFE \<Longrightarrow> frames (exec_op op)"
  by (cases op) (simp_all add: exec_abbrevs frames_shapes frames_arith frames_jumps frames_memory frames_none)

lemma finish_step_keeps [keeps]: "finish_step e m = Some m' \<Longrightarrow> mmu m' = mmu m"
  by (cases e) (auto simp: finish_step_def bind_Some_conv dest!: keeps)

lemma OneInstruction_keeps:
  assumes "OneInstruction m = Some m'"
  shows "mmu m' = mmu m"
proof -
  obtain pc r m1 where r: "ReadMem (m\<lparr>trap := None\<rparr>) pc 4 = Some (r, m1)"
    and rest: "(case r of None \<Rightarrow> Some m1
      | Some raw \<Rightarrow> do { instr \<leftarrow> Decode raw; n \<leftarrow> get_reg m1 NextPCReg;
          (e, m) \<leftarrow> exec_op (opCode instr) (n + 4) instr m1; finish_step e m }) = Some m'"
    using assms unfolding OneInstruction_def Let_def by (auto simp only: bind_Some_conv prod.case split_beta fst_conv snd_conv)
  have k: "mmu m1 = mmu m" using ReadMem_keeps [OF r] by simp
  show ?thesis
  proof (cases r)
    case None
    with rest k show ?thesis by simp
  next
    case (Some raw)
    obtain i where i: "Decode raw = Some i" "instr_ok i" using Decode_ok by blast
    with Some rest obtain n e m2 where "exec_op (opCode i) (n + 4) i m1 = Some (e, m2)" "finish_step e m2 = Some m'"
      by (auto simp: bind_Some_conv)
    moreover have "frames (exec_op (opCode i))" using i(2) by (intro frames_exec_op) (auto simp: instr_ok_def)
    ultimately show ?thesis using k finish_step_keeps by (metis frames_def)
  qed
qed

end
