(* ===== verification/Kernel_Safe.thy ===== *)
theory Kernel_Safe
  imports Kernel_Irq Mips_Frame
begin

text \<open>
  The invariant of the whole kernel is kept by every step that is not a misuse of an operation, and
  such a step is always possible: the conditions in \<open>misuse\<close> are the only ones under which a
  kernel function can stop the machine or spoil the queues.
\<close>

definition kernel_ok :: "kernel \<Rightarrow> bool" where
  "kernel_ok k \<longleftrightarrow> sched_ok (level k) k \<and> calm k \<and> \<not> yieldOnReturn k"

text \<open>
  What a user program cannot be served with: a division that overflows, which stops the host, and
  exceptions and system calls that \<open>ExceptionHandler\<close> does not know.
\<close>

definition unserved :: "Machine.machine \<Rightarrow> bool" where
  "unserved m = (case trap m of None \<Rightarrow> False
     | Some e \<Rightarrow> e \<noteq> SyscallException \<or> registers m ! 2 \<notin> {SC_Halt, SC_Add})"

definition user_stops :: "kernel \<Rightarrow> bool" where
  "user_stops k = (table_of k = None \<or> (case load_table k of None \<Rightarrow> False
     | Some m \<Rightarrow> (case fetched m of None \<Rightarrow> False | Some (i, m1) \<Rightarrow> div_overflow i m1) \<or>
         (case OneInstruction m of None \<Rightarrow> False | Some m' \<Rightarrow> unserved m')))"

fun misuse :: "frame \<Rightarrow> kernel \<Rightarrow> bool" where
  "misuse (SemP s) k = (semaphores k s = None)"
| "misuse (SemV s) k = (semaphores k s = None)"
| "misuse (PLoop s _) k = (semaphores k s = None)"
| "misuse (Release l) k = (lock_holder k l \<noteq> Some (currentThread k) \<or> semaphores k (LockSem l) = None)"
| "misuse (Wait c l) k = (lock_holder k l \<noteq> Some (currentThread k) \<or> semaphores k (Waiter (next_waiter k)) \<noteq> None \<or>
     next_waiter k \<in> set (wait_queue k c))"
| "misuse (Signal c l) k = (lock_holder k l \<noteq> Some (currentThread k) \<or>
     (wait_queue k c \<noteq> [] \<and> semaphores k (Waiter (hd (wait_queue k c))) = None))"
| "misuse (DeleteWaiter w) k = (semaphores k (Waiter w) = None \<or> (\<exists>t. waits_on k t (Waiter w)))"
| "misuse (AppendItem n x) k = (case synch_lists k n of None \<Rightarrow> True | Some sl \<Rightarrow> x \<in> set (list_items sl))"
| "misuse (RemoveLoop n) k = (synch_lists k n = None)"
| "misuse (RemoveItem n) k = (case synch_lists k n of None \<Rightarrow> True | Some sl \<Rightarrow> list_items sl = [])"
| "misuse (DevicePutChar ch) k = putBusy k"
| "misuse (Execute sp) k = (spaces k sp = None)"
| "misuse UserLoop k = user_stops k"
| "misuse _ k = False"

subsection \<open>Frames that run with interrupts on\<close>

text \<open>The running thread has taken a plain frame off its stack.\<close>

definition at_call :: "kernel \<Rightarrow> frame list \<Rightarrow> bool" where
  "at_call k fs \<longleftrightarrow> at_frame IntOn k fs \<and> calls fs \<and> toBeDestroyed k = None \<and> calm k \<and> \<not> yieldOnReturn k"

lemma at_callD:
  assumes "at_call k fs"
  shows "at_frame IntOn k fs" "calls fs" "toBeDestroyed k = None" "calm k" "\<not> yieldOnReturn k" "\<not> inHandler k"
    "level k = IntOn" "kernel_ok k" "mach_ok k" "pend_ok k"
  using assms at_frame_On [of k fs] by (auto simp: at_call_def at_frame_def kernel_ok_def calm_def)

lemma at_call_same:
  assumes "at_call k fs" and "same_sched k' k" and "level k' = level k" and "calm k'" and "yieldOnReturn k' = yieldOnReturn k"
  shows "at_call k' fs"
  using assms same_at_frame [OF assms(2)] by (auto simp: at_call_def same_sched_def at_frame_def)

lemma call_enter:
  assumes "at_call k fs" and "list_all plain gs"
  shows "\<exists>k'. enter gs k = Some k' \<and> kernel_ok k'"
proof -
  note a = at_callD [OF assms(1)]
  from enter_calls [OF a(1-3) assms(2)] obtain th where
    e: "enter gs k = Some (set_this (th\<lparr>stack := gs @ fs\<rparr>) k)" "sched_ok IntOn (set_this (th\<lparr>stack := gs @ fs\<rparr>) k)"
    "level k = IntOn" by blast
  then have "kernel_ok (set_this (th\<lparr>stack := gs @ fs\<rparr>) k)"
    using calm_enter [OF a(4) e(1)] a(5) by (simp add: kernel_ok_def set_this_def)
  with e(1) show ?thesis by blast
qed

lemma call_done: "at_call k fs \<Longrightarrow> kernel_ok k"
  by (rule at_callD)

lemma calm_simps:
  "calm k \<Longrightarrow> calm (k\<lparr>lock_holder := a\<rparr>)" "calm k \<Longrightarrow> calm (k\<lparr>wait_queue := b\<rparr>)"
  "calm k \<Longrightarrow> calm (k\<lparr>synch_lists := c\<rparr>)" "calm k \<Longrightarrow> calm (k\<lparr>next_waiter := d\<rparr>)"
  "calm k \<Longrightarrow> semaphores k s = Some sm \<Longrightarrow> calm (with_sem s sm' k)"
  by (auto simp: calm_def pend_ok_def mach_ok_def awaits_def with_sem_def)

lemma calm_woken: "calm k \<Longrightarrow> calm (woken s k)"
proof (cases "semaphores k s")
  case (Some sm)
  assume c: "calm k"
  then have p: "pend_ok k" "mach_ok k" "\<not> inHandler k" by (simp_all add: calm_def)
  have "mach_ok (woken s k)"
    using p(2) Some unfolding mach_ok_def woken_def by (cases "sem_queue sm") (auto split: if_split_asm)
  moreover have "pend_ok (woken s k)"
    using p(1) Some unfolding pend_ok_def woken_def awaits_def by (cases "sem_queue sm") auto
  moreover have "inHandler (woken s k) = inHandler k" using Some by (simp add: woken_def split: list.split)
  ultimately show ?thesis using p(3) by (simp add: calm_def)
qed (simp add: woken_def)

lemma calm_this:
  assumes "calm k" and "this_thread k = Some th" and "userRegisters th' = userRegisters th" and "space th' = space th"
  shows "calm (set_this th' k)"
  using assms by (auto simp: calm_def pend_ok_def mach_ok_def awaits_def set_this_def this_thread_def)

lemma at_call_woken:
  assumes "at_call k fs" and "semaphores k s = Some sm"
  shows "at_call (woken s k) fs"
proof -
  have "yieldOnReturn (woken s k) = yieldOnReturn k" by (simp add: woken_def split: option.split list.split)
  with assms at_frame_woken(1) [of IntOn k fs s sm] calm_woken show ?thesis by (auto simp: at_call_def)
qed

lemma exec_V:
  assumes "at_call k fs" and "semaphores k s = Some sm"
  shows "Semaphore_V s k = enter [OneTick] (woken s k)" and "\<exists>k'. Semaphore_V s k = Some k' \<and> kernel_ok k'"
proof -
  note a = at_callD [OF assms(1)]
  show v: "Semaphore_V s k = enter [OneTick] (woken s k)" by (rule V_on [OF a(1) assms(2) a(6)])
  show "\<exists>k'. Semaphore_V s k = Some k' \<and> kernel_ok k'"
    using call_enter [OF at_call_woken [OF assms], of "[OneTick]"] v by simp
qed

text \<open>The loop of \<open>P\<close>, entered with interrupts off.\<close>

lemma P_loop_ok:
  assumes "at_frame IntOff k fs" and "semaphores k s = Some sm" and "calm k" and "\<not> yieldOnReturn k"
    and "calls fs" and "toBeDestroyed k = None"
  shows "\<exists>k'. P_loop s IntOn k = Some k' \<and> kernel_ok k'"
proof -
  have h: "\<not> inHandler k" using assms(3) by (simp add: calm_def)
  obtain th where th: "this_thread k = Some th" using at_frame_this [OF assms(1)] by blast
  obtain k' where k': "P_loop s IntOn k = Some k'" "sched_ok (level k') k'"
    using sched_P_loop [OF assms(1,2) h assms(5,6)] by blast
  have tw: "this_thread (with_sem s sm' k) = Some th" for sm' using th by (simp add: with_sem_def this_thread_def)
  have "calm k' \<and> \<not> yieldOnReturn k'"
  proof (cases "sem_value sm = 0")
    case True
    have c: "calm (with_sem s (sm\<lparr>sem_queue := sem_queue sm @ [currentThread k]\<rparr>) k)" by (rule calm_simps(5) [OF assms(3,2)])
    show ?thesis
      using P_blocks [OF assms(1,2) True th, of IntOn] k'(1) calm_this [OF c tw] assms(4)
      by (auto simp: set_this_def with_sem_def)
  next
    case False
    have "calm (with_sem s (sm\<lparr>sem_value := sem_value sm - 1\<rparr>) k\<lparr>level := IntOn\<rparr>)"
      by (intro same_calm(1) calm_simps(5) [OF assms(3,2)])
    from calm_this [OF this, of th] show ?thesis
      using P_proceeds [OF assms(1,2) False th h] k'(1) assms(4) th
      by (auto simp: set_this_def with_sem_def this_thread_def)
  qed
  with k' show ?thesis by (auto simp: kernel_ok_def)
qed

lemma exec_P:
  assumes "at_call k fs" and "semaphores k s = Some sm"
  shows "\<exists>k'. Semaphore_P s k = Some k' \<and> kernel_ok k'"
proof -
  note a = at_callD [OF assms(1)]
  let ?k = "k\<lparr>level := IntOff\<rparr>"
  have "at_frame IntOff ?k fs" by (rule same_at_frame [OF _ a(1)]) simp_all
  then have "\<exists>k'. P_loop s IntOn ?k = Some k' \<and> kernel_ok k'"
    by (rule P_loop_ok) (use assms(2) a same_calm(1) in simp_all)
  then show ?thesis using a(7) by (simp add: Semaphore_P_def)
qed

lemma exec_Wait:
  assumes "at_call k fs" and "\<not> misuse (Wait c l) k"
  shows "\<exists>k'. Condition_Wait c l k = Some k' \<and> kernel_ok k'"
proof -
  note a = at_callD [OF assms(1)]
  let ?w = "next_waiter k"
  let ?k = "k\<lparr>semaphores := (semaphores k)(Waiter ?w \<mapsto> Semaphore_new 0), next_waiter := Suc ?w,
    wait_queue := (wait_queue k)(c := wait_queue k c @ [?w])\<rparr>"
  have w: "waits_on ?k t s = waits_on k t s" for t s using assms(2) by (auto simp: waits_on_def Semaphore_new_def)
  have o: "others_ok k" using a(1) by (simp add: at_frame_def)
  have "queues_ok ?k" using o by (auto simp: others_ok_def queues_ok_def Semaphore_new_def)
  moreover have "threads_ok ?k" using o w by (auto simp: others_ok_def threads_ok_def waiting_ok_def)
  ultimately have "others_ok ?k" using o by (simp add: others_ok_def ready_ok_def doomed_ok_def)
  then have "at_frame IntOn ?k fs" using a(1) w by (auto simp: at_frame_def this_thread_def)
  moreover have "calm ?k" using a(4) by (auto simp: calm_def pend_ok_def mach_ok_def awaits_def)
  ultimately have "at_call ?k fs" using a by (simp add: at_call_def)
  from call_enter [OF this, of "[Release l, SemP (Waiter ?w), Acquire l, DeleteWaiter ?w]"] show ?thesis
    using assms(2) by (simp add: Condition_Wait_def IsHeldByCurrentThread_def seq_Append_def Let_def)
qed

lemma exec_DeleteWaiter:
  assumes "at_call k fs" and "\<not> misuse (DeleteWaiter w) k"
  shows "\<exists>k'. delete_waiter w k = Some k' \<and> kernel_ok k'"
proof -
  note a = at_callD [OF assms(1)]
  let ?k = "k\<lparr>semaphores := (semaphores k)(Waiter w := None)\<rparr>"
  have w: "waits_on ?k t s = waits_on k t s" for t s using assms(2) by (auto simp: waits_on_def)
  have o: "others_ok k" using a(1) by (simp add: at_frame_def)
  have "queues_ok ?k" using o by (auto simp: others_ok_def queues_ok_def)
  moreover have "threads_ok ?k" using o w by (auto simp: others_ok_def threads_ok_def waiting_ok_def)
  ultimately have "others_ok ?k" using o by (simp add: others_ok_def ready_ok_def doomed_ok_def)
  then have "at_frame IntOn ?k fs" using a(1) w by (auto simp: at_frame_def this_thread_def)
  moreover have "calm ?k" using a(4) by (auto simp: calm_def pend_ok_def mach_ok_def awaits_def)
  ultimately have "at_call ?k fs" using a by (simp add: at_call_def)
  then show ?thesis using call_done assms(2) by (auto simp: delete_waiter_def)
qed

lemma exec_Release:
  assumes "at_call k fs" and "\<not> misuse (Release l) k"
  shows "Lock_Release l k = enter [OneTick] (woken (LockSem l) (k\<lparr>lock_holder := (lock_holder k)(l := None)\<rparr>))"
    and "\<exists>k'. Lock_Release l k = Some k' \<and> kernel_ok k'"
proof -
  note a = at_callD [OF assms(1)]
  let ?k = "k\<lparr>lock_holder := (lock_holder k)(l := None)\<rparr>"
  obtain sm where sm: "semaphores ?k (LockSem l) = Some sm" using assms(2) by auto
  have c: "at_call ?k fs" by (rule at_call_same [OF assms(1)]) (simp_all add: calm_simps(1) [OF a(4)])
  have "Lock_Release l k = Semaphore_V (LockSem l) ?k" using assms(2) by (simp add: Lock_Release_def IsHeldByCurrentThread_def)
  with exec_V [OF c sm] show "Lock_Release l k = enter [OneTick] (woken (LockSem l) ?k)"
    "\<exists>k'. Lock_Release l k = Some k' \<and> kernel_ok k'" by simp_all
qed

lemma exec_Signal:
  assumes "at_call k fs" and "\<not> misuse (Signal c l) k"
  shows "Condition_Signal c l k = (case wait_queue k c of [] \<Rightarrow> Some k
      | w # q \<Rightarrow> enter [OneTick] (woken (Waiter w) (k\<lparr>wait_queue := (wait_queue k)(c := q)\<rparr>)))"
    and "\<exists>k'. Condition_Signal c l k = Some k' \<and> kernel_ok k'"
proof -
  note a = at_callD [OF assms(1)]
  have h: "IsHeldByCurrentThread l k" using assms(2) by (simp add: IsHeldByCurrentThread_def)
  have *: "Condition_Signal c l k = (case wait_queue k c of [] \<Rightarrow> Some k
      | w # q \<Rightarrow> enter [OneTick] (woken (Waiter w) (k\<lparr>wait_queue := (wait_queue k)(c := q)\<rparr>))) \<and>
    (\<exists>k'. Condition_Signal c l k = Some k' \<and> kernel_ok k')"
  proof (cases "wait_queue k c")
    case Nil
    with h a(8) show ?thesis by (simp add: Condition_Signal_def)
  next
    case (Cons w q)
    let ?k = "k\<lparr>wait_queue := (wait_queue k)(c := q)\<rparr>"
    obtain sm where sm: "semaphores ?k (Waiter w) = Some sm" using assms(2) Cons by auto
    have c: "at_call ?k fs" by (rule at_call_same [OF assms(1)]) (simp_all add: calm_simps(2) [OF a(4)])
    have "Condition_Signal c l k = Semaphore_V (Waiter w) ?k" using h Cons by (simp add: Condition_Signal_def)
    with exec_V [OF c sm] Cons show ?thesis by simp
  qed
  then show "Condition_Signal c l k = (case wait_queue k c of [] \<Rightarrow> Some k
      | w # q \<Rightarrow> enter [OneTick] (woken (Waiter w) (k\<lparr>wait_queue := (wait_queue k)(c := q)\<rparr>)))"
    "\<exists>k'. Condition_Signal c l k = Some k' \<and> kernel_ok k'" by blast+
qed

lemma exec_same:
  assumes "at_call k fs" and "same_sched k' k" and "level k' = level k" and "calm k'" and "yieldOnReturn k' = yieldOnReturn k"
  shows "kernel_ok k'"
  using at_call_same [OF assms] by (rule call_done)

lemma at_call_give:
  assumes "at_call k fs"
  shows "\<exists>th. this_thread k = Some th \<and> give v k = Some (set_this (th\<lparr>returned := returned th @ [v]\<rparr>) k) \<and>
    at_call (set_this (th\<lparr>returned := returned th @ [v]\<rparr>) k) fs"
proof -
  note a = at_callD [OF assms]
  obtain th where th: "this_thread k = Some th" "thread_status th = RUNNING" "stack th = fs" using at_frame_this [OF a(1)] by blast
  let ?k = "set_this (th\<lparr>returned := returned th @ [v]\<rparr>) k"
  have "at_frame IntOn ?k fs" using at_frame_set_this [OF a(1), of "th\<lparr>returned := returned th @ [v]\<rparr>"] th by simp
  moreover have "calm ?k" by (rule calm_this [OF a(4) th(1)]) simp_all
  ultimately have "at_call ?k fs" using a by (simp add: at_call_def set_this_def)
  with th(1) show ?thesis by (simp add: give_def with_thread_def this_thread_def set_this_def)
qed

lemma exec_lists:
  assumes "at_call k fs"
  shows "\<not> misuse (AppendItem n x) k \<Longrightarrow> \<exists>k'. append_item n x k = Some k' \<and> kernel_ok k'"
    and "\<not> misuse (RemoveLoop n) k \<Longrightarrow> \<exists>k'. remove_loop n k = Some k' \<and> kernel_ok k'"
    and "\<not> misuse (RemoveItem n) k \<Longrightarrow> \<exists>k'. remove_item n k = Some k' \<and> kernel_ok k'"
proof -
  note a = at_callD [OF assms]
  have s: "at_call (k\<lparr>synch_lists := f\<rparr>) fs" for f
    by (rule at_call_same [OF assms]) (simp_all add: same_sched_def calm_simps(3) [OF a(4)])
  show "\<exists>k'. append_item n x k = Some k' \<and> kernel_ok k'" if "\<not> misuse (AppendItem n x) k"
    using that call_done [OF s] by (auto simp: append_item_def seq_Append_def split: option.splits)
  show "\<exists>k'. remove_loop n k = Some k' \<and> kernel_ok k'" if "\<not> misuse (RemoveLoop n) k"
    using that a(8) call_enter [OF assms, of "[Wait (ListCond n) (ListLock n), RemoveLoop n]"]
    by (auto simp: remove_loop_def)
  show "\<exists>k'. remove_item n k = Some k' \<and> kernel_ok k'" if mis: "\<not> misuse (RemoveItem n) k"
  proof -
    obtain sl v vs where sl: "synch_lists k n = Some sl" "list_items sl = v # vs"
      using mis by (cases "synch_lists k n"; cases "list_items (the (synch_lists k n))") auto
    let ?k = "k\<lparr>synch_lists := (synch_lists k)(n \<mapsto> sl\<lparr>list_items := vs\<rparr>)\<rparr>"
    from at_call_give [OF s [of "(synch_lists k)(n \<mapsto> sl\<lparr>list_items := vs\<rparr>)"], of v] obtain k' where
      "give v ?k = Some k'" "at_call k' fs" by blast
    with call_done show ?thesis by (auto simp: remove_item_def sl)
  qed
qed

lemma exec_devices:
  assumes "at_call k fs"
  shows "\<not> putBusy k \<Longrightarrow> \<exists>k'. ConsoleOutput_PutChar ch k = Some k' \<and> kernel_ok k'"
    and "\<exists>k'. ConsoleInput_GetChar k = Some k' \<and> kernel_ok k'"
proof -
  note a = at_callD [OF assms]
  have sched: "sched_ok IntOn k" using a(7,8) by (simp add: kernel_ok_def)
  have p: "sorted_by PendingCompare (pending k)" "distinct (pending k)" "\<forall>q \<in> set (pending k). pi_address q < next_pending k"
    "\<forall>i. 0 \<le> rand k i" "semaphores k ConsoleInSem \<noteq> None" "semaphores k ConsoleOutSem \<noteq> None"
    "awaits ConsoleInputCallBack k \<le> (if incoming k = EOF then 1 else 0)"
    "awaits ConsoleOutputCallBack k = (if putBusy k then 1 else 0)"
    using a(10) by (auto simp: pend_ok_def)
  have mach: "mach_ok k'" if "same_sched k' k" "machine k' = machine k" "spaces k' = spaces k" "table_of k' = table_of k" for k'
    using a(9) that by (simp add: mach_ok_def same_sched_def)
  show "\<exists>k'. ConsoleOutput_PutChar ch k = Some k' \<and> kernel_ok k'" if busy: "\<not> putBusy k"
  proof -
    let ?k = "k\<lparr>screen := screen k @ [ch], putBusy := True\<rparr>"
    have same: "same_sched ?k k" by (simp add: same_sched_def)
    have "\<exists>k'. Schedule ConsoleOutputCallBack ConsoleTime ConsoleWriteInt ?k = Some k' \<and> after_handler IntOn ?k k' \<and>
        same_sched k' ?k \<and> (\<exists>n ps. k' = ?k\<lparr>next_pending := n, pending := ps\<rparr>)"
      by (rule after_schedule) (use p busy same_sched_ok [OF same] sched in \<open>simp_all add: awaits_def ConsoleTime_def\<close>)
    then obtain k' where k': "Schedule ConsoleOutputCallBack ConsoleTime ConsoleWriteInt ?k = Some k'" "pend_ok k'"
      "same_sched k' ?k" "\<exists>n ps. k' = ?k\<lparr>next_pending := n, pending := ps\<rparr>" by (auto simp: after_handler_def)
    have "same_sched k' k" using same_trans [OF k'(3) same] .
    moreover have "calm k'" using k'(2,4) mach [OF calculation] a(6) by (auto simp: calm_def)
    ultimately have "kernel_ok k'" using k'(4) by (intro exec_same [OF assms]) auto
    with k'(1) busy show ?thesis by (simp add: ConsoleOutput_PutChar_def)
  qed
  show "\<exists>k'. ConsoleInput_GetChar k = Some k' \<and> kernel_ok k'"
  proof (cases "incoming k = EOF")
    case True
    then have e: "k\<lparr>incoming := EOF\<rparr> = k" by (cases k) simp
    have "ConsoleInput_GetChar k = give EOF (k\<lparr>incoming := EOF\<rparr>)" using True by (simp add: ConsoleInput_GetChar_def)
    then have "ConsoleInput_GetChar k = give EOF k" by (simp only: e)
    with at_call_give [OF assms, of EOF] call_done show ?thesis by auto
  next
    case False
    let ?e = "k\<lparr>incoming := EOF\<rparr>"
    have same: "same_sched ?e k" by (simp add: same_sched_def)
    let ?p = "\<lparr>callOnInterrupt = ConsoleInputCallBack, pi_when = total_ticks k + ConsoleTime,
      pi_type = ConsoleReadInt, pi_address = next_pending k\<rparr>"
    let ?n = "Suc (next_pending k)" and ?ps = "seq_insert PendingCompare ?p (pending k)"
    let ?k = "?e\<lparr>next_pending := ?n, pending := ?ps\<rparr>"
    have c: "0 < ConsoleTime" by (simp add: ConsoleTime_def)
    have se: "Schedule ConsoleInputCallBack ConsoleTime ConsoleReadInt ?e = Some ?k"
      using Schedule_eq [OF c, of ?e ConsoleInputCallBack ConsoleReadInt] p(3) by simp
    have "\<exists>k'. Schedule ConsoleInputCallBack ConsoleTime ConsoleReadInt ?e = Some k' \<and> after_handler IntOn ?e k' \<and>
        same_sched k' ?e \<and> (\<exists>n ps. k' = ?e\<lparr>next_pending := n, pending := ps\<rparr>)"
      by (rule after_schedule) (use p False same_sched_ok [OF same] sched in \<open>simp_all add: awaits_def ConsoleTime_def\<close>)
    then have k': "pend_ok ?k" "same_sched ?k ?e" unfolding se by (auto simp: after_handler_def)
    have "same_sched ?k k" using same_trans [OF k'(2) same] .
    moreover have "calm ?k" using k'(1) mach [OF calculation] a(6) by (auto simp: calm_def)
    ultimately have "at_call ?k fs" by (intro at_call_same [OF assms]) auto
    from at_call_give [OF this, of "incoming k"] obtain k' where "give (incoming k) ?k = Some k'" "at_call k' fs" by blast
    moreover have "Schedule ConsoleInputCallBack ConsoleTime ConsoleReadInt k = Some (k\<lparr>next_pending := ?n, pending := ?ps\<rparr>)"
      using Schedule_eq [OF c p(3), of ConsoleInputCallBack ConsoleReadInt] by simp
    moreover have "k\<lparr>next_pending := ?n, pending := ?ps, incoming := EOF\<rparr> = ?k" by (cases k) simp
    ultimately have k': "give (incoming k) ?k = Some k'" "at_call k' fs"
      and s: "Schedule ConsoleInputCallBack ConsoleTime ConsoleReadInt k = Some (k\<lparr>next_pending := ?n, pending := ?ps\<rparr>)"
      and e: "k\<lparr>next_pending := ?n, pending := ?ps, incoming := EOF\<rparr> = ?k" by simp_all
    have "ConsoleInput_GetChar k = give (incoming k) (k\<lparr>next_pending := ?n, pending := ?ps, incoming := EOF\<rparr>)"
      using False s by (simp add: ConsoleInput_GetChar_def)
    then have "ConsoleInput_GetChar k = Some k'" by (simp only: e k'(1))
    with call_done [OF k'(2)] show ?thesis by blast
  qed
qed

subsection \<open>User programs\<close>

lemma foldM_clear: "length (registers m) = 40 \<Longrightarrow> n \<le> 40 \<Longrightarrow>
    foldM (\<lambda>i m. WriteRegister m i 0) [0..int n - 1] m = Some (m\<lparr>registers := replicate n 0 @ drop n (registers m)\<rparr>)"
proof (induction n)
  case 0
  then show ?case by simp
next
  case (Suc n)
  have r: "[0..int (Suc n) - 1] = [0..int n - 1] @ [int n]" using upto_rec2 [of 0 "int n"] by simp
  have "(replicate n 0 @ drop n (registers m))[n := 0] = replicate (Suc n) 0 @ drop (Suc n) (registers m)"
    using Suc.prems by (intro nth_equalityI) (auto simp: nth_list_update nth_append less_Suc_eq simp del: replicate.simps)
  with Suc show ?case
    unfolding r foldM_append by (simp add: WriteRegister_def NumTotalRegs_def set_reg_def arr_set_def)
qed

lemma InitRegisters_ok:
  assumes "length (registers m) = 40"
  shows "InitRegisters as m = Some (m\<lparr>registers :=
    (replicate 40 0)[34 := 0, 35 := 4, 29 := numPages as * word_of_int PageSize - 16]\<rparr>)"
  using foldM_clear [of m 40] assms
  by (simp add: InitRegisters_def WriteRegister_def NumTotalRegs_def)

lemma exec_Execute:
  assumes "at_call k fs" and "\<not> misuse (Execute sp) k"
  shows "\<exists>k'. AddrSpace_Execute sp k = Some k' \<and> kernel_ok k'"
proof -
  note a = at_callD [OF assms(1)]
  obtain as where as: "spaces k sp = Some as" using assms(2) by auto
  obtain th where th: "this_thread k = Some th" "thread_status th = RUNNING" "stack th = fs" using at_frame_this [OF a(1)] by blast
  let ?k1 = "set_this (th\<lparr>space := Some sp\<rparr>) k"
  let ?regs = "(replicate 40 (0 :: u32))[34 := 0, 35 := 4, 29 := numPages as * word_of_int PageSize - 16]"
  let ?k2 = "?k1\<lparr>table_of := Some sp, machine := (machine k)\<lparr>registers := ?regs, pageTableSize := numPages as\<rparr>, mstatus := UserMode\<rparr>"
  have l: "length (registers (machine k)) = 40" using a(9) by (simp add: mach_ok_def regs_fit_def)
  have "at_frame IntOn ?k1 fs" using at_frame_set_this [OF a(1), of "th\<lparr>space := Some sp\<rparr>"] th by simp
  then have f: "at_frame IntOn ?k2 fs" by (rule same_at_frame [rotated]) (use a(7) in \<open>simp_all add: same_sched_def\<close>)
  have "regs_fit ?regs" by (simp add: regs_fit_def nth_list_update)
  then have "mach_ok ?k2" using a(9) as th(1) by (auto simp: mach_ok_def set_this_def this_thread_def)
  moreover have "pend_ok ?k2" using a(10) by (simp add: pend_ok_def awaits_def set_this_def)
  ultimately have "at_call ?k2 fs" using f a by (simp add: at_call_def calm_def set_this_def)
  from call_enter [OF this, of "[UserLoop]"] show ?thesis
    using as th(1) InitRegisters_ok [OF l, of as]
    by (simp add: AddrSpace_Execute_def with_thread_def this_thread_def RestoreState_def set_this_def)
qed

lemma WriteRegister_eq:
  assumes "length (registers m) = 40" and "0 \<le> i" and "i < 40"
  shows "WriteRegister m i v = Some (m\<lparr>registers := (registers m)[nat i := v]\<rparr>)"
  using assms by (simp add: WriteRegister_def set_reg_def NumTotalRegs_def arr_set_in)

lemma ReadRegister_eq:
  assumes "length (registers m) = 40" and "0 \<le> i" and "i < 40"
  shows "ReadRegister m i = Some (registers m ! nat i)"
  using assms by (simp add: ReadRegister_def get_reg_def NumTotalRegs_def arr_get_in)

lemma syscall_Add:
  assumes "length (registers (machine k)) = 40" and "registers (machine k) ! 2 = SC_Add"
  shows "ExceptionHandler SyscallException k = Some (k\<lparr>machine := (machine k)\<lparr>registers := (registers (machine k))
    [2 := registers (machine k) ! 4 + registers (machine k) ! 5, 36 := registers (machine k) ! 34,
     34 := registers (machine k) ! 34 + 4, 35 := 8 + registers (machine k) ! 34]\<rparr>\<rparr>)"
  using assms
  by (simp add: ExceptionHandler_def ReadRegister_eq WriteRegister_eq SC_Halt_def SC_Add_def SysAdd_def
      PCReg_def PrevPCReg_def NextPCReg_def)

lemma syscall_Halt:
  assumes "length (registers (machine k)) = 40" and "registers (machine k) ! 2 = SC_Halt"
  shows "ExceptionHandler SyscallException k = Some (Interrupt_Halt k)"
  using assms by (simp add: ExceptionHandler_def ReadRegister_eq)

lemma table_loaded_ok:
  assumes "regs_fit (registers m)" and "length (mainMemory m) = 16384" and "tlb m = None"
    and "pageTableSize m = n" and "uint n \<le> int (length t)"
  shows "machine_ok (m\<lparr>pageTable := Some t\<rparr>)"
  unfolding machine_ok_def
proof
  show "regs_ok (m\<lparr>pageTable := Some t\<rparr>)" using assms(1) by (simp add: regs_ok_def regs_fit_def)
  show "mem_ok (m\<lparr>pageTable := Some t\<rparr>)" using assms(2-5) by (simp add: mem_ok_def)
qed

lemma machine_ok_parts:
  assumes "machine_ok m" and "tlb m = None"
  shows "regs_fit (registers m)" "length (mainMemory m) = 16384"
    "\<exists>t. pageTable m = Some t \<and> uint (pageTableSize m) \<le> int (length t)"
  using assms unfolding machine_ok_def regs_ok_def mem_ok_def regs_fit_def by simp_all

lemma OneInstruction_loaded:
  assumes "mach_ok k" and "table_of k = Some sp" and "\<not> user_stops k"
  shows "\<exists>m as m' t. load_table k = Some m \<and> OneInstruction m = Some m' \<and> \<not> unserved m' \<and> spaces k sp = Some as \<and>
    regs_fit (registers m') \<and> length (mainMemory m') = 16384 \<and> tlb m' = None \<and> pageTableSize m' = numPages as \<and>
    pageTable m' = Some t \<and> uint (numPages as) \<le> int (length t)"
proof -
  obtain as where as: "spaces k sp = Some as" "pageTableSize (machine k) = numPages as"
    "uint (numPages as) \<le> int (length (as_pageTable as))" using assms(1,2) by (auto simp: mach_ok_def)
  let ?m = "(machine k)\<lparr>pageTable := Some (as_pageTable as)\<rparr>"
  have m: "load_table k = Some ?m" using assms(2) as(1) by (simp add: load_table_def)
  have "regs_fit (registers (machine k))" "length (mainMemory (machine k)) = 16384" "tlb (machine k) = None"
    using assms(1) by (simp_all only: mach_ok_def)
  then have "machine_ok ?m" by (rule table_loaded_ok [OF _ _ _ as(2,3)])
  moreover have "\<not> div_overflow i m1" if "fetched ?m = Some (i, m1)" for i m1
    using assms(2,3) that unfolding user_stops_def m by simp
  ultimately obtain m' where m': "OneInstruction ?m = Some m'" "machine_ok m'"
    using OneInstruction_cases [of ?m] by blast
  have "tlb m' = None" "pageTableSize m' = numPages as"
    using OneInstruction_keeps [OF m'(1)] assms(1) as(2) by (simp_all add: mmu_def mach_ok_def)
  moreover have "\<not> unserved m'" using assms(2,3) unfolding user_stops_def m by (simp add: m'(1))
  moreover obtain t where "pageTable m' = Some t" "uint (numPages as) \<le> int (length t)"
    "regs_fit (registers m')" "length (mainMemory m') = 16384"
    using machine_ok_parts [OF m'(2)] calculation(1,2) by auto
  ultimately show ?thesis using m m'(1) as(1) by blast
qed

lemma exception_stops:
  assumes "length (registers (machine k)) = 40"
    and "e \<noteq> SyscallException \<or> registers (machine k) ! 2 \<notin> {SC_Halt, SC_Add}"
  shows "ExceptionHandler e k = None"
  using assms by (auto simp: ExceptionHandler_def ReadRegister_eq)

lemma exec_UserLoop:
  assumes "at_call k fs" and "\<not> misuse UserLoop k"
  shows "\<exists>k'. user_round k = Some k' \<and> kernel_ok k'"
proof -
  note a = at_callD [OF assms(1)]
  obtain sp where sp: "table_of k = Some sp" using assms(2) by (auto simp: user_stops_def)
  obtain m as m' t where m: "load_table k = Some m" "OneInstruction m = Some m'" "\<not> unserved m'" "spaces k sp = Some as"
    "regs_fit (registers m')" "length (mainMemory m') = 16384" "tlb m' = None" "pageTableSize m' = numPages as"
    "pageTable m' = Some t" "uint (numPages as) \<le> int (length t)"
    using OneInstruction_loaded [OF a(9) sp] assms(2) by auto
  let ?s = "(spaces k)(sp \<mapsto> as\<lparr>as_pageTable := t\<rparr>)"
  have store: "store_table m' k = k\<lparr>machine := m', spaces := ?s\<rparr>" using sp m(4,9) by (simp add: store_table_def)
  have go: "\<exists>k'. enter [OneTick, UserLoop] k1 = Some k' \<and> kernel_ok k'"
    if k1: "k1 = k\<lparr>machine := m'\<lparr>registers := vs\<rparr>, spaces := ?s, mstatus := st, halted := h\<rparr>" and vs: "regs_fit vs" for k1 vs st h
  proof (rule call_enter [of _ fs], rule at_call_same [OF assms(1)])
    have "mach_ok k1" using a(9) vs m(4-8,10) sp unfolding k1 mach_ok_def by auto
    then show "calm k1" using a(6,10) unfolding k1 by (simp add: calm_def pend_ok_def awaits_def)
  qed (simp_all add: k1 same_sched_def)
  have e: "m' = m'\<lparr>registers := registers m'\<rparr>" by (cases m') simp
  have st: "k\<lparr>machine := m', spaces := ?s\<rparr> = k\<lparr>machine := m'\<lparr>registers := registers m'\<rparr>, spaces := ?s, mstatus := mstatus k, halted := halted k\<rparr>"
    using e by (cases k) simp
  show ?thesis
  proof (cases "trap m'")
    case None
    then have "user_round k = enter [OneTick, UserLoop] (k\<lparr>machine := m', spaces := ?s\<rparr>)"
      by (simp add: user_round_def m(1,2) store)
    with go [OF st m(5)] show ?thesis by simp
  next
    case (Some ex)
    let ?h = "k\<lparr>machine := m', spaces := ?s, mstatus := SystemMode\<rparr>"
    have ex: "ex = SyscallException" "registers m' ! 2 = SC_Halt \<or> registers m' ! 2 = SC_Add"
      using m(3) Some by (auto simp: unserved_def)
    have len: "length (registers (machine ?h)) = 40" using m(5) by (simp add: regs_fit_def)
    have r: "user_round k = do { k \<leftarrow> ExceptionHandler SyscallException ?h; enter [OneTick, UserLoop] (k\<lparr>mstatus := UserMode\<rparr>) }"
      using Some ex(1) by (simp add: user_round_def m(1,2) store)
    show ?thesis
    proof (cases "registers m' ! 2 = SC_Halt")
      case True
      then have "user_round k = enter [OneTick, UserLoop] (Interrupt_Halt ?h\<lparr>mstatus := UserMode\<rparr>)"
        using r syscall_Halt [OF len] by simp
      moreover have "Interrupt_Halt ?h\<lparr>mstatus := UserMode\<rparr> =
          k\<lparr>machine := m'\<lparr>registers := registers m'\<rparr>, spaces := ?s, mstatus := UserMode, halted := True\<rparr>"
        using e by (simp add: Interrupt_Halt_def)
      ultimately show ?thesis using go [OF _ m(5)] by metis
    next
      case False
      then have two: "registers (machine ?h) ! 2 = SC_Add" using ex(2) by simp
      let ?vs = "(registers m')[2 := registers m' ! 4 + registers m' ! 5, 36 := registers m' ! 34,
        34 := registers m' ! 34 + 4, 35 := 8 + registers m' ! 34]"
      have "user_round k = enter [OneTick, UserLoop] (?h\<lparr>machine := m'\<lparr>registers := ?vs\<rparr>\<rparr>\<lparr>mstatus := UserMode\<rparr>)"
        unfolding r syscall_Add [OF len two] by simp
      moreover have "?h\<lparr>machine := m'\<lparr>registers := ?vs\<rparr>\<rparr>\<lparr>mstatus := UserMode\<rparr> =
          k\<lparr>machine := m'\<lparr>registers := ?vs\<rparr>, spaces := ?s, mstatus := UserMode, halted := halted k\<rparr>"
        by (cases k) simp
      moreover have "regs_fit ?vs" using m(5) by (simp add: regs_fit_def)
      ultimately show ?thesis using go by metis
    qed
  qed
qed

end
