(* ===== verification/Kernel_Step.thy ===== *)
theory Kernel_Step
  imports Kernel_Safe
begin

text \<open>
  The step of the kernel: from a state in which the invariant holds, a frame whose call is not a
  misuse runs and the invariant holds again. The start of the kernel establishes the invariant.
\<close>

subsection \<open>The processor passes to another thread\<close>

lemma calm_left:
  assumes "calm k" and "this_thread k = Some th" and "userRegisters th' = userRegisters th" and "space th' = space th"
  shows "calm (left fin th' k)"
proof -
  have "regs_fit (registers (machine k))" using assms(1) by (simp add: calm_def mach_ok_def)
  then have "regs_fit (userRegisters (saved k th'))"
    using assms by (auto simp: saved_def calm_def mach_ok_def this_thread_def)
  then have "mach_ok (left fin th' k)"
    using assms unfolding calm_def mach_ok_def left_def set_this_def by (auto simp: this_thread_def)
  with assms(1) show ?thesis by (simp add: calm_def pend_ok_def awaits_def left_def set_this_def)
qed

lemma calm_dispatch: "calm k \<Longrightarrow> calm (dispatch n rl k)"
  by (auto simp: calm_def mach_ok_def pend_ok_def awaits_def dispatch_def)

lemma calm_cleaned: "calm k \<Longrightarrow> calm (cleaned k)"
  by (auto simp: calm_def mach_ok_def pend_ok_def awaits_def cleaned_def split: option.split)

lemma yor_simps [simp]: "yieldOnReturn (dispatch n rl k) = yieldOnReturn k" "yieldOnReturn (left fin th k) = yieldOnReturn k"
  "yieldOnReturn (cleaned k) = yieldOnReturn k" "yieldOnReturn (set_this th k) = yieldOnReturn k"
  by (simp_all add: dispatch_def left_def set_this_def cleaned_def split: option.split)

lemma kernel_okI: "sched_ok (level k) k \<Longrightarrow> calm k \<Longrightarrow> \<not> yieldOnReturn k \<Longrightarrow> kernel_ok k"
  by (simp add: kernel_ok_def)

lemma yor_enter: "enter gs k = Some k' \<Longrightarrow> yieldOnReturn k' = yieldOnReturn k"
  by (auto simp: enter_def with_thread_def)

lemma exec_Yield:
  assumes "at_call k fs"
  shows "\<exists>k'. Thread_Yield k = Some k' \<and> kernel_ok k'"
proof (cases "readyList k")
  case Nil
  note a = at_callD [OF assms]
  from Yield_alone [OF a(1) Nil a(6)] call_enter [OF assms, of "[OneTick]"] show ?thesis by simp
next
  case (Cons n rl)
  note a = at_callD [OF assms]
  obtain th where th: "this_thread k = Some th" using at_frame_this [OF a(1)] by blast
  let ?th = "th\<lparr>thread_status := READY, stack := Restore IntOn # fs\<rparr>"
  have "calm (left False ?th (k\<lparr>level := IntOff\<rparr>))"
    by (rule calm_left [OF same_calm(1) [OF a(4)], where th = th]) (use th in \<open>simp_all add: this_thread_def\<close>)
  then have "calm (dispatch n (rl @ [currentThread k]) (left False ?th (k\<lparr>level := IntOff\<rparr>)))"
    by (rule calm_dispatch)
  with Yield_switches [OF a(1) Cons a(9) th a(2,3)] a(5) show ?thesis by (auto intro!: kernel_okI)
qed

lemma exec_Fork:
  assumes "at_call k fs" and "list_all public body"
  shows "\<exists>k'. Thread_Fork body k = Some k' \<and> kernel_ok k'"
proof -
  note a = at_callD [OF assms(1)]
  obtain k' where k': "Thread_Fork body k = Some k'" "sched_ok (level k') k'"
    using sched_Fork [OF a(1-3) a(6) assms(2)] by blast
  let ?t = "next_thread k"
  let ?k = "k\<lparr>next_thread := Suc ?t, threads := (threads k)(?t \<mapsto> (Thread_new body)\<lparr>thread_status := READY\<rparr>),
    readyList := readyList k @ [?t]\<rparr>"
  have "?t \<notin> set (readyList k)"
    using k'(1) a(7) by (auto simp: Thread_Fork_def ReadyToRun_def set_status_def with_thread_def seq_Append_def Let_def)
  then have "Thread_Fork body k = enter [OneTick] ?k"
    using a(6,7)
    by (simp add: Thread_Fork_def ReadyToRun_def set_status_def with_thread_def seq_Append_def SetLevel_def Let_def level_same)
  moreover have "calm ?k"
    using a(4) by (auto simp: calm_def pend_ok_def mach_ok_def awaits_def Thread_new_def regs_fit_def NumTotalRegs_def)
  ultimately have "calm k'" using calm_enter [of ?k "[OneTick]" k'] k'(1) by simp
  moreover have "\<not> yieldOnReturn k'"
    using \<open>Thread_Fork body k = enter [OneTick] ?k\<close> k'(1) a(5) yor_enter [of "[OneTick]" ?k k'] by simp
  ultimately show ?thesis using k' by (auto intro: kernel_okI)
qed

lemma exec_OneTick:
  assumes "at_call k fs"
  shows "\<exists>k'. OneTick_run k = Some k' \<and> kernel_ok k'"
  using OneTick_ok [of k fs] at_callD [OF assms] by (auto simp: kernel_ok_def)

lemma exec_simple:
  assumes "at_call k fs"
  shows "\<exists>k'. Lock_Acquire l k = Some k' \<and> kernel_ok k'"
    and "\<exists>k'. Lock_set_holder l k = Some k' \<and> kernel_ok k'"
    and "\<exists>k'. Condition_Broadcast c l k = Some k' \<and> kernel_ok k'"
    and "\<exists>k'. SynchList_Append n x k = Some k' \<and> kernel_ok k'"
    and "\<exists>k'. SynchList_RemoveFront n k = Some k' \<and> kernel_ok k'"
    and "\<exists>k'. SynchConsole_PutChar ch k = Some k' \<and> kernel_ok k'"
    and "\<exists>k'. SynchConsole_GetChar k = Some k' \<and> kernel_ok k'"
    and "kernel_ok (Interrupt_Halt k)" and "kernel_ok (k\<lparr>mstatus := st\<rparr>)"
proof -
  note a = at_callD [OF assms] and e = call_enter [OF assms]
  show "\<exists>k'. Lock_Acquire l k = Some k' \<and> kernel_ok k'" unfolding Lock_Acquire_def by (rule e) simp
  show "\<exists>k'. Lock_set_holder l k = Some k' \<and> kernel_ok k'"
    using exec_same [OF assms, of "k\<lparr>lock_holder := (lock_holder k)(l \<mapsto> currentThread k)\<rparr>"] calm_simps(1) [OF a(4)]
    by (simp add: Lock_set_holder_def)
  show "\<exists>k'. Condition_Broadcast c l k = Some k' \<and> kernel_ok k'"
    using e [of "[Signal c l, Broadcast c l]"] a(8) by (simp add: Condition_Broadcast_def)
  show "\<exists>k'. SynchList_Append n x k = Some k' \<and> kernel_ok k'" unfolding SynchList_Append_def by (rule e) simp
  show "\<exists>k'. SynchList_RemoveFront n k = Some k' \<and> kernel_ok k'" unfolding SynchList_RemoveFront_def by (rule e) simp
  show "\<exists>k'. SynchConsole_PutChar ch k = Some k' \<and> kernel_ok k'" unfolding SynchConsole_PutChar_def by (rule e) simp
  show "\<exists>k'. SynchConsole_GetChar k = Some k' \<and> kernel_ok k'" unfolding SynchConsole_GetChar_def by (rule e) simp
  show "kernel_ok (Interrupt_Halt k)"
    by (rule exec_same [OF assms]) (use same_calm(6) [OF a(4)] in \<open>simp_all add: Interrupt_Halt_def same_sched_def\<close>)
  show "kernel_ok (k\<lparr>mstatus := st\<rparr>)"
    by (rule exec_same [OF assms]) (use same_calm(2) [OF a(4)] in \<open>simp_all add: same_sched_def\<close>)
qed

lemma exec_plain:
  assumes "at_call k fs" and "plain f" and "\<not> misuse f k"
  shows "\<exists>k'. exec f k = Some k' \<and> kernel_ok k'"
proof -
  note s = exec_simple [OF assms(1)] and l = exec_lists [OF assms(1)] and d = exec_devices [OF assms(1)]
  show ?thesis
    using assms(2,3) s l d exec_Yield [OF assms(1)] exec_Fork [OF assms(1)] exec_OneTick [OF assms(1)]
      exec_UserLoop [OF assms(1)] exec_Execute [OF assms(1)] exec_Wait [OF assms(1)] exec_Release(2) [OF assms(1)]
      exec_Signal(2) [OF assms(1)] exec_DeleteWaiter [OF assms(1)]
  proof (cases f)
    case (SemP s)
    with assms(3) exec_P [OF assms(1)] show ?thesis by auto
  next
    case (SemV s)
    with assms(3) exec_V(2) [OF assms(1)] show ?thesis by auto
  qed (simp_all del: misuse.simps add: misuse.simps(11))
qed

subsection \<open>Frames that run with interrupts off\<close>

definition off_frame :: "kernel \<Rightarrow> frame list \<Rightarrow> bool" where
  "off_frame k fs \<longleftrightarrow> at_frame IntOff k fs \<and> calm k \<and> \<not> yieldOnReturn k"

lemma exec_PLoop:
  assumes "off_frame k fs" and "calls fs" and "toBeDestroyed k = None" and "semaphores k s \<noteq> None"
  shows "\<exists>k'. P_loop s IntOn k = Some k' \<and> kernel_ok k'"
  using assms P_loop_ok [of k fs s] by (auto simp: off_frame_def)

lemma exec_Restore:
  assumes "off_frame k fs" and "calls fs" and "toBeDestroyed k = None"
  shows "\<exists>k'. exec (Restore IntOn) k = Some k' \<and> kernel_ok k'"
proof -
  have a: "at_frame IntOff k fs" "calm k" "\<not> yieldOnReturn k" "\<not> inHandler k" "level k = IntOff"
    using assms(1) by (auto simp: off_frame_def calm_def at_frame_def)
  obtain k' where k': "exec (Restore IntOn) k = Some k'" "sched_ok (level k') k'"
    using sched_Restore [OF a(1) assms(2) a(4) assms(3)] by blast
  then have e: "enter [OneTick] (k\<lparr>level := IntOn\<rparr>) = Some k'"
    using a(4,5) by (cases "enter [OneTick] (k\<lparr>level := IntOn\<rparr>)") (simp_all add: SetLevel_on)
  show ?thesis
    using k' calm_enter [OF same_calm(1) [OF a(2)] e] yor_enter [OF e] a(3) by (auto intro: kernel_okI)
qed

lemma exec_Begin:
  assumes "off_frame k fs" and "calls fs"
  shows "\<exists>k'. Thread_Begin k = Some k' \<and> kernel_ok k'"
proof -
  have a: "at_frame IntOff k fs" "calm k" "\<not> yieldOnReturn k" "\<not> inHandler k" "level k = IntOff"
    using assms(1) by (auto simp: off_frame_def calm_def at_frame_def)
  obtain k' where k': "Thread_Begin k = Some k'" "sched_ok (level k') k'"
    using sched_Begin [OF a(1) assms(2) a(4)] by blast
  then have e: "enter [OneTick] (cleaned k\<lparr>level := IntOn\<rparr>) = Some k'"
    using a(4,5) at_frame_cleaned(1) [OF a(1)]
    by (cases "enter [OneTick] (cleaned k\<lparr>level := IntOn\<rparr>)") (simp_all add: Thread_Begin_def SetLevel_on)
  show ?thesis
    using k' calm_enter [OF same_calm(1) [OF calm_cleaned [OF a(2)]] e] yor_enter [OF e] a(3) by (auto intro: kernel_okI)
qed

lemma exec_AfterSwitch:
  assumes "off_frame k fs" and "resumed fs"
  shows "\<exists>k'. Run_after_switch k = Some k' \<and> kernel_ok k'"
proof -
  have a: "at_frame IntOff k fs" "calm k" "\<not> yieldOnReturn k" "mach_ok k"
    using assms(1) by (auto simp: off_frame_def calm_def)
  obtain th where th: "this_thread k = Some th" using at_frame_this [OF a(1)] by blast
  let ?k = "case space th of None \<Rightarrow> cleaned k
     | Some sp \<Rightarrow> (cleaned k)\<lparr>table_of := Some sp,
         machine := (machine k)\<lparr>registers := userRegisters th, pageTableSize := numPages (the (spaces k sp))\<rparr>\<rparr>"
  note r = sched_AfterSwitch [OF a(1) assms(2) a(4) th]
  have "calm ?k"
  proof (cases "space th")
    case None
    then show ?thesis using calm_cleaned [OF a(2)] by simp
  next
    case (Some sp)
    then have "regs_fit (userRegisters th)" "spaces k sp \<noteq> None" using a(4) th by (auto simp: mach_ok_def this_thread_def)
    with Some calm_cleaned [OF a(2)] show ?thesis by (auto simp: calm_def mach_ok_def pend_ok_def awaits_def)
  qed
  moreover have "\<not> yieldOnReturn ?k" using a(3) by (auto split: option.split)
  ultimately show ?thesis using r by (auto intro: kernel_okI)
qed

lemma exec_Finish:
  assumes "at_frame IntOn k []" and "calm k" and "\<not> yieldOnReturn k" and "toBeDestroyed k = None"
  shows "\<exists>k'. Thread_Finish k = Some k' \<and> kernel_ok k'"
proof -
  obtain k' where k': "Thread_Finish k = Some k'" "sched_ok (level k') k'" using sched_Finish [OF assms(1,4)] by blast
  obtain th where th: "this_thread k = Some th" "stack th = []" using at_frame_this [OF assms(1)] by blast
  then have e: "k' = set_this (th\<lparr>thread_status := BLOCKED, stack := [SleepLoop True]\<rparr>) (k\<lparr>level := IntOff\<rparr>)"
    using k'(1) by (simp add: Thread_Finish_def Thread_Sleep_def set_status_def enter_def with_thread_def this_thread_def set_this_def)
  have "calm k'" unfolding e
    by (rule calm_this [OF same_calm(1) [OF assms(2)], of _ th]) (use th in \<open>simp_all add: this_thread_def\<close>)
  with k' e assms(3) show ?thesis by (auto intro: kernel_okI)
qed

lemma SleepLoop_switches:
  assumes "kernel_ok k" and "this_thread k = Some th" and "stack th = SleepLoop fin # fs" and "sleeping_ok (level k) k th"
    and "readyList k = n # rl"
  defines "k' \<equiv> dispatch n rl (left fin (th\<lparr>stack := fs\<rparr>) (set_this (th\<lparr>stack := fs\<rparr>) k))"
  shows "Sleep_loop fin (set_this (th\<lparr>stack := fs\<rparr>) k) = Some k'" and "kernel_ok k'"
proof -
  let ?k = "set_this (th\<lparr>stack := fs\<rparr>) k"
  have a: "sched_ok IntOff k" "calm k" "\<not> yieldOnReturn k" "level k = IntOff"
    using assms(1,4) by (auto simp: kernel_ok_def sleeping_ok_def)
  have c: "calm ?k" by (rule calm_this [OF a(2) assms(2)]) simp_all
  have "sleeping_ok IntOff ?k (th\<lparr>stack := SleepLoop fin # fs\<rparr>)"
    using assms(3,4) a(4) by (simp add: sleeping_ok_def)
  moreover have "others_ok ?k" using a(1) assms(2) by (intro others_set_this) (auto simp: sched_ok_def)
  ultimately have "at_sleep fin ?k fs" using a(4) by (simp add: at_sleep_def)
  moreover have "readyList ?k = n # rl" "this_thread ?k = Some (th\<lparr>stack := fs\<rparr>)" using assms(5) by simp_all
  ultimately have s: "Sleep_loop fin ?k = Some k'" "sched_ok IntOff k'"
    using Sleep_dispatches [of fin ?k fs n rl] c unfolding k'_def by (auto simp: calm_def)
  have "calm k'" unfolding k'_def
    by (rule calm_dispatch, rule calm_left [OF c, where th = "th\<lparr>stack := fs\<rparr>"]) simp_all
  with s a show "Sleep_loop fin ?k = Some k'" "kernel_ok k'" by (auto intro!: kernel_okI simp: k'_def)
qed

lemma exec_SleepLoop:
  assumes "kernel_ok k" and "this_thread k = Some th" and "stack th = SleepLoop fin # fs" and "sleeping_ok (level k) k th"
  shows "\<exists>k'. Sleep_loop fin (set_this (th\<lparr>stack := fs\<rparr>) k) = Some k' \<and> kernel_ok k'"
proof (cases "readyList k")
  case Nil
  have a: "sched_ok IntOff k" "calm k" "\<not> yieldOnReturn k" "level k = IntOff"
    using assms(1,4) by (auto simp: kernel_ok_def sleeping_ok_def)
  have "set_this (th\<lparr>stack := SleepLoop fin # fs\<rparr>) k = k"
    using assms(2,3) by (cases k, cases th) (simp add: set_this_def this_thread_def fun_upd_idem)
  then have "Sleep_loop fin (set_this (th\<lparr>stack := fs\<rparr>) k) = Idle k"
    using Nil a(4) assms(2,3) by (simp add: Sleep_loop_def FindNextToRun_def enter_eq)
  with Idle_ok [OF a(1) a(4) a(2)] a(3) show ?thesis by (auto intro!: kernel_okI)
next
  case (Cons n rl)
  from SleepLoop_switches [OF assms Cons] show ?thesis by blast
qed

subsection \<open>The step\<close>

lemma step_eq:
  assumes "this_thread k = Some th" and "stack th = f # fs"
  shows "step k = exec f (set_this (th\<lparr>stack := fs\<rparr>) k)"
  using assms by (simp add: step_def with_thread_def this_thread_def set_this_def)

text \<open>The frame that runs next, and the kernel in which it runs.\<close>

definition misused :: "kernel \<Rightarrow> bool" where
  "misused k = (case this_thread k of None \<Rightarrow> False
     | Some th \<Rightarrow> (case stack th of [] \<Rightarrow> False | f # fs \<Rightarrow> misuse f (set_this (th\<lparr>stack := fs\<rparr>) k)))"

lemma taken:
  assumes "kernel_ok k" and "this_thread k = Some th" and "stack th = f # fs" and "running_ok (level k) k th"
  shows "at_frame (level k) (set_this (th\<lparr>stack := fs\<rparr>) k) fs" and "calm (set_this (th\<lparr>stack := fs\<rparr>) k)"
    and "\<not> yieldOnReturn (set_this (th\<lparr>stack := fs\<rparr>) k)"
proof -
  have a: "others_ok k" "calm k" "\<not> yieldOnReturn k" using assms(1) by (auto simp: kernel_ok_def sched_ok_def)
  show "calm (set_this (th\<lparr>stack := fs\<rparr>) k)" by (rule calm_this [OF a(2) assms(2)]) simp_all
  show "\<not> yieldOnReturn (set_this (th\<lparr>stack := fs\<rparr>) k)" using a(3) by simp
  have "others_ok (set_this (th\<lparr>stack := fs\<rparr>) k)" using a(1) assms(2) by (intro others_set_this) auto
  then show "at_frame (level k) (set_this (th\<lparr>stack := fs\<rparr>) k) fs"
    using assms(4) by (simp add: at_frame_def running_ok_def)
qed

lemma step_ok:
  assumes "kernel_ok k" and "\<not> misused k"
  shows "\<exists>k'. step k = Some k' \<and> kernel_ok k'"
proof -
  obtain th where th: "this_thread k = Some th" "running_ok (level k) k th \<or> sleeping_ok (level k) k th"
    using assms(1) by (auto simp: kernel_ok_def sched_ok_def)
  show ?thesis
  proof (cases "sleeping_ok (level k) k th")
    case True
    then obtain fin fs where "stack th = SleepLoop fin # fs" by (auto simp: sleeping_ok_def asleep_def)
    with exec_SleepLoop [OF assms(1) th(1) _ True] step_eq [OF th(1)] show ?thesis by simp
  next
    case False
    with th(2) have run: "running_ok (level k) k th" by blast
    then obtain f fs where s: "stack th = f # fs"
      by (cases "stack th") (auto simp: running_ok_def can_resume_def resumed_def suspended_def yielded_def unborn_def split: if_splits)
    let ?k = "set_this (th\<lparr>stack := fs\<rparr>) k"
    note t = taken [OF assms(1) th(1) s run]
    have m: "\<not> misuse f ?k" using assms(2) th(1) s by (simp add: misused_def)
    have "\<exists>k'. exec f ?k = Some k' \<and> kernel_ok k'"
    proof (cases "level k")
      case IntOn
      then have c: "calls (f # fs)" "toBeDestroyed ?k = None" using run s by (simp_all add: running_ok_def)
      show ?thesis
      proof (cases "plain f")
        case True
        with c t IntOn have "at_call ?k fs" by (simp add: at_call_def calls_plain)
        from exec_plain [OF this True m] show ?thesis .
      next
        case False
        with c(1) have "f = Finish" "fs = []" by (auto simp: calls_Cons)
        with exec_Finish [of ?k] t c(2) IntOn show ?thesis by simp
      qed
    next
      case IntOff
      with t have o: "off_frame ?k fs" by (simp add: off_frame_def)
      from run IntOff s consider "f = AfterSwitch" "resumed fs" | "f = Begin" "calls fs"
        | "f = Restore IntOn" "calls fs" "toBeDestroyed ?k = None"
        | s' where "f = PLoop s' IntOn" "calls fs" "toBeDestroyed ?k = None"
        by (auto simp: running_ok_def can_resume_def resumed_def suspended_def yielded_def unborn_def)
      then show ?thesis
        using exec_AfterSwitch [OF o] exec_Begin [OF o] exec_Restore [OF o] exec_PLoop [OF o] m by cases auto
    qed
    with step_eq [OF th(1) s] show ?thesis by simp
  qed
qed

lemma kstep_ok: "kernel_ok k \<Longrightarrow> \<not> misused k \<Longrightarrow> kstep k k' \<Longrightarrow> kernel_ok k'"
  using step_ok by (fastforce simp: kstep_iff)

subsection \<open>The start of the kernel\<close>

text \<open>What the host and the loader provide.\<close>

definition boot_ok ::
    "(nat \<Rightarrow> int) \<Rightarrow> (nat \<Rightarrow> int) \<Rightarrow> Machine.machine \<Rightarrow> (nat \<Rightarrow> addr_space option) \<Rightarrow> frame list \<Rightarrow> bool" where
  "boot_ok rnd init m sps body \<longleftrightarrow> list_all public body \<and> (\<forall>i. 0 \<le> rnd i) \<and> (\<forall>n. 0 \<le> init n) \<and>
     regs_fit (registers m) \<and> length (mainMemory m) = 16384 \<and> tlb m = None \<and>
     (\<forall>sp as. sps sp = Some as \<longrightarrow> uint (numPages as) \<le> int (length (as_pageTable as)))"

lemma Kernel_new_ok:
  fixes randomSlice :: bool and kbd :: "nat \<Rightarrow> poll"
  assumes "boot_ok rnd init m sps body"
  defines "k \<equiv> Kernel_new randomSlice rnd kbd init m sps body"
  shows "sched_ok IntOn k" and "pend_ok k" and "mach_ok k"
proof -
  have b: "list_all public body" "\<forall>i. 0 \<le> rnd i" "\<And>n. 0 \<le> init n"
    "\<forall>sp as. sps sp = Some as \<longrightarrow> uint (numPages as) \<le> int (length (as_pageTable as))"
    and m: "regs_fit (registers m)" "length (mainMemory m) = 16384" "tlb m = None"
    using assms(1) by (auto simp: boot_ok_def)
  have sem: "0 \<le> sem_value sm \<and> sem_queue sm = []" if "semaphores k s = Some sm" for s sm
    using that b(3) by (auto simp: k_def Kernel_new_def initial_semaphore_def Semaphore_new_def split: sem_id.splits)
  have "ready_ok k" by (simp add: ready_ok_def k_def Kernel_new_def)
  moreover have "queues_ok k" using sem by (auto simp: queues_ok_def)
  moreover have "threads_ok k" "doomed_ok k" by (simp_all add: threads_ok_def doomed_ok_def k_def Kernel_new_def split: if_splits)
  moreover have "\<not> waits_on k t s" for t s using sem by (auto simp: waits_on_def)
  moreover have "this_thread k = Some ((Thread_new body)\<lparr>thread_status := RUNNING, stack := body @ [Finish]\<rparr>)"
    by (simp add: this_thread_def k_def Kernel_new_def)
  moreover have "readyList k = []" "toBeDestroyed k = None" by (simp_all add: k_def Kernel_new_def)
  ultimately show "sched_ok IntOn k"
    using calls_body [OF b(1)] by (simp add: sched_ok_def others_ok_def running_ok_def)
  show "pend_ok k"
    using b(2) by (simp add: pend_ok_def k_def Kernel_new_def awaits_def sorted_by_def initial_semaphore_def)
  show "mach_ok k"
    using b(4) m by (auto simp: mach_ok_def k_def Kernel_new_def regs_fit_def Thread_new_def NumTotalRegs_def)
qed

lemma Kernel_Initialize_ok:
  assumes "boot_ok rnd init m sps body"
  shows "\<exists>k. Kernel_Initialize randomSlice rnd kbd init m sps body = Some k \<and> kernel_ok k"
proof -
  let ?n = "Kernel_new randomSlice rnd kbd init m sps body"
  note n = Kernel_new_ok [OF assms, of randomSlice kbd]
  let ?d = "if randomSlice then 1 + rnd 0 mod (TimerTicks * 2) else TimerTicks"
  let ?r = "?n\<lparr>rand_count := if randomSlice then 1 else 0\<rparr>"
  have d: "0 < ?d" by (simp add: TimerTicks_def add_pos_nonneg)
  have same: "same_sched ?r ?n" by (simp add: same_sched_def)
  have rp: "pend_ok ?r" using n(2) by (simp add: pend_ok_def awaits_def)
  have init: "pending ?n = []" "incoming ?n = EOF" "\<not> putBusy ?n" "\<not> yieldOnReturn ?n" "\<not> inHandler ?n" "level ?n = IntOff"
    "toBeDestroyed ?n = None" "this_thread ?n = Some ((Thread_new body)\<lparr>thread_status := RUNNING, stack := body @ [Finish]\<rparr>)"
    by (simp_all add: Kernel_new_def this_thread_def)
  have t: "Timer_SetInterrupt ?n = Schedule TimerCallBack ?d TimerInt ?r"
    by (simp add: Timer_SetInterrupt_def RandomNumber_def Kernel_new_def)
  have "\<exists>k'. Schedule TimerCallBack ?d TimerInt ?r = Some k' \<and> after_handler IntOn ?r k' \<and> same_sched k' ?r \<and>
      (\<exists>n ps. k' = ?r\<lparr>next_pending := n, pending := ps\<rparr>)"
    by (rule after_schedule) (use rp n(1) d same_sched_ok [OF same] init in \<open>simp_all add: pend_ok_def awaits_def\<close>)
  then obtain k1 n1 ps1 where k1: "Schedule TimerCallBack ?d TimerInt ?r = Some k1" "after_handler IntOn ?r k1"
    "same_sched k1 ?r" "k1 = ?r\<lparr>next_pending := n1, pending := ps1\<rparr>" by blast
  have p1: "pend_ok k1" "sched_ok IntOn k1" using k1(2) by (simp_all add: after_handler_def)
  have aw: "awaits ConsoleInputCallBack k1 = 0"
    using Schedule_eq [OF d, of ?r TimerCallBack TimerInt] k1(1) init(1) by (auto simp: awaits_def)
  have "\<exists>k'. Schedule ConsoleInputCallBack ConsoleTime ConsoleReadInt k1 = Some k' \<and> after_handler IntOn k1 k' \<and> same_sched k' k1 \<and>
      (\<exists>n ps. k' = k1\<lparr>next_pending := n, pending := ps\<rparr>)"
    by (rule after_schedule) (use p1 aw init k1(4) in \<open>simp_all add: pend_ok_def ConsoleTime_def\<close>)
  then obtain k2 n2 ps2 where k2: "Schedule ConsoleInputCallBack ConsoleTime ConsoleReadInt k1 = Some k2" "after_handler IntOn k1 k2"
    "same_sched k2 k1" "k2 = k1\<lparr>next_pending := n2, pending := ps2\<rparr>" by blast
  let ?k = "k2\<lparr>level := IntOn\<rparr>"
  have k2n: "k2 = ?n\<lparr>rand_count := if randomSlice then 1 else 0, next_pending := n2, pending := ps2\<rparr>"
    unfolding k2(4) k1(4) by simp
  have s2: "same_sched ?k ?n" unfolding k2n by (simp add: same_sched_def)
  have sk: "sched_ok IntOn ?k" using n(1) same_sched_ok [OF s2] by simp
  have "calm ?k"
    using n(3) k2(2) init unfolding calm_def after_handler_def k2n by (simp add: pend_ok_def mach_ok_def awaits_def)
  moreover have "\<not> yieldOnReturn ?k" using init by (simp add: k2n)
  moreover obtain fs where "at_frame IntOn ?k fs" "calls fs" "toBeDestroyed ?k = None"
    using sched_running [OF sk] by auto
  ultimately have "at_call ?k fs" by (simp add: at_call_def)
  from call_enter [OF this, of "[OneTick]"] obtain k where k: "enter [OneTick] ?k = Some k" "kernel_ok k" by auto
  have "SetLevel IntOn k2 = Some (IntOff, k)" using k(1) init unfolding k2n by (simp add: SetLevel_on)
  with k t k1(1) k2(1) show ?thesis by (simp add: Kernel_Initialize_def Let_def)
qed

lemma reachable_ok:
  assumes "reachable k0 k" and "kernel_ok k0" and "\<And>k. reachable k0 k \<Longrightarrow> \<not> misused k"
  shows "kernel_ok k"
  using assms(1) by induction (use assms(2,3) kstep_ok in auto)

end
