(* ===== verification/Kernel_Refine.thy ===== *)
theory Kernel_Refine
  imports Kernel_Step
begin

text \<open>
  The kernel refines the abstract machine of \<open>Monitor\<close>: every step of the kernel is a sequence of
  its steps, most often of none or one. The invariants of locks, waiters, lists and consoles hold for
  the kernel therefore, and the code of the kernel itself never misuses one of its operations: only the calls of
  threads and user programs can.
\<close>

subsection \<open>A call of the running thread\<close>

lemma goto_out [simp]:
  "add_val s d (goto t gs a) = goto t gs (add_val s d a)"
  "(goto t gs a)\<lparr>holders := h\<rparr> = goto t gs (a\<lparr>holders := h\<rparr>)" "(goto t gs a)\<lparr>vals := v\<rparr> = goto t gs (a\<lparr>vals := v\<rparr>)"
  "(goto t gs a)\<lparr>condq := q\<rparr> = goto t gs (a\<lparr>condq := q\<rparr>)" "(goto t gs a)\<lparr>fresh := n\<rparr> = goto t gs (a\<lparr>fresh := n\<rparr>)"
  "(goto t gs a)\<lparr>items := i\<rparr> = goto t gs (a\<lparr>items := i\<rparr>)" "(goto t gs a)\<lparr>busy := b\<rparr> = goto t gs (a\<lparr>busy := b\<rparr>)"
  by (simp_all add: goto_def add_val_def)

definition runs_in :: "kernel \<Rightarrow> frame \<Rightarrow> frame list \<Rightarrow> monitor \<Rightarrow> bool" where
  "runs_in k g fs a \<longleftrightarrow> progs a (currentThread k) = Some (g # prog fs) \<and> monitor_of k = goto (currentThread k) (prog fs) a"

lemma runs_inD:
  assumes "runs_in k g fs a"
  shows "progs a (currentThread k) = Some (g # prog fs)" "monitor_of k = goto (currentThread k) (prog fs) a"
    "holders a = lock_holder k" "condq a = wait_queue k" "fresh a = next_waiter k" "busy a = putBusy k"
    "vals a s = map_option sem_value (semaphores k s)" "items a n = map_option list_items (synch_lists k n)"
proof -
  show r: "progs a (currentThread k) = Some (g # prog fs)" "monitor_of k = goto (currentThread k) (prog fs) a"
    using assms by (simp_all add: runs_in_def)
  show "holders a = lock_holder k" "condq a = wait_queue k" "fresh a = next_waiter k" "busy a = putBusy k"
    "vals a s = map_option sem_value (semaphores k s)" "items a n = map_option list_items (synch_lists k n)"
    using r(2) by (metis goto_simps monitor_of_simps)+
qed

lemma msteps_call:
  assumes "runs_in k g fs a" and "act (currentThread k) g (prog fs) a = Some b"
  shows "mstep\<^sup>*\<^sup>* a b"
  using call [OF runs_inD(1) [OF assms(1)] assms(2)] by blast

lemma enter_monitor:
  assumes "runs_in k g fs a" and "at_frame lv k fs" and "enter gs k2 = Some k'" and "this_thread k2 = this_thread k"
    and "currentThread k2 = currentThread k"
  shows "monitor_of k' = goto (currentThread k) (prog gs @ prog fs) (monitor_of k2)"
proof -
  obtain th where th: "this_thread k = Some th" "stack th = fs" using at_frame_this [OF assms(2)] by blast
  then show ?thesis using monitor_enter [OF assms(3)] assms(4,5) by (simp add: prog_append)
qed

text \<open>Calls that are replaced by other calls.\<close>

lemma expand_monitor:
  assumes "runs_in k g fs a" and "at_frame lv k fs" and "enter gs k = Some k'"
  shows "monitor_of k' = goto (currentThread k) (prog gs @ prog fs) a"
  using enter_monitor [OF assms refl refl] runs_inD(2) [OF assms(1)] by simp

lemma woken_monitor:
  assumes "at_frame lv k fs" and "semaphores k s = Some sm"
  shows "monitor_of (woken s k) = add_val s 1 (monitor_of k)"
proof (rule monitor_woken [OF assms(2)])
  assume "sem_queue sm \<noteq> []"
  then have "hd (sem_queue sm) \<in> set (sem_queue sm)" by simp
  then show "threads k (hd (sem_queue sm)) \<noteq> None"
    using assms queued_thread [of k s sm] at_frame_this [OF assms(1)]
    by (cases "hd (sem_queue sm) = currentThread k") (auto simp: at_frame_def others_ok_def this_thread_def)
qed

lemma V_monitor:
  assumes "at_frame IntOn k fs" and "semaphores k s = Some sm" and "\<not> inHandler k" and "Semaphore_V s k = Some k'"
    and "monitor_of k = goto (currentThread k) (prog fs) a"
  shows "monitor_of k' = goto (currentThread k) (prog fs) (add_val s 1 a)"
proof -
  obtain th where th: "this_thread k = Some th" "stack th = fs" using at_frame_this [OF assms(1)] by blast
  have "enter [OneTick] (woken s k) = Some k'" using V_on [OF assms(1-3)] assms(4) by simp
  moreover have "this_thread (woken s k) = Some th" using at_frame_woken(2) [OF assms(1,2)] th(1) by simp
  ultimately show ?thesis
    using monitor_enter [of "[OneTick]" "woken s k" k' th] woken_monitor [OF assms(1,2)] th(2) assms(5) by simp
qed

lemma P_monitor:
  assumes "at_frame IntOff k fs" and "semaphores k s = Some sm" and "calm k" and "queues_ok k" and "P_loop s IntOn k = Some k'"
    and "runs_in k (SemP s) fs a"
  shows "mstep\<^sup>*\<^sup>* a (monitor_of k')"
proof -
  obtain th where th: "this_thread k = Some th" "stack th = fs" using at_frame_this [OF assms(1)] by blast
  have h: "\<not> inHandler k" using assms(3) by (simp add: calm_def)
  note r = runs_inD [OF assms(6)]
  have m: "monitor_of (with_sem s sm' k) = (monitor_of k)\<lparr>vals := (vals (monitor_of k))(s \<mapsto> sem_value sm')\<rparr>" for sm'
    by (simp add: with_sem_def monitor_semaphores)
  show ?thesis
  proof (cases "sem_value sm = 0")
    case True
    have "vals (monitor_of k) s = Some (sem_value sm)" using assms(2) by simp
    then have "(vals (monitor_of k))(s \<mapsto> sem_value sm) = vals (monitor_of k)" by (rule fun_upd_idem)
    then have "monitor_of (with_sem s (sm\<lparr>sem_queue := q\<rparr>) k) = monitor_of k" for q
      using m by simp
    then have "monitor_of k' = goto (currentThread k) (SemP s # prog fs) a"
      using P_blocks [OF assms(1,2) True th(1), of IntOn] assms(5) r(2) by (auto simp: monitor_set_this with_sem_def)
    then show ?thesis using goto_same [OF r(1)] by simp
  next
    case False
    moreover have "0 \<le> sem_value sm" using assms(2,4) by (simp add: queues_ok_def)
    ultimately have pos: "0 < sem_value sm" by simp
    have "monitor_of k' = goto (currentThread k) (prog fs) (add_val s (- 1) a)"
      using P_proceeds [OF assms(1,2) False th(1) h] assms(5) m [of "sm\<lparr>sem_value := sem_value sm - 1\<rparr>"] r(2,7) assms(2)
      by (auto simp: monitor_set_this with_sem_def add_val_def)
    moreover have "act (currentThread k) (SemP s) (prog fs) a = Some (goto (currentThread k) (prog fs) (add_val s (- 1) a))"
      using r(7) assms(2) pos by simp
    ultimately show ?thesis using msteps_call [OF assms(6)] by simp
  qed
qed

lemma at_call_parts:
  assumes "at_call k fs"
  shows "at_frame IntOn k fs" "calm k" "\<not> inHandler k" "level k = IntOn" "queues_ok k" "threads_ok k"
  using at_callD [OF assms] by (auto simp: at_frame_def others_ok_def)

lemma SemP_refines:
  assumes "at_call k fs" and "runs_in k (SemP s) fs a" and "semaphores k s \<noteq> None" and "Semaphore_P s k = Some k'"
  shows "mstep\<^sup>*\<^sup>* a (monitor_of k')"
proof -
  note p = at_call_parts [OF assms(1)]
  let ?k = "k\<lparr>level := IntOff\<rparr>"
  obtain sm where sm: "semaphores k s = Some sm" using assms(3) by blast
  have "at_frame IntOff ?k fs" by (rule same_at_frame [OF _ p(1)]) simp_all
  moreover have "P_loop s IntOn ?k = Some k'" using assms(4) p(4) by (simp add: Semaphore_P_def)
  moreover have "queues_ok ?k" using p(5) by (simp add: queues_ok_def)
  moreover have "runs_in ?k (SemP s) fs a" using assms(2) by (simp add: runs_in_def)
  ultimately show ?thesis using P_monitor [of ?k fs s sm k' a] sm same_calm(1) [OF p(2)] by simp
qed

lemma V_refines:
  assumes "at_call k fs" and "runs_in k (SemV s) fs a" and "semaphores k s \<noteq> None" and "Semaphore_V s k = Some k'"
  shows "mstep\<^sup>*\<^sup>* a (monitor_of k')"
proof -
  note p = at_call_parts [OF assms(1)] and r = runs_inD [OF assms(2)]
  obtain sm where sm: "semaphores k s = Some sm" using assms(3) by blast
  have "monitor_of k' = goto (currentThread k) (prog fs) (add_val s 1 a)"
    by (rule V_monitor [OF p(1) sm p(3) assms(4) r(2)])
  then show ?thesis using msteps_call [OF assms(2)] r(7) sm by simp
qed

lemma Release_refines:
  assumes "at_call k fs" and "runs_in k (Release l) fs a" and "\<not> misuse (Release l) k" and "Lock_Release l k = Some k'"
  shows "mstep\<^sup>*\<^sup>* a (monitor_of k')"
proof -
  note p = at_call_parts [OF assms(1)] and r = runs_inD [OF assms(2)]
  let ?k = "k\<lparr>lock_holder := (lock_holder k)(l := None)\<rparr>"
  let ?b = "a\<lparr>holders := (lock_holder k)(l := None)\<rparr>"
  obtain sm where sm: "semaphores ?k (LockSem l) = Some sm" using assms(3) by auto
  have f: "at_frame IntOn ?k fs" by (rule same_at_frame [OF _ p(1)]) (simp_all add: p(4))
  have h: "lock_holder k l = Some (currentThread k)" using assms(3) by simp
  have v: "Semaphore_V (LockSem l) ?k = Some k'" using assms(4) h by (simp add: Lock_Release_def IsHeldByCurrentThread_def)
  have "monitor_of ?k = goto (currentThread ?k) (prog fs) ?b" using r(2) by simp
  from V_monitor [OF f sm _ v this] p(3)
  have "monitor_of k' = goto (currentThread k) (prog fs) (add_val (LockSem l) 1 ?b)" by simp
  then show ?thesis using msteps_call [OF assms(2)] r(3) h by simp
qed

lemma Signal_refines:
  assumes "at_call k fs" and "runs_in k (Signal c l) fs a" and "\<not> misuse (Signal c l) k" and "Condition_Signal c l k = Some k'"
  shows "mstep\<^sup>*\<^sup>* a (monitor_of k')"
proof -
  note p = at_call_parts [OF assms(1)] and r = runs_inD [OF assms(2)]
  have h: "lock_holder k l = Some (currentThread k)" using assms(3) by simp
  show ?thesis
  proof (cases "wait_queue k c")
    case Nil
    then have "k' = k" using assms(4) h by (simp add: Condition_Signal_def IsHeldByCurrentThread_def)
    then show ?thesis using msteps_call [OF assms(2)] r(2-4) h Nil by simp
  next
    case (Cons w q)
    let ?k = "k\<lparr>wait_queue := (wait_queue k)(c := q)\<rparr>"
    let ?b = "a\<lparr>condq := (wait_queue k)(c := q)\<rparr>"
    obtain sm where sm: "semaphores ?k (Waiter w) = Some sm" using assms(3) Cons by auto
    have f: "at_frame IntOn ?k fs" by (rule same_at_frame [OF _ p(1)]) (simp_all add: p(4))
    have v: "Semaphore_V (Waiter w) ?k = Some k'"
      using assms(4) h Cons by (simp add: Condition_Signal_def IsHeldByCurrentThread_def)
    have "monitor_of ?k = goto (currentThread ?k) (prog fs) ?b" using r(2) by simp
    from V_monitor [OF f sm _ v this] p(3)
    have "monitor_of k' = goto (currentThread k) (prog fs) (add_val (Waiter w) 1 ?b)" by simp
    then show ?thesis using msteps_call [OF assms(2)] r(3,4) h Cons by simp
  qed
qed

lemma Wait_refines:
  assumes "at_call k fs" and "runs_in k (Wait c l) fs a" and "\<not> misuse (Wait c l) k" and "Condition_Wait c l k = Some k'"
  shows "mstep\<^sup>*\<^sup>* a (monitor_of k')"
proof -
  note p = at_call_parts [OF assms(1)] and r = runs_inD [OF assms(2)]
  let ?w = "next_waiter k"
  let ?k = "k\<lparr>semaphores := (semaphores k)(Waiter ?w \<mapsto> Semaphore_new 0), next_waiter := Suc ?w,
    wait_queue := (wait_queue k)(c := wait_queue k c @ [?w])\<rparr>"
  let ?gs = "[Release l, SemP (Waiter ?w), Acquire l, DeleteWaiter ?w]"
  have h: "lock_holder k l = Some (currentThread k)" using assms(3) by simp
  have "enter ?gs ?k = Some k'"
    using assms(3,4) by (simp add: Condition_Wait_def IsHeldByCurrentThread_def seq_Append_def Let_def)
  from enter_monitor [OF assms(2) p(1) this]
  have m: "monitor_of k' = goto (currentThread k) (?gs @ prog fs) (monitor_of ?k)" by (simp add: this_thread_def)
  have va: "vals a = (\<lambda>s. map_option sem_value (semaphores k s))" using r(7) by (simp add: fun_eq_iff)
  have "monitor_of ?k = goto (currentThread k) (prog fs)
      (a\<lparr>vals := (vals a)(Waiter ?w \<mapsto> 0), fresh := Suc ?w, condq := (wait_queue k)(c := wait_queue k c @ [?w])\<rparr>)"
    using r(2) va by (simp add: monitor_semaphores Semaphore_new_def)
  with m have "monitor_of k' = goto (currentThread k) (?gs @ prog fs)
      (a\<lparr>vals := (vals a)(Waiter ?w \<mapsto> 0), fresh := Suc ?w, condq := (wait_queue k)(c := wait_queue k c @ [?w])\<rparr>)" by simp
  then show ?thesis using msteps_call [OF assms(2)] r(3-5) h by (simp add: Let_def)
qed

lemma expand_refines:
  assumes "at_call k fs" and "runs_in k f fs a" and "enter gs k = Some k'"
    and "act (currentThread k) f (prog fs) a = Some (goto (currentThread k) (prog gs @ prog fs) a)"
  shows "mstep\<^sup>*\<^sup>* a (monitor_of k')"
  using expand_monitor [OF assms(2) at_call_parts(1) [OF assms(1)] assms(3)] msteps_call [OF assms(2,4)] by simp

lemma lists_refine:
  assumes "at_call k fs"
  shows "runs_in k (AppendItem n x) fs a \<Longrightarrow> append_item n x k = Some k' \<Longrightarrow> mstep\<^sup>*\<^sup>* a (monitor_of k')"
    and "runs_in k (RemoveLoop n) fs a \<Longrightarrow> remove_loop n k = Some k' \<Longrightarrow> mstep\<^sup>*\<^sup>* a (monitor_of k')"
    and "runs_in k (RemoveItem n) fs a \<Longrightarrow> remove_item n k = Some k' \<Longrightarrow> mstep\<^sup>*\<^sup>* a (monitor_of k')"
proof -
  note p = at_call_parts [OF assms]
  have ia: "items a = (\<lambda>n. map_option list_items (synch_lists k n))" if "runs_in k f fs a" for f
    using runs_inD(8) [OF that] by (simp add: fun_eq_iff)
  show "mstep\<^sup>*\<^sup>* a (monitor_of k')" if r: "runs_in k (AppendItem n x) fs a" and e: "append_item n x k = Some k'"
  proof -
    obtain sl where sl: "synch_lists k n = Some sl" "k' = k\<lparr>synch_lists := (synch_lists k)(n \<mapsto> sl\<lparr>list_items := list_items sl @ [x]\<rparr>)\<rparr>"
      using e by (auto simp: append_item_def seq_Append_def bind_Some_conv split: if_split_asm)
    then have "monitor_of k' = goto (currentThread k) (prog fs) (a\<lparr>items := (items a)(n \<mapsto> list_items sl @ [x])\<rparr>)"
      using runs_inD(2) [OF r] ia [OF r] by (simp add: monitor_lists)
    then show ?thesis using msteps_call [OF r] runs_inD(8) [OF r] sl(1) by simp
  qed
  show "mstep\<^sup>*\<^sup>* a (monitor_of k')" if r: "runs_in k (RemoveLoop n) fs a" and e: "remove_loop n k = Some k'"
  proof -
    obtain sl where sl: "synch_lists k n = Some sl" using e by (auto simp: remove_loop_def bind_Some_conv)
    show ?thesis
    proof (cases "list_items sl = []")
      case True
      then have "enter [Wait (ListCond n) (ListLock n), RemoveLoop n] k = Some k'" using e sl by (simp add: remove_loop_def)
      from expand_refines [OF assms r this] show ?thesis using runs_inD(8) [OF r] sl True by simp
    next
      case False
      then have "k' = k" using e sl by (simp add: remove_loop_def)
      then show ?thesis using msteps_call [OF r] runs_inD(2,8) [OF r] sl False by simp
    qed
  qed
  show "mstep\<^sup>*\<^sup>* a (monitor_of k')" if r: "runs_in k (RemoveItem n) fs a" and e: "remove_item n k = Some k'"
  proof -
    obtain sl v vs where sl: "synch_lists k n = Some sl" "list_items sl = v # vs"
      "give v (k\<lparr>synch_lists := (synch_lists k)(n \<mapsto> sl\<lparr>list_items := vs\<rparr>)\<rparr>) = Some k'"
      using e by (cases "synch_lists k n"; cases "list_items (the (synch_lists k n))") (auto simp: remove_item_def)
    obtain th where th: "this_thread k = Some th" "stack th = fs" using at_frame_this [OF p(1)] by blast
    then have "k' = set_this (th\<lparr>returned := returned th @ [v]\<rparr>) (k\<lparr>synch_lists := (synch_lists k)(n \<mapsto> sl\<lparr>list_items := vs\<rparr>)\<rparr>)"
      using sl(3) by (simp add: give_def with_thread_def this_thread_def set_this_def)
    then have "monitor_of k' = goto (currentThread k) (prog fs) (a\<lparr>items := (items a)(n \<mapsto> vs)\<rparr>)"
      using th runs_inD(2) [OF r] ia [OF r] by (simp add: monitor_set_this monitor_lists)
    then show ?thesis using msteps_call [OF r] runs_inD(8) [OF r] sl by simp
  qed
qed

lemma devices_refine:
  assumes "at_call k fs"
  shows "runs_in k (DevicePutChar ch) fs a \<Longrightarrow> ConsoleOutput_PutChar ch k = Some k' \<Longrightarrow> mstep\<^sup>*\<^sup>* a (monitor_of k')"
    and "runs_in k DeviceGetChar fs a \<Longrightarrow> ConsoleInput_GetChar k = Some k' \<Longrightarrow> mstep\<^sup>*\<^sup>* a (monitor_of k')"
proof -
  note p = at_call_parts [OF assms]
  have sched: "monitor_of k2 = monitor_of k1" if "Schedule c d ty k1 = Some k2" for c d ty k1 k2
    using that by (auto simp: Schedule_def Let_def bind_Some_conv)
  show "mstep\<^sup>*\<^sup>* a (monitor_of k')" if r: "runs_in k (DevicePutChar ch) fs a" and e: "ConsoleOutput_PutChar ch k = Some k'"
  proof -
    have b: "\<not> putBusy k" "Schedule ConsoleOutputCallBack ConsoleTime ConsoleWriteInt (k\<lparr>screen := screen k @ [ch], putBusy := True\<rparr>) = Some k'"
      using e by (cases "putBusy k"; simp add: ConsoleOutput_PutChar_def)+
    then have "monitor_of k' = goto (currentThread k) (prog fs) (a\<lparr>busy := True\<rparr>)"
      using sched [OF b(2)] runs_inD(2) [OF r] by simp
    then show ?thesis using msteps_call [OF r] runs_inD(6) [OF r] b(1) by simp
  qed
  show "mstep\<^sup>*\<^sup>* a (monitor_of k')" if r: "runs_in k DeviceGetChar fs a" and e: "ConsoleInput_GetChar k = Some k'"
  proof -
    obtain k1 where k1: "k1 = k \<or> Schedule ConsoleInputCallBack ConsoleTime ConsoleReadInt k = Some k1"
      "give (incoming k) (k1\<lparr>incoming := EOF\<rparr>) = Some k'"
      using e by (auto simp: ConsoleInput_GetChar_def bind_Some_conv Let_def split: if_split_asm)
    have c: "currentThread k1 = currentThread k" "threads k1 = threads k"
      using k1(1) by (auto simp: Schedule_def Let_def bind_Some_conv)
    obtain th where th: "this_thread k = Some th" "stack th = fs" using at_frame_this [OF p(1)] by blast
    have "monitor_of k1 = monitor_of k" using k1(1) sched by blast
    moreover have "k' = set_this (th\<lparr>returned := returned th @ [incoming k]\<rparr>) (k1\<lparr>incoming := EOF\<rparr>)"
      using k1(2) c th by (simp add: give_def with_thread_def this_thread_def set_this_def)
    ultimately have "monitor_of k' = goto (currentThread k) (prog fs) a"
      using c th runs_inD(2) [OF r] by (simp add: monitor_set_this)
    then show ?thesis using msteps_call [OF r] by simp
  qed
qed

lemma Fork_refines:
  assumes "at_call k fs" and "runs_in k (Fork body) fs a" and "list_all public body" and "Thread_Fork body k = Some k'"
  shows "mstep\<^sup>*\<^sup>* a (monitor_of k')"
proof -
  note p = at_call_parts [OF assms(1)] and r = runs_inD [OF assms(2)]
  let ?t = "next_thread k"
  obtain th where th: "this_thread k = Some th" "stack th = fs" using at_frame_this [OF p(1)] by blast
  have new: "threads k ?t = None" using p(6) by (cases "threads k ?t") (auto simp: threads_ok_def)
  then have d: "?t \<noteq> currentThread k" using th(1) by (auto simp: this_thread_def)
  let ?k = "k\<lparr>next_thread := Suc ?t, threads := (threads k)(?t \<mapsto> (Thread_new body)\<lparr>thread_status := READY\<rparr>),
    readyList := readyList k @ [?t]\<rparr>"
  have e: "enter [OneTick] ?k = Some k'"
    using assms(4) p(3,4)
    by (auto simp: Thread_Fork_def ReadyToRun_def set_status_def with_thread_def seq_Append_def SetLevel_def Let_def level_same
        bind_Some_conv split: if_split_asm)
  have "prog (Begin # body @ [Finish]) = prog body" by (simp add: prog_append)
  then have "monitor_of ?k = goto ?t (prog body) (monitor_of k)"
    by (simp add: monitor_of_def goto_def fun_eq_iff Thread_new_def)
  moreover have "this_thread ?k = this_thread k" using d by (simp add: this_thread_def)
  ultimately have "monitor_of k' = goto ?t (prog body) (goto (currentThread k) (prog fs) a)"
    using enter_monitor [OF assms(2) p(1) e] r(2) d by (simp add: goto_def fun_upd_twist)
  moreover have "progs a ?t = None"
    using new d r(2) by (metis fun_upd_apply goto_simps(1) monitor_of_simps(1) option.map_disc_iff)
  ultimately show ?thesis using fork [OF r(1) assms(3), of ?t] by auto
qed

lemma user_refines:
  assumes "at_call k fs"
  shows "runs_in k UserLoop fs a \<Longrightarrow> user_round k = Some k' \<Longrightarrow> mstep\<^sup>*\<^sup>* a (monitor_of k')"
    and "runs_in k (Execute sp) fs a \<Longrightarrow> AddrSpace_Execute sp k = Some k' \<Longrightarrow> mstep\<^sup>*\<^sup>* a (monitor_of k')"
proof -
  note p = at_call_parts [OF assms]
  obtain th where th: "this_thread k = Some th" "stack th = fs" using at_frame_this [OF p(1)] by blast
  have ex: "monitor_of k2 = monitor_of k1 \<and> threads k2 = threads k1 \<and> currentThread k2 = currentThread k1"
    if "ExceptionHandler e k1 = Some k2" for e k1 k2
    using that by (auto simp: ExceptionHandler_def Interrupt_Halt_def bind_Some_conv split: if_split_asm)
  have st: "monitor_of (store_table m k) = monitor_of k" "threads (store_table m k) = threads k"
    "currentThread (store_table m k) = currentThread k" for m
    by (simp_all add: store_table_def split: option.split)
  show "mstep\<^sup>*\<^sup>* a (monitor_of k')" if r: "runs_in k UserLoop fs a" and e: "user_round k = Some k'"
  proof -
    obtain m m' where m: "load_table k = Some m" "OneInstruction m = Some m'"
      using e by (auto simp: user_round_def bind_Some_conv)
    let ?s = "store_table m' k"
    obtain k1 where k1: "monitor_of k1 = monitor_of k" "threads k1 = threads k" "currentThread k1 = currentThread k"
      "enter [OneTick, UserLoop] k1 = Some k'"
    proof (cases "trap m'")
      case None
      then have "enter [OneTick, UserLoop] ?s = Some k'" using e m by (simp add: user_round_def)
      with that st show thesis by blast
    next
      case (Some w)
      then obtain k2 where k2: "ExceptionHandler w (?s\<lparr>mstatus := SystemMode\<rparr>) = Some k2"
        "enter [OneTick, UserLoop] (k2\<lparr>mstatus := UserMode\<rparr>) = Some k'"
        using e m by (auto simp: user_round_def bind_Some_conv)
      with that [of "k2\<lparr>mstatus := UserMode\<rparr>"] ex [OF k2(1)] st show thesis by simp
    qed
    then have "monitor_of k' = goto (currentThread k) (UserLoop # prog fs) a"
      using enter_monitor [OF r p(1) k1(4)] runs_inD(2) [OF r] by (simp add: this_thread_def)
    then show ?thesis using msteps_call [OF r] by simp
  qed
  show "mstep\<^sup>*\<^sup>* a (monitor_of k')" if r: "runs_in k (Execute sp) fs a" and e: "AddrSpace_Execute sp k = Some k'"
  proof -
    obtain as m where m: "enter [UserLoop] (set_this (th\<lparr>space := Some sp\<rparr>) k\<lparr>table_of := Some sp,
        machine := m, mstatus := UserMode\<rparr>) = Some k'"
      using e th(1)
      by (auto simp: AddrSpace_Execute_def RestoreState_def bind_Some_conv with_thread_def this_thread_def set_this_def)
    have "monitor_of k' = goto (currentThread k) (UserLoop # prog fs) a"
      using monitor_enter [OF m, of "th\<lparr>space := Some sp\<rparr>"] th runs_inD(2) [OF r]
      by (simp add: this_thread_def monitor_set_this)
    then show ?thesis using msteps_call [OF r] by simp
  qed
qed

lemma plain_refines:
  assumes "at_call k fs" and "plain f" and "effect f = Some f" and "runs_in k f fs a" and "\<not> misuse f k" and "exec f k = Some k'"
  shows "mstep\<^sup>*\<^sup>* a (monitor_of k')"
proof -
  note c = msteps_call [OF assms(4)] and x = expand_refines [OF assms(1,4)] and r = runs_inD [OF assms(4)]
  show ?thesis
  proof (cases f)
    case (Acquire l)
    then show ?thesis using x [of "[SemP (LockSem l), SetHolder l]"] assms(6) by (simp add: Lock_Acquire_def)
  next
    case (SetHolder l)
    then have "monitor_of k' = goto (currentThread k) (prog fs) (a\<lparr>holders := (holders a)(l \<mapsto> currentThread k)\<rparr>)"
      using assms(6) r(2,3) by (auto simp: Lock_set_holder_def)
    then show ?thesis using c SetHolder by simp
  next
    case (Broadcast cd l)
    then show ?thesis
      using x [of "[Signal cd l, Broadcast cd l]"] c assms(6) r(2,4)
      by (cases "wait_queue k cd = []") (simp_all add: Condition_Broadcast_def)
  next
    case (ListAppend n x')
    then show ?thesis
      using x [of "[Acquire (ListLock n), AppendItem n x', Signal (ListCond n) (ListLock n), Release (ListLock n)]"] assms(6)
      by (simp add: SynchList_Append_def)
  next
    case (ListRemoveFront n)
    then show ?thesis
      using x [of "[Acquire (ListLock n), RemoveLoop n, RemoveItem n, Release (ListLock n)]"] assms(6)
      by (simp add: SynchList_RemoveFront_def)
  next
    case (PutChar ch)
    then show ?thesis
      using x [of "[Acquire ConsoleOutLock, DevicePutChar ch, SemP ConsoleOutSem, Release ConsoleOutLock]"] assms(6)
      by (simp add: SynchConsole_PutChar_def)
  next
    case GetChar
    then show ?thesis
      using x [of "[Acquire ConsoleInLock, SemP ConsoleInSem, DeviceGetChar, Release ConsoleInLock]"] assms(6)
      by (simp add: SynchConsole_GetChar_def)
  next
    case Halt
    then show ?thesis using c assms(6) r(2) by (auto simp: Interrupt_Halt_def)
  next
    case (DeleteWaiter w)
    then obtain sm where "k' = k\<lparr>semaphores := (semaphores k)(Waiter w := None)\<rparr>"
      using assms(6) by (auto simp: delete_waiter_def bind_Some_conv)
    moreover have "vals a = (\<lambda>s. map_option sem_value (semaphores k s))" using r(7) by (simp add: fun_eq_iff)
    ultimately have "monitor_of k' = goto (currentThread k) (prog fs) (a\<lparr>vals := (vals a)(Waiter w := None)\<rparr>)"
      using r(2) by (simp add: monitor_semaphores)
    then show ?thesis using c DeleteWaiter by simp
  next
    case (SemP s)
    then show ?thesis using SemP_refines [OF assms(1), of s a k'] assms(4-6) by simp
  next
    case (SemV s)
    then show ?thesis using V_refines [OF assms(1), of s a k'] assms(4-6) by simp
  next
    case (Fork body)
    then show ?thesis using Fork_refines [OF assms(1), of body a k'] assms(2,4,6) by simp
  qed (use assms(3-6) Release_refines [OF assms(1)] Signal_refines [OF assms(1)] Wait_refines [OF assms(1)]
      lists_refine [OF assms(1)] devices_refine [OF assms(1)] user_refines [OF assms(1)] in auto)
qed

subsection \<open>Ticks and switches\<close>

lemma monitor_cleaned:
  assumes "others_ok k"
  shows "mstep\<^sup>*\<^sup>* (monitor_of k) (monitor_of (cleaned k))"
proof (cases "toBeDestroyed k")
  case (Some t)
  then obtain th where th: "threads k t = Some th" "stack th = [AfterSwitch]" using assms by (auto simp: others_ok_def doomed_ok_def)
  have "monitor_of (cleaned k) = (monitor_of k)\<lparr>progs := (progs (monitor_of k))(t := None)\<rparr>"
    using Some by (simp add: cleaned_def monitor_of_def fun_eq_iff)
  moreover have "progs (monitor_of k) t = Some []" using th by simp
  ultimately show ?thesis using gone [of "monitor_of k" t] by auto
qed (simp add: cleaned_def)

lemma monitor_left:
  assumes "this_thread k = Some th" and "prog (stack th') = prog (stack th)"
  shows "monitor_of (left fin th' k) = monitor_of k"
proof -
  have "monitor_of (left fin th' k) = goto (currentThread k) (prog (stack th)) (monitor_of k)"
    using assms(2) by (simp add: left_def monitor_set_this)
  also have "\<dots> = monitor_of k" using assms(1) by (intro goto_same) (simp add: this_thread_def)
  finally show ?thesis .
qed

lemma monitor_dispatch: "monitor_of (dispatch n rl k) = monitor_of k"
  by (simp add: dispatch_def monitor_of_def fun_eq_iff option.map_comp comp_def)

lemma enter_silent:
  assumes "enter gs k = Some k'" and "this_thread k = Some th" and "prog gs = []"
  shows "monitor_of k' = monitor_of k"
proof -
  have "monitor_of k' = goto (currentThread k) (prog (stack th)) (monitor_of k)"
    using monitor_enter [OF assms(1,2)] assms(3) by (simp add: prog_append)
  also have "\<dots> = monitor_of k" using assms(2) by (intro goto_same) (simp add: this_thread_def)
  finally show ?thesis .
qed

lemma Yield_refines:
  assumes "at_call k fs" and "Thread_Yield k = Some k'"
  shows "monitor_of k' = monitor_of k"
proof -
  note a = at_callD [OF assms(1)]
  obtain th where th: "this_thread k = Some th" "stack th = fs" using at_frame_this [OF a(1)] by blast
  show ?thesis
  proof (cases "readyList k")
    case Nil
    with Yield_alone [OF a(1) Nil a(6)] assms(2) enter_silent [of "[OneTick]" k k' th] th show ?thesis by simp
  next
    case (Cons n rl)
    have "monitor_of (left False (th\<lparr>thread_status := READY, stack := Restore IntOn # fs\<rparr>) (k\<lparr>level := IntOff\<rparr>)) =
        monitor_of (k\<lparr>level := IntOff\<rparr>)"
      by (rule monitor_left [where th = th]) (use th in \<open>simp_all add: this_thread_def\<close>)
    with Yield_switches(1) [OF a(1) Cons a(9) th(1) a(2,3)] assms(2) monitor_dispatch show ?thesis by simp
  qed
qed

lemma OneTick_refines:
  assumes "at_call k fs" and "OneTick_run k = Some k'"
  shows "mstep\<^sup>*\<^sup>* (monitor_of k) (monitor_of k')"
proof -
  note a = at_callD [OF assms(1)]
  obtain k1 where k1: "irq k k1" "sched_ok IntOn k1" "k' = k1 \<or> enter [Yield, EndTick (mstatus k)] k1 = Some k'"
    using OneTick_ok [OF a(1-4)] assms(2) by auto
  then have "mstep\<^sup>*\<^sup>* (monitor_of k) (monitor_of k1)" by (simp add: irq_def)
  moreover have "monitor_of k' = monitor_of k1"
    using k1(2,3) enter_silent [of "[Yield, EndTick (mstatus k)]" k1 k'] by (auto simp: sched_ok_def)
  ultimately show ?thesis by simp
qed

lemma off_refines:
  assumes "off_frame k fs"
  shows "exec (Restore IntOn) k = Some k' \<Longrightarrow> monitor_of k' = monitor_of k"
    and "Thread_Begin k = Some k' \<Longrightarrow> mstep\<^sup>*\<^sup>* (monitor_of k) (monitor_of k')"
    and "resumed fs \<Longrightarrow> Run_after_switch k = Some k' \<Longrightarrow> mstep\<^sup>*\<^sup>* (monitor_of k) (monitor_of k')"
proof -
  have a: "at_frame IntOff k fs" "mach_ok k" "\<not> inHandler k" "level k = IntOff" "others_ok k"
    using assms by (auto simp: off_frame_def calm_def at_frame_def)
  obtain th where th: "this_thread k = Some th" "stack th = fs" using at_frame_this [OF a(1)] by blast
  note c = at_frame_cleaned [OF a(1)]
  show "monitor_of k' = monitor_of k" if e: "exec (Restore IntOn) k = Some k'"
  proof -
    have "enter [OneTick] (k\<lparr>level := IntOn\<rparr>) = Some k'"
      using e a(3,4) by (cases "enter [OneTick] (k\<lparr>level := IntOn\<rparr>)") (simp_all add: SetLevel_on)
    from enter_silent [OF this, of th] th(1) show ?thesis by (simp add: this_thread_def)
  qed
  show "mstep\<^sup>*\<^sup>* (monitor_of k) (monitor_of k')" if e: "Thread_Begin k = Some k'"
  proof -
    have "enter [OneTick] (cleaned k\<lparr>level := IntOn\<rparr>) = Some k'"
      using e a(3,4) c(1) by (cases "enter [OneTick] (cleaned k\<lparr>level := IntOn\<rparr>)") (simp_all add: Thread_Begin_def SetLevel_on)
    from enter_silent [OF this, of th] th(1) c(3) have "monitor_of k' = monitor_of (cleaned k)" by (simp add: this_thread_def)
    with monitor_cleaned [OF a(5)] show ?thesis by simp
  qed
  show "mstep\<^sup>*\<^sup>* (monitor_of k) (monitor_of k')" if "resumed fs" and e: "Run_after_switch k = Some k'"
  proof -
    have "monitor_of k' = monitor_of (cleaned k)"
      using sched_AfterSwitch(1) [OF a(1) that(1) a(2) th(1)] e by (auto split: option.splits)
    with monitor_cleaned [OF a(5)] show ?thesis by simp
  qed
qed

lemma SleepLoop_refines:
  assumes "kernel_ok k" and "this_thread k = Some th" and "stack th = SleepLoop fin # fs" and "sleeping_ok (level k) k th"
    and "Sleep_loop fin (set_this (th\<lparr>stack := fs\<rparr>) k) = Some k'"
  shows "mstep\<^sup>*\<^sup>* (monitor_of k) (monitor_of k')"
proof -
  let ?k = "set_this (th\<lparr>stack := fs\<rparr>) k"
  have a: "sched_ok IntOff k" "calm k" "level k = IntOff"
    using assms(1,4) by (auto simp: kernel_ok_def sleeping_ok_def)
  show ?thesis
  proof (cases "readyList k")
    case Nil
    have "set_this (th\<lparr>stack := SleepLoop fin # fs\<rparr>) k = k"
      using assms(2,3) by (cases k, cases th) (simp add: set_this_def this_thread_def fun_upd_idem)
    then have "Sleep_loop fin ?k = Idle k"
      using Nil a(3) assms(2,3) by (simp add: Sleep_loop_def FindNextToRun_def enter_eq)
    with Idle_ok [OF a(1) a(3) a(2)] assms(5) show ?thesis by (auto simp: irq_def)
  next
    case (Cons n rl)
    have c: "calm ?k" by (rule calm_this [OF a(2) assms(2)]) simp_all
    have "sleeping_ok IntOff ?k (th\<lparr>stack := SleepLoop fin # fs\<rparr>)"
      using assms(3,4) a(3) by (simp add: sleeping_ok_def)
    moreover have "others_ok ?k" using a(1) assms(2) by (intro others_set_this) (auto simp: sched_ok_def)
    ultimately have "at_sleep fin ?k fs" using a(3) by (simp add: at_sleep_def)
    moreover have "readyList ?k = n # rl" "this_thread ?k = Some (th\<lparr>stack := fs\<rparr>)" using Cons by simp_all
    ultimately have "k' = dispatch n rl (left fin (th\<lparr>stack := fs\<rparr>) ?k)"
      using Sleep_dispatches(1) [of fin ?k fs n rl] c assms(5) by (auto simp: calm_def)
    moreover have "monitor_of (left fin (th\<lparr>stack := fs\<rparr>) ?k) = monitor_of ?k"
      by (rule monitor_left [where th = "th\<lparr>stack := fs\<rparr>"]) simp_all
    moreover have "monitor_of ?k = monitor_of k"
      using assms(2,3) goto_same [of "monitor_of k" "currentThread k" "prog fs"]
      by (simp add: monitor_set_this this_thread_def)
    ultimately show ?thesis by (simp add: monitor_dispatch)
  qed
qed

subsection \<open>Every step is a step of the abstract machine\<close>

lemma plain_effect: "plain f \<Longrightarrow> effect f = Some f \<or> (effect f = None \<and> (f = OneTick \<or> f = Yield \<or> (\<exists>st. f = EndTick st)))"
  by (cases f) auto

lemma step_refines:
  assumes "kernel_ok k" and "\<not> misused k" and "step k = Some k'"
  shows "mstep\<^sup>*\<^sup>* (monitor_of k) (monitor_of k')"
proof -
  obtain th where th: "this_thread k = Some th" "running_ok (level k) k th \<or> sleeping_ok (level k) k th"
    using assms(1) by (auto simp: kernel_ok_def sched_ok_def)
  show ?thesis
  proof (cases "sleeping_ok (level k) k th")
    case True
    then obtain fin fs where s: "stack th = SleepLoop fin # fs" by (auto simp: sleeping_ok_def asleep_def)
    with SleepLoop_refines [OF assms(1) th(1) s True] step_eq [OF th(1) s] assms(3) show ?thesis by simp
  next
    case False
    with th(2) have run: "running_ok (level k) k th" by blast
    then obtain f fs where s: "stack th = f # fs"
      by (cases "stack th") (auto simp: running_ok_def can_resume_def resumed_def suspended_def yielded_def unborn_def split: if_splits)
    let ?k = "set_this (th\<lparr>stack := fs\<rparr>) k"
    note t = taken [OF assms(1) th(1) s run]
    have m: "\<not> misuse f ?k" using assms(2) th(1) s by (simp add: misused_def)
    have e: "exec f ?k = Some k'" using step_eq [OF th(1) s] assms(3) by simp
    have goes: "monitor_of ?k = goto (currentThread k) (prog fs) (monitor_of k)" by (simp add: monitor_set_this)
    have runs: "runs_in ?k g fs (monitor_of k)" if "effect f = Some g" for g
      using that th(1) s goes by (simp add: runs_in_def this_thread_def)
    have silent: "monitor_of ?k = monitor_of k" if "effect f = None"
      using that th(1) s goes goto_same [of "monitor_of k" "currentThread k" "prog fs"] by (simp add: this_thread_def)
    show ?thesis
    proof (cases "level k")
      case IntOn
      then have c: "calls (f # fs)" "toBeDestroyed ?k = None" using run s by (simp_all add: running_ok_def)
      show ?thesis
      proof (cases "plain f")
        case True
        with c t IntOn have call: "at_call ?k fs" by (simp add: at_call_def calls_plain)
        from plain_effect [OF True] show ?thesis
        proof
          assume "effect f = Some f"
          from plain_refines [OF call True this runs [OF this] m e] show ?thesis .
        next
          assume f: "effect f = None \<and> (f = OneTick \<or> f = Yield \<or> (\<exists>st. f = EndTick st))"
          then show ?thesis using silent e OneTick_refines [OF call, of k'] Yield_refines [OF call, of k'] by auto
        qed
      next
        case False
        with c(1) have f: "f = Finish" "fs = []" by (auto simp: calls_Cons)
        then have "k' = set_this (th\<lparr>thread_status := BLOCKED, stack := [SleepLoop True]\<rparr>) (?k\<lparr>level := IntOff\<rparr>)"
          using e by (simp add: Thread_Finish_def Thread_Sleep_def set_status_def enter_def with_thread_def set_this_def)
        then have "monitor_of k' = monitor_of ?k" using f by (simp add: monitor_set_this)
        with silent f show ?thesis by simp
      qed
    next
      case IntOff
      with t have o: "off_frame ?k fs" by (simp add: off_frame_def)
      from run IntOff s consider "f = AfterSwitch" "resumed fs" | "f = Begin" "calls fs"
        | "f = Restore IntOn" "calls fs" | s' where "f = PLoop s' IntOn" "calls fs"
        by (auto simp: running_ok_def can_resume_def resumed_def suspended_def yielded_def unborn_def)
      then show ?thesis
      proof cases
        case (4 s')
        obtain sm where "semaphores ?k s' = Some sm" using m 4 by auto
        moreover have "queues_ok ?k" using o by (simp add: off_frame_def at_frame_def others_ok_def)
        ultimately show ?thesis using P_monitor [of ?k fs s' sm k' "monitor_of k"] o e 4 runs by (simp add: off_frame_def)
      qed (use off_refines [OF o, of k'] e silent in auto)
    qed
  qed
qed

end
