(* ===== verification/Kernel_Correct.thy ===== *)
theory Kernel_Correct
  imports Kernel_Refine
begin

text \<open>
  What holds in every state that the kernel can reach: its queues, its locks and its devices are in
  order, and the next step is possible unless a thread or a user program makes a call it must not
  make.
\<close>

subsection \<open>Calls that threads and user programs must not make\<close>

fun wrong :: "frame \<Rightarrow> kernel \<Rightarrow> bool" where
  "wrong (Release (UserLock n)) k = (lock_holder k (UserLock n) \<noteq> Some (currentThread k))"
| "wrong (Wait _ (UserLock n)) k = (lock_holder k (UserLock n) \<noteq> Some (currentThread k))"
| "wrong (Signal _ (UserLock n)) k = (lock_holder k (UserLock n) \<noteq> Some (currentThread k))"
| "wrong (AppendItem n x) k = (\<exists>sl. synch_lists k n = Some sl \<and> x \<in> set (list_items sl))"
| "wrong (Execute sp) k = (spaces k sp = None)"
| "wrong UserLoop k = user_stops k"
| "wrong _ k = False"

definition wrong_call :: "kernel \<Rightarrow> bool" where
  "wrong_call k = (case this_thread k of None \<Rightarrow> False
     | Some th \<Rightarrow> (case stack th of [] \<Rightarrow> False | f # fs \<Rightarrow> wrong f k))"

lemma user_stops_this [simp]: "user_stops (set_this th k) = user_stops k"
proof -
  have "load_table (set_this th k) = load_table k" by (simp add: load_table_def set_this_def split: option.split)
  then show ?thesis by (simp add: user_stops_def) (simp add: set_this_def)
qed

text \<open>Both invariants, of the scheduler and of the monitors.\<close>

definition safe :: "kernel \<Rightarrow> bool" where
  "safe k \<longleftrightarrow> kernel_ok k \<and> mon_ok (monitor_of k) \<and> users_ok (monitor_of k)"

lemma internal_held:
  assumes "mon_ok (monitor_of k)" and "progs (monitor_of k) t = Some (f # fs)" and "l \<in> needs f"
  shows "lock_holder k l = Some t"
  using turn_typed(3) [OF assms(1,2)] assms(3) by (auto simp: held_def)

lemma user_lock_cases: "l \<in> internal \<or> (\<exists>n. l = UserLock n)"
  by (auto simp: internal_def)

lemma holder_or_wrong:
  assumes "mon_ok (monitor_of k)" and "progs (monitor_of k) (currentThread k) = Some (f # fs)"
    and "f = Release l \<or> f = Wait c l \<or> f = Signal c l" and "\<not> wrong f k"
  shows "lock_holder k l = Some (currentThread k)"
  using user_lock_cases [of l] internal_held [OF assms(1,2), of l] assms(3,4) by auto

lemma named_waits:
  assumes "kernel_ok k" and "waits_on k t (Waiter w)" and "t \<noteq> currentThread k"
  shows "\<exists>fs. progs (monitor_of k) t = Some fs \<and> names w fs"
proof -
  obtain sm where sm: "semaphores k (Waiter w) = Some sm" "t \<in> set (sem_queue sm)" using assms(2) by (auto simp: waits_on_def)
  have "queues_ok k" using assms(1) by (simp add: kernel_ok_def sched_ok_def others_ok_def)
  from queued_thread [OF this sm assms(3)] show ?thesis by (auto simp: suspended_def names_def)
qed

lemma sem_exists:
  assumes "mon_ok a" and "users_ok a" and "progs a t = Some (SemP s # fs)"
  shows "vals a s \<noteq> None"
proof (cases s)
  case (LockSem l)
  then show ?thesis using mon_okD(2) [OF assms(1), of l] by (auto simp: lock_ok_def)
next
  case (Waiter w)
  then show ?thesis using waitersD(1) [OF mon_okD(3) [OF assms(1)] assms(3), of w] by simp
qed (use mon_okD(4) [OF assms(1)] assms(2) in \<open>auto simp: console_ok_def users_ok_def\<close>)

text \<open>A step whose call is not wrong misuses nothing.\<close>

lemma safe_not_misused:
  assumes "safe k" and "\<not> wrong_call k"
  shows "\<not> misused k"
proof -
  have ok: "kernel_ok k" "mon_ok (monitor_of k)" "users_ok (monitor_of k)" using assms(1) by (simp_all add: safe_def)
  let ?a = "monitor_of k" and ?t = "currentThread k"
  obtain th where th: "this_thread k = Some th" "running_ok (level k) k th \<or> sleeping_ok (level k) k th"
    using ok(1) by (auto simp: kernel_ok_def sched_ok_def)
  show ?thesis
  proof (cases "stack th")
    case Nil
    with th(1) show ?thesis by (simp add: misused_def)
  next
    case (Cons f fs)
    let ?k = "set_this (th\<lparr>stack := fs\<rparr>) k"
    have p: "progs ?a ?t = Some (g # prog fs)" if "effect f = Some g" for g
      using that th(1) Cons by (simp add: this_thread_def)
    have wr: "\<not> wrong f k" using assms(2) th(1) Cons by (simp add: wrong_call_def)
    have sem: "semaphores k s \<noteq> None" if "effect f = Some (SemP s)" for s
      using sem_exists [OF ok(2,3) p [OF that]] by simp
    have shape: "plain f \<or> f = AfterSwitch \<or> f = Begin \<or> f = Finish \<or> (\<exists>l. f = Restore l) \<or> (\<exists>s l. f = PLoop s l) \<or> (\<exists>b. f = SleepLoop b)"
      using th(2) Cons by (auto simp: running_ok_def sleeping_ok_def asleep_def can_resume_def resumed_def suspended_def
          yielded_def unborn_def calls_Cons split: if_splits)
    note h = holder_or_wrong [OF ok(2) p [of f] _ wr]
    have lk: "semaphores k (LockSem l) \<noteq> None" for l using mon_okD(2) [OF ok(2), of l] by (auto simp: lock_ok_def)
    note w = mon_okD(3) [OF ok(2)] and i = mon_okD(5) [OF ok(2)]
    have "\<not> misuse f ?k"
    proof (cases f)
      case (SemP s)
      with sem [of s] show ?thesis by simp
    next
      case (SemV s)
      then obtain n where "s = UserSem n" using shape by (cases s) auto
      with SemV ok(3) show ?thesis by (simp add: users_ok_def)
    next
      case (PLoop s l)
      with sem [of s] show ?thesis by simp
    next
      case (Release l)
      with h [of l] lk [of l] show ?thesis by (simp add: set_this_def)
    next
      case (Wait c l)
      have "vals ?a (Waiter (next_waiter k)) = None" "next_waiter k \<notin> set (wait_queue k c)"
        using Wait_ok(1,2) [OF ok(2) p [of f, unfolded Wait]] h [of l c] Wait by simp_all
      with Wait h [of l c] show ?thesis by (simp add: set_this_def)
    next
      case (Signal c l)
      have "wait_queue k c \<noteq> [] \<Longrightarrow> semaphores k (Waiter (hd (wait_queue k c))) \<noteq> None"
        using waitersD(4) [OF w, of "hd (wait_queue k c)" c] by auto
      with Signal h [of l c] show ?thesis by (auto simp: set_this_def)
    next
      case (DeleteWaiter v)
      have v: "semaphores k (Waiter v) \<noteq> None" using DeleteWaiter_ok(1) [OF ok(2), of ?t v "prog fs"] p [of f] DeleteWaiter by simp
      have "\<not> waits_on k t (Waiter v)" for t
      proof
        assume wt: "waits_on k t (Waiter v)"
        show False
        proof (cases "t = ?t")
          case True
          then show ?thesis using wt th Cons DeleteWaiter by (auto simp: running_ok_def sleeping_ok_def asleep_def)
        next
          case False
          from named_waits [OF ok(1) wt False] obtain gs where "progs ?a t = Some gs" "names v gs" by blast
          from waitersD(2) [OF w this(1) p [of f] this(2)] False DeleteWaiter show ?thesis by simp
        qed
      qed
      with v DeleteWaiter show ?thesis by simp
    next
      case (AppendItem n x)
      have "synch_lists k n \<noteq> None" using i by (simp add: items_ok_def)
      with AppendItem wr show ?thesis by (auto simp: set_this_def split: option.splits)
    next
      case (RemoveLoop n)
      then show ?thesis using i by (simp add: items_ok_def set_this_def)
    next
      case (RemoveItem n)
      have "at_call_of ?a (RemoveItem n) ?t" using p [of f] RemoveItem by (auto simp: at_call_of_def)
      then have "items ?a n \<noteq> Some []" "items ?a n \<noteq> None" using i by (auto simp: items_ok_def)
      with RemoveItem show ?thesis by (auto simp: set_this_def split: option.splits)
    next
      case (DevicePutChar ch)
      have "\<not> busy ?a" using device_put_ok(1) [OF ok(2), of ?t ch "prog fs"] p [of f] DevicePutChar by simp
      with DevicePutChar show ?thesis by (simp add: set_this_def)
    next
      case (Execute sp)
      with wr show ?thesis by (simp add: set_this_def)
    next
      case UserLoop
      with wr show ?thesis by simp
    qed simp_all
    with th(1) Cons show ?thesis by (simp add: misused_def)
  qed
qed

lemma safe_step:
  assumes "safe k" and "\<not> wrong_call k"
  shows "\<exists>k'. step k = Some k' \<and> safe k' \<and> mstep\<^sup>*\<^sup>* (monitor_of k) (monitor_of k')"
proof -
  note m = safe_not_misused [OF assms]
  have ok: "kernel_ok k" "mon_ok (monitor_of k)" "users_ok (monitor_of k)" using assms(1) by (simp_all add: safe_def)
  obtain k' where k': "step k = Some k'" "kernel_ok k'" using step_ok [OF ok(1) m] by blast
  note r = step_refines [OF ok(1) m k'(1)]
  from msteps_ok [OF r ok(2)] msteps_users [OF r ok(3)] k' r show ?thesis by (auto simp: safe_def)
qed

subsection \<open>A wrong call stops the machine\<close>

lemma division_stops:
  assumes "machine_ok m" and "fetched m = Some (i, m1)" and "div_overflow i m1"
  shows "OneInstruction m = None"
proof -
  obtain raw where pc: "get_reg m PCReg = Some (registers m ! 34)" and r: "ReadMem (m\<lparr>trap := None\<rparr>) (registers m ! 34) 4 = Some (Some raw, m1)"
    and i: "Decode raw = Some i"
    using assms(1,2) by (auto simp: fetched_def bind_Some_conv)
  have ok: "machine_ok (m\<lparr>trap := None\<rparr>)" using assms(1) by simp
  have "machine_ok m1" by (rule ReadMem_ok [OF ok, of 4 "registers m ! 34"]) (use r in auto)
  moreover have "instr_ok i" using Decode_ok [of raw] i by auto
  moreover have op: "opCode i = OP_DIV" using assms(3) by (simp add: div_overflow_def)
  ultimately have "exec_DIV pc i m1 = None" for pc using DIV_runs [of i m1 pc] assms(3) by simp
  moreover have "get_reg m1 NextPCReg = Some (registers m1 ! 35)" using \<open>machine_ok m1\<close> by simp
  ultimately show ?thesis using pc r i op by (simp add: OneInstruction_def get_reg_def)
qed

lemma no_table_stops:
  assumes "regs_fit (registers m)" and "tlb m = None" and "pageTable m = None" and "OneInstruction m = Some m'"
  shows "unserved m'" and "length (registers m') = 40"
proof -
  let ?m = "m\<lparr>trap := None\<rparr>"
  have ro: "regs_ok ?m" using assms(1) by (simp add: regs_ok_def regs_fit_def)
  obtain vs where e: "RaiseException AddressErrorException (registers m ! 34) ?m = Some (?m\<lparr>registers := vs, trap := Some AddressErrorException\<rparr>)"
    "length vs = 40"
    by (rule RaiseException_eq [OF ro])
  have pc: "get_reg ?m PCReg = Some (registers m ! 34)" using ro by (simp add: regs_ok_def)
  have "m' = ?m\<lparr>registers := vs, trap := Some AddressErrorException\<rparr>"
    using assms(2-4) pc e
    by (cases "registers m ! 34 AND 3 = 0") (auto simp: OneInstruction_def ReadMem_def Translate_def)
  then show "unserved m'" "length (registers m') = 40" using e(2) by (simp_all add: unserved_def)
qed

lemma unserved_stops:
  assumes "load_table k = Some m" and "OneInstruction m = Some m'" and "unserved m'" and "length (registers m') = 40"
  shows "user_round k = None"
proof -
  obtain w where w: "trap m' = Some w" "w \<noteq> SyscallException \<or> registers m' ! 2 \<notin> {SC_Halt, SC_Add}"
    using assms(3) by (auto simp: unserved_def split: option.splits)
  have "machine (store_table m' k\<lparr>mstatus := SystemMode\<rparr>) = m'" by (simp add: store_table_def split: option.split)
  with w(2) assms(4) have "ExceptionHandler w (store_table m' k\<lparr>mstatus := SystemMode\<rparr>) = None"
    by (intro exception_stops) simp_all
  with w(1) assms(1,2) show ?thesis by (simp add: user_round_def)
qed

lemma user_round_stops:
  assumes "mach_ok k" and "user_stops k"
  shows "user_round k = None"
proof (cases "table_of k")
  case None
  let ?m = "(machine k)\<lparr>pageTable := None\<rparr>"
  have l: "load_table k = Some ?m" using None by (simp add: load_table_def)
  have r: "regs_fit (registers (machine k))" "tlb (machine k) = None" using assms(1) by (simp_all add: mach_ok_def)
  show ?thesis
  proof (cases "OneInstruction ?m")
    case (Some m')
    from no_table_stops [OF _ _ _ Some] r have "unserved m'" "length (registers m') = 40" by simp_all
    with unserved_stops [OF l Some] show ?thesis .
  qed (simp add: user_round_def l)
next
  case (Some sp)
  then obtain as where as: "spaces k sp = Some as" "pageTableSize (machine k) = numPages as"
    "uint (numPages as) \<le> int (length (as_pageTable as))" using assms(1) by (auto simp: mach_ok_def)
  let ?m = "(machine k)\<lparr>pageTable := Some (as_pageTable as)\<rparr>"
  have m: "load_table k = Some ?m" using Some as(1) by (simp add: load_table_def)
  have r: "regs_fit (registers (machine k))" "length (mainMemory (machine k)) = 16384" "tlb (machine k) = None"
    using assms(1) by (simp_all only: mach_ok_def)
  have ok: "machine_ok ?m" by (rule table_loaded_ok [OF r as(2,3)])
  show ?thesis
  proof (cases "\<exists>i m1. fetched ?m = Some (i, m1) \<and> div_overflow i m1")
    case True
    with division_stops [OF ok] m show ?thesis by (auto simp: user_round_def)
  next
    case False
    have "\<not> (case fetched ?m of None \<Rightarrow> False | Some (i, m1) \<Rightarrow> div_overflow i m1)"
      using False by (simp split: option.split)
    then have "case OneInstruction ?m of None \<Rightarrow> False | Some m' \<Rightarrow> unserved m'"
      using assms(2) Some unfolding user_stops_def m by simp
    then obtain m' where m': "OneInstruction ?m = Some m'" "unserved m'" by (cases "OneInstruction ?m") auto
    have "machine_ok m'" using OneInstruction_cases [OF ok] False m'(1) by auto
    then have "length (registers m') = 40" unfolding machine_ok_def regs_ok_def by blast
    with unserved_stops [OF m m'] show ?thesis .
  qed
qed

lemma wrong_stops:
  assumes "safe k" and "wrong_call k"
  shows "step k = None"
proof -
  obtain th f fs where th: "this_thread k = Some th" "stack th = f # fs" "wrong f k"
    using assms(2) by (auto simp: wrong_call_def split: option.splits list.splits)
  let ?k = "set_this (th\<lparr>stack := fs\<rparr>) k"
  have m: "mach_ok k" using assms(1) by (simp add: safe_def kernel_ok_def calm_def)
  have "exec f ?k = None"
  proof (cases f)
    case (Release l)
    then obtain n where "l = UserLock n" using th(3) by (cases l) auto
    with Release th(3) show ?thesis by (simp add: Lock_Release_def IsHeldByCurrentThread_def set_this_def)
  next
    case (Wait c l)
    then obtain n where "l = UserLock n" using th(3) by (cases l) auto
    with Wait th(3) show ?thesis by (simp add: Condition_Wait_def IsHeldByCurrentThread_def set_this_def)
  next
    case (Signal c l)
    then obtain n where "l = UserLock n" using th(3) by (cases l) auto
    with Signal th(3) show ?thesis by (simp add: Condition_Signal_def IsHeldByCurrentThread_def set_this_def)
  next
    case (AppendItem n x)
    with th(3) show ?thesis by (auto simp: append_item_def seq_Append_def set_this_def)
  next
    case (Execute sp)
    with th(3) show ?thesis by (simp add: AddrSpace_Execute_def set_this_def)
  next
    case UserLoop
    have "mach_ok ?k" using m th(1) by (auto simp: mach_ok_def set_this_def this_thread_def)
    with UserLoop th(3) user_round_stops [of ?k] show ?thesis by simp
  qed (use th(3) in auto)
  with step_eq [OF th(1,2)] show ?thesis by simp
qed

subsection \<open>The start\<close>

lemma Schedule_monitor: "Schedule c d ty k = Some k' \<Longrightarrow> monitor_of k' = monitor_of k"
  by (auto simp: Schedule_def Let_def bind_Some_conv)

lemma Initialize_monitor:
  assumes "Kernel_Initialize randomSlice rnd kbd init m sps body = Some k"
  shows "monitor_of k = monitor_of (Kernel_new randomSlice rnd kbd init m sps body)"
proof -
  let ?n = "Kernel_new randomSlice rnd kbd init m sps body"
  obtain k1 k2 ol where k: "Timer_SetInterrupt ?n = Some k1" "Schedule ConsoleInputCallBack ConsoleTime ConsoleReadInt k1 = Some k2"
    "SetLevel IntOn k2 = Some (ol, k)"
    using assms by (auto simp: Kernel_Initialize_def Let_def bind_Some_conv)
  have f: "monitor_of k1 = monitor_of ?n \<and> threads k1 = threads ?n \<and> currentThread k1 = currentThread ?n"
    using k(1) by (auto simp: Timer_SetInterrupt_def RandomNumber_def Schedule_def Let_def bind_Some_conv split: if_split_asm)
  moreover have "threads k2 = threads k1" "currentThread k2 = currentThread k1"
    using k(2) by (auto simp: Schedule_def Let_def bind_Some_conv)
  ultimately have "this_thread (k2\<lparr>level := IntOn\<rparr>) = this_thread ?n" "monitor_of k2 = monitor_of ?n"
    using Schedule_monitor [OF k(2)] by (simp_all add: this_thread_def)
  moreover have "this_thread ?n \<noteq> None" by (simp add: this_thread_def Kernel_new_def)
  ultimately show ?thesis
    using k(3) enter_silent [of "[OneTick]" "k2\<lparr>level := IntOn\<rparr>" k]
    by (auto simp: SetLevel_def Let_def bind_Some_conv split: if_split_asm)
qed

lemma new_mon_ok:
  assumes "list_all public body"
  shows "mon_ok (monitor_of (Kernel_new randomSlice rnd kbd init m sps body))"
    and "users_ok (monitor_of (Kernel_new randomSlice rnd kbd init m sps body))"
proof -
  let ?a = "monitor_of (Kernel_new randomSlice rnd kbd init m sps body)"
  note p = typed_prog_public [OF assms]
  have prog: "progs ?a t = (if t = 0 then Some (prog body) else None)" for t
    by (simp add: Kernel_new_def prog_append)
  have at: "at_call_of ?a f t \<longleftrightarrow> t = 0 \<and> heads f (prog body)" for f t
    unfolding at_call_of_def heads_def prog by auto
  have h: "held ?a t = {}" for t by (simp add: held_def Kernel_new_def)
  note fo = first_onlyD [of "prog body"]
  have "progs_ok ?a" unfolding progs_ok_def h prog using p by auto
  moreover have "lock_ok ?a l" for l
    using fo p by (auto simp: lock_ok_def at) (simp_all add: Kernel_new_def initial_semaphore_def Semaphore_new_def)
  moreover have "waiters_ok ?a"
  proof -
    have "\<not> names w (prog body)" for w using p by blast
    moreover have "vals ?a (Waiter w) = None" "condq ?a c = []" for w c
      by (simp_all add: Kernel_new_def initial_semaphore_def)
    ultimately show ?thesis unfolding waiters_ok_def prog by (auto simp del: monitor_of_simps(2,4) split: if_splits)
  qed
  moreover have "console_ok ?a"
    using fo p by (auto simp: console_ok_def at) (simp_all add: Kernel_new_def initial_semaphore_def Semaphore_new_def)
  moreover have "items_ok ?a"
    using fo p by (auto simp: items_ok_def at) (simp_all add: Kernel_new_def)
  ultimately show "mon_ok ?a" by (rule mon_okI)
  show "users_ok ?a" by (simp add: users_ok_def Kernel_new_def initial_semaphore_def)
qed

lemma start_safe:
  assumes "boot_ok rnd init m sps body" and "Kernel_Initialize randomSlice rnd kbd init m sps body = Some k"
  shows "safe k"
proof -
  have "list_all public body" using assms(1) by (simp add: boot_ok_def)
  moreover have "kernel_ok k" using Kernel_Initialize_ok [OF assms(1), of randomSlice kbd] assms(2) by auto
  ultimately show ?thesis using Initialize_monitor [OF assms(2)] new_mon_ok by (simp add: safe_def)
qed

lemma start_exists:
  assumes "boot_ok rnd init m sps body"
  obtains k where "Kernel_Initialize randomSlice rnd kbd init m sps body = Some k" and "safe k"
  using Kernel_Initialize_ok [OF assms, of randomSlice kbd] start_safe [OF assms] by blast

text \<open>A step can only be taken where no call is wrong, so all that is reachable is safe.\<close>

lemma kstep_safe:
  assumes "safe k" and "kstep k k'"
  shows "safe k'" and "mstep\<^sup>*\<^sup>* (monitor_of k) (monitor_of k')"
proof -
  have s: "step k = Some k'" using assms(2) by (simp add: kstep_iff)
  with wrong_stops [OF assms(1)] have "\<not> wrong_call k" by auto
  with safe_step [OF assms(1)] s show "safe k'" "mstep\<^sup>*\<^sup>* (monitor_of k) (monitor_of k')" by auto
qed

lemma reachable_safe:
  assumes "reachable k0 k" and "safe k0"
  shows "safe k" and "mstep\<^sup>*\<^sup>* (monitor_of k0) (monitor_of k)"
  using assms(1)
proof (induction)
  case reachable_start
  { case 1 show ?case by (rule assms(2)) next case 2 show ?case by simp }
next
  case (reachable_step k k')
  { case 1 show ?case by (rule kstep_safe(1) [OF reachable_step(3,2)])
    next case 2 show ?case using kstep_safe(2) [OF reachable_step(3,2)] reachable_step(4) by simp }
qed

lemma safe_steps:
  assumes "safe k"
  shows "step k = None \<longleftrightarrow> wrong_call k"
  using safe_step [OF assms] wrong_stops [OF assms] by (cases "wrong_call k") auto

subsection \<open>Properties of every reachable state\<close>

lemma booted_safe:
  assumes "boot_ok rnd init m sps body" and "Kernel_Initialize randomSlice rnd kbd init m sps body = Some k0" and "reachable k0 k"
  shows "safe k"
  using reachable_safe(1) [OF assms(3) start_safe [OF assms(1,2)]] .

text \<open>A small system, on which the properties are tried.\<close>

definition demo_body :: "frame list" where
  "demo_body = [Fork [ListAppend 0 7, PutChar 33], ListRemoveFront 0]"

abbreviation start :: "frame list \<Rightarrow> kernel option" where
  "start body \<equiv> Kernel_Initialize False (\<lambda>_. 0) (\<lambda>_. NotReady) (\<lambda>_. 0) (Machine_new False []) (\<lambda>_. None) body"

lemma start_boots:
  "list_all public body \<Longrightarrow> boot_ok (\<lambda>_. 0) (\<lambda>_. 0) (Machine_new False []) (\<lambda>_. None) body"
  by (simp add: boot_ok_def Machine_new_def regs_fit_def MemorySize_def NumPhysPages_def PageSize_def)

abbreviation demo :: "kernel option" where
  "demo \<equiv> start demo_body"

lemma demo_boots:
  obtains k0 where "demo = Some k0"
  and "boot_ok (\<lambda>_. 0) (\<lambda>_. 0) (Machine_new False []) (\<lambda>_. None) demo_body"
proof -
  have b: "boot_ok (\<lambda>_. 0) (\<lambda>_. 0) (Machine_new False []) (\<lambda>_. None) demo_body"
    by (rule start_boots) (simp add: demo_body_def)
  show thesis by (rule start_exists [OF b, of False "\<lambda>_. NotReady"], rule that [OF _ b])
qed

text \<open>Runs of a given number of steps, for concrete states.\<close>

fun run :: "nat \<Rightarrow> kernel \<Rightarrow> kernel option" where
  "run 0 k = Some k"
| "run (Suc n) k = (if halted k then None else do { k \<leftarrow> step k; run n k })"

lemma run_reachable:
  assumes "run n k = Some k'" and "reachable k0 k"
  shows "reachable k0 k'"
  using assms
proof (induction n arbitrary: k)
  case (Suc n)
  then obtain k1 where "\<not> halted k" "step k = Some k1" "run n k1 = Some k'"
    by (auto simp: bind_Some_conv split: if_split_asm)
  with Suc show ?case using reachable_step [OF Suc.prems(2)] by (simp add: kstepI)
qed simp

lemmas run_defs = step_def this_thread_def with_thread_def enter_def SetLevel_def Let_def ASSERT_def

lemma waiting_state:
  "\<exists>k0 k. Kernel_Initialize False (\<lambda>_. 0) (\<lambda>_. NotReady) (\<lambda>_. 0) m (\<lambda>_. None) [ListRemoveFront 0] = Some k0 \<and>
     run 8 k0 = Some k \<and> wait_queue k (ListCond 0) = [0]"
  by (simp add: Kernel_Initialize_def Kernel_new_def Timer_SetInterrupt_def Schedule_def seq_Insert_def PendingCompare_def
      TimerTicks_def ConsoleTime_def run_defs eval_nat_numeral OneTick_run_def CheckIfDue_def SystemTick_def
      SynchList_RemoveFront_def Lock_Acquire_def Semaphore_P_def P_loop_def initial_semaphore_def Semaphore_new_def
      Lock_set_holder_def remove_loop_def Condition_Wait_def IsHeldByCurrentThread_def seq_Append_def)

text \<open>
  C1. From a proper start, whatever interrupts come and whatever the threads do, the kernel never
  stops on an assertion of its own: in every reachable state the next step fails exactly when the
  running thread or user program makes a wrong call, which is to release or wait on a lock it does not
  hold, to append an item that the list already has, to execute an address space that does not exist,
  or to raise an exception that the handler does not serve.
\<close>

theorem kernel_stops_only_on_wrong_calls:
  assumes "boot_ok rnd init m sps body" and "Kernel_Initialize randomSlice rnd kbd init m sps body = Some k0"
    and "reachable k0 k"
  shows "step k = None \<longleftrightarrow> wrong_call k"
  by (rule safe_steps [OF booted_safe [OF assms]])

lemma kernel_stops_only_on_wrong_calls_witness:
  "\<exists>k0. demo = Some k0 \<and>
     (step k0 = None \<longleftrightarrow> wrong_call k0)"
proof -
  obtain k0 where k0: "demo = Some k0"
    and b: "boot_ok (\<lambda>_. 0) (\<lambda>_. 0) (Machine_new False []) (\<lambda>_. None) demo_body" by (rule demo_boots)
  show ?thesis by (rule exI [of _ k0], rule conjI [OF k0 kernel_stops_only_on_wrong_calls [OF b k0 reachable_start]])
qed




lemma demo_steps:
  assumes "demo = Some k0"
  obtains k1 where "kstep k0 k1"
proof -
  let ?n = "Kernel_new False (\<lambda>_. 0) (\<lambda>_. NotReady) (\<lambda>_. 0) (Machine_new False []) (\<lambda>_. None) demo_body"
  obtain ol k1 k2 where k: "Timer_SetInterrupt ?n = Some k1" "Schedule ConsoleInputCallBack ConsoleTime ConsoleReadInt k1 = Some k2"
    "SetLevel IntOn k2 = Some (ol, k0)"
    using assms by (auto simp: Kernel_Initialize_def Let_def bind_Some_conv)
  have f: "halted k2 = False" "currentThread k2 = 0" "threads k2 = threads ?n" "level k2 = IntOff" "inHandler k2 = False"
    using k(1,2) by (auto simp: Timer_SetInterrupt_def Schedule_def Let_def bind_Some_conv Kernel_new_def)
  then have e: "this_thread k0 = Some ((Thread_new demo_body)\<lparr>thread_status := RUNNING, stack := OneTick # demo_body @ [Finish]\<rparr>)"
    "halted k0 = False"
    using k(3) by (auto simp: SetLevel_on enter_def with_thread_def this_thread_def Kernel_new_def)
  have "safe k0" by (rule demo_boots) (use start_safe [OF _ assms] in blast)
  moreover have "\<not> wrong_call k0" using e(1) by (simp add: wrong_call_def)
  ultimately obtain k' where "step k0 = Some k'" using safe_step by blast
  with that e(2) show thesis by (auto simp: kstep_iff)
qed


text \<open>A thread that is past the semaphore of a lock but not yet its recorded holder.\<close>

definition about_to_hold :: "kernel \<Rightarrow> lock_id \<Rightarrow> tid \<Rightarrow> bool" where
  "about_to_hold k l t \<longleftrightarrow> (\<exists>th gs. threads k t = Some th \<and> prog (stack th) = SetHolder l # gs)"

lemma about_to_hold_call: "about_to_hold k l t \<longleftrightarrow> at_call_of (monitor_of k) (SetHolder l) t"
  by (auto simp: about_to_hold_def at_call_of_def)

text \<open>
  C4. Locks exclude: in every reachable state the semaphore of a lock is 0 or 1, it is 1 exactly when
  nobody holds the lock or is about to, at most one thread is about to hold it, and none is while the
  lock has a holder, so the assignment in \<open>Acquire\<close> never overwrites one.
\<close>

theorem locks_exclude:
  assumes "boot_ok rnd init m sps body" and "Kernel_Initialize randomSlice rnd kbd init m sps body = Some k0"
    and "reachable k0 k"
  shows "\<exists>sm. semaphores k (LockSem l) = Some sm \<and> sem_value sm \<in> {0, 1} \<and>
    (sem_value sm = 1 \<longleftrightarrow> lock_holder k l = None \<and> (\<forall>t. \<not> about_to_hold k l t)) \<and>
    (\<forall>t u. about_to_hold k l t \<longrightarrow> lock_holder k l = None \<and> (about_to_hold k l u \<longrightarrow> u = t))"
proof -
  have "lock_ok (monitor_of k) l" using booted_safe [OF assms] mon_okD(2) by (simp add: safe_def)
  then show ?thesis
    unfolding lock_ok_def about_to_hold_call [symmetric]
    by (auto simp del: at_call_fields)
qed

lemma locks_exclude_witness:
  "\<exists>k0. demo = Some k0 \<and> (\<exists>sm. semaphores k0 (LockSem (ListLock 0)) = Some sm \<and> sem_value sm \<in> {0, 1})"
proof -
  obtain k0 where k0: "demo = Some k0"
    and b: "boot_ok (\<lambda>_. 0) (\<lambda>_. 0) (Machine_new False []) (\<lambda>_. None) demo_body" by (rule demo_boots)
  show ?thesis
    using locks_exclude [OF b k0 reachable_start, of "ListLock 0"] k0 by auto
qed



end
