(* ===== verification/Kernel_Quiet.thy ===== *)
theory Kernel_Quiet
  imports Kernel_Correct
begin

text \<open>
  What one step does to the threads that do not run, to the ready list, to the holders of locks and to
  time: a step of one thread leaves the stacks and registers of the others alone, the ready list is a
  queue, the timer is always pending, and when it has fired the running thread yields.
\<close>

subsection \<open>Steps that stay with the running thread\<close>

definition core :: "thread option \<Rightarrow> (frame list \<times> u32 list \<times> nat option \<times> int list) option" where
  "core = map_option (\<lambda>th. (stack th, userRegisters th, space th, returned th))"

lemma core_simps [simp]: "core None = None" "core (Some th) = Some (stack th, userRegisters th, space th, returned th)"
  "core x = None \<longleftrightarrow> x = None" "core (map_option (\<lambda>th. th\<lparr>thread_status := st\<rparr>) x) = core x"
  by (simp_all add: core_def option.map_comp comp_def)

definition mild :: "kernel \<Rightarrow> kernel \<Rightarrow> bool" where
  "mild k k' \<longleftrightarrow> currentThread k' = currentThread k \<and> (\<exists>rl. readyList k' = readyList k @ rl) \<and>
     lock_holder k' = lock_holder k \<and> (\<forall>t. t \<noteq> currentThread k \<longrightarrow> core (threads k' t) = core (threads k t))"

lemma mild_refl [simp]: "mild k k"
  by (simp add: mild_def)

lemma mild_trans: "mild k k' \<Longrightarrow> mild k' k'' \<Longrightarrow> mild k k''"
  by (auto simp: mild_def)

text \<open>
  A quiet step moreover leaves time, the timer and the interrupts that are pending, and never makes the
  machine look idle.
\<close>

definition dozing :: "kernel \<Rightarrow> tid \<Rightarrow> bool" where
  "dozing k t \<longleftrightarrow> (\<exists>th. threads k t = Some th \<and> EndTick IdleMode \<in> set (stack th))"

definition quiet :: "kernel \<Rightarrow> kernel \<Rightarrow> bool" where
  "quiet k k' \<longleftrightarrow> mild k k' \<and> set (pending k) \<subseteq> set (pending k') \<and> total_ticks k' = total_ticks k \<and>
     timer_disable k' = timer_disable k \<and> (mstatus k' = IdleMode \<longrightarrow> mstatus k = IdleMode) \<and>
     (dozing k' (currentThread k) \<longrightarrow> dozing k (currentThread k))"

lemma quiet_refl [simp]: "quiet k k"
  by (simp add: quiet_def)

lemma quiet_mild: "quiet k k' \<Longrightarrow> mild k k'"
  by (simp add: quiet_def)

lemma quiet_trans:
  assumes "quiet k k'" and "quiet k' k''"
  shows "quiet k k''"
proof -
  have "currentThread k' = currentThread k" "mild k k''"
    using assms mild_trans by (auto simp: quiet_def mild_def)
  with assms show ?thesis by (auto simp: quiet_def)
qed

text \<open>Fields that these do not look at.\<close>

lemma mild_same [simp]:
  "mild (k\<lparr>level := x0\<rparr>) k' = mild k k'" "mild k (k'\<lparr>level := x0\<rparr>) = mild k k'"
  "mild (k\<lparr>semaphores := x1\<rparr>) k' = mild k k'" "mild k (k'\<lparr>semaphores := x1\<rparr>) = mild k k'"
  "mild (k\<lparr>wait_queue := x2\<rparr>) k' = mild k k'" "mild k (k'\<lparr>wait_queue := x2\<rparr>) = mild k k'"
  "mild (k\<lparr>next_waiter := x3\<rparr>) k' = mild k k'" "mild k (k'\<lparr>next_waiter := x3\<rparr>) = mild k k'"
  "mild (k\<lparr>synch_lists := x4\<rparr>) k' = mild k k'" "mild k (k'\<lparr>synch_lists := x4\<rparr>) = mild k k'"
  "mild (k\<lparr>machine := x5\<rparr>) k' = mild k k'" "mild k (k'\<lparr>machine := x5\<rparr>) = mild k k'"
  "mild (k\<lparr>spaces := x6\<rparr>) k' = mild k k'" "mild k (k'\<lparr>spaces := x6\<rparr>) = mild k k'"
  "mild (k\<lparr>table_of := x7\<rparr>) k' = mild k k'" "mild k (k'\<lparr>table_of := x7\<rparr>) = mild k k'"
  "mild (k\<lparr>halted := x8\<rparr>) k' = mild k k'" "mild k (k'\<lparr>halted := x8\<rparr>) = mild k k'"
  "mild (k\<lparr>incoming := x9\<rparr>) k' = mild k k'" "mild k (k'\<lparr>incoming := x9\<rparr>) = mild k k'"
  "mild (k\<lparr>screen := x10\<rparr>) k' = mild k k'" "mild k (k'\<lparr>screen := x10\<rparr>) = mild k k'"
  "mild (k\<lparr>putBusy := x11\<rparr>) k' = mild k k'" "mild k (k'\<lparr>putBusy := x11\<rparr>) = mild k k'"
  "mild (k\<lparr>rand_count := x12\<rparr>) k' = mild k k'" "mild k (k'\<lparr>rand_count := x12\<rparr>) = mild k k'"
  "mild (k\<lparr>next_pending := x13\<rparr>) k' = mild k k'" "mild k (k'\<lparr>next_pending := x13\<rparr>) = mild k k'"
  "mild (k\<lparr>yieldOnReturn := x14\<rparr>) k' = mild k k'" "mild k (k'\<lparr>yieldOnReturn := x14\<rparr>) = mild k k'"
  "mild (k\<lparr>poll_count := x15\<rparr>) k' = mild k k'" "mild k (k'\<lparr>poll_count := x15\<rparr>) = mild k k'"
  "mild (k\<lparr>chars_read := x16\<rparr>) k' = mild k k'" "mild k (k'\<lparr>chars_read := x16\<rparr>) = mild k k'"
  "mild (k\<lparr>chars_written := x17\<rparr>) k' = mild k k'" "mild k (k'\<lparr>chars_written := x17\<rparr>) = mild k k'"
  "mild (k\<lparr>inHandler := x18\<rparr>) k' = mild k k'" "mild k (k'\<lparr>inHandler := x18\<rparr>) = mild k k'"
  "mild (k\<lparr>idle_ticks := x19\<rparr>) k' = mild k k'" "mild k (k'\<lparr>idle_ticks := x19\<rparr>) = mild k k'"
  "mild (k\<lparr>system_ticks := x20\<rparr>) k' = mild k k'" "mild k (k'\<lparr>system_ticks := x20\<rparr>) = mild k k'"
  "mild (k\<lparr>user_ticks := x21\<rparr>) k' = mild k k'" "mild k (k'\<lparr>user_ticks := x21\<rparr>) = mild k k'"
  "mild (k\<lparr>toBeDestroyed := x22\<rparr>) k' = mild k k'" "mild k (k'\<lparr>toBeDestroyed := x22\<rparr>) = mild k k'"
  "mild (k\<lparr>next_thread := x23\<rparr>) k' = mild k k'" "mild k (k'\<lparr>next_thread := x23\<rparr>) = mild k k'"
  "mild (k\<lparr>mstatus := x24\<rparr>) k' = mild k k'" "mild k (k'\<lparr>mstatus := x24\<rparr>) = mild k k'"
  "mild (k\<lparr>pending := x25\<rparr>) k' = mild k k'" "mild k (k'\<lparr>pending := x25\<rparr>) = mild k k'"
  "mild (k\<lparr>total_ticks := x26\<rparr>) k' = mild k k'" "mild k (k'\<lparr>total_ticks := x26\<rparr>) = mild k k'"
  by (simp_all add: mild_def)

lemma dozing_same [simp]:
  "dozing (k\<lparr>level := x0\<rparr>) = dozing k"
  "dozing (k\<lparr>semaphores := x1\<rparr>) = dozing k"
  "dozing (k\<lparr>wait_queue := x2\<rparr>) = dozing k"
  "dozing (k\<lparr>next_waiter := x3\<rparr>) = dozing k"
  "dozing (k\<lparr>synch_lists := x4\<rparr>) = dozing k"
  "dozing (k\<lparr>machine := x5\<rparr>) = dozing k"
  "dozing (k\<lparr>spaces := x6\<rparr>) = dozing k"
  "dozing (k\<lparr>table_of := x7\<rparr>) = dozing k"
  "dozing (k\<lparr>halted := x8\<rparr>) = dozing k"
  "dozing (k\<lparr>incoming := x9\<rparr>) = dozing k"
  "dozing (k\<lparr>screen := x10\<rparr>) = dozing k"
  "dozing (k\<lparr>putBusy := x11\<rparr>) = dozing k"
  "dozing (k\<lparr>rand_count := x12\<rparr>) = dozing k"
  "dozing (k\<lparr>next_pending := x13\<rparr>) = dozing k"
  "dozing (k\<lparr>yieldOnReturn := x14\<rparr>) = dozing k"
  "dozing (k\<lparr>poll_count := x15\<rparr>) = dozing k"
  "dozing (k\<lparr>chars_read := x16\<rparr>) = dozing k"
  "dozing (k\<lparr>chars_written := x17\<rparr>) = dozing k"
  "dozing (k\<lparr>inHandler := x18\<rparr>) = dozing k"
  "dozing (k\<lparr>idle_ticks := x19\<rparr>) = dozing k"
  "dozing (k\<lparr>system_ticks := x20\<rparr>) = dozing k"
  "dozing (k\<lparr>user_ticks := x21\<rparr>) = dozing k"
  "dozing (k\<lparr>toBeDestroyed := x22\<rparr>) = dozing k"
  "dozing (k\<lparr>next_thread := x23\<rparr>) = dozing k"
  "dozing (k\<lparr>mstatus := x24\<rparr>) = dozing k"
  "dozing (k\<lparr>pending := x25\<rparr>) = dozing k"
  "dozing (k\<lparr>total_ticks := x26\<rparr>) = dozing k"
  "dozing (k\<lparr>lock_holder := x27\<rparr>) = dozing k"
  "dozing (k\<lparr>readyList := x28\<rparr>) = dozing k"
  "dozing (k\<lparr>currentThread := x29\<rparr>) = dozing k"
  by (simp_all add: dozing_def fun_eq_iff)

lemma quiet_same [simp]:
  "quiet (k\<lparr>level := x0\<rparr>) k' = quiet k k'" "quiet k (k'\<lparr>level := x0\<rparr>) = quiet k k'"
  "quiet (k\<lparr>semaphores := x1\<rparr>) k' = quiet k k'" "quiet k (k'\<lparr>semaphores := x1\<rparr>) = quiet k k'"
  "quiet (k\<lparr>wait_queue := x2\<rparr>) k' = quiet k k'" "quiet k (k'\<lparr>wait_queue := x2\<rparr>) = quiet k k'"
  "quiet (k\<lparr>next_waiter := x3\<rparr>) k' = quiet k k'" "quiet k (k'\<lparr>next_waiter := x3\<rparr>) = quiet k k'"
  "quiet (k\<lparr>synch_lists := x4\<rparr>) k' = quiet k k'" "quiet k (k'\<lparr>synch_lists := x4\<rparr>) = quiet k k'"
  "quiet (k\<lparr>machine := x5\<rparr>) k' = quiet k k'" "quiet k (k'\<lparr>machine := x5\<rparr>) = quiet k k'"
  "quiet (k\<lparr>spaces := x6\<rparr>) k' = quiet k k'" "quiet k (k'\<lparr>spaces := x6\<rparr>) = quiet k k'"
  "quiet (k\<lparr>table_of := x7\<rparr>) k' = quiet k k'" "quiet k (k'\<lparr>table_of := x7\<rparr>) = quiet k k'"
  "quiet (k\<lparr>halted := x8\<rparr>) k' = quiet k k'" "quiet k (k'\<lparr>halted := x8\<rparr>) = quiet k k'"
  "quiet (k\<lparr>incoming := x9\<rparr>) k' = quiet k k'" "quiet k (k'\<lparr>incoming := x9\<rparr>) = quiet k k'"
  "quiet (k\<lparr>screen := x10\<rparr>) k' = quiet k k'" "quiet k (k'\<lparr>screen := x10\<rparr>) = quiet k k'"
  "quiet (k\<lparr>putBusy := x11\<rparr>) k' = quiet k k'" "quiet k (k'\<lparr>putBusy := x11\<rparr>) = quiet k k'"
  "quiet (k\<lparr>rand_count := x12\<rparr>) k' = quiet k k'" "quiet k (k'\<lparr>rand_count := x12\<rparr>) = quiet k k'"
  "quiet (k\<lparr>next_pending := x13\<rparr>) k' = quiet k k'" "quiet k (k'\<lparr>next_pending := x13\<rparr>) = quiet k k'"
  "quiet (k\<lparr>yieldOnReturn := x14\<rparr>) k' = quiet k k'" "quiet k (k'\<lparr>yieldOnReturn := x14\<rparr>) = quiet k k'"
  "quiet (k\<lparr>poll_count := x15\<rparr>) k' = quiet k k'" "quiet k (k'\<lparr>poll_count := x15\<rparr>) = quiet k k'"
  "quiet (k\<lparr>chars_read := x16\<rparr>) k' = quiet k k'" "quiet k (k'\<lparr>chars_read := x16\<rparr>) = quiet k k'"
  "quiet (k\<lparr>chars_written := x17\<rparr>) k' = quiet k k'" "quiet k (k'\<lparr>chars_written := x17\<rparr>) = quiet k k'"
  "quiet (k\<lparr>inHandler := x18\<rparr>) k' = quiet k k'" "quiet k (k'\<lparr>inHandler := x18\<rparr>) = quiet k k'"
  "quiet (k\<lparr>idle_ticks := x19\<rparr>) k' = quiet k k'" "quiet k (k'\<lparr>idle_ticks := x19\<rparr>) = quiet k k'"
  "quiet (k\<lparr>system_ticks := x20\<rparr>) k' = quiet k k'" "quiet k (k'\<lparr>system_ticks := x20\<rparr>) = quiet k k'"
  "quiet (k\<lparr>user_ticks := x21\<rparr>) k' = quiet k k'" "quiet k (k'\<lparr>user_ticks := x21\<rparr>) = quiet k k'"
  "quiet (k\<lparr>toBeDestroyed := x22\<rparr>) k' = quiet k k'" "quiet k (k'\<lparr>toBeDestroyed := x22\<rparr>) = quiet k k'"
  "quiet (k\<lparr>next_thread := x23\<rparr>) k' = quiet k k'" "quiet k (k'\<lparr>next_thread := x23\<rparr>) = quiet k k'"
  by (simp_all add: quiet_def)

lemma quiet_status [simp]: "st \<noteq> IdleMode \<Longrightarrow> quiet k (k\<lparr>mstatus := st\<rparr>)"
  by (simp add: quiet_def)

named_theorems quiets \<open>operations that stay with the running thread\<close>

lemma enter_quiet [quiets]: "enter gs k = Some k' \<Longrightarrow> EndTick IdleMode \<notin> set gs \<Longrightarrow> quiet k k'"
  by (auto simp: enter_def with_thread_def quiet_def mild_def dozing_def)

lemma give_quiet [quiets]: "give v k = Some k' \<Longrightarrow> quiet k k'"
  by (auto simp: give_def with_thread_def quiet_def mild_def dozing_def)

lemma set_status_quiet [quiets]: "set_status t st k = Some k' \<Longrightarrow> quiet k k'"
  by (auto simp: set_status_def with_thread_def quiet_def mild_def dozing_def split: if_split_asm)

lemma SetLevel_quiet [quiets]: "SetLevel l k = Some (old, k') \<Longrightarrow> quiet k k'"
  by (auto simp: SetLevel_def Let_def bind_Some_conv split: if_split_asm dest!: enter_quiet)

lemma ReadyToRun_quiet [quiets]: "ReadyToRun t k = Some k' \<Longrightarrow> quiet k k'"
  by (auto simp: ReadyToRun_def bind_Some_conv seq_Append_def split: if_split_asm dest!: set_status_quiet) (auto simp: quiet_def mild_def)

lemma Schedule_quiet [quiets]: "Schedule c d ty k = Some k' \<Longrightarrow> quiet k k'"
  by (auto simp: Schedule_def Let_def bind_Some_conv quiet_def mild_def seq_Insert_def split: if_split_asm)

lemma V_quiet [quiets]: "Semaphore_V s k = Some k' \<Longrightarrow> quiet k k'"
  by (auto simp: Semaphore_V_def Let_def bind_Some_conv split: if_split_asm dest!: quiets intro: quiet_trans)

lemma P_loop_quiet [quiets]: "P_loop s l k = Some k' \<Longrightarrow> quiet k k'"
  by (auto simp: P_loop_def Thread_Sleep_def Let_def bind_Some_conv split: if_split_asm dest!: quiets intro: quiet_trans)

lemma P_quiet [quiets]: "Semaphore_P s k = Some k' \<Longrightarrow> quiet k k'"
  by (auto simp: Semaphore_P_def bind_Some_conv dest!: quiets intro: quiet_trans)

lemma monitor_quiet [quiets]:
  "Lock_Acquire l k = Some k' \<Longrightarrow> quiet k k'"
  "Condition_Wait c l k = Some k' \<Longrightarrow> quiet k k'"
  "Condition_Signal c l k = Some k' \<Longrightarrow> quiet k k'"
  "Condition_Broadcast c l k = Some k' \<Longrightarrow> quiet k k'"
  "delete_waiter w k = Some k' \<Longrightarrow> quiet k k'"
  by (auto simp: Lock_Acquire_def Condition_Wait_def Condition_Signal_def Condition_Broadcast_def delete_waiter_def Let_def
      bind_Some_conv split: if_split_asm dest!: quiets)

lemma Release_quiet: "Lock_Release l k = Some k' \<Longrightarrow> quiet (k\<lparr>lock_holder := (lock_holder k)(l := None)\<rparr>) k'"
  by (auto simp: Lock_Release_def Let_def bind_Some_conv dest!: quiets)

lemma list_quiet [quiets]:
  "SynchList_Append n x k = Some k' \<Longrightarrow> quiet k k'"
  "append_item n x k = Some k' \<Longrightarrow> quiet k k'"
  "SynchList_RemoveFront n k = Some k' \<Longrightarrow> quiet k k'"
  "remove_loop n k = Some k' \<Longrightarrow> quiet k k'"
  "remove_item n k = Some k' \<Longrightarrow> quiet k k'"
  by (auto simp: SynchList_Append_def append_item_def SynchList_RemoveFront_def remove_loop_def remove_item_def Let_def
      bind_Some_conv split: if_split_asm dest!: quiets)

lemma console_quiet [quiets]:
  "SynchConsole_GetChar k = Some k' \<Longrightarrow> quiet k k'"
  "SynchConsole_PutChar ch k = Some k' \<Longrightarrow> quiet k k'"
  "ConsoleOutput_PutChar ch k = Some k' \<Longrightarrow> quiet k k'"
  "ConsoleInput_GetChar k = Some k' \<Longrightarrow> quiet k k'"
  by (auto simp: SynchConsole_GetChar_def SynchConsole_PutChar_def ConsoleOutput_PutChar_def ConsoleInput_GetChar_def Let_def
      bind_Some_conv split: if_split_asm dest!: quiets intro: quiet_trans)

lemma Exception_quiet [quiets]: "ExceptionHandler e k = Some k' \<Longrightarrow> quiet k k'"
  by (auto simp: ExceptionHandler_def Interrupt_Halt_def bind_Some_conv split: if_split_asm)

lemma store_quiet [simp]: "quiet k (store_table m k)"
  by (simp add: store_table_def split: option.split)

lemma user_quiet [quiets]:
  "user_round k = Some k' \<Longrightarrow> quiet k k'"
  "AddrSpace_Execute sp k = Some k' \<Longrightarrow> quiet k k'"
proof -
  show "quiet k k'" if e: "user_round k = Some k'"
  proof -
    obtain m m' where m: "load_table k = Some m" "OneInstruction m = Some m'"
      using e by (auto simp: user_round_def bind_Some_conv)
    show ?thesis
    proof (cases "trap m'")
      case None
      then have "enter [OneTick, UserLoop] (store_table m' k) = Some k'" using e m by (simp add: user_round_def)
      from quiet_trans [OF store_quiet enter_quiet [OF this]] show ?thesis by simp
    next
      case (Some w)
      then obtain k2 where k2: "ExceptionHandler w (store_table m' k\<lparr>mstatus := SystemMode\<rparr>) = Some k2"
        "enter [OneTick, UserLoop] (k2\<lparr>mstatus := UserMode\<rparr>) = Some k'"
        using e m by (auto simp: user_round_def bind_Some_conv)
      have "quiet (store_table m' k) k2"
        by (rule quiet_trans [OF quiet_status Exception_quiet [OF k2(1)]]) simp
      moreover have "quiet k2 k'" by (rule quiet_trans [OF quiet_status enter_quiet [OF k2(2)]]) simp_all
      ultimately show ?thesis using quiet_trans [OF store_quiet] quiet_trans by blast
    qed
  qed
  show "quiet k k'" if e: "AddrSpace_Execute sp k = Some k'"
  proof -
    have w: "quiet k k1" if "with_thread (currentThread k) (\<lambda>th. th\<lparr>space := Some sp\<rparr>) k = Some k1" for k1
      using that by (auto simp: with_thread_def quiet_def mild_def dozing_def)
    obtain as k1 m k2 where x: "with_thread (currentThread k) (\<lambda>th. th\<lparr>space := Some sp\<rparr>) k = Some k1"
      "RestoreState sp (k1\<lparr>machine := m\<rparr>) = Some k2" "enter [UserLoop] (k2\<lparr>mstatus := UserMode\<rparr>) = Some k'"
      using e by (auto simp: AddrSpace_Execute_def bind_Some_conv)
    have "quiet k1 k2" using x(2) by (auto simp: RestoreState_def bind_Some_conv)
    moreover have "quiet k2 k'" by (rule quiet_trans [OF quiet_status enter_quiet [OF x(3)]]) simp_all
    ultimately show ?thesis using w [OF x(1)] quiet_trans by blast
  qed
qed

subsection \<open>Frames that keep the processor\<close>

text \<open>What a frame changes of locks and of other threads, before the rest of its work.\<close>

fun before :: "frame \<Rightarrow> kernel \<Rightarrow> kernel" where
  "before (Release l) k = k\<lparr>lock_holder := (lock_holder k)(l := None)\<rparr>"
| "before (SetHolder l) k = k\<lparr>lock_holder := (lock_holder k)(l \<mapsto> currentThread k)\<rparr>"
| "before (Fork body) k = k\<lparr>threads := (threads k)(next_thread k \<mapsto> Thread_new body), next_thread := Suc (next_thread k)\<rparr>"
| "before Begin k = cleaned k"
| "before AfterSwitch k = cleaned k"
| "before _ k = k"

lemma cleaned_quiet: "CheckToBeDestroyed k = Some k' \<Longrightarrow> k' = cleaned k"
  by (auto simp: CheckToBeDestroyed_def cleaned_def bind_Some_conv split: option.split_asm)

fun keeps :: "frame \<Rightarrow> kernel \<Rightarrow> bool" where
  "keeps OneTick k = False"
| "keeps (SleepLoop fin) k = False"
| "keeps Yield k = (readyList k = [])"
| "keeps (EndTick st) k = (st \<noteq> IdleMode)"
| "keeps _ k = True"

lemma Yield_quiet:
  assumes "Thread_Yield k = Some k'" and "readyList k = []"
  shows "quiet k k'"
  using assms by (auto simp: Thread_Yield_def FindNextToRun_def bind_Some_conv dest!: SetLevel_quiet)

lemma thread_quiet:
  "Thread_Fork body k = Some k' \<Longrightarrow> quiet (before (Fork body) k) k'"
  "Thread_Begin k = Some k' \<Longrightarrow> quiet (cleaned k) k'"
  "Run_after_switch k = Some k' \<Longrightarrow> quiet (cleaned k) k'"
  "Thread_Finish k = Some k' \<Longrightarrow> quiet k k'"
  by (auto simp: Thread_Fork_def Thread_Begin_def Run_after_switch_def Thread_Finish_def Thread_Sleep_def RestoreUserState_def
      RestoreState_def Let_def bind_Some_conv split: option.split_asm dest!: cleaned_quiet quiets intro: quiet_trans)

lemma exec_quiet:
  assumes "exec f k = Some k'" and "keeps f k"
  shows "quiet (before f k) k'"
proof (cases f)
  case (Release l)
  with assms Release_quiet show ?thesis by simp
next
  case (Fork body)
  with assms(1) thread_quiet(1) show ?thesis by simp
qed (use assms thread_quiet Yield_quiet in \<open>auto simp: bind_Some_conv Lock_set_holder_def Interrupt_Halt_def dest: quiets\<close>)

subsection \<open>Giving up the processor\<close>

fun yields :: "frame \<Rightarrow> bool" where
  "yields Yield = True"
| "yields (SleepLoop _) = True"
| "yields _ = False"

definition top_frame :: "kernel \<Rightarrow> frame option" where
  "top_frame k = (case this_thread k of None \<Rightarrow> None | Some th \<Rightarrow> (case stack th of [] \<Rightarrow> None | f # _ \<Rightarrow> Some f))"

definition switches :: "kernel \<Rightarrow> bool" where
  "switches k \<longleftrightarrow> readyList k \<noteq> [] \<and> (case top_frame k of None \<Rightarrow> False | Some f \<Rightarrow> yields f)"

lemma left_set_this [simp]: "left fin th (set_this x k) = left fin th k"
  by (simp add: left_def saved_def set_this_def)

lemma step_switches:
  assumes "safe k" and "switches k" and "step k = Some k'"
  obtains th th' n rl rl' fin where "this_thread k = Some th" and "readyList k = n # rl"
    and "rl' = rl \<or> rl' = rl @ [currentThread k]" and "k' = dispatch n rl' (left fin th' (k\<lparr>level := IntOff\<rparr>))"
    and "userRegisters th' = userRegisters th" and "space th' = space th" and "returned th' = returned th"
    and "set (stack th') \<subseteq> insert (Restore IntOn) (set (stack th))"
    and "fin \<longleftrightarrow> top_frame k = Some (SleepLoop True)" and "fin \<or> stack th' \<noteq> []"
proof -
  have ok: "kernel_ok k" using assms(1) by (simp add: safe_def)
  obtain th where th: "this_thread k = Some th" "running_ok (level k) k th \<or> sleeping_ok (level k) k th"
    using ok by (auto simp: kernel_ok_def sched_ok_def)
  obtain f fs where f: "stack th = f # fs" "yields f" using assms(2) th(1) by (auto simp: switches_def top_frame_def split: list.splits)
  obtain n rl where r: "readyList k = n # rl" using assms(2) by (cases "readyList k") (auto simp: switches_def)
  note s = step_eq [OF th(1) f(1)]
  show thesis
  proof (cases "sleeping_ok (level k) k th")
    case True
    then obtain fin where fin: "f = SleepLoop fin" using f(1) by (auto simp: sleeping_ok_def asleep_def)
    have l: "k\<lparr>level := IntOff\<rparr> = k" using True by (intro level_same) (simp add: sleeping_ok_def)
    from SleepLoop_switches(1) [OF ok th(1) f(1) [unfolded fin] True r]
    have "k' = dispatch n rl (left fin (th\<lparr>stack := fs\<rparr>) (k\<lparr>level := IntOff\<rparr>))" using s assms(3) fin l by simp
    moreover have "top_frame k = Some (SleepLoop fin)" using th(1) f(1) fin by (simp add: top_frame_def)
    moreover have "fin \<or> fs \<noteq> []" using True f(1) fin by (auto simp: sleeping_ok_def asleep_def)
    ultimately show thesis
      by (intro that [OF th(1) r disjI1 [OF refl], where th' = "th\<lparr>stack := fs\<rparr>" and fin = fin]) (use f(1) in auto)
  next
    case False
    then have run: "running_ok (level k) k th" using th(2) by blast
    moreover have "f = Yield \<or> (\<exists>b. f = SleepLoop b)" using f(2) by (cases f) simp_all
    ultimately have y: "f = Yield" "level k = IntOn" "calls (f # fs)" "toBeDestroyed k = None"
      using f(1) by (auto simp: running_ok_def can_resume_def resumed_def suspended_def yielded_def unborn_def calls_Cons split: if_splits)
    let ?k = "set_this (th\<lparr>stack := fs\<rparr>) k"
    note t = taken [OF ok th(1) f(1) run]
    have "calls fs" using y by (simp add: calls_Cons)
    moreover have "mach_ok ?k" using t(2) by (simp add: calm_def)
    ultimately have "Thread_Yield ?k = Some (dispatch n (rl @ [currentThread k])
        (left False (th\<lparr>thread_status := READY, stack := Restore IntOn # fs\<rparr>) (?k\<lparr>level := IntOff\<rparr>)))"
      using Yield_switches(1) [of ?k fs n rl "th\<lparr>stack := fs\<rparr>"] t(1) r y by simp
    moreover have "?k\<lparr>level := IntOff\<rparr> = set_this (th\<lparr>stack := fs\<rparr>) (k\<lparr>level := IntOff\<rparr>)" by (simp add: set_this_def)
    ultimately have "k' = dispatch n (rl @ [currentThread k])
        (left False (th\<lparr>thread_status := READY, stack := Restore IntOn # fs\<rparr>) (k\<lparr>level := IntOff\<rparr>))"
      using s assms(3) y(1) by simp
    moreover have "top_frame k = Some Yield" using th(1) f(1) y(1) by (simp add: top_frame_def)
    ultimately show thesis
      by (intro that [OF th(1) r disjI2 [OF refl], where th' = "th\<lparr>thread_status := READY, stack := Restore IntOn # fs\<rparr>" and fin = False])
        (use f(1) in auto)
  qed
qed

subsection \<open>The timer\<close>

text \<open>The timer always has an interrupt pending, at most two time slices ahead.\<close>

definition timed :: "kernel \<Rightarrow> bool" where
  "timed k \<longleftrightarrow> \<not> timer_disable k \<and>
     (\<exists>p \<in> set (pending k). callOnInterrupt p = TimerCallBack \<and> pi_when p \<le> total_ticks k + 2 * TimerTicks)"

lemma quiet_timed: "quiet k k' \<Longrightarrow> timed k \<Longrightarrow> timed k'"
  by (auto simp: quiet_def timed_def)

lemma Schedule_sorted:
  "Schedule c d ty k = Some k' \<Longrightarrow> sorted_by PendingCompare (pending k) \<Longrightarrow> sorted_by PendingCompare (pending k')"
  by (auto simp: Schedule_def seq_Insert_def Let_def bind_Some_conv intro: pending_order.insert_sorted split: if_split_asm)

lemma Timer_SetInterrupt_quiet [quiets]: "Timer_SetInterrupt k = Some k' \<Longrightarrow> quiet k k'"
  by (auto simp: Timer_SetInterrupt_def RandomNumber_def split: if_split_asm dest!: quiets)

lemma CallBack_quiet: "CallBack c k = Some k' \<Longrightarrow> quiet k k'"
  by (auto simp: CallBack_def Timer_CallBack_def Alarm_CallBack_def YieldOnReturn_def ConsoleOutput_CallBack_def
      ConsoleInput_CallBack_def Let_def bind_Some_conv split: callback.split_asm poll.split_asm if_split_asm dest!: quiets)

text \<open>What the callbacks of one pass of the clock do, whatever thread they interrupt.\<close>

definition fires :: "kernel \<Rightarrow> kernel \<Rightarrow> bool" where
  "fires k k' \<longleftrightarrow> mild k k' \<and> (dozing k' (currentThread k) \<longrightarrow> dozing k (currentThread k)) \<and>
     total_ticks k' = total_ticks k \<and> mstatus k' = mstatus k \<and>
     (sorted_by PendingCompare (pending k) \<longrightarrow> sorted_by PendingCompare (pending k')) \<and>
     (yieldOnReturn k \<longrightarrow> yieldOnReturn k') \<and> (timed k \<longrightarrow> timed k') \<and>
     (\<forall>p \<in> set (pending k). callOnInterrupt p = TimerCallBack \<longrightarrow> mstatus k \<noteq> IdleMode \<longrightarrow>
        yieldOnReturn k' \<or> p \<in> set (pending k'))"

lemma fires_trans: "fires k k' \<Longrightarrow> fires k' k'' \<Longrightarrow> fires k k''"
proof -
  assume a: "fires k k'" and b: "fires k' k''"
  have "mild k k''" "currentThread k' = currentThread k" using a b mild_trans by (auto simp: fires_def mild_def)
  with a b show ?thesis unfolding fires_def by auto
qed

named_theorems sames \<open>what a callback leaves of the clock\<close>

definition clocked :: "kernel \<Rightarrow> kernel \<Rightarrow> bool" where
  "clocked k k' \<longleftrightarrow> mstatus k' = mstatus k \<and> (yieldOnReturn k \<longrightarrow> yieldOnReturn k') \<and>
     (sorted_by PendingCompare (pending k) \<longrightarrow> sorted_by PendingCompare (pending k'))"

lemma clocked_ops [sames]:
  "enter gs k = Some k' \<Longrightarrow> clocked k k'"
  "set_status t st k = Some k' \<Longrightarrow> clocked k k'"
  "Schedule c d ty k = Some k' \<Longrightarrow> clocked k k'"
  using Schedule_sorted [of c d ty k k']
  by (auto simp: clocked_def enter_def set_status_def with_thread_def Schedule_def Let_def bind_Some_conv)

lemma clocked_same [simp]: "clocked k k"
  "clocked (k\<lparr>level := a\<rparr>) k' = clocked k k'" "clocked (k\<lparr>semaphores := b\<rparr>) k' = clocked k k'"
  "clocked (k\<lparr>readyList := c\<rparr>) k' = clocked k k'" "clocked k (k'\<lparr>readyList := c\<rparr>) = clocked k k'"
  "clocked (k\<lparr>rand_count := d\<rparr>) k' = clocked k k'" "clocked (k\<lparr>putBusy := e\<rparr>) k' = clocked k k'"
  "clocked (k\<lparr>chars_written := f\<rparr>) k' = clocked k k'" "clocked (k\<lparr>chars_read := f\<rparr>) k' = clocked k k'"
  "clocked (k\<lparr>poll_count := g\<rparr>) k' = clocked k k'" "clocked (k\<lparr>incoming := h\<rparr>) k' = clocked k k'"
  "clocked k (k\<lparr>yieldOnReturn := True\<rparr>)" "clocked k (k'\<lparr>level := a\<rparr>) = clocked k k'" "clocked k (k'\<lparr>semaphores := b\<rparr>) = clocked k k'"
  by (simp_all add: clocked_def)

lemma clocked_trans: "clocked k k' \<Longrightarrow> clocked k' k'' \<Longrightarrow> clocked k k''"
  by (auto simp: clocked_def)

lemma SetLevel_clocked [sames]: "SetLevel l k = Some (old, k') \<Longrightarrow> clocked k k'"
  by (auto simp: SetLevel_def Let_def bind_Some_conv split: if_split_asm dest!: sames)

lemma ReadyToRun_clocked [sames]: "ReadyToRun t k = Some k' \<Longrightarrow> clocked k k'"
  by (auto simp: ReadyToRun_def bind_Some_conv dest!: sames)

lemma V_clocked [sames]: "Semaphore_V s k = Some k' \<Longrightarrow> clocked k k'"
  by (auto simp: Semaphore_V_def Let_def bind_Some_conv split: if_split_asm dest!: sames intro: clocked_trans)

lemma Timer_SetInterrupt_clocked [sames]: "Timer_SetInterrupt k = Some k' \<Longrightarrow> clocked k k'"
  by (auto simp: Timer_SetInterrupt_def RandomNumber_def split: if_split_asm dest!: sames)

lemma CallBack_clocked: "CallBack c k = Some k' \<Longrightarrow> clocked k k'"
  by (auto simp: CallBack_def Timer_CallBack_def Alarm_CallBack_def YieldOnReturn_def ConsoleOutput_CallBack_def
      ConsoleInput_CallBack_def Let_def bind_Some_conv split: callback.split_asm poll.split_asm if_split_asm
      dest!: sames intro: clocked_trans [OF clocked_same(12)])

lemma Timer_CallBack_timed:
  assumes "Timer_CallBack k = Some k'" and "\<not> timer_disable k"
  shows "timed k'" and "mstatus k \<noteq> IdleMode \<Longrightarrow> yieldOnReturn k'"
proof -
  obtain k1 where k1: "Alarm_CallBack k = Some k1" "Timer_SetInterrupt k1 = Some k'"
    using assms(1) by (auto simp: Timer_CallBack_def bind_Some_conv)
  have a: "\<not> timer_disable k1" "mstatus k \<noteq> IdleMode \<Longrightarrow> yieldOnReturn k1" "total_ticks k1 = total_ticks k"
    using k1(1) assms(2) by (auto simp: Alarm_CallBack_def YieldOnReturn_def bind_Some_conv split: if_split_asm)
  with k1(2) show "mstatus k \<noteq> IdleMode \<Longrightarrow> yieldOnReturn k'"
    using Timer_SetInterrupt_clocked by (auto simp: clocked_def)
  have "1 + r mod (TimerTicks * 2) \<le> 2 * TimerTicks" for r
    using pos_mod_bound [of "TimerTicks * 2" r] by (simp add: TimerTicks_def)
  with k1(2) a(1) show "timed k'"
    by (auto simp: Timer_SetInterrupt_def RandomNumber_def Schedule_def Let_def seq_Insert_def bind_Some_conv timed_def
        TimerTicks_def split: if_split_asm)
qed

lemma one_fires:
  assumes "CallBack (callOnInterrupt p) (k\<lparr>pending := ps\<rparr>) = Some k'" and "pending k = p # ps"
  shows "fires k k'"
proof -
  let ?k = "k\<lparr>pending := ps\<rparr>"
  have q: "quiet ?k k'" and c: "clocked ?k k'" using assms(1) CallBack_quiet CallBack_clocked by blast+
  have t: "Timer_CallBack ?k = Some k'" if "callOnInterrupt p = TimerCallBack" using assms(1) that by (simp add: CallBack_def)
  have "timed k'" if "timed k"
  proof (cases "callOnInterrupt p = TimerCallBack")
    case True
    with t Timer_CallBack_timed(1) [of ?k k'] that show ?thesis by (simp add: timed_def)
  next
    case False
    then have "timed ?k" using that assms(2) by (auto simp: timed_def)
    with quiet_timed [OF q] show ?thesis .
  qed
  moreover have "sorted_by PendingCompare ps" if "sorted_by PendingCompare (pending k)"
    using that assms(2) sorted_tail by simp
  moreover have "yieldOnReturn k'" if "callOnInterrupt p = TimerCallBack" "mstatus k \<noteq> IdleMode"
    using that assms(1) by (auto simp: CallBack_def Timer_CallBack_def Alarm_CallBack_def YieldOnReturn_def bind_Some_conv
        clocked_def dest!: Timer_SetInterrupt_clocked)
  ultimately show ?thesis using q c assms(2) by (auto simp: fires_def quiet_def clocked_def)
qed

lemma fire_loop_fires: "fire_loop k = Some k' \<Longrightarrow> fires k k'"
proof (induction rule: fire_loop.raw_induct [rotated, consumes 1])
  case (1 loop k k')
  then obtain p ps k1 where p: "pending k = p # ps" and k1: "CallBack (callOnInterrupt p) (k\<lparr>pending := ps\<rparr>) = Some k1"
    and r: "(if pending k1 \<noteq> [] \<and> pi_when (hd (pending k1)) \<le> total_ticks k1 then loop k1 else Some k1) = Some k'"
    by (auto split: list.split_asm option.split_asm)
  have "k' = k1 \<or> fires k1 k'" using r 1(1) by (auto split: if_split_asm)
  with one_fires [OF k1 p] fires_trans show ?case by blast
qed

lemma sorted_head: "sorted_by PendingCompare ps \<Longrightarrow> p \<in> set ps \<Longrightarrow> pi_when (hd ps) \<le> pi_when p"
  by (cases ps) (auto simp: sorted_by_def PendingCompare_def split: if_split_asm)

lemma fire_loop_due:
  "fire_loop k = Some k' \<Longrightarrow> sorted_by PendingCompare (pending k) \<longrightarrow> mstatus k \<noteq> IdleMode \<longrightarrow>
     yieldOnReturn k \<or> (\<exists>p \<in> set (pending k). callOnInterrupt p = TimerCallBack \<and> pi_when p \<le> total_ticks k) \<longrightarrow>
     yieldOnReturn k'"
proof (induction rule: fire_loop.raw_induct [rotated, consumes 1])
  case (1 loop k k')
  then obtain q ps k1 where q: "pending k = q # ps" and k1: "CallBack (callOnInterrupt q) (k\<lparr>pending := ps\<rparr>) = Some k1"
    and r: "(if pending k1 \<noteq> [] \<and> pi_when (hd (pending k1)) \<le> total_ticks k1 then loop k1 else Some k1) = Some k'"
    by (auto split: list.split_asm option.split_asm)
  have f: "fires k k1" by (rule one_fires [OF k1 q])
  show ?case
  proof (intro impI)
    assume s: "sorted_by PendingCompare (pending k)" "mstatus k \<noteq> IdleMode" and
      d: "yieldOnReturn k \<or> (\<exists>p \<in> set (pending k). callOnInterrupt p = TimerCallBack \<and> pi_when p \<le> total_ticks k)"
    have i: "sorted_by PendingCompare (pending k1)" "mstatus k1 \<noteq> IdleMode"
      "yieldOnReturn k1 \<or> (\<exists>p \<in> set (pending k1). callOnInterrupt p = TimerCallBack \<and> pi_when p \<le> total_ticks k1)"
      using f s d by (auto simp: fires_def)
    show "yieldOnReturn k'"
    proof (cases "pending k1 \<noteq> [] \<and> pi_when (hd (pending k1)) \<le> total_ticks k1")
      case True
      with r have "loop k1 = Some k'" by simp
      from 1(1) [OF this] i show ?thesis by blast
    next
      case False
      then have "yieldOnReturn k1" using i(1,3) sorted_head by fastforce
      with False r show ?thesis by auto
    qed
  qed
qed

text \<open>One look at the clock.\<close>

lemma CheckIfDue_fires:
  assumes "CheckIfDue adv k = Some (b, k')" and "sorted_by PendingCompare (pending k)"
  shows "fires (k\<lparr>total_ticks := total_ticks k'\<rparr>) k'" and "total_ticks k \<le> total_ticks k'"
    and "\<not> adv \<Longrightarrow> total_ticks k' = total_ticks k"
    and "\<not> adv \<Longrightarrow> mstatus k \<noteq> IdleMode \<Longrightarrow> p \<in> set (pending k) \<Longrightarrow> callOnInterrupt p = TimerCallBack \<Longrightarrow>
      pi_when p \<le> total_ticks k \<Longrightarrow> yieldOnReturn k'"
proof -
  have refl: "fires k k" by (simp add: fires_def)
  have "fires (k\<lparr>total_ticks := total_ticks k'\<rparr>) k' \<and> total_ticks k \<le> total_ticks k' \<and> (\<not> adv \<longrightarrow> total_ticks k' = total_ticks k) \<and>
    (\<not> adv \<longrightarrow> mstatus k \<noteq> IdleMode \<longrightarrow> p \<in> set (pending k) \<longrightarrow> callOnInterrupt p = TimerCallBack \<longrightarrow>
      pi_when p \<le> total_ticks k \<longrightarrow> yieldOnReturn k')"
  proof (cases "pending k = [] \<or> (pi_when (hd (pending k)) > total_ticks k \<and> \<not> adv)")
    case True
    then have "k' = k" using assms(1) by (auto simp: CheckIfDue_def bind_Some_conv split: if_split_asm)
    with True sorted_head [OF assms(2), of p] refl show ?thesis by (auto simp: fires_def)
  next
    case False
    let ?w = "pi_when (hd (pending k))"
    define k1 where "k1 = (if ?w > total_ticks k then k\<lparr>idle_ticks := idle_ticks k + (?w - total_ticks k), total_ticks := ?w\<rparr> else k)"
    obtain m k2 where k2: "fire_loop (k1\<lparr>machine := m, inHandler := True\<rparr>) = Some k2" "k' = k2\<lparr>inHandler := False\<rparr>"
      using assms(1) False by (auto simp: CheckIfDue_def k1_def Let_def bind_Some_conv split: if_split_asm)
    note f = fire_loop_fires [OF k2(1)] and d = fire_loop_due [OF k2(1)]
    have t: "total_ticks k' = total_ticks k1" using f k2(2) by (simp add: fires_def)
    have k1: "k1 = k\<lparr>idle_ticks := idle_ticks k1, total_ticks := total_ticks k1\<rparr>" "total_ticks k \<le> total_ticks k1"
      "\<not> adv \<Longrightarrow> total_ticks k1 = total_ticks k"
      using False by (auto simp: k1_def)
    have "fires (k\<lparr>total_ticks := total_ticks k'\<rparr>) k'"
      using f unfolding t k2(2) by (subst (asm) k1(1)) (auto simp: fires_def timed_def)
    moreover have "yieldOnReturn k'" if "\<not> adv" "mstatus k \<noteq> IdleMode" "p \<in> set (pending k)" "callOnInterrupt p = TimerCallBack"
      "pi_when p \<le> total_ticks k"
      using d that assms(2) k1(3) k2(2) by (subst (asm) (1 2 3 4) k1(1)) auto
    ultimately show ?thesis using t k1 by auto
  qed
  then show "fires (k\<lparr>total_ticks := total_ticks k'\<rparr>) k'" "total_ticks k \<le> total_ticks k'"
    "\<not> adv \<Longrightarrow> total_ticks k' = total_ticks k"
    "\<not> adv \<Longrightarrow> mstatus k \<noteq> IdleMode \<Longrightarrow> p \<in> set (pending k) \<Longrightarrow> callOnInterrupt p = TimerCallBack \<Longrightarrow>
      pi_when p \<le> total_ticks k \<Longrightarrow> yieldOnReturn k'" by blast+
qed

text \<open>The machine is not idle and no thread will say it was: then a timer interrupt makes the thread yield.\<close>

definition awake :: "kernel \<Rightarrow> bool" where
  "awake k \<longleftrightarrow> mstatus k \<noteq> IdleMode \<and> (\<forall>t. \<not> dozing k t)"

lemma mild_dozing:
  assumes "mild k k'" and "t \<noteq> currentThread k"
  shows "dozing k' t = dozing k t"
proof -
  have "core (threads k' t) = core (threads k t)" using assms by (simp add: mild_def)
  then show ?thesis by (cases "threads k t"; cases "threads k' t") (auto simp: dozing_def)
qed

lemma mild_awake:
  assumes "mild k k'" and "dozing k' (currentThread k) \<Longrightarrow> dozing k (currentThread k)" and "mstatus k' \<noteq> IdleMode" and "awake k"
  shows "awake k'"
proof -
  have "\<not> dozing k' t" for t using assms mild_dozing [of k k' t] by (cases "t = currentThread k") (auto simp: awake_def)
  with assms(3) show ?thesis by (simp add: awake_def)
qed

lemma quiet_awake: "quiet k k' \<Longrightarrow> awake k \<Longrightarrow> awake k'"
  by (rule mild_awake) (auto simp: quiet_def awake_def)

lemma OneTick_effect:
  assumes "OneTick_run k = Some k'" and "sorted_by PendingCompare (pending k)" and "awake k"
  shows "mild k k'" and "awake k'" and "timed k \<Longrightarrow> timed k'" and "total_ticks k < total_ticks k'"
    and "p \<in> set (pending k) \<Longrightarrow> callOnInterrupt p = TimerCallBack \<Longrightarrow>
      top_frame k' = Some Yield \<or> (p \<in> set (pending k') \<and> total_ticks k' < pi_when p)"
proof -
  let ?t = "if mstatus k = SystemMode
      then k\<lparr>total_ticks := total_ticks k + SystemTick, system_ticks := system_ticks k + SystemTick\<rparr>
      else k\<lparr>total_ticks := total_ticks k + UserTick, user_ticks := user_ticks k + UserTick\<rparr>"
  let ?k = "?t\<lparr>level := IntOff\<rparr>"
  obtain b k1 where k1: "CheckIfDue False ?k = Some (b, k1)"
    "(if yieldOnReturn k1 then enter [Yield, EndTick (mstatus k)] (k1\<lparr>level := IntOn, yieldOnReturn := False, mstatus := SystemMode\<rparr>)
      else Some (k1\<lparr>level := IntOn\<rparr>)) = Some k'"
    using assms(1) by (auto simp: OneTick_run_def Let_def bind_Some_conv split: if_split_asm)
  have w: "sorted_by PendingCompare (pending ?k)" "pending ?k = pending k" "mstatus ?k = mstatus k" "mild k ?k" "total_ticks k < total_ticks ?k"
    "currentThread ?k = currentThread k" "dozing ?k = dozing k" "timed k \<Longrightarrow> timed ?k"
    using assms(2) by (auto simp: SystemTick_def UserTick_def timed_def)
  note c = CheckIfDue_fires [OF k1(1) w(1)]
  have t: "total_ticks k1 = total_ticks ?k" using c(3) by simp
  have "?k\<lparr>total_ticks := total_ticks ?k\<rparr> = ?k" by simp
  with c(1) t have f: "fires ?k k1" by simp
  have m: "mild k k1" using mild_trans [OF w(4)] f by (simp add: fires_def)
  have a: "awake k1" by (rule mild_awake [OF m _ _ assms(3)]) (use f w assms(3) in \<open>auto simp: fires_def awake_def\<close>)
  have due: "yieldOnReturn k1 \<or> (p \<in> set (pending k1) \<and> total_ticks k1 < pi_when p)"
    if "p \<in> set (pending k)" "callOnInterrupt p = TimerCallBack" for p
    using c(4) [of p] f that w assms(3) t unfolding fires_def awake_def by force
  have tm: "timed k1" if "timed k" using f w(8) that by (simp add: fires_def)
  have "mild k k' \<and> awake k' \<and> (timed k \<longrightarrow> timed k') \<and> total_ticks k < total_ticks k' \<and>
      (p \<in> set (pending k) \<longrightarrow> callOnInterrupt p = TimerCallBack \<longrightarrow>
        top_frame k' = Some Yield \<or> (p \<in> set (pending k') \<and> total_ticks k' < pi_when p))"
  proof (cases "yieldOnReturn k1")
    case False
    with k1(2) have k': "k' = k1\<lparr>level := IntOn\<rparr>" by simp
    then have "quiet k1 k'" by simp
    with quiet_awake [OF this a] quiet_timed [OF this] tm show ?thesis
      using m due [of p] False w(5) t unfolding k' by simp
  next
    case True
    let ?y = "k1\<lparr>level := IntOn, yieldOnReturn := False, mstatus := SystemMode\<rparr>"
    have e: "enter [Yield, EndTick (mstatus k)] ?y = Some k'" using k1(2) True by simp
    have "quiet ?y k'" by (rule enter_quiet [OF e]) (use assms(3) in \<open>auto simp: awake_def\<close>)
    moreover have "quiet k1 ?y" by (rule quiet_trans [OF _ quiet_status]) simp_all
    ultimately have q: "quiet k1 k'" using quiet_trans by blast
    have "top_frame k' = Some Yield" using e by (auto simp: enter_def with_thread_def top_frame_def this_thread_def)
    with mild_trans [OF m quiet_mild [OF q]] quiet_awake [OF q a] quiet_timed [OF q] tm show ?thesis
      using q w(5) t by (simp add: quiet_def)
  qed
  then show "mild k k'" "awake k'" "timed k \<Longrightarrow> timed k'" "total_ticks k < total_ticks k'"
    "p \<in> set (pending k) \<Longrightarrow> callOnInterrupt p = TimerCallBack \<Longrightarrow>
      top_frame k' = Some Yield \<or> (p \<in> set (pending k') \<and> total_ticks k' < pi_when p)" by blast+
qed

lemma Idle_effect:
  assumes "Idle k = Some k'" and "sorted_by PendingCompare (pending k)" and "awake k"
  shows "mild k k'" and "awake k' \<or> halted k'" and "timed k \<Longrightarrow> timed k'"
proof -
  let ?k = "k\<lparr>mstatus := IdleMode\<rparr>"
  obtain b k1 where k1: "CheckIfDue True ?k = Some (b, k1)"
    "(if b then k1\<lparr>mstatus := SystemMode\<rparr> else k1\<lparr>halted := True\<rparr>) = k'"
    using assms(1) by (auto simp: Idle_def Interrupt_Halt_def bind_Some_conv split: if_split_asm)
  let ?t = "?k\<lparr>total_ticks := total_ticks k1\<rparr>"
  have s: "sorted_by PendingCompare (pending ?k)" using assms(2) by simp
  note c = CheckIfDue_fires [OF k1(1) s]
  have f: "mild k k1" "dozing k1 (currentThread k) \<Longrightarrow> dozing k (currentThread k)" using c(1) by (simp_all add: fires_def)
  have tm: "timed k1" if "timed k"
  proof -
    have "timed ?t" using that c(2) by (force simp: timed_def)
    with c(1) show ?thesis by (simp add: fires_def)
  qed
  have m: "mild k k'" using k1(2) f(1) by auto
  then show "mild k k'" .
  show "timed k'" if "timed k" using k1(2) tm [OF that] by (cases b) (auto simp: timed_def)
  show "awake k' \<or> halted k'"
  proof (cases b)
    case True
    have "awake k'" by (rule mild_awake [OF m _ _ assms(3)]) (use k1(2) True f(2) in auto)
    then show ?thesis ..
  next
    case False
    with k1(2) show ?thesis by auto
  qed
qed

end
