(* ===== verification/Kernel_Progress.thy ===== *)
theory Kernel_Progress
  imports Kernel_Quiet
begin

text \<open>
  Progress of the kernel: a thread on the ready list gets the processor after the threads before it,
  however the threads and user programs behave; and what a user program has in the registers when it
  loses the processor is there again when it goes on.
\<close>

subsection \<open>The kinds of steps\<close>

lemma quiet_this: "this_thread k = Some th \<Longrightarrow> stack th = f # fs \<Longrightarrow> quiet k (set_this (th\<lparr>stack := fs\<rparr>) k)"
  by (auto simp: quiet_def mild_def dozing_def set_this_def this_thread_def)

lemma before_simps [simp]:
  "readyList (before f k) = readyList k" "currentThread (before f k) = currentThread k" "pending (before f k) = pending k"
  "total_ticks (before f k) = total_ticks k" "timer_disable (before f k) = timer_disable k" "mstatus (before f k) = mstatus k"
  by (cases f; simp add: cleaned_def split: option.split)+

lemma step_kinds:
  assumes "safe k" and "awake k" and "step k = Some k'" and "\<not> switches k"
  obtains (keeps) th f fs where "this_thread k = Some th" and "stack th = f # fs" and "keeps f (set_this (th\<lparr>stack := fs\<rparr>) k)"
      and "exec f (set_this (th\<lparr>stack := fs\<rparr>) k) = Some k'" and "quiet (before f (set_this (th\<lparr>stack := fs\<rparr>) k)) k'"
    | (tick) th fs where "this_thread k = Some th" and "stack th = OneTick # fs" and "OneTick_run (set_this (th\<lparr>stack := fs\<rparr>) k) = Some k'"
    | (idle) "readyList k = []" and "Idle k = Some k'"
proof -
  obtain th where t: "this_thread k = Some th" using assms(3) by (cases "this_thread k") (auto simp: step_def)
  then obtain f fs where th: "this_thread k = Some th" "stack th = f # fs"
    using assms(3) by (cases "stack th") (auto simp: step_def)
  let ?k = "set_this (th\<lparr>stack := fs\<rparr>) k"
  have e: "exec f ?k = Some k'" using step_eq [OF th] assms(3) by simp
  show thesis
  proof (cases "keeps f ?k")
    case True
    from keeps [OF th True e exec_quiet [OF e True]] show thesis .
  next
    case False
    have "EndTick IdleMode \<notin> set (stack th)" using assms(2) th(1) by (auto simp: awake_def dozing_def this_thread_def)
    then have "f = OneTick \<or> (\<exists>fin. f = SleepLoop fin) \<or> (f = Yield \<and> readyList k \<noteq> [])"
      using False th(2) by (cases f) auto
    moreover have "\<not> (f = Yield \<and> readyList k \<noteq> [])"
      using assms(4) th by (auto simp: switches_def top_frame_def)
    moreover have thesis if "f = OneTick" using tick [OF th(1)] th(2) e that by simp
    moreover have thesis if s: "f = SleepLoop fin" for fin
    proof -
      have r: "readyList k = []" using assms(4) th s by (auto simp: switches_def top_frame_def)
      have "set_this (th\<lparr>stack := SleepLoop fin # fs\<rparr>) k = k"
        using th s by (cases k, cases th) (simp add: set_this_def this_thread_def fun_upd_idem)
      moreover have "level k = IntOff"
        using e s by (simp add: Sleep_loop_def FindNextToRun_def bind_Some_conv split: if_split_asm)
      ultimately have "Sleep_loop fin ?k = Idle k"
        using r th s by (simp add: Sleep_loop_def FindNextToRun_def enter_eq)
      with e s r idle show thesis by simp
    qed
    ultimately show thesis by blast
  qed
qed

lemma before_mild:
  assumes "awake k" and "\<And>body. f = Fork body \<Longrightarrow> list_all public body"
  shows "awake (before f k)"
proof -
  have "dozing (before f k) t \<longrightarrow> dozing k t \<or> (\<exists>body. f = Fork body \<and> EndTick IdleMode \<in> set (stack (Thread_new body)))" for t
    by (cases f) (auto simp: dozing_def cleaned_def split: option.split_asm if_split_asm)
  moreover have "EndTick IdleMode \<notin> set (stack (Thread_new body))" if "list_all public body" for body
    using that by (auto simp: Thread_new_def list_all_iff)
  ultimately have "\<not> dozing (before f k) t" for t using assms by (fastforce simp: awake_def)
  with assms(1) show ?thesis by (simp add: awake_def)
qed

lemma fork_public:
  assumes "safe k" and "this_thread k = Some th" and "stack th = Fork body # fs"
  shows "list_all public body"
proof -
  have "running_ok (level k) k th \<or> sleeping_ok (level k) k th"
    using assms(1,2) by (auto simp: safe_def kernel_ok_def sched_ok_def)
  then show ?thesis
    using assms(3) by (auto simp: running_ok_def sleeping_ok_def asleep_def can_resume_def resumed_def suspended_def
        yielded_def unborn_def calls_Cons split: if_splits)
qed

text \<open>The invariant of progress.\<close>

definition steady :: "kernel \<Rightarrow> bool" where
  "steady k \<longleftrightarrow> safe k \<and> timed k \<and> (awake k \<or> halted k)"

lemma steady_sorted: "steady k \<Longrightarrow> sorted_by PendingCompare (pending k)"
  by (simp add: steady_def safe_def kernel_ok_def calm_def pend_ok_def)

lemma before_timed: "timed k \<Longrightarrow> timed (before f k)"
  by (simp add: timed_def)

lemma steady_stays:
  assumes "steady k" and "kstep k k'" and "\<not> switches k"
  shows "steady k'" and "\<exists>rl. readyList k' = readyList k @ rl" and "currentThread k' = currentThread k"
proof -
  have st: "step k = Some k'" "\<not> halted k" using assms(2) by (simp_all add: kstep_iff)
  have s: "safe k" "timed k" "awake k" "safe k'" using assms(1) st kstep_safe(1) [OF _ assms(2)] by (auto simp: steady_def)
  have "timed k' \<and> (awake k' \<or> halted k') \<and> (\<exists>rl. readyList k' = readyList k @ rl) \<and> currentThread k' = currentThread k"
    using s(1,3) st(1) assms(3)
  proof (cases rule: step_kinds)
    case (keeps th f fs)
    let ?k = "set_this (th\<lparr>stack := fs\<rparr>) k"
    note q = quiet_this [OF keeps(1,2)]
    have "awake (before f ?k)"
      by (rule before_mild [OF quiet_awake [OF q s(3)]]) (use fork_public [OF s(1) keeps(1)] keeps(2) in blast)
    then have "awake k'" by (rule quiet_awake [OF keeps(5)])
    moreover have "timed k'" by (rule quiet_timed [OF keeps(5) before_timed [OF quiet_timed [OF q s(2)]]])
    ultimately show ?thesis using keeps(5) by (simp add: quiet_def mild_def)
  next
    case (tick th fs)
    let ?k = "set_this (th\<lparr>stack := fs\<rparr>) k"
    note q = quiet_this [OF tick(1,2)]
    note o = OneTick_effect [OF tick(3) _ quiet_awake [OF q s(3)]]
    have "sorted_by PendingCompare (pending ?k)" using steady_sorted [OF assms(1)] by (simp add: set_this_def)
    from o(1-3) [OF this] show ?thesis using quiet_timed [OF q s(2)] by (auto simp: mild_def)
  next
    case idle
    note i = Idle_effect [OF idle(2) steady_sorted [OF assms(1)] s(3)]
    from i(1,2) i(3) [OF s(2)] show ?thesis by (simp add: mild_def)
  qed
  with s(4) show "steady k'" "\<exists>rl. readyList k' = readyList k @ rl" "currentThread k' = currentThread k"
    by (auto simp: steady_def)
qed

lemma steady_switches:
  assumes "steady k" and "kstep k k'" and "switches k"
  shows "steady k'" and "\<exists>n rl rl'. readyList k = n # rl \<and> currentThread k' = n \<and> readyList k' = rl @ rl'"
proof -
  have st: "step k = Some k'" "\<not> halted k" using assms(2) by (simp_all add: kstep_iff)
  have s: "safe k" "timed k" "awake k" "safe k'" using assms(1) st kstep_safe(1) [OF _ assms(2)] by (auto simp: steady_def)
  obtain th th' n rl rl' fin where w: "this_thread k = Some th" "readyList k = n # rl" "rl' = rl \<or> rl' = rl @ [currentThread k]"
    "k' = dispatch n rl' (left fin th' (k\<lparr>level := IntOff\<rparr>))" "set (stack th') \<subseteq> insert (Restore IntOn) (set (stack th))"
    by (rule step_switches [OF s(1) assms(3) st(1)]) blast
  show "\<exists>n rl rl'. readyList k = n # rl \<and> currentThread k' = n \<and> readyList k' = rl @ rl'"
    using w(2-4) by auto
  have "dozing k' t \<longrightarrow> dozing k t \<or> dozing k (currentThread k)" for t
    using w(1,5) unfolding w(4) by (auto simp: dozing_def dispatch_def this_thread_def split: if_split_asm)
  moreover have "mstatus k' = mstatus k" "timed k' = timed k" unfolding w(4) by (simp_all add: dispatch_def left_def set_this_def timed_def)
  ultimately show "steady k'" using s by (auto simp: steady_def awake_def)
qed

lemma steady_step: "steady k \<Longrightarrow> kstep k k' \<Longrightarrow> steady k'"
  using steady_stays(1) steady_switches(1) by blast

lemma start_steady:
  assumes "boot_ok rnd init m sps body" and "Kernel_Initialize randomSlice rnd kbd init m sps body = Some k"
  shows "steady k"
proof -
  let ?n = "Kernel_new randomSlice rnd kbd init m sps body"
  obtain k1 k2 ol where k: "Timer_SetInterrupt ?n = Some k1" "Schedule ConsoleInputCallBack ConsoleTime ConsoleReadInt k1 = Some k2"
    "SetLevel IntOn k2 = Some (ol, k)"
    using assms(2) by (auto simp: Kernel_Initialize_def Let_def bind_Some_conv)
  have t: "timed k1"
  proof -
    have "1 + r mod (TimerTicks * 2) \<le> 2 * TimerTicks" for r
      using pos_mod_bound [of "TimerTicks * 2" r] by (simp add: TimerTicks_def)
    with k(1) show ?thesis
      by (auto simp: Timer_SetInterrupt_def RandomNumber_def Schedule_def Let_def seq_Insert_def bind_Some_conv timed_def
          Kernel_new_def TimerTicks_def split: if_split_asm)
  qed
  have q: "quiet k1 k" using quiet_trans [OF Schedule_quiet [OF k(2)] SetLevel_quiet [OF k(3)]] .
  have b: "list_all public body" using assms(1) by (simp add: boot_ok_def)
  have "awake ?n" using b by (auto simp: awake_def dozing_def Kernel_new_def list_all_iff split: if_split_asm)
  then have "awake k1" using quiet_awake [OF Timer_SetInterrupt_quiet [OF k(1)]] by blast
  with quiet_awake [OF q] quiet_timed [OF q t] start_safe [OF assms] show ?thesis by (simp add: steady_def)
qed

lemma reachable_steady:
  assumes "reachable k0 k" and "steady k0"
  shows "steady k"
  using assms(1) by induction (use assms(2) steady_step in auto)

subsection \<open>The next tick is near\<close>

text \<open>
  Every thread soon comes to a call of \<open>OneTick\<close>, yields or sleeps: a bound on the number of its
  steps until then.
\<close>

fun quick :: "frame \<Rightarrow> kernel \<Rightarrow> bool" where
  "quick (SemP _) k = True"
| "quick (SemV _) k = True"
| "quick (Release _) k = True"
| "quick (Signal c _) k = (wait_queue k c \<noteq> [])"
| "quick (Fork _) k = True"
| "quick Begin k = True"
| "quick Finish k = True"
| "quick (Restore _) k = True"
| "quick (PLoop _ _) k = True"
| "quick UserLoop k = True"
| "quick _ k = False"

fun distance :: "frame \<Rightarrow> nat \<Rightarrow> kernel \<Rightarrow> nat" where
  "distance OneTick n k = 0"
| "distance Yield n k = 0"
| "distance (SleepLoop _) n k = 0"
| "distance (Acquire _) n k = 2"
| "distance (Wait _ _) n k = 2"
| "distance (Execute _) n k = 2"
| "distance (ListAppend _ _) n k = 3"
| "distance (ListRemoveFront _) n k = 3"
| "distance (PutChar _) n k = 3"
| "distance GetChar n k = 3"
| "distance f n k = (if quick f k then 1 else 4 * Suc n)"

definition rank :: "kernel \<Rightarrow> nat" where
  "rank k = (case this_thread k of None \<Rightarrow> 0
     | Some th \<Rightarrow> (case stack th of [] \<Rightarrow> 0 | f # fs \<Rightarrow> distance f (length fs) k))"

definition depth :: "kernel \<Rightarrow> nat" where
  "depth k = (case this_thread k of None \<Rightarrow> 0 | Some th \<Rightarrow> length (stack th))"

lemma distance_le: "distance f n k \<le> 4 * Suc n"
  by (cases f) simp_all

lemma rank_depth: "rank k \<le> 4 * depth k"
proof (cases "this_thread k")
  case (Some th)
  then show ?thesis
    using distance_le by (cases "stack th") (simp_all only: rank_def depth_def option.case list.case list.size mult_0_right add_Suc_right add_0_right le_refl)
qed (simp add: rank_def)

text \<open>The frame on top after an operation.\<close>

definition soon :: "kernel \<Rightarrow> bool" where
  "soon k \<longleftrightarrow> top_frame k = Some OneTick \<or> (\<exists>fin. top_frame k = Some (SleepLoop fin))"

lemma soon_rank: "soon k \<Longrightarrow> rank k = 0"
  by (auto simp: soon_def rank_def top_frame_def split: option.splits list.splits)

lemma top_frame_same [simp]: "top_frame (k\<lparr>level := a\<rparr>) = top_frame k" "top_frame (k\<lparr>mstatus := b\<rparr>) = top_frame k"
  "top_frame (k\<lparr>semaphores := c\<rparr>) = top_frame k"
  by (simp_all add: top_frame_def this_thread_def)

lemma enter_top: "enter (f # gs) k = Some k' \<Longrightarrow> top_frame k' = Some f"
  by (auto simp: enter_def with_thread_def top_frame_def this_thread_def)

lemma SetLevel_top: "SetLevel IntOn k = Some (old, k') \<Longrightarrow> level k = IntOff \<Longrightarrow> soon k'"
  by (auto simp: SetLevel_def Let_def bind_Some_conv soon_def dest!: enter_top)

lemma Sleep_top: "Thread_Sleep fin k = Some k' \<Longrightarrow> soon k'"
  by (auto simp: Thread_Sleep_def bind_Some_conv soon_def dest!: enter_top)

lemma ReadyToRun_level: "ReadyToRun t k = Some k' \<Longrightarrow> level k' = level k"
  by (auto simp: ReadyToRun_def set_status_def with_thread_def bind_Some_conv)

lemma V_soon: "Semaphore_V s k = Some k' \<Longrightarrow> level k = IntOn \<Longrightarrow> soon k'"
  by (auto simp: Semaphore_V_def Let_def bind_Some_conv split: if_split_asm dest!: ReadyToRun_level SetLevel_top)

lemma P_loop_soon: "P_loop s IntOn k = Some k' \<Longrightarrow> level k = IntOff \<Longrightarrow> soon k'"
  by (auto simp: P_loop_def Let_def bind_Some_conv split: if_split_asm dest!: Sleep_top SetLevel_top)

lemma frame_level:
  assumes "safe k" and "this_thread k = Some th" and "stack th = f # fs"
  shows "plain f \<Longrightarrow> level k = IntOn" and "f = PLoop s l \<Longrightarrow> l = IntOn \<and> level k = IntOff"
    and "f = Restore l \<Longrightarrow> l = IntOn \<and> level k = IntOff" and "f = Begin \<Longrightarrow> level k = IntOff"
proof -
  have "running_ok (level k) k th \<or> sleeping_ok (level k) k th"
    using assms(1,2) by (auto simp: safe_def kernel_ok_def sched_ok_def)
  then show "plain f \<Longrightarrow> level k = IntOn" "f = PLoop s l \<Longrightarrow> l = IntOn \<and> level k = IntOff"
    "f = Restore l \<Longrightarrow> l = IntOn \<and> level k = IntOff" "f = Begin \<Longrightarrow> level k = IntOff"
    using assms(3) by (cases "level k"; auto simp: running_ok_def sleeping_ok_def asleep_def can_resume_def resumed_def suspended_def
        yielded_def unborn_def calls_Cons split: if_splits)+
qed

lemma Release_soon: "Lock_Release l k = Some k' \<Longrightarrow> level k = IntOn \<Longrightarrow> soon k'"
  by (auto simp: Lock_Release_def Let_def bind_Some_conv dest!: V_soon)

lemma Signal_soon: "Condition_Signal c l k = Some k' \<Longrightarrow> level k = IntOn \<Longrightarrow> wait_queue k c \<noteq> [] \<Longrightarrow> soon k'"
  by (auto simp: Condition_Signal_def Let_def bind_Some_conv split: if_split_asm dest!: V_soon)

lemma Fork_soon: "Thread_Fork body k = Some k' \<Longrightarrow> level k = IntOn \<Longrightarrow> soon k'"
  by (auto simp: Thread_Fork_def Let_def bind_Some_conv dest!: ReadyToRun_level SetLevel_top)

lemma Begin_soon: "Thread_Begin k = Some k' \<Longrightarrow> level k = IntOff \<Longrightarrow> soon k'"
  by (auto simp: Thread_Begin_def bind_Some_conv dest!: cleaned_quiet SetLevel_top)

lemma Finish_soon: "Thread_Finish k = Some k' \<Longrightarrow> soon k'"
  by (auto simp: Thread_Finish_def bind_Some_conv dest!: Sleep_top)

lemma user_soon: "user_round k = Some k' \<Longrightarrow> soon k'"
  by (auto simp: user_round_def Let_def bind_Some_conv soon_def dest!: enter_top)

lemma quick_soon:
  assumes "safe k" and "this_thread k = Some th" and "stack th = f # fs" and "quick f k"
    and "exec f (set_this (th\<lparr>stack := fs\<rparr>) k) = Some k'"
  shows "soon k'"
proof -
  let ?k = "set_this (th\<lparr>stack := fs\<rparr>) k"
  note l = frame_level [OF assms(1-3)]
  show ?thesis
  proof (cases f)
    case (SemP s)
    with l(1) assms(5) P_loop_soon [of s "?k\<lparr>level := IntOff\<rparr>" k'] show ?thesis by (simp add: Semaphore_P_def)
  next
    case (SemV s)
    have "running_ok (level k) k th \<or> sleeping_ok (level k) k th"
      using assms(1,2) by (auto simp: safe_def kernel_ok_def sched_ok_def)
    then have "level ?k = IntOn"
      using assms(3) SemV by (auto simp: running_ok_def sleeping_ok_def asleep_def can_resume_def resumed_def suspended_def
        yielded_def unborn_def calls_Cons split: if_splits)
    with SemV assms(5) V_soon show ?thesis by simp
  next
    case (Release m)
    with l(1) assms(5) Release_soon show ?thesis by simp
  next
    case (Signal c m)
    with l(1) assms(4,5) Signal_soon [of c m ?k k'] show ?thesis by (simp add: set_this_def)
  next
    case (Fork body)
    have "level k = IntOn" using l(1) fork_public [OF assms(1,2)] assms(3) Fork by simp
    with Fork assms(5) Fork_soon show ?thesis by simp
  next
    case Begin
    with l(4) assms(5) Begin_soon show ?thesis by simp
  next
    case Finish
    with assms(5) Finish_soon show ?thesis by simp
  next
    case (Restore lv)
    with l(3) assms(5) SetLevel_top [of ?k _ k'] show ?thesis by (auto simp: bind_Some_conv)
  next
    case (PLoop s lv)
    with l(2) assms(5) P_loop_soon [of s ?k k'] show ?thesis by simp
  next
    case UserLoop
    with assms(5) user_soon show ?thesis by simp
  qed (use assms(4) in simp_all)
qed

text \<open>The other frames: they enter a quicker one, or are done.\<close>

lemma rank_enter:
  assumes "enter (f # gs) k = Some k'"
  shows "\<exists>n. rank k' = distance f n k'"
  using assms by (auto simp: enter_def with_thread_def rank_def this_thread_def)

lemma depth_same: "this_thread k' = this_thread k \<Longrightarrow> depth k' = depth k"
  by (simp add: depth_def)

lemma give_depth: "give v k = Some k' \<Longrightarrow> depth k' = depth k"
  by (auto simp: give_def with_thread_def depth_def this_thread_def)

lemma Schedule_depth: "Schedule c d ty k = Some k' \<Longrightarrow> depth k' = depth k"
  by (auto simp: Schedule_def Let_def bind_Some_conv depth_def this_thread_def)

lemma depth_simps [simp]: "depth (k\<lparr>mstatus := a\<rparr>) = depth k" "depth (k\<lparr>lock_holder := b\<rparr>) = depth k"
  "depth (k\<lparr>semaphores := c\<rparr>) = depth k" "depth (k\<lparr>synch_lists := d\<rparr>) = depth k" "depth (k\<lparr>incoming := e\<rparr>) = depth k"
  "depth (k\<lparr>screen := f, putBusy := g\<rparr>) = depth k" "depth (k\<lparr>halted := h\<rparr>) = depth k" "depth (k\<lparr>machine := i\<rparr>) = depth k"
  "depth (k\<lparr>table_of := j\<rparr>) = depth k"
  by (simp_all add: depth_def this_thread_def)

lemma AfterSwitch_depth: "Run_after_switch k = Some k' \<Longrightarrow> depth k' = depth k"
  by (auto simp: Run_after_switch_def CheckToBeDestroyed_def RestoreUserState_def RestoreState_def bind_Some_conv
      split: option.split_asm) (auto simp: depth_def this_thread_def)

lemma slow_rank:
  assumes "\<not> quick f k" and "keeps f k" and "\<not> yields f" and "exec f k = Some k'"
  shows "rank k' < distance f (depth k) k"
proof -
  have r: "rank k' < 4 * Suc (depth k)" if "depth k' = depth k" for k' using rank_depth [of k'] that by simp
  show ?thesis
  proof (cases f)
    case (Acquire l)
    then show ?thesis using assms(4) by (auto simp: Lock_Acquire_def dest!: rank_enter)
  next
    case (Wait c l)
    then show ?thesis using assms(4) by (auto simp: Condition_Wait_def Let_def bind_Some_conv dest!: rank_enter)
  next
    case (Broadcast c l)
    then show ?thesis
    proof (cases "wait_queue k c = []")
      case True
      with Broadcast assms(4) r [of k] show ?thesis by (simp add: Condition_Broadcast_def)
    next
      case False
      with Broadcast assms(4) have e: "enter [Signal c l, Broadcast c l] k = Some k'" by (simp add: Condition_Broadcast_def)
      then have "wait_queue k' c \<noteq> []" using False by (auto simp: enter_def with_thread_def)
      with rank_enter [OF e] Broadcast show ?thesis by auto
    qed
  next
    case (RemoveLoop n)
    then show ?thesis using assms(4) r [of k]
      by (auto simp: remove_loop_def bind_Some_conv split: if_split_asm dest!: rank_enter)
  next
    case (Signal c l)
    with assms(1,4) r [of k] show ?thesis by (auto simp: Condition_Signal_def bind_Some_conv)
  qed (use assms r give_depth Schedule_depth AfterSwitch_depth in
    \<open>auto simp: SynchList_Append_def SynchList_RemoveFront_def SynchConsole_PutChar_def SynchConsole_GetChar_def
      AddrSpace_Execute_def Lock_set_holder_def Interrupt_Halt_def delete_waiter_def append_item_def remove_item_def
      ConsoleOutput_PutChar_def ConsoleInput_GetChar_def Let_def bind_Some_conv split: if_split_asm dest!: rank_enter give_depth Schedule_depth AfterSwitch_depth\<close>)
qed

text \<open>A step of a frame that keeps the processor and is no tick comes nearer to the next tick.\<close>

lemma keeps_nearer:
  assumes "safe k" and "this_thread k = Some th" and "stack th = f # fs" and "keeps f (set_this (th\<lparr>stack := fs\<rparr>) k)"
    and "exec f (set_this (th\<lparr>stack := fs\<rparr>) k) = Some k'" and "\<not> yields f"
  shows "rank k' < rank k"
proof -
  let ?k = "set_this (th\<lparr>stack := fs\<rparr>) k"
  have q: "quick f ?k = quick f k" by (cases f) (simp_all add: set_this_def)
  have d: "distance f n ?k = distance f n k" for n using q by (cases f) simp_all
  have r: "rank k = distance f (length fs) k" "depth ?k = length fs" using assms(2,3) by (simp_all add: rank_def depth_def)
  show ?thesis
  proof (cases "quick f k")
    case True
    then have "0 < rank k" using r(1) assms(6) by (cases f) simp_all
    with soon_rank [OF quick_soon [OF assms(1-3) True assms(5)]] show ?thesis by simp
  next
    case False
    with slow_rank [OF _ assms(4,6,5)] q d r show ?thesis by simp
  qed
qed

subsection \<open>The running thread gives up the processor\<close>

lemma reachable_trans: "reachable k1 k2 \<Longrightarrow> reachable k0 k1 \<Longrightarrow> reachable k0 k2"
  by (induction rule: reachable.induct) (auto intro: reachable_step)

lemma safe_kstep:
  assumes "safe k" and "\<not> halted k" and "\<not> wrong_call k"
  obtains k' where "kstep k k'"
  using safe_step [OF assms(1,3)] assms(2) kstepI by blast

definition stops :: "kernel \<Rightarrow> bool" where
  "stops k \<longleftrightarrow> halted k \<or> wrong_call k"

text \<open>States in which the running thread keeps the processor, one after the other.\<close>

inductive stays :: "kernel \<Rightarrow> kernel \<Rightarrow> bool" for k0 :: kernel where
  stays_start: "stays k0 k0"
| stays_step: "stays k0 k \<Longrightarrow> \<not> switches k \<Longrightarrow> kstep k k' \<Longrightarrow> stays k0 k'"

declare stays_start [intro]

lemma stays_first: "stays k' k'' \<Longrightarrow> \<not> switches k \<Longrightarrow> kstep k k' \<Longrightarrow> stays k k''"
  by (induction rule: stays.induct) (auto intro: stays_step)

lemma stays_steady: "stays k k' \<Longrightarrow> steady k \<Longrightarrow>
    steady k' \<and> currentThread k' = currentThread k \<and> (\<exists>rl. readyList k' = readyList k @ rl)"
  by (induction rule: stays.induct) (use steady_stays in \<open>fastforce+\<close>)

lemma switch_comes:
  assumes "steady k" and "readyList k \<noteq> []"
  shows "\<exists>k'. stays k k' \<and> (stops k' \<or> switches k')"
proof -
  obtain p where "p \<in> set (pending k)" "callOnInterrupt p = TimerCallBack" using assms(1) by (auto simp: steady_def timed_def)
  with assms show ?thesis
  proof (induction "(nat (pi_when p - total_ticks k), rank k)" arbitrary: k rule: wf_induct_rule [OF wf_lex_prod [OF wf_less_than wf_less_than]])
    case (1 k)
    show ?case
    proof (cases "stops k \<or> switches k")
      case False
      then have ns: "\<not> switches k" "\<not> halted k" "\<not> wrong_call k" by (auto simp: stops_def)
      have s: "safe k" "awake k" using 1(2) ns(2) by (auto simp: steady_def)
      obtain k' where k': "kstep k k'" using safe_kstep [OF s(1) ns(2,3)] by blast
      then have st: "step k = Some k'" by (simp add: kstep_iff)
      note y = steady_stays [OF 1(2) k' ns(1)]
      have rl: "readyList k' \<noteq> []" using y(2) 1(3) by auto
      have go: ?thesis if "\<exists>k''. stays k' k'' \<and> (stops k'' \<or> switches k'')" using that stays_first [OF _ ns(1) k'] by blast
      from s(1,2) st ns(1) show ?thesis
      proof (cases rule: step_kinds)
        case (keeps th f fs)
        let ?k = "set_this (th\<lparr>stack := fs\<rparr>) k"
        have "\<not> yields f" using ns(1) 1(3) keeps(1,2) by (simp add: switches_def top_frame_def)
        then have r: "rank k' < rank k" by (rule keeps_nearer [OF s(1) keeps(1-4)])
        have "quiet k ?k" by (rule quiet_this [OF keeps(1,2)])
        then have "p \<in> set (pending k')" "total_ticks k' = total_ticks k"
          using keeps(5) 1(4) by (auto simp: quiet_def)
        with 1(1) [OF _ y(1) rl] 1(5) r go show ?thesis by simp
      next
        case (tick th fs)
        let ?k = "set_this (th\<lparr>stack := fs\<rparr>) k"
        have "sorted_by PendingCompare (pending ?k)" using steady_sorted [OF 1(2)] by (simp add: set_this_def)
        note o = OneTick_effect [OF tick(3) this quiet_awake [OF quiet_this [OF tick(1,2)] s(2)]]
        have "top_frame k' = Some Yield \<or> (p \<in> set (pending k') \<and> total_ticks k' < pi_when p)" "total_ticks k < total_ticks k'"
          using o(4) o(5) [of p] 1(4,5) by (simp_all add: set_this_def)
        then show ?thesis
        proof (elim disjE conjE)
          assume "top_frame k' = Some Yield"
          then have "switches k'" using rl by (simp add: switches_def)
          then show ?thesis using go by blast
        next
          assume p: "p \<in> set (pending k')" "total_ticks k' < pi_when p" and t: "total_ticks k < total_ticks k'"
          then have "nat (pi_when p - total_ticks k') < nat (pi_when p - total_ticks k)" by simp
          with 1(1) [OF _ y(1) rl p(1) 1(5)] go show ?thesis by simp
        qed
      next
        case idle
        with 1(3) show ?thesis by simp
      qed
    qed blast
  qed
qed

subsection \<open>The ready list is a queue\<close>

text \<open>Runs, with the number of times that a thread has given up the processor.\<close>

inductive turns :: "kernel \<Rightarrow> nat \<Rightarrow> kernel \<Rightarrow> bool" for k0 :: kernel where
  turns_start: "turns k0 0 k0"
| turns_stay: "turns k0 n k \<Longrightarrow> kstep k k' \<Longrightarrow> \<not> switches k \<Longrightarrow> turns k0 n k'"
| turns_switch: "turns k0 n k \<Longrightarrow> kstep k k' \<Longrightarrow> switches k \<Longrightarrow> turns k0 (Suc n) k'"

declare turns_start [intro]

lemma stays_turns: "stays k k' \<Longrightarrow> turns k0 n k \<Longrightarrow> turns k0 n k'"
  by (induction rule: stays.induct) (auto intro: turns_stay)

lemma turns_steady: "turns k0 n k \<Longrightarrow> steady k0 \<Longrightarrow> steady k"
  by (induction rule: turns.induct) (use steady_step in auto)

lemma turns_queue:
  assumes "turns k0 n k" and "steady k0" and "readyList k0 = ps @ t # qs" and "n \<le> length ps"
  shows "\<exists>rl. readyList k = drop n ps @ t # qs @ rl"
  using assms(1,4)
proof (induction rule: turns.induct)
  case turns_start
  then show ?case using assms(3) by simp
next
  case (turns_stay n k k')
  then obtain rl where "readyList k = drop n ps @ t # qs @ rl" by blast
  with steady_stays(2) [OF turns_steady [OF turns_stay(1) assms(2)] turns_stay(2,3)] show ?case by auto
next
  case (turns_switch n k k')
  then obtain rl where r: "readyList k = drop n ps @ t # qs @ rl" by auto
  obtain m rl1 rl2 where s: "readyList k = m # rl1" "readyList k' = rl1 @ rl2"
    using steady_switches(2) [OF turns_steady [OF turns_switch(1) assms(2)] turns_switch(2,3)] by blast
  have "drop n ps = ps ! n # drop (Suc n) ps" using turns_switch(5) by (simp add: Cons_nth_drop_Suc)
  with r s show ?case by auto
qed

lemma turn_comes:
  assumes "steady k" and "readyList k = ps @ t # qs" and "n \<le> length ps"
  shows "\<exists>m k'. m \<le> n \<and> turns k m k' \<and> (stops k' \<or> (m = n \<and> switches k'))"
  using assms(3)
proof (induction n)
  case 0
  from switch_comes [OF assms(1)] assms(2) obtain k' where "stays k k'" "stops k' \<or> switches k'" by auto
  with stays_turns [OF _ turns_start] show ?case by auto
next
  case (Suc n)
  then obtain m k1 where k1: "m \<le> n" "turns k m k1" "stops k1 \<or> (m = n \<and> switches k1)" by auto
  show ?case
  proof (cases "stops k1")
    case True
    with k1 show ?thesis by (intro exI [of _ m] exI [of _ k1]) simp
  next
    case False
    note y = turns_steady [OF k1(2) assms(1)]
    obtain k2 where k2: "kstep k1 k2" using safe_kstep [of k1] y False by (auto simp: steady_def stops_def)
    have t: "turns k (Suc n) k2" using turns_switch [OF k1(2) k2] k1(3) False by simp
    obtain rl where "readyList k2 = drop (Suc n) ps @ t # qs @ rl" using turns_queue [OF t assms(1,2) Suc(2)] by blast
    then obtain k3 where "stays k2 k3" "stops k3 \<or> switches k3"
      using switch_comes [OF steady_step [OF y k2]] by auto
    with stays_turns [OF _ t] show ?thesis by auto
  qed
qed

text \<open>
  C3. No thread starves. From every reachable state in which a thread is at place \<open>n\<close> of the ready
  list (counting from 0), whatever the other threads and user programs do, the processor changes hands
  exactly \<open>n\<close> times and then passes to that thread, unless the kernel halts or a call is wrong
  before. Since each state has at most one next state, this is what every run does: the timer makes also
  a program that never gives up the processor yield.
\<close>

theorem ready_threads_run:
  assumes "boot_ok rnd init m sps body" and "Kernel_Initialize randomSlice rnd kbd init m sps body = Some k0"
    and "reachable k0 k" and "readyList k = ps @ t # qs"
  shows "\<exists>n k'. turns k n k' \<and> n \<le> length ps \<and>
    (halted k' \<or> wrong_call k' \<or>
      (n = length ps \<and> switches k' \<and> (\<exists>k''. kstep k' k'' \<and> currentThread k'' = t)))"
proof -
  have y: "steady k" using reachable_steady [OF assms(3) start_steady [OF assms(1,2)]] .
  obtain n k' where k': "n \<le> length ps" "turns k n k'" "stops k' \<or> (n = length ps \<and> switches k')"
    using turn_comes [OF y assms(4) order_refl] by blast
  show ?thesis
  proof (cases "stops k'")
    case True
    with k' show ?thesis by (auto simp: stops_def)
  next
    case False
    have y': "steady k'" by (rule turns_steady [OF k'(2) y])
    obtain k'' where s: "kstep k' k''" using safe_kstep [of k'] y' False by (auto simp: steady_def stops_def)
    obtain rl where "readyList k' = drop n ps @ t # qs @ rl" using turns_queue [OF k'(2) y assms(4) k'(1)] by blast
    with steady_switches(2) [OF y' s] k'(3) False have "currentThread k'' = t" by auto
    with k' s False show ?thesis by blast
  qed
qed

lemma forked_state:
  "\<exists>k0 k. start [Fork []] = Some k0 \<and> run 2 k0 = Some k \<and> readyList k = [] @ 1 # []"
  by (simp add: Kernel_Initialize_def Kernel_new_def Timer_SetInterrupt_def Schedule_def seq_Insert_def PendingCompare_def
      TimerTicks_def ConsoleTime_def run_defs eval_nat_numeral OneTick_run_def CheckIfDue_def SystemTick_def
      Thread_Fork_def ReadyToRun_def set_status_def seq_Append_def)

lemma ready_threads_run_witness:
  "\<exists>k0 k n k'. start [Fork []] = Some k0 \<and> run 2 k0 = Some k \<and> readyList k = [1] \<and> turns k n k' \<and>
     (halted k' \<or> wrong_call k' \<or> (n = 0 \<and> switches k' \<and> (\<exists>k''. kstep k' k'' \<and> currentThread k'' = 1)))"
proof -
  have b: "boot_ok (\<lambda>_. 0) (\<lambda>_. 0) (Machine_new False []) (\<lambda>_. None) [Fork []]" by (rule start_boots) simp
  obtain k0 k where k: "start [Fork []] = Some k0" "run 2 k0 = Some k" "readyList k = [] @ 1 # []" using forked_state by blast
  show ?thesis
    using ready_threads_run [OF b k(1) run_reachable [OF k(2) reachable_start] k(3)] k
    by (intro exI [of _ k0] exI [of _ k]) auto
qed

subsection \<open>The registers of a user program\<close>

lemma core_eq: "core (threads k t) = Some (st, regs, sp, ret) \<longleftrightarrow>
    (\<exists>th. threads k t = Some th \<and> stack th = st \<and> userRegisters th = regs \<and> space th = sp \<and> returned th = ret)"
  by (cases "threads k t") auto

text \<open>A thread without the processor that is not finished keeps its stack and its registers.\<close>

lemma core_stays:
  assumes "steady k" and "kstep k k'" and "currentThread k \<noteq> t" and "core (threads k t) = Some (st, regs, sp, ret)"
    and "st \<noteq> [AfterSwitch]"
  shows "core (threads k' t) = Some (st, regs, sp, ret)"
proof -
  have st: "step k = Some k'" "\<not> halted k" using assms(2) by (simp_all add: kstep_iff)
  have s: "safe k" "awake k" using assms(1) st(2) by (auto simp: steady_def)
  then have ok: "threads_ok k" "doomed_ok k" by (auto simp: safe_def kernel_ok_def sched_ok_def others_ok_def)
  obtain th0 where th0: "threads k t = Some th0" "stack th0 = st" using assms(4) by (auto simp: core_eq)
  have new: "t \<noteq> next_thread k" using ok(1) th0 by (auto simp: threads_ok_def)
  have kept: "toBeDestroyed k \<noteq> Some t" using ok(2) th0 assms(5) by (auto simp: doomed_ok_def)
  show ?thesis
  proof (cases "switches k")
    case True
    obtain th th' n rl rl' fin where w: "k' = dispatch n rl' (left fin th' (k\<lparr>level := IntOff\<rparr>))"
      by (rule step_switches [OF s(1) True st(1)]) blast
    show ?thesis using assms(3,4) unfolding w by (auto simp: dispatch_def core_eq)
  next
    case False
    from s st(1) False show ?thesis
    proof (cases rule: step_kinds)
      case (keeps th f fs)
      let ?k = "set_this (th\<lparr>stack := fs\<rparr>) k"
      have "threads (before f ?k) t = threads k t"
        using new kept assms(3) by (cases f) (auto simp: set_this_def cleaned_def split: option.split)
      moreover have "core (threads k' t) = core (threads (before f ?k) t)"
        using keeps(5) assms(3) by (simp add: quiet_def mild_def)
      ultimately show ?thesis using assms(4) by simp
    next
      case (tick th fs)
      let ?k = "set_this (th\<lparr>stack := fs\<rparr>) k"
      have "sorted_by PendingCompare (pending ?k)" using steady_sorted [OF assms(1)] by (simp add: set_this_def)
      from OneTick_effect(1) [OF tick(3) this quiet_awake [OF quiet_this [OF tick(1,2)] s(2)]]
      have "core (threads k' t) = core (threads ?k t)" using assms(3) by (simp add: mild_def)
      then show ?thesis using assms(3,4) by (simp add: set_this_def)
    next
      case idle
      from Idle_effect(1) [OF idle(2) steady_sorted [OF assms(1)] s(2)] assms(3,4) show ?thesis by (simp add: mild_def)
    qed
  qed
qed

text \<open>The steps that others take until a thread has the processor again.\<close>

inductive away :: "tid \<Rightarrow> kernel \<Rightarrow> kernel \<Rightarrow> bool" for t :: tid and k1 :: kernel where
  away_start: "away t k1 k1"
| away_step: "away t k1 k \<Longrightarrow> currentThread k \<noteq> t \<Longrightarrow> kstep k k' \<Longrightarrow> away t k1 k'"

declare away_start [intro]

lemma away_core:
  assumes "away t k1 k" and "steady k1" and "core (threads k1 t) = Some (st, regs, sp, ret)" and "st \<noteq> [AfterSwitch]"
  shows "steady k \<and> core (threads k t) = Some (st, regs, sp, ret)"
  using assms(1) by induction (use assms(2-4) steady_step core_stays in auto)

lemma switched_core:
  assumes "steady k" and "switches k" and "top_frame k \<noteq> Some (SleepLoop True)" and "kstep k k1"
    and "this_thread k = Some th" and "space th = Some sp"
  obtains st ret where "core (threads k1 (currentThread k)) = Some (AfterSwitch # st, registers (machine k), Some sp, ret)"
    and "st \<noteq> []"
proof -
  have st: "step k = Some k1" using assms(4) by (simp add: kstep_iff)
  have s: "safe k" using assms(1) by (simp add: steady_def)
  obtain th1 th' n rl rl' fin where w: "this_thread k = Some th1" "k1 = dispatch n rl' (left fin th' (k\<lparr>level := IntOff\<rparr>))"
    "userRegisters th' = userRegisters th1" "space th' = space th1" "fin \<longleftrightarrow> top_frame k = Some (SleepLoop True)"
    "fin \<or> stack th' \<noteq> []"
    by (rule step_switches [OF s assms(2) st]) blast
  have "space th' = Some sp" using w(1,4) assms(5,6) by simp
  then have "core (threads k1 (currentThread k)) = Some (AfterSwitch # stack th', registers (machine k), Some sp, returned th')"
    unfolding w(2) by (auto simp: dispatch_def core_eq saved_def)
  moreover have "stack th' \<noteq> []" using w(5,6) assms(3) by simp
  ultimately show thesis by (rule that)
qed

lemma resumed_registers:
  assumes "steady k" and "core (threads k (currentThread k)) = Some (AfterSwitch # st, regs, Some sp, ret)" and "kstep k k'"
  shows "registers (machine k') = regs" and "table_of k' = Some sp" and "\<exists>as. spaces k' sp = Some as \<and> pageTableSize (machine k') = numPages as"
    and "currentThread k' = currentThread k"
proof -
  obtain th where th: "this_thread k = Some th" "stack th = AfterSwitch # st" "userRegisters th = regs" "space th = Some sp"
    using assms(2) by (auto simp: core_eq this_thread_def)
  let ?k = "set_this (th\<lparr>stack := st\<rparr>) k"
  have m: "mach_ok k" using assms(1) by (simp add: steady_def safe_def kernel_ok_def calm_def)
  have len: "length (registers (machine k)) = 40" "length regs = 40"
    using m th by (auto simp: mach_ok_def regs_fit_def this_thread_def)
  have e: "Run_after_switch ?k = Some k'" using step_eq [OF th(1,2)] assms(3) by (simp add: kstep_iff)
  then obtain k1 where k1: "CheckToBeDestroyed ?k = Some k1" by (auto simp: Run_after_switch_def bind_Some_conv)
  then have c: "k1 = cleaned ?k" by (rule cleaned_quiet)
  have d: "toBeDestroyed k \<noteq> Some (currentThread k)"
    using k1 by (auto simp: CheckToBeDestroyed_def bind_Some_conv set_this_def)
  have t: "threads k1 (currentThread k) = Some (th\<lparr>stack := st\<rparr>)" "currentThread k1 = currentThread k"
    using d unfolding c by (auto simp: cleaned_def set_this_def split: option.split)
  have l: "length (registers (machine k1)) = 40" using len(1) unfolding c by (simp add: set_this_def)
  have "RestoreUserState (currentThread k) k1 = Some (k1\<lparr>machine := (machine k1)\<lparr>registers := regs\<rparr>\<rparr>)"
    using RestoreUserState_eq [OF t(1) l] len(2) th(3) by simp
  then have "RestoreState sp (k1\<lparr>machine := (machine k1)\<lparr>registers := regs\<rparr>\<rparr>) = Some k'"
    using e k1 t th(4) by (simp add: Run_after_switch_def bind_Some_conv this_thread_def)
  then obtain as where as: "spaces k1 sp = Some as"
    "k' = k1\<lparr>table_of := Some sp, machine := (machine k1)\<lparr>registers := regs, pageTableSize := numPages as\<rparr>\<rparr>"
    by (auto simp: RestoreState_def bind_Some_conv)
  then show "registers (machine k') = regs" "table_of k' = Some sp"
    "\<exists>as. spaces k' sp = Some as \<and> pageTableSize (machine k') = numPages as" "currentThread k' = currentThread k"
    using t(2) by auto
qed

subsection \<open>A small system with a user program\<close>

text \<open>
  One user program of zero words, which are instructions without effect, in one page; the first timer
  interrupt comes at its first instruction.
\<close>

definition idle_page :: TranslationEntry where
  "idle_page = \<lparr>virtualPage = 0, physicalPage = 0, valid = True, readOnly = False, te_use = False, dirty = False\<rparr>"

definition no_op_machine :: "byte list \<Rightarrow> Machine.machine" where
  "no_op_machine M = \<lparr>registers = replicate 40 0, mainMemory = M, tlb = None, pageTable = None, pageTableSize = 0, trap = None\<rparr>"

definition first_regs :: "u32 list" where
  "first_regs = [0, 0, 0, 0, 0, 0, 0, 0, 0, 0, 0, 0, 0, 0, 0, 0, 0, 0, 0, 0, 0, 0, 0, 0, 0, 0, 0, 0, 0, 112, 0, 0, 0, 0, 0, 4, 0, 0, 0, 0]"

definition next_regs :: "u32 list" where
  "next_regs = [0, 0, 0, 0, 0, 0, 0, 0, 0, 0, 0, 0, 0, 0, 0, 0, 0, 0, 0, 0, 0, 0, 0, 0, 0, 0, 0, 0, 0, 112, 0, 0, 0, 0, 4, 8, 0, 0, 0, 0]"

lemma Decode_0: "Decode 0 = Some \<lparr>i_value = 0, opCode = OP_SLL, rs = 0, rt = 0, rd = 0, extra = 0\<rparr>"
  by (simp add: Decode_def arr_get_def opTable_def decode_op_def decode_extra_def specialTable_def)

lemma no_op:
  assumes "M = replicate 16384 0"
  shows "OneInstruction \<lparr>registers = first_regs, mainMemory = M, tlb = None, pageTable = Some [idle_page], pageTableSize = 1, trap = None\<rparr> =
    Some \<lparr>registers = next_regs, mainMemory = M, tlb = None, pageTable = Some [idle_page\<lparr>te_use := True\<rparr>], pageTableSize = 1, trap = None\<rparr>"
proof -
  let ?m = "\<lparr>registers = first_regs, mainMemory = M, tlb = None, pageTable = Some [idle_page], pageTableSize = 1, trap = None\<rparr>"
  let ?m1 = "?m\<lparr>pageTable := Some [idle_page\<lparr>te_use := True\<rparr>]\<rparr>"
  have len: "length first_regs = 40" by (simp add: first_regs_def)
  have r: "first_regs ! 34 = 0" "first_regs ! 35 = 4" "first_regs ! 0 = 0" "first_regs ! 37 = 0" "first_regs ! 38 = 0" by (simp_all add: first_regs_def)
  have same: "first_regs[0 := 0] = first_regs" using list_update_id [of first_regs 0] r(3) by simp
  have b: "mem_bytes ?m1 0 4 = Some (replicate 4 0)"
    unfolding assms by (simp add: mem_bytes_def take_replicate)
  have "Translate ?m 0 4 False = Some (Inr 0, ?m1)"
    by (simp add: Translate_def find_entry_def the_table_def arr_get_def set_entry_def idle_page_def arr_set_def PageSize_def
        NumPhysPages_def MemorySize_def)
  then have rd: "ReadMem ?m 0 4 = Some (Some 0, ?m1)"
    using b by (simp add: ReadMem_def bytes_to_word_def eval_nat_numeral)
  have e: "exec_op OP_SLL 8 \<lparr>i_value = 0, opCode = OP_SLL, rs = 0, rt = 0, rd = 0, extra = 0\<rparr> ?m1 = Some (Some (8, 0, 0), ?m1)"
    by (simp add: exec_SLL_def shift_imm_def go_def get_reg_def set_reg_def arr_get_def arr_set_def len r same)
  have "finish_step (Some (8, 0, 0)) ?m1 = Some (?m1\<lparr>registers := next_regs\<rparr>)"
    by (simp add: finish_step_def DelayedLoad_def get_reg_def set_reg_def arr_get_def arr_set_def first_regs_def next_regs_def eval_nat_numeral)
  with rd e show ?thesis
    by (simp add: OneInstruction_def get_reg_def arr_get_def len r Decode_0)
qed

definition user_start :: "byte list \<Rightarrow> kernel option" where
  "user_start M = Kernel_Initialize True (\<lambda>i. if i = 0 then 20 else 150) (\<lambda>_. NotReady) (\<lambda>_. 0) (no_op_machine M)
     [0 \<mapsto> \<lparr>as_pageTable = [idle_page], numPages = 1\<rparr>] [Fork [], Execute 0]"

fun others_run :: "tid \<Rightarrow> nat \<Rightarrow> kernel \<Rightarrow> kernel option" where
  "others_run t 0 k = Some k"
| "others_run t (Suc n) k = (if halted k \<or> currentThread k = t then None else do { k \<leftarrow> step k; others_run t n k })"

lemma others_run_away:
  assumes "others_run t n k = Some k'" and "away t k1 k"
  shows "away t k1 k'"
  using assms
proof (induction n arbitrary: k)
  case (Suc n)
  then obtain k2 where "\<not> halted k" "currentThread k \<noteq> t" "step k = Some k2" "others_run t n k2 = Some k'"
    by (auto simp: bind_Some_conv split: if_split_asm)
  with Suc.IH [of k2] away_step [OF Suc.prems(2), of k2] show ?case by (simp add: kstepI)
qed simp

lemmas boot_defs = Kernel_Initialize_def Kernel_new_def Timer_SetInterrupt_def RandomNumber_def Schedule_def seq_Insert_def
  PendingCompare_def TimerTicks_def ConsoleTime_def

lemmas tick_defs = OneTick_run_def CheckIfDue_def SystemTick_def UserTick_def

lemma next_fits: "regs_fit next_regs"
  by (simp add: regs_fit_def next_regs_def eval_nat_numeral)

lemma length_next: "length next_regs = 40"
  by (simp add: next_regs_def)

lemma fire_once: "pending k = p # ps \<Longrightarrow> CallBack (callOnInterrupt p) (k\<lparr>pending := ps\<rparr>) = Some k1 \<Longrightarrow>
    pending k1 = [] \<or> total_ticks k1 < pi_when (hd (pending k1)) \<Longrightarrow> fire_loop k = Some k1"
  by (subst fire_loop.simps) auto

lemma user_run:
  assumes "M = replicate 16384 0"
  shows "\<exists>k0 k th k1 k2 k3. user_start M = Some k0 \<and> run 6 k0 = Some k \<and> currentThread k = 0 \<and> switches k \<and>
     top_frame k = Some Yield \<and> this_thread k = Some th \<and> space th = Some 0 \<and>
     \<not> halted k \<and> step k = Some k1 \<and> others_run 0 4 k1 = Some k2 \<and> currentThread k2 = 0 \<and> \<not> halted k2 \<and> step k2 = Some k3"
proof -
  have d: "DelayedLoad 0 0 (m\<lparr>registers := next_regs\<rparr>) = Some (m\<lparr>registers := next_regs\<rparr>)" for m :: Machine.machine
    by (simp add: DelayedLoad_def get_reg_def set_reg_def arr_get_def arr_set_def next_regs_def eval_nat_numeral)
  have d: "DelayedLoad 0 0 \<lparr>registers = next_regs, mainMemory = mm, tlb = tl, pageTable = pt, pageTableSize = sz, trap = tr\<rparr> =
      Some \<lparr>registers = next_regs, mainMemory = mm, tlb = tl, pageTable = pt, pageTableSize = sz, trap = tr\<rparr>" for mm tl pt sz tr
    using d [of "\<lparr>registers = next_regs, mainMemory = mm, tlb = tl, pageTable = pt, pageTableSize = sz, trap = tr\<rparr>"] by simp
  note op = no_op [OF assms, unfolded first_regs_def]
  show ?thesis
    by (simp add: user_start_def no_op_machine_def boot_defs run_defs tick_defs eval_nat_numeral Thread_Fork_def ReadyToRun_def
     set_status_def seq_Append_def AddrSpace_Execute_def RestoreState_def InitRegisters_ok PageSize_def top_frame_def switches_def
     user_round_def load_table_def store_table_def op d fire_once CallBack_def Timer_CallBack_def Alarm_CallBack_def YieldOnReturn_def
     Thread_Yield_def FindNextToRun_def Run_def SaveUserState_eq next_fits Thread_Begin_def CheckToBeDestroyed_def
     Thread_Finish_def Thread_Sleep_def Sleep_loop_def Thread_new_def Run_after_switch_def RestoreUserState_eq NumTotalRegs_def
     length_next)
qed

text \<open>
  C5. A user program does not notice that it loses the processor: when its thread gives up the
  processor (at a clock tick or in a call that waits), other threads and user programs run for any
  number of steps, and the thread is chosen again, its first step brings back all forty registers
  exactly as they were and makes the machine use the page table of its own address space.
\<close>

theorem user_registers_survive_switches:
  assumes "boot_ok rnd init m sps body" and "Kernel_Initialize randomSlice rnd kbd init m sps body = Some k0"
    and "reachable k0 k" and "switches k" and "top_frame k \<noteq> Some (SleepLoop True)"
    and "this_thread k = Some th" and "space th = Some sp"
    and "kstep k k1" and "away (currentThread k) k1 k2" and "currentThread k2 = currentThread k" and "kstep k2 k3"
  shows "registers (machine k3) = registers (machine k) \<and> table_of k3 = Some sp \<and> currentThread k3 = currentThread k \<and>
    (\<exists>as. spaces k3 sp = Some as \<and> pageTableSize (machine k3) = numPages as)"
proof -
  have y: "steady k" using reachable_steady [OF assms(3) start_steady [OF assms(1,2)]] .
  obtain st ret where c: "core (threads k1 (currentThread k)) = Some (AfterSwitch # st, registers (machine k), Some sp, ret)"
    "st \<noteq> []"
    by (rule switched_core [OF y assms(4,5,8,6,7)])
  have "steady k2 \<and> core (threads k2 (currentThread k)) = Some (AfterSwitch # st, registers (machine k), Some sp, ret)"
    by (rule away_core [OF assms(9) steady_step [OF y assms(8)] c(1)]) (use c(2) in simp)
  with resumed_registers [of k2 st "registers (machine k)" sp ret k3] assms(10,11) show ?thesis by simp
qed

lemma user_registers_survive_switches_witness:
  "\<exists>k0 k k1 k2 k3. user_start (replicate 16384 0) = Some k0 \<and> reachable k0 k \<and> kstep k k1 \<and> away 0 k1 k2 \<and> kstep k2 k3 \<and>
     currentThread k1 \<noteq> 0 \<and> registers (machine k3) = registers (machine k) \<and> table_of k3 = Some 0"
proof -
  have b: "boot_ok (\<lambda>i. if i = 0 then 20 else 150) (\<lambda>_. 0) (no_op_machine (replicate 16384 0))
      [0 \<mapsto> \<lparr>as_pageTable = [idle_page], numPages = 1\<rparr>] [Fork [], Execute 0]"
    by (simp add: boot_ok_def no_op_machine_def regs_fit_def)
  obtain k0 k th k1 k2 k3 where k: "user_start (replicate 16384 0) = Some k0" "run 6 k0 = Some k" "currentThread k = 0" "switches k"
    "top_frame k = Some Yield" "this_thread k = Some th" "space th = Some 0" "\<not> halted k" "step k = Some k1"
    "others_run 0 4 k1 = Some k2" "currentThread k2 = 0" "\<not> halted k2" "step k2 = Some k3"
    using user_run [OF refl] by blast
  have s: "reachable k0 k" "kstep k k1" "away 0 k1 k2" "kstep k2 k3"
    using run_reachable [OF k(2) reachable_start] k others_run_away [OF k(10) away_start] by (simp_all add: kstepI)
  have c: "currentThread k1 \<noteq> 0" using k(10) by (auto simp: numeral_eq_Suc split: if_split_asm)
  have "registers (machine k3) = registers (machine k) \<and> table_of k3 = Some 0"
    using user_registers_survive_switches [OF b k(1) [unfolded user_start_def] s(1) k(4) _ k(6,7) s(2) _ _ s(4)] k(3,5,11) s(3) by simp
  with k(1) s c show ?thesis by blast
qed

end
