(* ===== verification/Noff.thy ===== *)
theory Noff
  imports Nachos_Prelude
begin

text \<open>
  User programs as files: the NOFF format (\<open>userprog/noff.h\<close>) and the program that makes such a file
  from the linker's COFF file (\<open>coff2noff/coff2noff.c\<close>, built with \<open>-m32 -DRDATA\<close> on a
  little-endian host, where \<open>SwapHeader\<close>, \<open>WordToHost\<close> and \<open>ShortToHost\<close> change nothing).
\<close>

subsection \<open>The NOFF header\<close>

record Segment =
  virtualAddr :: int
  inFileAddr :: int
  seg_size :: int

record NoffHeader =
  noffMagic :: int
  code_seg :: Segment
  initData :: Segment
  readonlyData :: Segment
  uninitData :: Segment

definition NOFFMAGIC :: int where "NOFFMAGIC = 0xbadfad"

definition sizeof_NoffHeader :: int where "sizeof_NoffHeader = 52"

definition segment_ints :: "Segment \<Rightarrow> int list" where
  "segment_ints s = [virtualAddr s, inFileAddr s, seg_size s]"

definition noff_ints :: "NoffHeader \<Rightarrow> int list" where
  "noff_ints h = noffMagic h # segment_ints (code_seg h) @ segment_ints (initData h) @ segment_ints (readonlyData h) @
     segment_ints (uninitData h)"

definition noff_bytes :: "NoffHeader \<Rightarrow> byte list" where
  "noff_bytes h = ints_to_bytes (noff_ints h)"

definition segment_at :: "int list \<Rightarrow> nat \<Rightarrow> Segment" where
  "segment_at is i = \<lparr>virtualAddr = is ! i, inFileAddr = is ! Suc i, seg_size = is ! Suc (Suc i)\<rparr>"

definition noff_of_bytes :: "byte list \<Rightarrow> NoffHeader" where
  "noff_of_bytes bs = (let is = bytes_to_ints 13 bs in
     \<lparr>noffMagic = is ! 0, code_seg = segment_at is 1, initData = segment_at is 4, readonlyData = segment_at is 7,
      uninitData = segment_at is 10\<rparr>)"

lemma length_noff_ints [simp]: "length (noff_ints h) = 13"
  by (simp add: noff_ints_def segment_ints_def)

lemma length_noff_bytes [simp]: "length (noff_bytes h) = 52"
  by (simp add: noff_bytes_def)

lemma noff_roundtrip:
  assumes "\<forall>i \<in> set (noff_ints h). int_range i"
  shows "noff_of_bytes (noff_bytes h @ rest) = h"
proof -
  have "bytes_to_ints 13 (noff_bytes h @ rest) = noff_ints h"
    using bytes_to_ints_roundtrip [OF assms, of rest] by (simp add: noff_bytes_def)
  then show ?thesis
    by (simp add: noff_of_bytes_def Let_def segment_at_def noff_ints_def segment_ints_def nth_Cons numeral_eq_Suc)
qed

subsection \<open>The COFF file\<close>

record scnhdr =
  s_name :: "byte list"
  s_paddr :: int
  s_size :: int
  s_scnptr :: int

definition MIPSELMAGIC :: int where "MIPSELMAGIC = 0x162"
definition OMAGIC :: int where "OMAGIC = 263"

definition sizeof_filehdr :: int where "sizeof_filehdr = 20"
definition sizeof_aouthdr :: int where "sizeof_aouthdr = 56"
definition sizeof_scnhdr :: int where "sizeof_scnhdr = 40"

definition short_at :: "byte list \<Rightarrow> nat \<Rightarrow> int" where
  "short_at bs i = uint (bs ! i) + 256 * uint (bs ! Suc i)"

definition int_at :: "byte list \<Rightarrow> nat \<Rightarrow> int" where
  "int_at bs i = bytes_to_int (drop i bs)"

text \<open>
  \<open>Read\<close> reads at the position of the file and stops the program when there are fewer bytes. A
  negative count is more than any file can give. \<open>lseek\<close> to a negative place fails, and nothing
  checks it.
\<close>

definition Read_coff :: "byte list \<Rightarrow> int \<Rightarrow> int \<Rightarrow> (byte list \<times> int) option" where
  "Read_coff file pos nBytes =
     (if nBytes = 0 then Some ([], pos)
      else if 0 < nBytes \<and> pos + nBytes \<le> int (length file)
      then Some (take (nat nBytes) (drop (nat pos) file), pos + nBytes) else None)"

definition lseek :: "int \<Rightarrow> int \<Rightarrow> int" where
  "lseek pos to = (if 0 \<le> to then to else pos)"

definition section_of_bytes :: "byte list \<Rightarrow> scnhdr" where
  "section_of_bytes bs = \<lparr>s_name = take 8 bs, s_paddr = int_at bs 8, s_size = int_at bs 16, s_scnptr = int_at bs 20\<rparr>"

fun sections_of_bytes :: "nat \<Rightarrow> byte list \<Rightarrow> scnhdr list" where
  "sections_of_bytes 0 bs = []"
| "sections_of_bytes (Suc n) bs = section_of_bytes bs # sections_of_bytes n (drop (nat sizeof_scnhdr) bs)"

text \<open>\<open>strcmp\<close> with a literal of fewer than eight characters, which ends within the field.\<close>

definition is_named :: "byte list \<Rightarrow> scnhdr \<Rightarrow> bool" where
  "is_named lit s \<longleftrightarrow> take (Suc (length lit)) (s_name s) = lit @ [0]"

definition text_name :: "byte list" where "text_name = [46, 116, 101, 120, 116]"
definition data_name :: "byte list" where "data_name = [46, 100, 97, 116, 97]"
definition rdata_name :: "byte list" where "rdata_name = [46, 114, 100, 97, 116, 97]"
definition bss_name :: "byte list" where "bss_name = [46, 98, 115, 115]"

subsection \<open>The conversion\<close>

text \<open>A sum of C \<open>int\<close>s.\<close>

definition c_int :: "int \<Rightarrow> int" where
  "c_int i = sint (word_of_int i :: u32)"

record conv =
  noffH :: NoffHeader
  inNoffFile :: int
  fdIn :: int
  out_data :: "byte list"

text \<open>Copying the bytes of a section to the end of the output.\<close>

definition copy_section :: "byte list \<Rightarrow> scnhdr \<Rightarrow> (Segment \<Rightarrow> NoffHeader \<Rightarrow> NoffHeader) \<Rightarrow> conv \<Rightarrow> conv option" where
  "copy_section coff s set_seg c = do {
     let seg = \<lparr>virtualAddr = s_paddr s, inFileAddr = inNoffFile c, seg_size = s_size s\<rparr>;
     (buffer, pos) \<leftarrow> Read_coff coff (lseek (fdIn c) (s_scnptr s)) (s_size s);
     Some (c\<lparr>noffH := set_seg seg (noffH c), fdIn := pos, out_data := out_data c @ buffer,
             inNoffFile := c_int (inNoffFile c + s_size s)\<rparr>) }"

definition section_step :: "byte list \<Rightarrow> scnhdr \<Rightarrow> conv \<Rightarrow> conv option" where
  "section_step coff s c =
     (if s_size s = 0 then Some c
      else if is_named text_name s then copy_section coff s (\<lambda>seg h. h\<lparr>code_seg := seg\<rparr>) c
      else if is_named data_name s then copy_section coff s (\<lambda>seg h. h\<lparr>initData := seg\<rparr>) c
      else if is_named rdata_name s then copy_section coff s (\<lambda>seg h. h\<lparr>readonlyData := seg\<rparr>) c
      else if is_named bss_name s then
        (let u = uninitData (noffH c) in
         if seg_size u \<noteq> 0 then
           if s_paddr s = c_int (virtualAddr u + seg_size u) then None
           else Some (c\<lparr>noffH := (noffH c)\<lparr>uninitData := u\<lparr>seg_size := c_int (seg_size u + s_size s)\<rparr>\<rparr>\<rparr>)
         else Some (c\<lparr>noffH := (noffH c)\<lparr>uninitData := u\<lparr>virtualAddr := s_paddr s, seg_size := s_size s\<rparr>\<rparr>\<rparr>))
      else None)"

text \<open>
  \<open>main\<close>, from the bytes of the COFF file to those of the NOFF file; \<open>None\<close> where it exits with an
  error. \<open>stack_junk\<close> is what the header held before its fields are set.
\<close>

definition coff_sections :: "byte list \<Rightarrow> (scnhdr list \<times> int) option" where
  "coff_sections coff = do {
     (fileh, pos) \<leftarrow> Read_coff coff 0 sizeof_filehdr;
     ASSERT (short_at fileh 0 = MIPSELMAGIC);
     (systemh, pos) \<leftarrow> Read_coff coff pos sizeof_aouthdr;
     ASSERT (short_at systemh 0 = OMAGIC);
     let numsections = short_at fileh 2;
     (secs, pos) \<leftarrow> Read_coff coff pos (numsections * sizeof_scnhdr);
     Some (sections_of_bytes (nat numsections) secs, pos) }"

definition empty_noff :: "NoffHeader \<Rightarrow> NoffHeader" where
  "empty_noff h = h\<lparr>noffMagic := NOFFMAGIC, code_seg := (code_seg h)\<lparr>seg_size := 0\<rparr>,
     initData := (initData h)\<lparr>seg_size := 0\<rparr>, uninitData := (uninitData h)\<lparr>seg_size := 0\<rparr>,
     readonlyData := (readonlyData h)\<lparr>seg_size := 0\<rparr>\<rparr>"

definition coff2noff :: "NoffHeader \<Rightarrow> byte list \<Rightarrow> byte list option" where
  "coff2noff stack_junk coff = do {
     (sections, pos) \<leftarrow> coff_sections coff;
     c \<leftarrow> foldM (section_step coff) sections
       \<lparr>noffH = empty_noff stack_junk, inNoffFile = sizeof_NoffHeader, fdIn = pos, out_data = []\<rparr>;
     Some (noff_bytes (noffH c) @ out_data c) }"

subsection \<open>Every section arrives\<close>

text \<open>The last section of a name that is not empty: a later one of the same name takes its place.\<close>

definition last_section :: "byte list \<Rightarrow> scnhdr list \<Rightarrow> scnhdr option" where
  "last_section nm ss = (case rev (filter (\<lambda>s. s_size s \<noteq> 0 \<and> is_named nm s) ss) of [] \<Rightarrow> None | s # _ \<Rightarrow> Some s)"

definition part :: "int \<Rightarrow> int \<Rightarrow> byte list \<Rightarrow> byte list" where
  "part pos n bs = take (nat n) (drop (nat pos) bs)"

text \<open>A segment of the header of \<open>file\<close> and the section it comes from.\<close>

definition carries :: "byte list \<Rightarrow> byte list \<Rightarrow> Segment \<Rightarrow> scnhdr option \<Rightarrow> bool" where
  "carries coff file seg so = (case so of None \<Rightarrow> seg_size seg = 0
     | Some s \<Rightarrow> virtualAddr seg = s_paddr s \<and> seg_size seg = s_size s \<and> 0 < s_size s \<and>
         sizeof_NoffHeader \<le> inFileAddr seg \<and> inFileAddr seg + seg_size seg \<le> int (length file) \<and>
         (0 \<le> s_scnptr s \<longrightarrow> part (inFileAddr seg) (seg_size seg) file = part (s_scnptr s) (s_size s) coff))"

lemma carries_append: "carries coff file seg so \<Longrightarrow> carries coff (file @ rest) seg so"
  by (auto simp: carries_def part_def sizeof_NoffHeader_def split: option.split)

lemma last_section_Nil [simp]: "last_section nm [] = None"
  by (simp add: last_section_def)

lemma last_section_snoc: "last_section nm (ss @ [s]) = (if s_size s \<noteq> 0 \<and> is_named nm s then Some s else last_section nm ss)"
  by (simp add: last_section_def)

lemma int_range_c_int [simp]: "int_range (c_int i)"
  using sint_greater_eq [of "word_of_int i :: u32"] sint_lt [of "word_of_int i :: u32"] by (simp add: c_int_def int_range_def)

lemma c_int_same: "int_range i \<Longrightarrow> c_int i = i"
  using bytes_to_int_int_to_bytes [of i] by (simp add: c_int_def bytes_to_int_def bytes_to_word_int_to_bytes)

lemma named_second:
  assumes "is_named lit s" and "1 < length lit"
  shows "s_name s ! 1 = lit ! 1"
proof -
  have "take (Suc (length lit)) (s_name s) ! 1 = (lit @ [0]) ! 1" using assms(1) by (simp add: is_named_def)
  moreover have "take (Suc (length lit)) (s_name s) ! 1 = s_name s ! 1" by (rule nth_take) (use assms(2) in linarith)
  ultimately show ?thesis using assms(2) by (simp add: nth_append)
qed

lemma names_differ: "is_named text_name s \<Longrightarrow> \<not> is_named data_name s \<and> \<not> is_named rdata_name s"
  "is_named data_name s \<Longrightarrow> \<not> is_named text_name s \<and> \<not> is_named rdata_name s"
  "is_named rdata_name s \<Longrightarrow> \<not> is_named text_name s \<and> \<not> is_named data_name s"
  using named_second [of text_name s] named_second [of data_name s] named_second [of rdata_name s]
  by (auto simp: text_name_def data_name_def rdata_name_def)

definition converted :: "byte list \<Rightarrow> scnhdr list \<Rightarrow> conv \<Rightarrow> bool" where
  "converted coff ss c \<longleftrightarrow> inNoffFile c = sizeof_NoffHeader + int (length (out_data c)) \<and> noffMagic (noffH c) = NOFFMAGIC \<and>
     (\<forall>i \<in> set (noff_ints (noffH c)). int_range i) \<and> 0 \<le> fdIn c \<and>
     (\<forall>pre. int (length pre) = sizeof_NoffHeader \<longrightarrow>
        carries coff (pre @ out_data c) (code_seg (noffH c)) (last_section text_name ss) \<and>
        carries coff (pre @ out_data c) (initData (noffH c)) (last_section data_name ss) \<and>
        carries coff (pre @ out_data c) (readonlyData (noffH c)) (last_section rdata_name ss))"

text \<open>The bytes of the section that has just been copied are the last ones of the output.\<close>

lemma copied:
  assumes "Read_coff coff (lseek pos (s_scnptr s)) (s_size s) = Some (buf, pos')" and "s_size s \<noteq> 0" and "0 \<le> pos"
  shows "0 < s_size s" and "int (length buf) = s_size s" and "0 \<le> pos'"
    and "int (length pre) = sizeof_NoffHeader \<Longrightarrow> n = sizeof_NoffHeader + int (length out) \<Longrightarrow>
      carries coff (pre @ out @ buf) \<lparr>virtualAddr = s_paddr s, inFileAddr = n, seg_size = s_size s\<rparr> (Some s)"
proof -
  have b: "0 < s_size s" "buf = take (nat (s_size s)) (drop (nat (lseek pos (s_scnptr s))) coff)"
    "lseek pos (s_scnptr s) + s_size s \<le> int (length coff)" "pos' = lseek pos (s_scnptr s) + s_size s"
    using assms(1,2) by (auto simp: Read_coff_def split: if_split_asm)
  have l: "0 \<le> lseek pos (s_scnptr s)" using assms(3) by (simp add: lseek_def)
  then show "0 < s_size s" "int (length buf) = s_size s" "0 \<le> pos'" using b by simp_all
  then show "carries coff (pre @ out @ buf) \<lparr>virtualAddr = s_paddr s, inFileAddr = n, seg_size = s_size s\<rparr> (Some s)"
    if "int (length pre) = sizeof_NoffHeader" "n = sizeof_NoffHeader + int (length out)"
    using that b(2) by (auto simp: carries_def part_def sizeof_NoffHeader_def lseek_def)
qed

lemma noff_ints_set: "set (noff_ints h) = {noffMagic h, virtualAddr (code_seg h), inFileAddr (code_seg h), seg_size (code_seg h),
    virtualAddr (initData h), inFileAddr (initData h), seg_size (initData h), virtualAddr (readonlyData h),
    inFileAddr (readonlyData h), seg_size (readonlyData h), virtualAddr (uninitData h), inFileAddr (uninitData h), seg_size (uninitData h)}"
  by (auto simp: noff_ints_def segment_ints_def)

lemma copy_converted:
  assumes "converted coff ss c" and "copy_section coff s upd c = Some c'" and "s_size s \<noteq> 0"
    and "int_range (s_paddr s)" and "int_range (s_size s)" and "sizeof_NoffHeader + int (length (out_data c')) < 2 ^ 31"
    and "(upd = (\<lambda>seg h. h\<lparr>code_seg := seg\<rparr>) \<and> is_named text_name s) \<or> (upd = (\<lambda>seg h. h\<lparr>initData := seg\<rparr>) \<and> is_named data_name s) \<or>
      (upd = (\<lambda>seg h. h\<lparr>readonlyData := seg\<rparr>) \<and> is_named rdata_name s)"
  shows "converted coff (ss @ [s]) c'"
proof -
  let ?seg = "\<lparr>virtualAddr = s_paddr s, inFileAddr = inNoffFile c, seg_size = s_size s\<rparr>"
  obtain buf pos where r: "Read_coff coff (lseek (fdIn c) (s_scnptr s)) (s_size s) = Some (buf, pos)"
    and c': "c' = c\<lparr>noffH := upd ?seg (noffH c), fdIn := pos, out_data := out_data c @ buf, inNoffFile := c_int (inNoffFile c + s_size s)\<rparr>"
    using assms(2) by (auto simp: copy_section_def Let_def bind_Some_conv)
  have c: "inNoffFile c = sizeof_NoffHeader + int (length (out_data c))" "0 \<le> fdIn c"
    "\<forall>i \<in> set (noff_ints (noffH c)). int_range i" "noffMagic (noffH c) = NOFFMAGIC"
    using assms(1) by (simp_all add: converted_def)
  note b = copied [OF r assms(3) c(2)]
  have new: "carries coff (pre @ out_data c @ buf) ?seg (Some s)" if "int (length pre) = sizeof_NoffHeader" for pre
    by (rule b(4) [OF that c(1)])
  have old: "carries coff (pre @ out_data c @ buf) (code_seg (noffH c)) (last_section text_name ss)"
    "carries coff (pre @ out_data c @ buf) (initData (noffH c)) (last_section data_name ss)"
    "carries coff (pre @ out_data c @ buf) (readonlyData (noffH c)) (last_section rdata_name ss)"
    if "int (length pre) = sizeof_NoffHeader" for pre
    using assms(1) that carries_append [of coff "pre @ out_data c" _ _ buf] by (simp_all add: converted_def)
  have "int_range (inNoffFile c)" "int_range (inNoffFile c + s_size s)"
    using c(1) assms(6) b(1,2) unfolding c' by (simp_all add: int_range_def sizeof_NoffHeader_def)
  then have "\<forall>i \<in> set (noff_ints (upd ?seg (noffH c))). int_range i" "inNoffFile c' = sizeof_NoffHeader + int (length (out_data c'))"
    "noffMagic (upd ?seg (noffH c)) = NOFFMAGIC"
    using assms(4,5,7) c b(2) unfolding c' by (auto simp: noff_ints_set c_int_same)
  note ok = this c' and last = last_section_snoc
  from assms(7) show ?thesis
  proof (elim disjE conjE)
    assume "upd = (\<lambda>seg h. h\<lparr>code_seg := seg\<rparr>)" "is_named text_name s"
    with assms(3) new old b(3) names_differ(1) [of s] ok show ?thesis by (simp add: converted_def last)
  next
    assume "upd = (\<lambda>seg h. h\<lparr>initData := seg\<rparr>)" "is_named data_name s"
    with assms(3) new old b(3) names_differ(2) [of s] ok show ?thesis by (simp add: converted_def last)
  next
    assume "upd = (\<lambda>seg h. h\<lparr>readonlyData := seg\<rparr>)" "is_named rdata_name s"
    with assms(3) new old b(3) names_differ(3) [of s] ok show ?thesis by (simp add: converted_def last)
  qed
qed

lemma section_converted:
  assumes "converted coff ss c" and "section_step coff s c = Some c'"
    and "int_range (s_paddr s)" and "int_range (s_size s)" and "sizeof_NoffHeader + int (length (out_data c')) < 2 ^ 31"
  shows "converted coff (ss @ [s]) c'"
proof (cases "s_size s = 0 \<or> \<not> (is_named text_name s \<or> is_named data_name s \<or> is_named rdata_name s)")
  case True
  have r: "\<forall>i \<in> set (noff_ints (noffH c)). int_range i" using assms(1) by (simp add: converted_def)
  have "c' = c \<or> (\<exists>a n. int_range a \<and> int_range n \<and>
      c' = c\<lparr>noffH := (noffH c)\<lparr>uninitData := (uninitData (noffH c))\<lparr>virtualAddr := a, seg_size := n\<rparr>\<rparr>\<rparr>)"
  proof (cases "s_size s = 0")
    case False
    let ?u = "uninitData (noffH c)"
    have u: "int_range (virtualAddr ?u)" using r by (simp add: noff_ints_set)
    have v: "?u\<lparr>seg_size := n\<rparr> = ?u\<lparr>virtualAddr := virtualAddr ?u, seg_size := n\<rparr>" for n by (cases ?u) simp
    from False True assms(2) have "(seg_size ?u \<noteq> 0 \<and> c' = c\<lparr>noffH := (noffH c)\<lparr>uninitData := ?u\<lparr>seg_size := c_int (seg_size ?u + s_size s)\<rparr>\<rparr>\<rparr>) \<or>
        c' = c\<lparr>noffH := (noffH c)\<lparr>uninitData := ?u\<lparr>virtualAddr := s_paddr s, seg_size := s_size s\<rparr>\<rparr>\<rparr>"
      by (simp add: section_step_def Let_def split: if_split_asm)
    then show ?thesis using u v assms(3,4) int_range_c_int by metis
  qed (use assms(2) in \<open>simp add: section_step_def\<close>)
  then show ?thesis
  proof (elim disjE exE conjE)
    assume "c' = c"
    with True assms(1) show ?thesis by (auto simp: converted_def last_section_snoc)
  next
    fix a n
    assume an: "int_range a" "int_range n"
      and c': "c' = c\<lparr>noffH := (noffH c)\<lparr>uninitData := (uninitData (noffH c))\<lparr>virtualAddr := a, seg_size := n\<rparr>\<rparr>\<rparr>"
    have "\<forall>i \<in> set (noff_ints (noffH c')). int_range i" using r an unfolding c' by (simp add: noff_ints_set)
    with True assms(1) c' show ?thesis by (auto simp: converted_def last_section_snoc)
  qed
next
  case False
  then have z: "s_size s \<noteq> 0" by simp
  note cc = copy_converted [OF assms(1) _ z assms(3-5)]
  from False consider "is_named text_name s" | "is_named data_name s" | "is_named rdata_name s" by blast
  then show ?thesis
  proof cases
    case 1
    then have "copy_section coff s (\<lambda>seg h. h\<lparr>code_seg := seg\<rparr>) c = Some c'" using assms(2) z by (simp add: section_step_def)
    from cc [OF this] 1 show ?thesis by simp
  next
    case 2
    then have "copy_section coff s (\<lambda>seg h. h\<lparr>initData := seg\<rparr>) c = Some c'"
      using assms(2) z names_differ(2) by (simp add: section_step_def)
    from cc [OF this] 2 show ?thesis by simp
  next
    case 3
    then have "copy_section coff s (\<lambda>seg h. h\<lparr>readonlyData := seg\<rparr>) c = Some c'"
      using assms(2) z names_differ(3) by (simp add: section_step_def)
    from cc [OF this] 3 show ?thesis by simp
  qed
qed

lemma section_grows: "section_step coff s c = Some c' \<Longrightarrow> length (out_data c) \<le> length (out_data c')"
  by (auto simp: section_step_def copy_section_def Let_def bind_Some_conv split: if_split_asm)

lemma sections_converted:
  assumes "foldM (section_step coff) ss c0 = Some c" and "converted coff [] c0"
    and "\<forall>s \<in> set ss. int_range (s_paddr s) \<and> int_range (s_size s)" and "sizeof_NoffHeader + int (length (out_data c)) < 2 ^ 31"
  shows "converted coff ss c"
  using assms(1,3,4)
proof (induction ss arbitrary: c rule: rev_induct)
  case Nil
  with assms(2) show ?case by simp
next
  case (snoc s ss)
  then obtain c1 where c1: "foldM (section_step coff) ss c0 = Some c1" "section_step coff s c1 = Some c"
    by (auto simp: foldM_append bind_Some_conv)
  have "converted coff ss c1" by (rule snoc.IH [OF c1(1)]) (use snoc.prems section_grows [OF c1(2)] in auto)
  from section_converted [OF this c1(2)] snoc.prems show ?case by simp
qed

lemma int_at_range: "int_range (int_at bs i)"
  using sint_greater_eq [of "bytes_to_word (drop i bs)"] sint_lt [of "bytes_to_word (drop i bs)"]
  by (simp add: int_at_def bytes_to_int_def int_range_def)

lemma sections_range: "s \<in> set (sections_of_bytes n bs) \<Longrightarrow> int_range (s_paddr s) \<and> int_range (s_size s)"
  by (induction n arbitrary: bs) (auto simp: section_of_bytes_def int_at_range)

text \<open>The converted file and the state of the conversion at its end.\<close>

lemma coff2noff_converted:
  assumes "coff2noff stack_junk coff = Some file" and "coff_sections coff = Some (ss, pos)"
    and "\<forall>i \<in> set (noff_ints stack_junk). int_range i" and "int (length file) < 2 ^ 31"
  obtains c where "file = noff_bytes (noffH c) @ out_data c" and "converted coff ss c" and "noff_of_bytes file = noffH c"
proof -
  let ?c0 = "\<lparr>noffH = empty_noff stack_junk, inNoffFile = sizeof_NoffHeader, fdIn = pos, out_data = []\<rparr>"
  obtain c where c: "foldM (section_step coff) ss ?c0 = Some c" "file = noff_bytes (noffH c) @ out_data c"
    using assms(1,2) by (auto simp: coff2noff_def bind_Some_conv)
  have pos: "0 \<le> pos" using assms(2)
    by (auto simp: coff_sections_def Read_coff_def Let_def bind_Some_conv sizeof_filehdr_def sizeof_aouthdr_def split: if_split_asm)
  have ss: "\<forall>s \<in> set ss. int_range (s_paddr s) \<and> int_range (s_size s)"
    using assms(2) sections_range by (auto simp: coff_sections_def Let_def bind_Some_conv)
  have "converted coff [] ?c0"
    using assms(3) pos by (auto simp: converted_def empty_noff_def noff_ints_set carries_def NOFFMAGIC_def int_range_def)
  then have "converted coff ss c"
    by (rule sections_converted [OF c(1) _ ss]) (use assms(4) c(2) in \<open>simp add: sizeof_NoffHeader_def\<close>)
  moreover from this have "noff_of_bytes file = noffH c" unfolding c(2) by (intro noff_roundtrip) (simp add: converted_def)
  ultimately show ?thesis using that c(2) by blast
qed

text \<open>
  What \<open>coff2noff\<close> writes is a NOFF file with every section in it: its header has the magic number,
  and for each of \<open>.text\<close>, \<open>.data\<close> and \<open>.rdata\<close> the segment is empty when the COFF file has no such
  section, and otherwise has its address and size and, at the place the header gives, behind the
  header and inside the file, exactly the bytes of the section.
\<close>

theorem coff2noff_keeps_sections:
  assumes "coff2noff stack_junk coff = Some file" and "coff_sections coff = Some (ss, pos)"
    and "\<forall>i \<in> set (noff_ints stack_junk). int_range i" and "int (length file) < 2 ^ 31"
  shows "noffMagic (noff_of_bytes file) = NOFFMAGIC \<and>
    carries coff file (code_seg (noff_of_bytes file)) (last_section text_name ss) \<and>
    carries coff file (initData (noff_of_bytes file)) (last_section data_name ss) \<and>
    carries coff file (readonlyData (noff_of_bytes file)) (last_section rdata_name ss)"
proof -
  obtain c where "file = noff_bytes (noffH c) @ out_data c" "converted coff ss c" "noff_of_bytes file = noffH c"
    by (rule coff2noff_converted [OF assms])
  then show ?thesis by (auto simp: converted_def sizeof_NoffHeader_def)
qed

text \<open>A COFF file with four bytes of text.\<close>

definition tiny_coff :: "byte list" where
  "tiny_coff = [0x62, 0x01, 1, 0] @ replicate 16 0 @ [0x07, 0x01] @ replicate 54 0 @
     ([46, 116, 101, 120, 116, 0, 0, 0] @ replicate 4 0 @ replicate 4 0 @ [4, 0, 0, 0] @ [116, 0, 0, 0] @ replicate 16 0) @ [1, 2, 3, 4]"

definition zero_noff :: NoffHeader where
  "zero_noff = noff_of_bytes (replicate 52 0)"

lemma tiny_sections: "coff_sections tiny_coff = Some ([\<lparr>s_name = [46, 116, 101, 120, 116, 0, 0, 0], s_paddr = 0, s_size = 4, s_scnptr = 116\<rparr>], 116)"
  by code_simp

lemma tiny_converts: "coff2noff zero_noff tiny_coff \<noteq> None \<and> length (the (coff2noff zero_noff tiny_coff)) = 56 \<and>
   (\<forall>i \<in> set (noff_ints zero_noff). int_range i)"
  by code_simp

lemma coff2noff_keeps_sections_witness:
  "\<exists>noff. coff2noff zero_noff tiny_coff = Some noff \<and> seg_size (code_seg (noff_of_bytes noff)) = 4 \<and>
     part (inFileAddr (code_seg (noff_of_bytes noff))) 4 noff = [1, 2, 3, 4]"
proof -
  obtain noff where f: "coff2noff zero_noff tiny_coff = Some noff" "length noff = 56" using tiny_converts by auto
  have l: "last_section text_name [\<lparr>s_name = [46, 116, 101, 120, 116, 0, 0, 0], s_paddr = 0, s_size = 4, s_scnptr = 116\<rparr>] =
      Some \<lparr>s_name = [46, 116, 101, 120, 116, 0, 0, 0], s_paddr = 0, s_size = 4, s_scnptr = 116\<rparr>"
    and p: "part 116 4 tiny_coff = [1, 2, 3, 4]" by code_simp+
  show ?thesis
    using coff2noff_keeps_sections [OF f(1) tiny_sections] tiny_converts f l p by (auto simp: carries_def)
qed

end
