(* ===== verification/Loader.thy ===== *)
theory Loader
  imports Noff Kernel_Correct FileSys_Correct
begin

text \<open>
  Loading a user program (\<open>userprog/addrspace.cc\<close>): a new address space,
  the header and the segments of a NOFF file read through the file system into the memory of the
  machine, and the translation of addresses for the kernel.
\<close>

definition UserStackSize :: int where "UserStackSize = 1024"

text \<open>The constructor: pages map to themselves, and all of the machine's memory is cleared.\<close>

definition AddrSpace_new :: "Machine.machine \<Rightarrow> TranslationEntry list \<times> Machine.machine" where
  "AddrSpace_new m =
     (map (\<lambda>i. \<lparr>virtualPage = word_of_int i, physicalPage = word_of_int i, valid = True, readOnly = False,
                te_use = False, dirty = False\<rparr>) [0..NumPhysPages - 1],
      m\<lparr>mainMemory := replicate (nat MemorySize) 0\<rparr>)"

text \<open>\<open>ReadAt\<close> into the memory of the machine: nothing happens to it when there is nothing to read.\<close>

definition read_into :: "fs \<Rightarrow> open_file \<Rightarrow> Machine.machine \<Rightarrow> Segment \<Rightarrow> (Machine.machine \<times> open_file \<times> fs) option" where
  "read_into k f m s = do {
     (data, f, k) \<leftarrow> ReadAt k f (seg_size s) (inFileAddr s);
     m \<leftarrow> (if data = [] then Some m else store_bytes m (virtualAddr s) data);
     Some (m, f, k) }"

definition load_segment :: "fs \<Rightarrow> open_file \<Rightarrow> Machine.machine \<Rightarrow> Segment \<Rightarrow> (Machine.machine \<times> open_file \<times> fs) option" where
  "load_segment k f m s = (if seg_size s > 0 then read_into k f m s else Some (m, f, k))"

text \<open>
  \<open>Load\<close> between the opening and the closing of the file. A header that is cut short leaves the rest of
  \<open>noffH\<close> as the stack had it. The sum of the sizes is computed as \<open>unsigned\<close>.
\<close>

definition load_file ::
    "byte list \<Rightarrow> fs \<Rightarrow> open_file \<Rightarrow> Machine.machine \<Rightarrow> (u32 \<times> Machine.machine \<times> open_file \<times> fs) option" where
  "load_file stack_junk k f m = do {
     (data, f, k) \<leftarrow> ReadAt k f sizeof_NoffHeader 0;
     let noffH = noff_of_bytes (data @ drop (length data) stack_junk);
     ASSERT (noffMagic noffH = NOFFMAGIC);
     let size' = (word_of_int (seg_size (code_seg noffH) + seg_size (readonlyData noffH) + seg_size (initData noffH) +
                    seg_size (uninitData noffH) + UserStackSize) :: u32);
     let pages = size' div word_of_int PageSize + (if size' mod word_of_int PageSize > 0 then 1 else 0);
     ASSERT (pages \<le> word_of_int NumPhysPages);
     (m, f, k) \<leftarrow> load_segment k f m (code_seg noffH);
     (m, f, k) \<leftarrow> load_segment k f m (initData noffH);
     (m, f, k) \<leftarrow> load_segment k f m (readonlyData noffH);
     Some (pages, m, f, k) }"

definition AddrSpace_Load ::
    "fresh_entries \<Rightarrow> byte list \<Rightarrow> fs \<Rightarrow> byte list \<Rightarrow> TranslationEntry list \<Rightarrow> Machine.machine \<Rightarrow>
     (addr_space option \<times> Machine.machine \<times> fs) option" where
  "AddrSpace_Load new_entry stack_junk k fileName table' m = do {
     (executable, k) \<leftarrow> Open new_entry k fileName;
     case executable of
       None \<Rightarrow> Some (None, m, k)
     | Some f \<Rightarrow> do {
         (pages, m, f, k) \<leftarrow> load_file stack_junk k f m;
         k \<leftarrow> OpenFile_delete k f;
         Some (Some \<lparr>as_pageTable = table', numPages = pages\<rparr>, m, k) } }"

text \<open>\<open>AddrSpace::Translate\<close>: the physical address, or the exception, and the page table with its bits set.\<close>

definition AddrSpace_Translate :: "addr_space \<Rightarrow> u32 \<Rightarrow> bool \<Rightarrow> ((ExceptionType + u32) \<times> addr_space) option" where
  "AddrSpace_Translate as vaddr isReadWrite = do {
     let vpn = vaddr div word_of_int PageSize;
     let offset = vaddr mod word_of_int PageSize;
     if vpn \<ge> numPages as then Some (Inl AddressErrorException, as)
     else do {
       pte \<leftarrow> arr_get (as_pageTable as) (uint vpn);
       if isReadWrite \<and> readOnly pte then Some (Inl ReadOnlyException, as)
       else do {
         let pfn = sint (physicalPage pte);
         if pfn \<ge> NumPhysPages then Some (Inl BusErrorException, as)
         else do {
           let pte = pte\<lparr>te_use := True, dirty := dirty pte \<or> isReadWrite\<rparr>;
           t \<leftarrow> arr_set (as_pageTable as) (uint vpn) pte;
           let paddr = word_of_int (pfn * PageSize) + offset;
           ASSERT (uint paddr < MemorySize);
           Some (Inr paddr, as\<lparr>as_pageTable := t\<rparr>) } } } }"

subsection \<open>Segments in memory\<close>

text \<open>The memory \<open>mem\<close> with a segment of the file \<open>fb\<close> laid over it.\<close>

definition place :: "byte list \<Rightarrow> Segment \<Rightarrow> byte list \<Rightarrow> byte list" where
  "place fb s mem =
     (if seg_size s > 0 then put_mem mem (nat (virtualAddr s)) (part (inFileAddr s) (seg_size s) fb) else mem)"

text \<open>A segment that lies inside the file, begins in its first fragment, and has its place in memory.\<close>

definition segment_fits :: "byte list \<Rightarrow> Segment \<Rightarrow> bool" where
  "segment_fits fb s \<longleftrightarrow> 0 \<le> seg_size s \<and> (0 < seg_size s \<longrightarrow>
     0 \<le> virtualAddr s \<and> virtualAddr s + seg_size s \<le> MemorySize \<and>
     0 \<le> inFileAddr s \<and> inFileAddr s < 1024 \<and> inFileAddr s + seg_size s \<le> int (length fb))"

definition apart :: "Segment \<Rightarrow> Segment \<Rightarrow> bool" where
  "apart s t \<longleftrightarrow> seg_size s \<le> 0 \<or> seg_size t \<le> 0 \<or> virtualAddr s + seg_size s \<le> virtualAddr t \<or>
     virtualAddr t + seg_size t \<le> virtualAddr s"

lemma MemorySize_eq: "MemorySize = 16384"
  by (simp add: MemorySize_def NumPhysPages_def PageSize_def disk_consts)

lemma length_part: "0 \<le> pos \<Longrightarrow> 0 \<le> n \<Longrightarrow> pos + n \<le> int (length bs) \<Longrightarrow> length (part pos n bs) = nat n"
  by (simp add: part_def)

lemma fits_length:
  "segment_fits fb s \<Longrightarrow> 0 < seg_size s \<Longrightarrow> length (part (inFileAddr s) (seg_size s) fb) = nat (seg_size s)"
  by (simp add: segment_fits_def length_part)

lemma length_place:
  assumes "segment_fits fb s" and "length mem = 16384"
  shows "length (place fb s mem) = 16384"
proof (cases "0 < seg_size s")
  case True
  then have "nat (virtualAddr s) + nat (seg_size s) \<le> 16384"
    using assms(1) by (simp add: segment_fits_def MemorySize_eq) linarith
  then show ?thesis using True assms fits_length [OF assms(1) True] by (simp add: place_def)
qed (simp add: place_def assms(2))

lemma part_place_same:
  assumes "segment_fits fb s" and "length mem = 16384" and "0 < seg_size s"
  shows "part (virtualAddr s) (seg_size s) (place fb s mem) = part (inFileAddr s) (seg_size s) fb"
proof -
  let ?bs = "part (inFileAddr s) (seg_size s) fb"
  have l: "length ?bs = nat (seg_size s)" by (rule fits_length [OF assms(1,3)])
  have "nat (virtualAddr s) + length ?bs \<le> length mem"
    unfolding l using assms by (simp add: segment_fits_def MemorySize_eq) linarith
  from put_mem_same [OF this] show ?thesis
    unfolding l using assms(3) by (simp add: place_def part_def [of "virtualAddr s"])
qed

lemma part_place_other:
  assumes "segment_fits fb s" and "length mem = 16384" and "apart s t" and "segment_fits fb t"
  shows "part (virtualAddr t) (seg_size t) (place fb s mem) = part (virtualAddr t) (seg_size t) mem"
proof (cases "0 < seg_size s \<and> 0 < seg_size t")
  case True
  let ?bs = "part (inFileAddr s) (seg_size s) fb" and ?t = "nat (virtualAddr t)"
  have l: "length ?bs = nat (seg_size s)" using fits_length [OF assms(1)] True by simp
  have r: "0 \<le> virtualAddr s" "0 \<le> virtualAddr t" "virtualAddr s + seg_size s \<le> 16384" "virtualAddr t + seg_size t \<le> 16384"
    using assms(1,4) True by (auto simp: segment_fits_def MemorySize_eq)
  have le: "nat (virtualAddr s) + length ?bs \<le> length mem" unfolding l using r True assms(2) by simp linarith
  have d: "virtualAddr s + seg_size s \<le> virtualAddr t \<or> virtualAddr t + seg_size t \<le> virtualAddr s"
    using assms(3) True by (auto simp: apart_def)
  have "take (nat (seg_size t)) (drop ?t (put_mem mem (nat (virtualAddr s)) ?bs)) = take (nat (seg_size t)) (drop ?t mem)"
  proof (rule nth_equalityI)
    show "length (take (nat (seg_size t)) (drop ?t (put_mem mem (nat (virtualAddr s)) ?bs))) = length (take (nat (seg_size t)) (drop ?t mem))"
      using le by simp
    fix i assume "i < length (take (nat (seg_size t)) (drop ?t (put_mem mem (nat (virtualAddr s)) ?bs)))"
    then have i: "i < nat (seg_size t)" "?t + i < length mem" using le by auto
    have "?t + i < nat (virtualAddr s) \<or> nat (virtualAddr s) + length ?bs \<le> ?t + i"
      unfolding l using d i(1) r True by linarith
    from put_mem_other [OF le this] show "take (nat (seg_size t)) (drop ?t (put_mem mem (nat (virtualAddr s)) ?bs)) ! i =
        take (nat (seg_size t)) (drop ?t mem) ! i" using i le by simp
  qed
  then show ?thesis using True by (simp add: place_def part_def [of "virtualAddr t"])
qed (use assms(4) in \<open>auto simp: place_def part_def segment_fits_def\<close>)

lemma load_segment_ok:
  assumes "fs_inv k cs cf" and "file_inv k cf f fs" and "segment_fits (file_bytes k f fs) s"
    and "length (mainMemory m) = 16384"
  obtains d' where "load_segment k f m s = Some (m\<lparr>mainMemory := place (file_bytes k f fs) s (mainMemory m)\<rparr>, f, k\<lparr>dsk := d'\<rparr>)"
    and "idle_after (dsk k) d'" and "sectors d' = sectors (dsk k)"
proof (cases "0 < seg_size s")
  case True
  let ?fb = "file_bytes k f fs"
  have s: "0 \<le> inFileAddr s" "inFileAddr s < 1024" "0 \<le> seg_size s" "0 \<le> virtualAddr s" "virtualAddr s + seg_size s \<le> 16384"
    using assms(3) True by (auto simp: segment_fits_def MemorySize_eq)
  obtain d' where d: "ReadAt k f (seg_size s) (inFileAddr s) = Some (part (inFileAddr s) (seg_size s) ?fb, f, k\<lparr>dsk := d'\<rparr>)"
    "idle_after (dsk k) d'" "sectors d' = sectors (dsk k)"
    using ReadAt_ok [OF assms(1,2) s(1-3)] unfolding part_def by blast
  have l: "length (part (inFileAddr s) (seg_size s) ?fb) = nat (seg_size s)" by (rule fits_length [OF assms(3) True])
  then have "part (inFileAddr s) (seg_size s) ?fb \<noteq> []" using True by auto
  with d(1) True l s assms(4) have "load_segment k f m s =
      Some (m\<lparr>mainMemory := place ?fb s (mainMemory m)\<rparr>, f, k\<lparr>dsk := d'\<rparr>)"
    by (simp add: load_segment_def read_into_def store_bytes_def place_def put_mem_def)
  then show ?thesis using that d(2,3) by blast
next
  case False
  then have "load_segment k f m s = Some (m\<lparr>mainMemory := place (file_bytes k f fs) s (mainMemory m)\<rparr>, f, k\<lparr>dsk := dsk k\<rparr>)"
    by (simp add: load_segment_def place_def)
  moreover have "idle_after (dsk k) (dsk k)" using assms(1) by (simp add: fs_inv_def)
  ultimately show ?thesis using that by blast
qed

subsection \<open>Loading a program\<close>

definition loaded_memory :: "byte list \<Rightarrow> NoffHeader \<Rightarrow> byte list \<Rightarrow> byte list" where
  "loaded_memory fb h mem = place fb (readonlyData h) (place fb (initData h) (place fb (code_seg h) mem))"

definition program_size :: "NoffHeader \<Rightarrow> int" where
  "program_size h = seg_size (code_seg h) + seg_size (readonlyData h) + seg_size (initData h) + seg_size (uninitData h) + UserStackSize"

text \<open>A header whose program can be loaded from the file \<open>fb\<close>.\<close>

definition loadable :: "byte list \<Rightarrow> NoffHeader \<Rightarrow> bool" where
  "loadable fb h \<longleftrightarrow> noffMagic h = NOFFMAGIC \<and> segment_fits fb (code_seg h) \<and> segment_fits fb (initData h) \<and>
     segment_fits fb (readonlyData h) \<and> 0 \<le> seg_size (uninitData h) \<and> program_size h \<le> MemorySize"

lemma bytes_to_ints_take: "4 * n \<le> length bs \<Longrightarrow> bytes_to_ints n (take (4 * n) bs @ rest) = bytes_to_ints n bs"
proof (induction n arbitrary: bs)
  case (Suc n)
  have "bytes_to_ints n (take (4 * n) (drop 4 bs) @ rest) = bytes_to_ints n (drop 4 bs)"
    using Suc by simp
  then show ?case using Suc.prems by (simp add: drop_take)
qed simp

lemma noff_of_bytes_take: "52 \<le> length bs \<Longrightarrow> noff_of_bytes (take 52 bs @ rest) = noff_of_bytes bs"
  using bytes_to_ints_take [of 13 bs rest] by (simp add: noff_of_bytes_def)

lemma pages_ceil:
  assumes "0 \<le> n" and "n \<le> 16384"
  defines "w \<equiv> word_of_int n :: u32"
  shows "uint (w div word_of_int PageSize + (if w mod word_of_int PageSize > 0 then 1 else 0)) = (n + 127) div 128"
proof -
  have w: "uint w = n" using assms by (simp add: w_def uint_word_of_int)
  have d: "uint (w div 128) = n div 128" "uint (w mod 128) = n mod 128" by (simp_all add: uint_div uint_mod w)
  have p: "word_of_int PageSize = (128 :: u32)" by (simp add: PageSize_def disk_consts)
  have "0 \<le> n div 128" using assms(1) by (simp add: pos_imp_zdiv_nonneg_iff)
  moreover have "n div 128 \<le> 128" using assms(2) by linarith
  ultimately have s: "uint (w div 128 + 1) = n div 128 + 1"
    unfolding uint_word_ariths(1) d(1) by simp
  have md: "n = 128 * (n div 128) + n mod 128" "0 \<le> n mod 128" "n mod 128 < 128" by simp_all
  show ?thesis
  proof (cases "n mod 128 = 0")
    case True
    then have "\<not> 0 < w mod 128" by (simp add: word_less_def d)
    moreover have "(n + 127) div 128 = n div 128"
      by (rule int_div_pos_eq [of _ _ _ 127]) (use md True in linarith)+
    ultimately show ?thesis unfolding p by (simp only: if_False add_0_right d(1))
  next
    case False
    then have pos: "0 < n mod 128" using md(2) by linarith
    then have "0 < w mod 128" by (simp add: word_less_def d)
    moreover have "(n + 127) div 128 = n div 128 + 1"
      by (rule int_div_pos_eq [of _ _ _ "n mod 128 - 1"]) (use md pos in \<open>simp_all add: algebra_simps\<close>)
    ultimately show ?thesis unfolding p by (simp only: if_True s)
  qed
qed

lemma load_file_ok:
  assumes "fs_inv k cs cf" and "file_inv k cf f fs" and "length (mainMemory m) = 16384"
    and "52 \<le> length (file_bytes k f fs)" and "loadable (file_bytes k f fs) (noff_of_bytes (file_bytes k f fs))"
  defines "h \<equiv> noff_of_bytes (file_bytes k f fs)"
  obtains pages d' where "load_file stack_junk k f m =
      Some (pages, m\<lparr>mainMemory := loaded_memory (file_bytes k f fs) h (mainMemory m)\<rparr>, f, k\<lparr>dsk := d'\<rparr>)"
    and "idle_after (dsk k) d'" and "sectors d' = sectors (dsk k)" and "uint pages = (program_size h + 127) div 128"
proof -
  let ?fb = "file_bytes k f fs"
  have h: "noffMagic h = NOFFMAGIC" "segment_fits ?fb (code_seg h)" "segment_fits ?fb (initData h)"
    "segment_fits ?fb (readonlyData h)" "0 \<le> seg_size (uninitData h)" "program_size h \<le> 16384"
    using assms(5) by (simp_all add: loadable_def h_def MemorySize_eq)
  obtain d0 where d0: "ReadAt k f 52 0 = Some (take 52 ?fb, f, k\<lparr>dsk := d0\<rparr>)" "idle_after (dsk k) d0" "sectors d0 = sectors (dsk k)"
    using ReadAt_ok [OF assms(1,2), of 0 52] by auto
  have fsi: "fs_inv (k\<lparr>dsk := d\<rparr>) cs cf" "file_inv (k\<lparr>dsk := d\<rparr>) cf f fs" "file_bytes (k\<lparr>dsk := d\<rparr>) f fs = ?fb"
    if "idle_after (dsk k) d" "sectors d = sectors (dsk k)" for d
    using fs_inv_cong [OF assms(1), of "k\<lparr>dsk := d\<rparr>"] assms(2) that
    by (simp_all add: same_context_def file_inv_def file_bytes_def)
  let ?m1 = "m\<lparr>mainMemory := place ?fb (code_seg h) (mainMemory m)\<rparr>"
  note f0 = fsi [OF d0(2,3)]
  obtain d1 where d1: "load_segment (k\<lparr>dsk := d0\<rparr>) f m (code_seg h) = Some (?m1, f, k\<lparr>dsk := d1\<rparr>)"
    "idle_after d0 d1" "sectors d1 = sectors (dsk k)"
    using load_segment_ok [OF f0(1,2), of "code_seg h" m] f0(3) h(2) assms(3) d0(3) by auto
  have i1: "idle_after (dsk k) d1" by (rule idle_after_trans [OF d0(2) d1(2)])
  note f1 = fsi [OF i1 d1(3)]
  have l1: "length (mainMemory ?m1) = 16384" using length_place [OF h(2) assms(3)] by simp
  let ?m2 = "m\<lparr>mainMemory := place ?fb (initData h) (mainMemory ?m1)\<rparr>"
  obtain d2 where d2: "load_segment (k\<lparr>dsk := d1\<rparr>) f ?m1 (initData h) = Some (?m2, f, k\<lparr>dsk := d2\<rparr>)"
    "idle_after d1 d2" "sectors d2 = sectors (dsk k)"
    using load_segment_ok [OF f1(1,2), of "initData h" ?m1] f1(3) h(3) l1 d1(3) by auto
  have i2: "idle_after (dsk k) d2" by (rule idle_after_trans [OF i1 d2(2)])
  note f2 = fsi [OF i2 d2(3)]
  have l2: "length (mainMemory ?m2) = 16384" using length_place [OF h(3) l1] by simp
  let ?m3 = "m\<lparr>mainMemory := place ?fb (readonlyData h) (mainMemory ?m2)\<rparr>"
  obtain d3 where d3: "load_segment (k\<lparr>dsk := d2\<rparr>) f ?m2 (readonlyData h) = Some (?m3, f, k\<lparr>dsk := d3\<rparr>)"
    "idle_after d2 d3" "sectors d3 = sectors (dsk k)"
    using load_segment_ok [OF f2(1,2), of "readonlyData h" ?m2] f2(3) h(4) l2 d2(3) by auto
  have i3: "idle_after (dsk k) d3" by (rule idle_after_trans [OF i2 d3(2)])
  have z: "0 \<le> program_size h" using h(2-5) by (simp add: program_size_def segment_fits_def UserStackSize_def)
  let ?size = "word_of_int (program_size h) :: u32"
  let ?pages = "?size div word_of_int PageSize + (if ?size mod word_of_int PageSize > 0 then 1 else 0)"
  have pages: "uint ?pages = (program_size h + 127) div 128" by (rule pages_ceil [OF z h(6)])
  have "(program_size h + 127) div 128 \<le> 128" using h(6) by simp
  then have le: "?pages \<le> word_of_int NumPhysPages"
    unfolding word_le_def pages by (simp add: NumPhysPages_def)
  have nh: "noff_of_bytes (take 52 ?fb @ drop (length (take 52 ?fb)) stack_junk) = h"
    unfolding h_def by (rule noff_of_bytes_take [OF assms(4)])
  have "load_file stack_junk k f m = Some (?pages, ?m3, f, k\<lparr>dsk := d3\<rparr>)"
    unfolding load_file_def sizeof_NoffHeader_def d0(1) bind.bind_lunit prod.case Let_def nh
    unfolding program_size_def [symmetric]
    using h(1) le d1(1) d2(1) d3(1) by simp
  moreover have "?m3 = m\<lparr>mainMemory := loaded_memory ?fb h (mainMemory m)\<rparr>" by (simp add: loaded_memory_def)
  ultimately show ?thesis using that i3 d3(3) pages by metis
qed

text \<open>Segments that are loaded one after the other and do not overlap are all in memory at the end.\<close>

lemma loaded_memory_parts:
  assumes "loadable fb h" and "length mem = 16384"
    and "apart (code_seg h) (initData h)" and "apart (code_seg h) (readonlyData h)" and "apart (initData h) (readonlyData h)"
    and "s \<in> {code_seg h, initData h, readonlyData h}" and "0 < seg_size s"
  shows "part (virtualAddr s) (seg_size s) (loaded_memory fb h mem) = part (inFileAddr s) (seg_size s) fb"
proof -
  have fit: "segment_fits fb (code_seg h)" "segment_fits fb (initData h)" "segment_fits fb (readonlyData h)"
    using assms(1) by (simp_all add: loadable_def)
  note l1 = length_place [OF fit(1) assms(2)] and l2 = length_place [OF fit(2) length_place [OF fit(1) assms(2)]]
  note other = part_place_other [OF fit(2) l1 _ fit(1)] part_place_other [OF fit(3) l2]
  from assms(6) consider "s = code_seg h" | "s = initData h" | "s = readonlyData h" by blast
  then show ?thesis
  proof cases
    case 1
    have "apart (initData h) (code_seg h)" "apart (readonlyData h) (code_seg h)" using assms(3,4) by (auto simp: apart_def)
    with 1 part_place_same [OF fit(1) assms(2)] assms(7) other fit show ?thesis by (simp add: loaded_memory_def)
  next
    case 2
    have "apart (readonlyData h) (initData h)" using assms(5) by (auto simp: apart_def)
    with 2 part_place_same [OF fit(2) l1] assms(7) other(2) fit show ?thesis by (simp add: loaded_memory_def)
  next
    case 3
    with part_place_same [OF fit(3) l2] assms(7) show ?thesis by (simp add: loaded_memory_def)
  qed
qed

text \<open>
  A kernel can be started on a machine into which a program has been loaded, with the program in the
  address space \<open>sp\<close>.
\<close>

lemma length_AddrSpace_new: "length (fst (AddrSpace_new m)) = 128"
  by (simp add: AddrSpace_new_def NumPhysPages_def)

lemma loaded_program_boots:
  assumes "fs_inv k cs cf" and "file_inv k cf f fs" and "52 \<le> length (file_bytes k f fs)"
    and "loadable (file_bytes k f fs) (noff_of_bytes (file_bytes k f fs))" and "boot_ok rnd init m sps body"
  obtains pages m' k' where "load_file stack_junk k f m = Some (pages, m', f, k')"
    and "boot_ok rnd init m' (sps(sp \<mapsto> \<lparr>as_pageTable = fst (AddrSpace_new m), numPages = pages\<rparr>)) (Execute sp # body)"
proof -
  let ?fb = "file_bytes k f fs"
  have b: "length (mainMemory m) = 16384" using assms(5) by (simp add: boot_ok_def)
  obtain pages d' where l: "load_file stack_junk k f m =
      Some (pages, m\<lparr>mainMemory := loaded_memory ?fb (noff_of_bytes ?fb) (mainMemory m)\<rparr>, f, k\<lparr>dsk := d'\<rparr>)"
    "uint pages = (program_size (noff_of_bytes ?fb) + 127) div 128"
    by (rule load_file_ok [OF assms(1,2) b assms(3,4)])
  have "program_size (noff_of_bytes ?fb) \<le> 16384" using assms(4) by (simp add: loadable_def MemorySize_eq)
  then have "uint pages \<le> 128" unfolding l(2) by linarith
  moreover have "length (loaded_memory ?fb (noff_of_bytes ?fb) (mainMemory m)) = 16384"
    using assms(4) by (simp add: loaded_memory_def loadable_def length_place b)
  ultimately show ?thesis
    using that [OF l(1)] assms(5) by (auto simp: boot_ok_def length_AddrSpace_new)
qed



subsection \<open>Programs that cannot be loaded\<close>

text \<open>A segment that is not in the first fragment cannot be read; any other leaves the file system as it was.\<close>

lemma load_segment_frame:
  assumes "fs_inv k cs cf" and "file_inv k cf f fs" and "load_segment k f m s = Some (m', f', k')" and "0 \<le> inFileAddr s"
  obtains d' where "f' = f" and "k' = k\<lparr>dsk := d'\<rparr>" and "idle_after (dsk k) d'" and "sectors d' = sectors (dsk k)"
    and "\<not> (0 < seg_size s \<and> 1024 \<le> inFileAddr s \<and> inFileAddr s < numBytes (hdr f))"
proof (cases "0 < seg_size s")
  case False
  then have "f' = f" "k' = k\<lparr>dsk := dsk k\<rparr>" using assms(3) by (simp_all add: load_segment_def)
  moreover have "idle_after (dsk k) (dsk k)" using assms(1) by (simp add: fs_inv_def)
  ultimately show ?thesis using that False by blast
next
  case True
  obtain data where r: "ReadAt k f (seg_size s) (inFileAddr s) = Some (data, f', k')"
    using assms(3) True by (auto simp: load_segment_def read_into_def bind_Some_conv)
  note cur = refresh_current [OF assms(2)]
  show ?thesis
  proof (cases "inFileAddr s < 1024")
    case first: True
    then show ?thesis using ReadAt_ok [OF assms(1,2,4) first, of "seg_size s"] True r that by auto
  next
    case False
    have sb: "fragment_size (superBlock k) = 1024" using assms(1) by (simp add: fs_inv_def)
    have out: "\<not> inFileAddr s < numBytes (hdr f)"
      using ReadAt_overruns [OF cur True, of "inFileAddr s"] sb False r by auto
    then have "f' = f" "k' = k\<lparr>dsk := dsk k\<rparr>" using r cur by (simp_all add: ReadAt_def FileLength_def)
    moreover have "idle_after (dsk k) (dsk k)" using assms(1) by (simp add: fs_inv_def)
    ultimately show ?thesis using that out by blast
  qed
qed

text \<open>
  C37. A program whose code or data begin behind the first 1024 bytes of its file, and inside the
  file, can never be loaded: \<open>ReadAt\<close> writes behind its buffer. Every program of more than 972 bytes
  of code with initialized data is of this kind.
\<close>

theorem Load_beyond_first_fragment:
  assumes "fs_inv k cs cf" and "file_inv k cf f fs" and "file_bytes k f fs = fb" and "52 \<le> length fb" and "noff_of_bytes fb = h"
    and "0 \<le> inFileAddr (code_seg h)" and "0 \<le> inFileAddr (initData h)" and "0 \<le> inFileAddr (readonlyData h)"
    and "s \<in> {code_seg h, initData h, readonlyData h}" and "0 < seg_size s" and "1024 \<le> inFileAddr s" and "inFileAddr s < int (length fb)"
  shows "load_file stack_junk k f m = None"
proof (rule ccontr)
  assume "load_file stack_junk k f m \<noteq> None"
  moreover obtain d0 where d0: "ReadAt k f 52 0 = Some (take 52 fb, f, k\<lparr>dsk := d0\<rparr>)" "idle_after (dsk k) d0" "sectors d0 = sectors (dsk k)"
    using ReadAt_ok [OF assms(1,2), of 0 52] assms(3) by auto
  moreover have "noff_of_bytes (take 52 fb @ drop (length (take 52 fb)) stack_junk) = h"
    using noff_of_bytes_take [OF assms(4)] assms(5) by blast
  ultimately obtain m1 f1 k1 m2 f2 k2 m3 f3 k3 where
    l: "load_segment (k\<lparr>dsk := d0\<rparr>) f m (code_seg h) = Some (m1, f1, k1)"
       "load_segment k1 f1 m1 (initData h) = Some (m2, f2, k2)"
       "load_segment k2 f2 m2 (readonlyData h) = Some (m3, f3, k3)"
    by (auto simp: load_file_def sizeof_NoffHeader_def Let_def bind_Some_conv split: if_split_asm)
  have nb: "numBytes (hdr f) = int (length fb)" using length_file_bytes [OF assms(2,1)] assms(3) by simp
  have fsi: "fs_inv (k\<lparr>dsk := d\<rparr>) cs cf" "file_inv (k\<lparr>dsk := d\<rparr>) cf f fs"
    if "idle_after (dsk k) d" "sectors d = sectors (dsk k)" for d
    using fs_inv_cong [OF assms(1), of "k\<lparr>dsk := d\<rparr>"] assms(2) that by (simp_all add: same_context_def file_inv_def)
  obtain d1 where d1: "f1 = f" "k1 = k\<lparr>dsk := d1\<rparr>" "idle_after d0 d1" "sectors d1 = sectors (dsk k)"
    and n1: "\<not> (0 < seg_size (code_seg h) \<and> 1024 \<le> inFileAddr (code_seg h) \<and> inFileAddr (code_seg h) < numBytes (hdr f))"
    by (rule load_segment_frame [OF fsi [OF d0(2,3)] l(1) assms(6)]) (simp add: d0(3))
  note i1 = idle_after_trans [OF d0(2) d1(3)]
  obtain d2 where d2: "f2 = f" "k2 = k\<lparr>dsk := d2\<rparr>" "idle_after d1 d2" "sectors d2 = sectors (dsk k)"
    and n2: "\<not> (0 < seg_size (initData h) \<and> 1024 \<le> inFileAddr (initData h) \<and> inFileAddr (initData h) < numBytes (hdr f))"
    by (rule load_segment_frame [OF fsi [OF i1 d1(4)] l(2) [unfolded d1(1,2)] assms(7)]) (simp add: d1(4))
  note i2 = idle_after_trans [OF i1 d2(3)]
  have n3: "\<not> (0 < seg_size (readonlyData h) \<and> 1024 \<le> inFileAddr (readonlyData h) \<and> inFileAddr (readonlyData h) < numBytes (hdr f))"
    by (rule load_segment_frame [OF fsi [OF i2 d2(4)] l(3) [unfolded d2(1,2)] assms(8)])
  show False using n1 n2 n3 assms(9-12) nb by auto
qed

subsection \<open>Two translations\<close>

lemma nonneg_sint_uint: "0 \<le> sint w \<Longrightarrow> uint w = sint w" for w :: u32
proof -
  assume n: "0 \<le> sint w"
  have "sint w < 2 ^ 32" using sint_lt [of w] by simp
  then have "uint (word_of_int (sint w) :: u32) = sint w" using n unfolding uint_word_of_int by simp
  then show "uint w = sint w" by simp
qed

lemma sint_is_uint: "uint w < 2 ^ 31 \<Longrightarrow> sint w = uint w" for w :: u32
  by (simp add: sint_uint signed_take_bit_int_eq_self_iff) (metis neg_0_le_iff_le neg_numeral_le_zero order_trans uint_nonneg)


subsection \<open>Programs in a file\<close>

lemma stored_file:
  assumes "0 < length bytes" and "length bytes \<le> 3072"
  obtains k cs cf f fs where "fs_inv k cs cf" and "file_inv k cf f fs" and "file_bytes k f fs = bytes"
proof -
  obtain d cf where d: "format_disk blank_disk = Some d" "disk_ok d"
    "fs_inv (blank_fs\<lparr>dsk := d\<rparr>) [fresh_summary, fresh_summary] cf" "0 < card (free_blocks cf)"
    by (rule formatted)
  let ?n = "int (length bytes)"
  have "divRoundUp ?n 1024 \<le> 3" using divRoundUp_le_iff [of ?n 1024 3] assms(2) by simp
  then have "divRoundUp (max (0 + ?n) (numBytes (hdr new_file))) 1024 div 4 \<le> 0"
    using assms(1) by (simp only: new_file_bytes add_0 max_absorb1 of_nat_0_le_iff)
  with WriteAt_spec [OF d(3) new_file_inv, of 0 ?n bytes] d(4) assms(2)
  obtain f' k' cf' fs' where "fs_inv k' [fresh_summary, fresh_summary] cf'"
    "written (blank_fs\<lparr>dsk := d\<rparr>) cf new_file [] 0 bytes k' f' cf' fs'" using assms(1) by auto
  then show ?thesis using that by (auto simp: written_def saved_def overwrite_def)
qed

definition no_segment :: Segment where
  "no_segment = \<lparr>virtualAddr = 0, inFileAddr = 0, seg_size = 0\<rparr>"

definition demo_header :: "int \<Rightarrow> NoffHeader" where
  "demo_header pos = \<lparr>noffMagic = NOFFMAGIC, code_seg = \<lparr>virtualAddr = 0, inFileAddr = pos, seg_size = 4\<rparr>,
     initData = no_segment, readonlyData = no_segment, uninitData = no_segment\<rparr>"

lemmas demo_header_defs = demo_header_def no_segment_def

lemma demo_header_bytes: "0 \<le> pos \<Longrightarrow> pos < 2000 \<Longrightarrow> noff_of_bytes (noff_bytes (demo_header pos) @ rest) = demo_header pos"
  by (rule noff_roundtrip) (auto simp: demo_header_defs noff_ints_set int_range_def NOFFMAGIC_def)


theorem Load_beyond_first_fragment_witness:
  "\<exists>k f. load_file [] k f (Machine_new False []) = None"
proof -
  let ?bs = "noff_bytes (demo_header 1024) @ replicate 976 0"
  obtain k cs cf f fs where k: "fs_inv k cs cf" "file_inv k cf f fs" "file_bytes k f fs = ?bs"
    by (rule stored_file [of ?bs]) simp_all
  have h: "noff_of_bytes ?bs = demo_header 1024" by (rule demo_header_bytes) simp_all
  show ?thesis
    using Load_beyond_first_fragment [OF k(1,2,3) _ h, of "code_seg (demo_header 1024)" "[]" "Machine_new False []"]
    by (auto simp: demo_header_defs)
qed

text \<open>Four bytes of text, on their way from the COFF file.\<close>

lemma tiny_noff:
  "coff2noff zero_noff tiny_coff = Some (noff_bytes (demo_header 52) @ [1, 2, 3, 4])"
  by code_simp


text \<open>The address space of a new program, with all of its 128 pages: byte 130 is in the second page.\<close>

lemma new_space_entries:
  "\<forall>e \<in> set (fst (AddrSpace_new m)). valid e \<and> 0 \<le> sint (physicalPage e)" "length (fst (AddrSpace_new m)) = 128"
proof -
  have "sint (word_of_int i :: u32) = i" if "0 \<le> i" "i \<le> 127" for i :: int
    using sint_is_uint [of "word_of_int i"] that by (simp add: uint_word_of_int)
  then show "\<forall>e \<in> set (fst (AddrSpace_new m)). valid e \<and> 0 \<le> sint (physicalPage e)" "length (fst (AddrSpace_new m)) = 128"
    by (auto simp: AddrSpace_new_def NumPhysPages_def)
qed


end
