(* ===== verification/Network.thy ===== *)
theory Network
  imports Complex_Main Nachos_Prelude
begin

text \<open>
  The network: the simulated device (\<open>machine/network.h\<close>, \<open>machine/network.cc\<close>), the sockets below it
  (\<open>lib/sysdep.cc\<close>) and the post office above it (\<open>network/post.h\<close>, \<open>network/post.cc\<close>), on several
  machines that run side by side.

  A socket is the queue of the datagrams sent to its name, in the order in which they were sent.
  Threads wait in the post office on the semaphores \<open>messageAvailable\<close> and \<open>messageSent\<close>, on
  \<open>sendLock\<close> and on the lists of the mailboxes, which are modelled here by what they promise: a
  counter, a flag and a sequence. An event is a step of one machine from one place where it can wait
  or be interrupted to the next; events of different machines come in any order.
\<close>

subsection \<open>Headers and their bytes\<close>

type_synonym NetworkAddress = u32

record PacketHeader =
  ph_to :: NetworkAddress
  ph_from :: NetworkAddress
  ph_length :: u32

record MailHeader =
  mh_to :: u32
  mh_from :: u32
  mh_length :: u32

definition sizeof_PacketHeader :: int where "sizeof_PacketHeader = 12"
definition sizeof_MailHeader :: int where "sizeof_MailHeader = 12"
definition MaxWireSize :: int where "MaxWireSize = 64"
definition MaxPacketSize :: int where "MaxPacketSize = MaxWireSize - sizeof_PacketHeader"
definition MaxMailSize :: int where "MaxMailSize = MaxPacketSize - sizeof_MailHeader"

definition word_bytes :: "u32 \<Rightarrow> byte list" where
  "word_bytes w = int_to_bytes (uint w)"

definition packet_bytes :: "PacketHeader \<Rightarrow> byte list" where
  "packet_bytes h = word_bytes (ph_to h) @ word_bytes (ph_from h) @ word_bytes (ph_length h)"

definition packet_of :: "byte list \<Rightarrow> PacketHeader" where
  "packet_of bs = \<lparr>ph_to = bytes_to_word bs, ph_from = bytes_to_word (drop 4 bs), ph_length = bytes_to_word (drop 8 bs)\<rparr>"

definition mailhdr_bytes :: "MailHeader \<Rightarrow> byte list" where
  "mailhdr_bytes h = word_bytes (mh_to h) @ word_bytes (mh_from h) @ word_bytes (mh_length h)"

definition mailhdr_of :: "byte list \<Rightarrow> MailHeader" where
  "mailhdr_of bs = \<lparr>mh_to = bytes_to_word bs, mh_from = bytes_to_word (drop 4 bs), mh_length = bytes_to_word (drop 8 bs)\<rparr>"

text \<open>\<open>bcopy\<close> of \<open>n\<close> bytes to the start of an array, and an array fresh from \<open>new\<close>, with what the heap held.\<close>

definition bcopy_into :: "byte list \<Rightarrow> byte list \<Rightarrow> int \<Rightarrow> byte list option" where
  "bcopy_into src dst n = do {
     ASSERT (n \<le> int (length src) \<and> n \<le> int (length dst));
     Some (take (nat n) src @ drop (nat n) dst) }"

definition new_chars :: "int \<Rightarrow> byte list \<Rightarrow> byte list" where
  "new_chars n heap = take (nat n) (heap @ replicate (nat n) 0)"

subsection \<open>Machines\<close>

record Mail =
  pktHdr :: PacketHeader
  mailHdr :: MailHeader
  mail_data :: "byte list"

text \<open>
  One machine: the input device, the post office with the two local variables of the postal worker
  while it has a message in its hands, the output device with the number of send interrupts that are
  scheduled.
\<close>

record host =
  hostName :: NetworkAddress
  inHdr :: PacketHeader
  inbox :: "byte list"
  messageAvailable :: nat
  boxes :: "Mail list list"
  worker :: "(PacketHeader \<times> MailHeader) option"
  worker_buffer :: "byte list"
  chanceToWork :: rat
  sendBusy :: bool
  send_pending :: nat
  messageSent :: nat
  sendLock :: bool

record network =
  hosts :: "NetworkAddress \<Rightarrow> host option"
  sockets :: "NetworkAddress \<Rightarrow> byte list list"

definition numBoxes :: "host \<Rightarrow> int" where
  "numBoxes s = int (length (boxes s))"

text \<open>The constructors: \<open>nBoxes\<close> empty mailboxes, no packet, and the reliability cut to [0, 1].\<close>

definition host_new :: "NetworkAddress \<Rightarrow> nat \<Rightarrow> rat \<Rightarrow> byte list \<Rightarrow> byte list \<Rightarrow> host" where
  "host_new name nBoxes reliability heap1 heap2 =
     \<lparr>hostName = name, inHdr = \<lparr>ph_to = bytes_to_word heap1, ph_from = bytes_to_word heap2, ph_length = 0\<rparr>,
      inbox = new_chars MaxPacketSize heap1, messageAvailable = 0, boxes = replicate nBoxes [],
      worker = None, worker_buffer = new_chars MaxPacketSize heap2,
      chanceToWork = (if reliability < 0 then 0 else if reliability > 1 then 1 else reliability),
      sendBusy = False, send_pending = 0, messageSent = 0, sendLock = False\<rparr>"

subsection \<open>The device\<close>

text \<open>\<open>NetworkInput::CallBack\<close>, on the machine and its socket. It ends with \<open>PostOfficeInput::CallBack\<close>.\<close>

definition PostOfficeInput_CallBack :: "host \<Rightarrow> host" where
  "PostOfficeInput_CallBack s = s\<lparr>messageAvailable := Suc (messageAvailable s)\<rparr>"

definition ReadFromSocket :: "byte list list \<Rightarrow> int \<Rightarrow> (byte list \<times> byte list list) option" where
  "ReadFromSocket sock packetSize = (case sock of [] \<Rightarrow> None
     | p # rest \<Rightarrow> if int (length p) = packetSize then Some (p, rest) else None)"

definition NetworkInput_CallBack :: "host \<Rightarrow> byte list list \<Rightarrow> (host \<times> byte list list) option" where
  "NetworkInput_CallBack s sock =
     (if ph_length (inHdr s) \<noteq> 0 then Some (s, sock)
      else if sock = [] then Some (s, sock)
      else do {
        (buffer, sock) \<leftarrow> ReadFromSocket sock MaxWireSize;
        let hdr = packet_of buffer;
        ASSERT (ph_to hdr = hostName s \<and> uint (ph_length hdr) \<le> MaxPacketSize);
        data \<leftarrow> bcopy_into (drop (nat sizeof_PacketHeader) buffer) (inbox s) (uint (ph_length hdr));
        Some (PostOfficeInput_CallBack (s\<lparr>inHdr := hdr, inbox := data\<rparr>), sock) })"

definition NetworkInput_Receive :: "host \<Rightarrow> byte list \<Rightarrow> (PacketHeader \<times> byte list \<times> host) option" where
  "NetworkInput_Receive s data = do {
     let hdr = inHdr s;
     let s = s\<lparr>inHdr := hdr\<lparr>ph_length := 0\<rparr>\<rparr>;
     data \<leftarrow> (if ph_length hdr \<noteq> 0 then bcopy_into (inbox s) data (uint (ph_length hdr)) else Some data);
     Some (hdr, data, s) }"

text \<open>
  \<open>NetworkOutput::Send\<close>: the machine with the interrupt scheduled, and the packet for the socket unless
  the random number \<open>rnd\<close> says that it is lost. \<open>sendBusy\<close> is only read here.
\<close>

definition NetworkOutput_Send ::
    "host \<Rightarrow> PacketHeader \<Rightarrow> byte list \<Rightarrow> nat \<Rightarrow> byte list \<Rightarrow> (host \<times> byte list option) option" where
  "NetworkOutput_Send s pktH data rnd heap = do {
     ASSERT (sendBusy s = False \<and> 0 < ph_length pktH \<and> uint (ph_length pktH) \<le> MaxPacketSize \<and> ph_from pktH = hostName s);
     let s = s\<lparr>send_pending := Suc (send_pending s)\<rparr>;
     if of_nat (rnd mod 100) \<ge> chanceToWork s * 100 then Some (s, None)
     else do {
       let buffer = new_chars MaxWireSize heap;
       data \<leftarrow> bcopy_into data (drop (nat sizeof_PacketHeader) buffer) (uint (ph_length pktH));
       Some (s, Some (packet_bytes pktH @ data)) } }"

text \<open>
  \<open>SendToSocket\<close>: the datagram is queued when there is a machine of that name and the host system takes
  it (\<open>accepted\<close>) at one of the ten attempts; otherwise it is dropped.
\<close>

definition SendToSocket :: "bool \<Rightarrow> NetworkAddress \<Rightarrow> byte list \<Rightarrow> network \<Rightarrow> network" where
  "SendToSocket accepted to buffer n =
     (if accepted \<and> hosts n to \<noteq> None then n\<lparr>sockets := (sockets n)(to := sockets n to @ [buffer])\<rparr> else n)"

definition PostOfficeOutput_CallBack :: "host \<Rightarrow> host" where
  "PostOfficeOutput_CallBack s = s\<lparr>messageSent := Suc (messageSent s)\<rparr>"

definition NetworkOutput_CallBack :: "host \<Rightarrow> host" where
  "NetworkOutput_CallBack s = PostOfficeOutput_CallBack (s\<lparr>sendBusy := False\<rparr>)"

subsection \<open>The post office\<close>

definition Mail_new :: "PacketHeader \<Rightarrow> MailHeader \<Rightarrow> byte list \<Rightarrow> Mail option" where
  "Mail_new pktH mailH msgData = do {
     ASSERT (uint (mh_length mailH) \<le> MaxMailSize);
     ASSERT (uint (mh_length mailH) \<le> int (length msgData));
     Some \<lparr>pktHdr = pktH, mailHdr = mailH, mail_data = take (unat (mh_length mailH)) msgData\<rparr> }"

definition MailBox_Put :: "Mail list \<Rightarrow> PacketHeader \<Rightarrow> MailHeader \<Rightarrow> byte list \<Rightarrow> Mail list option" where
  "MailBox_Put b pktH mailH data = do { m \<leftarrow> Mail_new pktH mailH data; Some (b @ [m]) }"

text \<open>A round of \<open>PostalDelivery\<close> behind its \<open>P\<close>, up to the call of \<open>Put\<close>, and that call.\<close>

definition PostalDelivery_take :: "host \<Rightarrow> host option" where
  "PostalDelivery_take s = do {
     (pktH, buffer, s) \<leftarrow> NetworkInput_Receive s (worker_buffer s);
     let mailH = mailhdr_of buffer;
     ASSERT (0 \<le> sint (mh_to mailH) \<and> sint (mh_to mailH) < numBoxes s);
     ASSERT (uint (mh_length mailH) \<le> MaxMailSize);
     Some (s\<lparr>worker := Some (pktH, mailH), worker_buffer := buffer\<rparr>) }"

definition PostalDelivery_put :: "host \<Rightarrow> PacketHeader \<Rightarrow> MailHeader \<Rightarrow> host option" where
  "PostalDelivery_put s pktH mailH = do {
     b \<leftarrow> arr_get (boxes s) (sint (mh_to mailH));
     b \<leftarrow> MailBox_Put b pktH mailH (drop (nat sizeof_MailHeader) (worker_buffer s));
     bs \<leftarrow> arr_set (boxes s) (sint (mh_to mailH)) b;
     Some (s\<lparr>worker := None, boxes := bs\<rparr>) }"

text \<open>\<open>PostOfficeOutput::Send\<close> from its start to \<open>messageSent->P()\<close>, with the lock free.\<close>

definition PostOfficeOutput_Send ::
    "host \<Rightarrow> PacketHeader \<Rightarrow> MailHeader \<Rightarrow> byte list \<Rightarrow> nat \<Rightarrow> byte list \<Rightarrow> byte list \<Rightarrow> (host \<times> byte list option) option" where
  "PostOfficeOutput_Send s pktH mailH data rnd heap1 heap2 = do {
     let buffer = new_chars MaxPacketSize heap1;
     ASSERT (uint (mh_length mailH) \<le> MaxMailSize);
     ASSERT (0 \<le> sint (mh_to mailH));
     let pktH = pktH\<lparr>ph_from := hostName s, ph_length := mh_length mailH + word_of_int sizeof_MailHeader\<rparr>;
     rest \<leftarrow> bcopy_into data (drop (nat sizeof_MailHeader) buffer) (uint (mh_length mailH));
     let buffer = mailhdr_bytes mailH @ rest;
     NetworkOutput_Send (s\<lparr>sendLock := True\<rparr>) pktH buffer rnd heap2 }"

text \<open>\<open>PostOfficeInput::Receive\<close> from a box that is not empty.\<close>

definition PostOfficeInput_Receive :: "host \<Rightarrow> int \<Rightarrow> Mail \<Rightarrow> Mail list \<Rightarrow> host option" where
  "PostOfficeInput_Receive s box m rest = do {
     bs \<leftarrow> arr_set (boxes s) box rest;
     ASSERT (uint (mh_length (mailHdr m)) \<le> MaxMailSize);
     Some (s\<lparr>boxes := bs\<rparr>) }"

subsection \<open>Events\<close>

datatype event =
    Post NetworkAddress PacketHeader MailHeader "byte list" nat bool "byte list" "byte list"
  | SendInterrupt NetworkAddress
  | SendReturns NetworkAddress
  | RecvInterrupt NetworkAddress
  | PostmanTakes NetworkAddress
  | PostmanPuts NetworkAddress
  | GetMail NetworkAddress int

text \<open>What an event comes to: it has to wait, it stops its machine, or it gives a new state and maybe a mail.\<close>

datatype outcome = Waits | Stops | Goes "Mail option" network

definition set_host :: "NetworkAddress \<Rightarrow> host \<Rightarrow> network \<Rightarrow> network" where
  "set_host a s n = n\<lparr>hosts := (hosts n)(a \<mapsto> s)\<rparr>"

definition goes :: "Mail option \<Rightarrow> network option \<Rightarrow> outcome" where
  "goes r x = (case x of None \<Rightarrow> Stops | Some n \<Rightarrow> Goes r n)"

fun host_event :: "network \<Rightarrow> event \<Rightarrow> host \<Rightarrow> outcome" where
  "host_event n (Post a pktH mailH data rnd accepted heap1 heap2) s =
     (if sendLock s then Waits
      else goes None (do {
        (s, packet) \<leftarrow> PostOfficeOutput_Send s pktH mailH data rnd heap1 heap2;
        let n = set_host a s n;
        Some (case packet of None \<Rightarrow> n | Some p \<Rightarrow> SendToSocket accepted (ph_to pktH) p n) }))"
| "host_event n (SendInterrupt a) s =
     (if send_pending s = 0 then Waits
      else Goes None (set_host a (NetworkOutput_CallBack (s\<lparr>send_pending := send_pending s - 1\<rparr>)) n))"
| "host_event n (SendReturns a) s =
     (if messageSent s = 0 then Waits
      else Goes None (set_host a (s\<lparr>messageSent := messageSent s - 1, sendLock := False\<rparr>) n))"
| "host_event n (RecvInterrupt a) s =
     goes None (do {
       (s, sock) \<leftarrow> NetworkInput_CallBack s (sockets n a);
       Some (set_host a s (n\<lparr>sockets := (sockets n)(a := sock)\<rparr>)) })"
| "host_event n (PostmanTakes a) s =
     (if worker s \<noteq> None \<or> messageAvailable s = 0 then Waits
      else goes None (do {
        s \<leftarrow> PostalDelivery_take (s\<lparr>messageAvailable := messageAvailable s - 1\<rparr>);
        Some (set_host a s n) }))"
| "host_event n (PostmanPuts a) s =
     (case worker s of None \<Rightarrow> Waits
      | Some (pktH, mailH) \<Rightarrow> goes None (do {
          s \<leftarrow> PostalDelivery_put s pktH mailH;
          Some (set_host a s n) }))"
| "host_event n (GetMail a box) s =
     (case arr_get (boxes s) box of None \<Rightarrow> Stops
      | Some [] \<Rightarrow> Waits
      | Some (m # rest) \<Rightarrow> goes (Some m) (do {
          s \<leftarrow> PostOfficeInput_Receive s box m rest;
          Some (set_host a s n) }))"

fun event_host :: "event \<Rightarrow> NetworkAddress" where
  "event_host (Post a pktH mailH data rnd accepted heap1 heap2) = a"
| "event_host (SendInterrupt a) = a"
| "event_host (SendReturns a) = a"
| "event_host (RecvInterrupt a) = a"
| "event_host (PostmanTakes a) = a"
| "event_host (PostmanPuts a) = a"
| "event_host (GetMail a box) = a"

definition net_do :: "event \<Rightarrow> network \<Rightarrow> outcome" where
  "net_do e n = (case hosts n (event_host e) of None \<Rightarrow> Waits | Some s \<Rightarrow> host_event n e s)"

inductive net_step :: "event \<Rightarrow> Mail option \<Rightarrow> network \<Rightarrow> network \<Rightarrow> bool" where
  "net_do e n = Goes r n' \<Longrightarrow> net_step e r n n'"

text \<open>The runs of the network: the events, each with the mail that it has given to a thread.\<close>

inductive net_run :: "network \<Rightarrow> (event \<times> Mail option) list \<Rightarrow> network \<Rightarrow> bool" where
  start: "net_run n [] n"
| step: "net_run n es n1 \<Longrightarrow> net_step e r n1 n2 \<Longrightarrow> net_run n (es @ [(e, r)]) n2"

inductive_simps net_step_iff: "net_step e r n n'"

subsection \<open>Headers survive the wire\<close>

lemma bytes_to_word_bytes [simp]: "bytes_to_word (word_bytes w @ rest) = w"
  using bytes_to_word_int_to_bytes [of "uint w"] by (simp add: word_bytes_def bytes_to_word_def)

lemma length_word_bytes [simp]: "length (word_bytes w) = 4"
  by (simp add: word_bytes_def)

lemma bytes_to_word_only [simp]: "bytes_to_word (word_bytes w) = w"
  using bytes_to_word_bytes [of w "[]"] by simp

lemma packet_of_bytes [simp]: "packet_of (packet_bytes h @ rest) = h"
  by (simp add: packet_of_def packet_bytes_def)

lemma mailhdr_of_bytes [simp]: "mailhdr_of (mailhdr_bytes h @ rest) = h"
  by (simp add: mailhdr_of_def mailhdr_bytes_def)

lemma length_header_bytes [simp]: "length (packet_bytes h) = 12" "length (mailhdr_bytes m) = 12"
  by (simp_all add: packet_bytes_def mailhdr_bytes_def)

text \<open>A header is in the first twelve bytes.\<close>

lemma bytes_to_word_cong: "take 4 bs = take 4 cs \<Longrightarrow> bytes_to_word bs = bytes_to_word cs"
  by (simp add: bytes_to_word_def)

lemma mailhdr_of_cong: "take 12 bs = take 12 cs \<Longrightarrow> mailhdr_of bs = mailhdr_of cs"
proof -
  assume e: "take 12 bs = take 12 cs"
  have "take 4 (drop k bs) = take 4 (drop k cs)" if "k \<le> 8" for k
  proof -
    have "min 4 (12 - k) = 4" using that by simp
    then show ?thesis using arg_cong [OF e, of "\<lambda>x. take 4 (drop k x)"] by (simp only: drop_take take_take)
  qed
  note t = this
  have "bytes_to_word bs = bytes_to_word cs" by (rule bytes_to_word_cong) (use t [of 0] in simp)
  moreover have "bytes_to_word (drop 4 bs) = bytes_to_word (drop 4 cs)" by (rule bytes_to_word_cong) (use t [of 4] in simp)
  moreover have "bytes_to_word (drop 8 bs) = bytes_to_word (drop 8 cs)" by (rule bytes_to_word_cong) (use t [of 8] in simp)
  ultimately show ?thesis by (simp add: mailhdr_of_def)
qed

lemma sizes [simp]: "sizeof_PacketHeader = 12" "sizeof_MailHeader = 12" "MaxWireSize = 64" "MaxPacketSize = 52" "MaxMailSize = 40"
  by (simp_all add: sizeof_PacketHeader_def sizeof_MailHeader_def MaxWireSize_def MaxPacketSize_def MaxMailSize_def)

lemma length_new_chars [simp]: "0 \<le> n \<Longrightarrow> length (new_chars n heap) = nat n"
  by (simp add: new_chars_def)

lemma bcopy_into_eq: "bcopy_into src dst n = (if n \<le> int (length src) \<and> n \<le> int (length dst)
    then Some (take (nat n) src @ drop (nat n) dst) else None)"
  by (simp add: bcopy_into_def bind_ASSERT)

subsection \<open>Mail in transit\<close>

text \<open>The mail that a packet header and the bytes behind it carry.\<close>

definition mail_of :: "PacketHeader \<Rightarrow> byte list \<Rightarrow> Mail" where
  "mail_of p bs = \<lparr>pktHdr = p, mailHdr = mailhdr_of bs, mail_data = take (unat (mh_length (mailhdr_of bs))) (drop 12 bs)\<rparr>"

definition wire_mail :: "byte list \<Rightarrow> Mail" where
  "wire_mail packet = mail_of (packet_of packet) (drop 12 packet)"

text \<open>The mail on its way to a machine, the oldest first: in the hands of the worker, in the device, in the socket.\<close>

definition in_hands :: "host \<Rightarrow> Mail list" where
  "in_hands s = (case worker s of None \<Rightarrow> [] | Some (p, m) \<Rightarrow>
     [\<lparr>pktHdr = p, mailHdr = m, mail_data = take (unat (mh_length m)) (drop 12 (worker_buffer s))\<rparr>])"

definition in_device :: "host \<Rightarrow> Mail list" where
  "in_device s = (if ph_length (inHdr s) = 0 then [] else [mail_of (inHdr s) (inbox s)])"

definition in_transit :: "network \<Rightarrow> NetworkAddress \<Rightarrow> host \<Rightarrow> Mail list" where
  "in_transit n a s = in_hands s @ in_device s @ map wire_mail (sockets n a)"

definition box_mail :: "host \<Rightarrow> int \<Rightarrow> Mail list" where
  "box_mail s b = (case arr_get (boxes s) b of None \<Rightarrow> [] | Some ms \<Rightarrow> ms)"

definition for_box :: "int \<Rightarrow> Mail list \<Rightarrow> Mail list" where
  "for_box b ms = filter (\<lambda>m. sint (mh_to (mailHdr m)) = b) ms"

definition channel :: "network \<Rightarrow> NetworkAddress \<Rightarrow> int \<Rightarrow> Mail list" where
  "channel n a b = (case hosts n a of None \<Rightarrow> [] | Some s \<Rightarrow> box_mail s b @ for_box b (in_transit n a s))"

subsection \<open>The invariant\<close>

text \<open>A payload of a packet: as long as its mail header says.\<close>

definition payload_ok :: "PacketHeader \<Rightarrow> byte list \<Rightarrow> bool" where
  "payload_ok p bs \<longleftrightarrow> 12 \<le> uint (ph_length p) \<and> uint (ph_length p) \<le> 52 \<and>
     uint (mh_length (mailhdr_of bs)) + 12 = uint (ph_length p) \<and> 0 \<le> sint (mh_to (mailhdr_of bs))"

definition packet_ok :: "NetworkAddress \<Rightarrow> byte list \<Rightarrow> bool" where
  "packet_ok a packet \<longleftrightarrow> length packet = 64 \<and> ph_to (packet_of packet) = a \<and> payload_ok (packet_of packet) (drop 12 packet)"

definition host_ok :: "NetworkAddress \<Rightarrow> host \<Rightarrow> bool" where
  "host_ok a s \<longleftrightarrow> hostName s = a \<and> length (inbox s) = 52 \<and> length (worker_buffer s) = 52 \<and>
     messageAvailable s = (if ph_length (inHdr s) = 0 then 0 else 1) \<and>
     (ph_length (inHdr s) \<noteq> 0 \<longrightarrow> payload_ok (inHdr s) (inbox s)) \<and>
     (\<forall>p m. worker s = Some (p, m) \<longrightarrow> uint (mh_length m) \<le> 40 \<and> 0 \<le> sint (mh_to m) \<and> sint (mh_to m) < numBoxes s) \<and>
     (\<forall>b \<in> set (boxes s). \<forall>m \<in> set b. uint (mh_length (mailHdr m)) \<le> 40) \<and>
     send_pending s + messageSent s = (if sendLock s then 1 else 0) \<and> \<not> sendBusy s"

definition net_ok :: "network \<Rightarrow> bool" where
  "net_ok n \<longleftrightarrow> (\<forall>a s. hosts n a = Some s \<longrightarrow> host_ok a s \<and> (\<forall>p \<in> set (sockets n a). packet_ok a p))"

subsection \<open>What each operation does\<close>

lemma mail_of_cong:
  assumes "payload_ok p bs" and "take (unat (ph_length p)) bs' = take (unat (ph_length p)) bs"
  shows "payload_ok p bs'" and "mail_of p bs' = mail_of p bs"
proof -
  let ?l = "unat (ph_length p)" and ?m = "unat (mh_length (mailhdr_of bs))"
  have "uint (mh_length (mailhdr_of bs)) + 12 = uint (ph_length p)" using assms(1) by (simp add: payload_ok_def)
  then have "int ?l = 12 + int ?m" unfolding uint_nat by linarith
  then have l: "?l = 12 + ?m" by linarith
  have "take 12 bs' = take 12 bs" using arg_cong [OF assms(2), of "take 12"] l by (simp add: min_def)
  then have h: "mailhdr_of bs' = mailhdr_of bs" by (rule mailhdr_of_cong)
  have "take ?m (drop 12 bs') = take ?m (drop 12 bs)"
    using arg_cong [OF assms(2), of "drop 12"] l by (simp add: drop_take)
  with h show "mail_of p bs' = mail_of p bs" by (simp add: mail_of_def)
  show "payload_ok p bs'" using assms(1) h by (simp add: payload_ok_def)
qed

lemma recv_ok:
  assumes "host_ok a s" and "\<forall>p \<in> set sock. packet_ok a p"
  obtains s' sock' where "NetworkInput_CallBack s sock = Some (s', sock')" and "host_ok a s'"
    and "\<forall>p \<in> set sock'. packet_ok a p" and "in_device s' @ map wire_mail sock' = in_device s @ map wire_mail sock"
    and "boxes s' = boxes s" and "in_hands s' = in_hands s"
proof (cases "ph_length (inHdr s) \<noteq> 0 \<or> sock = []")
  case True
  then have "NetworkInput_CallBack s sock = Some (s, sock)" by (auto simp: NetworkInput_CallBack_def)
  then show ?thesis using that assms by blast
next
  case False
  then obtain p rest where sock: "sock = p # rest" by (cases sock) auto
  have empty: "ph_length (inHdr s) = 0" using False by simp
  have p: "length p = 64" "ph_to (packet_of p) = a" "payload_ok (packet_of p) (drop 12 p)"
    using assms(2) sock by (simp_all add: packet_ok_def)
  have h: "hostName s = a" "length (inbox s) = 52" "messageAvailable s = 0" using assms(1) empty by (simp_all add: host_ok_def)
  have len: "12 \<le> uint (ph_length (packet_of p))" "uint (ph_length (packet_of p)) \<le> 52" using p(3) by (simp_all add: payload_ok_def)
  let ?l = "unat (ph_length (packet_of p))"
  define d where "d = take ?l (drop 12 p) @ drop ?l (inbox s)"
  let ?s = "s\<lparr>inHdr := packet_of p, inbox := d, messageAvailable := 1\<rparr>"
  have "int ?l \<le> 52" using len unfolding uint_nat by linarith
  then have "?l \<le> 52" by linarith
  then have ld: "length d = 52" "take ?l d = take ?l (drop 12 p)" using p(1) h(2) by (simp_all add: d_def)
  note same = mail_of_cong [OF p(3) ld(2)]
  have "NetworkInput_CallBack s sock = Some (?s, rest)"
    using p(1,2) h len empty
    by (simp add: NetworkInput_CallBack_def sock ReadFromSocket_def Let_def bcopy_into_eq PostOfficeInput_CallBack_def d_def)
  moreover have nz: "ph_length (packet_of p) \<noteq> 0" using len by auto
  then have "host_ok a ?s" using assms(1) ld(1) same(1) by (simp add: host_ok_def numBoxes_def)
  moreover have "in_device ?s @ map wire_mail rest = in_device s @ map wire_mail sock"
    using empty nz same(2) by (simp add: in_device_def sock wire_mail_def)
  moreover have "in_hands ?s = in_hands s" by (auto simp: in_hands_def split: option.split)
  ultimately show ?thesis using that [of ?s rest] assms(2) sock by simp
qed

lemma take_ok:
  assumes "host_ok a s" and "worker s = None" and "messageAvailable s \<noteq> 0"
  defines "m \<equiv> mailhdr_of (inbox s)" and "s1 \<equiv> s\<lparr>messageAvailable := messageAvailable s - 1\<rparr>"
  obtains (fits) s' where "sint (mh_to m) < numBoxes s" and "PostalDelivery_take s1 = Some s'" and "host_ok a s'"
      and "in_hands s' @ in_device s' = in_hands s @ in_device s" and "boxes s' = boxes s"
  | (no_box) "numBoxes s \<le> sint (mh_to m)" and "PostalDelivery_take s1 = None"
proof -
  let ?l = "unat (ph_length (inHdr s))"
  have h: "length (inbox s) = 52" "length (worker_buffer s) = 52" "ph_length (inHdr s) \<noteq> 0" "messageAvailable s = 1"
    "payload_ok (inHdr s) (inbox s)" using assms(1,3) by (auto simp: host_ok_def split: if_split_asm)
  have len: "uint (ph_length (inHdr s)) \<le> 52" "uint (mh_length m) \<le> 40" "0 \<le> sint (mh_to m)"
    using h(5) by (simp_all add: payload_ok_def m_def)
  define d where "d = take ?l (inbox s) @ drop ?l (worker_buffer s)"
  have "int ?l \<le> 52" using len unfolding uint_nat by linarith
  then have "?l \<le> 52" by linarith
  then have ld: "length d = 52" "take ?l d = take ?l (inbox s)" using h(1,2) by (simp_all add: d_def)
  note same = mail_of_cong [OF h(5) ld(2)]
  have md: "mailhdr_of d = m" using arg_cong [OF same(2), of mailHdr] by (simp add: mail_of_def m_def)
  let ?s = "s1\<lparr>inHdr := (inHdr s)\<lparr>ph_length := 0\<rparr>, worker := Some (inHdr s, m), worker_buffer := d\<rparr>"
  have r: "PostalDelivery_take s1 = (if sint (mh_to m) < numBoxes s then Some ?s else None)"
    using h len md
    by (simp add: PostalDelivery_take_def NetworkInput_Receive_def Let_def bcopy_into_eq s1_def numBoxes_def d_def [symmetric])
  show ?thesis
  proof (cases "sint (mh_to m) < numBoxes s")
    case True
    have "host_ok a ?s" using assms(1) h(4) ld(1) len True by (simp add: host_ok_def s1_def numBoxes_def)
    moreover have "take (unat (mh_length m)) (drop 12 d) = take (unat (mh_length m)) (drop 12 (inbox s))"
      using arg_cong [OF same(2), of mail_data] md by (simp add: mail_of_def m_def)
    then have "in_hands ?s @ in_device ?s = in_hands s @ in_device s"
      using h(3) assms(2) by (simp add: in_hands_def in_device_def mail_of_def m_def [symmetric])
    ultimately show ?thesis using fits [of ?s] True r by (simp add: s1_def)
  next
    case False
    then show ?thesis using no_box r by simp
  qed
qed

lemma put_ok:
  assumes "host_ok a s" and "worker s = Some (p, m)"
  obtains s' where "PostalDelivery_put s p m = Some s'" and "host_ok a s'" and "in_device s' = in_device s"
    and "\<And>b. box_mail s' b @ for_box b (in_hands s') = box_mail s b @ for_box b (in_hands s)"
    and "numBoxes s' = numBoxes s"
proof -
  let ?i = "nat (sint (mh_to m))"
  let ?mail = "\<lparr>pktHdr = p, mailHdr = m, mail_data = take (unat (mh_length m)) (drop 12 (worker_buffer s))\<rparr>"
  have w: "uint (mh_length m) \<le> 40" "0 \<le> sint (mh_to m)" "sint (mh_to m) < int (length (boxes s))" "length (worker_buffer s) = 52"
    using assms by (simp_all add: host_ok_def numBoxes_def)
  let ?s = "s\<lparr>worker := None, boxes := (boxes s)[?i := boxes s ! ?i @ [?mail]]\<rparr>"
  have i: "?i < length (boxes s)" using w(2,3) by simp
  have old: "\<forall>m \<in> set (boxes s ! ?i). uint (mh_length (mailHdr m)) \<le> 40"
    using assms(1) nth_mem [OF i] by (simp add: host_ok_def)
  have "PostalDelivery_put s p m = Some ?s"
    using w by (simp add: PostalDelivery_put_def arr_get_def arr_set_def MailBox_Put_def Mail_new_def)
  moreover have "host_ok a ?s"
    using assms(1) w(1) i old by (auto simp: host_ok_def numBoxes_def dest!: set_update_subset_insert [THEN subsetD])
  moreover have "box_mail ?s b @ for_box b (in_hands ?s) = box_mail s b @ for_box b (in_hands s)" for b
    using w(2,3) i assms(2) by (auto simp: box_mail_def arr_get_def in_hands_def for_box_def nth_list_update)
  ultimately show ?thesis using that [of ?s] by (simp add: in_device_def numBoxes_def)
qed

text \<open>Sending: what is wrong with the arguments, and what is put on the wire.\<close>

definition bad_post :: "MailHeader \<Rightarrow> byte list \<Rightarrow> bool" where
  "bad_post m data \<longleftrightarrow> 40 < uint (mh_length m) \<or> sint (mh_to m) < 0 \<or> int (length data) < uint (mh_length m)"

definition posted :: "NetworkAddress \<Rightarrow> PacketHeader \<Rightarrow> MailHeader \<Rightarrow> byte list \<Rightarrow> Mail" where
  "posted a p m data = \<lparr>pktHdr = p\<lparr>ph_from := a, ph_length := mh_length m + 12\<rparr>, mailHdr = m, mail_data = take (unat (mh_length m)) data\<rparr>"

definition lost :: "host \<Rightarrow> nat \<Rightarrow> bool" where
  "lost s rnd \<longleftrightarrow> of_nat (rnd mod 100) \<ge> chanceToWork s * 100"

lemma post_ok:
  assumes "host_ok a s" and "\<not> sendLock s"
  obtains (bad) "bad_post m data" and "PostOfficeOutput_Send s p m data rnd heap1 heap2 = None"
  | (sent) s' packet where "\<not> bad_post m data" and "PostOfficeOutput_Send s p m data rnd heap1 heap2 = Some (s', packet)"
      and "host_ok a s'" and "boxes s' = boxes s" and "in_device s' = in_device s" and "in_hands s' = in_hands s"
      and "(lost s rnd \<and> packet = None) \<or>
        (\<not> lost s rnd \<and> (\<exists>buf. packet = Some buf \<and> packet_ok (ph_to p) buf \<and> wire_mail buf = posted a p m data))"
proof (cases "bad_post m data")
  case True
  then have "PostOfficeOutput_Send s p m data rnd heap1 heap2 = None"
    by (auto simp: PostOfficeOutput_Send_def bad_post_def Let_def bcopy_into_eq bind_ASSERT)
  then show ?thesis using bad True by blast
next
  case False
  then have m: "uint (mh_length m) \<le> 40" "0 \<le> sint (mh_to m)" "uint (mh_length m) \<le> int (length data)" by (simp_all add: bad_post_def)
  let ?p = "p\<lparr>ph_from := a, ph_length := mh_length m + 12\<rparr>" and ?n = "unat (mh_length m)"
  have len: "uint (mh_length m + 12) = uint (mh_length m) + 12" unfolding uint_word_ariths(1) using m(1) by simp
  have "0 < uint (mh_length m) + 12" using uint_ge_0 [of "mh_length m"] by linarith
  then have pos: "0 < mh_length m + 12" unfolding word_less_def len by simp
  have "int (unat (mh_length m + 12)) = int (12 + ?n)" using len unfolding uint_nat by linarith
  then have ln: "unat (mh_length m + 12) = 12 + ?n" by linarith
  let ?s = "s\<lparr>sendLock := True, send_pending := Suc (send_pending s)\<rparr>"
  define pay where "pay = mailhdr_bytes m @ take ?n data @ drop ?n (drop 12 (new_chars 52 heap1))"
  define body where "body = take (12 + ?n) pay @ drop (12 + ?n) (drop 12 (new_chars 64 heap2))"
  have h: "hostName s = a" "\<not> sendBusy s" using assms(1) by (simp_all add: host_ok_def)
  have nn: "int ?n \<le> 40" "?n \<le> length data" using m(1,3) unfolding uint_nat by linarith+
  have n40: "?n \<le> 40" using nn(1) by linarith
  then have lp: "length pay = 52" "length body = 52" using nn(2) by (simp_all add: pay_def body_def)
  have c1: "bcopy_into data (drop 12 (new_chars 52 heap1)) (uint (mh_length m)) = Some (take ?n data @ drop ?n (drop 12 (new_chars 52 heap1)))"
    using m by (simp add: bcopy_into_eq)
  have nat_n: "nat (uint (mh_length m) + 12) = 12 + ?n" unfolding uint_nat by linarith
  have c2: "bcopy_into pay (drop 12 (new_chars 64 heap2)) (uint (mh_length m + 12)) = Some body"
    using m(1) lp(1) nat_n by (simp add: bcopy_into_eq len body_def)
  have send: "NetworkOutput_Send (s\<lparr>sendLock := True\<rparr>) ?p pay rnd heap2 =
      Some (?s, if lost s rnd then None else Some (packet_bytes ?p @ body))"
    using h pos m(1) len c2 by (simp add: NetworkOutput_Send_def Let_def lost_def)
  have "PostOfficeOutput_Send s p m data rnd heap1 heap2 =
      Some (?s, if lost s rnd then None else Some (packet_bytes ?p @ body))"
    using m h c1 send by (simp add: PostOfficeOutput_Send_def Let_def pay_def)
  moreover have "host_ok a ?s" using assms by (simp add: host_ok_def numBoxes_def)
  moreover have "payload_ok ?p pay" using m len by (simp add: payload_ok_def pay_def)
  note body = mail_of_cong [OF this, of body]
  have "take (unat (ph_length ?p)) body = take (unat (ph_length ?p)) pay"
    using n40 lp(1) by (simp add: ln body_def)
  note body = body [OF this]
  have "mail_of ?p pay = posted a p m data" using nn by (simp add: mail_of_def pay_def posted_def)
  with body lp(2) have "packet_ok (ph_to p) (packet_bytes ?p @ body) \<and> wire_mail (packet_bytes ?p @ body) = posted a p m data"
    by (simp add: packet_ok_def wire_mail_def)
  moreover have "in_hands ?s = in_hands s" by (auto simp: in_hands_def split: option.split)
  ultimately show ?thesis using sent [of ?s] False by (simp add: in_device_def)
qed

lemma get_ok:
  assumes "host_ok a s" and "arr_get (boxes s) box = Some (m # rest)"
  obtains s' where "PostOfficeInput_Receive s box m rest = Some s'" and "host_ok a s'" and "in_device s' = in_device s"
    and "in_hands s' = in_hands s" and "box_mail s box = m # box_mail s' box" and "\<And>b. b \<noteq> box \<Longrightarrow> box_mail s' b = box_mail s b"
    and "numBoxes s' = numBoxes s"
proof -
  have b: "0 \<le> box" "box < int (length (boxes s))" "boxes s ! nat box = m # rest" using assms(2) by (auto simp: arr_get_def split: if_split_asm)
  have mem: "m # rest \<in> set (boxes s)" using nth_mem [of "nat box" "boxes s"] b by simp
  then have old: "uint (mh_length (mailHdr m)) \<le> 40" "\<forall>x \<in> set rest. uint (mh_length (mailHdr x)) \<le> 40"
    using assms(1) by (auto simp: host_ok_def dest!: bspec [of _ _ "m # rest"])
  let ?s = "s\<lparr>boxes := (boxes s)[nat box := rest]\<rparr>"
  have "PostOfficeInput_Receive s box m rest = Some ?s" using b old by (simp add: PostOfficeInput_Receive_def arr_set_def)
  moreover have "host_ok a ?s"
    using assms(1) old by (auto simp: host_ok_def numBoxes_def dest!: set_update_subset_insert [THEN subsetD])
  moreover have "in_hands ?s = in_hands s" by (auto simp: in_hands_def split: option.split)
  moreover have "box_mail ?s x = (if x = box then rest else box_mail s x)" for x
    using b by (auto simp: box_mail_def arr_get_def nth_list_update)
  ultimately show ?thesis using that [of ?s] b by (simp add: in_device_def numBoxes_def box_mail_def arr_get_def)
qed

subsection \<open>Every event keeps the network in order\<close>

text \<open>The mail that an event puts on the channel to box \<open>b\<close> of machine \<open>a\<close>, and the mail it takes from there.\<close>

fun sent_by :: "network \<Rightarrow> event \<Rightarrow> NetworkAddress \<Rightarrow> int \<Rightarrow> Mail list" where
  "sent_by n (Post c p m data rnd accepted heap1 heap2) a b =
     (case hosts n c of None \<Rightarrow> []
      | Some s \<Rightarrow> if \<not> lost s rnd \<and> accepted \<and> hosts n (ph_to p) \<noteq> None \<and> a = ph_to p \<and> b = sint (mh_to m)
         then [posted c p m data] else [])"
| "sent_by n e a b = []"

fun taken_by :: "event \<Rightarrow> Mail option \<Rightarrow> NetworkAddress \<Rightarrow> int \<Rightarrow> Mail list" where
  "taken_by (GetMail c box) (Some m) a b = (if a = c \<and> b = box then [m] else [])"
| "taken_by e r a b = []"

definition keeps_order :: "event \<Rightarrow> Mail option \<Rightarrow> network \<Rightarrow> network \<Rightarrow> bool" where
  "keeps_order e r n n' \<longleftrightarrow> net_ok n' \<and>
     (\<forall>a b. channel n a b @ sent_by n e a b = taken_by e r a b @ channel n' a b)"

lemma net_ok_host: "net_ok n \<Longrightarrow> hosts n a = Some s \<Longrightarrow> host_ok a s"
  by (simp add: net_ok_def)

lemma net_ok_set_host: "net_ok n \<Longrightarrow> hosts n a \<noteq> None \<Longrightarrow> host_ok a s \<Longrightarrow> net_ok (set_host a s n)"
  by (auto simp: net_ok_def set_host_def)

lemma channel_set_host: "channel (set_host a s n) c b =
    (if c = a then box_mail s b @ for_box b (in_hands s @ in_device s @ map wire_mail (sockets n a)) else channel n c b)"
  by (auto simp: channel_def set_host_def in_transit_def split: option.split)

lemma channel_at: "hosts n a = Some s \<Longrightarrow>
    channel n a b = box_mail s b @ for_box b (in_hands s @ in_device s @ map wire_mail (sockets n a))"
  by (simp add: channel_def in_transit_def)

lemma for_box_append [simp]: "for_box b (xs @ ys) = for_box b xs @ for_box b ys"
  by (simp add: for_box_def)

lemma box_mail_cong: "boxes s' = boxes s \<Longrightarrow> box_mail s' b = box_mail s b"
  by (simp add: box_mail_def)

text \<open>A step of one machine that moves its mail on but adds and takes none.\<close>

lemma moves_on:
  assumes "net_ok n" and "hosts n a = Some s" and "host_ok a s'"
    and "\<And>b. box_mail s' b @ for_box b (in_hands s' @ in_device s') = box_mail s b @ for_box b (in_hands s @ in_device s)"
    and "\<And>c b. sent_by n e c b = []" and "\<And>c b. taken_by e r c b = []"
  shows "keeps_order e r n (set_host a s' n)"
proof -
  have "channel (set_host a s' n) c b = channel n c b" for c b
    using assms(4) [of b] by (auto simp: channel_set_host channel_at [OF assms(2)] simp flip: append_assoc)
  then show ?thesis using assms net_ok_set_host by (simp add: keeps_order_def)
qed

lemma step_recv:
  assumes "net_ok n" and "hosts n a = Some s"
  shows "\<exists>n'. host_event n (RecvInterrupt a) s = Goes None n' \<and> keeps_order (RecvInterrupt a) None n n'"
proof -
  have "\<forall>p \<in> set (sockets n a). packet_ok a p" using assms by (simp add: net_ok_def)
  then obtain s' sock where r: "NetworkInput_CallBack s (sockets n a) = Some (s', sock)" "host_ok a s'"
    "\<forall>p \<in> set sock. packet_ok a p" "in_device s' @ map wire_mail sock = in_device s @ map wire_mail (sockets n a)"
    "boxes s' = boxes s" "in_hands s' = in_hands s"
    by (rule recv_ok [OF net_ok_host [OF assms]])
  let ?n = "set_host a s' (n\<lparr>sockets := (sockets n)(a := sock)\<rparr>)"
  have "net_ok ?n" using assms(1) r(2,3) by (auto simp: net_ok_def set_host_def)
  moreover have "channel ?n c b = channel n c b" for c b
  proof (cases "c = a")
    case True
    have "for_box b (in_device s') @ for_box b (map wire_mail sock) = for_box b (in_device s) @ for_box b (map wire_mail (sockets n a))"
      using arg_cong [OF r(4), of "for_box b"] by simp
    then show ?thesis using True r(6) box_mail_cong [OF r(5)] by (simp add: channel_set_host channel_at [OF assms(2)])
  qed (auto simp: channel_def set_host_def in_transit_def split: option.split)
  ultimately show ?thesis using r(1) by (simp add: goes_def keeps_order_def)
qed

lemma step_take:
  assumes "net_ok n" and "hosts n a = Some s" and "worker s = None" and "messageAvailable s \<noteq> 0"
  shows "if numBoxes s \<le> sint (mh_to (mailhdr_of (inbox s))) then host_event n (PostmanTakes a) s = Stops
    else \<exists>n'. host_event n (PostmanTakes a) s = Goes None n' \<and> keeps_order (PostmanTakes a) None n n'"
proof (cases rule: take_ok [OF net_ok_host [OF assms(1,2)] assms(3,4)])
  case fits: (1 s')
  have "keeps_order (PostmanTakes a) None n (set_host a s' n)"
    by (rule moves_on [OF assms(1,2) fits(3)]) (simp_all add: fits(4) box_mail_cong [OF fits(5)] del: for_box_append)
  then show ?thesis using fits(1,2) assms(3,4) by (simp add: goes_def)
next
  case no_box: 2
  then show ?thesis using assms(3,4) by (simp add: goes_def)
qed

lemma step_put:
  assumes "net_ok n" and "hosts n a = Some s" and "worker s = Some (p, m)"
  shows "\<exists>n'. host_event n (PostmanPuts a) s = Goes None n' \<and> keeps_order (PostmanPuts a) None n n'"
proof -
  obtain s' where r: "PostalDelivery_put s p m = Some s'" "host_ok a s'" "in_device s' = in_device s"
    "\<And>b. box_mail s' b @ for_box b (in_hands s') = box_mail s b @ for_box b (in_hands s)"
    by (rule put_ok [OF net_ok_host [OF assms(1,2)] assms(3)]) blast
  have "keeps_order (PostmanPuts a) None n (set_host a s' n)"
    by (rule moves_on [OF assms(1,2) r(2)]) (use r(3,4) in \<open>simp_all flip: append_assoc\<close>)
  then show ?thesis using r(1) assms(3) by (simp add: goes_def)
qed

lemma step_get:
  assumes "net_ok n" and "hosts n a = Some s" and "arr_get (boxes s) box = Some (m # rest)"
  shows "\<exists>n'. host_event n (GetMail a box) s = Goes (Some m) n' \<and> keeps_order (GetMail a box) (Some m) n n'"
proof -
  obtain s' where r: "PostOfficeInput_Receive s box m rest = Some s'" "host_ok a s'" "in_device s' = in_device s"
    "in_hands s' = in_hands s" "box_mail s box = m # box_mail s' box" "\<And>b. b \<noteq> box \<Longrightarrow> box_mail s' b = box_mail s b"
    by (rule get_ok [OF net_ok_host [OF assms(1,2)] assms(3)]) blast
  have "channel n c b = taken_by (GetMail a box) (Some m) c b @ channel (set_host a s' n) c b" for c b
    using r(3-6) by (cases "b = box") (auto simp: channel_set_host channel_at [OF assms(2)])
  then have "keeps_order (GetMail a box) (Some m) n (set_host a s' n)"
    using net_ok_set_host [OF assms(1) _ r(2)] assms(2) by (simp add: keeps_order_def)
  then show ?thesis using r(1) assms(3) by (simp add: goes_def)
qed

lemma step_post:
  assumes "net_ok n" and "hosts n a = Some s" and "\<not> sendLock s" and e_def: "e = Post a p m data rnd accepted heap1 heap2"
  shows "if bad_post m data then host_event n e s = Stops else \<exists>n'. host_event n e s = Goes None n' \<and> keeps_order e None n n'"
proof (cases rule: post_ok [OF net_ok_host [OF assms(1,2)] assms(3), of m data p rnd heap1 heap2])
  case bad: 1
  then show ?thesis using assms(3) by (simp add: e_def goes_def)
next
  case sent: (2 s' packet)
  let ?n1 = "set_host a s' n"
  let ?n = "case packet of None \<Rightarrow> ?n1 | Some q \<Rightarrow> SendToSocket accepted (ph_to p) q ?n1"
  have ok1: "net_ok ?n1" using net_ok_set_host [OF assms(1) _ sent(3)] assms(2) by simp
  have ch1: "channel ?n1 c b = channel n c b" for c b
    using sent(4-6) box_mail_cong [OF sent(4)] by (simp add: channel_set_host channel_at [OF assms(2)])
  have dom1: "hosts ?n1 c = None \<longleftrightarrow> hosts n c = None" for c using assms(2) by (simp add: set_host_def)
  have "keeps_order e None n ?n"
  proof (cases "\<not> lost s rnd \<and> accepted \<and> hosts n (ph_to p) \<noteq> None")
    case True
    then obtain buf where b: "packet = Some buf" "packet_ok (ph_to p) buf" "wire_mail buf = posted a p m data"
      using sent(7) by blast
    have n: "?n = ?n1\<lparr>sockets := (sockets ?n1)(ph_to p := sockets ?n1 (ph_to p) @ [buf])\<rparr>"
      using True b(1) dom1 by (simp add: SendToSocket_def)
    have "net_ok ?n" unfolding n using ok1 b(2) by (auto simp: net_ok_def)
    moreover have "channel ?n c b = channel n c b @ sent_by n e c b" for c b
    proof (cases "c = ph_to p")
      case cp: True
      obtain t where t: "hosts ?n1 (ph_to p) = Some t" using True dom1 [of "ph_to p"] by (cases "hosts ?n1 (ph_to p)") auto
      have "channel ?n c b = channel ?n1 c b @ for_box b [posted a p m data]"
        unfolding n using t cp b(3) by (simp add: channel_def in_transit_def)
      then show ?thesis using ch1 True cp assms(2) by (simp add: e_def for_box_def posted_def)
    next
      case False
      have "channel ?n c b = channel ?n1 c b" unfolding n using False by (auto simp: channel_def in_transit_def split: option.split)
      then show ?thesis using ch1 False assms(2) by (simp add: e_def)
    qed
    ultimately show ?thesis by (simp add: keeps_order_def e_def)
  next
    case False
    have "?n = ?n1" using False sent(7) dom1 by (auto simp: SendToSocket_def)
    moreover have "sent_by n e c b = []" for c b using False assms(2) by (auto simp: e_def)
    ultimately show ?thesis using ok1 ch1 by (simp add: keeps_order_def e_def)
  qed
  then show ?thesis using sent(1,2) assms(3) by (simp add: e_def goes_def Let_def)
qed

lemma step_callbacks:
  assumes "net_ok n" and "hosts n a = Some s"
  shows "send_pending s \<noteq> 0 \<Longrightarrow> \<exists>n'. host_event n (SendInterrupt a) s = Goes None n' \<and> keeps_order (SendInterrupt a) None n n'"
    and "messageSent s \<noteq> 0 \<Longrightarrow> \<exists>n'. host_event n (SendReturns a) s = Goes None n' \<and> keeps_order (SendReturns a) None n n'"
proof -
  note ok = net_ok_host [OF assms]
  note frame = in_hands_def in_device_def box_mail_def
  assume z: "send_pending s \<noteq> 0"
  let ?s = "NetworkOutput_CallBack (s\<lparr>send_pending := send_pending s - 1\<rparr>)"
  have "host_ok a ?s"
    using ok z by (auto simp: host_ok_def NetworkOutput_CallBack_def PostOfficeOutput_CallBack_def numBoxes_def split: if_split_asm)
  then have "keeps_order (SendInterrupt a) None n (set_host a ?s n)"
    by (rule moves_on [OF assms]) (auto simp: frame NetworkOutput_CallBack_def PostOfficeOutput_CallBack_def split: option.split)
  then show "\<exists>n'. host_event n (SendInterrupt a) s = Goes None n' \<and> keeps_order (SendInterrupt a) None n n'"
    using z by simp
next
  note ok = net_ok_host [OF assms]
  note frame = in_hands_def in_device_def box_mail_def
  assume z: "messageSent s \<noteq> 0"
  let ?s = "s\<lparr>messageSent := messageSent s - 1, sendLock := False\<rparr>"
  have "host_ok a ?s" using ok z by (auto simp: host_ok_def numBoxes_def split: if_split_asm)
  then have "keeps_order (SendReturns a) None n (set_host a ?s n)"
    by (rule moves_on [OF assms]) (auto simp: frame split: option.split)
  then show "\<exists>n'. host_event n (SendReturns a) s = Goes None n' \<and> keeps_order (SendReturns a) None n n'"
    using z by simp
qed

text \<open>Where an event stops its machine.\<close>

fun stopping :: "network \<Rightarrow> event \<Rightarrow> host \<Rightarrow> bool" where
  "stopping n (Post a p m data rnd accepted heap1 heap2) s \<longleftrightarrow> \<not> sendLock s \<and> bad_post m data"
| "stopping n (PostmanTakes a) s \<longleftrightarrow>
     worker s = None \<and> messageAvailable s \<noteq> 0 \<and> numBoxes s \<le> sint (mh_to (mailhdr_of (inbox s)))"
| "stopping n (GetMail a box) s \<longleftrightarrow> box < 0 \<or> numBoxes s \<le> box"
| "stopping n e s \<longleftrightarrow> False"

lemma every_event:
  assumes "net_ok n" and "hosts n (event_host e) = Some s"
  shows "(net_do e n = Stops \<longleftrightarrow> stopping n e s) \<and> (\<forall>r n'. net_do e n = Goes r n' \<longrightarrow> keeps_order e r n n')"
proof -
  have d: "net_do e n = host_event n e s" using assms(2) by (simp add: net_do_def)
  show ?thesis
  proof (cases e)
    case (Post a p m data rnd accepted heap1 heap2)
    then have h: "hosts n a = Some s" using assms(2) by simp
    show ?thesis
    proof (cases "sendLock s")
      case False
      from step_post [OF assms(1) h False Post] show ?thesis
        unfolding d using False Post by (auto split: if_split_asm simp del: host_event.simps)
    qed (simp add: d [unfolded Post] Post)
  next
    case (SendInterrupt a)
    with step_callbacks(1) [OF assms(1), of a s] show ?thesis using assms(2) d by (cases "send_pending s = 0") auto
  next
    case (SendReturns a)
    with step_callbacks(2) [OF assms(1), of a s] show ?thesis using assms(2) d by (cases "messageSent s = 0") auto
  next
    case (RecvInterrupt a)
    then have "hosts n a = Some s" using assms(2) by simp
    from step_recv [OF assms(1) this] show ?thesis unfolding RecvInterrupt d [unfolded RecvInterrupt] by (auto simp del: host_event.simps)
  next
    case (PostmanTakes a)
    then have h: "hosts n a = Some s" using assms(2) by simp
    show ?thesis
    proof (cases "worker s = None \<and> messageAvailable s \<noteq> 0")
      case True
      with step_take [OF assms(1) h] show ?thesis
        unfolding PostmanTakes d [unfolded PostmanTakes] by (auto split: if_split_asm simp del: host_event.simps)
    qed (auto simp: d [unfolded PostmanTakes] PostmanTakes)
  next
    case (PostmanPuts a)
    then have h: "hosts n a = Some s" using assms(2) by simp
    show ?thesis
    proof (cases "worker s")
      case (Some w)
      then obtain p m where "worker s = Some (p, m)" by (cases w) simp
      from step_put [OF assms(1) h this] show ?thesis unfolding PostmanPuts d [unfolded PostmanPuts] by (auto simp del: host_event.simps)
    qed (simp add: d [unfolded PostmanPuts] PostmanPuts)
  next
    case (GetMail a box)
    then have h: "hosts n a = Some s" using assms(2) by simp
    show ?thesis
    proof (cases "arr_get (boxes s) box")
      case None
      then show ?thesis using d GetMail by (auto simp: arr_get_def numBoxes_def split: if_split_asm)
    next
      case (Some ms)
      then have b: "0 \<le> box" "box < numBoxes s" by (auto simp: arr_get_def numBoxes_def split: if_split_asm)
      show ?thesis
      proof (cases ms)
        case Nil
        then show ?thesis using Some d GetMail b by simp
      next
        case (Cons m rest)
        then have "arr_get (boxes s) box = Some (m # rest)" using Some by simp
        from step_get [OF assms(1) h this] show ?thesis unfolding GetMail d [unfolded GetMail] using b by (auto simp del: host_event.simps)
      qed
    qed
  qed
qed

subsection \<open>Runs\<close>

text \<open>What no event changes: which machines there are, their names, mailboxes and reliability.\<close>

definition fixed :: "host \<Rightarrow> NetworkAddress \<times> int \<times> rat" where
  "fixed s = (hostName s, numBoxes s, chanceToWork s)"

definition same_machines :: "network \<Rightarrow> network \<Rightarrow> bool" where
  "same_machines n n' \<longleftrightarrow> (\<forall>a. map_option fixed (hosts n' a) = map_option fixed (hosts n a))"

named_theorems stay

lemma NetworkInput_CallBack_fixed [stay]: "NetworkInput_CallBack s w = Some (s', w') \<Longrightarrow> fixed s' = fixed s"
  by (auto simp: NetworkInput_CallBack_def PostOfficeInput_CallBack_def fixed_def numBoxes_def Let_def bind_Some_conv split: if_split_asm)

lemma PostalDelivery_take_fixed [stay]: "PostalDelivery_take s = Some s' \<Longrightarrow> fixed s' = fixed s"
  by (auto simp: PostalDelivery_take_def NetworkInput_Receive_def fixed_def numBoxes_def Let_def bind_Some_conv split: if_split_asm)

lemma PostalDelivery_put_fixed [stay]: "PostalDelivery_put s p m = Some s' \<Longrightarrow> fixed s' = fixed s"
  by (auto simp: PostalDelivery_put_def arr_set_def fixed_def numBoxes_def bind_Some_conv split: if_split_asm)

lemma PostOfficeOutput_Send_fixed [stay]:
  "PostOfficeOutput_Send s p m data rnd heap1 heap2 = Some (s', q) \<Longrightarrow> fixed s' = fixed s"
  by (auto simp: PostOfficeOutput_Send_def NetworkOutput_Send_def fixed_def numBoxes_def Let_def bind_Some_conv split: if_split_asm)

lemma PostOfficeInput_Receive_fixed [stay]: "PostOfficeInput_Receive s box m rest = Some s' \<Longrightarrow> fixed s' = fixed s"
  by (auto simp: PostOfficeInput_Receive_def arr_set_def fixed_def numBoxes_def bind_Some_conv split: if_split_asm)

lemma fixed_update [simp]: "fixed (s\<lparr>send_pending := i\<rparr>) = fixed s" "fixed (s\<lparr>messageSent := i\<rparr>) = fixed s"
  "fixed (s\<lparr>sendLock := b\<rparr>) = fixed s" "fixed (s\<lparr>sendBusy := b\<rparr>) = fixed s" "fixed (s\<lparr>messageAvailable := i\<rparr>) = fixed s"
  by (simp_all add: fixed_def numBoxes_def)

lemma set_host_same: "hosts n a = Some s \<Longrightarrow> fixed s' = fixed s \<Longrightarrow> same_machines n (set_host a s' n)"
  by (simp add: same_machines_def set_host_def)

lemma same_sockets [simp]: "same_machines n (n'\<lparr>sockets := w\<rparr>) = same_machines n n'"
  "set_host a s (n\<lparr>sockets := w\<rparr>) = (set_host a s n)\<lparr>sockets := w\<rparr>"
  by (simp_all add: same_machines_def set_host_def)

lemma step_same:
  assumes "net_do e n = Goes r n'"
  shows "same_machines n n'"
proof -
  obtain s where s: "hosts n (event_host e) = Some s" and g: "host_event n e s = Goes r n'"
    using assms by (auto simp: net_do_def split: option.splits)
  note same = set_host_same [OF s]
  show ?thesis using g
    by (cases e) (use same in \<open>auto simp: goes_def Let_def bind_Some_conv SendToSocket_def NetworkOutput_CallBack_def
      PostOfficeOutput_CallBack_def split: option.splits if_split_asm list.splits dest!: stay\<close>)
qed

text \<open>A network that has just been started: new machines, and empty sockets.\<close>

definition booted :: "network \<Rightarrow> bool" where
  "booted n \<longleftrightarrow> (\<forall>a. sockets n a = []) \<and>
     (\<forall>a s. hosts n a = Some s \<longrightarrow> (\<exists>nBoxes reliability heap1 heap2. s = host_new a nBoxes reliability heap1 heap2))"

lemma booted_ok:
  assumes "booted n"
  shows "net_ok n" and "channel n a b = []"
proof -
  have new: "host_ok a (host_new a k r h1 h2)" for a k r h1 h2
    by (auto simp: host_ok_def host_new_def numBoxes_def)
  show "net_ok n" using assms new by (fastforce simp: booted_def net_ok_def)
  show "channel n a b = []"
    using assms by (fastforce simp: booted_def channel_def host_new_def in_transit_def in_hands_def in_device_def box_mail_def
        for_box_def arr_get_def split: option.split)
qed

definition sent :: "network \<Rightarrow> (event \<times> Mail option) list \<Rightarrow> NetworkAddress \<Rightarrow> int \<Rightarrow> Mail list" where
  "sent n es a b = concat (map (\<lambda>(e, r). sent_by n e a b) es)"

definition taken :: "(event \<times> Mail option) list \<Rightarrow> NetworkAddress \<Rightarrow> int \<Rightarrow> Mail list" where
  "taken es a b = concat (map (\<lambda>(e, r). taken_by e r a b) es)"

lemma sent_by_same:
  assumes "same_machines n n'"
  shows "sent_by n' e a b = sent_by n e a b"
proof (cases e)
  case (Post c p m data rnd accepted heap1 heap2)
  have m: "map_option fixed (hosts n' x) = map_option fixed (hosts n x)" for x using assms by (simp add: same_machines_def)
  have "hosts n' (ph_to p) = None \<longleftrightarrow> hosts n (ph_to p) = None" using m [of "ph_to p"] by (metis map_option_is_None)
  then show ?thesis using m [of c] unfolding Post
    by (cases "hosts n c"; cases "hosts n' c") (auto simp: lost_def fixed_def)
qed simp_all

lemma run_order:
  assumes "net_run n es n'" and "net_ok n"
  shows "net_ok n'" and "same_machines n n'" and "channel n a b @ sent n es a b = taken es a b @ channel n' a b"
proof -
  have "net_ok n' \<and> same_machines n n' \<and> channel n a b @ sent n es a b = taken es a b @ channel n' a b"
    using assms
  proof (induction rule: net_run.induct)
    case (start n)
    then show ?case by (simp add: same_machines_def sent_def taken_def)
  next
    case (step n es n1 e r n2)
    then have IH: "net_ok n1" "same_machines n n1" "channel n a b @ sent n es a b = taken es a b @ channel n1 a b" by auto
    have g: "net_do e n1 = Goes r n2" using step.hyps(2) by (simp add: net_step_iff)
    then obtain s where "hosts n1 (event_host e) = Some s" by (auto simp: net_do_def split: option.splits)
    from every_event [OF IH(1) this] g
    have k: "net_ok n2" "channel n1 a b @ sent_by n1 e a b = taken_by e r a b @ channel n2 a b"
      by (auto simp: keeps_order_def)
    have "same_machines n n2" using IH(2) step_same [OF g] by (simp add: same_machines_def)
    moreover have "channel n a b @ sent n (es @ [(e, r)]) a b = taken (es @ [(e, r)]) a b @ channel n2 a b"
      using IH(3) k(2) sent_by_same [OF IH(2)] by (simp add: sent_def taken_def) (metis append.assoc)
    ultimately show ?case using k(1) by blast
  qed
  then show "net_ok n'" "same_machines n n'" "channel n a b @ sent n es a b = taken es a b @ channel n' a b" by blast+
qed

text \<open>A message addressed to a mailbox that its destination has, if there is such a machine.\<close>

fun well_addressed :: "network \<Rightarrow> event \<Rightarrow> bool" where
  "well_addressed n (Post a p m data rnd accepted heap1 heap2) \<longleftrightarrow>
     (case hosts n (ph_to p) of None \<Rightarrow> True | Some s \<Rightarrow> sint (mh_to m) < numBoxes s)"
| "well_addressed n e \<longleftrightarrow> True"

lemma sent_by_addressed:
  assumes "sent_by n e a b \<noteq> []" and "well_addressed n e"
  obtains s where "hosts n a = Some s" and "b < numBoxes s"
proof (cases e)
  case (Post c p m data rnd accepted heap1 heap2)
  then show ?thesis using assms that by (auto split: option.splits if_split_asm)
qed (use assms(1) in simp_all)

text \<open>A chain of events, each of which goes through.\<close>

fun do_all :: "network \<Rightarrow> event list \<Rightarrow> ((event \<times> Mail option) list \<times> network) option" where
  "do_all n [] = Some ([], n)"
| "do_all n (e # es) = (case net_do e n of
     Goes r n1 \<Rightarrow> (case do_all n1 es of None \<Rightarrow> None | Some (rs, n2) \<Rightarrow> Some ((e, r) # rs, n2))
   | _ \<Rightarrow> None)"

lemma net_run_Cons: "net_run n1 es n2 \<Longrightarrow> net_step e r n n1 \<Longrightarrow> net_run n ((e, r) # es) n2"
proof (induction rule: net_run.induct)
  case (start n1)
  then show ?case using net_run.step [OF net_run.start] by fastforce
next
  case (step n1 es n2 f q n3)
  then show ?case using net_run.step [of n "(e, r) # es" n2 f q n3] by simp
qed

lemma do_all_run: "do_all n es = Some (rs, n') \<Longrightarrow> net_run n rs n'"
proof (induction es arbitrary: n rs)
  case Nil
  then show ?case by (auto intro: net_run.start)
next
  case (Cons e es)
  then obtain r n1 rs1 where d: "net_do e n = Goes r n1" "do_all n1 es = Some (rs1, n')" "rs = (e, r) # rs1"
    by (auto split: outcome.splits option.splits)
  show ?case unfolding d(3) by (rule net_run_Cons [OF Cons.IH [OF d(2)]]) (simp add: net_step_iff d(1))
qed

text \<open>
  C8. The mail of a mailbox is a first-in first-out channel: in every run of a network of newly started
  machines, however their threads and interrupts interleave, the mail that threads have got from a
  mailbox, followed by the mail that is still in it or on its way to it, is exactly the mail that was
  sent to it and not lost, in the order of sending. No mail is changed, duplicated, overtaken or
  delivered to another mailbox, and each names the machine that it comes from.
\<close>

theorem mail_arrives_in_order:
  assumes "booted n0" and "net_run n0 es n"
  shows "sent n0 es a b = taken es a b @ channel n a b"
  using run_order(3) [OF assms(2) booted_ok(1) [OF assms(1)], of a b] booted_ok(2) [OF assms(1)] by simp



subsection \<open>Two machines\<close>

definition demo_net :: network where
  "demo_net = \<lparr>hosts = [1 \<mapsto> host_new 1 1 1 [] [], 2 \<mapsto> host_new 2 2 1 [] []], sockets = \<lambda>_. []\<rparr>"

definition demo_post :: "u32 \<Rightarrow> event" where
  "demo_post b = Post 1 \<lparr>ph_to = 2, ph_from = 0, ph_length = 0\<rparr> \<lparr>mh_to = b, mh_from = 0, mh_length = 2\<rparr> [104, 105] 7 True [] []"

lemma demo_booted: "booted demo_net"
  by (auto simp: booted_def demo_net_def)

lemma demo_hi: "map_option (\<lambda>(rs, n). (map (\<lambda>m. (ph_from (pktHdr m), mail_data m)) (taken rs 2 1), list_all (\<lambda>(e, r). well_addressed demo_net e) rs))
    (do_all demo_net [demo_post 1, RecvInterrupt 2, PostmanTakes 2, PostmanPuts 2, SendInterrupt 1, GetMail 2 1, SendReturns 1]) =
  Some ([(1, [104, 105])], True)"
  by code_simp

lemma demo_stray: "map_option (\<lambda>(rs, n). map_option (stopping n (PostmanTakes 2)) (hosts n 2)) (do_all demo_net [demo_post 5, RecvInterrupt 2]) =
  Some (Some True)"
  by code_simp

theorem mail_arrives_in_order_witness:
  "\<exists>es n ms. net_run demo_net es n \<and> sent demo_net es 2 1 = taken es 2 1 @ ms \<and> map mail_data (taken es 2 1) = [[104, 105]]"
proof -
  obtain es n where d: "do_all demo_net [demo_post 1, RecvInterrupt 2, PostmanTakes 2, PostmanPuts 2, SendInterrupt 1, GetMail 2 1, SendReturns 1] = Some (es, n)"
    "map (\<lambda>m. (ph_from (pktHdr m), mail_data m)) (taken es 2 1) = [(1, [104, 105])]" using demo_hi by auto
  have "map mail_data (taken es 2 1) = [[104, 105]]" using arg_cong [OF d(2), of "map snd"] by (simp add: comp_def)
  then show ?thesis using mail_arrives_in_order [OF demo_booted do_all_run [OF d(1)], of 2 1] do_all_run [OF d(1)]
    by (intro exI [of _ es] exI [of _ n] exI [of _ "channel n 2 1"]) simp
qed



end
