(* ===== verification/FileCopy.thy ===== *)
theory FileCopy
  imports Naming
begin

text \<open>
  Copying a UNIX file into the file system and printing a file of it: the commands \<open>nachos -cp\<close> and
  \<open>nachos -p\<close> (\<open>Copy\<close> and \<open>Print\<close> of \<open>threads/main.cc\<close>), which move a file through \<open>Create\<close>,
  \<open>Open\<close>, \<open>Write\<close> and \<open>Read\<close> in pieces of 128 bytes.
\<close>

definition TransferSize :: int where "TransferSize = 128"

text \<open>
  The loop of \<open>Copy\<close>, on the rest of the UNIX file, of which \<open>ReadPartial\<close> gives as much as there is
  up to the size of the buffer. Nothing looks at what \<open>Write\<close> returns.
\<close>

function copy_loop :: "fs \<Rightarrow> open_file \<Rightarrow> byte list \<Rightarrow> (open_file \<times> fs) option" where
  "copy_loop k f rest =
     (if rest = [] then Some (f, k)
      else do {
        let buffer = take (nat TransferSize) rest;
        (_, f, k) \<leftarrow> Write k f buffer (int (length buffer));
        copy_loop k f (drop (nat TransferSize) rest) })"
  by pat_completeness auto
termination by (relation "measure (\<lambda>(_, _, rest). length rest)") (auto simp: TransferSize_def)

declare copy_loop.simps [simp del]

text \<open>
  \<open>Copy\<close>, with the bytes of the UNIX file, or \<open>None\<close> when it cannot be opened. The length of the file
  is handed to \<open>Create\<close>, whose second argument is the type of the new file.
\<close>

definition Copy :: "fresh_entries \<Rightarrow> fs \<Rightarrow> byte list option \<Rightarrow> byte list \<Rightarrow> fs option" where
  "Copy new_entry k from to = (case from of None \<Rightarrow> Some k
     | Some unix \<Rightarrow> do {
         (created, k) \<leftarrow> Create new_entry k to (int (length unix));
         if \<not> created then Some k
         else do {
           (openFile, k) \<leftarrow> Open new_entry k to;
           f \<leftarrow> openFile;
           (f, k) \<leftarrow> copy_loop k f unix;
           OpenFile_delete k f } })"

text \<open>The loop of \<open>Print\<close>, with what it prints.\<close>

partial_function (option) print_loop :: "fs \<Rightarrow> open_file \<Rightarrow> (byte list \<times> open_file \<times> fs) option" where
  "print_loop k f = Read k f TransferSize \<bind> (\<lambda>(buffer, f, k).
     if buffer = [] then Some ([], f, k)
     else print_loop k f \<bind> (\<lambda>(out, f, k). Some (buffer @ out, f, k)))"

definition Print :: "fresh_entries \<Rightarrow> fs \<Rightarrow> byte list \<Rightarrow> (byte list \<times> fs) option" where
  "Print new_entry k name = do {
     (openFile, k) \<leftarrow> Open new_entry k name;
     case openFile of None \<Rightarrow> Some ([], k)
     | Some f \<Rightarrow> do {
         (out, f, k) \<leftarrow> print_loop k f;
         k \<leftarrow> OpenFile_delete k f;
         Some (out, k) } }"

subsection \<open>Printing\<close>

lemma Read_ok:
  assumes "fs_inv k cs cf" and "file_inv k cf f fs" and "0 \<le> seekPosition f" and "seekPosition f < 1024 \<or> numBytes (hdr f) \<le> seekPosition f"
    and "0 \<le> n"
  obtains d' where "Read k f n =
      (let bs = take (nat n) (drop (nat (seekPosition f)) (file_bytes k f fs)) in
       Some (bs, f\<lparr>seekPosition := seekPosition f + int (length bs)\<rparr>, k\<lparr>dsk := d'\<rparr>))"
    and "idle_after (dsk k) d'" and "sectors d' = sectors (dsk k)"
proof (cases "seekPosition f < 1024")
  case True
  then show ?thesis using ReadAt_ok [OF assms(1-3) True assms(5)] that by (auto simp: Read_def Let_def)
next
  case False
  then have le: "numBytes (hdr f) \<le> seekPosition f" using assms(4) by blast
  then have "int (length (file_bytes k f fs)) \<le> seekPosition f" using length_file_bytes [OF assms(2,1)] by simp
  then have "drop (nat (seekPosition f)) (file_bytes k f fs) = []" by simp
  moreover have "ReadAt k f n (seekPosition f) = Some ([], f, k\<lparr>dsk := dsk k\<rparr>)"
    using le by (simp add: ReadAt_def refresh_current [OF assms(2)] FileLength_def)
  moreover have "idle_after (dsk k) (dsk k)" using assms(1) by (simp add: fs_inv_def)
  ultimately show ?thesis using that [of "dsk k"] by (simp add: Read_def)
qed

lemma take_then_drop: "take n xs @ drop (length (take n xs)) xs = xs"
  by (cases "n \<le> length xs") (simp_all add: min_def)

lemma print_loop_ok:
  assumes "fs_inv k cs cf" and "file_inv k cf f fs" and "0 \<le> seekPosition f" and "numBytes (hdr f) \<le> 1024"
  shows "\<exists>d' p. print_loop k f = Some (drop (nat (seekPosition f)) (file_bytes k f fs), f\<lparr>seekPosition := p\<rparr>, k\<lparr>dsk := d'\<rparr>) \<and>
    idle_after (dsk k) d' \<and> sectors d' = sectors (dsk k)"
  using assms
proof (induction "nat (numBytes (hdr f) - seekPosition f)" arbitrary: k f rule: less_induct)
  case less
  let ?fb = "file_bytes k f fs" and ?p = "nat (seekPosition f)"
  let ?bs = "take (nat TransferSize) (drop ?p ?fb)"
  have "seekPosition f < 1024 \<or> numBytes (hdr f) \<le> seekPosition f" using less.prems(4) by linarith
  then obtain d1 where r: "Read k f TransferSize = Some (?bs, f\<lparr>seekPosition := seekPosition f + int (length ?bs)\<rparr>, k\<lparr>dsk := d1\<rparr>)"
    "idle_after (dsk k) d1" "sectors d1 = sectors (dsk k)"
    using Read_ok [OF less.prems(1-3), of TransferSize] by (auto simp: Let_def TransferSize_def)
  let ?k1 = "k\<lparr>dsk := d1\<rparr>" and ?f1 = "f\<lparr>seekPosition := seekPosition f + int (length ?bs)\<rparr>"
  show ?case
  proof (cases "?bs = []")
    case True
    then have "drop ?p ?fb = []" by (simp add: TransferSize_def)
    with True r show ?thesis by (subst print_loop.simps) (auto intro!: exI [of _ "seekPosition f"])
  next
    case False
    have l: "int (length ?fb) = numBytes (hdr f)" by (rule length_file_bytes [OF less.prems(2,1)])
    have i1: "fs_inv ?k1 cs cf" by (rule fs_inv_cong [OF less.prems(1)]) (simp_all add: same_context_def r(2,3))
    have f1: "file_inv ?k1 cf ?f1 fs" using less.prems(2) by (simp add: file_inv_def)
    have fb: "file_bytes ?k1 ?f1 fs = ?fb" using r(3) by (simp add: file_bytes_def)
    have pos: "0 < length ?bs" using False by simp
    then have "nat (numBytes (hdr ?f1) - seekPosition ?f1) < nat (numBytes (hdr f) - seekPosition f)" using l by simp linarith
    from less.hyps [OF this i1 f1] less.prems(3,4)
    obtain d2 q where p2: "print_loop ?k1 ?f1 = Some (drop (nat (seekPosition ?f1)) (file_bytes ?k1 ?f1 fs), ?f1\<lparr>seekPosition := q\<rparr>, ?k1\<lparr>dsk := d2\<rparr>)"
      "idle_after (dsk ?k1) d2" "sectors d2 = sectors (dsk ?k1)" by auto
    have n: "nat (seekPosition ?f1) = ?p + length ?bs" using less.prems(3) by (simp add: nat_add_distrib del: length_take)
    have "?bs @ drop (length ?bs) (drop ?p ?fb) = drop ?p ?fb" by (rule take_then_drop)
    then have "?bs @ drop (nat (seekPosition ?f1)) (file_bytes ?k1 ?f1 fs) = drop ?p ?fb"
      unfolding fb n by (simp add: add.commute)
    then have "print_loop k f = Some (drop ?p ?fb, f\<lparr>seekPosition := q\<rparr>, k\<lparr>dsk := d2\<rparr>)"
      using r(1) p2(1) False by (subst print_loop.simps) simp
    moreover have "idle_after (dsk k) d2" using r(2) p2(2) idle_after_trans by auto
    ultimately show ?thesis using p2(3) r(3) by auto
  qed
qed

text \<open>A longer file can never be printed: the ninth read begins behind the first fragment.\<close>

lemma print_loop_long:
  assumes "fs_inv k cs cf" and "file_inv k cf f fs" and "1024 < numBytes (hdr f)" and "seekPosition f = 1024 - 128 * int j" and "j \<le> 8"
  shows "print_loop k f = None"
  using assms
proof (induction j arbitrary: k f)
  case 0
  have sb: "fragment_size (superBlock k) = 1024" using 0 by (simp add: fs_inv_def)
  have "ReadAt k f TransferSize 1024 = None"
    using ReadAt_overruns [OF refresh_current [OF 0(2)], of TransferSize 1024] 0(3) sb by (simp add: TransferSize_def)
  then show ?case using 0(4) by (subst print_loop.simps) (simp add: Read_def)
next
  case (Suc j)
  have p: "0 \<le> seekPosition f" "seekPosition f < 1024" using Suc.prems(4,5) by simp_all
  let ?bs = "take (nat TransferSize) (drop (nat (seekPosition f)) (file_bytes k f fs))"
  obtain d1 where r: "Read k f TransferSize = Some (?bs, f\<lparr>seekPosition := seekPosition f + int (length ?bs)\<rparr>, k\<lparr>dsk := d1\<rparr>)"
    "idle_after (dsk k) d1" "sectors d1 = sectors (dsk k)"
    using Read_ok [OF Suc.prems(1,2) p(1), of TransferSize] p(2) by (auto simp: Let_def TransferSize_def)
  have "int (length (file_bytes k f fs)) = numBytes (hdr f)" by (rule length_file_bytes [OF Suc.prems(2,1)])
  then have "128 \<le> length (file_bytes k f fs) - nat (seekPosition f)" using Suc.prems(3-5) by simp
  then have lb: "length ?bs = 128" by (simp add: TransferSize_def)
  let ?k1 = "k\<lparr>dsk := d1\<rparr>" and ?f1 = "f\<lparr>seekPosition := seekPosition f + 128\<rparr>"
  have "print_loop ?k1 ?f1 = None"
  proof (rule Suc.IH)
    show "fs_inv ?k1 cs cf" by (rule fs_inv_cong [OF Suc.prems(1)]) (simp_all add: same_context_def r(2,3))
    show "file_inv ?k1 cf ?f1 fs" using Suc.prems(2) by (simp add: file_inv_def)
  qed (use Suc.prems(3-5) in simp_all)
  moreover have "?bs \<noteq> []" using lb by auto
  ultimately show ?case using r(1) lb by (subst print_loop.simps) simp
qed

subsection \<open>Copying\<close>

text \<open>
  A file of at most 1024 bytes in the middle of being written, open once more than closed, in a
  consistent file system in which the current directory is untouched; there is room for its fragment.
\<close>

definition growing ::
    "int \<Rightarrow> directory \<Rightarrow> file_header \<Rightarrow> int list \<Rightarrow> cylinder_summary list \<Rightarrow> byte list \<Rightarrow> fs \<Rightarrow>
     cylinder_freemap list \<Rightarrow> open_file \<Rightarrow> int list \<Rightarrow> bool" where
  "growing i d h fsd cs bs k cf f fs \<longleftrightarrow> fs_inv k cs cf \<and> file_inv k cf f fs \<and> file_bytes k f fs = bs \<and>
     seekPosition f = numBytes (hdr f) \<and> hdr_id (hdr f) = i \<and> i \<noteq> currentDir k \<and> header_ok (hdr f) \<and>
     stores (sectors (dsk k)) (inode_sector i) 100 (FileHeader_bytes (hdr f)) \<and>
     (\<exists>it. mt_item (metaTable k) i = Some it \<and> finish it = 0 \<and> 1 \<le> usage it \<and>
        (mt_modified it = 0 \<or> mt_modified it = last_modified (hdr f))) \<and>
     dir_on_disk k cf (currentDir k) d h fsd \<and> set fs \<inter> set fsd = {} \<and>
     (numFragments (hdr f) = 0 \<longrightarrow> 0 < card (free_blocks cf))"

lemma grow:
  assumes "growing i d h fsd cs bs k cf f fs" and "c \<noteq> []" and "length bs + length c \<le> 1024"
  shows "\<exists>f' k' cf' fs'. Write k f c (int (length c)) = Some (int (length c), f', k') \<and> currentDir k' = currentDir k \<and>
    growing i d h fsd cs (bs @ c) k' cf' f' fs'"
proof -
  have g: "fs_inv k cs cf" "file_inv k cf f fs" "file_bytes k f fs = bs" "seekPosition f = numBytes (hdr f)" "hdr_id (hdr f) = i"
    "i \<noteq> currentDir k" "header_ok (hdr f)" "dir_on_disk k cf (currentDir k) d h fsd" "set fs \<inter> set fsd = {}"
    "numFragments (hdr f) = 0 \<longrightarrow> 0 < card (free_blocks cf)"
    using assms(1) by (simp_all add: growing_def)
  obtain it where it: "mt_item (metaTable k) i = Some it" "finish it = 0" "1 \<le> usage it"
    using assms(1) by (auto simp: growing_def)
  let ?n = "int (length c)" and ?p = "numBytes (hdr f)"
  have lb: "int (length bs) = ?p" using length_file_bytes [OF g(2,1)] g(3) by simp
  have bounds: "0 \<le> ?p" "?p + ?n \<le> 16384" "0 < ?n" "?p + ?n \<le> 1024" using lb assms(2,3) by simp_all
  have nf: "numFragments (hdr f) = divRoundUp ?p 1024" using g(2) by (simp add: file_inv_def)
  have need: "divRoundUp (max (?p + ?n) ?p) 1024 \<le> 1" using bounds divRoundUp_le_iff [of "?p + ?n" 1024 1] by (simp add: max_def)
  have nf0: "0 \<le> numFragments (hdr f)" unfolding nf using divRoundUp_bounds [of ?p 1024] bounds(1) by (simp add: divRoundUp_def)
  obtain r f1 k' where w: "WriteAt k f c ?n ?p = Some (r, f1, k')"
    "r = ?n \<and> (\<exists>cf' fs'. fs_inv k' cs cf' \<and> written k cf f fs ?p c k' f1 cf' fs') \<or>
     r = 0 \<and> numFragments (hdr f) < divRoundUp (max (?p + ?n) ?p) 1024 \<and>
       int (card (free_blocks cf)) \<le> divRoundUp (max (?p + ?n) ?p) 1024 div 4 - numFragments (hdr f) div 4"
    using WriteAt_spec [OF g(1,2) bounds(1) order_refl refl bounds(2)] by blast
  have "\<not> (numFragments (hdr f) < divRoundUp (max (?p + ?n) ?p) 1024 \<and>
       int (card (free_blocks cf)) \<le> divRoundUp (max (?p + ?n) ?p) 1024 div 4 - numFragments (hdr f) div 4)"
  proof
    assume full: "numFragments (hdr f) < divRoundUp (max (?p + ?n) ?p) 1024 \<and>
       int (card (free_blocks cf)) \<le> divRoundUp (max (?p + ?n) ?p) 1024 div 4 - numFragments (hdr f) div 4"
    then have "numFragments (hdr f) = 0" using need nf0 by linarith
    moreover have "divRoundUp (max (?p + ?n) ?p) 1024 div 4 \<le> 0" using need by linarith
    ultimately show False using full g(10) by simp
  qed
  then obtain cf' fs' where r: "r = ?n" "fs_inv k' cs cf'" "written k cf f fs ?p c k' f1 cf' fs'" using w(2) by blast
  have sv: "saved k cf f fs k' f1 cf' fs'" and fb: "file_bytes k' f1 fs' = bs @ c"
    using r(3) g(3) lb by (auto simp: written_def overwrite_def)
  have aw: "after_write k f k' f1" and fi: "file_inv k' cf' f1 fs'" using sv by (simp_all add: saved_def)
  have nb: "numBytes (hdr f1) = ?p + ?n" using length_file_bytes [OF fi r(2)] fb lb by simp
  let ?f = "f1\<lparr>seekPosition := ?p + ?n\<rparr>"
  have cur: "currentDir k' = currentDir k" using aw by (simp add: after_write_def)
  have W: "Write k f c ?n = Some (?n, ?f, k')"
    using w(1) r(1) g(4) aw by (simp add: Write_def after_write_def)
  have dir: "closed_file k cf (currentDir k) h fsd" using g(8) by (simp add: dir_on_disk_def)
  have cb: "1 \<le> currentDir k" "currentDir k \<le> 64" using dir by (simp_all add: closed_file_def)
  have keep: "used cf' x \<and> x \<notin> set fs' \<and> frag (sectors (dsk k')) x = frag (sectors (dsk k)) x" if "x \<in> set fsd" for x
  proof -
    have "used cf x" using dir that by (auto simp: closed_file_def direct_file_def owned_def)
    then show ?thesis
      using saved_others [OF sv closed_file_data [OF dir that]] that g(9) by blast
  qed
  have "direct_file cf' h fsd" by (rule direct_file_used [of cf]) (use dir keep in \<open>auto simp: closed_file_def\<close>)
  then have "dir_on_disk k' cf' (currentDir k) d h fsd"
    by (intro dir_on_disk_cong [OF g(8)]) (use aw cb g(5,6) keep in \<open>auto simp: after_write_def\<close>)
  moreover have "numFragments (hdr f1) \<noteq> 0"
  proof -
    have "0 < divRoundUp (?p + ?n) 1024" using divRoundUp_le_iff [of "?p + ?n" 1024 0] bounds by linarith
    then show ?thesis using fi nb by (simp add: file_inv_def)
  qed
  moreover have "header_ok (hdr f1)" using aw g(7) by (simp add: after_write_def)
  moreover have "set fs' \<inter> set fsd = {}" using keep by blast
  moreover have "file_inv k' cf' ?f fs'" "file_bytes k' ?f fs' = bs @ c" using fi fb by (simp_all add: file_inv_def file_bytes_def)
  ultimately have "growing i d h fsd cs (bs @ c) k' cf' ?f fs'"
    using r(2) nb aw it g(5,6) cur by (simp add: growing_def after_write_def)
  then show ?thesis using W cur by blast
qed

lemma copy_loop_ok:
  assumes "growing i d h fsd cs bs k cf f fs" and "length bs + length rest \<le> 1024"
  shows "\<exists>f' k' cf' fs'. copy_loop k f rest = Some (f', k') \<and> currentDir k' = currentDir k \<and>
    growing i d h fsd cs (bs @ rest) k' cf' f' fs'"
  using assms
proof (induction "length rest" arbitrary: rest bs k cf f fs rule: less_induct)
  case less
  show ?case
  proof (cases "rest = []")
    case True
    then show ?thesis using less.prems(1) by (subst copy_loop.simps) auto
  next
    case False
    let ?c = "take (nat TransferSize) rest" and ?r = "drop (nat TransferSize) rest"
    have c: "?c \<noteq> []" "length bs + length ?c \<le> 1024" using False less.prems(2) by (simp_all add: TransferSize_def)
    obtain f1 k1 cf1 fs1 where w: "Write k f ?c (int (length ?c)) = Some (int (length ?c), f1, k1)" "currentDir k1 = currentDir k"
      "growing i d h fsd cs (bs @ ?c) k1 cf1 f1 fs1" using grow [OF less.prems(1) c] by blast
    have sm: "length ?r < length rest" "length (bs @ ?c) + length ?r \<le> 1024" using False less.prems(2) by (simp_all add: TransferSize_def)
    obtain f2 k2 cf2 fs2 where l: "copy_loop k1 f1 ?r = Some (f2, k2)" "currentDir k2 = currentDir k1"
      "growing i d h fsd cs ((bs @ ?c) @ ?r) k2 cf2 f2 fs2"
      using less.hyps [OF sm(1) w(3) sm(2)] by blast
    have "copy_loop k f rest = Some (f2, k2)" using False w(1) l(1) by (subst copy_loop.simps) (simp add: Let_def)
    then show ?thesis using l(2,3) w(2) by auto
  qed
qed

subsection \<open>A file is copied and printed\<close>

text \<open>Closing the copy: the file lies on the disk as it was written, and the directory is as before.\<close>

lemma close_grown:
  assumes "growing i d h fsd cs bs k cf f fs"
  obtains k' where "OpenFile_delete k f = Some k'" and "fs_inv k' cs cf" and "currentDir k' = currentDir k"
    and "dir_on_disk k' cf (currentDir k') d h fsd" and "closed_file k' cf i (hdr f) fs"
    and "take (nat (numBytes (hdr f))) (contents (sectors (dsk k')) fs) = bs" and "numBytes (hdr f) = int (length bs)"
proof -
  have g: "fs_inv k cs cf" "file_inv k cf f fs" "file_bytes k f fs = bs" "hdr_id (hdr f) = i"
    "i \<noteq> currentDir k" "header_ok (hdr f)" "dir_on_disk k cf (currentDir k) d h fsd"
    "stores (sectors (dsk k)) (inode_sector i) 100 (FileHeader_bytes (hdr f))"
    using assms by (simp_all add: growing_def)
  obtain it where it: "mt_item (metaTable k) (hdr_id (hdr f)) = Some it" "finish it = 0" "1 \<le> usage it"
    "mt_modified it = 0 \<or> mt_modified it = last_modified (hdr f)"
    using assms by (auto simp: growing_def)
  obtain t where t: "OpenFile_delete k f = Some (k\<lparr>metaTable := t\<rparr>)"
    "mt_item t = (mt_item (metaTable k))(hdr_id (hdr f) :=
      Some (if usage it \<le> 1 then it\<lparr>usage := 0, mt_modified := 0\<rparr> else it\<lparr>usage := usage it - 1\<rparr>))"
    by (rule OpenFile_delete_ok [OF it(1,2)])
  let ?k = "k\<lparr>metaTable := t\<rparr>"
  have "fs_inv ?k cs cf" using g(1) by (simp add: fs_inv_def)
  moreover have "dir_on_disk ?k cf (currentDir ?k) d h fsd"
    using dir_on_disk_cong [OF g(7), of ?k cf] t(2) g(4,5,7) by (simp add: dir_on_disk_def closed_file_def)
  moreover have "closed_file ?k cf i (hdr f) fs"
    using g(2,4,6,8) t(2) it by (auto simp: closed_file_def file_inv_def)
  moreover have "take (nat (numBytes (hdr f))) (contents (sectors (dsk ?k)) fs) = bs" using g(3) by (simp add: file_bytes_def)
  moreover have "numBytes (hdr f) = int (length bs)" using length_file_bytes [OF g(2,1)] g(3) by simp
  ultimately show ?thesis using that t(1) by simp
qed

lemma Print_file:
  assumes "fs_inv k cs cf" and "dir_on_disk k cf (currentDir k) d h fsd" and "fresh_ok fresh"
    and "is_root name = Some False" and "terminated name" and "Directory_Find d name = Some i"
    and "closed_file k cf i nh fs" and "i \<noteq> currentDir k"
    and "take (nat (numBytes nh)) (contents (sectors (dsk k)) fs) = bs" and "numBytes nh \<le> 1024"
  shows "\<exists>k'. Print fresh k name = Some (bs, k') \<and> sectors (dsk k') = sectors (dsk k)"
proof -
  let ?f = "\<lparr>seekPosition = 0, hdr = nh\<rparr>"
  obtain k1 it where o: "Open fresh k name = Some (Some ?f, k1)" "fs_inv k1 cs cf" "file_inv k1 cf ?f fs"
    "sectors (dsk k1) = sectors (dsk k)" "mt_item (metaTable k1) i = Some it" "finish it = 0"
    using Open_found [OF assms(1-8)] by blast
  have p: "0 \<le> seekPosition ?f" "numBytes (hdr ?f) \<le> 1024" using assms(10) by simp_all
  have fb: "file_bytes k1 ?f fs = bs" using assms(9) o(4) by (simp add: file_bytes_def)
  obtain d2 q where r: "print_loop k1 ?f = Some (bs, ?f\<lparr>seekPosition := q\<rparr>, k1\<lparr>dsk := d2\<rparr>)" "sectors d2 = sectors (dsk k1)"
    using print_loop_ok [OF o(2,3) p] fb by auto
  have "hdr_id nh = i" using assms(7) by (simp add: closed_file_def)
  then obtain t where "OpenFile_delete (k1\<lparr>dsk := d2\<rparr>) (?f\<lparr>seekPosition := q\<rparr>) = Some (k1\<lparr>dsk := d2, metaTable := t\<rparr>)"
    using OpenFile_delete_ok [of "k1\<lparr>dsk := d2\<rparr>" "?f\<lparr>seekPosition := q\<rparr>" it] o(5,6) by auto
  then show ?thesis using o(1,4) r by (simp add: Print_def)
qed



end
