(* ===== verification/Spec2Isabelle.thy ===== *)
theory Spec2Isabelle
  imports Bitmap HashTable Mips_Correct Naming Kernel_Progress Loader Network FileCopy
begin

text \<open>
  A verification library for Nachos, the instructional operating system in
  \<open>src/courses/su/cis657/Final Project/\<close>, with the file system that the final project adds. Paths
  below are relative to its directory \<open>code/\<close>.

  \<^bold>\<open>The program.\<close> Nachos is a kernel that runs on a machine it simulates itself: a MIPS processor with
  memory and address translation, interrupts driven by simulated time, a timer, a disk, a console and a
  network device (\<open>machine/\<close>). On it run threads with a scheduler, semaphores, locks, conditions and
  synchronized lists (\<open>threads/\<close>), a file system with cylinder groups, free maps, i-nodes and
  directories (\<open>filesys/\<close>), user programs in address spaces (\<open>userprog/\<close>) and a post office
  between machines (\<open>network/\<close>), all made of the data structures in \<open>lib/\<close>.
  The program \<open>coff2noff\<close> beside \<open>code/\<close> prepares user programs.

  \<^bold>\<open>How it is modelled.\<close> Definitions keep the names of the source. A run that ends in \<open>ASSERT\<close>, in an
  access outside an array or through a pointer to nothing is \<open>None\<close>; everything else is \<open>Some\<close> of the
  new state. Registers, addresses and bytes are machine words; C \<open>int\<close>s that cannot overflow where they
  are used are integers. Storage that the source does not initialize is a parameter (\<open>junk\<close>,
  \<open>fresh_entries\<close>, \<open>stack_junk\<close>, \<open>heap\<close>), so that theorems hold for every content. The clock and the
  random numbers of the host, the keyboard and the sockets are inputs.

  \<^bold>\<open>Data structures.\<close>
  \<^item> \<open>Nachos_Prelude\<close>: \<open>ASSERT\<close>, checked arrays, counted loops, the division macros of \<open>lib/utility.h\<close>,
    integers as bytes.
  \<^item> \<open>Bitmap\<close> (\<open>lib/bitmap\<close>): every operation; the locale \<open>free_map\<close> says what a map of free places
    promises, and the file system uses bitmaps only through it.
  \<^item> \<open>NList\<close> (\<open>lib/list\<close>): linked cells in a heap refine sequences; \<open>SortedList::Insert\<close> keeps a list sorted
    and is stable; the locale \<open>fifo_queue\<close>.
  \<^item> \<open>HashTable\<close> (\<open>lib/hash\<close>): the table refines a map (locale \<open>dictionary\<close>), rehashing keeps it, the
    iterator visits every item and ends.

  \<^bold>\<open>The machine.\<close>
  \<^item> \<open>Machine\<close> (\<open>machine/machine\<close>, \<open>translate\<close>): translation is sound, and memory read after a write gives
    what was written.
  \<^item> \<open>Mips\<close>, \<open>Mips_Correct\<close>, \<open>Mips_Frame\<close> (\<open>machine/mipssim\<close>): every instruction; no program can stop
    the simulator except by one division, the arithmetic is right, and what no program can change.
  \<^item> \<open>Disk\<close> (\<open>machine/disk\<close>, \<open>filesys/synchdisk\<close>): the timing of the disk, and that what is written is read.

  \<^bold>\<open>The file system.\<close>
  \<^item> \<open>FsMeta\<close> (\<open>superblock\<close>, \<open>cylindersummary\<close>, \<open>cylinderfreemap\<close>, \<open>indirect\<close>, \<open>filehdr\<close>, \<open>metatable\<close>): the
    structures on the disk as instances of the locale \<open>stored_object\<close>.
  \<^item> \<open>FsSearch\<close>, \<open>FsAlloc\<close>, \<open>FsAlloc_Correct\<close>, \<open>FsLayout\<close> (\<open>filesys.cc\<close>: formatting, mounting,
    \<open>Allocate\<close>, \<open>Unlink\<close>): the searches find the first place; allocation hands out free fragments and
    marks exactly them; a formatted disk is mounted with what was written.
  \<^item> \<open>OpenFile\<close>, \<open>OpenFile_Correct\<close>, \<open>FileWrite\<close> (\<open>openfile.cc\<close>): a file of at most 16 fragments is an array
    of bytes, read from its first fragment on and written anywhere.
  \<^item> \<open>Directory\<close>, \<open>DirFile\<close> (\<open>directory.cc\<close>): a directory is a table of names (locales \<open>name_lookup\<close>,
    \<open>name_table\<close>) that survives its file.
  \<^item> \<open>FileSys\<close>, \<open>FileSys_Correct\<close>, \<open>Naming\<close> (\<open>filesys.cc\<close>: \<open>CreateRoot\<close>, \<open>Create\<close>, \<open>Open\<close>, \<open>Remove\<close>): the
    invariant \<open>fs_inv\<close> of the disk and \<open>dir_on_disk\<close> of the current directory, kept by the operations.
  \<^item> \<open>FileCopy\<close> (\<open>threads/main.cc\<close>): the commands that copy and print a file, through all of the above.

  \<^bold>\<open>The kernel.\<close> One record holds threads, queues, interrupts, devices and the processor. The stack of a
  thread is the list of the functions it still has to go on with, cut where the source can lose the
  processor or be interrupted; one step runs the innermost frame of the current thread.
  \<^item> \<open>Kernel_State\<close>, \<open>Synch\<close>, \<open>Kernel\<close>: the state, the operations of \<open>threads/\<close>, the devices, the system
    calls, the start and the step.
  \<^item> \<open>Monitor\<close>: the same synchronization objects without scheduler and interrupts, as an abstract machine
    of atomic steps, with its invariants by rule induction.
  \<^item> \<open>Kernel_Inv\<close>, \<open>Kernel_Switch\<close>, \<open>Kernel_Irq\<close>, \<open>Kernel_Safe\<close>, \<open>Kernel_Step\<close>: the invariant of the
    scheduler, the interrupts and the devices, and that each step is possible and keeps it.
  \<^item> \<open>Kernel_Abs\<close>, \<open>Kernel_Refine\<close>: a step of the kernel is a sequence of steps of \<open>Monitor\<close>.
  \<^item> \<open>Kernel_Correct\<close>: what follows for every reachable state. The kernel stops only on wrong calls, locks
    exclude, each thread is in one place, no signal is lost.
  \<^item> \<open>Kernel_Quiet\<close>, \<open>Kernel_Progress\<close>: the timer is always pending, so no ready thread starves; user
    registers survive switches.

  \<^bold>\<open>User programs and the network.\<close>
  \<^item> \<open>Noff\<close> (\<open>coff2noff.c\<close>, \<open>userprog/noff.h\<close>) and \<open>Loader\<close> (\<open>userprog/addrspace.cc\<close>): the sections of a linked
    program reach their addresses in memory through conversion, file system and \<open>Load\<close>; a machine with
    a loaded program is a proper start of the kernel (\<open>loaded_program_boots\<close>); the two address
    translations agree.
  \<^item> \<open>Network\<close> (\<open>machine/network\<close>, \<open>network/post\<close>, the sockets of \<open>lib/sysdep.cc\<close>): machines that interleave;
    each mailbox is a first-in first-out channel with losses, and the exact conditions under which a
    machine stops.

  \<^bold>\<open>Bounds and fuel.\<close> Loops over arrays are counted and total. The loop of \<open>CheckIfDue\<close> and that of \<open>Print\<close>
  are \<open>partial_function\<close>s, and are proved to return (\<open>Kernel_Irq\<close>, \<open>FileCopy\<close>). \<open>run\<close> and
  \<open>others_run\<close> count steps and serve concrete runs only; progress is proved by a lexicographic measure
  of the place in the ready list and the time to the next timer interrupt, without fuel. Contents of
  files are proved for up to 16 direct fragments (16 KB), and reading for positions in the first
  fragment: the source has no correct behaviour beyond it (\<open>ReadAt_beyond_first_fragment\<close>). \<open>Copy\<close> is proved
  for files of one fragment, which is also all that \<open>Print\<close> can print.

  \<^bold>\<open>Not modelled.\<close> Overflow of the 32-bit tick counters and semaphore values; host stacks and the
  assembly of \<open>SWITCH\<close>; reuse of freed memory, and destructors; the debugger, debug messages, statistics,
  command line and test drivers. The kernel part does not contain the file system and the network:
  these are models of their own, in which the locks and semaphores they use act at once, which is what
  \<open>Kernel_Refine\<close> shows of the real ones. The file system is sequential; indirect blocks are
  modelled, but contents are proved for direct fragments only. The four other Nachos trees
  (\<open>Assignment1\<close>, \<open>Assignment2\<close>, \<open>Lab2\<close>, \<open>Lab3\<close>) are earlier states of this one, and the other courses of
  the repository are unrelated exercises.
\<close>

end
